(* ===== verification/Myna_Prelude.thy ===== *)
theory Myna_Prelude
  imports Main "HOL-Library.Word"
begin

text \<open>
  Shared vocabulary of the development: the machine integers and strings of the Rust
  sources, the string functions of Rust's standard library that the sources call, the
  option and list lemmas several components use, and the locales that state what a
  deterministic event machine promises (an invariant kept by every step, a halting state
  nothing leaves, an output emitted at most once). Each component interprets these locales
  on its own step function.
\<close>

section \<open>Machine integers and strings\<close>

type_synonym u8 = "8 word"
type_synonym u16 = "16 word"
type_synonym u32 = "32 word"
type_synonym u64 = "64 word"
type_synonym byte = u8

text \<open>
  A Rust \<open>char\<close> is a Unicode scalar value, a \<open>String\<close> a sequence of them. They are
  modelled by their code points, so that \<open>chars().count()\<close> is \<open>length\<close>. An ASCII
  literal of the source is written \<open>lit ''...''\<close>.
\<close>

type_synonym uchar = nat
type_synonym ustr = "uchar list"

definition lit :: "string \<Rightarrow> ustr" where
  "lit s = map of_char s"

lemma lit_inject [simp]: "lit s = lit t \<longleftrightarrow> s = t"
proof -
  have "inj (of_char :: char \<Rightarrow> nat)" by (auto intro: injI)
  then show ?thesis by (simp add: lit_def inj_map_eq_map)
qed

lemma lit_Nil [simp]: "lit [] = []"
  by (simp add: lit_def)

lemma lit_eq_Nil [simp]: "lit s = [] \<longleftrightarrow> s = []" "[] = lit s \<longleftrightarrow> s = []"
  by (auto simp: lit_def)

lemma length_lit [simp]: "length (lit s) = length s"
  by (simp add: lit_def)

lemma lit_append: "lit (s @ t) = lit s @ lit t"
  by (simp add: lit_def)

section \<open>Rust string functions\<close>

text \<open>\<open>char::is_whitespace\<close>: the Unicode White\_Space property.\<close>

definition is_whitespace :: "uchar \<Rightarrow> bool" where
  "is_whitespace c \<longleftrightarrow>
     (9 \<le> c \<and> c \<le> 13) \<or> c = 32 \<or> c = 133 \<or> c = 160 \<or> c = 5760 \<or>
     (8192 \<le> c \<and> c \<le> 8202) \<or> c = 8232 \<or> c = 8233 \<or> c = 8239 \<or> c = 8287 \<or> c = 12288"

definition trim_start :: "ustr \<Rightarrow> ustr" where
  "trim_start s = dropWhile is_whitespace s"

definition trim_end :: "ustr \<Rightarrow> ustr" where
  "trim_end s = rev (dropWhile is_whitespace (rev s))"

text \<open>\<open>str::trim\<close>.\<close>

definition trim :: "ustr \<Rightarrow> ustr" where
  "trim s = trim_end (trim_start s)"

text \<open>\<open>s.starts_with(pred)\<close> and \<open>s.ends_with(pred)\<close> for a character predicate.\<close>

definition starts_with_p :: "(uchar \<Rightarrow> bool) \<Rightarrow> ustr \<Rightarrow> bool" where
  "starts_with_p P s = (case s of [] \<Rightarrow> False | c # _ \<Rightarrow> P c)"

definition ends_with_p :: "(uchar \<Rightarrow> bool) \<Rightarrow> ustr \<Rightarrow> bool" where
  "ends_with_p P s = (case rev s of [] \<Rightarrow> False | c # _ \<Rightarrow> P c)"

fun strip_prefix :: "'a list \<Rightarrow> 'a list \<Rightarrow> 'a list option" where
  "strip_prefix [] s = Some s"
| "strip_prefix (p # ps) [] = None"
| "strip_prefix (p # ps) (c # cs) = (if p = c then strip_prefix ps cs else None)"

definition strip_suffix :: "'a list \<Rightarrow> 'a list \<Rightarrow> 'a list option" where
  "strip_suffix p s = map_option rev (strip_prefix (rev p) (rev s))"

definition starts_with :: "'a list \<Rightarrow> 'a list \<Rightarrow> bool" where
  "starts_with p s \<longleftrightarrow> strip_prefix p s \<noteq> None"

text \<open>\<open>s.split_once(c)\<close>: around the first occurrence.\<close>

fun split_once :: "'a \<Rightarrow> 'a list \<Rightarrow> ('a list \<times> 'a list) option" where
  "split_once d [] = None"
| "split_once d (c # cs) =
     (if c = d then Some ([], cs)
      else map_option (\<lambda>(a, b). (c # a, b)) (split_once d cs))"

text \<open>\<open>s.split(pred)\<close>: the pieces between separators, never an empty list.\<close>

fun split_p :: "('a \<Rightarrow> bool) \<Rightarrow> 'a list \<Rightarrow> 'a list list" where
  "split_p P [] = [[]]"
| "split_p P (c # cs) =
     (if P c then [] # split_p P cs
      else (case split_p P cs of [] \<Rightarrow> [[c]] | w # ws \<Rightarrow> (c # w) # ws))"

text \<open>
  \<open>str::lines\<close>: lines end at a line feed, with an optional carriage return before it; a final
  line ending leaves no empty last line.
\<close>

definition strip_cr :: "ustr \<Rightarrow> ustr" where
  "strip_cr s = (case strip_suffix [13] s of None \<Rightarrow> s | Some r \<Rightarrow> r)"

definition rust_lines :: "ustr \<Rightarrow> ustr list" where
  "rust_lines s =
     (let ps = split_p (\<lambda>c. c = 10) s; whole = butlast ps; tail = last ps
      in map strip_cr whole @ (if tail = [] then [] else [tail]))"

fun join :: "'a list \<Rightarrow> 'a list list \<Rightarrow> 'a list" where
  "join sep [] = []"
| "join sep [x] = x"
| "join sep (x # y # ys) = x @ sep @ join sep (y # ys)"

text \<open>\<open>to_string\<close> of an unsigned integer.\<close>

fun dec_digits :: "nat \<Rightarrow> ustr" where
  "dec_digits n = (if n < 10 then [48 + n] else dec_digits (n div 10) @ [48 + n mod 10])"

declare dec_digits.simps [simp del]

section \<open>Lemmas on the string functions\<close>

lemma dropWhile_hd: "dropWhile P xs = y # ys \<Longrightarrow> \<not> P y"
  by (metis hd_dropWhile list.discI list.sel(1))

lemma starts_with_p_trim_start: "\<not> starts_with_p is_whitespace (trim_start s)"
  by (auto simp: starts_with_p_def trim_start_def dest: dropWhile_hd split: list.splits)

lemma ends_with_p_trim_end: "\<not> ends_with_p is_whitespace (trim_end s)"
  by (auto simp: ends_with_p_def trim_end_def dest: dropWhile_hd split: list.splits)

lemma trim_start_id: "\<not> starts_with_p is_whitespace s \<Longrightarrow> trim_start s = s"
  by (cases s) (auto simp: trim_start_def starts_with_p_def)

lemma trim_end_id: "\<not> ends_with_p is_whitespace s \<Longrightarrow> trim_end s = s"
  by (cases "rev s") (auto simp: trim_end_def ends_with_p_def)

lemma trim_end_prefix: "\<exists>w. s = trim_end s @ w"
proof -
  have "rev s = takeWhile is_whitespace (rev s) @ dropWhile is_whitespace (rev s)" by simp
  then have "s = rev (dropWhile is_whitespace (rev s)) @ rev (takeWhile is_whitespace (rev s))"
    by (metis rev_append rev_rev_ident)
  then show ?thesis by (auto simp: trim_end_def)
qed

lemma starts_with_p_trim: "\<not> starts_with_p is_whitespace (trim s)"
proof (cases "trim s")
  case Nil
  then show ?thesis by (simp add: starts_with_p_def)
next
  case (Cons c cs)
  obtain w where "trim_start s = trim s @ w"
    using trim_end_prefix [of "trim_start s"] by (auto simp: trim_def)
  with Cons have "trim_start s = c # cs @ w" by simp
  then show ?thesis
    using starts_with_p_trim_start [of s] Cons by (simp add: starts_with_p_def)
qed

lemma ends_with_p_trim: "\<not> ends_with_p is_whitespace (trim s)"
  by (simp add: trim_def ends_with_p_trim_end)

lemma trim_id:
  "\<not> starts_with_p is_whitespace s \<Longrightarrow> \<not> ends_with_p is_whitespace s \<Longrightarrow> trim s = s"
  by (simp add: trim_def trim_start_id trim_end_id)

lemma trim_trim [simp]: "trim (trim s) = trim s"
  by (rule trim_id [OF starts_with_p_trim ends_with_p_trim])

lemma strip_prefix_Some: "strip_prefix p s = Some r \<longleftrightarrow> s = p @ r"
  by (induction p s rule: strip_prefix.induct) auto

lemma strip_suffix_Some: "strip_suffix p s = Some r \<longleftrightarrow> s = r @ p"
proof -
  have "strip_suffix p s = Some r \<longleftrightarrow> strip_prefix (rev p) (rev s) = Some (rev r)"
    by (auto simp: strip_suffix_def)
  also have "\<dots> \<longleftrightarrow> rev s = rev p @ rev r" by (rule strip_prefix_Some)
  also have "\<dots> \<longleftrightarrow> s = r @ p" by (metis rev_append rev_rev_ident)
  finally show ?thesis .
qed

lemma starts_with_iff: "starts_with p s \<longleftrightarrow> (\<exists>r. s = p @ r)"
  using strip_prefix_Some [of p s] by (auto simp: starts_with_def)

lemma split_once_Some:
  "split_once d s = Some (a, b) \<longleftrightarrow> s = a @ d # b \<and> d \<notin> set a"
proof (induction s arbitrary: a)
  case Nil
  then show ?case by simp
next
  case (Cons c cs)
  then show ?case by (cases a) auto
qed

lemma split_once_None: "split_once d s = None \<longleftrightarrow> d \<notin> set s"
  by (induction s) auto

lemma split_p_not_Nil [simp]: "split_p P s \<noteq> []"
  by (cases s) (auto split: list.splits)

lemma split_p_no_sep: "w \<in> set (split_p P s) \<Longrightarrow> c \<in> set w \<Longrightarrow> \<not> P c"
  by (induction s arbitrary: w) (fastforce split: if_splits list.splits)+

lemma split_p_single: "(\<And>c. c \<in> set s \<Longrightarrow> \<not> P c) \<Longrightarrow> split_p P s = [s]"
  by (induction s) auto

section \<open>Lists and options\<close>

definition the_default :: "'a \<Rightarrow> 'a option \<Rightarrow> 'a" where
  "the_default d x = (case x of None \<Rightarrow> d | Some y \<Rightarrow> y)"

lemma the_default_simps [simp]:
  "the_default d None = d" "the_default d (Some y) = y"
  by (simp_all add: the_default_def)

text \<open>The values a partial function selects from a list, in order (\<open>filter_map\<close>).\<close>

fun filter_map :: "('a \<Rightarrow> 'b option) \<Rightarrow> 'a list \<Rightarrow> 'b list" where
  "filter_map f [] = []"
| "filter_map f (x # xs) =
     (case f x of None \<Rightarrow> filter_map f xs | Some y \<Rightarrow> y # filter_map f xs)"

lemma filter_map_append [simp]:
  "filter_map f (xs @ ys) = filter_map f xs @ filter_map f ys"
  by (induction xs) (auto split: option.splits)

lemma set_filter_map: "y \<in> set (filter_map f xs) \<longleftrightarrow> (\<exists>x \<in> set xs. f x = Some y)"
  by (induction xs) (auto split: option.splits)

section \<open>Event machines\<close>

text \<open>
  A deterministic machine takes an input in a state and returns the next state and the
  effects it asks for. \<open>run_machine\<close> feeds it a sequence of inputs and collects the effects
  in order.
\<close>

fun run_machine :: "('s \<Rightarrow> 'i \<Rightarrow> 's \<times> 'o list) \<Rightarrow> 's \<Rightarrow> 'i list \<Rightarrow> 's \<times> 'o list" where
  "run_machine step s [] = (s, [])"
| "run_machine step s (i # is) =
     (let (s', out) = step s i; (s'', rest) = run_machine step s' is in (s'', out @ rest))"

lemma fst_run_machine_Cons [simp]:
  "fst (run_machine step s (i # is)) = fst (run_machine step (fst (step s i)) is)"
  by (simp add: Let_def split: prod.splits)

lemma snd_run_machine_Cons [simp]:
  "snd (run_machine step s (i # is)) =
     snd (step s i) @ snd (run_machine step (fst (step s i)) is)"
  by (simp add: Let_def split: prod.splits)

declare run_machine.simps(2) [simp del]

lemma fst_run_machine_append:
  "fst (run_machine step s (is @ js)) = fst (run_machine step (fst (run_machine step s is)) js)"
  by (induction "is" arbitrary: s) simp_all

lemma snd_run_machine_append:
  "snd (run_machine step s (is @ js)) =
     snd (run_machine step s is) @ snd (run_machine step (fst (run_machine step s is)) js)"
  by (induction "is" arbitrary: s) simp_all

text \<open>A machine with an invariant.\<close>

locale machine =
  fixes step :: "'s \<Rightarrow> 'i \<Rightarrow> 's \<times> 'o list"
    and inv :: "'s \<Rightarrow> bool"
  assumes step_inv: "inv s \<Longrightarrow> inv (fst (step s i))"
begin

lemma run_inv: "inv s \<Longrightarrow> inv (fst (run_machine step s is))"
  by (induction "is" arbitrary: s) (simp_all add: step_inv)

text \<open>Every effect of a run was asked for by a step from an invariant state.\<close>

lemma run_output:
  assumes "inv s" and "\<And>s i x. inv s \<Longrightarrow> x \<in> set (snd (step s i)) \<Longrightarrow> P x"
    and "x \<in> set (snd (run_machine step s is))"
  shows "P x"
  using assms(1,3)
proof (induction "is" arbitrary: s)
  case Nil
  then show ?case by simp
next
  case (Cons i "is")
  from Cons.prems(2) consider "x \<in> set (snd (step s i))"
    | "x \<in> set (snd (run_machine step (fst (step s i)) is))" by auto
  then show ?case
  proof cases
    case 1
    with Cons.prems(1) show ?thesis by (rule assms(2))
  next
    case 2
    from step_inv [OF Cons.prems(1)] 2 show ?thesis by (rule Cons.IH)
  qed
qed

text \<open>A preorder every step moves along holds between the ends of a run.\<close>

lemma run_monotone:
  assumes "inv s" and "\<And>s. le s s" and "\<And>a b c. le a b \<Longrightarrow> le b c \<Longrightarrow> le a c"
    and "\<And>s i. inv s \<Longrightarrow> le s (fst (step s i))"
  shows "le s (fst (run_machine step s is))"
  using assms(1)
proof (induction "is" arbitrary: s)
  case Nil
  then show ?case by (simp add: assms(2))
next
  case (Cons i "is")
  have "le s (fst (step s i))" using Cons.prems by (rule assms(4))
  moreover have "le (fst (step s i)) (fst (run_machine step (fst (step s i)) is))"
    by (rule Cons.IH [OF step_inv [OF Cons.prems]])
  ultimately have "le s (fst (run_machine step (fst (step s i)) is))" by (rule assms(3))
  then show ?case by simp
qed

end

text \<open>A machine with states nothing leaves.\<close>

locale halting_machine = machine +
  fixes halted :: "'s \<Rightarrow> bool"
  assumes halted_step: "inv s \<Longrightarrow> halted s \<Longrightarrow> fst (step s i) = s"
begin

lemma run_halted: "inv s \<Longrightarrow> halted s \<Longrightarrow> fst (run_machine step s is) = s"
  by (induction "is") (simp_all add: halted_step)

end

text \<open>
  A machine one of whose effects is emitted at most once in a run: emitting it sets a latch,
  and nothing clears the latch.
\<close>

locale latched_output = machine +
  fixes latched :: "'s \<Rightarrow> bool" and emits :: "'o \<Rightarrow> bool"
  assumes latch_kept: "inv s \<Longrightarrow> latched s \<Longrightarrow> latched (fst (step s i))"
    and latched_silent: "inv s \<Longrightarrow> latched s \<Longrightarrow> filter emits (snd (step s i)) = []"
    and emit_once: "inv s \<Longrightarrow> length (filter emits (snd (step s i))) \<le> 1"
    and emit_latches: "inv s \<Longrightarrow> filter emits (snd (step s i)) \<noteq> [] \<Longrightarrow> latched (fst (step s i))"
begin

lemma run_latched: "inv s \<Longrightarrow> latched s \<Longrightarrow> filter emits (snd (run_machine step s is)) = []"
proof (induction "is" arbitrary: s)
  case Nil
  then show ?case by simp
next
  case (Cons i "is")
  then show ?case
    using latched_silent latch_kept step_inv by simp
qed

lemma run_emits_once: "inv s \<Longrightarrow> length (filter emits (snd (run_machine step s is))) \<le> 1"
proof (induction "is" arbitrary: s)
  case Nil
  then show ?case by simp
next
  case (Cons i "is")
  show ?case
  proof (cases "filter emits (snd (step s i)) = []")
    case True
    with Cons step_inv show ?thesis by simp
  next
    case False
    with Cons.prems have "filter emits (snd (run_machine step (fst (step s i)) is)) = []"
      by (intro run_latched) (simp_all add: step_inv emit_latches)
    with Cons.prems emit_once show ?thesis by simp
  qed
qed

end

end
