(* ===== verification/Core_Types.thy ===== *)
theory Core_Types
  imports Complex_Main Myna_Prelude
begin

text \<open>
  The contract types of \<open>client/myna-core\<close>: audio formats and chunks (\<open>audio.rs\<close>), capture
  faults and health (\<open>capture.rs\<close>), the transcript event vocabulary (\<open>events.rs\<close>), and the
  session configuration with its keyword limits (\<open>session.rs\<close>).
  Floating-point quantities (\<open>f64\<close>) are modelled as exact rationals.
\<close>

section \<open>Audio\<close>

record audio_format =
  sample_rate_hz :: u32
  channels :: u8
  sample_width_bytes :: u8

definition default_format :: audio_format where
  "default_format = \<lparr>sample_rate_hz = 16000, channels = 1, sample_width_bytes = 2\<rparr>"

text \<open>The product of \<open>u32\<close> values, which wraps.\<close>

definition bytes_per_second :: "audio_format \<Rightarrow> u32" where
  "bytes_per_second f = sample_rate_hz f * ucast (channels f) * ucast (sample_width_bytes f)"

record pcm_chunk =
  chunk_data :: "byte list"
  chunk_format :: audio_format

section \<open>Capture faults and health\<close>

datatype capture_error =
    DeviceUnavailable ustr
  | ServiceUnresponsive ustr
  | NoSource ustr
  | NoFlow ustr
  | UnsupportedFormat audio_format
  | BackendFault ustr
  | Overloaded rat

datatype capture_health =
    Opening
  | Capturing
  | Faulted capture_error
  | Ended

text \<open>\<open>format!("{:.1}", x)\<close> of a non-negative number: tenths, ties to even.\<close>

definition tenths :: "rat \<Rightarrow> nat" where
  "tenths x =
     (let y = 10 * x; n = \<lfloor>y\<rfloor>; r = y - of_int n
      in nat (if r < 1 / 2 then n else if r > 1 / 2 then n + 1 else if even n then n else n + 1))"

definition fmt_1 :: "rat \<Rightarrow> ustr" where
  "fmt_1 x = dec_digits (tenths x div 10) @ lit ''.'' @ dec_digits (tenths x mod 10)"

text \<open>The derived \<open>Debug\<close> of an audio format.\<close>

definition debug_format :: "audio_format \<Rightarrow> ustr" where
  "debug_format f =
     lit ''AudioFormat { sample_rate_hz: '' @ dec_digits (unat (sample_rate_hz f)) @
     lit '', channels: '' @ dec_digits (unat (channels f)) @
     lit '', sample_width_bytes: '' @ dec_digits (unat (sample_width_bytes f)) @ lit '' }''"

fun show_capture_error :: "capture_error \<Rightarrow> ustr" where
  "show_capture_error (DeviceUnavailable s) = lit ''audio device unavailable: '' @ s"
| "show_capture_error (ServiceUnresponsive s) = lit ''audio service not responding: '' @ s"
| "show_capture_error (NoSource s) = lit ''audio device unavailable: '' @ s"
| "show_capture_error (NoFlow s) = lit ''audio device unavailable: '' @ s"
| "show_capture_error (UnsupportedFormat f) =
     lit ''requested format '' @ debug_format f @ lit '' cannot be produced''"
| "show_capture_error (BackendFault s) = lit ''capture backend failed: '' @ s"
| "show_capture_error (Overloaded x) =
     lit ''audio buffer overflow after '' @ fmt_1 x @
     lit ''s - the transcription service cannot keep up with capture''"

section \<open>Transcript events\<close>

definition PHASE_PREPARING :: ustr where "PHASE_PREPARING = lit ''preparing''"
definition PHASE_READY :: ustr where "PHASE_READY = lit ''ready''"
definition PHASE_TRANSCRIBING :: ustr where "PHASE_TRANSCRIBING = lit ''transcribing''"

definition WARNING_GPU_UNAVAILABLE :: ustr where
  "WARNING_GPU_UNAVAILABLE = lit ''gpu_unavailable''"
definition WARNING_MEMORY_PRESSURE :: ustr where
  "WARNING_MEMORY_PRESSURE = lit ''memory_pressure''"

lemmas phase_defs = PHASE_PREPARING_def PHASE_READY_def PHASE_TRANSCRIBING_def

datatype disposition = Committed | Unstable

datatype streaming_mode = Streaming | Batch

record segment =
  seg_start :: rat
  seg_end :: rat
  seg_text :: ustr
  seg_score :: "rat option"

record progress =
  snippet :: "ustr option"
  phase :: ustr
  warning :: "ustr option"
  warning_code :: "ustr option"

record transcription_final =
  fin_text :: ustr
  segments :: "segment list"
  fin_disposition :: disposition
  segment_index :: "u32 option"

record error_data =
  err_code :: ustr
  err_message :: ustr

datatype transcription_event =
    TE_Progress progress
  | TE_Final transcription_final
  | TE_Done transcription_final
  | TE_Error error_data

definition progress_phase :: "ustr \<Rightarrow> progress" where
  "progress_phase p = \<lparr>snippet = None, phase = p, warning = None, warning_code = None\<rparr>"

definition default_final :: transcription_final where
  "default_final = \<lparr>fin_text = [], segments = [], fin_disposition = Committed, segment_index = None\<rparr>"

fun te_is_terminal :: "transcription_event \<Rightarrow> bool" where
  "te_is_terminal (TE_Done _) = True"
| "te_is_terminal (TE_Error _) = True"
| "te_is_terminal _ = False"

section \<open>Session configuration and keywords\<close>

record session_config =
  audio_fmt :: audio_format
  language :: "ustr option"
  output_language :: "ustr option"
  prompt :: "ustr option"
  timestamp_granularity :: "ustr option"
  cfg_keywords :: "ustr list"

definition KEYWORDS_MAX_ENTRIES :: nat where "KEYWORDS_MAX_ENTRIES = 100"
definition KEYWORDS_MAX_ENTRY_CHARS :: nat where "KEYWORDS_MAX_ENTRY_CHARS = 64"

text \<open>
  The loop of \<open>normalize_keywords\<close>: \<open>seen\<close> is the hash set of the entries kept so far,
  \<open>out\<close> the vector of them; the loop stops as soon as the vector is full.
\<close>

fun normalize_loop :: "ustr list \<Rightarrow> ustr list \<Rightarrow> ustr list \<Rightarrow> ustr list" where
  "normalize_loop seen out [] = out"
| "normalize_loop seen out (entry # entries) =
     (let trimmed = trim entry in
      if trimmed = [] then normalize_loop seen out entries
      else
        let capped = take KEYWORDS_MAX_ENTRY_CHARS trimmed in
        if capped \<in> set seen then normalize_loop seen out entries
        else
          let out' = out @ [capped] in
          if length out' = KEYWORDS_MAX_ENTRIES then out'
          else normalize_loop (capped # seen) out' entries)"

definition normalize_keywords :: "ustr list \<Rightarrow> ustr list" where
  "normalize_keywords entries = normalize_loop [] [] entries"

section \<open>What keyword normalisation guarantees\<close>

definition keyword_ok :: "ustr \<Rightarrow> bool" where
  "keyword_ok k \<longleftrightarrow>
     k \<noteq> [] \<and> length k \<le> KEYWORDS_MAX_ENTRY_CHARS \<and> \<not> starts_with_p is_whitespace k"

lemma keyword_ok_capped:
  assumes "trim entry \<noteq> []"
  shows "keyword_ok (take KEYWORDS_MAX_ENTRY_CHARS (trim entry))"
proof -
  obtain c cs where c: "trim entry = c # cs" using assms by (cases "trim entry") auto
  then have "\<not> is_whitespace c"
    using starts_with_p_trim [of entry] by (simp add: starts_with_p_def)
  with c show ?thesis
    by (simp add: keyword_ok_def KEYWORDS_MAX_ENTRY_CHARS_def starts_with_p_def)
qed

lemma normalize_loop_ok:
  assumes "set seen = set out" and "\<forall>k \<in> set out. keyword_ok k" and "distinct out"
    and "length out < KEYWORDS_MAX_ENTRIES"
  shows "(\<forall>k \<in> set (normalize_loop seen out entries). keyword_ok k) \<and>
    distinct (normalize_loop seen out entries) \<and>
    length (normalize_loop seen out entries) \<le> KEYWORDS_MAX_ENTRIES"
  using assms
proof (induction entries arbitrary: seen out)
  case Nil
  then show ?case by simp
next
  case (Cons entry entries)
  let ?c = "take KEYWORDS_MAX_ENTRY_CHARS (trim entry)"
  consider (skip) "trim entry = [] \<or> ?c \<in> set seen"
    | (full) "trim entry \<noteq> []" "?c \<notin> set seen" "length (out @ [?c]) = KEYWORDS_MAX_ENTRIES"
    | (room) "trim entry \<noteq> []" "?c \<notin> set seen" "length (out @ [?c]) \<noteq> KEYWORDS_MAX_ENTRIES"
    by blast
  then show ?case
  proof cases
    case skip
    then have "normalize_loop seen out (entry # entries) = normalize_loop seen out entries"
      by (auto simp: Let_def)
    with Cons.IH [OF Cons.prems] show ?thesis by simp
  next
    case full
    then have "normalize_loop seen out (entry # entries) = out @ [?c]" by (simp add: Let_def)
    with full Cons.prems keyword_ok_capped [of entry] show ?thesis by auto
  next
    case room
    then have "(\<forall>k \<in> set (normalize_loop (?c # seen) (out @ [?c]) entries). keyword_ok k) \<and>
        distinct (normalize_loop (?c # seen) (out @ [?c]) entries) \<and>
        length (normalize_loop (?c # seen) (out @ [?c]) entries) \<le> KEYWORDS_MAX_ENTRIES"
      using Cons.prems keyword_ok_capped [of entry] by (intro Cons.IH) auto
    with room show ?thesis by (simp add: Let_def)
  qed
qed

text \<open>
  The list a session sends is within the server's limits: at most 100 entries, all distinct,
  none empty, none longer than 64 characters.
\<close>

lemma normalize_keywords_limits:
  "length (normalize_keywords es) \<le> KEYWORDS_MAX_ENTRIES \<and> distinct (normalize_keywords es) \<and>
   (\<forall>k \<in> set (normalize_keywords es). keyword_ok k)"
  using normalize_loop_ok [of "[]" "[]" es]
  by (simp add: normalize_keywords_def KEYWORDS_MAX_ENTRIES_def)

text \<open>A list already within the limits goes out as it is.\<close>

lemma normalize_loop_id:
  assumes "distinct (out @ es)" and "set seen = set out"
    and "\<forall>k \<in> set es. k \<noteq> [] \<and> trim k = k \<and> length k \<le> KEYWORDS_MAX_ENTRY_CHARS"
    and "length (out @ es) \<le> KEYWORDS_MAX_ENTRIES"
  shows "normalize_loop seen out es = out @ es"
  using assms
proof (induction es arbitrary: seen out)
  case Nil
  then show ?case by simp
next
  case (Cons e es)
  then have e: "trim e = e" "e \<noteq> []" "take KEYWORDS_MAX_ENTRY_CHARS e = e" "e \<notin> set seen"
    by auto
  show ?case
  proof (cases "length (out @ [e]) = KEYWORDS_MAX_ENTRIES")
    case True
    with Cons.prems(4) have "es = []" by (cases es) auto
    with e True show ?thesis by (simp add: Let_def)
  next
    case False
    have "normalize_loop (e # seen) (out @ [e]) es = (out @ [e]) @ es"
      using Cons.prems by (intro Cons.IH) auto
    with e False show ?thesis by (simp add: Let_def)
  qed
qed

end
