(* ===== verification/Fsm.thy ===== *)
theory Fsm
  imports Core_Types "HOL-Library.Sublist"
begin

text \<open>
  The orchestrator's state machine, \<open>client/myna-orchestrator/src/fsm.rs\<close>, and what a failed
  utterance tells the user, \<open>failure.rs\<close>. The machine is a pure function of the state and the
  input that returns the next state and the actions the driver executes. Translation of
  user-visible strings (gettext) is the parameter \<open>tr\<close>.
\<close>

section \<open>Failures\<close>

type_synonym translate = "ustr \<Rightarrow> ustr"

record failure =
  headline :: ustr
  detail :: ustr

definition failure_new :: "ustr \<Rightarrow> ustr \<Rightarrow> failure" where
  "failure_new h d = \<lparr>headline = h, detail = d\<rparr>"

fun capture_headline :: "translate \<Rightarrow> capture_error \<Rightarrow> ustr" where
  "capture_headline tr (DeviceUnavailable _) = tr (lit ''Microphone unavailable'')"
| "capture_headline tr (ServiceUnresponsive _) = tr (lit ''Audio system not responding'')"
| "capture_headline tr (NoSource _) = tr (lit ''No microphone found'')"
| "capture_headline tr (NoFlow _) = tr (lit ''Microphone silent'')"
| "capture_headline tr (UnsupportedFormat _) = tr (lit ''Microphone format unsupported'')"
| "capture_headline tr (BackendFault _) = tr (lit ''Audio system error'')"
| "capture_headline tr (Overloaded _) = tr (lit ''System overloaded'')"

definition failure_capture :: "translate \<Rightarrow> capture_error \<Rightarrow> failure" where
  "failure_capture tr e = failure_new (capture_headline tr e) (show_capture_error e)"

definition failure_audio_lost :: "translate \<Rightarrow> capture_error \<Rightarrow> failure" where
  "failure_audio_lost tr e =
     failure_new (tr (lit ''Some audio lost''))
       (lit ''some audio was lost: '' @ show_capture_error e)"

definition transcription_failed :: "translate \<Rightarrow> ustr" where
  "transcription_failed tr = tr (lit ''Transcription failed'')"

definition model_not_responding :: "translate \<Rightarrow> ustr" where
  "model_not_responding tr = tr (lit ''Model not responding'')"

definition model_connection_lost :: "translate \<Rightarrow> ustr" where
  "model_connection_lost tr = tr (lit ''Model connection lost'')"

definition warning_headline :: "translate \<Rightarrow> ustr option \<Rightarrow> ustr \<Rightarrow> ustr" where
  "warning_headline tr code txt =
     (if code = Some WARNING_GPU_UNAVAILABLE then tr (lit ''Using the CPU: GPU unavailable'')
      else if code = Some WARNING_MEMORY_PRESSURE then tr (lit ''Dictation is slow: low memory'')
      else txt)"

section \<open>The two regions, the inputs and the actions\<close>

datatype session_state = Active | Finalizing | Done | Failed | Aborted

definition is_terminal :: "session_state \<Rightarrow> bool" where
  "is_terminal s \<longleftrightarrow> s = Done \<or> s = Failed \<or> s = Aborted"

datatype residency = Unloaded | Loading | Resident

definition gate_open :: "residency \<Rightarrow> bool" where
  "gate_open r \<longleftrightarrow> r = Resident"

datatype orchestrator_event =
    OE_Loading
  | OE_Ready
  | OE_Transcribing
  | OE_Snippet ustr
  | OE_Final ustr
  | OE_Unstable ustr
  | OE_Done ustr
  | OE_Error ustr failure
  | OE_AudioDropped
  | OE_CaptureLost failure
  | OE_Warning "ustr option" failure

datatype action =
    ForwardAudio pcm_chunk
  | SendFinish
  | SendAbort
  | Emit orchestrator_event

datatype fsm_input =
    In_Audio pcm_chunk
  | In_EndOfAudio
  | In_Abort
  | In_CaptureFailed failure
  | In_CaptureLost failure
  | In_Backend transcription_event
  | In_BackendClosed "ustr option"
  | In_Stalled

datatype session_outcome =
    Out_Completed ustr
  | Out_Failed ustr failure
  | Out_Aborted

record fsm =
  session :: session_state
  residence :: residency
  transcript :: ustr
  fsm_failure :: "(ustr \<times> failure) option"
  capture_fault :: "failure option"

definition fsm_new :: fsm where
  "fsm_new = \<lparr>session = Active, residence = Unloaded, transcript = [],
     fsm_failure = None, capture_fault = None\<rparr>"

definition accepts_audio :: "fsm \<Rightarrow> bool" where
  "accepts_audio f \<longleftrightarrow> session f = Active \<and> gate_open (residence f)"

definition outcome :: "translate \<Rightarrow> fsm \<Rightarrow> session_outcome option" where
  "outcome tr f =
     (case session f of
        Done \<Rightarrow> Some (Out_Completed (transcript f))
      | Failed \<Rightarrow>
          (case fsm_failure f of
             Some (code, flr) \<Rightarrow> Some (Out_Failed code flr)
           | None \<Rightarrow> Some (Out_Failed (lit ''internal'') (failure_new (transcription_failed tr) [])))
      | Aborted \<Rightarrow> Some Out_Aborted
      | Active \<Rightarrow> None
      | Finalizing \<Rightarrow> None)"

section \<open>The handlers\<close>

definition terminate :: "fsm \<Rightarrow> ustr \<Rightarrow> failure \<Rightarrow> fsm \<times> action list" where
  "terminate f code flr =
     (f\<lparr>fsm_failure := Some (code, flr), session := Failed\<rparr>, [Emit (OE_Error code flr)])"

definition fail :: "fsm \<Rightarrow> ustr \<Rightarrow> failure \<Rightarrow> fsm \<times> action list" where
  "fail f code flr =
     (let flr' = (case capture_fault f of
                    Some fault \<Rightarrow> flr\<lparr>detail := detail flr @ lit '' ('' @ detail fault @ lit '')''\<rparr>
                  | None \<Rightarrow> flr)
      in terminate (f\<lparr>capture_fault := None\<rparr>) code flr')"

definition on_audio :: "fsm \<Rightarrow> pcm_chunk \<Rightarrow> fsm \<times> action list" where
  "on_audio f chunk =
     (if accepts_audio f then (f, [ForwardAudio chunk]) else (f, [Emit OE_AudioDropped]))"

definition on_end_of_audio :: "fsm \<Rightarrow> fsm \<times> action list" where
  "on_end_of_audio f =
     (if session f = Active then (f\<lparr>session := Finalizing\<rparr>, [SendFinish]) else (f, []))"

definition on_abort :: "fsm \<Rightarrow> fsm \<times> action list" where
  "on_abort f =
     (if \<not> is_terminal (session f) then (f\<lparr>session := Aborted\<rparr>, [SendAbort]) else (f, []))"

definition on_capture_failed :: "fsm \<Rightarrow> failure \<Rightarrow> fsm \<times> action list" where
  "on_capture_failed f fault =
     (if \<not> is_terminal (session f)
      then (f\<lparr>session := Failed, fsm_failure := Some (lit ''capture_failed'', fault)\<rparr>, [SendAbort])
      else (f, []))"

definition on_capture_lost :: "fsm \<Rightarrow> failure \<Rightarrow> fsm \<times> action list" where
  "on_capture_lost f fault =
     (if is_terminal (session f) \<or> capture_fault f \<noteq> None then (f, [])
      else (f\<lparr>capture_fault := Some fault\<rparr>, [Emit (OE_CaptureLost fault)]))"

definition mark_resident :: "fsm \<Rightarrow> fsm \<times> action list" where
  "mark_resident f =
     (if residence f \<noteq> Resident then (f\<lparr>residence := Resident\<rparr>, [Emit OE_Ready]) else (f, []))"

definition on_progress :: "translate \<Rightarrow> fsm \<Rightarrow> progress \<Rightarrow> fsm \<times> action list" where
  "on_progress tr f p =
     (let (f', out) =
        (if phase p = PHASE_PREPARING then
           (if residence f = Unloaded then (f\<lparr>residence := Loading\<rparr>, [Emit OE_Loading]) else (f, []))
         else if phase p = PHASE_READY then mark_resident f
         else if phase p = PHASE_TRANSCRIBING then
           (let (g, o1) = mark_resident f in (g, o1 @ [Emit OE_Transcribing]))
         else (f, []));
        snip = (case snippet p of Some s \<Rightarrow> [Emit (OE_Snippet s)] | None \<Rightarrow> []);
        warn = (case warning p of
                  Some txt \<Rightarrow>
                    [Emit (OE_Warning (warning_code p)
                       (failure_new (warning_headline tr (warning_code p) txt) txt))]
                | None \<Rightarrow> [])
      in (f', out @ snip @ warn))"

definition on_error :: "translate \<Rightarrow> fsm \<Rightarrow> error_data \<Rightarrow> fsm \<times> action list" where
  "on_error tr f e = fail f (err_code e) (failure_new (transcription_failed tr) (err_message e))"

definition on_backend :: "translate \<Rightarrow> fsm \<Rightarrow> transcription_event \<Rightarrow> fsm \<times> action list" where
  "on_backend tr f event =
     (if is_terminal (session f) then (f, [])
      else case event of
        TE_Progress p \<Rightarrow> on_progress tr f p
      | TE_Final fin \<Rightarrow>
          (let (g, out) = mark_resident f
           in (g, out @ [Emit (case fin_disposition fin of
                                 Committed \<Rightarrow> OE_Final (fin_text fin)
                               | Unstable \<Rightarrow> OE_Unstable (fin_text fin))]))
      | TE_Done d \<Rightarrow>
          (let g = f\<lparr>transcript := fin_text d\<rparr>
           in case capture_fault g of
                Some fault \<Rightarrow>
                  (let (h, out) = terminate (g\<lparr>capture_fault := None\<rparr>) (lit ''capture_failed'') fault
                   in (h, Emit (OE_Done (fin_text d)) # out))
              | None \<Rightarrow> (g\<lparr>session := Done\<rparr>, [Emit (OE_Done (fin_text d))]))
      | TE_Error e \<Rightarrow> on_error tr f e)"

definition on_stalled :: "translate \<Rightarrow> fsm \<Rightarrow> fsm \<times> action list" where
  "on_stalled tr f =
     (if is_terminal (session f) then (f, [])
      else let (g, out) =
             fail f (lit ''backend_unresponsive'')
               (failure_new (model_not_responding tr)
                 (lit ''the transcription service stopped responding''))
           in (g, SendAbort # out))"

definition on_backend_closed :: "translate \<Rightarrow> fsm \<Rightarrow> ustr option \<Rightarrow> fsm \<times> action list" where
  "on_backend_closed tr f err =
     (if is_terminal (session f) then (f, [])
      else fail f (lit ''connection_closed'')
             (failure_new (model_connection_lost tr)
               (the_default (lit ''backend connection closed before the session completed'') err)))"

fun on_input :: "translate \<Rightarrow> fsm \<Rightarrow> fsm_input \<Rightarrow> fsm \<times> action list" where
  "on_input tr f (In_Audio chunk) = on_audio f chunk"
| "on_input tr f In_EndOfAudio = on_end_of_audio f"
| "on_input tr f In_Abort = on_abort f"
| "on_input tr f (In_CaptureFailed fault) = on_capture_failed f fault"
| "on_input tr f (In_CaptureLost fault) = on_capture_lost f fault"
| "on_input tr f (In_Backend event) = on_backend tr f event"
| "on_input tr f (In_BackendClosed err) = on_backend_closed tr f err"
| "on_input tr f In_Stalled = on_stalled tr f"

abbreviation fsm_run :: "translate \<Rightarrow> fsm_input list \<Rightarrow> fsm \<times> action list" where
  "fsm_run tr is \<equiv> run_machine (on_input tr) fsm_new is"

lemmas fsm_handlers =
  on_audio_def on_end_of_audio_def on_abort_def on_capture_failed_def on_capture_lost_def
  on_backend_def on_backend_closed_def on_stalled_def on_error_def on_progress_def
  mark_resident_def fail_def terminate_def

lemmas fsm_splits =
  transcription_event.splits disposition.splits option.splits if_splits prod.splits

section \<open>Observations on traces\<close>

fun forwarded_of :: "action \<Rightarrow> pcm_chunk option" where
  "forwarded_of (ForwardAudio c) = Some c"
| "forwarded_of _ = None"

fun final_of :: "action \<Rightarrow> ustr option" where
  "final_of (Emit (OE_Final s)) = Some s"
| "final_of _ = None"

fun is_error :: "action \<Rightarrow> bool" where
  "is_error (Emit (OE_Error _ _)) = True"
| "is_error _ = False"

fun is_done :: "action \<Rightarrow> bool" where
  "is_done (Emit (OE_Done _)) = True"
| "is_done _ = False"

fun is_capture_lost :: "action \<Rightarrow> bool" where
  "is_capture_lost (Emit (OE_CaptureLost _)) = True"
| "is_capture_lost _ = False"

fun audio_of :: "fsm_input \<Rightarrow> pcm_chunk option" where
  "audio_of (In_Audio c) = Some c"
| "audio_of _ = None"

text \<open>The committed text an input carries; unstable text is not committed.\<close>

fun committed_of :: "fsm_input \<Rightarrow> ustr option" where
  "committed_of (In_Backend (TE_Final f)) =
     (if fin_disposition f = Committed then Some (fin_text f) else None)"
| "committed_of _ = None"

text \<open>The inputs a machine receives before its session is terminal.\<close>

fun live_inputs :: "translate \<Rightarrow> fsm \<Rightarrow> fsm_input list \<Rightarrow> fsm_input list" where
  "live_inputs tr f [] = []"
| "live_inputs tr f (i # is) =
     (if is_terminal (session f) then [] else i # live_inputs tr (fst (on_input tr f i)) is)"

section \<open>One step\<close>

definition fsm_inv :: "fsm \<Rightarrow> bool" where
  "fsm_inv f \<longleftrightarrow> (session f = Failed \<longleftrightarrow> fsm_failure f \<noteq> None)"

lemma is_terminal_simps [simp]:
  "\<not> is_terminal Active" "\<not> is_terminal Finalizing"
  "is_terminal Done" "is_terminal Failed" "is_terminal Aborted"
  by (simp_all add: is_terminal_def)

lemma not_terminal_iff: "\<not> is_terminal s \<longleftrightarrow> s = Active \<or> s = Finalizing"
  by (cases s) simp_all

text \<open>Effects that only report liveness.\<close>

fun liveness :: "action \<Rightarrow> bool" where
  "liveness (Emit OE_Transcribing) = True"
| "liveness (Emit (OE_Snippet _)) = True"
| "liveness (Emit (OE_Warning _ _)) = True"
| "liveness _ = False"

text \<open>What a progress event does: at most one move of the residency region, then liveness.\<close>

lemma on_progress_cases:
  obtains (same) post where "on_progress tr f p = (f, post)" "list_all liveness post"
    | (loading) post where "residence f = Unloaded"
        "on_progress tr f p = (f\<lparr>residence := Loading\<rparr>, Emit OE_Loading # post)"
        "list_all liveness post"
    | (ready) post where "residence f \<noteq> Resident"
        "on_progress tr f p = (f\<lparr>residence := Resident\<rparr>, Emit OE_Ready # post)"
        "list_all liveness post"
proof -
  define post where "post =
    (case snippet p of Some s \<Rightarrow> [Emit (OE_Snippet s)] | None \<Rightarrow> []) @
    (case warning p of
       Some txt \<Rightarrow> [Emit (OE_Warning (warning_code p)
                  (failure_new (warning_headline tr (warning_code p) txt) txt))]
     | None \<Rightarrow> [])"
  have live: "list_all liveness post" by (simp add: post_def split: option.splits)
  have eq: "on_progress tr f p =
    (if phase p = PHASE_PREPARING then
       (if residence f = Unloaded then (f\<lparr>residence := Loading\<rparr>, Emit OE_Loading # post) else (f, post))
     else if phase p = PHASE_READY then
       (if residence f \<noteq> Resident then (f\<lparr>residence := Resident\<rparr>, Emit OE_Ready # post) else (f, post))
     else if phase p = PHASE_TRANSCRIBING then
       (if residence f \<noteq> Resident
        then (f\<lparr>residence := Resident\<rparr>, Emit OE_Ready # Emit OE_Transcribing # post)
        else (f, Emit OE_Transcribing # post))
     else (f, post))"
    by (simp add: on_progress_def mark_resident_def post_def)
  from that live show thesis
    by (cases "phase p = PHASE_PREPARING"; cases "phase p = PHASE_READY";
        cases "phase p = PHASE_TRANSCRIBING"; cases "residence f") (simp_all add: eq)
qed

text \<open>
  Every step, by what it does. All facts about runs are proved by this case analysis.
\<close>

lemma on_input_cases:
  fixes tr f i
  obtains (forward) c where "i = In_Audio c" "accepts_audio f"
        "on_input tr f i = (f, [ForwardAudio c])"
    | (drop) c where "i = In_Audio c" "\<not> accepts_audio f"
        "on_input tr f i = (f, [Emit OE_AudioDropped])"
    | (ignore) "audio_of i = None" "is_terminal (session f) \<or> committed_of i = None"
        "on_input tr f i = (f, [])"
    | (finish) "i = In_EndOfAudio" "session f = Active"
        "on_input tr f i = (f\<lparr>session := Finalizing\<rparr>, [SendFinish])"
    | (abort) "i = In_Abort" "\<not> is_terminal (session f)"
        "on_input tr f i = (f\<lparr>session := Aborted\<rparr>, [SendAbort])"
    | (capture_failed) fault where "i = In_CaptureFailed fault" "\<not> is_terminal (session f)"
        "on_input tr f i =
          (f\<lparr>session := Failed, fsm_failure := Some (lit ''capture_failed'', fault)\<rparr>, [SendAbort])"
    | (capture_lost) fault where "i = In_CaptureLost fault" "\<not> is_terminal (session f)"
        "capture_fault f = None"
        "on_input tr f i = (f\<lparr>capture_fault := Some fault\<rparr>, [Emit (OE_CaptureLost fault)])"
    | (progress) r pre post where "\<not> is_terminal (session f)" "audio_of i = None" "committed_of i = None"
        "r = residence f \<and> pre = [] \<or> r = Loading \<and> residence f = Unloaded \<and> pre = [Emit OE_Loading]
         \<or> r = Resident \<and> residence f \<noteq> Resident \<and> pre = [Emit OE_Ready]"
        "list_all liveness post" "on_input tr f i = (f\<lparr>residence := r\<rparr>, pre @ post)"
    | (final) fin pre where "i = In_Backend (TE_Final fin)" "\<not> is_terminal (session f)"
        "pre = (if residence f = Resident then [] else [Emit OE_Ready])"
        "on_input tr f i = (f\<lparr>residence := Resident\<rparr>,
           pre @ [Emit (case fin_disposition fin of Committed \<Rightarrow> OE_Final (fin_text fin)
                                                  | Unstable \<Rightarrow> OE_Unstable (fin_text fin))])"
    | (completed) d where "i = In_Backend (TE_Done d)" "\<not> is_terminal (session f)" "capture_fault f = None"
        "on_input tr f i =
          (f\<lparr>transcript := fin_text d, session := Done\<rparr>, [Emit (OE_Done (fin_text d))])"
    | (salvaged) d fault where "i = In_Backend (TE_Done d)" "\<not> is_terminal (session f)"
        "capture_fault f = Some fault"
        "on_input tr f i =
          (f\<lparr>transcript := fin_text d, capture_fault := None,
             fsm_failure := Some (lit ''capture_failed'', fault), session := Failed\<rparr>,
           [Emit (OE_Done (fin_text d)), Emit (OE_Error (lit ''capture_failed'') fault)])"
    | (failed) code flr pre where "\<not> is_terminal (session f)" "audio_of i = None" "committed_of i = None"
        "pre = [] \<or> pre = [SendAbort]"
        "\<And>fault. capture_fault f = Some fault \<Longrightarrow> \<exists>a b. detail flr = a @ detail fault @ b"
        "on_input tr f i =
          (f\<lparr>capture_fault := None, fsm_failure := Some (code, flr), session := Failed\<rparr>,
           pre @ [Emit (OE_Error code flr)])"
proof (cases "is_terminal (session f)")
  case True
  show thesis
  proof (cases "audio_of i")
    case None
    with True have "on_input tr f i = (f, [])" by (cases i) (auto simp: fsm_handlers)
    with True None show thesis by (intro that(3)) simp_all
  next
    case (Some c)
    with True have "i = In_Audio c" "\<not> accepts_audio f"
      by (cases i; auto simp: accepts_audio_def)+
    then show thesis by (intro that(2)) (simp_all add: on_audio_def)
  qed
next
  case nt: False
  have fail: "\<exists>flr'. fail f code flr =
      (f\<lparr>capture_fault := None, fsm_failure := Some (code, flr'), session := Failed\<rparr>,
       [Emit (OE_Error code flr')]) \<and>
      (\<forall>fault. capture_fault f = Some fault \<longrightarrow> (\<exists>a b. detail flr' = a @ detail fault @ b))"
    for code flr
  proof (cases "capture_fault f")
    case None
    then show ?thesis by (simp add: fail_def terminate_def)
  next
    case (Some fault)
    let ?flr = "flr\<lparr>detail := detail flr @ lit '' ('' @ detail fault @ lit '')''\<rparr>"
    have "\<exists>a b. detail ?flr = a @ detail fault @ b"
      by (intro exI [of _ "detail flr @ lit '' (''"] exI [of _ "lit '')''"]) simp
    with Some show ?thesis
      by (intro exI [of _ ?flr]) (simp add: fail_def terminate_def Let_def)
  qed
  show thesis
  proof (cases i)
    case (In_Audio c)
    then show thesis using that(1) [of c] that(2) [of c] by (cases "accepts_audio f") (simp_all add: on_audio_def)
  next
    case In_EndOfAudio
    then show thesis using that(3,4) by (cases "session f = Active") (simp_all add: on_end_of_audio_def)
  next
    case In_Abort
    with nt show thesis using that(5) by (simp add: on_abort_def)
  next
    case (In_CaptureFailed x)
    with nt show thesis using that(6) by (simp add: on_capture_failed_def)
  next
    case (In_CaptureLost x)
    with nt show thesis
      using that(3) that(7) [of x] by (cases "capture_fault f") (simp_all add: on_capture_lost_def)
  next
    case (In_BackendClosed e)
    obtain flr' where "on_input tr f i = (f\<lparr>capture_fault := None,
        fsm_failure := Some (lit ''connection_closed'', flr'), session := Failed\<rparr>,
        [Emit (OE_Error (lit ''connection_closed'') flr')])"
      and "\<forall>fault. capture_fault f = Some fault \<longrightarrow> (\<exists>a b. detail flr' = a @ detail fault @ b)"
      using fail [of "lit ''connection_closed''" "failure_new (model_connection_lost tr)
           (the_default (lit ''backend connection closed before the session completed'') e)"]
        nt In_BackendClosed
      by (auto simp: on_backend_closed_def)
    with nt In_BackendClosed show thesis by (intro that(12) [of "[]"]) auto
  next
    case In_Stalled
    obtain flr' where "on_input tr f i = (f\<lparr>capture_fault := None,
        fsm_failure := Some (lit ''backend_unresponsive'', flr'), session := Failed\<rparr>,
        [SendAbort, Emit (OE_Error (lit ''backend_unresponsive'') flr')])"
      and "\<forall>fault. capture_fault f = Some fault \<longrightarrow> (\<exists>a b. detail flr' = a @ detail fault @ b)"
      using fail [of "lit ''backend_unresponsive''" "failure_new (model_not_responding tr)
                 (lit ''the transcription service stopped responding'')"] nt In_Stalled
      by (auto simp: on_stalled_def)
    with nt In_Stalled show thesis by (intro that(12) [of "[SendAbort]"]) auto
  next
    case (In_Backend e)
    show thesis
    proof (cases e)
      case (TE_Progress p)
      with nt In_Backend have "on_input tr f i = on_progress tr f p" by (simp add: on_backend_def)
      with nt In_Backend TE_Progress show thesis
        by (cases rule: on_progress_cases [of tr f p])
          (auto intro: that(8) [of "residence f" "[]"] that(8) [of Loading "[Emit OE_Loading]"]
            that(8) [of Resident "[Emit OE_Ready]"])
    next
      case (TE_Final fin)
      with nt In_Backend show thesis
        using that(9) [of fin "if residence f = Resident then [] else [Emit OE_Ready]"]
        by (simp add: on_backend_def mark_resident_def split: if_splits)
    next
      case (TE_Done d)
      with nt In_Backend show thesis
        using that(10) [of d] that(11) [of d]
        by (cases "capture_fault f") (simp_all add: on_backend_def terminate_def)
    next
      case (TE_Error x)
      obtain flr' where "on_input tr f i = (f\<lparr>capture_fault := None,
          fsm_failure := Some (err_code x, flr'), session := Failed\<rparr>,
          [Emit (OE_Error (err_code x) flr')])"
        and "\<forall>fault. capture_fault f = Some fault \<longrightarrow> (\<exists>a b. detail flr' = a @ detail fault @ b)"
        using fail [of "err_code x" "failure_new (transcription_failed tr) (err_message x)"]
          nt In_Backend TE_Error
        by (auto simp: on_backend_def on_error_def)
      with nt In_Backend TE_Error show thesis by (intro that(12) [of "[]"]) auto
    qed
  qed
qed

lemma liveness_kinds:
  "liveness a \<Longrightarrow> a \<noteq> Emit OE_Ready \<and> a \<noteq> SendFinish \<and> a \<noteq> SendAbort \<and> a \<noteq> Emit OE_AudioDropped \<and>
     \<not> is_error a \<and> \<not> is_done a \<and> \<not> is_capture_lost a \<and> forwarded_of a = None \<and> final_of a = None"
  by (cases a rule: liveness.cases) auto

lemma live_filters [simp]:
  assumes "list_all liveness xs"
  shows "filter (\<lambda>a. a = Emit OE_Ready) xs = []" "filter (\<lambda>a. a = SendFinish) xs = []"
    "filter (\<lambda>a. a = SendAbort) xs = []" "filter (\<lambda>a. a = Emit OE_AudioDropped) xs = []"
    "filter is_error xs = []" "filter is_done xs = []" "filter is_capture_lost xs = []"
    "filter_map forwarded_of xs = []" "filter_map final_of xs = []"
  using assms by (induction xs) (auto dest: liveness_kinds)

lemma fsm_new_inv: "fsm_inv fsm_new"
  by (simp add: fsm_inv_def fsm_new_def)

lemma on_input_inv: "fsm_inv f \<Longrightarrow> fsm_inv (fst (on_input tr f i))"
  by (cases rule: on_input_cases [of i f tr]) (auto simp: fsm_inv_def)

lemma on_input_terminal:
  "is_terminal (session f) \<Longrightarrow>
   on_input tr f i = (f, if audio_of i = None then [] else [Emit OE_AudioDropped])"
  by (cases rule: on_input_cases [of i f tr]) (auto simp: accepts_audio_def)

lemma on_input_residence:
  "residence f = Resident \<Longrightarrow> residence (fst (on_input tr f i)) = Resident"
  by (cases rule: on_input_cases [of i f tr]) auto

interpretation fsm_m: halting_machine "on_input tr" fsm_inv "\<lambda>f. is_terminal (session f)"
  by unfold_locales (simp_all add: on_input_inv on_input_terminal)

section \<open>Effects that happen at most once\<close>

interpretation ready_once:
  latched_output "on_input tr" fsm_inv "\<lambda>f. residence f = Resident" "\<lambda>a. a = Emit OE_Ready"
proof
  fix f i
  show "residence f = Resident \<Longrightarrow> residence (fst (on_input tr f i)) = Resident"
    by (rule on_input_residence)
  show "residence f = Resident \<Longrightarrow> filter (\<lambda>a. a = Emit OE_Ready) (snd (on_input tr f i)) = []"
    by (cases rule: on_input_cases [of i f tr]) (auto split: disposition.splits)
  show "length (filter (\<lambda>a. a = Emit OE_Ready) (snd (on_input tr f i))) \<le> 1"
    by (cases rule: on_input_cases [of i f tr]) (auto split: disposition.splits)
  show "filter (\<lambda>a. a = Emit OE_Ready) (snd (on_input tr f i)) \<noteq> [] \<Longrightarrow>
      residence (fst (on_input tr f i)) = Resident"
    by (cases rule: on_input_cases [of i f tr]) (auto split: disposition.splits)
qed

interpretation finish_once:
  latched_output "on_input tr" fsm_inv "\<lambda>f. session f \<noteq> Active" "\<lambda>a. a = SendFinish"
proof
  fix f i
  show "session f \<noteq> Active \<Longrightarrow> session (fst (on_input tr f i)) \<noteq> Active"
    by (cases rule: on_input_cases [of i f tr]) (auto split: disposition.splits)
  show "session f \<noteq> Active \<Longrightarrow> filter (\<lambda>a. a = SendFinish) (snd (on_input tr f i)) = []"
    by (cases rule: on_input_cases [of i f tr]) (auto split: disposition.splits)
  show "length (filter (\<lambda>a. a = SendFinish) (snd (on_input tr f i))) \<le> 1"
    by (cases rule: on_input_cases [of i f tr]) (auto split: disposition.splits)
  show "filter (\<lambda>a. a = SendFinish) (snd (on_input tr f i)) \<noteq> [] \<Longrightarrow>
      session (fst (on_input tr f i)) \<noteq> Active"
    by (cases rule: on_input_cases [of i f tr]) (auto split: disposition.splits)
qed

interpretation error_once:
  latched_output "on_input tr" fsm_inv "\<lambda>f. is_terminal (session f)" is_error
proof
  fix f i
  show "is_terminal (session f) \<Longrightarrow> is_terminal (session (fst (on_input tr f i)))"
    by (simp add: on_input_terminal)
  show "is_terminal (session f) \<Longrightarrow> filter is_error (snd (on_input tr f i)) = []"
    by (simp add: on_input_terminal)
  show "length (filter is_error (snd (on_input tr f i))) \<le> 1"
    by (cases rule: on_input_cases [of i f tr]) (auto split: disposition.splits)
  show "filter is_error (snd (on_input tr f i)) \<noteq> [] \<Longrightarrow>
      is_terminal (session (fst (on_input tr f i)))"
    by (cases rule: on_input_cases [of i f tr]) (auto split: disposition.splits)
qed

interpretation done_once:
  latched_output "on_input tr" fsm_inv "\<lambda>f. is_terminal (session f)" is_done
proof
  fix f i
  show "is_terminal (session f) \<Longrightarrow> is_terminal (session (fst (on_input tr f i)))"
    by (simp add: on_input_terminal)
  show "is_terminal (session f) \<Longrightarrow> filter is_done (snd (on_input tr f i)) = []"
    by (simp add: on_input_terminal)
  show "length (filter is_done (snd (on_input tr f i))) \<le> 1"
    by (cases rule: on_input_cases [of i f tr]) (auto split: disposition.splits)
  show "filter is_done (snd (on_input tr f i)) \<noteq> [] \<Longrightarrow>
      is_terminal (session (fst (on_input tr f i)))"
    by (cases rule: on_input_cases [of i f tr]) (auto split: disposition.splits)
qed

interpretation abort_once:
  latched_output "on_input tr" fsm_inv "\<lambda>f. is_terminal (session f)" "\<lambda>a. a = SendAbort"
proof
  fix f i
  show "is_terminal (session f) \<Longrightarrow> is_terminal (session (fst (on_input tr f i)))"
    by (simp add: on_input_terminal)
  show "is_terminal (session f) \<Longrightarrow> filter (\<lambda>a. a = SendAbort) (snd (on_input tr f i)) = []"
    by (simp add: on_input_terminal)
  show "length (filter (\<lambda>a. a = SendAbort) (snd (on_input tr f i))) \<le> 1"
    by (cases rule: on_input_cases [of i f tr]) (auto split: disposition.splits)
  show "filter (\<lambda>a. a = SendAbort) (snd (on_input tr f i)) \<noteq> [] \<Longrightarrow>
      is_terminal (session (fst (on_input tr f i)))"
    by (cases rule: on_input_cases [of i f tr]) (auto split: disposition.splits)
qed

interpretation capture_lost_once:
  latched_output "on_input tr" fsm_inv
    "\<lambda>f. is_terminal (session f) \<or> capture_fault f \<noteq> None" is_capture_lost
proof
  fix f i
  show "is_terminal (session f) \<or> capture_fault f \<noteq> None \<Longrightarrow>
      is_terminal (session (fst (on_input tr f i))) \<or> capture_fault (fst (on_input tr f i)) \<noteq> None"
    by (cases rule: on_input_cases [of i f tr]) (auto split: disposition.splits)
  show "is_terminal (session f) \<or> capture_fault f \<noteq> None \<Longrightarrow>
      filter is_capture_lost (snd (on_input tr f i)) = []"
    by (cases rule: on_input_cases [of i f tr]) (auto split: disposition.splits)
  show "length (filter is_capture_lost (snd (on_input tr f i))) \<le> 1"
    by (cases rule: on_input_cases [of i f tr]) (auto split: disposition.splits)
  show "filter is_capture_lost (snd (on_input tr f i)) \<noteq> [] \<Longrightarrow>
      is_terminal (session (fst (on_input tr f i))) \<or> capture_fault (fst (on_input tr f i)) \<noteq> None"
    by (cases rule: on_input_cases [of i f tr]) (auto split: disposition.splits)
qed

section \<open>Runs\<close>

lemma fsm_run_inv: "fsm_inv (fst (fsm_run tr is))"
  by (rule fsm_m.run_inv [OF fsm_new_inv])

text \<open>
  What the trace says about the state, and that audio is forwarded only inside the window the
  trace opens with \<open>OE_Ready\<close> and closes with the finish or a terminal effect.
\<close>

definition window_open :: "action list \<Rightarrow> bool" where
  "window_open out \<longleftrightarrow> Emit OE_Ready \<in> set out \<and> SendFinish \<notin> set out \<and> SendAbort \<notin> set out \<and>
     filter is_error out = [] \<and> filter is_done out = []"

definition trace_state :: "fsm \<Rightarrow> action list \<Rightarrow> bool" where
  "trace_state f out \<longleftrightarrow>
     (residence f = Resident \<longleftrightarrow> Emit OE_Ready \<in> set out) \<and>
     (session f = Active \<longrightarrow> SendFinish \<notin> set out \<and> SendAbort \<notin> set out \<and>
        filter is_error out = [] \<and> filter is_done out = [])"

definition forwards_in_window :: "action list \<Rightarrow> bool" where
  "forwards_in_window out \<longleftrightarrow> (\<forall>xs c ys. out = xs @ ForwardAudio c # ys \<longrightarrow> window_open xs)"

lemma live_no_forward: "list_all liveness xs \<Longrightarrow> ForwardAudio c \<notin> set xs \<and> Emit OE_Ready \<notin> set xs \<and>
   SendFinish \<notin> set xs \<and> SendAbort \<notin> set xs"
  by (induction xs) (auto dest: liveness_kinds)

lemma trace_state_step:
  assumes "trace_state f out"
  shows "trace_state (fst (on_input tr f i)) (out @ snd (on_input tr f i))"
proof (cases rule: on_input_cases [of i f tr])
  case (progress r pre post)
  with assms live_no_forward [OF progress(5)] show ?thesis by (auto simp: trace_state_def)
qed (use assms in \<open>auto simp: trace_state_def split: disposition.splits\<close>)

lemma on_input_forwards:
  "snd (on_input tr f i) = [ForwardAudio c] \<and> accepts_audio f \<or> ForwardAudio c \<notin> set (snd (on_input tr f i))"
proof (cases rule: on_input_cases [of i f tr])
  case (progress r pre post)
  with live_no_forward [OF progress(5)] show ?thesis by auto
qed (auto split: disposition.splits)

lemma forwards_in_window_append:
  assumes "forwards_in_window out" and "\<And>c. ForwardAudio c \<notin> set new"
  shows "forwards_in_window (out @ new)"
  unfolding forwards_in_window_def
proof (intro allI impI)
  fix xs c ys assume "out @ new = xs @ ForwardAudio c # ys"
  then obtain us where "out = xs @ us \<and> us @ new = ForwardAudio c # ys \<or>
      out @ us = xs \<and> new = us @ ForwardAudio c # ys"
    by (auto simp: append_eq_append_conv2)
  moreover have "new \<noteq> us @ ForwardAudio c # ys" using assms(2) [of c] by auto
  ultimately have out: "out = xs @ us" and us: "us @ new = ForwardAudio c # ys" by auto
  from us assms(2) [of c] obtain vs where "us = ForwardAudio c # vs" by (cases us) auto
  with out assms(1) show "window_open xs" by (auto simp: forwards_in_window_def)
qed

lemma forwards_in_window_step:
  assumes "trace_state f out" and "forwards_in_window out"
  shows "forwards_in_window (out @ snd (on_input tr f i))"
proof (cases "\<exists>c. snd (on_input tr f i) = [ForwardAudio c] \<and> accepts_audio f")
  case True
  then obtain c where c: "snd (on_input tr f i) = [ForwardAudio c]" and acc: "accepts_audio f" by blast
  from acc assms(1) have "window_open out"
    by (simp add: trace_state_def window_open_def accepts_audio_def gate_open_def)
  then show ?thesis unfolding c forwards_in_window_def
  proof (intro allI impI)
    fix xs d ys assume open_out: "window_open out" and "out @ [ForwardAudio c] = xs @ ForwardAudio d # ys"
    then consider "xs = out" | zs where "out = xs @ ForwardAudio d # zs"
      by (cases ys rule: rev_cases) auto
    then show "window_open xs"
      using open_out assms(2) by cases (auto simp: forwards_in_window_def)
  qed
next
  case False
  then have "\<And>c. ForwardAudio c \<notin> set (snd (on_input tr f i))"
    using on_input_forwards by blast
  with assms(2) show ?thesis by (rule forwards_in_window_append)
qed

lemma fsm_run_trace:
  "trace_state (fst (fsm_run tr is)) (snd (fsm_run tr is)) \<and> forwards_in_window (snd (fsm_run tr is))"
proof (induction "is" rule: rev_induct)
  case Nil
  show ?case by (simp add: trace_state_def forwards_in_window_def fsm_new_def)
next
  case (snoc i "is")
  then show ?case
    using trace_state_step [of _ _ tr i] forwards_in_window_step [of _ _ tr i]
    by (simp add: fst_run_machine_append snd_run_machine_append)
qed

lemma on_input_audio_count:
  "length (filter_map forwarded_of (snd (on_input tr f i))) +
     length (filter (\<lambda>a. a = Emit OE_AudioDropped) (snd (on_input tr f i))) =
   (if audio_of i = None then 0 else 1)"
  by (cases rule: on_input_cases [of i f tr]) (auto split: disposition.splits)

lemma on_input_forwarded_sub:
  "filter_map forwarded_of (snd (on_input tr f i)) = [] \<or>
   filter_map forwarded_of (snd (on_input tr f i)) = filter_map audio_of [i]"
  by (cases rule: on_input_cases [of i f tr]) (auto split: disposition.splits)

lemma run_audio_count:
  "length (filter_map forwarded_of (snd (run_machine (on_input tr) f is))) +
     length (filter (\<lambda>a. a = Emit OE_AudioDropped) (snd (run_machine (on_input tr) f is))) =
   length (filter_map audio_of is)"
proof (induction "is" arbitrary: f)
  case Nil
  show ?case by simp
next
  case (Cons i "is")
  show ?case
    using Cons.IH [of "fst (on_input tr f i)"] on_input_audio_count [of tr f i]
    by (cases "audio_of i") (simp_all)
qed

lemma run_forwarded_sub:
  "subseq (filter_map forwarded_of (snd (run_machine (on_input tr) f is))) (filter_map audio_of is)"
proof (induction "is" arbitrary: f)
  case Nil
  show ?case by simp
next
  case (Cons i "is")
  have "subseq (filter_map forwarded_of (snd (on_input tr f i))) (filter_map audio_of [i])"
    using on_input_forwarded_sub [of tr f i] by (metis list_emb_Nil subseq_order.order_refl)
  from list_emb_append_mono [OF this Cons.IH] show ?case
    by (cases "audio_of i") simp_all
qed

lemma on_input_final:
  "\<not> is_terminal (session f) \<Longrightarrow>
   filter_map final_of (snd (on_input tr f i)) = filter_map committed_of [i]"
  by (cases rule: on_input_cases [of i f tr])
    (auto simp: accepts_audio_def split: disposition.splits)

lemma run_finals:
  "filter_map final_of (snd (run_machine (on_input tr) f is)) =
   filter_map committed_of (live_inputs tr f is)"
proof (induction "is" arbitrary: f)
  case Nil
  show ?case by simp
next
  case (Cons i "is")
  show ?case
  proof (cases "is_terminal (session f)")
    case True
    then have "filter_map final_of (snd (on_input tr f i)) = []"
      and "live_inputs tr f is = []" and "fst (on_input tr f i) = f"
      by (auto simp: on_input_terminal) (cases "is", simp_all)
    with True Cons.IH [of f] show ?thesis by simp
  next
    case False
    from on_input_final [OF False, of tr i] Cons.IH [of "fst (on_input tr f i)"] False show ?thesis
      by (cases "committed_of i") simp_all
  qed
qed

text \<open>The story of a capture fault once it is held: no later state completes cleanly.\<close>

definition salvage_story :: "failure \<Rightarrow> fsm \<Rightarrow> bool" where
  "salvage_story fault f \<longleftrightarrow>
     (\<not> is_terminal (session f) \<longrightarrow> capture_fault f = Some fault) \<and> session f \<noteq> Done \<and>
     (session f = Failed \<longrightarrow>
        (\<exists>code flr a b. fsm_failure f = Some (code, flr) \<and> detail flr = a @ detail fault @ b))"

lemma salvage_step:
  assumes "salvage_story fault f" and "\<And>x. i \<noteq> In_CaptureFailed x"
  shows "salvage_story fault (fst (on_input tr f i))"
proof (cases rule: on_input_cases [of i f tr])
  case (salvaged d x)
  with assms have "x = fault" by (simp add: salvage_story_def)
  moreover have "\<exists>a b. detail fault = a @ detail fault @ b"
    by (intro exI [of _ "[]"]) simp
  ultimately show ?thesis using salvaged by (simp add: salvage_story_def)
next
  case (failed code flr pre)
  with assms show ?thesis by (simp add: salvage_story_def)
qed (use assms in \<open>auto simp: salvage_story_def\<close>)

lemma salvage_run:
  "salvage_story fault f \<Longrightarrow> (\<And>x. In_CaptureFailed x \<notin> set is) \<Longrightarrow>
   salvage_story fault (fst (run_machine (on_input tr) f is))"
proof (induction "is" arbitrary: f)
  case Nil
  then show ?case by simp
next
  case (Cons i "is")
  from Cons.prems have "salvage_story fault (fst (on_input tr f i))"
    by (intro salvage_step) auto
  from Cons.IH [OF this] Cons.prems show ?case by simp
qed

section \<open>Properties of the session machine\<close>

text \<open>
  After any sequence of inputs the machine has an outcome exactly when its session is
  terminal, a completed outcome carries the transcript, and a failed outcome is the failure a
  handler recorded (the \<open>internal\<close> fallback of \<open>outcome\<close> is never used).
\<close>

theorem fsm_outcome_iff_terminal:
  "(outcome tr (fst (fsm_run tr is)) \<noteq> None \<longleftrightarrow> is_terminal (session (fst (fsm_run tr is)))) \<and>
   (\<forall>code flr. outcome tr (fst (fsm_run tr is)) = Some (Out_Failed code flr) \<longleftrightarrow>
      session (fst (fsm_run tr is)) = Failed \<and> fsm_failure (fst (fsm_run tr is)) = Some (code, flr))"
  using fsm_run_inv [of tr "is"]
  by (auto simp: outcome_def fsm_inv_def split: session_state.splits option.splits)

text \<open>
  A terminal session stays as it is whatever arrives afterwards (a stray backend frame, a
  second release, an abort, a capture fault), and asks for nothing except to report audio that
  comes too late.
\<close>

theorem fsm_terminal_absorbing:
  assumes "is_terminal (session (fst (fsm_run tr is)))"
  shows "fst (fsm_run tr (is @ js)) = fst (fsm_run tr is) \<and>
    snd (fsm_run tr (is @ js)) =
      snd (fsm_run tr is) @ replicate (length (filter_map audio_of js)) (Emit OE_AudioDropped)"
proof -
  let ?f = "fst (fsm_run tr is)"
  have "snd (run_machine (on_input tr) ?f js) =
      replicate (length (filter_map audio_of js)) (Emit OE_AudioDropped)"
    using assms by (induction js) (auto simp: on_input_terminal split: option.splits)
  moreover have "fst (run_machine (on_input tr) ?f js) = ?f"
    by (rule fsm_m.run_halted [OF fsm_run_inv assms])
  ultimately show ?thesis by (simp add: fst_run_machine_append snd_run_machine_append)
qed

theorem fsm_terminal_absorbing_witness:
  "fst (fsm_run id ([In_Abort] @ [In_EndOfAudio, In_Stalled, In_Backend (TE_Done default_final)]))
     = fst (fsm_run id [In_Abort])"
  using fsm_terminal_absorbing
    [of id "[In_Abort]" "[In_EndOfAudio, In_Stalled, In_Backend (TE_Done default_final)]"]
  by (simp add: on_abort_def fsm_new_def)

text \<open>
  Audio is forwarded to the backend only while the accept gate is open: every forwarded
  chunk comes after the model was announced ready and before the end of audio, an abort, a
  failure or the transcript.
\<close>

theorem fsm_forward_window:
  assumes "snd (fsm_run tr is) = xs @ ForwardAudio c # ys"
  shows "Emit OE_Ready \<in> set xs \<and> SendFinish \<notin> set xs \<and> SendAbort \<notin> set xs \<and>
    filter is_error xs = [] \<and> filter is_done xs = []"
  using fsm_run_trace [of tr "is"] assms
  by (auto simp: forwards_in_window_def window_open_def)

theorem fsm_forward_window_witness:
  "Emit OE_Ready \<in> set [Emit OE_Ready] \<and> SendFinish \<notin> set [Emit OE_Ready]"
  using fsm_forward_window
    [of id "[In_Backend (TE_Progress (progress_phase PHASE_READY)),
             In_Audio \<lparr>chunk_data = [1, 2], chunk_format = default_format\<rparr>, In_EndOfAudio]"
        "[Emit OE_Ready]" "\<lparr>chunk_data = [1, 2], chunk_format = default_format\<rparr>" "[SendFinish]"]
  by (simp add: fsm_handlers fsm_new_def progress_phase_def phase_defs accepts_audio_def gate_open_def)

text \<open>
  C3: No chunk is lost silently: every chunk handed to the machine is either forwarded or
  reported dropped, and the forwarded ones keep their order.
\<close>

theorem fsm_audio_conserved:
  "length (filter_map audio_of is) =
     length (filter_map forwarded_of (snd (fsm_run tr is))) +
     length (filter (\<lambda>a. a = Emit OE_AudioDropped) (snd (fsm_run tr is))) \<and>
   subseq (filter_map forwarded_of (snd (fsm_run tr is))) (filter_map audio_of is)"
  using run_audio_count [of tr fsm_new "is"] run_forwarded_sub [of tr fsm_new "is"] by simp

text \<open>
  In one session readiness is announced at most once, the finish and the abort are sent at
  most once, a capture loss is announced at most once, and at most one error and one transcript
  are surfaced.
\<close>

theorem fsm_effects_once:
  "length (filter (\<lambda>a. a = Emit OE_Ready) (snd (fsm_run tr is))) \<le> 1 \<and>
   length (filter (\<lambda>a. a = SendFinish) (snd (fsm_run tr is))) \<le> 1 \<and>
   length (filter (\<lambda>a. a = SendAbort) (snd (fsm_run tr is))) \<le> 1 \<and>
   length (filter is_capture_lost (snd (fsm_run tr is))) \<le> 1 \<and>
   length (filter is_error (snd (fsm_run tr is))) \<le> 1 \<and>
   length (filter is_done (snd (fsm_run tr is))) \<le> 1"
  using ready_once.run_emits_once [OF fsm_new_inv] finish_once.run_emits_once [OF fsm_new_inv]
    abort_once.run_emits_once [OF fsm_new_inv] capture_lost_once.run_emits_once [OF fsm_new_inv]
    error_once.run_emits_once [OF fsm_new_inv] done_once.run_emits_once [OF fsm_new_inv]
  by blast

text \<open>
  The committed text surfaced for injection is exactly the committed segments the backend
  sent while the session was live, in their order; unstable hypotheses and snippets never
  become committed text.
\<close>

theorem fsm_committed_text:
  "filter_map final_of (snd (fsm_run tr is)) = filter_map committed_of (live_inputs tr fsm_new is)"
  by (rule run_finals)

text \<open>
  Once capture has been lost with audio accepted, the session never completes cleanly: it
  can only be aborted or fail, and the failure it reports contains the capture fault, whatever
  went wrong while the utterance was being finished.
\<close>

theorem fsm_salvage_reports_fault:
  assumes "\<not> is_terminal (session (fst (fsm_run tr is)))"
    and "capture_fault (fst (fsm_run tr is)) = Some fault"
    and "\<And>x. In_CaptureFailed x \<notin> set js"
  shows "session (fst (fsm_run tr (is @ js))) \<noteq> Done \<and>
    (\<forall>code flr. outcome tr (fst (fsm_run tr (is @ js))) = Some (Out_Failed code flr) \<longrightarrow>
       (\<exists>a b. detail flr = a @ detail fault @ b))"
proof -
  from assms(1,2) have "salvage_story fault (fst (fsm_run tr is))"
    by (auto simp: salvage_story_def)
  from salvage_run [OF this assms(3)] have story: "salvage_story fault (fst (fsm_run tr (is @ js)))"
    by (simp add: fst_run_machine_append)
  show ?thesis
  proof (intro conjI allI impI)
    show "session (fst (fsm_run tr (is @ js))) \<noteq> Done" using story by (simp add: salvage_story_def)
    fix code flr
    assume "outcome tr (fst (fsm_run tr (is @ js))) = Some (Out_Failed code flr)"
    then show "\<exists>a b. detail flr = a @ detail fault @ b"
      using story by (auto simp: outcome_def salvage_story_def split: session_state.splits option.splits)
  qed
qed

theorem fsm_salvage_reports_fault_witness:
  "session (fst (fsm_run id ([In_CaptureLost (failure_new (lit ''h'') (lit ''d''))] @
     [In_EndOfAudio, In_Backend (TE_Done default_final)]))) \<noteq> Done"
  using fsm_salvage_reports_fault
    [of id "[In_CaptureLost (failure_new (lit ''h'') (lit ''d''))]" "failure_new (lit ''h'') (lit ''d'')"
        "[In_EndOfAudio, In_Backend (TE_Done default_final)]"]
  by (simp add: on_capture_lost_def fsm_new_def)

end
