(* ===== verification/Share.thy ===== *)
theory Share
  imports Fsm "HOL-Library.List_Lexorder" "HOL-Library.Multiset"
begin

text \<open>
  Where the backend socket is, resolved per utterance: \<open>client/myna-orchestrator/src/backend/share.rs\<close>,
  and the errors of the backend boundary with their headlines, \<open>backend/mod.rs\<close>.
  The file system is a parameter: a directory listing in which every entry says what reading it
  would answer.
\<close>

section \<open>Providers and resolution errors\<close>

text \<open>A path is the list of its components.\<close>

type_synonym path = "ustr list"

record provider =
  socket :: path
  prov_snap_name :: "ustr option"

record unusable =
  no_unix_socket :: "ustr list"
  not_serving :: "ustr list"
  malformed_count :: nat
  unmounted :: nat

definition unusable_default :: unusable where
  "unusable_default = \<lparr>no_unix_socket = [], not_serving = [], malformed_count = 0, unmounted = 0\<rparr>"

definition unusable_is_empty :: "unusable \<Rightarrow> bool" where
  "unusable_is_empty u \<longleftrightarrow> no_unix_socket u = [] \<and> not_serving u = [] \<and>
     malformed_count u = 0 \<and> unmounted u = 0"

datatype resolve_error =
    NotConnected unusable
  | Ambiguous "ustr list"

fun resolve_headline :: "translate \<Rightarrow> resolve_error \<Rightarrow> ustr" where
  "resolve_headline tr (NotConnected u) =
     (if unusable_is_empty u then tr (lit ''Model not connected'')
      else if unmounted u > 0 then tr (lit ''Model connected. Retry shortly'')
      else if not_serving u \<noteq> [] then tr (lit ''Model not running'')
      else tr (lit ''Model not compatible''))"
| "resolve_headline tr (Ambiguous _) = tr (lit ''Several models connected'')"

fun resolve_needs_restart :: "resolve_error \<Rightarrow> bool" where
  "resolve_needs_restart (NotConnected u) = (unmounted u > 0)"
| "resolve_needs_restart (Ambiguous _) = False"

fun show_resolve_error :: "resolve_error \<Rightarrow> ustr" where
  "show_resolve_error (NotConnected u) =
     (if unusable_is_empty u then lit ''no model is connected''
      else join (lit ''; '')
        (map (\<lambda>n. n @ lit '' is connected but cannot serve dictation'') (no_unix_socket u) @
         map (\<lambda>n. n @ lit '' is connected but not running'') (not_serving u) @
         (if malformed_count u = 0 then []
          else if malformed_count u = 1 then [lit ''a connected model could not be identified'']
          else [dec_digits (malformed_count u) @ lit '' connected models could not be identified'']) @
         (if unmounted u > 0 then [lit ''a model was connected after Dictation started''] else [])))"
| "show_resolve_error (Ambiguous names) =
     dec_digits (length names) @ lit '' models are connected ('' @ join (lit '', '') names @
     lit ''); connect only one''"

section \<open>Reading a share\<close>

text \<open>What \<open>read_to_string\<close> answers for \<open>provider.env\<close>.\<close>

datatype env_file = EnvText ustr | EnvNotFound | EnvUnreadable ustr

record share_entry =
  share_name :: ustr
  share_is_dir :: bool
  share_env :: env_file
  share_is_empty :: bool
  share_socket :: "path \<Rightarrow> bool"

datatype component = RootDir | CurDir | ParentDir | Normal ustr

text \<open>
  \<open>Path::components\<close> of a Unix path: repeated separators and \<open>.\<close> components are dropped, except
  a leading \<open>.\<close> of a relative path.
\<close>

fun later_component :: "ustr \<Rightarrow> component option" where
  "later_component p =
     (if p = [] \<or> p = lit ''.'' then None
      else if p = lit ''..'' then Some ParentDir else Some (Normal p))"

definition components :: "ustr \<Rightarrow> component list" where
  "components s =
     (let ps = split_p (\<lambda>c. c = 47) s in
      if starts_with (lit ''/'') s then RootDir # filter_map later_component ps
      else (case ps of
              p # rest \<Rightarrow> (if p = lit ''.'' then [CurDir] else []) @ filter_map later_component ps
            | [] \<Rightarrow> []))"

definition confined :: "component list \<Rightarrow> bool" where
  "confined cs = list_all (\<lambda>c. case c of Normal _ \<Rightarrow> True | CurDir \<Rightarrow> True | _ \<Rightarrow> False) cs"

text \<open>\<open>Path::join\<close> of a relative path, as the file system walks it.\<close>

fun walk :: "path \<Rightarrow> component list \<Rightarrow> path" where
  "walk base [] = base"
| "walk base (RootDir # cs) = walk [] cs"
| "walk base (CurDir # cs) = walk base cs"
| "walk base (ParentDir # cs) = walk (butlast base) cs"
| "walk base (Normal n # cs) = walk (base @ [n]) cs"

definition unquote :: "ustr \<Rightarrow> ustr" where
  "unquote value =
     (let strip = (\<lambda>q. Option.bind (strip_prefix q value) (\<lambda>rest. strip_suffix q rest)) in
      case strip [34] of Some v \<Rightarrow> v
      | None \<Rightarrow> (case strip [39] of Some v \<Rightarrow> v | None \<Rightarrow> value))"

fun parse_env_lines :: "(ustr \<rightharpoonup> ustr) \<Rightarrow> ustr list \<Rightarrow> (ustr \<rightharpoonup> ustr) option" where
  "parse_env_lines env [] = Some env"
| "parse_env_lines env (raw # lines) =
     (let line = trim raw in
      if line = [] \<or> starts_with (lit ''#'') line then parse_env_lines env lines
      else case split_once 61 line of
        None \<Rightarrow> None
      | Some (k, v) \<Rightarrow>
          (let key = trim k in
           if key = [] then None
           else parse_env_lines (env(key \<mapsto> unquote (trim v))) lines))"

definition parse_env :: "ustr \<Rightarrow> (ustr \<rightharpoonup> ustr) option" where
  "parse_env txt = parse_env_lines Map.empty (rust_lines txt)"

section \<open>Resolution\<close>

definition bump_malformed :: "unusable \<Rightarrow> unusable" where
  "bump_malformed u = u\<lparr>malformed_count := malformed_count u + 1\<rparr>"

definition nonempty_var :: "(ustr \<rightharpoonup> ustr) \<Rightarrow> ustr \<Rightarrow> ustr option" where
  "nonempty_var env k = (case env k of Some v \<Rightarrow> if v = [] then None else Some v | None \<Rightarrow> None)"

text \<open>One iteration of the loop over the shares.\<close>

definition resolve_share ::
  "path \<Rightarrow> (ustr \<Rightarrow> bool) \<Rightarrow> share_entry \<Rightarrow> provider list \<times> unusable \<Rightarrow> provider list \<times> unusable" where
  "resolve_share dir mounted share acc =
     (case acc of (found, u) \<Rightarrow>
       case share_env share of
         EnvNotFound \<Rightarrow>
           (if share_is_empty share \<and> \<not> mounted (share_name share)
            then (found, u\<lparr>unmounted := unmounted u + 1\<rparr>) else (found, u))
       | EnvUnreadable _ \<Rightarrow> (found, bump_malformed u)
       | EnvText txt \<Rightarrow>
           (case parse_env txt of
              None \<Rightarrow> (found, bump_malformed u)
            | Some env \<Rightarrow>
                (case nonempty_var env (lit ''SNAP_NAME'') of
                   None \<Rightarrow> (found, bump_malformed u)
                 | Some snap \<Rightarrow>
                     (case nonempty_var env (lit ''UNIX_SOCKET'') of
                        None \<Rightarrow> (found, u\<lparr>no_unix_socket := no_unix_socket u @ [snap]\<rparr>)
                      | Some rel \<Rightarrow>
                          (if \<not> confined (components rel) then (found, bump_malformed u)
                           else
                             let sock = walk (dir @ [share_name share]) (components rel) in
                             if share_socket share sock
                             then (found @ [\<lparr>socket = sock, prov_snap_name = Some snap\<rparr>], u)
                             else (found, u\<lparr>not_serving := not_serving u @ [snap]\<rparr>))))))"

definition resolve_with ::
  "path \<Rightarrow> (ustr \<Rightarrow> bool) \<Rightarrow> share_entry list option \<Rightarrow> resolve_error + provider" where
  "resolve_with dir mounted listing =
     (case listing of
        None \<Rightarrow> Inl (NotConnected unusable_default)
      | Some entries \<Rightarrow>
          (let shares = sort_key share_name (filter share_is_dir entries);
               (found, u) = fold (resolve_share dir mounted) shares ([], unusable_default)
           in case found of
                [] \<Rightarrow> Inl (NotConnected u)
              | [p] \<Rightarrow> Inr p
              | _ \<Rightarrow> Inl (Ambiguous (filter_map prov_snap_name found))))"

section \<open>Octal escapes of the mount table\<close>

definition octal_digit :: "byte \<Rightarrow> bool" where
  "octal_digit b \<longleftrightarrow> 48 \<le> unat b \<and> unat b \<le> 55"

definition octal_value :: "byte \<Rightarrow> byte \<Rightarrow> byte \<Rightarrow> nat" where
  "octal_value a b c = 64 * (unat a - 48) + 8 * (unat b - 48) + (unat c - 48)"

fun unescape_mountinfo :: "byte list \<Rightarrow> byte list" where
  "unescape_mountinfo (b # d1 # d2 # d3 # rest) =
     (if b = 92 \<and> octal_digit d1 \<and> octal_digit d2 \<and> octal_digit d3 \<and> octal_value d1 d2 d3 < 256
      then word_of_nat (octal_value d1 d2 d3) # unescape_mountinfo rest
      else b # unescape_mountinfo (d1 # d2 # d3 # rest))"
| "unescape_mountinfo (b # rest) = b # unescape_mountinfo rest"
| "unescape_mountinfo [] = []"

section \<open>Which socket an utterance uses\<close>

datatype backend_socket = Fixed path | Search path

definition from_flags :: "path option \<Rightarrow> path option \<Rightarrow> ustr + backend_socket option" where
  "from_flags sock backend_dir =
     (case (sock, backend_dir) of
        (Some _, Some _) \<Rightarrow> Inl (lit ''--socket and --backend-dir are alternatives (pick one)'')
      | (Some p, None) \<Rightarrow> Inr (Some (Fixed p))
      | (None, Some d) \<Rightarrow> Inr (Some (Search d))
      | (None, None) \<Rightarrow> Inr None)"

text \<open>The listing of the searched directory is read at this moment, once per utterance.\<close>

fun backend_socket_resolve ::
  "(ustr \<Rightarrow> bool) \<Rightarrow> (path \<Rightarrow> share_entry list option) \<Rightarrow> backend_socket \<Rightarrow> resolve_error + provider" where
  "backend_socket_resolve mounted list_dir (Fixed p) =
     Inr \<lparr>socket = p, prov_snap_name = None\<rparr>"
| "backend_socket_resolve mounted list_dir (Search d) = resolve_with d mounted (list_dir d)"

section \<open>Errors of the backend boundary\<close>

datatype wire_error = NotAnEvent | BadData ustr

datatype backend_error =
    BE_Resolve resolve_error
  | BE_Connect ustr
  | BE_Handshake ustr
  | BE_Rejected ustr ustr
  | BE_Wire wire_error
  | BE_Closed
  | BE_Transport ustr

fun show_wire_error :: "wire_error \<Rightarrow> ustr" where
  "show_wire_error NotAnEvent =
     lit ''frame is not a transcript event (missing string \"event\" key)''"
| "show_wire_error (BadData e) = lit ''malformed event data: '' @ e"

fun backend_headline :: "translate \<Rightarrow> backend_error \<Rightarrow> ustr" where
  "backend_headline tr (BE_Resolve e) = resolve_headline tr e"
| "backend_headline tr (BE_Connect _) = tr (lit ''Model not reachable'')"
| "backend_headline tr (BE_Handshake _) = model_not_responding tr"
| "backend_headline tr (BE_Rejected code _) =
     (if code = lit ''unsupported_protocol_version'' then tr (lit ''Model not compatible'')
      else tr (lit ''Model error''))"
| "backend_headline tr (BE_Wire _) = tr (lit ''Model error'')"
| "backend_headline tr BE_Closed = tr (lit ''Model stopped'')"
| "backend_headline tr (BE_Transport _) = model_connection_lost tr"

fun backend_needs_restart :: "backend_error \<Rightarrow> bool" where
  "backend_needs_restart (BE_Resolve e) = resolve_needs_restart e"
| "backend_needs_restart _ = False"

fun show_backend_error :: "backend_error \<Rightarrow> ustr" where
  "show_backend_error (BE_Resolve e) = show_resolve_error e"
| "show_backend_error (BE_Connect e) = lit ''cannot reach the model: '' @ e"
| "show_backend_error (BE_Handshake e) = lit ''handshake failed: '' @ e"
| "show_backend_error (BE_Rejected code msg) = lit ''session rejected: '' @ code @ lit '': '' @ msg"
| "show_backend_error (BE_Wire e) = lit ''malformed event from the model: '' @ show_wire_error e"
| "show_backend_error BE_Closed = lit ''the model closed the connection unexpectedly''"
| "show_backend_error (BE_Transport e) = lit ''transport error: '' @ e"

definition backend_failure :: "translate \<Rightarrow> backend_error \<Rightarrow> failure" where
  "backend_failure tr e = failure_new (backend_headline tr e) (show_backend_error e)"

section \<open>What resolution finds\<close>

text \<open>The provider a share offers, if it offers one: the abstract reading of a share.\<close>

definition offered :: "path \<Rightarrow> share_entry \<Rightarrow> provider option" where
  "offered dir e =
     (case share_env e of
        EnvText txt \<Rightarrow>
          Option.bind (parse_env txt) (\<lambda>env.
          Option.bind (nonempty_var env (lit ''SNAP_NAME'')) (\<lambda>snap.
          Option.bind (nonempty_var env (lit ''UNIX_SOCKET'')) (\<lambda>rel.
            let sock = walk (dir @ [share_name e]) (components rel) in
            if confined (components rel) \<and> share_socket e sock
            then Some \<lparr>socket = sock, prov_snap_name = Some snap\<rparr> else None)))
      | _ \<Rightarrow> None)"

lemma resolve_share_found:
  "fst (resolve_share dir mounted e (found, u)) = found @ filter_map (offered dir) [e]"
  by (simp add: resolve_share_def offered_def Let_def split: env_file.split option.split bool.split)

lemma fold_resolve_found:
  "fst (fold (resolve_share dir mounted) es acc) = fst acc @ filter_map (offered dir) es"
proof (induction es arbitrary: acc)
  case Nil
  show ?case by simp
next
  case (Cons e es)
  have "fst (resolve_share dir mounted e acc) = fst acc @ filter_map (offered dir) [e]"
    using resolve_share_found [of dir mounted e "fst acc" "snd acc"] by simp
  with Cons.IH [of "resolve_share dir mounted e acc"] show ?case
    by (cases "offered dir e") simp_all
qed

lemma mset_filter_map: "mset (filter_map f xs) = image_mset the (filter_mset (\<lambda>y. y \<noteq> None) (image_mset f (mset xs)))"
  by (induction xs) (auto split: option.splits)

lemma filter_map_mset_cong: "mset xs = mset ys \<Longrightarrow> mset (filter_map f xs) = mset (filter_map f ys)"
  by (simp add: mset_filter_map)

lemma offered_snap: "offered dir e = Some p \<Longrightarrow> prov_snap_name p \<noteq> None"
  by (auto simp: offered_def Let_def split: env_file.splits if_splits bind_splits)

lemma length_filter_map_total:
  "(\<And>x. x \<in> set xs \<Longrightarrow> f x \<noteq> None) \<Longrightarrow> length (filter_map f xs) = length xs"
  by (induction xs) (auto split: option.splits)

lemma confined_walk: "confined cs \<Longrightarrow> \<exists>rest. walk base cs = base @ rest"
proof (induction base cs rule: walk.induct)
  case (5 base n cs)
  then obtain rest where "walk (base @ [n]) cs = (base @ [n]) @ rest" by (auto simp: confined_def)
  then show ?case by auto
qed (auto simp: confined_def)

lemma offered_inside:
  assumes "offered dir e = Some p"
  shows "share_socket e (socket p) \<and> (\<exists>rest. socket p = dir @ share_name e # rest)"
proof -
  from assms obtain rel where rel: "confined (components rel)"
      "socket p = walk (dir @ [share_name e]) (components rel)" "share_socket e (socket p)"
    by (auto simp: offered_def Let_def split: env_file.splits if_splits bind_splits)
  from confined_walk [OF rel(1)] obtain rest where
    "walk (dir @ [share_name e]) (components rel) = (dir @ [share_name e]) @ rest" by blast
  with rel show ?thesis by simp
qed

text \<open>Resolution as a function of the offers alone.\<close>

lemma resolve_with_offers:
  "resolve_with dir mounted (Some entries) =
     (let shares = sort_key share_name (filter share_is_dir entries);
          u = snd (fold (resolve_share dir mounted) shares ([], unusable_default))
      in case filter_map (offered dir) shares of
           [] \<Rightarrow> Inl (NotConnected u) | [p] \<Rightarrow> Inr p
         | ps \<Rightarrow> Inl (Ambiguous (filter_map prov_snap_name ps)))"
proof -
  define acc where "acc = fold (resolve_share dir mounted)
    (sort_key share_name (filter share_is_dir entries)) ([], unusable_default)"
  have "fst acc = filter_map (offered dir) (sort_key share_name (filter share_is_dir entries))"
    by (simp add: acc_def fold_resolve_found)
  then show ?thesis
    unfolding resolve_with_def acc_def [symmetric]
    by (cases acc) (auto simp: Let_def acc_def [symmetric] split: list.split)
qed

section \<open>Properties of socket resolution\<close>

text \<open>
  Resolution succeeds exactly when one share among the subdirectories offers a socket, and
  then returns that share's provider; with none it reports that nothing is connected, with
  several it refuses to choose and names each of them.
\<close>

theorem resolve_exactly_one:
  "case filter_map (offered dir) (filter share_is_dir entries) of
     [] \<Rightarrow> \<exists>u. resolve_with dir mounted (Some entries) = Inl (NotConnected u)
   | [p] \<Rightarrow> resolve_with dir mounted (Some entries) = Inr p
   | ps \<Rightarrow> \<exists>names. resolve_with dir mounted (Some entries) = Inl (Ambiguous names) \<and>
       mset names = mset (filter_map prov_snap_name ps) \<and> length names = length ps"
proof -
  let ?raw = "filter_map (offered dir) (filter share_is_dir entries)"
  let ?ord = "filter_map (offered dir) (sort_key share_name (filter share_is_dir entries))"
  have perm: "mset ?ord = mset ?raw" by (rule filter_map_mset_cong) simp
  have total: "length (filter_map prov_snap_name ?ord) = length ?raw"
    using length_filter_map_total [of ?ord prov_snap_name] offered_snap mset_eq_length [OF perm]
    by (auto simp: set_filter_map)
  consider (none) "?raw = []" | (one) p where "?raw = [p]"
    | (many) p q rest where "?raw = p # q # rest" by (cases ?raw rule: remdups_adj.cases) auto
  then show ?thesis
  proof cases
    case none
    with perm have "?ord = []" by simp
    with none show ?thesis by (simp add: resolve_with_offers Let_def)
  next
    case one
    with perm have "?ord = [p]" by simp
    with one show ?thesis by (simp add: resolve_with_offers Let_def)
  next
    case many
    from mset_eq_length [OF perm] many obtain p' q' rest' where ord: "?ord = p' # q' # rest'"
      by (cases ?ord rule: remdups_adj.cases) auto
    have "resolve_with dir mounted (Some entries) = Inl (Ambiguous (filter_map prov_snap_name ?ord))"
      by (simp add: resolve_with_offers Let_def ord)
    moreover have "mset (filter_map prov_snap_name ?ord) = mset (filter_map prov_snap_name ?raw)"
      by (rule filter_map_mset_cong [OF perm])
    ultimately show ?thesis using total many by auto
  qed
qed

text \<open>
  The socket a search resolves to is a socket inside a subdirectory of the searched directory:
  a provider file cannot point the client outside its own share, whatever path it names.
\<close>

theorem resolve_socket_confined:
  assumes "resolve_with dir mounted (Some entries) = Inr p"
  shows "\<exists>e \<in> set entries. share_is_dir e \<and> share_socket e (socket p) \<and>
    (\<exists>rest. socket p = dir @ share_name e # rest)"
proof -
  let ?ord = "filter_map (offered dir) (sort_key share_name (filter share_is_dir entries))"
  from assms have "?ord = [p]"
    by (simp add: resolve_with_offers Let_def split: list.splits)
  then have "p \<in> set ?ord" by simp
  then obtain e where "e \<in> set entries" "share_is_dir e" "offered dir e = Some p"
    by (auto simp: set_filter_map)
  with offered_inside [of dir e p] show ?thesis by blast
qed

definition example_share :: share_entry where
  "example_share = \<lparr>share_name = lit ''parakeet'', share_is_dir = True,
     share_env = EnvText (lit ''SNAP_NAME=parakeet'' @ [10] @ lit ''UNIX_SOCKET=run/s''),
     share_is_empty = False, share_socket = (\<lambda>p. True)\<rparr>"

lemma example_env:
  "parse_env (lit ''SNAP_NAME=parakeet'' @ [10] @ lit ''UNIX_SOCKET=run/s'') =
     Some [lit ''SNAP_NAME'' \<mapsto> lit ''parakeet'', lit ''UNIX_SOCKET'' \<mapsto> lit ''run/s'']"
  by (simp add: parse_env_def rust_lines_def lit_def trim_def trim_start_def trim_end_def
      is_whitespace_def strip_cr_def strip_suffix_def unquote_def starts_with_def)

lemma example_components: "components (lit ''run/s'') = [Normal (lit ''run''), Normal (lit ''s'')]"
  by (simp add: components_def lit_def starts_with_def)

lemma example_offered: "offered [lit ''b''] example_share =
    Some \<lparr>socket = [lit ''b'', lit ''parakeet'', lit ''run'', lit ''s''],
      prov_snap_name = Some (lit ''parakeet'')\<rparr>"
  by (simp add: offered_def example_share_def example_env [simplified] example_components nonempty_var_def
      confined_def)

theorem resolve_socket_confined_witness:
  "resolve_with [lit ''b''] (\<lambda>_. True) (Some [example_share]) =
     Inr \<lparr>socket = [lit ''b'', lit ''parakeet'', lit ''run'', lit ''s''],
       prov_snap_name = Some (lit ''parakeet'')\<rparr> \<and>
   (\<exists>rest. [lit ''b'', lit ''parakeet'', lit ''run'', lit ''s''] = [lit ''b''] @ lit ''parakeet'' # rest)"
proof -
  have found: "resolve_with [lit ''b''] (\<lambda>_. True) (Some [example_share]) =
     Inr \<lparr>socket = [lit ''b'', lit ''parakeet'', lit ''run'', lit ''s''],
       prov_snap_name = Some (lit ''parakeet'')\<rparr>"
    by (simp add: resolve_with_offers example_offered) (simp add: example_share_def)
  from resolve_socket_confined [OF this] show ?thesis
    using found by (simp add: example_share_def)
qed

text \<open>
  Resolution does not depend on the order in which the file system lists the entries of the
  directory, the names of whose subdirectories differ.
\<close>

theorem resolve_order_independent:
  assumes "mset entries = mset entries'" and "distinct (map share_name (filter share_is_dir entries))"
  shows "resolve_with dir mounted (Some entries) = resolve_with dir mounted (Some entries')"
proof -
  have "mset (filter share_is_dir entries) = mset (filter share_is_dir entries')"
    using assms(1) by simp
  then have "sort_key share_name (filter share_is_dir entries) =
      sort_key share_name (filter share_is_dir entries')"
    using assms(2) by (intro sort_key_inj_key_eq) (auto simp: distinct_map)
  then show ?thesis by (simp add: resolve_with_def)
qed

theorem resolve_order_independent_witness:
  "resolve_with [] (\<lambda>_. True) (Some [example_share, example_share\<lparr>share_name := lit ''whisper''\<rparr>]) =
   resolve_with [] (\<lambda>_. True) (Some [example_share\<lparr>share_name := lit ''whisper''\<rparr>, example_share])"
  by (rule resolve_order_independent) (simp_all add: example_share_def add_mset_commute)

text \<open>The kernel's escaping of a mount point in \<open>/proc/self/mountinfo\<close>: space, tab, newline, backslash.\<close>

definition octal_escape :: "byte \<Rightarrow> byte list" where
  "octal_escape b =
     (if b = 32 \<or> b = 9 \<or> b = 10 \<or> b = 92
      then [92, 48 + b div 64, 48 + (b div 8) mod 8, 48 + b mod 8] else [b])"

lemma unescape_plain: "b \<noteq> 92 \<Longrightarrow> unescape_mountinfo (b # rest) = b # unescape_mountinfo rest"
  by (cases "b # rest" rule: unescape_mountinfo.cases) auto

lemma unescape_octal_escape:
  "unescape_mountinfo (octal_escape b @ rest) = b # unescape_mountinfo rest"
proof (cases "b = 32 \<or> b = 9 \<or> b = 10 \<or> b = 92")
  case True
  then show ?thesis
    by (auto simp: octal_escape_def octal_digit_def octal_value_def)
next
  case False
  then show ?thesis by (simp add: octal_escape_def unescape_plain)
qed

text \<open>
  Decoding a field of the mount table undoes the kernel's escaping, for every path.
\<close>

theorem unescape_mountinfo_roundtrip:
  "unescape_mountinfo (concat (map octal_escape bs)) = bs"
  by (induction bs) (simp_all add: unescape_octal_escape)

end
