(* ===== verification/Driver.thy ===== *)
theory Driver
  imports Share
begin

text \<open>
  The driver around the session machine, \<open>client/myna-orchestrator/src/driver.rs\<close>: it opens a
  backend session, pumps client inputs, control inputs and backend events into the machine and
  executes the actions it returns. One poll of its \<open>select!\<close> is one step: the environment offers
  what is ready on each arm, and the biased order of the arms decides which one is taken.
  Time is counted in milliseconds.
\<close>

section \<open>Inputs, the deadline and the state\<close>

definition BACKEND_PROGRESS_TIMEOUT :: nat where
  "BACKEND_PROGRESS_TIMEOUT = 300 * 1000"

datatype orchestrator_input = OI_Audio pcm_chunk | OI_EndOfAudio

datatype orchestrator_control =
    OC_Abort
  | OC_CaptureFailed failure
  | OC_CaptureLost failure
  | OC_CaptureEnded

datatype outbound = Ob_Audio pcm_chunk | Ob_Finish

type_synonym deadline = "nat option"

definition arm :: "nat \<Rightarrow> deadline" where
  "arm now = Some (now + BACKEND_PROGRESS_TIMEOUT)"

definition made_progress :: "nat \<Rightarrow> deadline \<Rightarrow> deadline" where
  "made_progress now d = (if d \<noteq> None then arm now else d)"

definition expired :: "nat \<Rightarrow> deadline \<Rightarrow> bool" where
  "expired now d = (case d of Some due \<Rightarrow> due \<le> now | None \<Rightarrow> False)"

record driver =
  drv_fsm :: fsm
  drv_deadline :: deadline
  control_open :: bool
  inputs_open :: bool
  outbound_slot :: "outbound option"

text \<open>
  What is ready at one poll. On a channel, \<open>Some None\<close> is its closing; an offered permit is
  \<open>True\<close> when the transport has room and \<open>False\<close> when it is gone.
\<close>

record offers =
  off_now :: nat
  off_control :: "orchestrator_control option option"
  off_opened :: "(backend_error + unit) option"
  off_event :: "(backend_error + transcription_event) option option"
  off_activity :: bool
  off_permit :: "bool option"
  off_input :: "orchestrator_input option option"

datatype effect = Sent outbound | AbortSent | Output orchestrator_event

datatype stage =
    Handshaking driver
  | Pumping driver
  | Returned "backend_error + session_outcome" driver
  | Panicked

section \<open>The arms of the select loops\<close>

datatype arm_taken =
    Arm_Control "orchestrator_control option"
  | Arm_Opened "backend_error + unit"
  | Arm_Event "(backend_error + transcription_event) option"
  | Arm_Activity
  | Arm_Permit bool
  | Arm_Input "orchestrator_input option"
  | Arm_Deadline

text \<open>The biased select of the handshake loop.\<close>

definition select_handshake :: "offers \<Rightarrow> driver \<Rightarrow> arm_taken option" where
  "select_handshake off d =
     (if control_open d \<and> off_control off \<noteq> None then map_option Arm_Control (off_control off)
      else if expired (off_now off) (drv_deadline d) then Some Arm_Deadline
      else map_option Arm_Opened (off_opened off))"

text \<open>The biased select of the session loop.\<close>

definition select_session :: "offers \<Rightarrow> driver \<Rightarrow> arm_taken option" where
  "select_session off d =
     (if control_open d \<and> off_control off \<noteq> None then map_option Arm_Control (off_control off)
      else if off_event off \<noteq> None then map_option Arm_Event (off_event off)
      else if off_activity off then Some Arm_Activity
      else if outbound_slot d \<noteq> None \<and> off_permit off \<noteq> None
        then map_option Arm_Permit (off_permit off)
      else if inputs_open d \<and> outbound_slot d = None \<and> accepts_audio (drv_fsm d) \<and> off_input off \<noteq> None
        then map_option Arm_Input (off_input off)
      else if expired (off_now off) (drv_deadline d) then Some Arm_Deadline
      else None)"

definition set_armed :: "nat \<Rightarrow> driver \<Rightarrow> driver" where
  "set_armed now d = d\<lparr>drv_deadline := arm now\<rparr>"

definition set_progress :: "nat \<Rightarrow> driver \<Rightarrow> driver" where
  "set_progress now d = d\<lparr>drv_deadline := made_progress now (drv_deadline d)\<rparr>"

fun control_input :: "nat \<Rightarrow> orchestrator_control option \<Rightarrow> driver \<Rightarrow> driver \<times> fsm_input option" where
  "control_input now (Some OC_Abort) d = (d, Some In_Abort)"
| "control_input now (Some (OC_CaptureFailed fault)) d = (d, Some (In_CaptureFailed fault))"
| "control_input now (Some (OC_CaptureLost fault)) d = (set_armed now d, Some (In_CaptureLost fault))"
| "control_input now (Some OC_CaptureEnded) d = (set_armed now d, None)"
| "control_input now None d = (d\<lparr>control_open := False\<rparr>, None)"

text \<open>
  The body of the arm that was taken: the input it feeds the machine, if any, and the items it
  hands to the transport.
\<close>

fun take_arm :: "nat \<Rightarrow> arm_taken \<Rightarrow> driver \<Rightarrow> driver \<times> fsm_input option \<times> effect list" where
  "take_arm now (Arm_Control c) d = (let (d', i) = control_input now c d in (d', i, []))"
| "take_arm now (Arm_Opened r) d = (d, None, [])"
| "take_arm now (Arm_Event incoming) d =
     (set_progress now d,
      Some (case incoming of
              Some (Inr event) \<Rightarrow> In_Backend event
            | Some (Inl err) \<Rightarrow> In_BackendClosed (Some (show_backend_error err))
            | None \<Rightarrow> In_BackendClosed None), [])"
| "take_arm now Arm_Activity d = (set_progress now d, None, [])"
| "take_arm now (Arm_Permit ok) d =
     (case outbound_slot d of
        Some item \<Rightarrow>
          (if ok then (set_progress now (d\<lparr>outbound_slot := None\<rparr>), None, [Sent item])
           else (d\<lparr>outbound_slot := None\<rparr>, None, []))
      | None \<Rightarrow> (d, None, []))"
| "take_arm now (Arm_Input (Some (OI_Audio chunk))) d = (d, Some (In_Audio chunk), [])"
| "take_arm now (Arm_Input (Some OI_EndOfAudio)) d = (set_armed now d, Some In_EndOfAudio, [])"
| "take_arm now (Arm_Input None) d = (d\<lparr>inputs_open := False\<rparr>, None, [])"
| "take_arm now Arm_Deadline d = (d, Some In_Stalled, [])"

section \<open>Executing the actions\<close>

text \<open>\<open>None\<close> is the failed assertion of \<open>queue\<close>: an item would overwrite another.\<close>

definition queue :: "outbound option \<Rightarrow> outbound \<Rightarrow> outbound option option" where
  "queue slot item = (if slot = None then Some (Some item) else None)"

fun apply_actions :: "bool \<Rightarrow> action list \<Rightarrow> outbound option \<Rightarrow> (outbound option \<times> effect list) option" where
  "apply_actions has_sink [] slot = Some (slot, [])"
| "apply_actions has_sink (a # as) slot =
     (case a of
        ForwardAudio chunk \<Rightarrow>
          Option.bind (queue slot (Ob_Audio chunk)) (apply_actions has_sink as)
      | SendFinish \<Rightarrow> Option.bind (queue slot Ob_Finish) (apply_actions has_sink as)
      | SendAbort \<Rightarrow>
          map_option (\<lambda>(s, es). (s, (if has_sink then [AbortSent] else []) @ es))
            (apply_actions has_sink as slot)
      | Emit event \<Rightarrow>
          map_option (\<lambda>(s, es). (s, Output event # es)) (apply_actions has_sink as slot))"

definition feed :: "translate \<Rightarrow> bool \<Rightarrow> fsm_input option \<Rightarrow> driver \<Rightarrow> (driver \<times> effect list) option" where
  "feed tr has_sink input d =
     (case input of
        None \<Rightarrow> Some (d, [])
      | Some i \<Rightarrow>
          (let (f, acts) = on_input tr (drv_fsm d) i in
           map_option (\<lambda>(slot, es). (d\<lparr>drv_fsm := f, outbound_slot := slot\<rparr>, es))
             (apply_actions has_sink acts (outbound_slot d))))"

section \<open>The session\<close>

text \<open>The configuration the backend session is opened with.\<close>

definition opening_config :: "session_config \<Rightarrow> session_config" where
  "opening_config cfg = cfg\<lparr>cfg_keywords := normalize_keywords (cfg_keywords cfg)\<rparr>"

definition driver_new :: stage where
  "driver_new = Handshaking \<lparr>drv_fsm = fsm_new, drv_deadline = None, control_open = True,
     inputs_open = True, outbound_slot = None\<rparr>"

text \<open>The loop condition of the session loop, and what follows the loop.\<close>

definition loop_head :: "translate \<Rightarrow> driver \<Rightarrow> stage" where
  "loop_head tr d =
     (if is_terminal (session (drv_fsm d))
      then (case outcome tr (drv_fsm d) of Some out \<Rightarrow> Returned (Inr out) d | None \<Rightarrow> Panicked)
      else Pumping d)"

definition poll_handshake :: "translate \<Rightarrow> offers \<Rightarrow> driver \<Rightarrow> stage \<times> effect list" where
  "poll_handshake tr off d =
     (case select_handshake off d of
        None \<Rightarrow> (Handshaking d, [])
      | Some (Arm_Opened (Inl e)) \<Rightarrow> (Returned (Inl e) d, [])
      | Some (Arm_Opened (Inr _)) \<Rightarrow> (loop_head tr d, [])
      | Some a \<Rightarrow>
          (let (d1, input, es) = take_arm (off_now off) a d in
           case feed tr False input d1 of
             None \<Rightarrow> (Panicked, es)
           | Some (d2, es2) \<Rightarrow>
               (case (input, outcome tr (drv_fsm d2)) of
                  (Some _, Some out) \<Rightarrow> (Returned (Inr out) d2, es @ es2)
                | _ \<Rightarrow> (Handshaking d2, es @ es2))))"

definition poll_session :: "translate \<Rightarrow> offers \<Rightarrow> driver \<Rightarrow> stage \<times> effect list" where
  "poll_session tr off d =
     (case select_session off d of
        None \<Rightarrow> (Pumping d, [])
      | Some a \<Rightarrow>
          (let (d1, input, es) = take_arm (off_now off) a d in
           case feed tr True input d1 of
             None \<Rightarrow> (Panicked, es)
           | Some (d2, es2) \<Rightarrow> (loop_head tr d2, es @ es2)))"

fun run_session_step :: "translate \<Rightarrow> stage \<Rightarrow> offers \<Rightarrow> stage \<times> effect list" where
  "run_session_step tr (Handshaking d) off = poll_handshake tr off d"
| "run_session_step tr (Pumping d) off = poll_session tr off d"
| "run_session_step tr (Returned r d) off = (Returned r d, [])"
| "run_session_step tr Panicked off = (Panicked, [])"

abbreviation run_session :: "translate \<Rightarrow> offers list \<Rightarrow> stage \<times> effect list" where
  "run_session tr offs \<equiv> run_machine (run_session_step tr) driver_new offs"

section \<open>Observations\<close>

fun stage_driver :: "stage \<Rightarrow> driver option" where
  "stage_driver (Handshaking d) = Some d"
| "stage_driver (Pumping d) = Some d"
| "stage_driver (Returned _ d) = Some d"
| "stage_driver Panicked = None"

text \<open>The input one poll feeds the machine.\<close>

fun fed_step :: "stage \<Rightarrow> offers \<Rightarrow> fsm_input option" where
  "fed_step (Handshaking d) off =
     (case select_handshake off d of None \<Rightarrow> None | Some a \<Rightarrow> fst (snd (take_arm (off_now off) a d)))"
| "fed_step (Pumping d) off =
     (case select_session off d of None \<Rightarrow> None | Some a \<Rightarrow> fst (snd (take_arm (off_now off) a d)))"
| "fed_step _ off = None"

fun fed_inputs :: "translate \<Rightarrow> stage \<Rightarrow> offers list \<Rightarrow> fsm_input list" where
  "fed_inputs tr st [] = []"
| "fed_inputs tr st (off # offs) =
     (case fed_step st off of None \<Rightarrow> [] | Some i \<Rightarrow> [i]) @
     fed_inputs tr (fst (run_session_step tr st off)) offs"

fun sent_of :: "effect \<Rightarrow> outbound option" where
  "sent_of (Sent x) = Some x"
| "sent_of _ = None"

fun output_of :: "effect \<Rightarrow> orchestrator_event option" where
  "output_of (Output e) = Some e"
| "output_of _ = None"

fun emit_of :: "action \<Rightarrow> orchestrator_event option" where
  "emit_of (Emit e) = Some e"
| "emit_of _ = None"

fun item_of :: "fsm_input \<Rightarrow> outbound option" where
  "item_of (In_Audio c) = Some (Ob_Audio c)"
| "item_of In_EndOfAudio = Some Ob_Finish"
| "item_of _ = None"

section \<open>One poll\<close>

fun queue_item :: "action \<Rightarrow> outbound option" where
  "queue_item (ForwardAudio c) = Some (Ob_Audio c)"
| "queue_item SendFinish = Some Ob_Finish"
| "queue_item _ = None"

fun act_effect :: "bool \<Rightarrow> action \<Rightarrow> effect option" where
  "act_effect has_sink SendAbort = (if has_sink then Some AbortSent else None)"
| "act_effect has_sink (Emit e) = Some (Output e)"
| "act_effect has_sink _ = None"

definition opt_list :: "'a option \<Rightarrow> 'a list" where
  "opt_list x = (case x of None \<Rightarrow> [] | Some y \<Rightarrow> [y])"

lemma opt_list_simps [simp]: "opt_list None = []" "opt_list (Some y) = [y]"
  by (simp_all add: opt_list_def)

lemma opt_list_Nil_iff [simp]: "opt_list x = [] \<longleftrightarrow> x = None"
  by (cases x) simp_all

text \<open>Executing actions that queue nothing, or one item into an empty slot, does not fail.\<close>

lemma apply_actions_none:
  "filter_map queue_item acts = [] \<Longrightarrow>
   apply_actions hs acts slot = Some (slot, filter_map (act_effect hs) acts)"
proof (induction acts)
  case Nil
  show ?case by simp
next
  case (Cons a acts)
  then show ?case by (cases a) simp_all
qed

lemma apply_actions_one:
  "filter_map queue_item acts = [x] \<Longrightarrow>
   apply_actions hs acts None = Some (Some x, filter_map (act_effect hs) acts)"
proof (induction acts)
  case Nil
  then show ?case by simp
next
  case (Cons a acts)
  then show ?case by (cases a) (simp_all add: queue_def apply_actions_none)
qed

lemma live_queues_nothing: "list_all liveness xs \<Longrightarrow> filter_map queue_item xs = []"
proof (induction xs)
  case (Cons a xs)
  then show ?case by (cases a rule: liveness.cases) auto
qed simp

lemma on_input_items:
  assumes "item_of i \<noteq> None \<Longrightarrow> accepts_audio f"
  shows "filter_map queue_item (snd (on_input tr f i)) = opt_list (item_of i)"
proof (cases "item_of i")
  case None
  show ?thesis
  proof (cases rule: on_input_cases [of i f tr])
    case (progress r pre post)
    with None live_queues_nothing [OF progress(5)] show ?thesis by auto
  qed (use None in \<open>auto split: disposition.splits\<close>)
next
  case (Some x)
  with assms show ?thesis
    by (cases i) (auto simp: on_audio_def on_end_of_audio_def accepts_audio_def)
qed

lemma feed_None [simp]: "feed tr hs None d = Some (d, [])"
  by (simp add: feed_def)

lemma feed_Some:
  assumes "item_of i \<noteq> None \<Longrightarrow> accepts_audio (drv_fsm d) \<and> outbound_slot d = None"
  shows "feed tr hs (Some i) d =
    Some (d\<lparr>drv_fsm := fst (on_input tr (drv_fsm d) i),
            outbound_slot := (case item_of i of Some x \<Rightarrow> Some x | None \<Rightarrow> outbound_slot d)\<rparr>,
          filter_map (act_effect hs) (snd (on_input tr (drv_fsm d) i)))"
proof (cases "item_of i")
  case None
  with on_input_items [of i "drv_fsm d" tr] show ?thesis
    by (simp add: feed_def split_beta apply_actions_none)
next
  case (Some x)
  with on_input_items [of i "drv_fsm d" tr] assms show ?thesis
    by (simp add: feed_def split_beta apply_actions_one)
qed

text \<open>
  What the arms selected in either loop leave and feed: the machine is untouched, items leave
  only through a permit, and audio is read only when the machine accepts it and the slot is free.
\<close>

fun ends_capture :: "offers \<Rightarrow> bool" where
  "ends_capture off \<longleftrightarrow>
     (case off_control off of
        Some (Some OC_CaptureEnded) \<Rightarrow> True | Some (Some (OC_CaptureLost _)) \<Rightarrow> True | _ \<Rightarrow> False) \<or>
     off_input off = Some (Some OI_EndOfAudio)"

definition deadline_ok :: "offers \<Rightarrow> deadline \<Rightarrow> deadline \<Rightarrow> bool" where
  "deadline_ok off before later \<longleftrightarrow>
     later = before \<or>
     later = Some (off_now off + BACKEND_PROGRESS_TIMEOUT) \<and> (ends_capture off \<or> before \<noteq> None)"

definition arm_ok :: "offers \<Rightarrow> driver \<Rightarrow> driver \<Rightarrow> fsm_input option \<Rightarrow> effect list \<Rightarrow> bool" where
  "arm_ok off d d1 input es \<longleftrightarrow>
     drv_fsm d1 = drv_fsm d \<and> filter_map output_of es = [] \<and> AbortSent \<notin> set es \<and>
     (filter_map sent_of es @ opt_list (outbound_slot d1) = opt_list (outbound_slot d) \<or>
        off_permit off = Some False \<and> input = None) \<and>
     deadline_ok off (drv_deadline d) (drv_deadline d1) \<and>
     (input = Some In_Stalled \<longrightarrow> expired (off_now off) (drv_deadline d)) \<and>
     (\<forall>i. input = Some i \<longrightarrow> es = [] \<and>
        (item_of i \<noteq> None \<longrightarrow> accepts_audio (drv_fsm d) \<and> outbound_slot d = None))"

lemma deadline_ok_simps [simp]:
  "deadline_ok off x x"
  "deadline_ok off x (made_progress (off_now off) x)"
  "ends_capture off \<Longrightarrow> deadline_ok off x (arm (off_now off))"
  by (auto simp: deadline_ok_def made_progress_def arm_def)

lemma arm_ok_idle: "arm_ok off d d None []"
  by (simp add: arm_ok_def)

lemma control_input_slot:
  "outbound_slot (fst (control_input now c d)) = outbound_slot d"
  "drv_fsm (fst (control_input now c d)) = drv_fsm d"
  "snd (control_input now c d) = Some i \<Longrightarrow> item_of i = None \<and> i \<noteq> In_Stalled"
  by (cases "(now, c, d)" rule: control_input.cases; auto simp: set_armed_def)+

lemma control_input_deadline:
  "off_control off = Some c \<Longrightarrow>
   deadline_ok off (drv_deadline d) (drv_deadline (fst (control_input (off_now off) c d)))"
  by (cases "(off_now off, c, d)" rule: control_input.cases)
    (auto simp: set_armed_def deadline_ok_def arm_def)

lemma take_arm_handshake:
  assumes "select_handshake off d = Some a" and "take_arm (off_now off) a d = (d1, input, es)"
  shows "arm_ok off d d1 input es"
  using assms control_input_slot [of "off_now off" _ d] control_input_deadline [of off _ d]
  by (cases "(off_now off, a, d)" rule: take_arm.cases)
    (auto simp: arm_ok_def select_handshake_def split_beta split: if_splits)

lemma take_arm_session:
  assumes "select_session off d = Some a" and "take_arm (off_now off) a d = (d1, input, es)"
  shows "arm_ok off d d1 input es"
  using assms control_input_slot [of "off_now off" _ d] control_input_deadline [of off _ d]
  by (cases "(off_now off, a, d)" rule: take_arm.cases)
    (auto simp: arm_ok_def select_session_def set_progress_def set_armed_def split_beta
      split: if_splits option.splits sum.splits)

definition after_feed :: "translate \<Rightarrow> fsm_input option \<Rightarrow> driver \<Rightarrow> driver" where
  "after_feed tr input d =
     (case input of
        None \<Rightarrow> d
      | Some i \<Rightarrow> d\<lparr>drv_fsm := fst (on_input tr (drv_fsm d) i),
          outbound_slot := (case item_of i of Some x \<Rightarrow> Some x | None \<Rightarrow> outbound_slot d)\<rparr>)"

definition fed_effects :: "translate \<Rightarrow> bool \<Rightarrow> fsm_input option \<Rightarrow> driver \<Rightarrow> effect list" where
  "fed_effects tr hs input d =
     (case input of None \<Rightarrow> [] | Some i \<Rightarrow> filter_map (act_effect hs) (snd (on_input tr (drv_fsm d) i)))"

lemma feed_ok:
  assumes "arm_ok off d d1 input es"
  shows "feed tr hs input d1 = Some (after_feed tr input d1, fed_effects tr hs input d1)"
proof (cases input)
  case None
  then show ?thesis by (simp add: after_feed_def fed_effects_def)
next
  case (Some i)
  have "item_of i \<noteq> None \<Longrightarrow> accepts_audio (drv_fsm d1) \<and> outbound_slot d1 = None"
    using assms Some by (auto simp: arm_ok_def)
  from feed_Some [OF this] show ?thesis by (simp add: Some after_feed_def fed_effects_def)
qed

fun stage_inv :: "translate \<Rightarrow> stage \<Rightarrow> bool" where
  "stage_inv tr (Handshaking d) \<longleftrightarrow> fsm_inv (drv_fsm d) \<and> \<not> is_terminal (session (drv_fsm d))"
| "stage_inv tr (Pumping d) \<longleftrightarrow> fsm_inv (drv_fsm d) \<and> \<not> is_terminal (session (drv_fsm d))"
| "stage_inv tr (Returned r d) \<longleftrightarrow> (\<forall>out. r = Inr out \<longrightarrow> outcome tr (drv_fsm d) = Some out)"
| "stage_inv tr Panicked \<longleftrightarrow> False"

lemma outcome_terminal: "outcome tr f = None \<longleftrightarrow> \<not> is_terminal (session f)"
  by (cases "session f") (auto simp: outcome_def split: option.splits)

lemma loop_head_ok:
  "fsm_inv (drv_fsm d) \<Longrightarrow> stage_inv tr (loop_head tr d) \<and> stage_driver (loop_head tr d) = Some d"
  using outcome_terminal [of tr "drv_fsm d"]
  by (cases "outcome tr (drv_fsm d)") (simp_all add: loop_head_def)

lemma after_feed_inv: "fsm_inv (drv_fsm d) \<Longrightarrow> fsm_inv (drv_fsm (after_feed tr input d))"
  by (cases input) (simp_all add: after_feed_def fsm_m.step_inv)

text \<open>A poll of a live driver: the arm it takes, and what feeding the machine makes of it.\<close>

lemma poll_handshake_summary:
  assumes "stage_inv tr (Handshaking d)"
  obtains d1 input es where "arm_ok off d d1 input es" "fed_step (Handshaking d) off = input"
    "stage_driver (fst (poll_handshake tr off d)) = Some (after_feed tr input d1)"
    "snd (poll_handshake tr off d) = es @ fed_effects tr False input d1"
    "stage_inv tr (fst (poll_handshake tr off d))"
proof (cases "select_handshake off d")
  case None
  with assms that [OF arm_ok_idle] show thesis
    by (simp add: poll_handshake_def after_feed_def fed_effects_def)
next
  case (Some a)
  obtain d1 input es where arm: "take_arm (off_now off) a d = (d1, input, es)"
    by (cases "take_arm (off_now off) a d") auto
  have ok: "arm_ok off d d1 input es" by (rule take_arm_handshake [OF Some arm])
  show thesis
  proof (cases "\<exists>r. a = Arm_Opened r")
    case True
    then obtain r where r: "a = Arm_Opened r" by blast
    with arm have eq: "d1 = d" "input = None" "es = []" by simp_all
    show thesis
      using assms Some r loop_head_ok [of d tr] eq
      by (intro that [OF ok]) (cases r; simp add: poll_handshake_def after_feed_def fed_effects_def)+
  next
    case False
    let ?d = "after_feed tr input d1"
    have "poll_handshake tr off d =
      ((case (input, outcome tr (drv_fsm ?d)) of
          (Some _, Some out) \<Rightarrow> Returned (Inr out) ?d | _ \<Rightarrow> Handshaking ?d),
       es @ fed_effects tr False input d1)"
      using False Some arm feed_ok [OF ok]
      by (cases a; simp add: poll_handshake_def split: option.split)
    moreover have "fsm_inv (drv_fsm d1)" "drv_fsm d1 = drv_fsm d" using assms ok by (simp_all add: arm_ok_def)
    ultimately show thesis
      using assms Some arm after_feed_inv [of d1 tr input] outcome_terminal [of tr "drv_fsm ?d"]
      by (intro that [OF ok]) (auto simp: after_feed_def split: option.splits)
  qed
qed

lemma poll_session_summary:
  assumes "stage_inv tr (Pumping d)"
  obtains d1 input es where "arm_ok off d d1 input es" "fed_step (Pumping d) off = input"
    "stage_driver (fst (poll_session tr off d)) = Some (after_feed tr input d1)"
    "snd (poll_session tr off d) = es @ fed_effects tr True input d1"
    "stage_inv tr (fst (poll_session tr off d))"
proof (cases "select_session off d")
  case None
  with assms that [OF arm_ok_idle] show thesis
    by (simp add: poll_session_def after_feed_def fed_effects_def)
next
  case (Some a)
  obtain d1 input es where arm: "take_arm (off_now off) a d = (d1, input, es)"
    by (cases "take_arm (off_now off) a d") auto
  have ok: "arm_ok off d d1 input es" by (rule take_arm_session [OF Some arm])
  have "drv_fsm d1 = drv_fsm d" using ok by (simp add: arm_ok_def)
  with assms have "fsm_inv (drv_fsm (after_feed tr input d1))"
    by (intro after_feed_inv) simp
  from loop_head_ok [OF this, of tr] show thesis
    using Some arm feed_ok [OF ok] by (intro that [OF ok]) (simp_all add: poll_session_def)
qed

lemma step_summary:
  assumes "stage_inv tr st" and "stage_driver st = Some d"
  obtains hs d1 input es where "arm_ok off d d1 input es" "fed_step st off = input"
    "stage_driver (fst (run_session_step tr st off)) = Some (after_feed tr input d1)"
    "snd (run_session_step tr st off) = es @ fed_effects tr hs input d1"
    "stage_inv tr (fst (run_session_step tr st off))"
proof (cases st)
  case (Handshaking x)
  with assms have "st = Handshaking d" "stage_inv tr (Handshaking d)" by simp_all
  then show thesis
    by (elim poll_handshake_summary [of tr d off]) (rule that [of _ _ _ False], simp_all)
next
  case (Pumping x)
  with assms have "st = Pumping d" "stage_inv tr (Pumping d)" by simp_all
  then show thesis
    by (elim poll_session_summary [of tr d off]) (rule that [of _ _ _ True], simp_all)
next
  case (Returned r x)
  with assms that [OF arm_ok_idle] show thesis by (auto simp: after_feed_def fed_effects_def)
qed (use assms in simp)

lemma stage_inv_driver: "stage_inv tr st \<Longrightarrow> \<exists>d. stage_driver st = Some d"
  by (cases st) auto

fun returned :: "stage \<Rightarrow> bool" where
  "returned (Returned _ _) = True"
| "returned _ = False"

interpretation drv: halting_machine "run_session_step tr" "stage_inv tr" returned for tr
proof
  show "stage_inv tr st \<Longrightarrow> stage_inv tr (fst (run_session_step tr st off))" for st off
    using stage_inv_driver step_summary by metis
  show "stage_inv tr st \<Longrightarrow> returned st \<Longrightarrow> fst (run_session_step tr st off) = st" for st off
    by (cases st) auto
qed

lemma driver_new_inv: "stage_inv tr driver_new"
  by (simp add: driver_new_def fsm_inv_def fsm_new_def)

lemma output_act_effect: "filter_map output_of (filter_map (act_effect hs) acts) = filter_map emit_of acts"
proof (induction acts)
  case (Cons a acts)
  then show ?case by (cases a; cases hs) simp_all
qed simp

lemma sent_act_effect: "filter_map sent_of (filter_map (act_effect hs) acts) = []"
proof (induction acts)
  case (Cons a acts)
  then show ?case by (cases a; cases hs) simp_all
qed simp

text \<open>The slot and the transport together hold what was read, in order.\<close>

lemma step_slot:
  assumes "arm_ok off d d1 input es" and "off_permit off \<noteq> Some False"
  shows "filter_map sent_of (es @ fed_effects tr hs input d1) @ opt_list (outbound_slot (after_feed tr input d1)) =
    opt_list (outbound_slot d) @ filter_map item_of (opt_list input)"
proof (cases input)
  case None
  with assms show ?thesis by (simp add: arm_ok_def after_feed_def fed_effects_def)
next
  case (Some i)
  with assms show ?thesis
    by (cases "item_of i") (auto simp: arm_ok_def after_feed_def fed_effects_def sent_act_effect)
qed

lemma step_machine:
  assumes "arm_ok off d d1 input es"
  shows "drv_fsm (after_feed tr input d1) = fst (run_machine (on_input tr) (drv_fsm d) (opt_list input))"
    and "filter_map output_of (es @ fed_effects tr hs input d1) =
      filter_map emit_of (snd (run_machine (on_input tr) (drv_fsm d) (opt_list input)))"
  using assms
  by (cases input; simp add: arm_ok_def after_feed_def fed_effects_def output_act_effect)+

lemma run_refines:
  assumes "stage_inv tr st" and "stage_driver st = Some d"
  shows "\<exists>d'. stage_driver (fst (run_machine (run_session_step tr) st offs)) = Some d' \<and>
    drv_fsm d' = fst (run_machine (on_input tr) (drv_fsm d) (fed_inputs tr st offs)) \<and>
    filter_map output_of (snd (run_machine (run_session_step tr) st offs)) =
      filter_map emit_of (snd (run_machine (on_input tr) (drv_fsm d) (fed_inputs tr st offs))) \<and>
    ((\<forall>off \<in> set offs. off_permit off \<noteq> Some False) \<longrightarrow>
      filter_map sent_of (snd (run_machine (run_session_step tr) st offs)) @ opt_list (outbound_slot d') =
      opt_list (outbound_slot d) @ filter_map item_of (fed_inputs tr st offs))"
  using assms
proof (induction offs arbitrary: st d)
  case Nil
  then show ?case by simp
next
  case (Cons off offs)
  obtain hs d1 input es where s: "arm_ok off d d1 input es" "fed_step st off = input"
    "stage_driver (fst (run_session_step tr st off)) = Some (after_feed tr input d1)"
    "snd (run_session_step tr st off) = es @ fed_effects tr hs input d1"
    "stage_inv tr (fst (run_session_step tr st off))"
    by (rule step_summary [OF Cons.prems])
  have fed: "fed_inputs tr st (off # offs) =
      opt_list input @ fed_inputs tr (fst (run_session_step tr st off)) offs"
    by (simp add: s(2) opt_list_def)
  note m = step_machine(1) [OF s(1), of tr] step_machine(2) [OF s(1), of tr hs]
  let ?st = "fst (run_session_step tr st off)"
  from Cons.IH [OF s(5) s(3), unfolded m(1)] obtain d' where
    d': "stage_driver (fst (run_machine (run_session_step tr) ?st offs)) = Some d'"
      "drv_fsm d' = fst (run_machine (on_input tr) (drv_fsm d) (fed_inputs tr st (off # offs)))"
      "filter_map output_of (snd (run_machine (run_session_step tr) ?st offs)) =
        filter_map emit_of (snd (run_machine (on_input tr)
          (fst (run_machine (on_input tr) (drv_fsm d) (opt_list input))) (fed_inputs tr ?st offs)))"
    and slots: "\<forall>off \<in> set offs. off_permit off \<noteq> Some False \<Longrightarrow>
      filter_map sent_of (snd (run_machine (run_session_step tr) ?st offs)) @ opt_list (outbound_slot d') =
      opt_list (outbound_slot (after_feed tr input d1)) @ filter_map item_of (fed_inputs tr ?st offs)"
    unfolding fed fst_run_machine_append by blast
  have "filter_map sent_of (snd (run_machine (run_session_step tr) st (off # offs))) @ opt_list (outbound_slot d') =
      opt_list (outbound_slot d) @ filter_map item_of (fed_inputs tr st (off # offs))"
    if "\<forall>off \<in> set (off # offs). off_permit off \<noteq> Some False"
  proof -
    have "filter_map sent_of (snd (run_machine (run_session_step tr) st (off # offs))) @ opt_list (outbound_slot d') =
        (filter_map sent_of (es @ fed_effects tr hs input d1) @
          opt_list (outbound_slot (after_feed tr input d1))) @ filter_map item_of (fed_inputs tr ?st offs)"
      using slots that by (simp add: s(4))
    also have "\<dots> = opt_list (outbound_slot d) @ filter_map item_of (fed_inputs tr st (off # offs))"
      unfolding fed using step_slot [OF s(1), of tr hs] that by simp
    finally show ?thesis .
  qed
  moreover have "filter_map output_of (snd (run_machine (run_session_step tr) st (off # offs))) =
      filter_map emit_of (snd (run_machine (on_input tr) (drv_fsm d) (fed_inputs tr st (off # offs))))"
    unfolding fed using d'(3) m(2) by (simp add: s(4) snd_run_machine_append)
  ultimately show ?case using d'(1,2) by auto
qed

section \<open>Properties of the driver\<close>

text \<open>
  The driver never panics, whatever its channels, the backend and the clock do: an item queued
  for the transport never overwrites another (so no PCM chunk and no end of audio is dropped by
  the slot), and a session loop that ends always has an outcome to return.
\<close>

theorem driver_never_panics: "fst (run_session tr offs) \<noteq> Panicked"
  using drv.run_inv [OF driver_new_inv, of tr offs] by (cases "fst (run_session tr offs)") auto

text \<open>
  C2: The driver refines the session machine: its machine state is the machine's own state after
  the inputs the select loop fed it, the events it outputs are exactly those the machine emitted,
  in order, and an outcome it returns is the machine's outcome.
\<close>

theorem driver_refines_fsm:
  "(\<exists>d. stage_driver (fst (run_session tr offs)) = Some d \<and>
      drv_fsm d = fst (fsm_run tr (fed_inputs tr driver_new offs))) \<and>
   filter_map output_of (snd (run_session tr offs)) =
     filter_map emit_of (snd (fsm_run tr (fed_inputs tr driver_new offs))) \<and>
   (case fst (run_session tr offs) of
      Returned (Inr out) _ \<Rightarrow> outcome tr (fst (fsm_run tr (fed_inputs tr driver_new offs))) = Some out
    | _ \<Rightarrow> True)"
proof -
  have "stage_driver driver_new = Some \<lparr>drv_fsm = fsm_new, drv_deadline = None, control_open = True,
      inputs_open = True, outbound_slot = None\<rparr>"
    by (simp add: driver_new_def)
  from run_refines [OF driver_new_inv this, of tr offs] obtain d where
    d: "stage_driver (fst (run_session tr offs)) = Some d"
       "drv_fsm d = fst (fsm_run tr (fed_inputs tr driver_new offs))"
       "filter_map output_of (snd (run_session tr offs)) =
         filter_map emit_of (snd (fsm_run tr (fed_inputs tr driver_new offs)))"
    by auto
  moreover have "stage_inv tr (fst (run_session tr offs))" by (rule drv.run_inv [OF driver_new_inv])
  ultimately show ?thesis by (auto split: stage.split sum.split)
qed

lemma on_input_not_active: "session f \<noteq> Active \<Longrightarrow> session (fst (on_input tr f i)) \<noteq> Active"
  by (cases rule: on_input_cases [of i f tr]) auto

lemma finished_reads_nothing:
  assumes "stage_inv tr st" and "stage_driver st = Some d" and "session (drv_fsm d) \<noteq> Active"
  shows "filter_map item_of (fed_inputs tr st offs) = []"
  using assms
proof (induction offs arbitrary: st d)
  case Nil
  then show ?case by simp
next
  case (Cons off offs)
  obtain hs d1 input es where s: "arm_ok off d d1 input es" "fed_step st off = input"
    "stage_driver (fst (run_session_step tr st off)) = Some (after_feed tr input d1)"
    "stage_inv tr (fst (run_session_step tr st off))"
    by (rule step_summary [OF Cons.prems(1,2)])
  have "session (drv_fsm (after_feed tr input d1)) \<noteq> Active"
    using s(1) Cons.prems(3) on_input_not_active by (auto simp: arm_ok_def after_feed_def split: option.splits)
  from Cons.IH [OF s(4,3) this] s(1,2) Cons.prems(3) show ?case
    by (cases input) (auto simp: arm_ok_def accepts_audio_def split: option.splits)
qed

lemma items_audio_then_finish:
  assumes "stage_inv tr st" and "stage_driver st = Some d"
  shows "\<exists>cs. filter_map item_of (fed_inputs tr st offs) = map Ob_Audio cs \<or>
    filter_map item_of (fed_inputs tr st offs) = map Ob_Audio cs @ [Ob_Finish]"
  using assms
proof (induction offs arbitrary: st d)
  case Nil
  then show ?case by simp
next
  case (Cons off offs)
  obtain hs d1 input es where s: "arm_ok off d d1 input es" "fed_step st off = input"
    "stage_driver (fst (run_session_step tr st off)) = Some (after_feed tr input d1)"
    "stage_inv tr (fst (run_session_step tr st off))"
    by (rule step_summary [OF Cons.prems])
  let ?rest = "filter_map item_of (fed_inputs tr (fst (run_session_step tr st off)) offs)"
  obtain cs where cs: "?rest = map Ob_Audio cs \<or> ?rest = map Ob_Audio cs @ [Ob_Finish]"
    using Cons.IH [OF s(4,3)] by blast
  show ?case
  proof (cases "input = Some In_EndOfAudio")
    case True
    with s(1) have "session (drv_fsm (after_feed tr input d1)) \<noteq> Active"
      by (auto simp: arm_ok_def after_feed_def on_end_of_audio_def)
    from finished_reads_nothing [OF s(4,3) this] True s(2) show ?thesis
      by (intro exI [of _ "[]"]) simp
  next
    case False
    show ?thesis
    proof (cases "\<exists>c. input = Some (In_Audio c)")
      case True
      then obtain c where "input = Some (In_Audio c)" by blast
      with cs s(2) show ?thesis by (intro exI [of _ "c # cs"]) auto
    next
      case other: False
      have "i = In_EndOfAudio \<or> (\<exists>c. i = In_Audio c) \<or> item_of i = None" for i by (cases i) auto
      with other False have "filter_map item_of (opt_list input) = []"
        by (cases input) (auto split: option.splits)
      with cs s(2) show ?thesis by (intro exI [of _ cs]) (cases input; auto split: option.splits)
    qed
  qed
qed

lemma step_drops_nothing:
  assumes "stage_inv tr st" and "x \<in> set (snd (run_session_step tr st off))"
  shows "x \<noteq> Output OE_AudioDropped"
proof -
  obtain d where d: "stage_driver st = Some d" using stage_inv_driver [OF assms(1)] by blast
  obtain hs d1 input es where s: "arm_ok off d d1 input es"
    "snd (run_session_step tr st off) = es @ fed_effects tr hs input d1"
    by (rule step_summary [OF assms(1) d])
  have "Output OE_AudioDropped \<notin> set es"
    using s(1) set_filter_map [of OE_AudioDropped output_of es] by (auto simp: arm_ok_def)
  moreover have "Output OE_AudioDropped \<notin> set (fed_effects tr hs input d1)"
  proof (cases input)
    case (Some i)
    have "Emit OE_AudioDropped \<notin> set (snd (on_input tr (drv_fsm d) i))"
    proof (cases rule: on_input_cases [of i "drv_fsm d" tr])
      case (drop c)
      with Some s(1) show ?thesis by (auto simp: arm_ok_def)
    next
      case (progress r pre post)
      then show ?thesis by (auto dest: liveness_kinds simp: list_all_iff)
    qed (auto split: disposition.splits)
    moreover have "act_effect hs a = Some (Output e) \<Longrightarrow> a = Emit e" for a e
      by (cases a) (auto split: if_splits)
    ultimately show ?thesis
      using Some s(1) by (auto simp: fed_effects_def set_filter_map arm_ok_def)
  qed (simp add: fed_effects_def)
  ultimately show ?thesis using assms(2) s(2) by auto
qed

text \<open>
  C25: The transport receives exactly the audio read from the client, in order and without gaps,
  then at most one end of audio and nothing after it; only the last item may still wait in the
  slot. Nothing is reported dropped, because the driver reads audio only while it can be forwarded.
\<close>

theorem driver_audio_in_order:
  assumes "\<forall>off \<in> set offs. off_permit off \<noteq> Some False"
  shows "\<exists>d cs. stage_driver (fst (run_session tr offs)) = Some d \<and>
    filter_map audio_of (fed_inputs tr driver_new offs) = cs \<and>
    filter_map sent_of (snd (run_session tr offs)) @ opt_list (outbound_slot d) =
      map Ob_Audio cs @ (if In_EndOfAudio \<in> set (fed_inputs tr driver_new offs) then [Ob_Finish] else []) \<and>
    Output OE_AudioDropped \<notin> set (snd (run_session tr offs))"
proof -
  let ?is = "fed_inputs tr driver_new offs"
  obtain d0 where d0: "stage_driver driver_new = Some d0" "outbound_slot d0 = None"
    by (simp add: driver_new_def)
  from run_refines [OF driver_new_inv d0(1), of tr offs] assms obtain d where
    d: "stage_driver (fst (run_session tr offs)) = Some d"
       "filter_map sent_of (snd (run_session tr offs)) @ opt_list (outbound_slot d) = filter_map item_of ?is"
    by (auto simp: d0(2))
  have audio: "filter_map audio_of js = filter_map (\<lambda>x. case x of Ob_Audio c \<Rightarrow> Some c | _ \<Rightarrow> None)
      (filter_map item_of js)" for js
    by (induction js) (auto split: option.splits outbound.splits elim!: audio_of.elims item_of.elims)
  have fin: "In_EndOfAudio \<in> set js \<longleftrightarrow> Ob_Finish \<in> set (filter_map item_of js)" for js
    by (induction js) (auto split: option.splits elim!: item_of.elims)
  have only: "filter_map (\<lambda>x. case x of Ob_Audio c \<Rightarrow> Some c | _ \<Rightarrow> None) (map Ob_Audio cs) = cs" for cs
    by (induction cs) simp_all
  have none: "Output OE_AudioDropped \<notin> set (snd (run_session tr offs))"
    using drv.run_output [OF driver_new_inv, of tr "\<lambda>x. x \<noteq> Output OE_AudioDropped"] step_drops_nothing
    by blast
  obtain cs where "filter_map item_of ?is = map Ob_Audio cs \<or> filter_map item_of ?is = map Ob_Audio cs @ [Ob_Finish]"
    using items_audio_then_finish [OF driver_new_inv d0(1)] by blast
  then have "filter_map item_of ?is =
      map Ob_Audio (filter_map audio_of ?is) @ (if In_EndOfAudio \<in> set ?is then [Ob_Finish] else [])"
    unfolding audio fin by (auto simp: only)
  with d none show ?thesis by auto
qed

definition no_offers :: offers where
  "no_offers = \<lparr>off_now = 0, off_control = None, off_opened = None, off_event = None,
     off_activity = False, off_permit = None, off_input = None\<rparr>"

lemmas driver_eval =
  driver_new_def no_offers_def poll_handshake_def poll_session_def select_handshake_def
  select_session_def loop_head_def expired_def arm_def set_armed_def set_progress_def made_progress_def
  feed_def queue_def fsm_handlers fsm_new_def accepts_audio_def gate_open_def progress_phase_def
  phase_defs outcome_def

theorem driver_audio_in_order_witness:
  "\<exists>d cs. stage_driver (fst (run_session id
       [no_offers\<lparr>off_opened := Some (Inr ())\<rparr>,
        no_offers\<lparr>off_event := Some (Some (Inr (TE_Progress (progress_phase PHASE_READY))))\<rparr>,
        no_offers\<lparr>off_input := Some (Some (OI_Audio \<lparr>chunk_data = [1, 2], chunk_format = default_format\<rparr>))\<rparr>,
        no_offers\<lparr>off_permit := Some True\<rparr>])) = Some d \<and> outbound_slot d = None \<and>
     cs = [\<lparr>chunk_data = [1, 2], chunk_format = default_format\<rparr>] \<and>
     [Ob_Audio \<lparr>chunk_data = [1, 2], chunk_format = default_format\<rparr>] = map Ob_Audio cs"
  using driver_audio_in_order [of
      "[no_offers\<lparr>off_opened := Some (Inr ())\<rparr>,
        no_offers\<lparr>off_event := Some (Some (Inr (TE_Progress (progress_phase PHASE_READY))))\<rparr>,
        no_offers\<lparr>off_input := Some (Some (OI_Audio \<lparr>chunk_data = [1, 2], chunk_format = default_format\<rparr>))\<rparr>,
        no_offers\<lparr>off_permit := Some True\<rparr>]" id]
  by (simp add: driver_eval)

lemma run_deadline:
  "(\<forall>d due. stage_driver (fst (run_session tr offs)) = Some d \<longrightarrow> drv_deadline d = Some due \<longrightarrow>
     (\<exists>off \<in> set offs. ends_capture off) \<and>
     (\<exists>off \<in> set offs. due = off_now off + BACKEND_PROGRESS_TIMEOUT))"
proof (induction offs rule: rev_induct)
  case Nil
  show ?case by (simp add: driver_new_def)
next
  case (snoc off offs)
  have inv: "stage_inv tr (fst (run_session tr offs))" by (rule drv.run_inv [OF driver_new_inv])
  then obtain d where d: "stage_driver (fst (run_session tr offs)) = Some d"
    using stage_inv_driver by blast
  obtain hs d1 input es where s: "arm_ok off d d1 input es"
    "stage_driver (fst (run_session_step tr (fst (run_session tr offs)) off)) = Some (after_feed tr input d1)"
    by (rule step_summary [OF inv d])
  have "deadline_ok off (drv_deadline d) (drv_deadline (after_feed tr input d1))"
    using s(1) by (auto simp: arm_ok_def after_feed_def split: option.splits)
  with snoc d s(2) show ?case
    by (auto simp: fst_run_machine_append deadline_ok_def simp del: ends_capture.simps)
qed

text \<open>
  A session is declared stalled only after capture ended (an end-of-capture notice, a capture
  loss or the end of audio) and a full progress timeout after a poll that restarted the clock:
  nothing limits how long an utterance may be while capture is live.
\<close>

theorem driver_stalls_only_when_due:
  assumes "fed_step (fst (run_session tr offs)) off = Some In_Stalled"
  shows "(\<exists>o1 \<in> set offs. ends_capture o1) \<and>
    (\<exists>o2 \<in> set offs. off_now o2 + BACKEND_PROGRESS_TIMEOUT \<le> off_now off)"
proof -
  have inv: "stage_inv tr (fst (run_session tr offs))" by (rule drv.run_inv [OF driver_new_inv])
  then obtain d where d: "stage_driver (fst (run_session tr offs)) = Some d"
    using stage_inv_driver by blast
  obtain hs d1 input es where "arm_ok off d d1 input es" "fed_step (fst (run_session tr offs)) off = input"
    by (rule step_summary [OF inv d])
  with assms have "expired (off_now off) (drv_deadline d)" by (simp add: arm_ok_def)
  then obtain due where "drv_deadline d = Some due" "due \<le> off_now off"
    by (auto simp: expired_def split: option.splits)
  with run_deadline [of tr offs] d show ?thesis by (auto simp del: ends_capture.simps)
qed

theorem driver_stalls_only_when_due_witness:
  "(\<exists>o1 \<in> set [no_offers\<lparr>off_control := Some (Some OC_CaptureEnded)\<rparr>]. ends_capture o1) \<and>
   off_now no_offers + BACKEND_PROGRESS_TIMEOUT \<le> 300000"
  using driver_stalls_only_when_due [of id "[no_offers\<lparr>off_control := Some (Some OC_CaptureEnded)\<rparr>]"
      "no_offers\<lparr>off_now := 300000\<rparr>"]
  by (simp add: driver_eval BACKEND_PROGRESS_TIMEOUT_def)

text \<open>
  C37: Once the clock has run out with the backend silent and nothing left to read, the very next
  poll ends the session: the transport is aborted and the outcome is a failure that names the
  unresponsive backend. No session waits for ever on a backend that stopped.
\<close>

theorem driver_stall_ends_session:
  assumes "fst (run_session tr offs) = Pumping d" and "expired (off_now off) (drv_deadline d)"
    and "off_control off = None" and "off_event off = None" and "\<not> off_activity off"
    and "off_permit off = None" and "off_input off = None"
  shows "\<exists>flr d'. fst (run_session tr (offs @ [off])) =
      Returned (Inr (Out_Failed (lit ''backend_unresponsive'') flr)) d' \<and>
    AbortSent \<in> set (snd (run_session tr (offs @ [off])))"
proof -
  have "stage_inv tr (Pumping d)" using drv.run_inv [OF driver_new_inv, of tr offs] assms(1) by simp
  then have live: "\<not> is_terminal (session (drv_fsm d))" by simp
  have "select_session off d = Some Arm_Deadline" using assms by (simp add: select_session_def)
  then show ?thesis
    using live assms(1)
    by (simp add: fst_run_machine_append snd_run_machine_append poll_session_def feed_def on_stalled_def
        fail_def terminate_def loop_head_def outcome_def split_beta Let_def)
qed

theorem driver_stall_ends_session_witness:
  "\<exists>flr d'. fst (run_session id
       ([no_offers\<lparr>off_control := Some (Some OC_CaptureEnded)\<rparr>, no_offers\<lparr>off_opened := Some (Inr ())\<rparr>] @
        [no_offers\<lparr>off_now := 300000\<rparr>])) =
     Returned (Inr (Out_Failed (lit ''backend_unresponsive'') flr)) d'"
  using driver_stall_ends_session [of id
      "[no_offers\<lparr>off_control := Some (Some OC_CaptureEnded)\<rparr>, no_offers\<lparr>off_opened := Some (Inr ())\<rparr>]"
      "\<lparr>drv_fsm = fsm_new, drv_deadline = Some 300000, control_open = True, inputs_open = True,
        outbound_slot = None\<rparr>" "no_offers\<lparr>off_now := 300000\<rparr>"]
  by (auto simp: driver_eval BACKEND_PROGRESS_TIMEOUT_def)

text \<open>
  An abort never waits: in the poll that offers it, it is taken ahead of everything else that
  is ready (events, queued audio, room in the transport), the session returns aborted, and the
  transport is told at once even with an item still waiting for room.
\<close>

theorem driver_abort_immediate:
  assumes "fst (run_session tr offs) = Pumping d" and "control_open d"
    and "off_control off = Some (Some OC_Abort)"
  shows "\<exists>d'. run_session tr (offs @ [off]) =
    (Returned (Inr Out_Aborted) d', snd (run_session tr offs) @ [AbortSent])"
proof -
  have "stage_inv tr (Pumping d)" using drv.run_inv [OF driver_new_inv, of tr offs] assms(1) by simp
  then have live: "\<not> is_terminal (session (drv_fsm d))" by simp
  have "select_session off d = Some (Arm_Control (Some OC_Abort))"
    using assms by (simp add: select_session_def)
  then have "\<exists>d'. poll_session tr off d = (Returned (Inr Out_Aborted) d', [AbortSent])"
    using live by (simp add: poll_session_def feed_def on_abort_def loop_head_def outcome_def)
  then show ?thesis
    using assms(1) by (auto simp: prod_eq_iff fst_run_machine_append snd_run_machine_append)
qed

theorem driver_abort_immediate_witness:
  "\<exists>d'. run_session id ([no_offers\<lparr>off_opened := Some (Inr ())\<rparr>] @
      [no_offers\<lparr>off_control := Some (Some OC_Abort), off_activity := True\<rparr>]) =
    (Returned (Inr Out_Aborted) d', [AbortSent])"
  using driver_abort_immediate [of id "[no_offers\<lparr>off_opened := Some (Inr ())\<rparr>]"
      "\<lparr>drv_fsm = fsm_new, drv_deadline = None, control_open = True, inputs_open = True,
        outbound_slot = None\<rparr>" "no_offers\<lparr>off_control := Some (Some OC_Abort), off_activity := True\<rparr>"]
  by (simp add: driver_eval)

text \<open>
  The keyword list a session is opened with is within the server's limits (at most 100
  distinct entries, none empty, none longer than 64 characters, none with leading white space),
  whatever the settings hold; the rest of the configuration is untouched.
\<close>

theorem opening_config_keywords:
  "length (cfg_keywords (opening_config cfg)) \<le> 100 \<and> distinct (cfg_keywords (opening_config cfg)) \<and>
   list_all (\<lambda>k. k \<noteq> [] \<and> length k \<le> 64 \<and> \<not> starts_with_p is_whitespace k)
     (cfg_keywords (opening_config cfg)) \<and>
   opening_config cfg = cfg\<lparr>cfg_keywords := cfg_keywords (opening_config cfg)\<rparr>"
  using normalize_keywords_limits [of "cfg_keywords cfg"]
  by (auto simp: opening_config_def list_all_iff keyword_ok_def KEYWORDS_MAX_ENTRIES_def
      KEYWORDS_MAX_ENTRY_CHARS_def)

text \<open>
  A keyword list already within the limits, with its entries trimmed and distinct, is sent
  unchanged.
\<close>

theorem opening_config_keeps_valid:
  assumes "distinct (cfg_keywords cfg)" and "length (cfg_keywords cfg) \<le> 100"
    and "\<forall>k \<in> set (cfg_keywords cfg). k \<noteq> [] \<and> trim k = k \<and> length k \<le> 64"
  shows "opening_config cfg = cfg"
  using normalize_loop_id [of "[]" "cfg_keywords cfg" "[]"] assms
  by (simp add: opening_config_def normalize_keywords_def KEYWORDS_MAX_ENTRIES_def
      KEYWORDS_MAX_ENTRY_CHARS_def)

theorem opening_config_keeps_valid_witness:
  "opening_config \<lparr>audio_fmt = default_format, language = None, output_language = None, prompt = None,
       timestamp_granularity = None, cfg_keywords = [lit ''Myna'', lit ''snapd'']\<rparr> =
     \<lparr>audio_fmt = default_format, language = None, output_language = None, prompt = None,
       timestamp_granularity = None, cfg_keywords = [lit ''Myna'', lit ''snapd'']\<rparr>"
  by (rule opening_config_keeps_valid)
    (simp_all add: trim_def trim_start_def trim_end_def lit_def is_whitespace_def)

end
