(* ===== verification/Ring.thy ===== *)
theory Ring
  imports Core_Types "HOL-Library.Sublist"
begin

text \<open>
  The capture buffer and its producer: \<open>client/myna-audio/src/ring.rs\<close>, the producer half of
  \<open>backend.rs\<close> (re-chunking, capture health) and the sizes \<open>source.rs\<close> computes. Every method
  of the ring runs under its mutex and is one atomic step here; the asynchronous \<open>next\<close> answers
  \<open>Pending\<close> where the code waits to be notified. The stats tap (levels, voice, signal-to-noise
  ratio), which never changes what is captured, is not part of the state.
\<close>

section \<open>An interface: a buffer with a bound\<close>

text \<open>
  What a producer and a consumer rely on: an accepted item goes behind the others, a refused one
  changes nothing, and items come out in order.
\<close>

datatype 'a buffer_op = Put 'a | Take

locale bounded_buffer =
  fixes items :: "'s \<Rightarrow> 'a list"
    and accepts :: "'s \<Rightarrow> 'a \<Rightarrow> bool"
    and put :: "'s \<Rightarrow> 'a \<Rightarrow> 's"
    and taken :: "'s \<Rightarrow> 'a option \<times> 's"
  assumes put_accepted: "accepts s x \<Longrightarrow> items (put s x) = items s @ [x]"
    and put_refused: "\<not> accepts s x \<Longrightarrow> items (put s x) = items s"
    and take_first: "items s = x # xs \<Longrightarrow> fst (taken s) = Some x \<and> items (snd (taken s)) = xs"
    and take_empty: "items s = [] \<Longrightarrow> fst (taken s) = None \<and> items (snd (taken s)) = []"
begin

fun run_ops :: "'s \<Rightarrow> 'a buffer_op list \<Rightarrow> 's \<times> 'a list \<times> 'a list" where
  "run_ops s [] = (s, [], [])"
| "run_ops s (Put x # os) =
     (let (s', got, acc) = run_ops (put s x) os in (s', got, (if accepts s x then [x] else []) @ acc))"
| "run_ops s (Take # os) =
     (let (s', got, acc) = run_ops (snd (taken s)) os
      in (s', (case fst (taken s) of Some x \<Rightarrow> [x] | None \<Rightarrow> []) @ got, acc))"

lemma run_ops_fifo:
  "run_ops s os = (s', got, acc) \<Longrightarrow> got @ items s' = items s @ acc"
proof (induction s os arbitrary: got acc rule: run_ops.induct)
  case (1 s)
  then show ?case by simp
next
  case (2 s x os)
  then show ?case
    by (cases "run_ops (put s x) os"; cases "accepts s x") (auto simp: put_accepted put_refused)
next
  case (3 s os)
  then show ?case
    using take_empty [of s] take_first [of s]
    by (cases "run_ops (snd (taken s)) os"; cases "items s") auto
qed

end

section \<open>The ring\<close>

record ring =
  ring_queue :: "pcm_chunk list"
  queued_bytes :: nat
  max_bytes :: nat
  peak_bytes :: nat
  ring_format :: audio_format
  ring_done :: bool
  ring_fault :: "capture_error option"
  ring_closed :: bool

definition ring_new :: "nat \<Rightarrow> audio_format \<Rightarrow> ring" where
  "ring_new bound fmt = \<lparr>ring_queue = [], queued_bytes = 0, max_bytes = max bound 1, peak_bytes = 0,
     ring_format = fmt, ring_done = False, ring_fault = None, ring_closed = False\<rparr>"

definition overload_secs :: "ring \<Rightarrow> rat" where
  "overload_secs r = of_nat (peak_bytes r) / of_nat (max (unat (bytes_per_second (ring_format r))) 1)"

definition ring_push :: "ring \<Rightarrow> pcm_chunk \<Rightarrow> ring \<times> capture_error option" where
  "ring_push r chunk =
     (if ring_closed r \<or> ring_done r then (r, None)
      else if queued_bytes r + length (chunk_data chunk) > max_bytes r then
        (let fault = Overloaded (overload_secs r)
         in (r\<lparr>ring_done := True, ring_fault := Some fault\<rparr>, Some fault))
      else
        let queued = queued_bytes r + length (chunk_data chunk) in
        (r\<lparr>queued_bytes := queued, peak_bytes := max (peak_bytes r) queued,
           ring_queue := ring_queue r @ [chunk]\<rparr>, None))"

definition ring_finish :: "ring \<Rightarrow> capture_error option \<Rightarrow> ring" where
  "ring_finish r fault =
     (if ring_done r then r
      else if ring_closed r then r\<lparr>ring_done := True\<rparr>
      else r\<lparr>ring_done := True, ring_fault := fault\<rparr>)"

definition is_terminated :: "ring \<Rightarrow> bool" where
  "is_terminated r \<longleftrightarrow> ring_closed r \<or> ring_done r"

datatype stream_item = Got pcm_chunk | GotFault capture_error | GotEnd

text \<open>\<open>None\<close>: nothing yet, the consumer waits.\<close>

definition ring_next :: "ring \<Rightarrow> ring \<times> stream_item option" where
  "ring_next r =
     (case ring_queue r of
        chunk # rest \<Rightarrow>
          (r\<lparr>ring_queue := rest, queued_bytes := queued_bytes r - length (chunk_data chunk)\<rparr>,
           Some (Got chunk))
      | [] \<Rightarrow>
          (case ring_fault r of
             Some fault \<Rightarrow> (r\<lparr>ring_fault := None\<rparr>, Some (GotFault fault))
           | None \<Rightarrow> if ring_done r \<or> ring_closed r then (r, Some GotEnd) else (r, None)))"

definition ring_close :: "ring \<Rightarrow> ring" where
  "ring_close r = r\<lparr>ring_closed := True, ring_queue := [], queued_bytes := 0, ring_fault := None\<rparr>"

section \<open>The producer\<close>

record producer =
  p_ring :: ring
  p_health :: capture_health
  concluded :: bool
  p_format :: audio_format
  chunk_bytes :: nat
  frame_bytes :: nat
  p_pending :: "byte list"

definition producer_new :: "ring \<Rightarrow> audio_format \<Rightarrow> nat \<Rightarrow> nat \<Rightarrow> producer" where
  "producer_new r fmt chunk frame = \<lparr>p_ring = r, p_health = Opening, concluded = False, p_format = fmt,
     chunk_bytes = chunk, frame_bytes = frame, p_pending = []\<rparr>"

fun health_terminal :: "capture_health \<Rightarrow> bool" where
  "health_terminal (Faulted _) = True"
| "health_terminal Ended = True"
| "health_terminal _ = False"

definition publish :: "capture_health \<Rightarrow> producer \<Rightarrow> producer" where
  "publish nxt p = (if health_terminal (p_health p) \<or> p_health p = nxt then p else p\<lparr>p_health := nxt\<rparr>)"

text \<open>The part of \<open>emit\<close> that moves the chunk on.\<close>

definition emit_chunk :: "byte list \<Rightarrow> producer \<Rightarrow> producer" where
  "emit_chunk data p =
     (let (r, overload) = ring_push (p_ring p) \<lparr>chunk_data = data, chunk_format = p_format p\<rparr>;
          p' = p\<lparr>p_ring := r\<rparr>
      in case overload of Some fault \<Rightarrow> publish (Faulted fault) p' | None \<Rightarrow> p')"

text \<open>
  The re-chunking loop of \<open>push\<close>. A chunk size of zero, for which the loop would not end, never
  occurs (\<open>chunk_size_pos\<close> below).
\<close>

lemma publish_fields [simp]:
  "chunk_bytes (publish h p) = chunk_bytes p" "frame_bytes (publish h p) = frame_bytes p"
  "p_pending (publish h p) = p_pending p" "p_ring (publish h p) = p_ring p"
  "concluded (publish h p) = concluded p" "p_format (publish h p) = p_format p"
  by (simp_all add: publish_def)

lemma emit_chunk_fields [simp]:
  "chunk_bytes (emit_chunk d p) = chunk_bytes p" "frame_bytes (emit_chunk d p) = frame_bytes p"
  "p_pending (emit_chunk d p) = p_pending p" "concluded (emit_chunk d p) = concluded p"
  "p_format (emit_chunk d p) = p_format p"
  by (simp_all add: emit_chunk_def split_beta Let_def split: option.split)

function rechunk :: "producer \<Rightarrow> producer" where
  "rechunk p =
     (if 0 < chunk_bytes p \<and> chunk_bytes p \<le> length (p_pending p)
      then rechunk (emit_chunk (take (chunk_bytes p) (p_pending p))
             (p\<lparr>p_pending := drop (chunk_bytes p) (p_pending p)\<rparr>))
      else p)"
  by auto
termination by (relation "measure (\<lambda>p. length (p_pending p))") auto

declare rechunk.simps [simp del]

definition producer_push :: "byte list \<Rightarrow> producer \<Rightarrow> producer \<times> bool" where
  "producer_push data p =
     (if is_terminated (p_ring p) then (p, False)
      else
        let p1 = (if data = [] then p else publish Capturing p);
            p2 = rechunk (p1\<lparr>p_pending := p_pending p1 @ data\<rparr>)
        in (p2, \<not> is_terminated (p_ring p2)))"

definition conclude :: "capture_error option \<Rightarrow> producer \<Rightarrow> producer" where
  "conclude fault p =
     (if concluded p then p
      else
        let p0 = p\<lparr>concluded := True\<rparr>;
            whole = length (p_pending p0) - length (p_pending p0) mod frame_bytes p0;
            p1 = (if whole > 0
                  then emit_chunk (take whole (p_pending p0)) (p0\<lparr>p_pending := drop whole (p_pending p0)\<rparr>)
                  else p0);
            terminal = (case fault of
                          Some err \<Rightarrow> if \<not> ring_closed (p_ring p1) then Faulted err else Ended
                        | None \<Rightarrow> Ended);
            p2 = publish terminal p1
        in p2\<lparr>p_ring := ring_finish (p_ring p2) fault\<rparr>)"

text \<open>\<open>Producer::finish\<close>, and the drop of a producer nobody finished.\<close>

definition producer_drop :: "producer \<Rightarrow> producer" where
  "producer_drop p =
     conclude (Some (BackendFault (lit ''capture backend exited without reporting an outcome''))) p"

section \<open>A capture session\<close>

text \<open>The sizes of \<open>CaptureSource::capture\<close>; durations in milliseconds.\<close>

definition capture_frame_bytes :: "audio_format \<Rightarrow> nat" where
  "capture_frame_bytes f = max (unat (channels f) * unat (sample_width_bytes f)) 1"

definition capture_bps :: "audio_format \<Rightarrow> nat" where
  "capture_bps f = max (unat (bytes_per_second f)) 1"

definition capture_chunk_bytes :: "audio_format \<Rightarrow> nat \<Rightarrow> nat" where
  "capture_chunk_bytes f chunk_ms =
     (let raw = capture_bps f * chunk_ms div 1000; frame = capture_frame_bytes f
      in max (raw - raw mod frame) frame)"

definition capture_max_bytes :: "audio_format \<Rightarrow> nat \<Rightarrow> nat \<Rightarrow> nat" where
  "capture_max_bytes f chunk_ms depth_ms =
     max (capture_bps f * depth_ms div 1000) (capture_chunk_bytes f chunk_ms)"

definition capture_start :: "audio_format \<Rightarrow> nat \<Rightarrow> nat \<Rightarrow> producer" where
  "capture_start f chunk_ms depth_ms =
     producer_new (ring_new (capture_max_bytes f chunk_ms depth_ms) f) f
       (capture_chunk_bytes f chunk_ms) (capture_frame_bytes f)"

text \<open>
  The interleaved operations of a session: the backend delivers PCM, finishes or is dropped, the
  consumer polls the stream or drops it.
\<close>

datatype capture_op =
    Deliver "byte list"
  | Finish_Capture "capture_error option"
  | Drop_Producer
  | Poll
  | Drop_Stream

fun capture_step :: "producer \<Rightarrow> capture_op \<Rightarrow> producer \<times> stream_item list" where
  "capture_step p (Deliver data) = (fst (producer_push data p), [])"
| "capture_step p (Finish_Capture fault) = (conclude fault p, [])"
| "capture_step p Drop_Producer = (producer_drop p, [])"
| "capture_step p Poll =
     (let (r, item) = ring_next (p_ring p)
      in (p\<lparr>p_ring := r\<rparr>, (case item of None \<Rightarrow> [] | Some x \<Rightarrow> [x])))"
| "capture_step p Drop_Stream = (p\<lparr>p_ring := ring_close (p_ring p)\<rparr>, [])"

abbreviation capture_run :: "audio_format \<Rightarrow> nat \<Rightarrow> nat \<Rightarrow> capture_op list \<Rightarrow> producer \<times> stream_item list" where
  "capture_run f chunk_ms depth_ms ops \<equiv>
     run_machine capture_step (capture_start f chunk_ms depth_ms) ops"

section \<open>The ring keeps its bound and its order\<close>

abbreviation chunk_len :: "pcm_chunk \<Rightarrow> nat" where
  "chunk_len c \<equiv> length (chunk_data c)"

definition ring_ok :: "ring \<Rightarrow> bool" where
  "ring_ok r \<longleftrightarrow>
     queued_bytes r = sum_list (map chunk_len (ring_queue r)) \<and> queued_bytes r \<le> max_bytes r \<and>
     (ring_fault r \<noteq> None \<longrightarrow> ring_done r) \<and>
     (ring_closed r \<longrightarrow> ring_queue r = [] \<and> ring_fault r = None)"

lemma ring_ok_new: "ring_ok (ring_new bound fmt)"
  by (simp add: ring_ok_def ring_new_def)

lemma ring_ok_push: "ring_ok r \<Longrightarrow> ring_ok (fst (ring_push r c))"
  by (auto simp: ring_ok_def ring_push_def Let_def)

lemma ring_ok_finish: "ring_ok r \<Longrightarrow> ring_ok (ring_finish r f)"
  by (auto simp: ring_ok_def ring_finish_def)

lemma ring_ok_next: "ring_ok r \<Longrightarrow> ring_ok (fst (ring_next r))"
  by (auto simp: ring_ok_def ring_next_def split: list.splits option.splits)

lemma ring_ok_close: "ring_ok r \<Longrightarrow> ring_ok (ring_close r)"
  by (simp add: ring_ok_def ring_close_def)

definition ring_accepts :: "ring \<Rightarrow> pcm_chunk \<Rightarrow> bool" where
  "ring_accepts r c \<longleftrightarrow> \<not> is_terminated r \<and> queued_bytes r + chunk_len c \<le> max_bytes r"

fun item_chunk :: "stream_item \<Rightarrow> pcm_chunk option" where
  "item_chunk (Got c) = Some c"
| "item_chunk _ = None"

interpretation ring_buf: bounded_buffer ring_queue ring_accepts "\<lambda>r c. fst (ring_push r c)"
  "\<lambda>r. (Option.bind (snd (ring_next r)) item_chunk, fst (ring_next r))"
  by unfold_locales
    (auto simp: ring_accepts_def is_terminated_def ring_push_def ring_next_def Let_def split: option.splits)

lemma ring_push_cases:
  obtains (refused) "is_terminated r" "ring_push r c = (r, None)"
    | (overload) "\<not> is_terminated r" "\<not> ring_accepts r c"
        "ring_push r c = (r\<lparr>ring_done := True, ring_fault := Some (Overloaded (overload_secs r))\<rparr>,
          Some (Overloaded (overload_secs r)))"
    | (queued) q k where "\<not> is_terminated r" "ring_accepts r c"
        "ring_push r c = (r\<lparr>queued_bytes := q, peak_bytes := k, ring_queue := ring_queue r @ [c]\<rparr>, None)"
  by (auto simp: ring_push_def is_terminated_def ring_accepts_def Let_def split: if_splits)

lemma ring_next_cases:
  obtains (chunk) c rest q where "ring_queue r = c # rest"
        "ring_next r = (r\<lparr>ring_queue := rest, queued_bytes := q\<rparr>, Some (Got c))"
    | (fault) e where "ring_queue r = []" "ring_fault r = Some e"
        "ring_next r = (r\<lparr>ring_fault := None\<rparr>, Some (GotFault e))"
    | (stop) "ring_queue r = []" "ring_fault r = None" "is_terminated r" "ring_next r = (r, Some GotEnd)"
    | (wait) "ring_queue r = []" "ring_fault r = None" "\<not> is_terminated r" "ring_next r = (r, None)"
  by (cases "ring_queue r"; cases "ring_fault r"; cases "is_terminated r")
    (auto simp: ring_next_def is_terminated_def)

section \<open>The session invariant\<close>

definition chunk_ok :: "nat \<Rightarrow> nat \<Rightarrow> pcm_chunk \<Rightarrow> bool" where
  "chunk_ok frame whole c \<longleftrightarrow> frame dvd chunk_len c \<and> 0 < chunk_len c \<and> chunk_len c \<le> whole"

definition sizes_ok :: "producer \<Rightarrow> bool" where
  "sizes_ok p \<longleftrightarrow> 0 < frame_bytes p \<and> 0 < chunk_bytes p \<and> frame_bytes p dvd chunk_bytes p"

lemma sizes_ok_simps [simp]:
  "sizes_ok (p\<lparr>p_ring := r\<rparr>) = sizes_ok p" "sizes_ok (p\<lparr>p_pending := x\<rparr>) = sizes_ok p"
  "sizes_ok (p\<lparr>concluded := b\<rparr>) = sizes_ok p" "sizes_ok (publish h p) = sizes_ok p"
  "sizes_ok (emit_chunk d p) = sizes_ok p" "sizes_ok (p\<lparr>p_health := h\<rparr>) = sizes_ok p"
  by (simp_all add: sizes_ok_def)

text \<open>
  Chunks are whole frames, the buffer is within its bound, health and the stream agree: health is
  terminal only once the producer is done, and a fault still to be delivered is the one published.
\<close>

definition capture_inv :: "producer \<Rightarrow> bool" where
  "capture_inv p \<longleftrightarrow>
     ring_ok (p_ring p) \<and> sizes_ok p \<and> list_all (chunk_ok (frame_bytes p) (chunk_bytes p)) (ring_queue (p_ring p)) \<and>
     (ring_done (p_ring p) \<longleftrightarrow> health_terminal (p_health p)) \<and>
     (\<forall>e. ring_fault (p_ring p) = Some e \<longrightarrow> p_health p = Faulted e) \<and>
     (concluded p \<longrightarrow> ring_done (p_ring p))"

definition short_pending :: "producer \<Rightarrow> bool" where
  "short_pending p \<longleftrightarrow> \<not> is_terminated (p_ring p) \<longrightarrow> length (p_pending p) < chunk_bytes p"

lemma emit_chunk_cases:
  obtains (refused) "is_terminated (p_ring p)" "emit_chunk data p = p"
    | (overload) r where "\<not> is_terminated (p_ring p)"
        "r = (p_ring p)\<lparr>ring_done := True, ring_fault := Some (Overloaded (overload_secs (p_ring p)))\<rparr>"
        "emit_chunk data p = publish (Faulted (Overloaded (overload_secs (p_ring p)))) (p\<lparr>p_ring := r\<rparr>)"
    | (queued) q k r where "\<not> is_terminated (p_ring p)"
        "ring_accepts (p_ring p) \<lparr>chunk_data = data, chunk_format = p_format p\<rparr>"
        "r = (p_ring p)\<lparr>queued_bytes := q, peak_bytes := k,
           ring_queue := ring_queue (p_ring p) @ [\<lparr>chunk_data = data, chunk_format = p_format p\<rparr>]\<rparr>"
        "emit_chunk data p = p\<lparr>p_ring := r\<rparr>" "ring_ok (p_ring p) \<longrightarrow> ring_ok r"
proof (cases rule: ring_push_cases [of "p_ring p" "\<lparr>chunk_data = data, chunk_format = p_format p\<rparr>"])
  case refused
  with that(1) show thesis by (simp add: emit_chunk_def)
next
  case overload
  with that(2) show thesis by (simp add: emit_chunk_def)
next
  case (queued q k)
  with that(3) [of _ k q] ring_ok_push [of "p_ring p" "\<lparr>chunk_data = data, chunk_format = p_format p\<rparr>"]
  show thesis by (auto simp: emit_chunk_def)
qed

lemma emit_chunk_inv:
  assumes "capture_inv p" and "frame_bytes p dvd length data" and "0 < length data"
    and "length data \<le> chunk_bytes p"
  shows "capture_inv (emit_chunk data p)"
proof (cases rule: emit_chunk_cases [of p data])
  case refused
  with assms(1) show ?thesis by simp
next
  case (overload r)
  then have "\<not> health_terminal (p_health p)" using assms(1) by (simp add: capture_inv_def is_terminated_def)
  with overload assms(1) show ?thesis
    by (auto simp: capture_inv_def publish_def ring_ok_def is_terminated_def)
next
  case (queued q k r)
  with assms show ?thesis
    by (auto simp: capture_inv_def chunk_ok_def)
qed

lemma rechunk_stop: "\<not> (0 < chunk_bytes p \<and> chunk_bytes p \<le> length (p_pending p)) \<Longrightarrow> rechunk p = p"
  by (subst rechunk.simps) (rule if_not_P)

lemma rechunk_step:
  "0 < chunk_bytes p \<and> chunk_bytes p \<le> length (p_pending p) \<Longrightarrow>
   rechunk p = rechunk (emit_chunk (take (chunk_bytes p) (p_pending p))
     (p\<lparr>p_pending := drop (chunk_bytes p) (p_pending p)\<rparr>))"
  by (subst rechunk.simps) (rule if_P)

lemma rechunk_inv: "capture_inv p \<Longrightarrow> capture_inv (rechunk p)"
proof (induction p rule: rechunk.induct)
  case (1 p)
  show ?case
  proof (cases "0 < chunk_bytes p \<and> chunk_bytes p \<le> length (p_pending p)")
    case True
    have "capture_inv (p\<lparr>p_pending := drop (chunk_bytes p) (p_pending p)\<rparr>)"
      using 1(2) by (auto simp: capture_inv_def sizes_ok_def)
    then have "capture_inv (emit_chunk (take (chunk_bytes p) (p_pending p))
        (p\<lparr>p_pending := drop (chunk_bytes p) (p_pending p)\<rparr>))"
      using True 1(2) by (intro emit_chunk_inv) (auto simp: capture_inv_def sizes_ok_def min_def)
    with 1(1) [OF True] show ?thesis unfolding rechunk_step [OF True] by blast
  qed (use 1(2) in \<open>simp add: rechunk_stop\<close>)
qed

lemma rechunk_short: "0 < chunk_bytes p \<Longrightarrow> length (p_pending (rechunk p)) < chunk_bytes p"
proof (induction p rule: rechunk.induct)
  case (1 p)
  show ?case
  proof (cases "0 < chunk_bytes p \<and> chunk_bytes p \<le> length (p_pending p)")
    case True
    from 1(1) [OF True] 1(2) show ?thesis unfolding rechunk_step [OF True] by simp
  next
    case False
    with 1(2) show ?thesis by (simp add: rechunk_stop)
  qed
qed

lemma rechunk_same:
  "chunk_bytes (rechunk p) = chunk_bytes p \<and> frame_bytes (rechunk p) = frame_bytes p \<and>
   concluded (rechunk p) = concluded p \<and> p_format (rechunk p) = p_format p \<and>
   ring_closed (p_ring (rechunk p)) = ring_closed (p_ring p)"
proof (induction p rule: rechunk.induct)
  case (1 p)
  show ?case
  proof (cases "0 < chunk_bytes p \<and> chunk_bytes p \<le> length (p_pending p)")
    case True
    let ?p = "p\<lparr>p_pending := drop (chunk_bytes p) (p_pending p)\<rparr>"
    have "ring_closed (p_ring (emit_chunk (take (chunk_bytes p) (p_pending p)) ?p)) = ring_closed (p_ring p)"
      by (cases rule: emit_chunk_cases [of ?p "take (chunk_bytes p) (p_pending p)"]) simp_all
    with 1 [OF True] show ?thesis unfolding rechunk_step [OF True] by simp
  qed (simp add: rechunk_stop)
qed

lemma rechunk_fields [simp]:
  "chunk_bytes (rechunk p) = chunk_bytes p" "frame_bytes (rechunk p) = frame_bytes p"
  "concluded (rechunk p) = concluded p" "p_format (rechunk p) = p_format p"
  "ring_closed (p_ring (rechunk p)) = ring_closed (p_ring p)"
  using rechunk_same [of p] by simp_all

lemma publish_capturing_inv:
  "capture_inv p \<Longrightarrow> \<not> ring_done (p_ring p) \<Longrightarrow> capture_inv (publish Capturing p)"
  by (auto simp: capture_inv_def publish_def ring_ok_def)

lemma capture_inv_pending: "capture_inv (p\<lparr>p_pending := x\<rparr>) = capture_inv p"
  by (auto simp: capture_inv_def)

lemma push_inv:
  assumes "capture_inv p"
  shows "capture_inv (fst (producer_push data p))"
proof (cases "is_terminated (p_ring p)")
  case True
  with assms show ?thesis by (simp add: producer_push_def)
next
  case False
  let ?p = "if data = [] then p else publish Capturing p"
  have "capture_inv ?p" using False assms publish_capturing_inv by (simp add: is_terminated_def)
  then have "capture_inv (rechunk (?p\<lparr>p_pending := p_pending ?p @ data\<rparr>))"
    by (intro rechunk_inv) (simp add: capture_inv_pending)
  with False show ?thesis by (simp add: producer_push_def Let_def)
qed

text \<open>
  What concluding does to a producer that is not concluded: the pending whole frames are pushed,
  then the outcome is published and the ring finished.
\<close>

definition flush_rest :: "producer \<Rightarrow> producer" where
  "flush_rest p =
     (let whole = length (p_pending p) - length (p_pending p) mod frame_bytes p in
      if whole > 0 then emit_chunk (take whole (p_pending p)) (p\<lparr>p_pending := drop whole (p_pending p)\<rparr>) else p)"

definition close_books :: "capture_error option \<Rightarrow> producer \<Rightarrow> producer" where
  "close_books fault p =
     (publish (case fault of Some err \<Rightarrow> if \<not> ring_closed (p_ring p) then Faulted err else Ended | None \<Rightarrow> Ended) p)
       \<lparr>concluded := True, p_ring := ring_finish (p_ring p) fault\<rparr>"

lemma conclude_eq: "conclude fault p = (if concluded p then p else close_books fault (flush_rest p))"
proof -
  have emit: "emit_chunk d (q\<lparr>concluded := True\<rparr>) = (emit_chunk d q)\<lparr>concluded := True\<rparr>" for d q
    by (simp add: emit_chunk_def split_beta Let_def publish_def split: option.split)
  have pub: "publish h (q\<lparr>concluded := True\<rparr>) = (publish h q)\<lparr>concluded := True\<rparr>" for h q
    by (simp add: publish_def)
  have swap: "p\<lparr>concluded := True, p_pending := x\<rparr> = p\<lparr>p_pending := x, concluded := True\<rparr>" for x
    by simp
  show ?thesis
    by (simp add: conclude_def flush_rest_def close_books_def Let_def emit pub swap split: option.split)
qed

lemma flush_rest_inv:
  assumes "capture_inv p" and "short_pending p"
  shows "capture_inv (flush_rest p)"
proof (cases "is_terminated (p_ring p)")
  case True
  then have "emit_chunk d (p\<lparr>p_pending := x\<rparr>) = p\<lparr>p_pending := x\<rparr>" for d x
    by (cases rule: emit_chunk_cases [of "p\<lparr>p_pending := x\<rparr>" d]) auto
  with assms(1) show ?thesis by (simp add: flush_rest_def Let_def capture_inv_pending)
next
  case False
  define n where "n = length (p_pending p) - length (p_pending p) mod frame_bytes p"
  have dvd: "frame_bytes p dvd n" by (simp add: n_def dvd_minus_mod)
  have len: "length (take n (p_pending p)) = n" by (simp add: n_def)
  have "n \<le> chunk_bytes p" using False assms(2) by (simp add: n_def short_pending_def)
  with assms(1) dvd have "0 < n \<Longrightarrow>
      capture_inv (emit_chunk (take n (p_pending p)) (p\<lparr>p_pending := drop n (p_pending p)\<rparr>))"
    by (intro emit_chunk_inv) (simp_all add: capture_inv_pending len del: length_take)
  with assms(1) show ?thesis by (simp add: flush_rest_def Let_def n_def)
qed

lemma close_books_inv:
  assumes "capture_inv p" and "\<not> concluded p"
  shows "capture_inv (close_books fault p)"
proof -
  have "ring_ok (ring_finish (p_ring p) fault)" using assms by (simp add: capture_inv_def ring_ok_finish)
  moreover have "ring_queue (ring_finish (p_ring p) fault) = ring_queue (p_ring p)"
    "ring_done (ring_finish (p_ring p) fault)" by (simp_all add: ring_finish_def)
  ultimately show ?thesis
    using assms
    by (cases "ring_done (p_ring p)"; cases "ring_closed (p_ring p)"; cases fault)
      (auto simp: capture_inv_def close_books_def publish_def ring_finish_def ring_ok_def)
qed

lemma flush_rest_fields [simp]:
  "concluded (flush_rest p) = concluded p" "chunk_bytes (flush_rest p) = chunk_bytes p"
  "frame_bytes (flush_rest p) = frame_bytes p"
  by (simp_all add: flush_rest_def Let_def)

lemma conclude_inv:
  assumes "capture_inv p" and "short_pending p"
  shows "capture_inv (conclude fault p) \<and> short_pending (conclude fault p)"
proof (cases "concluded p")
  case True
  with assms show ?thesis by (simp add: conclude_def)
next
  case False
  have "ring_done (p_ring (close_books fault (flush_rest p)))"
    by (simp add: close_books_def ring_finish_def)
  then show ?thesis
    using close_books_inv [OF flush_rest_inv [OF assms], of fault] False
    by (simp add: conclude_eq short_pending_def is_terminated_def)
qed

lemma push_short:
  assumes "capture_inv p" and "short_pending p"
  shows "short_pending (fst (producer_push data p))"
proof (cases "is_terminated (p_ring p)")
  case True
  with assms show ?thesis by (simp add: producer_push_def)
next
  case False
  have "0 < chunk_bytes p" using assms by (simp add: capture_inv_def sizes_ok_def)
  then show ?thesis
    using False rechunk_short [of "p\<lparr>p_pending := p_pending p @ data\<rparr>"]
      rechunk_short [of "(publish Capturing p)\<lparr>p_pending := p_pending p @ data\<rparr>"]
    by (auto simp: producer_push_def Let_def short_pending_def)
qed

lemma poll_inv:
  assumes "capture_inv p" and "short_pending p"
  shows "capture_inv (p\<lparr>p_ring := fst (ring_next (p_ring p))\<rparr>) \<and>
    short_pending (p\<lparr>p_ring := fst (ring_next (p_ring p))\<rparr>)"
proof -
  have "ring_ok (fst (ring_next (p_ring p)))" using assms by (simp add: capture_inv_def ring_ok_next)
  with assms show ?thesis
    by (cases rule: ring_next_cases [of "p_ring p"])
      (auto simp: capture_inv_def short_pending_def is_terminated_def)
qed

interpretation capture: machine capture_step "\<lambda>p. capture_inv p \<and> short_pending p"
proof
  fix p op assume inv: "capture_inv p \<and> short_pending p"
  show "capture_inv (fst (capture_step p op)) \<and> short_pending (fst (capture_step p op))"
  proof (cases op)
    case (Deliver data)
    with inv push_inv push_short show ?thesis by simp
  next
    case (Finish_Capture fault)
    with inv conclude_inv show ?thesis by simp
  next
    case Drop_Producer
    with inv conclude_inv show ?thesis by (simp add: producer_drop_def)
  next
    case Poll
    with inv poll_inv show ?thesis by (simp add: split_beta)
  next
    case Drop_Stream
    with inv show ?thesis
      by (auto simp: capture_inv_def short_pending_def is_terminated_def ring_ok_close)
        (simp_all add: ring_close_def)
  qed
qed

lemma chunk_size_pos:
  "0 < capture_frame_bytes f" "0 < capture_chunk_bytes f ms" "capture_frame_bytes f dvd capture_chunk_bytes f ms"
proof -
  show "0 < capture_frame_bytes f" by (simp add: capture_frame_bytes_def)
  then show "0 < capture_chunk_bytes f ms" by (simp add: capture_chunk_bytes_def Let_def less_max_iff_disj)
  show "capture_frame_bytes f dvd capture_chunk_bytes f ms"
    by (simp add: capture_chunk_bytes_def Let_def max_def dvd_minus_mod)
qed

lemma capture_start_inv: "capture_inv (capture_start f c d) \<and> short_pending (capture_start f c d)"
  using chunk_size_pos [of f] ring_ok_new
  by (simp add: capture_inv_def short_pending_def capture_start_def producer_new_def sizes_ok_def ring_new_def)

section \<open>Where the captured bytes go\<close>

definition queue_data :: "producer \<Rightarrow> byte list" where
  "queue_data p = concat (map chunk_data (ring_queue (p_ring p)))"

definition fresh_overload :: "producer \<Rightarrow> bool" where
  "fresh_overload p \<longleftrightarrow>
     (\<exists>x. p_health p = Faulted (Overloaded x) \<and> ring_fault (p_ring p) = Some (Overloaded x))"

text \<open>
  The producer holds the bytes \<open>bs\<close> it was offered: all of them, queued or pending, as long as it
  accepts audio; once it is done, a prefix, and then it reports an overload.
\<close>

definition holds :: "producer \<Rightarrow> byte list \<Rightarrow> bool" where
  "holds p bs \<longleftrightarrow>
     (if ring_done (p_ring p) then prefix (queue_data p) bs \<and> fresh_overload p
      else queue_data p @ p_pending p = bs)"

lemma rechunk_done:
  "ring_done (p_ring p) \<Longrightarrow> p_ring (rechunk p) = p_ring p \<and> p_health (rechunk p) = p_health p"
proof (induction p rule: rechunk.induct)
  case (1 p)
  show ?case
  proof (cases "0 < chunk_bytes p \<and> chunk_bytes p \<le> length (p_pending p)")
    case True
    let ?p = "p\<lparr>p_pending := drop (chunk_bytes p) (p_pending p)\<rparr>"
    have "emit_chunk (take (chunk_bytes p) (p_pending p)) ?p = ?p"
      using 1(2)
      by (cases rule: emit_chunk_cases [of ?p "take (chunk_bytes p) (p_pending p)"]) (auto simp: is_terminated_def)
    with 1(1) [OF True] 1(2) show ?thesis unfolding rechunk_step [OF True] by simp
  qed (simp add: rechunk_stop)
qed

lemma emit_chunk_holds:
  assumes "capture_inv p" and "\<not> ring_done (p_ring p)" and "\<not> ring_closed (p_ring p)"
    and "queue_data p @ data @ p_pending p = bs"
  shows "holds (emit_chunk data p) bs"
proof (cases rule: emit_chunk_cases [of p data])
  case refused
  with assms show ?thesis by (simp add: is_terminated_def)
next
  case (overload r)
  have "\<not> health_terminal (p_health p)" using assms by (simp add: capture_inv_def)
  with overload assms(4) show ?thesis
    by (auto simp: holds_def queue_data_def fresh_overload_def publish_def)
next
  case (queued q k r)
  with assms show ?thesis by (auto simp: holds_def queue_data_def)
qed

lemma rechunk_holds:
  assumes "capture_inv p" and "\<not> ring_done (p_ring p)" and "\<not> ring_closed (p_ring p)"
  shows "holds (rechunk p) (queue_data p @ p_pending p)"
  using assms
proof (induction p rule: rechunk.induct)
  case (1 p)
  show ?case
  proof (cases "0 < chunk_bytes p \<and> chunk_bytes p \<le> length (p_pending p)")
    case True
    let ?p = "p\<lparr>p_pending := drop (chunk_bytes p) (p_pending p)\<rparr>"
    let ?q = "emit_chunk (take (chunk_bytes p) (p_pending p)) ?p"
    have inv: "capture_inv ?p" using 1(2) by (simp add: capture_inv_pending)
    have len: "length (take (chunk_bytes p) (p_pending p)) = chunk_bytes p" using True by simp
    have q: "capture_inv ?q" using inv 1(2) True len
      by (intro emit_chunk_inv) (simp_all add: capture_inv_def sizes_ok_def)
    have h: "holds ?q (queue_data p @ p_pending p)"
      using inv 1(3,4) by (intro emit_chunk_holds) (simp_all add: queue_data_def)
    have "ring_closed (p_ring ?q) = ring_closed (p_ring p)"
      by (cases rule: emit_chunk_cases [of ?p "take (chunk_bytes p) (p_pending p)"]) simp_all
    then have open_q: "\<not> ring_closed (p_ring ?q)" using 1(4) by simp
    show ?thesis
    proof (cases "ring_done (p_ring ?q)")
      case stopped: True
      with h rechunk_done [OF stopped] show ?thesis
        unfolding rechunk_step [OF True] by (simp add: holds_def queue_data_def fresh_overload_def)
    next
      case False
      with h have "queue_data ?q @ p_pending ?q = queue_data p @ p_pending p" by (simp add: holds_def)
      with 1(1) [OF True q False open_q] show ?thesis unfolding rechunk_step [OF True] by simp
    qed
  qed (use 1 in \<open>simp add: rechunk_stop holds_def\<close>)
qed

lemma push_holds:
  assumes "capture_inv p" and "\<not> is_terminated (p_ring p)"
  shows "holds (fst (producer_push data p)) (queue_data p @ p_pending p @ data)"
proof -
  let ?p = "if data = [] then p else publish Capturing p"
  have "capture_inv ?p" using assms publish_capturing_inv by (simp add: is_terminated_def)
  then have "capture_inv (?p\<lparr>p_pending := p_pending ?p @ data\<rparr>)" by (simp add: capture_inv_pending)
  from rechunk_holds [OF this] show ?thesis
    using assms(2)
    by (cases "data = []") (simp_all add: producer_push_def Let_def is_terminated_def queue_data_def)
qed

lemma flush_rest_holds:
  assumes "capture_inv p" and "\<not> is_terminated (p_ring p)"
  shows "\<not> ring_done (p_ring (flush_rest p)) \<and> queue_data (flush_rest p) =
      queue_data p @ take (length (p_pending p) - length (p_pending p) mod frame_bytes p) (p_pending p) \<or>
    ring_done (p_ring (flush_rest p)) \<and> queue_data (flush_rest p) = queue_data p \<and> fresh_overload (flush_rest p)"
proof -
  define n where "n = length (p_pending p) - length (p_pending p) mod frame_bytes p"
  show ?thesis
  proof (cases "0 < n")
    case True
    let ?p = "p\<lparr>p_pending := drop n (p_pending p)\<rparr>"
    have eq: "flush_rest p = emit_chunk (take n (p_pending p)) ?p"
      using True by (simp add: flush_rest_def Let_def n_def)
    have "\<not> health_terminal (p_health p)" using assms by (simp add: capture_inv_def is_terminated_def)
    then show ?thesis
      using assms(2) unfolding eq n_def [symmetric]
      by (cases rule: emit_chunk_cases [of ?p "take n (p_pending p)"])
        (auto simp: queue_data_def fresh_overload_def publish_def is_terminated_def)
  next
    case False
    then show ?thesis
      using assms(2) unfolding n_def [symmetric] by (simp add: flush_rest_def Let_def is_terminated_def flip: n_def)
  qed
qed

section \<open>The story of a capture session\<close>

definition stream_bytes :: "stream_item list \<Rightarrow> byte list" where
  "stream_bytes outs = concat (map chunk_data (filter_map item_chunk outs))"

lemma stream_bytes_simps [simp]:
  "stream_bytes [] = []" "stream_bytes (xs @ ys) = stream_bytes xs @ stream_bytes ys"
  "stream_bytes [Got c] = chunk_data c" "stream_bytes [GotFault e] = []" "stream_bytes [GotEnd] = []"
  by (simp_all add: stream_bytes_def)

fun concludes :: "capture_op \<Rightarrow> bool" where
  "concludes (Finish_Capture _) = True"
| "concludes Drop_Producer = True"
| "concludes _ = False"

fun delivered_of :: "capture_op \<Rightarrow> byte list" where
  "delivered_of (Deliver data) = data"
| "delivered_of _ = []"

text \<open>Everything the backend delivered before it finished.\<close>

definition captured_bytes :: "capture_op list \<Rightarrow> byte list" where
  "captured_bytes ops = concat (map delivered_of (takeWhile (\<lambda>op. \<not> concludes op) ops))"

definition whole_frames :: "nat \<Rightarrow> byte list \<Rightarrow> byte list" where
  "whole_frames n bs = take (length bs - length bs mod n) bs"

lemma captured_bytes_simps [simp]:
  "captured_bytes [] = []"
  "captured_bytes (op # ops) = (if concludes op then [] else delivered_of op @ captured_bytes ops)"
  by (simp_all add: captured_bytes_def)

lemma captured_bytes_snoc:
  "captured_bytes (ops @ [op]) =
     captured_bytes ops @ (if list_ex concludes ops then [] else delivered_of op)"
proof (induction ops)
  case Nil
  show ?case by (cases op) simp_all
qed simp

definition is_overloaded :: "producer \<Rightarrow> bool" where
  "is_overloaded p \<longleftrightarrow> (\<exists>x. p_health p = Faulted (Overloaded x))"

definition story :: "producer \<Rightarrow> stream_item list \<Rightarrow> byte list \<Rightarrow> bool" where
  "story p outs bs \<longleftrightarrow>
     \<not> ring_closed (p_ring p) \<and> frame_bytes p dvd length (stream_bytes outs) \<and>
     prefix (stream_bytes outs @ queue_data p) bs \<and>
     (\<not> ring_done (p_ring p) \<longrightarrow> stream_bytes outs @ queue_data p @ p_pending p = bs) \<and>
     (ring_done (p_ring p) \<longrightarrow> is_overloaded p \<or>
        concluded p \<and> stream_bytes outs @ queue_data p = whole_frames (frame_bytes p) bs) \<and>
     (\<forall>e. p_health p = Faulted e \<longrightarrow> ring_fault (p_ring p) = Some e \<or> GotFault e \<in> set outs)"

lemma queue_data_whole: "capture_inv p \<Longrightarrow> frame_bytes p dvd length (queue_data p)"
proof -
  have "list_all (chunk_ok m w) q \<Longrightarrow> m dvd length (concat (map chunk_data q))" for m w q
    by (induction q) (auto simp: chunk_ok_def)
  then show "capture_inv p \<Longrightarrow> ?thesis" unfolding capture_inv_def queue_data_def by blast
qed

lemma whole_frames_append:
  assumes "n dvd length xs"
  shows "whole_frames n (xs @ ys) = xs @ take (length ys - length ys mod n) ys"
proof -
  have "(length xs + length ys) mod n = length ys mod n" using assms by (simp add: mod_add_left_eq [symmetric] dvd_imp_mod_0 flip: mod_add_left_eq)
  moreover have "length ys mod n \<le> length ys" by simp
  ultimately have "length (xs @ ys) - length (xs @ ys) mod n = length xs + (length ys - length ys mod n)"
    unfolding length_append by linarith
  then have "whole_frames n (xs @ ys) = take (length xs + (length ys - length ys mod n)) (xs @ ys)"
    by (simp only: whole_frames_def)
  moreover have "take (length xs + k) (xs @ ys) = xs @ take k ys" for k by simp
  ultimately show ?thesis by metis
qed

lemma story_deliver:
  assumes "capture_inv p" and "story p outs bs" and "\<not> concluded p"
  shows "story (fst (producer_push data p)) outs (bs @ data)"
proof (cases "is_terminated (p_ring p)")
  case True
  with assms show ?thesis
    by (auto simp: story_def producer_push_def is_terminated_def prefix_def)
next
  case False
  let ?q = "fst (producer_push data p)"
  have bs: "stream_bytes outs @ queue_data p @ p_pending p = bs"
    using False assms(2) by (simp add: story_def is_terminated_def)
  have fields: "ring_closed (p_ring ?q) = ring_closed (p_ring p)" "frame_bytes ?q = frame_bytes p"
    using False by (simp_all add: producer_push_def Let_def)
  have inv: "capture_inv ?q" by (rule push_inv [OF assms(1)])
  note kept = push_holds [OF assms(1) False, of data]
  have pre: "prefix (queue_data ?q) (queue_data p @ p_pending p @ data)"
    using kept by (auto simp: holds_def prefix_def split: if_splits) (metis append_assoc)
  have "prefix (stream_bytes outs @ queue_data ?q) (bs @ data)"
    unfolding bs [symmetric] append_assoc using pre by simp
  moreover have "\<not> ring_done (p_ring ?q) \<Longrightarrow> stream_bytes outs @ queue_data ?q @ p_pending ?q = bs @ data"
    using kept by (simp add: holds_def bs [symmetric])
  moreover have "ring_done (p_ring ?q) \<Longrightarrow> fresh_overload ?q" using kept by (simp add: holds_def)
  moreover have "p_health ?q = Faulted e \<Longrightarrow> ring_done (p_ring ?q)" for e
    using inv by (simp add: capture_inv_def)
  ultimately show ?thesis
    using assms(2) fields by (auto simp: story_def is_overloaded_def fresh_overload_def)
qed

lemma emit_chunk_closed [simp]: "ring_closed (p_ring (emit_chunk d p)) = ring_closed (p_ring p)"
  by (cases rule: emit_chunk_cases [of p d]) simp_all

lemma flush_rest_closed [simp]: "ring_closed (p_ring (flush_rest p)) = ring_closed (p_ring p)"
  by (simp add: flush_rest_def Let_def)

lemma flush_rest_done:
  "ring_done (p_ring p) \<Longrightarrow> p_ring (flush_rest p) = p_ring p \<and> p_health (flush_rest p) = p_health p"
proof -
  assume "ring_done (p_ring p)"
  then have "emit_chunk d (p\<lparr>p_pending := x\<rparr>) = p\<lparr>p_pending := x\<rparr>" for d x
    by (cases rule: emit_chunk_cases [of "p\<lparr>p_pending := x\<rparr>" d]) (auto simp: is_terminated_def)
  then show ?thesis by (simp add: flush_rest_def Let_def)
qed

lemma close_books_done:
  "ring_done (p_ring p) \<Longrightarrow> health_terminal (p_health p) \<Longrightarrow> close_books fault p = p\<lparr>concluded := True\<rparr>"
  by (simp add: close_books_def publish_def ring_finish_def)

lemma story_conclude:
  assumes "capture_inv p" and "short_pending p" and "story p outs bs"
  shows "story (conclude fault p) outs bs"
proof (cases "concluded p")
  case True
  with assms(3) show ?thesis by (simp add: conclude_def)
next
  case False
  let ?f = "flush_rest p"
  have eq: "conclude fault p = close_books fault ?f" using False by (simp add: conclude_eq)
  have inv: "capture_inv ?f" by (rule flush_rest_inv [OF assms(1,2)])
  show ?thesis
  proof (cases "ring_done (p_ring p)")
    case True
    from flush_rest_done [OF True] inv True have "close_books fault ?f = ?f\<lparr>concluded := True\<rparr>"
      by (intro close_books_done) (simp_all add: capture_inv_def)
    with flush_rest_done [OF True] assms(3) False True show ?thesis
      by (auto simp: eq story_def is_overloaded_def queue_data_def)
  next
    case open_p: False
    then have "\<not> is_terminated (p_ring p)" using assms(3) by (simp add: story_def is_terminated_def)
    note flushed = flush_rest_holds [OF assms(1) this]
    have bs: "bs = (stream_bytes outs @ queue_data p) @ p_pending p"
      using assms(3) open_p by (simp add: story_def)
    show ?thesis
    proof (cases "ring_done (p_ring ?f)")
      case True
      then have "close_books fault ?f = ?f\<lparr>concluded := True\<rparr>"
        using inv by (intro close_books_done) (simp_all add: capture_inv_def)
      with flushed True assms(3) bs show ?thesis
        by (auto simp: eq story_def is_overloaded_def fresh_overload_def queue_data_def)
    next
      case False
      have "frame_bytes p dvd length (stream_bytes outs @ queue_data p)"
        using assms(3) queue_data_whole [OF assms(1)] by (simp add: story_def)
      from whole_frames_append [OF this, of "p_pending p"] flushed False
      have q: "stream_bytes outs @ queue_data ?f = whole_frames (frame_bytes p) bs" by (simp add: bs)
      then have pre: "prefix (stream_bytes outs @ queue_data ?f) bs"
        by (simp add: whole_frames_def take_is_prefix)
      have "\<not> health_terminal (p_health ?f)" using inv False by (simp add: capture_inv_def)
      with False q pre assms(3) show ?thesis
        unfolding eq
        by (auto simp: story_def close_books_def publish_def ring_finish_def queue_data_def
            split: option.splits)
    qed
  qed
qed

lemma story_poll:
  assumes "capture_inv p" and "story p outs bs" and "ring_next (p_ring p) = (r, item)"
  shows "story (p\<lparr>p_ring := r\<rparr>) (outs @ (case item of None \<Rightarrow> [] | Some x \<Rightarrow> [x])) bs"
proof (cases rule: ring_next_cases [of "p_ring p"])
  case (chunk c rest q)
  have "frame_bytes p dvd chunk_len c"
    using assms(1) chunk(1) by (auto simp: capture_inv_def chunk_ok_def)
  with chunk assms(2,3) show ?thesis
    by (auto simp: story_def queue_data_def is_overloaded_def)
qed (use assms in \<open>auto simp: story_def queue_data_def is_overloaded_def capture_inv_def\<close>)

lemma conclude_concluded: "concluded (conclude fault p)"
  by (simp add: conclude_eq close_books_def)

lemma push_concluded: "concluded (fst (producer_push d p)) = concluded p"
  by (simp add: producer_push_def Let_def)

lemma capture_run_story:
  assumes "Drop_Stream \<notin> set ops"
  shows "story (fst (capture_run f c d ops)) (snd (capture_run f c d ops)) (captured_bytes ops) \<and>
    (concluded (fst (capture_run f c d ops)) \<longleftrightarrow> list_ex concludes ops)"
  using assms
proof (induction ops rule: rev_induct)
  case Nil
  show ?case
    by (simp add: story_def capture_start_def producer_new_def ring_new_def queue_data_def captured_bytes_def)
next
  case (snoc op ops)
  let ?p = "fst (capture_run f c d ops)" and ?outs = "snd (capture_run f c d ops)"
  have inv: "capture_inv ?p" "short_pending ?p"
    using capture.run_inv [OF capture_start_inv, of f c d ops] by simp_all
  have st: "story ?p ?outs (captured_bytes ops)" and con: "concluded ?p \<longleftrightarrow> list_ex concludes ops"
    using snoc by simp_all
  show ?case
  proof (cases op)
    case (Deliver data)
    show ?thesis
    proof (cases "concluded ?p")
      case True
      with inv(1) have "ring_done (p_ring ?p)" unfolding capture_inv_def by blast
      then have "fst (producer_push data ?p) = ?p" by (simp add: producer_push_def is_terminated_def)
      with True st con Deliver show ?thesis
        by (simp add: captured_bytes_snoc fst_run_machine_append snd_run_machine_append)
    next
      case False
      with story_deliver [OF inv(1) st False, of data] con Deliver show ?thesis
        by (simp add: captured_bytes_snoc fst_run_machine_append snd_run_machine_append push_concluded)
    qed
  next
    case (Finish_Capture fault)
    with story_conclude [OF inv st] show ?thesis
      by (simp add: captured_bytes_snoc fst_run_machine_append snd_run_machine_append conclude_concluded)
  next
    case Drop_Producer
    with story_conclude [OF inv st] show ?thesis
      by (simp add: captured_bytes_snoc fst_run_machine_append snd_run_machine_append conclude_concluded
          producer_drop_def)
  next
    case Poll
    with story_poll [OF inv(1) st, of "fst (ring_next (p_ring ?p))" "snd (ring_next (p_ring ?p))"] con
    show ?thesis
      by (simp add: captured_bytes_snoc fst_run_machine_append snd_run_machine_append split_beta)
  next
    case Drop_Stream
    with snoc.prems show ?thesis by simp
  qed
qed

text \<open>What never changes in a session: its sizes, and its health once terminal.\<close>

definition same_sizes :: "producer \<Rightarrow> producer \<Rightarrow> bool" where
  "same_sizes p q \<longleftrightarrow> frame_bytes q = frame_bytes p \<and> chunk_bytes q = chunk_bytes p \<and>
     max_bytes (p_ring q) = max_bytes (p_ring p) \<and>
     (health_terminal (p_health p) \<longrightarrow> p_health q = p_health p)"

lemma same_sizes_trans: "same_sizes p q \<Longrightarrow> same_sizes q r \<Longrightarrow> same_sizes p r"
  by (auto simp: same_sizes_def)

lemma same_sizes_refl [simp]: "same_sizes p p"
  by (simp add: same_sizes_def)

lemma same_sizes_publish [simp]: "same_sizes p (publish h p)"
  by (simp add: same_sizes_def publish_def)

lemma same_sizes_emit: "same_sizes p (emit_chunk d p)"
proof (cases rule: emit_chunk_cases [of p d])
  case (overload r)
  then have "same_sizes p (p\<lparr>p_ring := r\<rparr>)" by (simp add: same_sizes_def)
  then show ?thesis unfolding overload(3) by (rule same_sizes_trans) simp
qed (simp_all add: same_sizes_def)

lemma same_sizes_pending: "same_sizes (p\<lparr>p_pending := x\<rparr>) q \<longleftrightarrow> same_sizes p q"
  by (simp add: same_sizes_def)

lemma same_sizes_emit_pending: "same_sizes p (emit_chunk d (p\<lparr>p_pending := x\<rparr>))"
  using same_sizes_emit [of "p\<lparr>p_pending := x\<rparr>" d] by (simp add: same_sizes_pending)

lemma same_sizes_rechunk: "same_sizes p (rechunk p)"
proof (induction p rule: rechunk.induct)
  case (1 p)
  show ?case
  proof (cases "0 < chunk_bytes p \<and> chunk_bytes p \<le> length (p_pending p)")
    case True
    have "same_sizes p (emit_chunk (take (chunk_bytes p) (p_pending p))
        (p\<lparr>p_pending := drop (chunk_bytes p) (p_pending p)\<rparr>))"
      by (rule same_sizes_emit_pending)
    then show ?thesis unfolding rechunk_step [OF True] using 1 [OF True] by (rule same_sizes_trans)
  qed (simp add: rechunk_stop)
qed

lemma same_sizes_push: "same_sizes p (fst (producer_push data p))"
proof -
  have "same_sizes p (rechunk (q\<lparr>p_pending := x\<rparr>))" if "same_sizes p q" for q x
    using that same_sizes_rechunk [of "q\<lparr>p_pending := x\<rparr>"] same_sizes_pending same_sizes_trans by blast
  then show ?thesis by (simp add: producer_push_def Let_def)
qed

lemma same_sizes_conclude: "same_sizes p (conclude fault p)"
proof -
  have "same_sizes p (flush_rest p)"
    by (simp add: flush_rest_def Let_def same_sizes_emit_pending)
  moreover have "same_sizes q (close_books fault q)" for q
    by (auto simp: same_sizes_def close_books_def publish_def ring_finish_def)
  ultimately show ?thesis using same_sizes_trans by (auto simp: conclude_eq)
qed

lemma same_sizes_step: "same_sizes p (fst (capture_step p op))"
proof (cases op)
  case Poll
  then show ?thesis
    by (cases rule: ring_next_cases [of "p_ring p"]) (auto simp: same_sizes_def split_beta)
qed (simp_all add: same_sizes_push same_sizes_conclude producer_drop_def,
     simp add: same_sizes_def ring_close_def)

lemma same_sizes_run: "same_sizes (capture_start f c d) (fst (capture_run f c d ops))"
  by (rule capture.run_monotone [OF capture_start_inv same_sizes_refl same_sizes_trans same_sizes_step])

lemma capture_run_sizes:
  "frame_bytes (fst (capture_run f c d ops)) = capture_frame_bytes f"
  "chunk_bytes (fst (capture_run f c d ops)) = capture_chunk_bytes f c"
  "max_bytes (p_ring (fst (capture_run f c d ops))) = max (capture_max_bytes f c d) 1"
  using same_sizes_run [of f c d ops]
  by (simp_all add: same_sizes_def capture_start_def producer_new_def ring_new_def)

text \<open>A drained stream only ends.\<close>

definition drained :: "producer \<Rightarrow> bool" where
  "drained p \<longleftrightarrow> is_terminated (p_ring p) \<and> ring_queue (p_ring p) = [] \<and> ring_fault (p_ring p) = None"

lemma drained_step:
  assumes "drained p"
  shows "drained (fst (capture_step p op)) \<and>
    snd (capture_step p op) = (if op = Poll then [GotEnd] else [])"
proof -
  have ended: "is_terminated (p_ring p)" using assms by (simp add: drained_def)
  have emit: "emit_chunk d (p\<lparr>p_pending := x\<rparr>) = p\<lparr>p_pending := x\<rparr>" for d x
    using ended by (cases rule: emit_chunk_cases [of "p\<lparr>p_pending := x\<rparr>" d]) simp_all
  have "drained (conclude fault p)" for fault
    using assms
    by (auto simp: conclude_eq flush_rest_def Let_def emit close_books_def drained_def ring_finish_def
        is_terminated_def)
  with assms show ?thesis
    by (cases op)
      (auto simp: producer_push_def drained_def producer_drop_def ring_next_def ring_close_def is_terminated_def)
qed

lemma poll_item:
  assumes "capture_inv p" and "x \<in> set (snd (capture_step p op))"
  shows "op = Poll \<and> (\<exists>c. x = Got c \<and> chunk_ok (frame_bytes p) (chunk_bytes p) c) \<or>
    op = Poll \<and> drained (fst (capture_step p op)) \<and>
      (x = GotEnd \<or> (\<exists>e. x = GotFault e \<and> p_health p = Faulted e))"
  using assms
  by (cases op; cases rule: ring_next_cases [of "p_ring p"])
    (auto simp: capture_inv_def drained_def ring_ok_def is_terminated_def)

definition stream_shape :: "stream_item list \<Rightarrow> bool" where
  "stream_shape outs \<longleftrightarrow> (\<exists>cs fs n. outs = map Got cs @ map GotFault fs @ replicate n GotEnd \<and> length fs \<le> 1)"

lemma capture_run_shape:
  "(drained (fst (capture_run f c d ops)) \<and> stream_shape (snd (capture_run f c d ops))) \<or>
   (\<exists>cs. snd (capture_run f c d ops) = map Got cs)"
proof (induction ops rule: rev_induct)
  case Nil
  show ?case by (intro disjI2 exI [of _ "[]"]) simp
next
  case (snoc op ops)
  let ?p = "fst (capture_run f c d ops)" and ?outs = "snd (capture_run f c d ops)"
  have inv: "capture_inv ?p" using capture.run_inv [OF capture_start_inv, of f c d ops] by simp
  have app: "fst (capture_run f c d (ops @ [op])) = fst (capture_step ?p op)"
    "snd (capture_run f c d (ops @ [op])) = ?outs @ snd (capture_step ?p op)"
    by (simp_all add: fst_run_machine_append snd_run_machine_append)
  from snoc show ?case
  proof
    assume d: "drained ?p \<and> stream_shape ?outs"
    then obtain cs fs n where outs: "?outs = map Got cs @ map GotFault fs @ replicate n GotEnd"
        and fs: "length fs \<le> 1" by (auto simp: stream_shape_def)
    have "?outs @ (if op = Poll then [GotEnd] else []) =
        map Got cs @ map GotFault fs @ replicate (if op = Poll then Suc n else n) GotEnd"
      by (simp add: outs replicate_append_same)
    with fs have "stream_shape (?outs @ (if op = Poll then [GotEnd] else []))"
      unfolding stream_shape_def by blast
    with drained_step [of ?p op] d show ?thesis by (simp add: app)
  next
    assume "\<exists>cs. ?outs = map Got cs"
    then obtain cs where cs: "?outs = map Got cs" by blast
    show ?thesis
    proof (cases "snd (capture_step ?p op)")
      case Nil
      with cs show ?thesis by (auto simp: app)
    next
      case (Cons x xs)
      then have xs: "xs = []" by (cases op) (auto split: option.splits prod.splits)
      from poll_item [OF inv, of x op] Cons consider (got) k where "x = Got k"
        | (stop) "drained (fst (capture_step ?p op))" "x = GotEnd"
        | (fault) e where "drained (fst (capture_step ?p op))" "x = GotFault e" by auto
      then show ?thesis
      proof cases
        case got
        with cs Cons xs have "?outs @ snd (capture_step ?p op) = map Got (cs @ [k])" by simp
        then show ?thesis unfolding app by blast
      next
        case stop
        with cs Cons xs have "?outs @ snd (capture_step ?p op) =
            map Got cs @ map GotFault [] @ replicate 1 GotEnd" by simp
        with stop show ?thesis unfolding app stream_shape_def by (metis list.size(3) zero_le)
      next
        case (fault e)
        with cs Cons xs have "?outs @ snd (capture_step ?p op) =
            map Got cs @ map GotFault [e] @ replicate 0 GotEnd" by simp
        moreover have "length [e] \<le> 1" by simp
        ultimately show ?thesis using fault unfolding app stream_shape_def by blast
      qed
    qed
  qed
qed

lemma map_Got_no_end [simp]: "GotEnd \<notin> Got ` A" "GotFault e \<notin> Got ` A"
  by auto

lemma capture_run_fault_health:
  "GotFault e \<in> set (snd (capture_run f c d ops)) \<Longrightarrow> p_health (fst (capture_run f c d ops)) = Faulted e"
proof (induction ops rule: rev_induct)
  case Nil
  then show ?case by simp
next
  case (snoc op ops)
  let ?p = "fst (capture_run f c d ops)"
  have inv: "capture_inv ?p" using capture.run_inv [OF capture_start_inv, of f c d ops] by simp
  from snoc.prems consider "GotFault e \<in> set (snd (capture_run f c d ops))"
    | "GotFault e \<in> set (snd (capture_step ?p op))" by (auto simp: snd_run_machine_append)
  then have "p_health ?p = Faulted e"
    using snoc.IH poll_item [OF inv, of "GotFault e" op] by cases auto
  with same_sizes_step [of ?p op] show ?case by (simp add: fst_run_machine_append same_sizes_def)
qed

lemma polls_deliver_fault:
  "ring_fault (p_ring p) = Some e \<Longrightarrow>
   GotFault e \<in> set (snd (run_machine capture_step p (replicate (Suc (length (ring_queue (p_ring p)))) Poll)))"
proof (induction "ring_queue (p_ring p)" arbitrary: p)
  case Nil
  then show ?case by (simp add: ring_next_def)
next
  case (Cons c rest)
  from Cons(2) [symmetric] have s: "capture_step p Poll =
      (p\<lparr>p_ring := (p_ring p)\<lparr>ring_queue := rest, queued_bytes := queued_bytes (p_ring p) - chunk_len c\<rparr>\<rparr>, [Got c])"
    by (simp add: ring_next_def)
  from Cons(1) [of "fst (capture_step p Poll)"] Cons(2) [symmetric] Cons(3) show ?case
    by (simp add: s del: capture_step.simps)
qed

section \<open>Properties of capture\<close>

text \<open>
  The ring is a queue: for every interleaving of pushes and polls the chunks that came out
  followed by those still buffered are exactly the accepted chunks in their order.
\<close>

theorem ring_fifo:
  "case ring_buf.run_ops (ring_new bound fmt) ops of
     (r, got, accepted) \<Rightarrow> got @ ring_queue r = accepted"
  using ring_buf.run_ops_fifo [of "ring_new bound fmt" ops]
  by (cases "ring_buf.run_ops (ring_new bound fmt) ops") (simp add: ring_new_def)

text \<open>
  C8: Captured speech is never lost silently. Unless the consumer drops the stream, what it reads
  is always a prefix of what the backend delivered, byte for byte; and once the stream has ended
  it has read all of it up to the last whole frame, or was told of an overload.
\<close>

theorem capture_no_silent_loss:
  assumes "Drop_Stream \<notin> set ops"
  shows "prefix (stream_bytes (snd (capture_run f c d ops))) (captured_bytes ops) \<and>
    (GotEnd \<in> set (snd (capture_run f c d ops)) \<longrightarrow>
       stream_bytes (snd (capture_run f c d ops)) = whole_frames (capture_frame_bytes f) (captured_bytes ops) \<or>
       (\<exists>x. GotFault (Overloaded x) \<in> set (snd (capture_run f c d ops))))"
proof -
  let ?p = "fst (capture_run f c d ops)" and ?outs = "snd (capture_run f c d ops)"
  have st: "story ?p ?outs (captured_bytes ops)" using capture_run_story [OF assms] by simp
  have "GotEnd \<in> set ?outs \<Longrightarrow> drained ?p" using capture_run_shape [of f c d ops] by auto
  then have "GotEnd \<in> set ?outs \<Longrightarrow> ring_done (p_ring ?p) \<and> queue_data ?p = [] \<and> ring_fault (p_ring ?p) = None"
    using st by (simp add: drained_def story_def is_terminated_def queue_data_def)
  with st show ?thesis
    by (auto simp: story_def is_overloaded_def capture_run_sizes dest: append_prefixD)
qed

lemma default_sizes:
  "capture_frame_bytes default_format = 2" "capture_bps default_format = 32000"
  "capture_chunk_bytes default_format 100 = 3200" "capture_max_bytes default_format 100 1000 = 32000"
proof -
  show frame: "capture_frame_bytes default_format = 2"
    by (simp add: capture_frame_bytes_def default_format_def)
  show bps: "capture_bps default_format = 32000"
    by (simp add: capture_bps_def bytes_per_second_def default_format_def)
  show chunk: "capture_chunk_bytes default_format 100 = 3200"
    by (simp add: capture_chunk_bytes_def frame bps)
  show "capture_max_bytes default_format 100 1000 = 32000"
    by (simp add: capture_max_bytes_def bps chunk)
qed

theorem capture_no_silent_loss_witness:
  "prefix [1, 2] [1, 2, 3 :: byte] \<and> [1, 2] = whole_frames (capture_frame_bytes default_format) [1, 2, 3 :: byte]"
proof -
  let ?ops = "[Deliver [1, 2, 3], Finish_Capture None, Poll, Poll]"
  have run: "snd (capture_run default_format 100 1000 ?ops) =
      [Got \<lparr>chunk_data = [1, 2], chunk_format = default_format\<rparr>, GotEnd]"
    by (simp add: capture_start_def default_sizes producer_new_def ring_new_def producer_push_def rechunk_stop
        conclude_def emit_chunk_def ring_push_def ring_finish_def ring_next_def publish_def is_terminated_def)
  from capture_no_silent_loss [of ?ops default_format 100 1000, unfolded run] show ?thesis
    by (simp add: stream_bytes_def default_sizes whole_frames_def)
qed

text \<open>
  The stream keeps its contract whatever the interleaving: chunks first, then at most one
  fault, then nothing but the end.
\<close>

theorem capture_stream_contract:
  "\<exists>cs fs n. snd (capture_run f c d ops) = map Got cs @ map GotFault fs @ replicate n GotEnd \<and> length fs \<le> 1"
proof -
  have "stream_shape (map Got cs)" for cs
    unfolding stream_shape_def by (intro exI [of _ cs] exI [of _ "[]"] exI [of _ 0]) simp
  with capture_run_shape [of f c d ops] show ?thesis unfolding stream_shape_def by metis
qed

text \<open>
  The buffer never holds more than its bound, its byte count is exact (so the subtraction of a
  read chunk never underflows), and every chunk a consumer reads is a whole number of frames, not
  empty and at most the configured chunk size.
\<close>

theorem capture_bounds:
  "(let r = p_ring (fst (capture_run f c d ops)) in
      queued_bytes r = sum_list (map chunk_len (ring_queue r)) \<and>
      queued_bytes r \<le> max (capture_max_bytes f c d) 1) \<and>
   list_all (\<lambda>k. capture_frame_bytes f dvd chunk_len k \<and> 0 < chunk_len k \<and> chunk_len k \<le> capture_chunk_bytes f c)
     (filter_map item_chunk (snd (capture_run f c d ops)))"
proof -
  let ?inv = "\<lambda>p. capture_inv p \<and> short_pending p"
  have "ring_ok (p_ring (fst (capture_run f c d ops)))"
    using capture.run_inv [OF capture_start_inv, of f c d ops] by (simp add: capture_inv_def)
  moreover have "chunk_ok (capture_frame_bytes f) (capture_chunk_bytes f c) k"
    if "Got k \<in> set (snd (capture_run f c d ops))" for k
    using that
  proof (induction ops rule: rev_induct)
    case (snoc op ops)
    let ?p = "fst (capture_run f c d ops)"
    have "capture_inv ?p" using capture.run_inv [OF capture_start_inv, of f c d ops] by simp
    with snoc poll_item [of ?p "Got k" op] show ?case
      by (auto simp: snd_run_machine_append capture_run_sizes)
  qed simp
  moreover have "item_chunk x = Some k \<longleftrightarrow> x = Got k" for x k by (cases x) auto
  ultimately show ?thesis
    by (auto simp: ring_ok_def capture_run_sizes list_all_iff set_filter_map chunk_ok_def Let_def)
qed

text \<open>
  Health and the stream tell the same story: a fault read from the stream is the published
  health, which no later event changes; and a published fault is read from the stream after the
  chunks queued ahead of it, unless the consumer dropped the stream.
\<close>

theorem capture_fault_delivered:
  assumes "Drop_Stream \<notin> set ops" and "p_health (fst (capture_run f c d ops)) = Faulted e"
    and "n = Suc (length (ring_queue (p_ring (fst (capture_run f c d ops)))))"
  shows "GotFault e \<in> set (snd (capture_run f c d (ops @ replicate n Poll))) \<and>
    p_health (fst (capture_run f c d (ops @ replicate n Poll))) = Faulted e"
proof -
  have "story (fst (capture_run f c d ops)) (snd (capture_run f c d ops)) (captured_bytes ops)"
    using capture_run_story [OF assms(1)] by simp
  with assms(2) have "ring_fault (p_ring (fst (capture_run f c d ops))) = Some e \<or>
      GotFault e \<in> set (snd (capture_run f c d ops))" by (simp add: story_def)
  then have "GotFault e \<in> set (snd (capture_run f c d (ops @ replicate n Poll)))"
    using polls_deliver_fault [of "fst (capture_run f c d ops)" e] assms(3)
    by (auto simp: snd_run_machine_append)
  with capture_run_fault_health show ?thesis by blast
qed

theorem capture_fault_delivered_witness:
  "GotFault (NoSource []) \<in>
     set (snd (capture_run default_format 100 1000 ([Finish_Capture (Some (NoSource []))] @ replicate 1 Poll)))"
proof -
  have "p_health (fst (capture_run default_format 100 1000 [Finish_Capture (Some (NoSource []))])) =
      Faulted (NoSource [])"
    "ring_queue (p_ring (fst (capture_run default_format 100 1000 [Finish_Capture (Some (NoSource []))]))) = []"
    by (simp_all add: capture_start_def producer_new_def ring_new_def conclude_def publish_def ring_finish_def)
  with capture_fault_delivered [of "[Finish_Capture (Some (NoSource []))]"
      default_format 100 1000 "NoSource []" 1]
  show ?thesis by simp
qed

end
