(* ===== verification/Runner.thy ===== *)
theory Runner
  imports Driver Ring
begin

text \<open>
  The one-utterance runner, \<open>client/myna-orchestrator/src/runner.rs\<close>: \<open>pump_capture\<close> moves audio
  from the capture stream to the driver's input and reports the end or the fault of capture on
  the control channel. One iteration of its loop is one step.
\<close>

section \<open>State and inputs\<close>

record pump =
  health_open :: bool
  stream_open :: bool
  cap_ended :: bool
  cap_accepted :: bool
  cap_fault :: "capture_error option"
  reported :: bool
  cap_pending :: "orchestrator_input option"
  cap_chunks :: nat
  cap_bytes :: nat

definition pump_new :: pump where
  "pump_new = \<lparr>health_open = True, stream_open = True, cap_ended = False, cap_accepted = False,
     cap_fault = None, reported = False, cap_pending = None, cap_chunks = 0, cap_bytes = 0\<rparr>"

text \<open>
  What is ready at one iteration. \<open>Some None\<close> on health is the end of the health stream; the
  permit is \<open>False\<close> when the driver is gone.
\<close>

record pump_offers =
  po_health :: "capture_health option option"
  po_permit :: "bool option"
  po_stream :: "stream_item option"

datatype pump_effect = To_Control orchestrator_control | To_Audio orchestrator_input

text \<open>\<open>PumpPanicked\<close>: a \<open>select!\<close> all of whose arms are disabled.\<close>

datatype pump_stage = PumpRunning pump | PumpReturned | PumpPanicked

datatype pump_arm = PA_Health "capture_health option" | PA_Permit bool | PA_Stream stream_item

section \<open>The loop\<close>

definition pump_stuck :: "pump \<Rightarrow> bool" where
  "pump_stuck p \<longleftrightarrow> \<not> health_open p \<and> cap_pending p = None \<and> \<not> stream_open p"

definition pump_select :: "pump_offers \<Rightarrow> pump \<Rightarrow> pump_arm option" where
  "pump_select off p =
     (if health_open p \<and> po_health off \<noteq> None then map_option PA_Health (po_health off)
      else if cap_pending p \<noteq> None \<and> po_permit off \<noteq> None then map_option PA_Permit (po_permit off)
      else if stream_open p \<and> cap_pending p = None then map_option PA_Stream (po_stream off)
      else None)"

text \<open>\<open>fault.get_or_insert(err)\<close>.\<close>

definition note_fault :: "capture_error \<Rightarrow> pump \<Rightarrow> pump" where
  "note_fault e p = (if cap_fault p = None then p\<lparr>cap_fault := Some e\<rparr> else p)"

text \<open>The arm that was taken; \<open>None\<close> for the state is a return.\<close>

fun take_pump_arm :: "pump_arm \<Rightarrow> pump \<Rightarrow> pump option \<times> pump_effect list" where
  "take_pump_arm (PA_Health (Some (Faulted e))) p = (Some (note_fault e (p\<lparr>health_open := False\<rparr>)), [])"
| "take_pump_arm (PA_Health (Some Ended)) p =
     (if \<not> cap_ended p then (Some (p\<lparr>cap_ended := True\<rparr>), [To_Control OC_CaptureEnded]) else (Some p, []))"
| "take_pump_arm (PA_Health (Some _)) p = (Some p, [])"
| "take_pump_arm (PA_Health None) p = (Some (p\<lparr>health_open := False\<rparr>), [])"
| "take_pump_arm (PA_Permit ok) p =
     (case (ok, cap_pending p) of
        (True, Some item) \<Rightarrow>
          (if item = OI_EndOfAudio then (None, [To_Audio item])
           else (Some (p\<lparr>cap_pending := None\<rparr>), [To_Audio item]))
      | _ \<Rightarrow> (None, []))"
| "take_pump_arm (PA_Stream (Got chunk)) p =
     (Some (p\<lparr>cap_chunks := cap_chunks p + 1, cap_bytes := cap_bytes p + length (chunk_data chunk),
              cap_accepted := True, cap_pending := Some (OI_Audio chunk)\<rparr>), [])"
| "take_pump_arm (PA_Stream (GotFault e)) p = (Some (note_fault e (p\<lparr>stream_open := False\<rparr>)), [])"
| "take_pump_arm (PA_Stream GotEnd) p = (Some (p\<lparr>stream_open := False\<rparr>), [])"

text \<open>A fault with audio behind it is announced once.\<close>

definition announce_salvage :: "translate \<Rightarrow> pump \<Rightarrow> pump \<times> pump_effect list" where
  "announce_salvage tr p =
     (if cap_accepted p \<and> \<not> reported p then
        (case cap_fault p of
           Some e \<Rightarrow>
             (p\<lparr>reported := True, cap_ended := True\<rparr>, [To_Control (OC_CaptureLost (failure_audio_lost tr e))])
         | None \<Rightarrow> (p, []))
      else (p, []))"

text \<open>Capture is over: the end of audio goes behind what was accepted, or the fault ends it all.\<close>

definition end_capture :: "translate \<Rightarrow> pump \<Rightarrow> pump option \<times> pump_effect list" where
  "end_capture tr p =
     (if \<not> stream_open p \<and> cap_pending p = None then
        (let q = p\<lparr>cap_fault := None\<rparr>;
             finish = (if \<not> cap_ended q
                       then (Some (q\<lparr>cap_ended := True, cap_pending := Some OI_EndOfAudio\<rparr>),
                             [To_Control OC_CaptureEnded])
                       else (Some (q\<lparr>cap_pending := Some OI_EndOfAudio\<rparr>), []))
         in case cap_fault p of
              Some e \<Rightarrow>
                (if \<not> cap_accepted p
                 then (None, [To_Control (OC_CaptureFailed (failure_capture tr e))]) else finish)
            | None \<Rightarrow> finish)
      else (Some p, []))"

definition pump_body :: "translate \<Rightarrow> pump_arm \<Rightarrow> pump \<Rightarrow> pump option \<times> pump_effect list" where
  "pump_body tr a p =
     (case take_pump_arm a p of
        (None, out1) \<Rightarrow> (None, out1)
      | (Some p1, out1) \<Rightarrow>
          (let (p2, out2) = announce_salvage tr p1; (r, out3) = end_capture tr p2
           in (r, out1 @ out2 @ out3)))"

fun pump_step :: "translate \<Rightarrow> pump_stage \<Rightarrow> pump_offers \<Rightarrow> pump_stage \<times> pump_effect list" where
  "pump_step tr (PumpRunning p) off =
     (if pump_stuck p then (PumpPanicked, [])
      else case pump_select off p of
        None \<Rightarrow> (PumpRunning p, [])
      | Some a \<Rightarrow>
          (case pump_body tr a p of
             (Some q, out) \<Rightarrow> (PumpRunning q, out) | (None, out) \<Rightarrow> (PumpReturned, out)))"
| "pump_step tr PumpReturned off = (PumpReturned, [])"
| "pump_step tr PumpPanicked off = (PumpPanicked, [])"

abbreviation pump_capture :: "translate \<Rightarrow> pump_offers list \<Rightarrow> pump_stage \<times> pump_effect list" where
  "pump_capture tr offs \<equiv> run_machine (pump_step tr) (PumpRunning pump_new) offs"

text \<open>The capture format goes into the session configuration.\<close>

definition dictation_config :: "session_config \<Rightarrow> audio_format \<Rightarrow> session_config" where
  "dictation_config cfg fmt = cfg\<lparr>audio_fmt := fmt\<rparr>"

section \<open>Observations\<close>

fun to_audio :: "pump_effect \<Rightarrow> orchestrator_input option" where
  "to_audio (To_Audio x) = Some x"
| "to_audio _ = None"

fun is_lost :: "pump_effect \<Rightarrow> bool" where
  "is_lost (To_Control (OC_CaptureLost _)) = True"
| "is_lost _ = False"

fun is_failed :: "pump_effect \<Rightarrow> bool" where
  "is_failed (To_Control (OC_CaptureFailed _)) = True"
| "is_failed _ = False"

abbreviation is_ended :: "pump_effect \<Rightarrow> bool" where
  "is_ended x \<equiv> x = To_Control OC_CaptureEnded"

text \<open>The chunk read from the stream and the fault noticed in one iteration.\<close>

fun pump_read :: "pump_stage \<Rightarrow> pump_offers \<Rightarrow> pcm_chunk option" where
  "pump_read (PumpRunning p) off = (case pump_select off p of Some (PA_Stream (Got c)) \<Rightarrow> Some c | _ \<Rightarrow> None)"
| "pump_read _ off = None"

fun chunks_read :: "translate \<Rightarrow> pump_stage \<Rightarrow> pump_offers list \<Rightarrow> pcm_chunk list" where
  "chunks_read tr st [] = []"
| "chunks_read tr st (off # offs) =
     (case pump_read st off of None \<Rightarrow> [] | Some c \<Rightarrow> [c]) @ chunks_read tr (fst (pump_step tr st off)) offs"

section \<open>One iteration\<close>

text \<open>
  At the head of the loop: the stream is over exactly when the end of audio is pending (so an arm is always enabled),
  a fault with audio behind it has been reported, and a report means audio and a known end.
\<close>

definition pump_inv :: "pump \<Rightarrow> bool" where
  "pump_inv p \<longleftrightarrow>
     (stream_open p \<longleftrightarrow> cap_pending p \<noteq> Some OI_EndOfAudio) \<and>
     (cap_pending p = Some OI_EndOfAudio \<longrightarrow> cap_ended p) \<and>
     (cap_accepted p \<and> cap_fault p \<noteq> None \<longrightarrow> reported p) \<and>
     (reported p \<longrightarrow> cap_accepted p \<and> cap_ended p) \<and>
     (\<forall>c. cap_pending p = Some (OI_Audio c) \<longrightarrow> cap_accepted p)"

fun pump_stage_inv :: "pump_stage \<Rightarrow> bool" where
  "pump_stage_inv (PumpRunning p) = pump_inv p"
| "pump_stage_inv PumpReturned = True"
| "pump_stage_inv PumpPanicked = False"

definition b2n :: "bool \<Rightarrow> nat" where "b2n b = (if b then 1 else 0)"

lemma b2n_simps [simp]: "b2n True = 1" "b2n False = 0"
  by (simp_all add: b2n_def)

text \<open>What an iteration that goes on, and one that returns, do to the audio and to the reports.\<close>

definition went_on :: "pump \<Rightarrow> pcm_chunk option \<Rightarrow> pump \<Rightarrow> pump_effect list \<Rightarrow> bool" where
  "went_on p read q out \<longleftrightarrow>
     pump_inv q \<and>
     filter_map to_audio out @ opt_list (cap_pending q) =
       opt_list (cap_pending p) @ map OI_Audio (opt_list read) @
       (if cap_pending q = Some OI_EndOfAudio \<and> cap_pending p \<noteq> Some OI_EndOfAudio then [OI_EndOfAudio] else []) \<and>
     (cap_pending p = Some OI_EndOfAudio \<longrightarrow> cap_pending q = Some OI_EndOfAudio) \<and>
     length (filter is_lost out) + b2n (reported p) = b2n (reported q) \<and>
     length (filter is_ended out) + b2n (cap_ended p) \<le> b2n (cap_ended q) \<and>
     filter is_failed out = [] \<and>
     (cap_accepted q \<longleftrightarrow> cap_accepted p \<or> read \<noteq> None)"

definition came_back :: "translate \<Rightarrow> bool \<Rightarrow> pump \<Rightarrow> pcm_chunk option \<Rightarrow> pump_effect list \<Rightarrow> bool" where
  "came_back tr gone p read out \<longleftrightarrow> read = None \<and>
     (out = [] \<and> gone \<or> out = [To_Audio OI_EndOfAudio] \<and> cap_pending p = Some OI_EndOfAudio \<or>
      (\<exists>e. out = [To_Control (OC_CaptureFailed (failure_capture tr e))]) \<and> \<not> cap_accepted p \<and>
         cap_pending p = None)"

lemma pump_inv_not_stuck: "pump_inv p \<Longrightarrow> \<not> pump_stuck p"
  by (auto simp: pump_inv_def pump_stuck_def)

definition body_ok :: "translate \<Rightarrow> bool \<Rightarrow> pump \<Rightarrow> pcm_chunk option \<Rightarrow> pump option \<times> pump_effect list \<Rightarrow> bool" where
  "body_ok tr gone p read r \<longleftrightarrow>
     (case r of (Some q, out) \<Rightarrow> went_on p read q out | (None, out) \<Rightarrow> came_back tr gone p read out)"

lemmas pump_defs =
  body_ok_def pump_body_def announce_salvage_def end_capture_def note_fault_def went_on_def came_back_def
  pump_inv_def Let_def

lemma pump_body_health:
  assumes "pump_inv p"
  shows "body_ok tr gone p None (pump_body tr (PA_Health h) p)"
proof (cases h)
  case None
  with assms show ?thesis by (cases "reported p"; cases "cap_fault p") (auto simp: pump_defs)
next
  case (Some s)
  with assms show ?thesis
    by (cases s; cases "reported p"; cases "cap_fault p"; cases "cap_ended p") (auto simp: pump_defs)
qed

lemma pump_body_permit:
  assumes "pump_inv p" and "cap_pending p = Some item"
  shows "body_ok tr (\<not> ok) p None (pump_body tr (PA_Permit ok) p)"
  using assms
  by (cases ok; cases item; cases "reported p"; cases "cap_fault p") (auto simp: pump_defs)

lemma pump_body_stream:
  assumes "pump_inv p" and "cap_pending p = None"
  shows "body_ok tr gone p (item_chunk x) (pump_body tr (PA_Stream x) p)"
  using assms
  by (cases x; cases "reported p"; cases "cap_fault p"; cases "cap_ended p"; cases "cap_accepted p")
    (auto simp: pump_defs)

lemma pump_step_cases:
  assumes "pump_inv p"
  obtains (goes_on) q out where "pump_step tr (PumpRunning p) off = (PumpRunning q, out)"
        "went_on p (pump_read (PumpRunning p) off) q out"
    | (returns) out where "pump_step tr (PumpRunning p) off = (PumpReturned, out)"
        "came_back tr (po_permit off = Some False) p (pump_read (PumpRunning p) off) out"
proof (cases "pump_select off p")
  case None
  with assms pump_inv_not_stuck that(1) [of p "[]"] show thesis by (simp add: went_on_def)
next
  case (Some a)
  have "body_ok tr (po_permit off = Some False) p (pump_read (PumpRunning p) off) (pump_body tr a p)"
  proof (cases a)
    case (PA_Health h)
    with Some pump_body_health [OF assms, of tr _ h] show ?thesis by simp
  next
    case (PA_Permit ok)
    with Some obtain item where "cap_pending p = Some item" and ok: "po_permit off = Some ok"
      by (auto simp: pump_select_def split: if_splits)
    from pump_body_permit [OF assms this(1), of tr ok] PA_Permit Some ok show ?thesis by simp
  next
    case (PA_Stream x)
    with Some have "cap_pending p = None" by (auto simp: pump_select_def split: if_splits)
    moreover have "pump_read (PumpRunning p) off = item_chunk x" using PA_Stream Some by (cases x) simp_all
    ultimately show ?thesis using pump_body_stream [OF assms, of tr _ x] PA_Stream by simp
  qed
  with Some pump_inv_not_stuck [OF assms] that show thesis
    by (cases "pump_body tr a p"; cases "fst (pump_body tr a p)") (auto simp: body_ok_def)
qed

interpretation pump: halting_machine "pump_step tr" pump_stage_inv "\<lambda>st. st = PumpReturned" for tr
proof
  fix st off assume inv: "pump_stage_inv st"
  show "pump_stage_inv (fst (pump_step tr st off))"
  proof (cases st)
    case (PumpRunning p)
    with inv have "pump_inv p" by simp
    then show ?thesis
      by (rule pump_step_cases [of p tr off]) (simp_all add: PumpRunning went_on_def del: pump_step.simps)
  qed (use inv in simp_all)
qed simp

section \<open>The story of a capture\<close>

lemma chunks_read_append:
  "chunks_read tr st (offs @ [off]) =
     chunks_read tr st offs @ opt_list (pump_read (fst (run_machine (pump_step tr) st offs)) off)"
  by (induction offs arbitrary: st) (simp_all add: opt_list_def del: pump_step.simps pump_read.simps)

fun pump_story :: "pump_stage \<Rightarrow> pump_effect list \<Rightarrow> pcm_chunk list \<Rightarrow> bool" where
  "pump_story (PumpRunning p) out reads \<longleftrightarrow>
     pump_inv p \<and>
     filter_map to_audio out @ opt_list (cap_pending p) =
       map OI_Audio reads @ (if cap_pending p = Some OI_EndOfAudio then [OI_EndOfAudio] else []) \<and>
     length (filter is_lost out) = b2n (reported p) \<and> length (filter is_ended out) \<le> b2n (cap_ended p) \<and>
     filter is_failed out = [] \<and> (cap_accepted p \<longleftrightarrow> reads \<noteq> [])"
| "pump_story PumpReturned out reads \<longleftrightarrow>
     prefix (filter_map to_audio out) (map OI_Audio reads @ [OI_EndOfAudio]) \<and>
     length (filter is_lost out) \<le> 1 \<and> length (filter is_ended out) \<le> 1 \<and> length (filter is_failed out) \<le> 1 \<and>
     (filter is_lost out \<noteq> [] \<longrightarrow> reads \<noteq> []) \<and> (filter is_failed out \<noteq> [] \<longrightarrow> reads = [])"
| "pump_story PumpPanicked out reads \<longleftrightarrow> False"

lemma story_went_on:
  assumes "pump_story (PumpRunning p) out reads" and "went_on p read q out'"
  shows "pump_story (PumpRunning q) (out @ out') (reads @ opt_list read)"
proof -
  let ?sent = "filter_map to_audio out" and ?sent' = "filter_map to_audio out'"
  let ?fin = "\<lambda>p. if cap_pending p = Some OI_EndOfAudio then [OI_EndOfAudio] else []"
  have sent: "?sent @ opt_list (cap_pending p) = map OI_Audio reads @ ?fin p" using assms(1) by simp
  have sent': "?sent' @ opt_list (cap_pending q) = opt_list (cap_pending p) @ map OI_Audio (opt_list read) @
      (if cap_pending q = Some OI_EndOfAudio \<and> cap_pending p \<noteq> Some OI_EndOfAudio then [OI_EndOfAudio] else [])"
    using assms(2) by (simp add: went_on_def)
  have "(?sent @ ?sent') @ opt_list (cap_pending q) = map OI_Audio (reads @ opt_list read) @ ?fin q"
  proof (cases "cap_pending p = Some OI_EndOfAudio")
    case True
    with assms(2) have q: "cap_pending q = Some OI_EndOfAudio" by (simp add: went_on_def)
    with True sent' have "?sent' = [] \<and> read = None"
      by (cases read) (auto simp: append_eq_Cons_conv Cons_eq_append_conv)
    with True q sent show ?thesis by simp
  next
    case False
    have "(?sent @ ?sent') @ opt_list (cap_pending q) =
        (?sent @ opt_list (cap_pending p)) @ map OI_Audio (opt_list read) @ ?fin q"
      using sent' False by simp
    then show ?thesis unfolding sent using False by simp
  qed
  with assms show ?thesis by (auto simp: went_on_def)
qed

lemma prefix_of_sent:
  assumes "xs @ ys = zs @ (if b then [e] else [])"
  shows "prefix xs (zs @ [e])"
proof -
  have "prefix xs (zs @ (if b then [e] else []))" using assms prefixI by metis
  moreover have "prefix (zs @ (if b then [e] else [])) (zs @ [e])" by simp
  ultimately show ?thesis by (rule prefix_order.trans)
qed

lemma story_came_back:
  assumes "pump_story (PumpRunning p) out reads" and "came_back tr gone p read out'"
  shows "pump_story PumpReturned (out @ out') (reads @ opt_list read)"
proof -
  have sent: "filter_map to_audio out @ opt_list (cap_pending p) =
      map OI_Audio reads @ (if cap_pending p = Some OI_EndOfAudio then [OI_EndOfAudio] else [])"
    and counts: "length (filter is_lost out) \<le> 1" "length (filter is_ended out) \<le> 1"
    and "filter is_failed out = []" and acc: "cap_accepted p \<longleftrightarrow> reads \<noteq> []"
    and lost: "filter is_lost out \<noteq> [] \<longrightarrow> reads \<noteq> []"
    using assms(1) by (auto simp: b2n_def pump_inv_def split: if_splits)
  have pre: "prefix (filter_map to_audio out) (map OI_Audio reads @ [OI_EndOfAudio])"
    using sent by (rule prefix_of_sent)
  from assms(2) consider "out' = []" "read = None"
    | "out' = [To_Audio OI_EndOfAudio]" "cap_pending p = Some OI_EndOfAudio" "read = None"
    | e where "out' = [To_Control (OC_CaptureFailed (failure_capture tr e))]" "\<not> cap_accepted p" "read = None"
    by (auto simp: came_back_def)
  then show ?thesis
    using sent counts pre acc lost \<open>filter is_failed out = []\<close> by cases auto
qed

lemma pump_capture_story:
  "pump_story (fst (pump_capture tr offs)) (snd (pump_capture tr offs))
     (chunks_read tr (PumpRunning pump_new) offs)"
proof (induction offs rule: rev_induct)
  case Nil
  show ?case by (simp add: pump_new_def pump_inv_def)
next
  case (snoc off offs)
  let ?st = "fst (pump_capture tr offs)" and ?out = "snd (pump_capture tr offs)"
  show ?case
  proof (cases ?st)
    case (PumpRunning p)
    with snoc have st: "pump_story (PumpRunning p) ?out (chunks_read tr (PumpRunning pump_new) offs)" by simp
    then have "pump_inv p" by simp
    then show ?thesis
    proof (cases rule: pump_step_cases [of p tr off])
      case (goes_on q out)
      with story_went_on [OF st goes_on(2)] PumpRunning show ?thesis
        by (simp add: fst_run_machine_append snd_run_machine_append chunks_read_append
            del: pump_step.simps pump_read.simps pump_story.simps)
    next
      case (returns out)
      with story_came_back [OF st returns(2)] PumpRunning show ?thesis
        by (simp add: fst_run_machine_append snd_run_machine_append chunks_read_append
            del: pump_step.simps pump_read.simps pump_story.simps)
    qed
  next
    case PumpReturned
    with snoc show ?thesis
      by (simp add: fst_run_machine_append snd_run_machine_append chunks_read_append)
  next
    case PumpPanicked
    with snoc show ?thesis by simp
  qed
qed

section \<open>Properties of the capture pump\<close>

text \<open>
  The driver is handed exactly the chunks read from the capture stream, in order, and the end
  of audio only behind the last of them; the pump never reaches a select with every arm disabled.
\<close>

theorem pump_audio_in_order:
  "prefix (filter_map to_audio (snd (pump_capture tr offs)))
     (map OI_Audio (chunks_read tr (PumpRunning pump_new) offs) @ [OI_EndOfAudio]) \<and>
   fst (pump_capture tr offs) \<noteq> PumpPanicked"
proof (cases "fst (pump_capture tr offs)")
  case (PumpRunning p)
  with pump_capture_story [of tr offs] have "filter_map to_audio (snd (pump_capture tr offs)) @ opt_list (cap_pending p) =
      map OI_Audio (chunks_read tr (PumpRunning pump_new) offs) @
        (if cap_pending p = Some OI_EndOfAudio then [OI_EndOfAudio] else [])" by simp
  from prefix_of_sent [OF this] PumpRunning show ?thesis by simp
qed (use pump_capture_story [of tr offs] in auto)

text \<open>
  A capture fault is reported once and in the right way: with nothing read it fails the
  session, with audio read it is announced as a loss and the utterance is finished, never both;
  the end of capture is announced at most once. While the pump runs, a fault it has noticed with
  audio read has already been announced.
\<close>

theorem pump_fault_reported_once:
  "let out = snd (pump_capture tr offs); reads = chunks_read tr (PumpRunning pump_new) offs in
   length (filter is_failed out) + length (filter is_lost out) \<le> 1 \<and> length (filter is_ended out) \<le> 1 \<and>
   (filter is_failed out \<noteq> [] \<longrightarrow> reads = []) \<and> (filter is_lost out \<noteq> [] \<longrightarrow> reads \<noteq> []) \<and>
   (\<forall>p. fst (pump_capture tr offs) = PumpRunning p \<and> cap_fault p \<noteq> None \<and> reads \<noteq> [] \<longrightarrow>
      filter is_lost out \<noteq> [])"
proof (cases "fst (pump_capture tr offs)")
  case (PumpRunning p)
  with pump_capture_story [of tr offs] show ?thesis
    by (auto simp: Let_def pump_inv_def b2n_def split: if_splits)
next
  case PumpReturned
  with pump_capture_story [of tr offs] show ?thesis
    by (cases "filter is_failed (snd (pump_capture tr offs)) = []") (auto simp: Let_def)
next
  case PumpPanicked
  with pump_capture_story [of tr offs] show ?thesis by simp
qed

definition example_chunk :: pcm_chunk where
  "example_chunk = \<lparr>chunk_data = [1, 2], chunk_format = default_format\<rparr>"

lemmas pump_eval =
  pump_new_def pump_stuck_def pump_select_def pump_body_def announce_salvage_def end_capture_def note_fault_def

theorem pump_fault_reported_once_witness:
  "filter is_lost (snd (pump_capture id
     [\<lparr>po_health = None, po_permit = None, po_stream = Some (Got example_chunk)\<rparr>,
      \<lparr>po_health = Some (Some (Faulted (BackendFault []))), po_permit = None, po_stream = None\<rparr>])) \<noteq> []"
  using pump_fault_reported_once [of id
     "[\<lparr>po_health = None, po_permit = None, po_stream = Some (Got example_chunk)\<rparr>,
       \<lparr>po_health = Some (Some (Faulted (BackendFault []))), po_permit = None, po_stream = None\<rparr>]"]
  by (simp add: pump_eval Let_def)

text \<open>
  While the driver is there, the pump returns only when its work is done: either the end of
  audio was handed over behind every chunk read, or capture failed with nothing read and the
  failure was reported.
\<close>

theorem pump_returns_when_done:
  assumes "\<forall>off \<in> set offs. po_permit off \<noteq> Some False"
    and "fst (pump_capture tr offs) = PumpReturned"
  shows "filter_map to_audio (snd (pump_capture tr offs)) =
      map OI_Audio (chunks_read tr (PumpRunning pump_new) offs) @ [OI_EndOfAudio] \<or>
    length (filter is_failed (snd (pump_capture tr offs))) = 1 \<and>
      chunks_read tr (PumpRunning pump_new) offs = [] \<and> filter_map to_audio (snd (pump_capture tr offs)) = []"
  using assms
proof (induction offs rule: rev_induct)
  case Nil
  then show ?case by simp
next
  case (snoc off offs)
  let ?out = "snd (pump_capture tr offs)" and ?reads = "chunks_read tr (PumpRunning pump_new) offs"
  show ?case
  proof (cases "fst (pump_capture tr offs)")
    case (PumpRunning p)
    with pump_capture_story [of tr offs] have st: "pump_story (PumpRunning p) ?out ?reads" by simp
    then have "pump_inv p" by simp
    then show ?thesis
    proof (cases rule: pump_step_cases [of p tr off])
      case (goes_on q out)
      with snoc.prems(2) PumpRunning show ?thesis
        by (simp add: fst_run_machine_append del: pump_step.simps)
    next
      case (returns out)
      then have app: "snd (pump_capture tr (offs @ [off])) = ?out @ out"
        "chunks_read tr (PumpRunning pump_new) (offs @ [off]) = ?reads"
        using PumpRunning
        by (simp_all add: snd_run_machine_append chunks_read_append came_back_def
            del: pump_step.simps pump_read.simps)
      from returns(2) snoc.prems(1) consider
        "out = [To_Audio OI_EndOfAudio]" "cap_pending p = Some OI_EndOfAudio"
        | e where "out = [To_Control (OC_CaptureFailed (failure_capture tr e))]" "\<not> cap_accepted p"
            "cap_pending p = None"
        by (auto simp: came_back_def)
      then show ?thesis using st unfolding app by cases auto
    qed
  next
    case PumpReturned
    with snoc show ?thesis
      by (simp add: fst_run_machine_append snd_run_machine_append chunks_read_append)
  next
    case PumpPanicked
    with pump_capture_story [of tr offs] show ?thesis by simp
  qed
qed

theorem pump_returns_when_done_witness:
  "filter_map to_audio (snd (pump_capture id
     [\<lparr>po_health = None, po_permit = None, po_stream = Some (Got example_chunk)\<rparr>,
      \<lparr>po_health = None, po_permit = Some True, po_stream = None\<rparr>,
      \<lparr>po_health = None, po_permit = None, po_stream = Some GotEnd\<rparr>,
      \<lparr>po_health = None, po_permit = Some True, po_stream = None\<rparr>])) = [OI_Audio example_chunk, OI_EndOfAudio]"
  using pump_returns_when_done [of
     "[\<lparr>po_health = None, po_permit = None, po_stream = Some (Got example_chunk)\<rparr>,
       \<lparr>po_health = None, po_permit = Some True, po_stream = None\<rparr>,
       \<lparr>po_health = None, po_permit = None, po_stream = Some GotEnd\<rparr>,
       \<lparr>po_health = None, po_permit = Some True, po_stream = None\<rparr>]" id]
  by (simp add: pump_eval)

end
