(* ===== verification/Controller.thy ===== *)
theory Controller
  imports Driver
begin

text \<open>
  The desktop session controller, \<open>client/myna-desktop/src/controller.rs\<close>: the push-to-talk loop
  that acquires the focused text field, runs one utterance, routes committed text into the field
  and liveness to the indicator, and returns to idle. The trigger, the text input target, the
  indicator and the running session are trait objects in the code; here each poll says what they
  answer, and what the controller asks of them is an effect. Durations are milliseconds, levels
  and ratios rationals.
\<close>

section \<open>The dictation state\<close>

datatype dictation_state =
    DS_Idle | DS_Starting | DS_Recording | DS_Transcribing | DS_Finalizing
  | DS_Completed | DS_Cancelled | DS_Error

fun can_transition :: "dictation_state \<Rightarrow> dictation_state \<Rightarrow> bool" where
  "can_transition DS_Idle t \<longleftrightarrow> t = DS_Starting"
| "can_transition DS_Starting t \<longleftrightarrow> t = DS_Recording \<or> t = DS_Cancelled \<or> t = DS_Error \<or> t = DS_Idle"
| "can_transition DS_Recording t \<longleftrightarrow>
     t = DS_Transcribing \<or> t = DS_Finalizing \<or> t = DS_Cancelled \<or> t = DS_Error"
| "can_transition DS_Transcribing t \<longleftrightarrow>
     t = DS_Recording \<or> t = DS_Finalizing \<or> t = DS_Cancelled \<or> t = DS_Error"
| "can_transition DS_Finalizing t \<longleftrightarrow> t = DS_Completed \<or> t = DS_Cancelled \<or> t = DS_Error"
| "can_transition DS_Completed t \<longleftrightarrow> t = DS_Idle"
| "can_transition DS_Cancelled t \<longleftrightarrow> t = DS_Idle"
| "can_transition DS_Error t \<longleftrightarrow> t = DS_Idle"

text \<open>\<open>None\<close> is the failed assertion.\<close>

definition advance :: "dictation_state \<Rightarrow> dictation_state \<Rightarrow> dictation_state option" where
  "advance s t = (if can_transition s t then Some t else None)"

definition capturing :: "dictation_state \<Rightarrow> bool" where
  "capturing s \<longleftrightarrow> s = DS_Recording \<or> s = DS_Transcribing"

section \<open>The indicator\<close>

datatype indicator_state =
    IS_Hidden
  | IS_Recording
  | IS_Transcribing
  | IS_Finalizing
  | IS_Error ustr bool

definition critical :: "ustr \<Rightarrow> indicator_state" where
  "critical msg = IS_Error msg False"

definition recoverable :: "ustr \<Rightarrow> indicator_state" where
  "recoverable msg = IS_Error msg True"

datatype delivery = Landed | Lost_Focus | Dropped

datatype input_quality = Quality_Ok | Noisy

record audio_stats =
  st_captured :: nat
  st_last_voice :: "nat option"
  st_snr_db :: "rat option"
  st_offset :: rat
  st_noise_floor :: rat
  st_speech_level :: rat

definition stats_default :: audio_stats where
  "stats_default = \<lparr>st_captured = 0, st_last_voice = None, st_snr_db = None, st_offset = 0,
     st_noise_floor = 0, st_speech_level = 0\<rparr>"

definition MIN_SNR_DB :: rat where "MIN_SNR_DB = 10"

definition input_quality_of :: "audio_stats \<Rightarrow> input_quality" where
  "input_quality_of s =
     (case st_snr_db s of Some snr \<Rightarrow> if snr < MIN_SNR_DB then Noisy else Quality_Ok | None \<Rightarrow> Quality_Ok)"

text \<open>The policy is the silence timeout, zero for never.\<close>

definition auto_stop_due :: "audio_stats \<Rightarrow> nat \<Rightarrow> bool" where
  "auto_stop_due s silence \<longleftrightarrow>
     silence > 0 \<and> st_captured s - the_default 0 (st_last_voice s) \<ge> silence"

definition completion_indicator_state ::
  "translate \<Rightarrow> ustr \<Rightarrow> delivery \<Rightarrow> input_quality \<Rightarrow> ustr option \<Rightarrow> indicator_state" where
  "completion_indicator_state tr txt d q warn =
     (if d = Dropped \<or> d = Lost_Focus \<and> trim txt = [] then recoverable (tr (lit ''Focus lost''))
      else if trim txt = [] then recoverable (tr (lit ''No speech detected''))
      else case warn of
        Some h \<Rightarrow> recoverable h
      | None \<Rightarrow>
          if q = Noisy then recoverable (tr (lit ''Background noise is high'')) else IS_Hidden)"

definition event_to_indicator ::
  "translate \<Rightarrow> orchestrator_event \<Rightarrow> dictation_state \<Rightarrow> delivery \<Rightarrow> input_quality \<Rightarrow> ustr option \<Rightarrow>
   ustr option \<Rightarrow> indicator_state option" where
  "event_to_indicator tr ev s d q fault warn =
     (case ev of
        OE_Loading \<Rightarrow> if capturing s then Some IS_Recording else None
      | OE_Ready \<Rightarrow> if capturing s then Some IS_Recording else None
      | OE_Transcribing \<Rightarrow> if capturing s then Some IS_Recording else None
      | OE_Done txt \<Rightarrow>
          Some (case fault of Some msg \<Rightarrow> critical msg | None \<Rightarrow> completion_indicator_state tr txt d q warn)
      | OE_Error code flr \<Rightarrow> Some (critical (headline flr))
      | _ \<Rightarrow> None)"

section \<open>Why an utterance ended\<close>

datatype ending = Still_Writing | Focus_Lost | Target_Gone

text \<open>The derived order of the Rust enum.\<close>

fun ending_rank :: "ending \<Rightarrow> nat" where
  "ending_rank Still_Writing = 0"
| "ending_rank Focus_Lost = 1"
| "ending_rank Target_Gone = 2"

lemma ending_rank_inject: "ending_rank a = ending_rank b \<Longrightarrow> a = b"
  by (cases a; cases b) simp_all

instantiation ending :: linorder
begin

definition less_eq_ending :: "ending \<Rightarrow> ending \<Rightarrow> bool" where
  "less_eq_ending a b \<longleftrightarrow> ending_rank a \<le> ending_rank b"

definition less_ending :: "ending \<Rightarrow> ending \<Rightarrow> bool" where
  "less_ending a b \<longleftrightarrow> ending_rank a < ending_rank b"

instance
  by standard (auto simp: less_eq_ending_def less_ending_def intro: ending_rank_inject)

end

definition writes_allowed :: "ending \<Rightarrow> bool" where
  "writes_allowed e \<longleftrightarrow> e = Still_Writing"

definition ending_delivery :: "ending \<Rightarrow> bool \<Rightarrow> delivery" where
  "ending_delivery e was_dropped =
     (if was_dropped then Dropped else if e = Focus_Lost then Lost_Focus else Landed)"

definition ending_or :: "ending \<Rightarrow> ending \<Rightarrow> ending" where
  "ending_or a b = max a b"

section \<open>The commit buffer\<close>

datatype inject_error =
    IE_SecureField | IE_NoTarget | IE_FocusLost | IE_Unavailable ustr | IE_Backend ustr

fun inject_headline :: "translate \<Rightarrow> inject_error \<Rightarrow> ustr" where
  "inject_headline tr IE_SecureField = tr (lit ''Password field skipped'')"
| "inject_headline tr IE_NoTarget = tr (lit ''No text field focused'')"
| "inject_headline tr IE_FocusLost = tr (lit ''Focus lost'')"
| "inject_headline tr (IE_Unavailable _) = tr (lit ''Typing unavailable'')"
| "inject_headline tr (IE_Backend _) = tr (lit ''Typing failed'')"

fun show_inject_error :: "inject_error \<Rightarrow> ustr" where
  "show_inject_error IE_SecureField = lit ''focused field is secure (password); refusing to inject''"
| "show_inject_error IE_NoTarget = lit ''no editable target is focused''"
| "show_inject_error IE_FocusLost = lit ''focus left the dictation target''"
| "show_inject_error (IE_Unavailable s) = lit ''injection backend unavailable: '' @ s"
| "show_inject_error (IE_Backend s) = lit ''injection backend error: '' @ s"

datatype ctrl_effect =
    Ef_Indicator indicator_state
  | Ef_LastError ustr ustr
  | Ef_Levels rat rat rat "rat option"
  | Ef_AudioDrops nat
  | Ef_Commit ustr "inject_error option"
  | Ef_Preedit ustr
  | Ef_Activated
  | Ef_Release
  | Ef_Start
  | Ef_Stop
  | Ef_Edge bool
  | Ef_Resync
  | Ef_Discard

record commit_buffer =
  buf_pending :: ustr
  committed_any :: bool
  buf_dropped :: bool

definition buffer_new :: commit_buffer where
  "buffer_new = \<lparr>buf_pending = [], committed_any = False, buf_dropped = False\<rparr>"

definition buffer_push :: "commit_buffer \<Rightarrow> ustr \<Rightarrow> commit_buffer" where
  "buffer_push b txt =
     b\<lparr>buf_pending := buf_pending b @
       (if buf_pending b \<noteq> [] \<and> \<not> ends_with_p is_whitespace (buf_pending b) \<and>
           \<not> starts_with_p is_whitespace txt then [32] else []) @ txt\<rparr>"

definition written_without_spaces :: "uchar \<Rightarrow> bool" where
  "written_without_spaces c \<longleftrightarrow>
     (0x0E00 \<le> c \<and> c \<le> 0x0E7F) \<or> (0x3000 \<le> c \<and> c \<le> 0x30FF) \<or> (0x3400 \<le> c \<and> c \<le> 0x4DBF) \<or>
     (0x4E00 \<le> c \<and> c \<le> 0x9FFF) \<or> (0xF900 \<le> c \<and> c \<le> 0xFAFF) \<or> (0xFF00 \<le> c \<and> c \<le> 0xFFEF) \<or>
     (0x20000 \<le> c \<and> c \<le> 0x2FA1F)"

text \<open>The opening brackets and the closing punctuation, by code point.\<close>

definition opens_before :: "uchar \<Rightarrow> bool" where
  "opens_before c \<longleftrightarrow> c \<in> set [40, 91, 123, 0x201C, 0x2018, 0xAB, 0xBF, 0xA1]"

definition closes_after :: "uchar \<Rightarrow> bool" where
  "closes_after c \<longleftrightarrow> c \<in> set [46, 44, 59, 58, 33, 63, 41, 93, 125, 0x2026]"

definition continues_after :: "uchar \<Rightarrow> ustr \<Rightarrow> bool" where
  "continues_after before txt =
     (case txt of
        [] \<Rightarrow> False
      | first # _ \<Rightarrow>
          \<not> is_whitespace before \<and> \<not> is_whitespace first \<and> \<not> opens_before before \<and>
          \<not> closes_after first \<and> \<not> written_without_spaces before \<and> \<not> written_without_spaces first)"

text \<open>
  \<open>flush\<close>: what the target answers to the commit and which character it sees before the cursor
  are arguments.
\<close>

definition buffer_flush ::
  "inject_error option \<Rightarrow> uchar option \<Rightarrow> bool \<Rightarrow> commit_buffer \<Rightarrow>
   commit_buffer \<times> ending \<times> ctrl_effect list" where
  "buffer_flush answer before allowed b =
     (if buf_pending b = [] then (b, Still_Writing, [])
      else if \<not> allowed then (b\<lparr>buf_pending := [], buf_dropped := True\<rparr>, Still_Writing, [])
      else
        let txt = buf_pending b;
            separate = (if committed_any b then \<not> starts_with_p is_whitespace txt
                        else (case before of Some c \<Rightarrow> continues_after c txt | None \<Rightarrow> False));
            txt' = (if separate then 32 # txt else txt);
            b' = b\<lparr>buf_pending := []\<rparr>
        in case answer of
             None \<Rightarrow> (b'\<lparr>committed_any := True\<rparr>, Still_Writing, [Ef_Commit txt' None])
           | Some IE_FocusLost \<Rightarrow>
               (b'\<lparr>buf_dropped := True\<rparr>, Focus_Lost, [Ef_Commit txt' (Some IE_FocusLost)])
           | Some e \<Rightarrow> (b', Still_Writing, [Ef_Commit txt' (Some e)]))"

section \<open>Routing one event\<close>

record utterance =
  utt_buffer :: commit_buffer
  utt_drops :: nat
  utt_fault :: "ustr option"
  utt_warning :: "(ustr \<times> ustr) option"

definition utterance_new :: utterance where
  "utterance_new = \<lparr>utt_buffer = buffer_new, utt_drops = 0, utt_fault = None, utt_warning = None\<rparr>"

fun is_final :: "orchestrator_event \<Rightarrow> bool" where
  "is_final (OE_Final _) = True"
| "is_final _ = False"

definition enter_finalizing :: "dictation_state \<Rightarrow> (dictation_state \<times> ctrl_effect list) option" where
  "enter_finalizing s =
     (if capturing s then map_option (\<lambda>s'. (s', [Ef_Indicator IS_Finalizing])) (advance s DS_Finalizing)
      else Some (s, []))"

definition ensure_finalizing :: "dictation_state \<Rightarrow> dictation_state option" where
  "ensure_finalizing s = (if capturing s then advance s DS_Finalizing else Some s)"

definition finalize_state :: "dictation_state \<Rightarrow> dictation_state \<Rightarrow> dictation_state option" where
  "finalize_state s t =
     (if t = DS_Completed then Option.bind (ensure_finalizing s) (\<lambda>s'. advance s' DS_Completed)
      else if t = DS_Cancelled \<or> t = DS_Error then advance s t
      else None)"

record route_flags =
  rf_ending :: ending
  rf_preedit :: bool
  rf_quality :: input_quality
  rf_warned :: "ustr list"

definition note_warning :: "ustr list \<Rightarrow> orchestrator_event \<Rightarrow> utterance \<Rightarrow> utterance" where
  "note_warning warned ev u =
     (case ev of
        OE_Warning code notice \<Rightarrow>
          (let key = (case code of Some c \<Rightarrow> c | None \<Rightarrow> headline notice) in
           if utt_warning u = None \<and> key \<notin> set warned
           then u\<lparr>utt_warning := Some (key, headline notice)\<rparr> else u)
      | _ \<Rightarrow> u)"

text \<open>The state move an event makes on its own, with what it shows.\<close>

definition event_state ::
  "orchestrator_event \<Rightarrow> dictation_state \<Rightarrow> (dictation_state \<times> ctrl_effect list) option" where
  "event_state ev s =
     (case ev of
        OE_Transcribing \<Rightarrow>
          (if s = DS_Recording then map_option (\<lambda>s'. (s', [])) (advance s DS_Transcribing) else Some (s, []))
      | OE_CaptureLost _ \<Rightarrow> enter_finalizing s
      | _ \<Rightarrow> Some (s, []))"

definition note_fault_of :: "orchestrator_event \<Rightarrow> utterance \<Rightarrow> utterance" where
  "note_fault_of ev u =
     (case ev of
        OE_CaptureLost lost \<Rightarrow> (if utt_fault u = None then u\<lparr>utt_fault := Some (headline lost)\<rparr> else u)
      | _ \<Rightarrow> u)"

text \<open>What follows the indicator: drop counts, buffered finals, the preedit.\<close>

definition event_output :: "orchestrator_event \<Rightarrow> bool \<Rightarrow> utterance \<Rightarrow> utterance \<times> ctrl_effect list" where
  "event_output ev show_preedit u =
     (case ev of
        OE_AudioDropped \<Rightarrow> (u\<lparr>utt_drops := utt_drops u + 1\<rparr>, [Ef_AudioDrops (utt_drops u + 1)])
      | OE_Final txt \<Rightarrow> (u\<lparr>utt_buffer := buffer_push (utt_buffer u) txt\<rparr>, [])
      | OE_Unstable txt \<Rightarrow> (u, if show_preedit then [Ef_Preedit txt] else [])
      | _ \<Rightarrow> (u, []))"

definition route_event ::
  "translate \<Rightarrow> inject_error option \<Rightarrow> uchar option \<Rightarrow> orchestrator_event \<Rightarrow> dictation_state \<Rightarrow>
   route_flags \<Rightarrow> utterance \<Rightarrow> (ending \<times> dictation_state \<times> utterance \<times> ctrl_effect list) option" where
  "route_event tr answer before ev s flags u =
     (let (b, e1, out1) =
            (if is_final ev then (utt_buffer u, Still_Writing, [])
             else buffer_flush answer before (writes_allowed (rf_ending flags)) (utt_buffer u));
          e = ending_or (rf_ending flags) e1;
          u1 = note_warning (rf_warned flags) ev (note_fault_of ev (u\<lparr>utt_buffer := b\<rparr>))
      in case event_state ev s of
           None \<Rightarrow> None
         | Some (s', out2) \<Rightarrow>
             (let out3 = (case event_to_indicator tr ev s' (ending_delivery e (buf_dropped b))
                            (rf_quality flags) (utt_fault u1) (map_option snd (utt_warning u1)) of
                            Some i \<Rightarrow> [Ef_Indicator i] | None \<Rightarrow> []);
                  (u2, out4) = event_output ev (rf_preedit flags \<and> writes_allowed e) u1
              in Some (e, s', u2, out1 @ out2 @ out3 @ out4)))"

section \<open>One utterance\<close>

text \<open>
  What the boundaries answer at one poll: the focus stream, the trigger, the stats tap
  (\<open>Some False\<close> when it closed), the session's result, its events, the live settings, and the
  target's answers.
\<close>

datatype focus_event = FocusOut | TargetGone

datatype support = Supported | Support_Unknown

datatype trigger_edge = Press | Release

record ctrl_offers =
  co_focus :: "focus_event option option"
  co_edge :: "trigger_edge option option"
  co_stats :: "bool option"
  co_result :: "(backend_error + session_outcome) option"
  co_event :: "orchestrator_event option option"
  co_heard :: audio_stats
  co_preedit :: bool
  co_silence :: nat
  co_commit :: "inject_error option"
  co_before :: "uchar option"
  co_acquire :: "inject_error option"
  co_has_tap :: bool
  co_supports_preedit :: bool
  co_secure_detection :: support

record session_vars =
  sv_ending :: ending
  sv_utt :: utterance
  sv_trigger_open :: bool
  sv_focus_open :: bool
  sv_events_open :: bool
  sv_stats_open :: bool
  sv_tap :: bool
  sv_preedit :: bool
  sv_done :: "(backend_error + session_outcome) option"

record ctrl =
  ct_state :: dictation_state
  ct_warned :: "ustr list"

datatype ctrl_stage =
    At_Idle ctrl
  | In_Utterance ctrl session_vars
  | Quit ctrl
  | Ctrl_Panic

datatype ctrl_arm =
    CA_Focus "focus_event option"
  | CA_Edge "trigger_edge option"
  | CA_Stats bool
  | CA_Result "backend_error + session_outcome"
  | CA_Event "orchestrator_event option"

definition ctrl_select :: "ctrl_offers \<Rightarrow> session_vars \<Rightarrow> ctrl_arm option" where
  "ctrl_select off v =
     (if sv_focus_open v \<and> co_focus off \<noteq> None then map_option CA_Focus (co_focus off)
      else if sv_trigger_open v \<and> sv_done v = None \<and> co_edge off \<noteq> None then map_option CA_Edge (co_edge off)
      else if sv_stats_open v \<and> sv_done v = None \<and> co_stats off \<noteq> None then map_option CA_Stats (co_stats off)
      else if sv_done v = None \<and> co_result off \<noteq> None then map_option CA_Result (co_result off)
      else if sv_events_open v then map_option CA_Event (co_event off)
      else None)"

definition heard_stats :: "ctrl_offers \<Rightarrow> session_vars \<Rightarrow> audio_stats" where
  "heard_stats off v = (if sv_tap v then co_heard off else stats_default)"

text \<open>Stop capture and show that the utterance is being finished.\<close>

definition stop_and_finalize :: "ctrl \<Rightarrow> (ctrl \<times> ctrl_effect list) option" where
  "stop_and_finalize c =
     map_option (\<lambda>(s, out). (c\<lparr>ct_state := s\<rparr>, Ef_Stop # out)) (enter_finalizing (ct_state c))"

fun take_ctrl_arm ::
  "translate \<Rightarrow> ctrl_offers \<Rightarrow> ctrl_arm \<Rightarrow> ctrl \<Rightarrow> session_vars \<Rightarrow> (ctrl \<times> session_vars \<times> ctrl_effect list) option"
where
  "take_ctrl_arm tr off (CA_Focus (Some FocusOut)) c v =
     map_option (\<lambda>(c', out). (c', v\<lparr>sv_ending := ending_or (sv_ending v) Focus_Lost, sv_trigger_open := False\<rparr>,
                              out @ [Ef_Resync])) (stop_and_finalize c)"
| "take_ctrl_arm tr off (CA_Focus (Some TargetGone)) c v =
     Some (c, v\<lparr>sv_ending := ending_or (sv_ending v) Target_Gone, sv_trigger_open := False\<rparr>, [Ef_Stop, Ef_Resync])"
| "take_ctrl_arm tr off (CA_Focus None) c v = Some (c, v\<lparr>sv_focus_open := False\<rparr>, [])"
| "take_ctrl_arm tr off (CA_Edge (Some Release)) c v =
     map_option (\<lambda>(c', out). (c', v\<lparr>sv_trigger_open := False\<rparr>, [Ef_Edge False, Ef_Activated] @ out))
       (stop_and_finalize c)"
| "take_ctrl_arm tr off (CA_Edge (Some Press)) c v = Some (c, v, [Ef_Edge True, Ef_Activated])"
| "take_ctrl_arm tr off (CA_Edge None) c v =
     map_option (\<lambda>(c', out). (c', v\<lparr>sv_trigger_open := False\<rparr>, out)) (stop_and_finalize c)"
| "take_ctrl_arm tr off (CA_Stats changed) c v =
     (if \<not> changed then Some (c, v\<lparr>sv_stats_open := False\<rparr>, [])
      else if auto_stop_due (heard_stats off v) (co_silence off)
      then map_option (\<lambda>(c', out). (c', v\<lparr>sv_trigger_open := False, sv_stats_open := False\<rparr>, out @ [Ef_Resync]))
             (stop_and_finalize c)
      else Some (c, v, []))"
| "take_ctrl_arm tr off (CA_Result r) c v = Some (c, v\<lparr>sv_done := Some r\<rparr>, [])"
| "take_ctrl_arm tr off (CA_Event (Some ev)) c v =
     map_option (\<lambda>(e, s, u, out). (c\<lparr>ct_state := s\<rparr>, v\<lparr>sv_ending := e, sv_utt := u\<rparr>, out))
       (route_event tr (co_commit off) (co_before off) ev (ct_state c)
         \<lparr>rf_ending = sv_ending v, rf_preedit = co_preedit off \<and> sv_preedit v,
          rf_quality = input_quality_of (heard_stats off v), rf_warned = ct_warned c\<rparr> (sv_utt v))"
| "take_ctrl_arm tr off (CA_Event None) c v = Some (c, v\<lparr>sv_events_open := False\<rparr>, [])"

section \<open>The end of an utterance\<close>

definition report_failure :: "ustr \<Rightarrow> ustr \<Rightarrow> ctrl_effect list" where
  "report_failure h d = [Ef_LastError h d, Ef_Indicator (critical h)]"

text \<open>\<open>Some (state, warned, effects)\<close>: the terminal disposition of a session's result.\<close>

definition dispose ::
  "translate \<Rightarrow> ending \<Rightarrow> utterance \<Rightarrow> input_quality \<Rightarrow> (backend_error + session_outcome) \<Rightarrow> ctrl \<Rightarrow>
   (ctrl \<times> ctrl_effect list) option" where
  "dispose tr e u q r c =
     (if e = Target_Gone then
        map_option (\<lambda>s. (c\<lparr>ct_state := s\<rparr>, report_failure (tr (lit ''Text field closed'')) (lit ''dictation target closed'')))
          (finalize_state (ct_state c) DS_Cancelled)
      else case r of
        Inr (Out_Completed txt) \<Rightarrow>
          Option.bind (ensure_finalizing (ct_state c)) (\<lambda>s1.
            let completion = completion_indicator_state tr txt (ending_delivery e (buf_dropped (utt_buffer u))) q
                               (map_option snd (utt_warning u));
                warned = (case utt_warning u of
                            Some (key, h) \<Rightarrow>
                              if completion = recoverable h then List.insert key (ct_warned c) else ct_warned c
                          | None \<Rightarrow> ct_warned c)
            in map_option (\<lambda>s. (c\<lparr>ct_state := s, ct_warned := warned\<rparr>, [Ef_Indicator completion]))
                 (finalize_state s1 DS_Completed))
      | Inr Out_Aborted \<Rightarrow>
          map_option (\<lambda>s. (c\<lparr>ct_state := s\<rparr>, [Ef_Resync])) (finalize_state (ct_state c) DS_Cancelled)
      | Inr (Out_Failed code flr) \<Rightarrow>
          map_option (\<lambda>s. (c\<lparr>ct_state := s\<rparr>, report_failure (headline flr) (detail flr) @ [Ef_Resync]))
            (finalize_state (ct_state c) DS_Error)
      | Inl err \<Rightarrow>
          (if backend_needs_restart err
           then map_option (\<lambda>s. (c\<lparr>ct_state := s\<rparr>, [Ef_Indicator (recoverable (backend_headline tr err)), Ef_Resync]))
                  (finalize_state (ct_state c) DS_Cancelled)
           else map_option (\<lambda>s. (c\<lparr>ct_state := s\<rparr>,
                    report_failure (backend_headline tr err) (show_backend_error err) @ [Ef_Resync]))
                  (finalize_state (ct_state c) DS_Error)))"

definition levels_effect :: "audio_stats \<Rightarrow> ctrl_effect list" where
  "levels_effect s =
     (if st_captured s > 0
      then [Ef_Levels (st_offset s) (st_noise_floor s) (st_speech_level s) (st_snr_db s)] else [])"

definition finish_utterance ::
  "translate \<Rightarrow> ctrl_offers \<Rightarrow> (backend_error + session_outcome) \<Rightarrow> ctrl \<Rightarrow> session_vars \<Rightarrow>
   ctrl_stage \<times> ctrl_effect list" where
  "finish_utterance tr off r c v =
     (let (b, e1, out1) =
            (case r of
               Inr (Out_Completed _) \<Rightarrow>
                 buffer_flush (co_commit off) (co_before off) (writes_allowed (sv_ending v)) (utt_buffer (sv_utt v))
             | _ \<Rightarrow> (utt_buffer (sv_utt v), Still_Writing, []));
          e = ending_or (sv_ending v) e1;
          u = (sv_utt v)\<lparr>utt_buffer := b\<rparr>;
          heard = heard_stats off v;
          out2 = out1 @ [Ef_Release] @ levels_effect heard
      in case dispose tr e u (input_quality_of heard) r c of
           None \<Rightarrow> (Ctrl_Panic, out2)
         | Some (c', out3) \<Rightarrow>
             (case advance (ct_state c') DS_Idle of
                None \<Rightarrow> (Ctrl_Panic, out2 @ out3)
              | Some s \<Rightarrow> (At_Idle (c'\<lparr>ct_state := s\<rparr>), out2 @ out3 @ [Ef_Discard])))"

text \<open>The head of the loop: leave it once the session has its result and its events are drained.\<close>

definition utterance_head ::
  "translate \<Rightarrow> ctrl_offers \<Rightarrow> ctrl \<Rightarrow> session_vars \<Rightarrow> ctrl_stage \<times> ctrl_effect list" where
  "utterance_head tr off c v =
     (case (sv_events_open v, sv_done v) of
        (False, Some r) \<Rightarrow> finish_utterance tr off r c v
      | _ \<Rightarrow> (In_Utterance c v, []))"

definition poll_utterance ::
  "translate \<Rightarrow> ctrl_offers \<Rightarrow> ctrl \<Rightarrow> session_vars \<Rightarrow> ctrl_stage \<times> ctrl_effect list" where
  "poll_utterance tr off c v =
     (case ctrl_select off v of
        None \<Rightarrow> (In_Utterance c v, [])
      | Some a \<Rightarrow>
          (case take_ctrl_arm tr off a c v of
             None \<Rightarrow> (Ctrl_Panic, [])
           | Some (c', v', out) \<Rightarrow> (let (st, out') = utterance_head tr off c' v' in (st, out @ out'))))"

text \<open>A press: acquire the target, start the session, or abort before any capture.\<close>

definition abort_before_capture :: "translate \<Rightarrow> inject_error \<Rightarrow> ctrl \<Rightarrow> ctrl_stage \<times> ctrl_effect list" where
  "abort_before_capture tr err c =
     (let out = report_failure (inject_headline tr err) (show_inject_error err) in
      case Option.bind (advance (ct_state c) DS_Error) (\<lambda>s. advance s DS_Idle) of
        None \<Rightarrow> (Ctrl_Panic, out)
      | Some s \<Rightarrow> (At_Idle (c\<lparr>ct_state := s\<rparr>), out @ [Ef_Resync]))"

fun dictates_into :: "support \<Rightarrow> bool" where
  "dictates_into Supported = True"
| "dictates_into Support_Unknown = True"

definition start_utterance :: "translate \<Rightarrow> ctrl_offers \<Rightarrow> ctrl \<Rightarrow> ctrl_stage \<times> ctrl_effect list" where
  "start_utterance tr off c =
     (case advance (ct_state c) DS_Starting of
        None \<Rightarrow> (Ctrl_Panic, [])
      | Some s0 \<Rightarrow>
          (if \<not> dictates_into (co_secure_detection off)
           then abort_before_capture tr IE_SecureField (c\<lparr>ct_state := s0\<rparr>)
           else case co_acquire off of
             Some err \<Rightarrow> abort_before_capture tr err (c\<lparr>ct_state := s0\<rparr>)
           | None \<Rightarrow>
               (case advance s0 DS_Recording of
                  None \<Rightarrow> (Ctrl_Panic, [Ef_Start])
                | Some s1 \<Rightarrow>
                    (In_Utterance (c\<lparr>ct_state := s1\<rparr>)
                       \<lparr>sv_ending = Still_Writing, sv_utt = utterance_new, sv_trigger_open = True,
                        sv_focus_open = True, sv_events_open = True, sv_stats_open = co_has_tap off,
                        sv_tap = co_has_tap off, sv_preedit = co_supports_preedit off, sv_done = None\<rparr>,
                     [Ef_Start, Ef_Indicator IS_Recording]))))"

fun controller_step :: "translate \<Rightarrow> ctrl_stage \<Rightarrow> ctrl_offers \<Rightarrow> ctrl_stage \<times> ctrl_effect list" where
  "controller_step tr (At_Idle c) off =
     (case co_edge off of
        None \<Rightarrow> (At_Idle c, [])
      | Some None \<Rightarrow> (Quit c, [])
      | Some (Some Release) \<Rightarrow> (At_Idle c, [Ef_Edge False])
      | Some (Some Press) \<Rightarrow> (let (st, out) = start_utterance tr off c in (st, Ef_Edge True # out)))"
| "controller_step tr (In_Utterance c v) off = poll_utterance tr off c v"
| "controller_step tr (Quit c) off = (Quit c, [])"
| "controller_step tr Ctrl_Panic off = (Ctrl_Panic, [])"

definition controller_new :: ctrl_stage where
  "controller_new = At_Idle \<lparr>ct_state = DS_Idle, ct_warned = []\<rparr>"

abbreviation controller_run :: "translate \<Rightarrow> ctrl_offers list \<Rightarrow> ctrl_stage \<times> ctrl_effect list" where
  "controller_run tr offs \<equiv> run_machine (controller_step tr) controller_new offs"

section \<open>One poll of the controller\<close>

lemma dictates_into_any [simp]: "dictates_into s"
  by (cases s) simp_all

lemma ending_or_simps [simp]:
  "ending_or Still_Writing e = e" "ending_or e Still_Writing = e"
  "ending_or a b = Still_Writing \<longleftrightarrow> a = Still_Writing \<and> b = Still_Writing"
  by (cases a; cases b; cases e; simp add: ending_or_def max_def less_eq_ending_def)+

definition live :: "dictation_state \<Rightarrow> bool" where
  "live s \<longleftrightarrow> capturing s \<or> s = DS_Finalizing"

lemma live_simps [simp]: "live DS_Recording" "live DS_Transcribing" "live DS_Finalizing"
  by (simp_all add: live_def capturing_def)

lemma live_cases:
  assumes "live s"
  obtains "s = DS_Recording" | "s = DS_Transcribing" | "s = DS_Finalizing"
  using assms by (auto simp: live_def capturing_def)

fun is_write :: "ctrl_effect \<Rightarrow> bool" where
  "is_write (Ef_Commit _ _) = True"
| "is_write (Ef_Preedit _) = True"
| "is_write _ = False"

fun committed_text :: "ctrl_effect \<Rightarrow> ustr option" where
  "committed_text (Ef_Commit t _) = Some t"
| "committed_text _ = None"

text \<open>Effects that touch neither the field nor the trigger nor the session.\<close>

fun is_quiet :: "ctrl_effect \<Rightarrow> bool" where
  "is_quiet (Ef_Indicator _) = True"
| "is_quiet (Ef_LastError _ _) = True"
| "is_quiet (Ef_Levels _ _ _ _) = True"
| "is_quiet (Ef_AudioDrops _) = True"
| "is_quiet Ef_Activated = True"
| "is_quiet Ef_Stop = True"
| "is_quiet Ef_Discard = True"
| "is_quiet _ = False"

lemma enter_finalizing_live:
  "live s \<Longrightarrow> \<exists>out. enter_finalizing s = Some (DS_Finalizing, out) \<and> list_all is_quiet out"
  by (elim live_cases) (simp_all add: enter_finalizing_def advance_def capturing_def)

lemma event_state_live:
  assumes "live s"
  shows "\<exists>s' out. event_state ev s = Some (s', out) \<and> live s' \<and> list_all is_quiet out"
  using assms enter_finalizing_live [OF assms]
  by (cases ev) (auto simp: event_state_def advance_def)

lemma stop_and_finalize_live:
  "live (ct_state c) \<Longrightarrow>
   \<exists>out. stop_and_finalize c = Some (c\<lparr>ct_state := DS_Finalizing\<rparr>, out) \<and> list_all is_quiet out"
  using enter_finalizing_live [of "ct_state c"] by (auto simp: stop_and_finalize_def)

text \<open>What a flush does: it hands the pending text over, drops it, or has nothing to do.\<close>

lemma buffer_flush_cases:
  obtains (nothing) "buf_pending b = []" "buffer_flush ans before allowed b = (b, Still_Writing, [])"
    | (discard) "buf_pending b \<noteq> []" "\<not> allowed"
        "buffer_flush ans before allowed b = (b\<lparr>buf_pending := [], buf_dropped := True\<rparr>, Still_Writing, [])"
    | (handed) sep b' e where "buf_pending b \<noteq> []" "allowed" "sep = [] \<or> sep = [32]"
        "buffer_flush ans before allowed b = (b', e, [Ef_Commit (sep @ buf_pending b) ans])"
        "buf_pending b' = []" "e = (if ans = Some IE_FocusLost then Focus_Lost else Still_Writing)"
        "buf_dropped b' = (buf_dropped b \<or> ans = Some IE_FocusLost)"
proof (cases "buf_pending b = []")
  case True
  with that(1) show thesis by (simp add: buffer_flush_def)
next
  case ne: False
  show thesis
  proof (cases allowed)
    case False
    with ne that(2) show thesis by (simp add: buffer_flush_def)
  next
    case True
    define separate where "separate = (if committed_any b then \<not> starts_with_p is_whitespace (buf_pending b)
      else (case before of Some c \<Rightarrow> continues_after c (buf_pending b) | None \<Rightarrow> False))"
    define sep :: ustr where "sep = (if separate then [32] else [])"
    have eq_sep: "(if separate then 32 # buf_pending b else buf_pending b) = sep @ buf_pending b"
      by (simp add: sep_def)
    have "buffer_flush ans before allowed b =
        (case ans of
           None \<Rightarrow> (b\<lparr>buf_pending := [], committed_any := True\<rparr>, Still_Writing, [Ef_Commit (sep @ buf_pending b) None])
         | Some IE_FocusLost \<Rightarrow>
             (b\<lparr>buf_pending := [], buf_dropped := True\<rparr>, Focus_Lost, [Ef_Commit (sep @ buf_pending b) (Some IE_FocusLost)])
         | Some e \<Rightarrow> (b\<lparr>buf_pending := []\<rparr>, Still_Writing, [Ef_Commit (sep @ buf_pending b) (Some e)]))"
      using ne True unfolding buffer_flush_def Let_def separate_def [symmetric] eq_sep by simp
    with ne True that(3) [of sep] show thesis
      by (cases ans; cases "the ans") (auto simp: sep_def)
  qed
qed

text \<open>
  What routing an event does, once the flush is described: the state stays live, the only writes
  are the flush and a preedit, both only while writing is allowed.
\<close>

lemma note_fields [simp]:
  "utt_buffer (note_warning w ev u) = utt_buffer u" "utt_buffer (note_fault_of ev u) = utt_buffer u"
  by (simp_all add: note_warning_def note_fault_of_def Let_def split: orchestrator_event.split)

lemma event_output_cases:
  obtains (final) t where "ev = OE_Final t"
        "event_output ev sp u = (u\<lparr>utt_buffer := buffer_push (utt_buffer u) t\<rparr>, [])"
    | (preedit) t where "ev = OE_Unstable t" "sp" "event_output ev sp u = (u, [Ef_Preedit t])"
    | (other) u' out where "\<not> is_final ev" "event_output ev sp u = (u', out)" "utt_buffer u' = utt_buffer u"
        "list_all is_quiet out"
  by (cases ev; cases sp) (auto simp: event_output_def)

lemma route_event_live:
  assumes "live s"
  obtains (final) t s' u' where "ev = OE_Final t"
        "route_event tr ans before ev s fl u = Some (rf_ending fl, s', u', [])"
        "utt_buffer u' = buffer_push (utt_buffer u) t" "live s'"
    | (flush) b e1 out1 s' u' out2 pre where "\<not> is_final ev"
        "buffer_flush ans before (writes_allowed (rf_ending fl)) (utt_buffer u) = (b, e1, out1)"
        "route_event tr ans before ev s fl u = Some (ending_or (rf_ending fl) e1, s', u', out1 @ out2 @ pre)"
        "utt_buffer u' = b" "live s'" "list_all is_quiet out2"
        "pre = [] \<or> writes_allowed (ending_or (rf_ending fl) e1) \<and> (\<exists>t. pre = [Ef_Preedit t])"
proof (cases "is_final ev")
  case True
  then obtain t where ev: "ev = OE_Final t" by (cases ev) auto
  with assms that(1) show thesis
    by (simp add: route_event_def event_state_def event_to_indicator_def event_output_def)
next
  case False
  obtain b e1 out1 where fl: "buffer_flush ans before (writes_allowed (rf_ending fl)) (utt_buffer u) = (b, e1, out1)"
    by (cases "buffer_flush ans before (writes_allowed (rf_ending fl)) (utt_buffer u)") auto
  obtain s' out where s': "event_state ev s = Some (s', out)" "live s'" "list_all is_quiet out"
    using event_state_live [OF assms] by blast
  define u1 where "u1 = note_warning (rf_warned fl) ev (note_fault_of ev (u\<lparr>utt_buffer := b\<rparr>))"
  define ind where "ind = (case event_to_indicator tr ev s' (ending_delivery (ending_or (rf_ending fl) e1) (buf_dropped b))
      (rf_quality fl) (utt_fault u1) (map_option snd (utt_warning u1)) of
        Some i \<Rightarrow> [Ef_Indicator i] | None \<Rightarrow> [])"
  have ind: "list_all is_quiet ind" by (simp add: ind_def split: option.split)
  have b: "utt_buffer u1 = b" by (simp add: u1_def)
  obtain u2 out4 where o: "event_output ev (rf_preedit fl \<and> writes_allowed (ending_or (rf_ending fl) e1)) u1 = (u2, out4)"
    by (cases "event_output ev (rf_preedit fl \<and> writes_allowed (ending_or (rf_ending fl) e1)) u1") auto
  have eq: "route_event tr ans before ev s fl u = Some (ending_or (rf_ending fl) e1, s', u2, out1 @ out @ ind @ out4)"
    using False by (simp add: route_event_def fl s'(1) o ind_def u1_def [symmetric] Let_def)
  show thesis
  proof (cases rule: event_output_cases [of ev "rf_preedit fl \<and> writes_allowed (ending_or (rf_ending fl) e1)" u1])
    case (final t)
    with False show thesis by simp
  next
    case (preedit t)
    with o b eq s' ind fl False show thesis
      by (intro that(2) [of b e1 out1 s' u2 "out @ ind" out4]) auto
  next
    case (other u' out')
    with o b eq s' ind fl False show thesis
      by (intro that(2) [of b e1 out1 s' u2 "out @ ind @ out4" "[]"]) auto
  qed
qed

text \<open>Every arm, by what it does to the utterance.\<close>

lemma arm_cases:
  assumes "live (ct_state c)"
  obtains (focus) fe c' v' out where "a = CA_Focus (Some fe)"
        "take_ctrl_arm tr off a c v = Some (c', v', out @ [Ef_Resync])" "list_all is_quiet out" "live (ct_state c')"
        "sv_utt v' = sv_utt v" "\<not> sv_trigger_open v'" "sv_ending v' \<noteq> Still_Writing"
        "sv_events_open v' = sv_events_open v" "sv_done v' = sv_done v"
    | (plain) v' where "take_ctrl_arm tr off a c v = Some (c, v', [])" "sv_utt v' = sv_utt v"
        "sv_trigger_open v' = sv_trigger_open v" "sv_ending v' = sv_ending v"
        "\<forall>ev. a \<noteq> CA_Event (Some ev)" "sv_done v' = sv_done v \<or> (\<exists>r. a = CA_Result r \<and> sv_done v' = Some r)"
        "\<forall>fe. a \<noteq> CA_Focus (Some fe)"
    | (release) c' v' out where "take_ctrl_arm tr off a c v = Some (c', v', Ef_Edge False # out)"
        "list_all is_quiet out" "live (ct_state c')" "sv_utt v' = sv_utt v" "\<not> sv_trigger_open v'"
        "sv_ending v' = sv_ending v" "sv_events_open v' = sv_events_open v" "sv_done v' = sv_done v"
        "a = CA_Edge (Some Release)"
    | (press) "take_ctrl_arm tr off a c v = Some (c, v, [Ef_Edge True, Ef_Activated])" "a = CA_Edge (Some Press)"
    | (over) c' v' out where "a = CA_Edge None" "take_ctrl_arm tr off a c v = Some (c', v', out)"
        "list_all is_quiet out" "live (ct_state c')" "sv_utt v' = sv_utt v" "\<not> sv_trigger_open v'"
        "sv_ending v' = sv_ending v" "sv_events_open v' = sv_events_open v" "sv_done v' = sv_done v"
    | (silence) c' v' out where "take_ctrl_arm tr off a c v = Some (c', v', out @ [Ef_Resync])"
        "list_all is_quiet out" "live (ct_state c')" "sv_utt v' = sv_utt v" "\<not> sv_trigger_open v'"
        "sv_ending v' = sv_ending v" "sv_events_open v' = sv_events_open v" "sv_done v' = sv_done v"
        "\<exists>b. a = CA_Stats b"
    | (event) ev e s u out v' where "a = CA_Event (Some ev)"
        "route_event tr (co_commit off) (co_before off) ev (ct_state c)
           \<lparr>rf_ending = sv_ending v, rf_preedit = co_preedit off \<and> sv_preedit v,
            rf_quality = input_quality_of (heard_stats off v), rf_warned = ct_warned c\<rparr> (sv_utt v) =
           Some (e, s, u, out)"
        "take_ctrl_arm tr off a c v = Some (c\<lparr>ct_state := s\<rparr>, v', out)"
        "v' = v\<lparr>sv_ending := e, sv_utt := u\<rparr>" "live s"
proof -
  obtain sf where sf: "stop_and_finalize c = Some (c\<lparr>ct_state := DS_Finalizing\<rparr>, sf)" "list_all is_quiet sf"
    using stop_and_finalize_live [OF assms] by blast
  show thesis
  proof (cases "(tr, off, a, c, v)" rule: take_ctrl_arm.cases)
    case (1 tr off c v)
    with sf that(1) [of FocusOut] show thesis by simp
  next
    case (2 tr off c v)
    with assms that(1) [of TargetGone c _ "[Ef_Stop]"] show thesis by simp
  next
    case (3 tr off c v)
    with that(2) show thesis by simp
  next
    case (4 tr off c v)
    with sf that(3) show thesis by simp
  next
    case (5 tr off c v)
    with that(4) show thesis by simp
  next
    case (6 tr off c v)
    with sf that(5) show thesis by simp
  next
    case (7 tr' off' b c' v')
    show thesis
    proof (cases "b \<and> auto_stop_due (heard_stats off v) (co_silence off)")
      case True
      have "take_ctrl_arm tr off a c v = Some (c\<lparr>ct_state := DS_Finalizing\<rparr>,
          v\<lparr>sv_trigger_open := False, sv_stats_open := False\<rparr>, sf @ [Ef_Resync])"
        using 7 True sf(1) by simp
      from that(6) [OF this] sf(2) 7 show thesis by simp
    next
      case False
      have "take_ctrl_arm tr off a c v = Some (c, if b then v else v\<lparr>sv_stats_open := False\<rparr>, [])"
        using 7 False by simp
      from that(2) [OF this] 7 show thesis by simp
    qed
  next
    case (8 tr off r c v)
    with that(2) show thesis by simp
  next
    case (9 tr' off' ev c' v')
    then have a: "a = CA_Event (Some ev)" by simp
    let ?fl = "\<lparr>rf_ending = sv_ending v, rf_preedit = co_preedit off \<and> sv_preedit v,
            rf_quality = input_quality_of (heard_stats off v), rf_warned = ct_warned c\<rparr>"
    have "\<exists>e s u out. route_event tr (co_commit off) (co_before off) ev (ct_state c) ?fl (sv_utt v) =
        Some (e, s, u, out) \<and> live s"
      using assms by (cases rule: route_event_live [of "ct_state c" ev tr "co_commit off" "co_before off" ?fl "sv_utt v"]) auto
    with that(7) [OF a] a show thesis by auto
  next
    case (10 tr off c v)
    with that(2) show thesis by simp
  qed
qed

lemma finalize_live:
  assumes "live s"
  shows "finalize_state s DS_Completed = Some DS_Completed" "finalize_state s DS_Cancelled = Some DS_Cancelled"
    "finalize_state s DS_Error = Some DS_Error" "ensure_finalizing s = Some DS_Finalizing"
  using assms
  by (elim live_cases; simp add: finalize_state_def ensure_finalizing_def advance_def capturing_def)+

text \<open>The effects that end an utterance: nothing is written, the trigger is at most resynced.\<close>

lemma dispose_live:
  assumes "live (ct_state c)"
  obtains c' out sync where "dispose tr e u q r c = Some (c', out @ sync)"
    "advance (ct_state c') DS_Idle = Some DS_Idle" "list_all is_quiet out" "sync = [] \<or> sync = [Ef_Resync]"
    "e \<noteq> Target_Gone \<and> sync = [] \<longrightarrow> (\<exists>t. r = Inr (Out_Completed t))"
proof (cases "e = Target_Gone")
  case True
  with assms that [of _ _ "[]"] show thesis
    by (simp add: dispose_def finalize_live advance_def report_failure_def)
next
  case False
  show thesis
  proof (cases r)
    case (Inl err)
    with False assms that [of _ _ "[Ef_Resync]"] show thesis
      by (cases "backend_needs_restart err")
        (auto simp: dispose_def finalize_live advance_def report_failure_def)
  next
    case (Inr res)
    show thesis
    proof (cases res)
      case (Out_Completed t)
      with Inr False assms that [of _ _ "[]"] show thesis
        by (simp add: dispose_def finalize_live advance_def Let_def)
    next
      case (Out_Failed code flr)
      with Inr False assms that [of _ _ "[Ef_Resync]"] show thesis
        by (simp add: dispose_def finalize_live advance_def report_failure_def)
    next
      case Out_Aborted
      with Inr False assms that [of _ _ "[Ef_Resync]"] show thesis
        by (simp add: dispose_def finalize_live advance_def)
    qed
  qed
qed

text \<open>The end of an utterance: a last flush when it completed, the release, then the disposition.\<close>

lemma finish_cases:
  assumes "live (ct_state c)"
  obtains b e1 out1 c' out2 sync where
    "finish_utterance tr off r c v = (At_Idle c', out1 @ Ef_Release # out2 @ sync @ [Ef_Discard])"
    "ct_state c' = DS_Idle" "list_all is_quiet out2" "sync = [] \<or> sync = [Ef_Resync]"
    "ending_or (sv_ending v) e1 \<noteq> Target_Gone \<and> sync = [] \<longrightarrow> (\<exists>t. r = Inr (Out_Completed t))"
    "(\<exists>t. r = Inr (Out_Completed t)) \<and>
       buffer_flush (co_commit off) (co_before off) (writes_allowed (sv_ending v)) (utt_buffer (sv_utt v)) = (b, e1, out1) \<or>
     (\<forall>t. r \<noteq> Inr (Out_Completed t)) \<and> out1 = [] \<and> e1 = Still_Writing"
proof -
  obtain b e1 out1 where last:
    "(case r of
        Inr (Out_Completed _) \<Rightarrow>
          buffer_flush (co_commit off) (co_before off) (writes_allowed (sv_ending v)) (utt_buffer (sv_utt v))
      | _ \<Rightarrow> (utt_buffer (sv_utt v), Still_Writing, [])) = (b, e1, out1)"
    by (metis prod_cases3)
  let ?u = "(sv_utt v)\<lparr>utt_buffer := b\<rparr>" and ?heard = "heard_stats off v"
  obtain c' out sync where d:
    "dispose tr (ending_or (sv_ending v) e1) ?u (input_quality_of ?heard) r c = Some (c', out @ sync)"
    "advance (ct_state c') DS_Idle = Some DS_Idle" "list_all is_quiet out" "sync = [] \<or> sync = [Ef_Resync]"
    "ending_or (sv_ending v) e1 \<noteq> Target_Gone \<and> sync = [] \<longrightarrow> (\<exists>t. r = Inr (Out_Completed t))"
    by (rule dispose_live [OF assms])
  have "finish_utterance tr off r c v =
      (At_Idle (c'\<lparr>ct_state := DS_Idle\<rparr>), out1 @ Ef_Release # (levels_effect ?heard @ out) @ sync @ [Ef_Discard])"
    unfolding finish_utterance_def last by (simp add: Let_def d)
  moreover have "list_all is_quiet (levels_effect ?heard @ out)"
    using d(3) by (simp add: levels_effect_def)
  moreover have "(\<exists>t. r = Inr (Out_Completed t)) \<and>
       buffer_flush (co_commit off) (co_before off) (writes_allowed (sv_ending v)) (utt_buffer (sv_utt v)) = (b, e1, out1) \<or>
     (\<forall>t. r \<noteq> Inr (Out_Completed t)) \<and> out1 = [] \<and> e1 = Still_Writing"
    using last by (auto split: sum.splits session_outcome.splits)
  ultimately show thesis using that [OF _ _ _ d(4,5)] by simp
qed

fun ctrl_ok :: "ctrl_stage \<Rightarrow> bool" where
  "ctrl_ok (At_Idle c) \<longleftrightarrow> ct_state c = DS_Idle"
| "ctrl_ok (In_Utterance c v) \<longleftrightarrow> live (ct_state c) \<and> (sv_events_open v \<or> sv_done v = None)"
| "ctrl_ok (Quit c) \<longleftrightarrow> ct_state c = DS_Idle"
| "ctrl_ok Ctrl_Panic \<longleftrightarrow> False"

text \<open>A poll of an utterance stays in it, or ends it right after an arm that changed nothing else.\<close>

lemma poll_cases:
  assumes "ctrl_ok (In_Utterance c v)"
  obtains (wait) "ctrl_select off v = None" "poll_utterance tr off c v = (In_Utterance c v, [])"
    | (stay) a c' v' out where "ctrl_select off v = Some a" "take_ctrl_arm tr off a c v = Some (c', v', out)"
        "ctrl_ok (In_Utterance c' v')" "poll_utterance tr off c v = (In_Utterance c' v', out)"
    | (leave) a v' r where "ctrl_select off v = Some a" "\<forall>ev. a \<noteq> CA_Event (Some ev)"
        "sv_utt v' = sv_utt v" "sv_trigger_open v' = sv_trigger_open v" "sv_ending v' = sv_ending v"
        "sv_done v = Some r \<or> a = CA_Result r" "poll_utterance tr off c v = finish_utterance tr off r c v'"
proof (cases "ctrl_select off v")
  case None
  with that(1) show thesis by (simp add: poll_utterance_def)
next
  case (Some a)
  have lv: "live (ct_state c)" and loop: "sv_events_open v \<or> sv_done v = None" using assms by simp_all
  have stay: thesis if "take_ctrl_arm tr off a c v = Some (c', v', out)" "live (ct_state c')"
    "sv_events_open v' \<or> sv_done v' = None" for c' v' out
  proof -
    have "utterance_head tr off c' v' = (In_Utterance c' v', [])"
      using that(3) by (cases "sv_done v'") (auto simp: utterance_head_def split: bool.split)
    with that \<open>\<And>a c' v' out. \<lbrakk>ctrl_select off v = Some a; take_ctrl_arm tr off a c v = Some (c', v', out);
        ctrl_ok (In_Utterance c' v'); poll_utterance tr off c v = (In_Utterance c' v', out)\<rbrakk> \<Longrightarrow> thesis\<close> Some
    show thesis by (simp add: poll_utterance_def)
  qed
  from lv show thesis
  proof (cases rule: arm_cases [of c a tr off v])
    case (plain v')
    show thesis
    proof (cases "sv_events_open v' \<or> sv_done v' = None")
      case True
      with plain lv stay show thesis by blast
    next
      case False
      then obtain r where r: "sv_done v' = Some r" "\<not> sv_events_open v'" by auto
      then have "utterance_head tr off c v' = finish_utterance tr off r c v'"
        by (simp add: utterance_head_def)
      then have "poll_utterance tr off c v = finish_utterance tr off r c v'"
        using Some plain(1) by (simp add: poll_utterance_def split_beta)
      with Some plain r show thesis by (intro that(3) [of a v' r]) auto
    qed
  next
    case (event ev e s u out v')
    with stay [OF event(3)] loop show thesis by simp
  qed (use stay lv loop in auto)
qed

lemma finish_ok: "live (ct_state c) \<Longrightarrow> ctrl_ok (fst (finish_utterance tr off r c v))"
  by (erule finish_cases [of c tr off r v]) simp

lemma start_cases:
  assumes "ct_state c = DS_Idle"
  obtains (started) c' v' where "start_utterance tr off c = (In_Utterance c' v', [Ef_Start, Ef_Indicator IS_Recording])"
        "ct_state c' = DS_Recording" "sv_ending v' = Still_Writing" "sv_utt v' = utterance_new"
        "sv_trigger_open v'" "sv_events_open v'" "sv_done v' = None" "sv_focus_open v'" "co_acquire off = None"
    | (refused) c' err where "start_utterance tr off c = (At_Idle c', report_failure (inject_headline tr err) (show_inject_error err) @ [Ef_Resync])"
        "ct_state c' = DS_Idle" "co_acquire off = Some err"
  using assms that
  by (cases "co_acquire off") (auto simp: start_utterance_def abort_before_capture_def advance_def)

interpretation ctl: machine "controller_step tr" ctrl_ok for tr
proof
  fix st off assume ok: "ctrl_ok st"
  show "ctrl_ok (fst (controller_step tr st off))"
  proof (cases st)
    case (At_Idle c)
    with ok have c: "ct_state c = DS_Idle" by simp
    show ?thesis
    proof (cases "co_edge off = Some (Some Press)")
      case True
      with c At_Idle show ?thesis
        by (cases rule: start_cases [of c tr off]) (auto simp: split_beta)
    next
      case False
      with c At_Idle show ?thesis by (auto split: option.splits trigger_edge.splits)
    qed
  next
    case (In_Utterance c v)
    with ok have "ctrl_ok (In_Utterance c v)" by simp
    then show ?thesis
      by (cases rule: poll_cases [of c v off tr]) (use In_Utterance ok finish_ok in auto)
  qed (use ok in auto)
qed

lemma controller_new_ok: "ctrl_ok controller_new"
  by (simp add: controller_new_def)

section \<open>Writes\<close>

lemma quiet_facts:
  "list_all is_quiet xs \<Longrightarrow> filter is_write xs = [] \<and> Ef_Start \<notin> set xs \<and> Ef_Release \<notin> set xs \<and>
     filter_map committed_text xs = []"
proof (induction xs)
  case (Cons x xs)
  then show ?case by (cases x) auto
qed simp

lemma flush_closed:
  "\<not> allowed \<Longrightarrow> buffer_flush ans before allowed b = (b', e1, out) \<Longrightarrow> out = [] \<and> e1 = Still_Writing"
  by (cases rule: buffer_flush_cases [of b ans before allowed]) auto

text \<open>Once an utterance has lost its target, it writes nothing more.\<close>

fun lost :: "ctrl_stage \<Rightarrow> bool" where
  "lost (In_Utterance c v) \<longleftrightarrow> sv_ending v \<noteq> Still_Writing"
| "lost _ \<longleftrightarrow> True"

lemma arm_lost:
  assumes "live (ct_state c)" and "take_ctrl_arm tr off a c v = Some (c', v', out)"
    and "sv_ending v \<noteq> Still_Writing"
  shows "filter is_write out = [] \<and> Ef_Start \<notin> set out \<and> sv_ending v' \<noteq> Still_Writing"
  using assms(1)
proof (cases rule: arm_cases [of c a tr off v])
  case (event ev e s u out' w)
  let ?fl = "\<lparr>rf_ending = sv_ending v, rf_preedit = co_preedit off \<and> sv_preedit v,
            rf_quality = input_quality_of (heard_stats off v), rf_warned = ct_warned c\<rparr>"
  have na: "\<not> writes_allowed (rf_ending ?fl)" using assms(3) by (simp add: writes_allowed_def)
  from assms(1) have "filter is_write out' = [] \<and> Ef_Start \<notin> set out' \<and> e \<noteq> Still_Writing"
  proof (cases rule: route_event_live [of "ct_state c" ev tr "co_commit off" "co_before off" ?fl "sv_utt v"])
    case (final t s' u')
    with event(2) assms(3) show ?thesis by simp
  next
    case (flush b e1 out1 s' u' out2 pre)
    from flush_closed [OF na flush(2)] flush(3,6,7) event(2) assms(3) na quiet_facts [of out2] show ?thesis
      by (auto simp: writes_allowed_def)
  qed
  with event assms(2) show ?thesis by auto
qed (use assms quiet_facts in auto)

lemma finish_writes:
  assumes "live (ct_state c)"
  shows "Ef_Start \<notin> set (snd (finish_utterance tr off r c v)) \<and>
    (sv_ending v \<noteq> Still_Writing \<longrightarrow> filter is_write (snd (finish_utterance tr off r c v)) = [])"
proof -
  have flush: "Ef_Start \<notin> set out1 \<and> (\<not> allowed \<longrightarrow> out1 = [])"
    if "buffer_flush ans before allowed b0 = (b, e1, out1)" for ans before allowed b0 b e1 out1
    using that by (cases rule: buffer_flush_cases [of b0 ans before allowed]) auto
  show ?thesis
  proof (rule finish_cases [OF assms, of tr off r v])
    fix b e1 out1 c' out2 sync
    assume eq: "finish_utterance tr off r c v = (At_Idle c', out1 @ Ef_Release # out2 @ sync @ [Ef_Discard])"
      and q: "list_all is_quiet out2" "sync = [] \<or> sync = [Ef_Resync]"
      and l: "(\<exists>t. r = Inr (Out_Completed t)) \<and>
        buffer_flush (co_commit off) (co_before off) (writes_allowed (sv_ending v)) (utt_buffer (sv_utt v)) = (b, e1, out1) \<or>
        (\<forall>t. r \<noteq> Inr (Out_Completed t)) \<and> out1 = [] \<and> e1 = Still_Writing"
    from l have "Ef_Start \<notin> set out1 \<and> (sv_ending v \<noteq> Still_Writing \<longrightarrow> out1 = [])"
      using flush by (auto simp: writes_allowed_def)
    with q quiet_facts [OF q(1)] show ?thesis unfolding eq by auto
  qed
qed

lemma step_lost:
  assumes "ctrl_ok st" and "lost st" and "Ef_Start \<notin> set (snd (controller_step tr st off))"
  shows "filter is_write (snd (controller_step tr st off)) = [] \<and> lost (fst (controller_step tr st off))"
proof (cases st)
  case (At_Idle c)
  with assms(1) have c: "ct_state c = DS_Idle" by simp
  show ?thesis
  proof (cases "co_edge off = Some (Some Press)")
    case True
    with c At_Idle assms(3) show ?thesis
      by (cases rule: start_cases [of c tr off]) (auto simp: split_beta report_failure_def)
  next
    case False
    with c At_Idle show ?thesis by (auto split: option.splits trigger_edge.splits)
  qed
next
  case (In_Utterance c v)
  with assms have ok: "ctrl_ok (In_Utterance c v)" and lv: "live (ct_state c)" and e: "sv_ending v \<noteq> Still_Writing"
    by simp_all
  from ok show ?thesis
  proof (cases rule: poll_cases [of c v off tr])
    case (stay a c' v' out)
    with arm_lost [OF lv stay(2) e] In_Utterance show ?thesis by simp
  next
    case (leave a v' r)
    have "lost (fst (finish_utterance tr off r c v'))"
      by (rule finish_cases [OF lv, of tr off r v']) simp
    with finish_writes [OF lv, of tr off r v'] leave e In_Utterance show ?thesis by simp
  qed (use In_Utterance e in simp)
qed (use assms in auto)

lemma run_lost:
  assumes "ctrl_ok st" and "lost st" and "Ef_Start \<notin> set (snd (run_machine (controller_step tr) st offs))"
  shows "filter is_write (snd (run_machine (controller_step tr) st offs)) = []"
  using assms
proof (induction offs arbitrary: st)
  case (Cons off offs)
  then have s: "filter is_write (snd (controller_step tr st off)) = []" "lost (fst (controller_step tr st off))"
    using step_lost [of st tr off] by auto
  have "filter is_write (snd (run_machine (controller_step tr) (fst (controller_step tr st off)) offs)) = []"
    using Cons.prems by (intro Cons.IH [OF ctl.step_inv [OF Cons.prems(1)] s(2)]) simp
  with s(1) show ?case by simp
qed simp

section \<open>The text of an utterance\<close>

definition bare :: "ustr \<Rightarrow> ustr" where
  "bare s = filter (\<lambda>c. \<not> is_whitespace c) s"

lemma bare_append [simp]: "bare (s @ t) = bare s @ bare t"
  by (simp add: bare_def)

lemma bare_sep [simp]: "bare (32 # s) = bare s" "bare [] = []"
  by (simp_all add: bare_def is_whitespace_def)

lemma bare_push: "bare (buf_pending (buffer_push b t)) = bare (buf_pending b) @ bare t"
  by (simp add: buffer_push_def)

text \<open>The committed segment a poll takes from the session's events.\<close>

fun final_taken :: "ctrl_stage \<Rightarrow> ctrl_offers \<Rightarrow> ustr option" where
  "final_taken (In_Utterance c v) off =
     (case ctrl_select off v of Some (CA_Event (Some (OE_Final t))) \<Rightarrow> Some t | _ \<Rightarrow> None)"
| "final_taken _ off = None"

fun finals_taken :: "translate \<Rightarrow> ctrl_stage \<Rightarrow> ctrl_offers list \<Rightarrow> ustr list" where
  "finals_taken tr st [] = []"
| "finals_taken tr st (off # offs) =
     opt_list (final_taken st off) @ finals_taken tr (fst (controller_step tr st off)) offs"

definition commits :: "ctrl_effect list \<Rightarrow> ustr" where
  "commits out = concat (filter_map committed_text out)"

lemma commits_append [simp]: "commits (xs @ ys) = commits xs @ commits ys"
  by (simp add: commits_def)

lemma commits_Nil [simp]: "commits [] = []"
  by (simp add: commits_def)

lemma commits_no_write: "filter is_write out = [] \<Longrightarrow> commits out = []"
proof (induction out)
  case (Cons x out)
  then show ?case by (cases x) (auto simp: commits_def)
qed simp

lemma commits_quiet [simp]: "list_all is_quiet out \<Longrightarrow> commits out = []"
  using quiet_facts commits_no_write by blast

lemma commits_simps [simp]:
  "commits (Ef_Commit t a # out) = t @ commits out" "commits (Ef_Edge b # out) = commits out"
  "commits (Ef_Resync # out) = commits out" "commits (Ef_Release # out) = commits out"
  "commits (Ef_Preedit t # out) = commits out" "commits (Ef_Activated # out) = commits out"
  "commits (Ef_Discard # out) = commits out" "commits (Ef_Start # out) = commits out"
  "commits (Ef_Indicator i # out) = commits out" "commits (Ef_LastError h d # out) = commits out"
  by (simp_all add: commits_def)

fun pending_of :: "ctrl_stage \<Rightarrow> ustr" where
  "pending_of (In_Utterance c v) = bare (buf_pending (utt_buffer (sv_utt v)))"
| "pending_of _ = []"

lemma flush_text:
  assumes "buffer_flush ans before True b = (b', e1, out)"
  shows "bare (commits out) @ bare (buf_pending b') = bare (buf_pending b)"
  using assms by (cases rule: buffer_flush_cases [of b ans before True]) auto

text \<open>While the utterance may write, one arm moves text from the events to the buffer and on to the field.\<close>

lemma arm_text:
  assumes "live (ct_state c)" and "take_ctrl_arm tr off a c v = Some (c', v', out)"
    and "sv_ending v = Still_Writing" and "ctrl_select off v = Some a"
  shows "bare (commits out) @ pending_of (In_Utterance c' v') =
    pending_of (In_Utterance c v) @ concat (map bare (opt_list (final_taken (In_Utterance c v) off)))"
  using assms(1)
proof (cases rule: arm_cases [of c a tr off v])
  case (event ev e s u out' w)
  let ?fl = "\<lparr>rf_ending = sv_ending v, rf_preedit = co_preedit off \<and> sv_preedit v,
            rf_quality = input_quality_of (heard_stats off v), rf_warned = ct_warned c\<rparr>"
  have al: "writes_allowed (rf_ending ?fl)" using assms(3) by (simp add: writes_allowed_def)
  from assms(1) show ?thesis
  proof (cases rule: route_event_live [of "ct_state c" ev tr "co_commit off" "co_before off" ?fl "sv_utt v"])
    case (final t s' u')
    with event assms(2,4) show ?thesis by (auto simp: bare_push)
  next
    case (flush b e1 out1 s' u' out2 pre)
    have "bare (commits out1) @ bare (buf_pending b) = bare (buf_pending (utt_buffer (sv_utt v)))"
      using flush(2) al by (intro flush_text) simp
    moreover have "final_taken (In_Utterance c v) off = None"
      using assms(4) event(1) flush(1) by (cases ev) auto
    moreover have "commits pre = []" using flush(7) by (auto simp: commits_def)
    ultimately show ?thesis using event assms(2) flush(3,4,6) by auto
  qed
qed (use assms in \<open>auto split: ctrl_arm.splits option.splits orchestrator_event.splits\<close>)

lemma finish_text:
  assumes "live (ct_state c)" and "sv_ending v = Still_Writing"
  shows "prefix (bare (commits (snd (finish_utterance tr off r c v)))) (pending_of (In_Utterance c v)) \<and>
    (r = Inr (Out_Completed t) \<longrightarrow>
       bare (commits (snd (finish_utterance tr off r c v))) = pending_of (In_Utterance c v))"
proof (rule finish_cases [OF assms(1), of tr off r v])
  fix b e1 out1 c' out2 sync
  assume eq: "finish_utterance tr off r c v = (At_Idle c', out1 @ Ef_Release # out2 @ sync @ [Ef_Discard])"
    and q: "list_all is_quiet out2" "sync = [] \<or> sync = [Ef_Resync]"
    and l: "(\<exists>t. r = Inr (Out_Completed t)) \<and>
      buffer_flush (co_commit off) (co_before off) (writes_allowed (sv_ending v)) (utt_buffer (sv_utt v)) = (b, e1, out1) \<or>
      (\<forall>t. r \<noteq> Inr (Out_Completed t)) \<and> out1 = [] \<and> e1 = Still_Writing"
  have out: "commits (snd (finish_utterance tr off r c v)) = commits out1" using q by (auto simp: eq)
  have "bare (commits out1) = bare (buf_pending (utt_buffer (sv_utt v)))"
    if "buffer_flush (co_commit off) (co_before off) (writes_allowed (sv_ending v)) (utt_buffer (sv_utt v)) = (b, e1, out1)"
    using that assms(2)
    by (cases rule: buffer_flush_cases [of "utt_buffer (sv_utt v)" "co_commit off" "co_before off" True])
      (auto simp: writes_allowed_def)
  with l show ?thesis unfolding out by auto
qed

lemma run_text_prefix:
  assumes "ctrl_ok st" and "Ef_Start \<notin> set (snd (run_machine (controller_step tr) st offs))"
  shows "prefix (bare (commits (snd (run_machine (controller_step tr) st offs))))
    (pending_of st @ concat (map bare (finals_taken tr st offs)))"
  using assms
proof (induction offs arbitrary: st)
  case (Cons off offs)
  let ?st = "fst (controller_step tr st off)"
  let ?rest = "run_machine (controller_step tr) ?st offs"
  have ok: "ctrl_ok ?st" by (rule ctl.step_inv [OF Cons.prems(1)])
  have ns: "Ef_Start \<notin> set (snd ?rest)" using Cons.prems(2) by simp
  show ?case
  proof (cases "lost st")
    case True
    have "commits (snd (run_machine (controller_step tr) st (off # offs))) = []"
      by (rule commits_no_write [OF run_lost [OF Cons.prems(1) True Cons.prems(2)]])
    then show ?thesis by (simp del: snd_run_machine_Cons)
  next
    case False
    then obtain c v where st: "st = In_Utterance c v" and e: "sv_ending v = Still_Writing" by (cases st) auto
    have uok: "ctrl_ok (In_Utterance c v)" and lv: "live (ct_state c)" using Cons.prems(1) st by simp_all
    from uok show ?thesis
    proof (cases rule: poll_cases [of c v off tr])
      case wait
      with Cons.IH [OF ok ns] st show ?thesis by simp
    next
      case (stay a c' v' out)
      have "bare (commits out) @ pending_of (In_Utterance c' v') =
          pending_of st @ concat (map bare (opt_list (final_taken st off)))"
        unfolding st by (rule arm_text [OF lv stay(2) e stay(1)])
      moreover have "?st = In_Utterance c' v'" "snd (controller_step tr st off) = out" using stay(4) st by simp_all
      moreover have "prefix (bare (commits (snd ?rest))) (pending_of ?st @ concat (map bare (finals_taken tr ?st offs)))"
        by (rule Cons.IH [OF ok ns])
      ultimately have "prefix (bare (commits out) @ bare (commits (snd ?rest)))
          ((pending_of st @ concat (map bare (opt_list (final_taken st off)))) @ concat (map bare (finals_taken tr ?st offs)))"
        by (metis append_assoc same_prefix_prefix)
      then show ?thesis using \<open>snd (controller_step tr st off) = out\<close> by simp
    next
      case (leave a v' r)
      have "lost ?st" using st leave(7) finish_cases [OF lv, of tr off r v'] by (metis controller_step.simps(2) fst_conv lost.simps(2))
      then have "commits (snd ?rest) = []" by (intro commits_no_write run_lost [OF ok _ ns])
      moreover have "prefix (bare (commits (snd (controller_step tr st off)))) (pending_of st)"
        using finish_text [OF lv, of v' tr off r] e leave st by simp
      ultimately show ?thesis by (simp add: prefix_prefix)
    qed
  qed
qed simp

fun is_completed :: "backend_error + session_outcome \<Rightarrow> bool" where
  "is_completed (Inr (Out_Completed _)) = True"
| "is_completed _ = False"

lemma is_completed_iff: "is_completed r \<longleftrightarrow> (\<exists>t. r = Inr (Out_Completed t))"
  by (cases r rule: is_completed.cases) simp_all

lemma select_result: "ctrl_select off v = Some (CA_Result r) \<Longrightarrow> co_result off = Some r"
  by (auto simp: ctrl_select_def split: if_splits)

lemma select_focus: "ctrl_select off v = Some (CA_Focus x) \<Longrightarrow> co_focus off = Some x"
  by (auto simp: ctrl_select_def split: if_splits)

lemma select_edge: "ctrl_select off v = Some (CA_Edge x) \<Longrightarrow> co_edge off = Some x \<and> sv_trigger_open v"
  by (auto simp: ctrl_select_def split: if_splits)

text \<open>Nothing interferes: no focus event, every commit accepted, a session that completes.\<close>

definition undisturbed :: "ctrl_offers \<Rightarrow> bool" where
  "undisturbed off \<longleftrightarrow>
     (case co_focus off of Some (Some _) \<Rightarrow> False | _ \<Rightarrow> True) \<and> co_commit off = None \<and>
     (case co_result off of None \<Rightarrow> True | Some r \<Rightarrow> is_completed r)"

definition completes :: "session_vars \<Rightarrow> bool" where
  "completes v \<longleftrightarrow> sv_ending v = Still_Writing \<and>
     (case sv_done v of None \<Rightarrow> True | Some r \<Rightarrow> is_completed r)"

lemma arm_undisturbed:
  assumes "live (ct_state c)" and "take_ctrl_arm tr off a c v = Some (c', v', out)"
    and "ctrl_select off v = Some a" and "completes v" and "undisturbed off"
  shows "completes v'"
  using assms(1)
proof (cases rule: arm_cases [of c a tr off v])
  case (focus fe c2 v2 out2)
  with assms(3,5) select_focus [of off v "Some fe"] show ?thesis by (simp add: undisturbed_def)
next
  case (plain v2)
  have "a = CA_Result r \<Longrightarrow> co_result off = Some r" for r
    using assms(3) select_result by blast
  with plain assms(2,4,5) show ?thesis by (auto simp: completes_def undisturbed_def)
next
  case (event ev e s u out' w)
  let ?fl = "\<lparr>rf_ending = sv_ending v, rf_preedit = co_preedit off \<and> sv_preedit v,
            rf_quality = input_quality_of (heard_stats off v), rf_warned = ct_warned c\<rparr>"
  have "e = Still_Writing"
    using assms(1)
  proof (cases rule: route_event_live [of "ct_state c" ev tr "co_commit off" "co_before off" ?fl "sv_utt v"])
    case (final t s' u')
    with event assms(4) show ?thesis by (simp add: completes_def)
  next
    case (flush b e1 out1 s' u' out2 pre)
    have "e1 = Still_Writing"
      using flush(2) assms(5)
      by (cases rule: buffer_flush_cases [of "utt_buffer (sv_utt v)" "co_commit off" "co_before off"
            "writes_allowed (rf_ending ?fl)"]) (auto simp: undisturbed_def)
    with flush(3) event(2) assms(4) show ?thesis by (simp add: completes_def)
  qed
  with event assms(2,4) show ?thesis by (auto simp: completes_def)
qed (use assms in \<open>auto simp: completes_def\<close>)

fun resting :: "ctrl_stage \<Rightarrow> bool" where
  "resting (In_Utterance _ _) = False"
| "resting _ = True"

lemma step_resting:
  assumes "ctrl_ok st" and "resting st" and "Ef_Start \<notin> set (snd (controller_step tr st off))"
  shows "resting (fst (controller_step tr st off))"
proof (cases st)
  case (At_Idle c)
  with assms(1) have c: "ct_state c = DS_Idle" by simp
  then show ?thesis
    using assms(3) At_Idle
    by (cases "co_edge off = Some (Some Press)"; cases rule: start_cases [of c tr off])
      (auto simp: split_beta split: option.splits trigger_edge.splits)
qed (use assms in auto)

lemma run_resting:
  assumes "ctrl_ok st" and "resting st" and "Ef_Start \<notin> set (snd (run_machine (controller_step tr) st offs))"
  shows "finals_taken tr st offs = [] \<and> pending_of (fst (run_machine (controller_step tr) st offs)) = []"
  using assms
proof (induction offs arbitrary: st)
  case Nil
  then show ?case by (cases st) auto
next
  case (Cons off offs)
  have "resting (fst (controller_step tr st off))" using Cons.prems by (intro step_resting) simp_all
  from Cons.IH [OF ctl.step_inv [OF Cons.prems(1)] this] Cons.prems show ?case by (cases st) auto
qed

text \<open>
  What reached the field: the text of the commits it accepted. \<open>spaced ts s\<close>: \<open>s\<close> is the segments
  \<open>ts\<close> in order, each as it is or after one space. \<open>pending_as ts s\<close>: so is the buffer \<open>s\<close>, whose
  first segment has no space yet.
\<close>

fun accepted_text :: "ctrl_effect \<Rightarrow> ustr option" where
  "accepted_text (Ef_Commit t None) = Some t"
| "accepted_text _ = None"

definition field_text :: "ctrl_effect list \<Rightarrow> ustr" where
  "field_text out = concat (filter_map accepted_text out)"

fun spaced :: "ustr list \<Rightarrow> ustr \<Rightarrow> bool" where
  "spaced [] s = (s = [])"
| "spaced (t # ts) s = (prefix t s \<and> spaced ts (drop (length t) s) \<or> prefix (32 # t) s \<and> spaced ts (drop (Suc (length t)) s))"

definition pending_as :: "ustr list \<Rightarrow> ustr \<Rightarrow> bool" where
  "pending_as ts s \<longleftrightarrow> (case ts of [] \<Rightarrow> s = [] | t # us \<Rightarrow> prefix t s \<and> spaced us (drop (length t) s))"

lemma field_text_append [simp]: "field_text (xs @ ys) = field_text xs @ field_text ys" "field_text [] = []"
  by (simp_all add: field_text_def)

lemma field_text_simps [simp]:
  "field_text (Ef_Commit t None # out) = t @ field_text out" "field_text (Ef_Release # out) = field_text out"
  "field_text (Ef_Preedit t # out) = field_text out" "field_text (Ef_Resync # out) = field_text out"
  "field_text (Ef_Discard # out) = field_text out" "field_text (Ef_Edge b # out) = field_text out"
  "field_text (Ef_Activated # out) = field_text out" "field_text (Ef_Indicator i # out) = field_text out"
  by (simp_all add: field_text_def)

lemma field_text_no_write: "filter is_write out = [] \<Longrightarrow> field_text out = []"
proof (induction out)
  case (Cons x out)
  then show ?case by (cases x) (auto simp: field_text_def)
qed simp

lemma field_text_quiet [simp]: "list_all is_quiet out \<Longrightarrow> field_text out = []"
  using quiet_facts field_text_no_write by blast

lemma spaced_append: "spaced ts s \<Longrightarrow> spaced us r \<Longrightarrow> spaced (ts @ us) (s @ r)"
proof (induction ts arbitrary: s)
  case (Cons t ts)
  then consider s' where "s = t @ s'" "spaced ts s'" | s' where "s = 32 # t @ s'" "spaced ts s'"
    by (auto elim!: prefixE)
  then show ?case by cases (use Cons.IH Cons.prems(2) in simp_all)
qed simp

lemma pending_as_Cons: "pending_as (t # us) (t @ s) = spaced us s"
  by (simp add: pending_as_def)

lemma pending_as_cases:
  assumes "pending_as ts s"
  obtains "ts = []" "s = []" | t us r where "ts = t # us" "s = t @ r" "spaced us r"
  using assms by (cases ts) (auto simp: pending_as_def elim!: prefixE)

lemma pending_as_spaced:
  assumes "pending_as ts s" and "sep = [] \<or> sep = [32]" and "s \<noteq> []"
  shows "spaced ts (sep @ s)"
  using assms by (elim pending_as_cases) auto

lemma pending_as_nothing:
  assumes "pending_as ts []"
  shows "spaced ts []"
  using assms by (elim pending_as_cases) auto

lemma pending_as_push:
  assumes "pending_as ts (buf_pending b)"
  shows "pending_as (ts @ [t]) (buf_pending (buffer_push b t))"
proof -
  have one: "spaced [t] t" "spaced [t] (32 # t)" by simp_all
  from assms show ?thesis
  proof (cases rule: pending_as_cases)
    case 1
    then show ?thesis by (simp add: buffer_push_def pending_as_def)
  next
    case (2 t' us r)
    define sep :: ustr where "sep = (if buf_pending b \<noteq> [] \<and> \<not> ends_with_p is_whitespace (buf_pending b)
        \<and> \<not> starts_with_p is_whitespace t then [32] else [])"
    have "spaced (us @ [t]) (r @ sep @ t)" by (rule spaced_append [OF 2(3)]) (use one in \<open>simp add: sep_def\<close>)
    moreover have "buf_pending (buffer_push b t) = t' @ r @ sep @ t" using 2(2) by (simp add: buffer_push_def sep_def)
    ultimately show ?thesis using 2(1) by (simp only: append_Cons pending_as_Cons)
  qed
qed

text \<open>One arm either keeps what is pending and adds the final it took, or hands all of it to the field.\<close>

lemma arm_field:
  assumes "live (ct_state c)" and "take_ctrl_arm tr off a c v = Some (c', v', out)"
    and "sv_ending v = Still_Writing" and "ctrl_select off v = Some a" and "co_commit off = None"
    and pend: "pending_as ts (buf_pending (utt_buffer (sv_utt v)))"
  shows "field_text out = [] \<and> pending_as (ts @ opt_list (final_taken (In_Utterance c v) off)) (buf_pending (utt_buffer (sv_utt v')))
    \<or> final_taken (In_Utterance c v) off = None \<and> spaced ts (field_text out) \<and> buf_pending (utt_buffer (sv_utt v')) = []"
  using assms(1)
proof (cases rule: arm_cases [of c a tr off v])
  case (event ev e s u out' w)
  let ?fl = "\<lparr>rf_ending = sv_ending v, rf_preedit = co_preedit off \<and> sv_preedit v,
            rf_quality = input_quality_of (heard_stats off v), rf_warned = ct_warned c\<rparr>"
  have al: "writes_allowed (rf_ending ?fl)" using assms(3) by (simp add: writes_allowed_def)
  from assms(1) show ?thesis
  proof (cases rule: route_event_live [of "ct_state c" ev tr "co_commit off" "co_before off" ?fl "sv_utt v"])
    case (final t s' u')
    with event assms(2,4) pending_as_push [OF pend] show ?thesis by auto
  next
    case (flush b e1 out1 s' u' out2 pre)
    have none: "final_taken (In_Utterance c v) off = None"
      using assms(4) event(1) flush(1) by (cases ev) auto
    have "field_text pre = []" using flush(7) by (auto simp: field_text_def)
    then have out: "field_text out = field_text out1" "utt_buffer (sv_utt v') = b"
      using event assms(2) flush(3,4,6) by auto
    from flush(2) al show ?thesis
    proof (cases rule: buffer_flush_cases [of "utt_buffer (sv_utt v)" "co_commit off" "co_before off" True])
      case nothing
      with flush(2) al out none pend show ?thesis by simp
    next
      case discard
      then show ?thesis by simp
    next
      case (handed sep b' e')
      have "b = b'" "out1 = [Ef_Commit (sep @ buf_pending (utt_buffer (sv_utt v))) None]"
        using flush(2) handed(4) al assms(5) by simp_all
      moreover have "spaced ts (sep @ buf_pending (utt_buffer (sv_utt v)))" by (rule pending_as_spaced [OF pend handed(3,1)])
      ultimately show ?thesis using out none handed(5) by simp
    qed
  qed
qed (use assms in \<open>auto split: ctrl_arm.splits option.splits orchestrator_event.splits\<close>)

lemma finish_field:
  assumes "live (ct_state c)" and "sv_ending v = Still_Writing" and "co_commit off = None"
    and pend: "pending_as ts (buf_pending (utt_buffer (sv_utt v)))"
  shows "spaced ts (field_text (snd (finish_utterance tr off (Inr (Out_Completed t)) c v)))"
proof (rule finish_cases [OF assms(1), of tr off "Inr (Out_Completed t)" v])
  fix b e1 out1 c' out2 sync
  assume eq: "finish_utterance tr off (Inr (Out_Completed t)) c v = (At_Idle c', out1 @ Ef_Release # out2 @ sync @ [Ef_Discard])"
    and q: "list_all is_quiet out2" "sync = [] \<or> sync = [Ef_Resync]"
    and l: "(\<exists>t'. Inr (Out_Completed t) = Inr (Out_Completed t')) \<and>
      buffer_flush (co_commit off) (co_before off) (writes_allowed (sv_ending v)) (utt_buffer (sv_utt v)) = (b, e1, out1) \<or>
      (\<forall>t'. Inr (Out_Completed t) \<noteq> Inr (Out_Completed t')) \<and> out1 = [] \<and> e1 = Still_Writing"
  have out: "field_text (snd (finish_utterance tr off (Inr (Out_Completed t)) c v)) = field_text out1" using q by (auto simp: eq)
  have "buffer_flush (co_commit off) (co_before off) True (utt_buffer (sv_utt v)) = (b, e1, out1)"
    using l assms(2) by (simp add: writes_allowed_def)
  then show "spaced ts (field_text (snd (finish_utterance tr off (Inr (Out_Completed t)) c v)))"
    unfolding out using pend assms(3) pending_as_spaced [OF pend] pending_as_nothing
    by (cases rule: buffer_flush_cases [of "utt_buffer (sv_utt v)" "co_commit off" "co_before off" True]) auto
qed

lemma run_field_text:
  assumes "ctrl_ok (In_Utterance c v)" and "completes v" and "list_all undisturbed offs"
    and "Ef_Start \<notin> set (snd (run_machine (controller_step tr) (In_Utterance c v) offs))"
    and "fst (run_machine (controller_step tr) (In_Utterance c v) offs) = At_Idle c'"
    and "pending_as ts (buf_pending (utt_buffer (sv_utt v)))"
  shows "spaced (ts @ finals_taken tr (In_Utterance c v) offs) (field_text (snd (run_machine (controller_step tr) (In_Utterance c v) offs)))"
  using assms
proof (induction offs arbitrary: c v ts)
  case (Cons off offs)
  let ?st = "fst (controller_step tr (In_Utterance c v) off)"
  let ?rest = "run_machine (controller_step tr) ?st offs"
  have lv: "live (ct_state c)" and e: "sv_ending v = Still_Writing" and und: "undisturbed off" "co_commit off = None"
    using Cons.prems by (simp_all add: completes_def undisturbed_def)
  have ok: "ctrl_ok ?st" by (rule ctl.step_inv [OF Cons.prems(1)])
  have ns: "Ef_Start \<notin> set (snd ?rest)" using Cons.prems(4) by simp
  have idle: "fst ?rest = At_Idle c'" using Cons.prems(5) by simp
  from Cons.prems(1) show ?case
  proof (cases rule: poll_cases [of c v off tr])
    case wait
    with Cons.IH [OF Cons.prems(1,2) _ _ _ Cons.prems(6)] Cons.prems(3-5) show ?thesis by simp
  next
    case (stay a c1 v1 out)
    let ?new = "opt_list (final_taken (In_Utterance c v) off)"
    have st: "?st = In_Utterance c1 v1" "snd (controller_step tr (In_Utterance c v) off) = out" using stay(4) by simp_all
    have cv: "completes v1" by (rule arm_undisturbed [OF lv stay(2,1) Cons.prems(2) und(1)])
    have "list_all undisturbed offs" using Cons.prems(3) by simp
    note IH = Cons.IH [OF stay(3) cv this ns [unfolded st(1)] idle [unfolded st(1)]]
    have goal: "finals_taken tr (In_Utterance c v) (off # offs) = ?new @ finals_taken tr (In_Utterance c1 v1) offs"
      "field_text (snd (run_machine (controller_step tr) (In_Utterance c v) (off # offs)))
        = field_text out @ field_text (snd (run_machine (controller_step tr) (In_Utterance c1 v1) offs))"
      using st by (simp_all del: controller_step.simps final_taken.simps)
    from arm_field [OF lv stay(2) e stay(1) und(2) Cons.prems(6)] show ?thesis
    proof (elim disjE conjE)
      assume "field_text out = []" "pending_as (ts @ ?new) (buf_pending (utt_buffer (sv_utt v1)))"
      with IH [of "ts @ ?new"] show ?thesis by (simp only: goal append_assoc append_Nil)
    next
      assume "final_taken (In_Utterance c v) off = None" and s: "spaced ts (field_text out)" and "buf_pending (utt_buffer (sv_utt v1)) = []"
      then have "?new = []" "pending_as [] (buf_pending (utt_buffer (sv_utt v1)))" by (simp_all add: pending_as_def)
      with IH [of "[]"] spaced_append [OF s] show ?thesis by (simp only: goal append_Nil)
    qed
  next
    case (leave a v' r)
    have "is_completed r"
      using leave(1,6) Cons.prems(2) und select_result [of off v r] by (auto simp: completes_def undisturbed_def)
    then obtain t where r: "r = Inr (Out_Completed t)" by (auto simp: is_completed_iff)
    have at: "\<exists>c'. ?st = At_Idle c'"
      by (rule finish_cases [OF lv, of tr off r v']) (simp add: leave(7))
    then have "field_text (snd ?rest) = []"
      by (intro field_text_no_write run_lost [OF ok _ ns]) auto
    moreover have "finals_taken tr ?st offs = [] \<and> pending_of (fst ?rest) = []"
      using at by (intro run_resting [OF ok _ ns]) auto
    moreover have "spaced ts (field_text (snd (controller_step tr (In_Utterance c v) off)))"
      using finish_field [OF lv, of v' off ts tr t] e leave r und(2) Cons.prems(6) by simp
    moreover have "final_taken (In_Utterance c v) off = None"
      using leave(1,2) by (auto split: ctrl_arm.splits option.splits)
    ultimately show ?thesis by (simp del: final_taken.simps controller_step.simps)
  qed
qed simp

section \<open>The trigger's parity and the target's lease\<close>

text \<open>
  The press/release parity of a toggle trigger, as the controller leaves it: an edge it reads sets
  it, a resync clears it.
\<close>

fun parity :: "bool \<Rightarrow> ctrl_effect list \<Rightarrow> bool" where
  "parity p [] = p"
| "parity p (Ef_Edge b # out) = parity b out"
| "parity p (Ef_Resync # out) = parity False out"
| "parity p (_ # out) = parity p out"

lemma parity_append [simp]: "parity p (xs @ ys) = parity (parity p xs) ys"
  by (induction p xs rule: parity.induct) simp_all

lemma parity_quiet [simp]: "list_all is_quiet xs \<Longrightarrow> parity p xs = p"
proof (induction xs)
  case (Cons x xs)
  then show ?case by (cases x) auto
qed simp

lemma parity_flush:
  "buffer_flush ans before allowed b = (b', e1, out) \<Longrightarrow> parity p out = p \<and> e1 \<noteq> Target_Gone"
  by (cases rule: buffer_flush_cases [of b ans before allowed]) (auto split: if_splits)

definition answered :: "ctrl_offers \<Rightarrow> bool" where
  "answered off \<longleftrightarrow> co_edge off \<noteq> Some None \<and>
     (case co_result off of Some r \<Rightarrow> \<not> is_completed r | None \<Rightarrow> True)"

fun parity_ok :: "ctrl_stage \<Rightarrow> bool \<Rightarrow> bool" where
  "parity_ok (In_Utterance c v) p \<longleftrightarrow>
     (\<not> sv_trigger_open v \<longrightarrow> \<not> p) \<and> (sv_ending v = Target_Gone \<longrightarrow> \<not> sv_trigger_open v) \<and>
     (case sv_done v of Some r \<Rightarrow> \<not> is_completed r | None \<Rightarrow> True)"
| "parity_ok (At_Idle c) p \<longleftrightarrow> \<not> p"
| "parity_ok _ p \<longleftrightarrow> True"

lemma ending_or_gone: "e1 \<noteq> Target_Gone \<Longrightarrow> ending_or e e1 = Target_Gone \<longleftrightarrow> e = Target_Gone"
  by (cases e; cases e1) (simp_all add: ending_or_def max_def less_eq_ending_def)

lemma arm_parity:
  assumes "live (ct_state c)" and "take_ctrl_arm tr off a c v = Some (c', v', out)"
    and "ctrl_select off v = Some a" and "parity_ok (In_Utterance c v) p" and "answered off"
  shows "parity_ok (In_Utterance c' v') (parity p out)"
  using assms(1)
proof (cases rule: arm_cases [of c a tr off v])
  case (plain w)
  have "a = CA_Result r \<Longrightarrow> co_result off = Some r" for r
    using assms(3) select_result by blast
  with plain assms(2,4,5) show ?thesis by (auto simp: answered_def)
next
  case press
  with assms(3) select_edge have "sv_trigger_open v" by blast
  with press assms(2,4) show ?thesis by auto
next
  case (over c2 v2 out2)
  with assms(3,5) select_edge show ?thesis by (auto simp: answered_def)
next
  case (event ev e s u out' w)
  let ?fl = "\<lparr>rf_ending = sv_ending v, rf_preedit = co_preedit off \<and> sv_preedit v,
            rf_quality = input_quality_of (heard_stats off v), rf_warned = ct_warned c\<rparr>"
  have "parity p out' = p \<and> (e = Target_Gone \<longleftrightarrow> sv_ending v = Target_Gone)"
    using assms(1)
  proof (cases rule: route_event_live [of "ct_state c" ev tr "co_commit off" "co_before off" ?fl "sv_utt v"])
    case (final t s' u')
    with event show ?thesis by simp
  next
    case (flush b e1 out1 s' u' out2 pre)
    from parity_flush [OF flush(2)] have fl: "parity p out1 = p" "e1 \<noteq> Target_Gone" by simp_all
    have "parity p pre = p" using flush(7) by auto
    moreover have "out' = out1 @ out2 @ pre" "e = ending_or (sv_ending v) e1"
      using flush(3) event(2) by simp_all
    ultimately show ?thesis using fl flush(6) ending_or_gone [OF fl(2)] by simp
  qed
  with event assms(2,4) show ?thesis by auto
qed (use assms in auto)

lemma step_parity:
  assumes "ctrl_ok st" and "parity_ok st p" and "answered off"
  shows "parity_ok (fst (controller_step tr st off)) (parity p (snd (controller_step tr st off)))"
proof (cases st)
  case (At_Idle c)
  with assms(1) have c: "ct_state c = DS_Idle" by simp
  show ?thesis
  proof (cases "co_edge off = Some (Some Press)")
    case True
    with c At_Idle show ?thesis
      by (cases rule: start_cases [of c tr off]) (auto simp: split_beta report_failure_def)
  next
    case False
    with assms At_Idle show ?thesis by (auto split: option.splits trigger_edge.splits)
  qed
next
  case (In_Utterance c v)
  with assms have ok: "ctrl_ok (In_Utterance c v)" and lv: "live (ct_state c)"
    and par: "parity_ok (In_Utterance c v) p" by simp_all
  from ok show ?thesis
  proof (cases rule: poll_cases [of c v off tr])
    case (stay a c' v' out)
    with arm_parity [OF lv stay(2,1) par assms(3)] In_Utterance show ?thesis by simp
  next
    case (leave a v' r)
    have "\<not> is_completed r"
      using leave(1,6) par assms(3) select_result [of off v r] by (auto simp: answered_def)
    then have res: "r \<noteq> Inr (Out_Completed t)" for t by (simp add: is_completed_iff)
    show ?thesis
    proof (rule finish_cases [OF lv, of tr off r v'])
      fix b e1 out1 c' out2 sync
      assume eq: "finish_utterance tr off r c v' = (At_Idle c', out1 @ Ef_Release # out2 @ sync @ [Ef_Discard])"
        and q: "list_all is_quiet out2" "sync = [] \<or> sync = [Ef_Resync]"
        and s: "ending_or (sv_ending v') e1 \<noteq> Target_Gone \<and> sync = [] \<longrightarrow> (\<exists>t. r = Inr (Out_Completed t))"
        and l: "(\<exists>t. r = Inr (Out_Completed t)) \<and> buffer_flush (co_commit off) (co_before off)
          (writes_allowed (sv_ending v')) (utt_buffer (sv_utt v')) = (b, e1, out1) \<or>
        (\<forall>t. r \<noteq> Inr (Out_Completed t)) \<and> out1 = [] \<and> e1 = Still_Writing"
      from l res have "out1 = [] \<and> e1 = Still_Writing" by auto
      with q s res leave(4,5) par show ?thesis by (auto simp: In_Utterance leave(7) eq)
    qed
  qed (use In_Utterance par in simp)
qed (use assms in auto)

text \<open>Every started session's target is released when the utterance ends.\<close>

lemma arm_no_lease:
  assumes "live (ct_state c)" and "take_ctrl_arm tr off a c v = Some (c', v', out)"
  shows "Ef_Start \<notin> set out \<and> Ef_Release \<notin> set out"
  using assms(1)
proof (cases rule: arm_cases [of c a tr off v])
  case (event ev e s u out' w)
  let ?fl = "\<lparr>rf_ending = sv_ending v, rf_preedit = co_preedit off \<and> sv_preedit v,
            rf_quality = input_quality_of (heard_stats off v), rf_warned = ct_warned c\<rparr>"
  have fl: "Ef_Start \<notin> set o1 \<and> Ef_Release \<notin> set o1"
    if "buffer_flush ans before al b0 = (b, e1, o1)" for ans before al b0 b e1 o1
    using that by (cases rule: buffer_flush_cases [of b0 ans before al]) auto
  from assms(1) have "Ef_Start \<notin> set out' \<and> Ef_Release \<notin> set out'"
  proof (cases rule: route_event_live [of "ct_state c" ev tr "co_commit off" "co_before off" ?fl "sv_utt v"])
    case (flush b e1 out1 s' u' out2 pre)
    from fl [OF flush(2)] quiet_facts [OF flush(6)] flush(3,7) event(2) show ?thesis by auto
  qed (use event in simp)
  with event assms(2) show ?thesis by auto
qed (use assms quiet_facts in auto)

lemma step_lease:
  assumes "ctrl_ok st"
  shows "length (filter (\<lambda>x. x = Ef_Start) (snd (controller_step tr st off))) + (if resting st then 0 else 1) =
    length (filter (\<lambda>x. x = Ef_Release) (snd (controller_step tr st off))) +
      (if resting (fst (controller_step tr st off)) then 0 else 1)"
proof (cases st)
  case (At_Idle c)
  with assms have c: "ct_state c = DS_Idle" by simp
  show ?thesis
  proof (cases "co_edge off = Some (Some Press)")
    case True
    with c At_Idle show ?thesis
      by (cases rule: start_cases [of c tr off]) (auto simp: split_beta report_failure_def)
  next
    case False
    with c At_Idle show ?thesis by (auto split: option.splits trigger_edge.splits)
  qed
next
  case (In_Utterance c v)
  with assms have ok: "ctrl_ok (In_Utterance c v)" and lv: "live (ct_state c)" by simp_all
  have none: "filter (\<lambda>x. x = y) xs = []" if "y \<notin> set xs" for xs and y :: ctrl_effect
    using that by (auto simp: filter_empty_conv)
  from ok show ?thesis
  proof (cases rule: poll_cases [of c v off tr])
    case (stay a c' v' out)
    with arm_no_lease [OF lv stay(2)] In_Utterance show ?thesis by (simp add: none)
  next
    case (leave a v' r)
    show ?thesis
    proof (rule finish_cases [OF lv, of tr off r v'])
      fix b e1 out1 c' out2 sync
      assume eq: "finish_utterance tr off r c v' = (At_Idle c', out1 @ Ef_Release # out2 @ sync @ [Ef_Discard])"
        and q: "list_all is_quiet out2" "sync = [] \<or> sync = [Ef_Resync]"
        and l: "(\<exists>t. r = Inr (Out_Completed t)) \<and> buffer_flush (co_commit off) (co_before off)
          (writes_allowed (sv_ending v')) (utt_buffer (sv_utt v')) = (b, e1, out1) \<or>
        (\<forall>t. r \<noteq> Inr (Out_Completed t)) \<and> out1 = [] \<and> e1 = Still_Writing"
      have "Ef_Start \<notin> set out1 \<and> Ef_Release \<notin> set out1"
        using l by (cases rule: buffer_flush_cases [of "utt_buffer (sv_utt v')" "co_commit off" "co_before off"
              "writes_allowed (sv_ending v')"]) auto
      with q quiet_facts [OF q(1)] show ?thesis by (auto simp: In_Utterance leave(7) eq none)
    qed
  qed (use In_Utterance in simp)
qed (use assms in auto)

section \<open>Properties of the controller\<close>

text \<open>
  The controller never makes an illegal state transition, so its assertion never fires, and it
  never reaches a select without an enabled arm; whenever it waits for a press it is idle, and
  inside an utterance it is recording, transcribing or finalizing, whatever its boundaries do.
\<close>

theorem controller_never_panics:
  "case fst (controller_run tr offs) of
     At_Idle c \<Rightarrow> ct_state c = DS_Idle
   | In_Utterance c v \<Rightarrow> ct_state c \<in> {DS_Recording, DS_Transcribing, DS_Finalizing} \<and>
       (sv_done v = None \<or> sv_events_open v)
   | Quit c \<Rightarrow> ct_state c = DS_Idle
   | Ctrl_Panic \<Rightarrow> False"
  using ctl.run_inv [OF controller_new_ok, of tr offs]
  by (auto simp: live_def capturing_def split: ctrl_stage.split)

text \<open>
  C1: Once the target reports that focus left it or that it is gone, nothing more is written into
  any field for that utterance, neither committed text nor a preedit, whatever events, results or
  settings follow and whichever of them are ready at the same poll.
\<close>

theorem controller_no_write_after_focus_loss:
  assumes "fst (controller_run tr offs) = In_Utterance c v" and "sv_focus_open v"
    and "co_focus off = Some (Some fe)"
    and "Ef_Start \<notin> set (snd (run_machine (controller_step tr) (In_Utterance c v) (off # rest)))"
  shows "filter is_write (snd (run_machine (controller_step tr) (In_Utterance c v) (off # rest))) = []"
proof -
  have ok: "ctrl_ok (In_Utterance c v)" using ctl.run_inv [OF controller_new_ok, of tr offs] assms(1) by simp
  then have lv: "live (ct_state c)" and loop: "sv_events_open v \<or> sv_done v = None" by simp_all
  have sel: "ctrl_select off v = Some (CA_Focus (Some fe))" using assms(2,3) by (simp add: ctrl_select_def)
  from lv obtain c' v' out where arm: "take_ctrl_arm tr off (CA_Focus (Some fe)) c v = Some (c', v', out @ [Ef_Resync])"
    and q: "list_all is_quiet out" and e: "sv_ending v' \<noteq> Still_Writing"
    and "sv_events_open v' = sv_events_open v" "sv_done v' = sv_done v"
    by (cases rule: arm_cases [of c "CA_Focus (Some fe)" tr off v]) auto
  then have "utterance_head tr off c' v' = (In_Utterance c' v', [])"
    using loop by (auto simp: utterance_head_def split: option.splits bool.splits)
  then have step: "controller_step tr (In_Utterance c v) off = (In_Utterance c' v', out @ [Ef_Resync])"
    using sel arm by (simp add: poll_utterance_def)
  have "ctrl_ok (In_Utterance c' v')" using ctl.step_inv [OF ok, of tr off] step by simp
  moreover have "Ef_Start \<notin> set (snd (run_machine (controller_step tr) (In_Utterance c' v') rest))"
    using assms(4) step by (simp del: controller_step.simps)
  ultimately have "filter is_write (snd (run_machine (controller_step tr) (In_Utterance c' v') rest)) = []"
    using e by (intro run_lost) simp_all
  with quiet_facts [OF q] show ?thesis by (simp add: step del: controller_step.simps)
qed

definition quiet_offers :: ctrl_offers where
  "quiet_offers = \<lparr>co_focus = None, co_edge = None, co_stats = None, co_result = None, co_event = None,
     co_heard = stats_default, co_preedit = False, co_silence = 0, co_commit = None, co_before = None,
     co_acquire = None, co_has_tap = False, co_supports_preedit = False, co_secure_detection = Supported\<rparr>"

lemmas ctrl_eval =
  controller_new_def quiet_offers_def start_utterance_def poll_utterance_def ctrl_select_def
  utterance_head_def finish_utterance_def dispose_def finalize_state_def ensure_finalizing_def
  advance_def capturing_def enter_finalizing_def stop_and_finalize_def route_event_def event_state_def
  event_output_def event_to_indicator_def note_warning_def note_fault_of_def buffer_flush_def
  buffer_push_def heard_stats_def stats_default_def input_quality_of_def levels_effect_def
  report_failure_def utterance_new_def buffer_new_def writes_allowed_def ending_delivery_def

lemma pressed_once:
  "controller_run id [quiet_offers\<lparr>co_edge := Some (Some Press)\<rparr>] =
     (In_Utterance \<lparr>ct_state = DS_Recording, ct_warned = []\<rparr>
        \<lparr>sv_ending = Still_Writing, sv_utt = utterance_new, sv_trigger_open = True, sv_focus_open = True,
         sv_events_open = True, sv_stats_open = False, sv_tap = False, sv_preedit = False, sv_done = None\<rparr>,
      [Ef_Edge True, Ef_Start, Ef_Indicator IS_Recording])"
  by (simp add: prod_eq_iff) (simp add: controller_new_def start_utterance_def advance_def quiet_offers_def)

theorem controller_no_write_after_focus_loss_witness:
  "filter is_write (snd (run_machine (controller_step id)
     (fst (controller_run id [quiet_offers\<lparr>co_edge := Some (Some Press)\<rparr>]))
     [quiet_offers\<lparr>co_focus := Some (Some FocusOut), co_event := Some (Some (OE_Final (lit ''hi'')))\<rparr>,
      quiet_offers\<lparr>co_event := Some (Some (OE_Final (lit ''hi'')))\<rparr>,
      quiet_offers\<lparr>co_event := Some (Some OE_Ready)\<rparr>])) = []"
  using controller_no_write_after_focus_loss [of id "[quiet_offers\<lparr>co_edge := Some (Some Press)\<rparr>]"
      "\<lparr>ct_state = DS_Recording, ct_warned = []\<rparr>"
      "\<lparr>sv_ending = Still_Writing, sv_utt = utterance_new, sv_trigger_open = True, sv_focus_open = True,
         sv_events_open = True, sv_stats_open = False, sv_tap = False, sv_preedit = False, sv_done = None\<rparr>"
      "quiet_offers\<lparr>co_focus := Some (Some FocusOut), co_event := Some (Some (OE_Final (lit ''hi'')))\<rparr>" FocusOut
      "[quiet_offers\<lparr>co_event := Some (Some (OE_Final (lit ''hi'')))\<rparr>,
        quiet_offers\<lparr>co_event := Some (Some OE_Ready)\<rparr>]"]
  unfolding pressed_once by (simp add: ctrl_eval)

text \<open>
  Only what the backend committed is ever inserted: in one utterance the text handed to the
  field is, up to the white space that separates segments, a prefix of the committed segments
  routed to it, in their order. Snippets, hypotheses and other events never become text.
\<close>

theorem controller_inserts_only_finals:
  assumes "fst (controller_run tr offs) = In_Utterance c v" and "utt_buffer (sv_utt v) = buffer_new"
    and "Ef_Start \<notin> set (snd (run_machine (controller_step tr) (In_Utterance c v) rest))"
  shows "prefix (bare (commits (snd (run_machine (controller_step tr) (In_Utterance c v) rest))))
    (concat (map bare (finals_taken tr (In_Utterance c v) rest)))"
proof -
  have "ctrl_ok (In_Utterance c v)" using ctl.run_inv [OF controller_new_ok, of tr offs] assms(1) by simp
  from run_text_prefix [OF this assms(3)] assms(2) show ?thesis by (simp add: buffer_new_def)
qed

theorem controller_inserts_only_finals_witness:
  "prefix (lit ''hi'') (lit ''hi'') \<and>
   commits (snd (run_machine (controller_step id)
     (fst (controller_run id [quiet_offers\<lparr>co_edge := Some (Some Press)\<rparr>]))
     [quiet_offers\<lparr>co_event := Some (Some (OE_Final (lit ''hi'')))\<rparr>,
      quiet_offers\<lparr>co_event := Some (Some OE_Ready)\<rparr>])) = lit ''hi''"
  using controller_inserts_only_finals [of id "[quiet_offers\<lparr>co_edge := Some (Some Press)\<rparr>]"
      "\<lparr>ct_state = DS_Recording, ct_warned = []\<rparr>"
      "\<lparr>sv_ending = Still_Writing, sv_utt = utterance_new, sv_trigger_open = True, sv_focus_open = True,
         sv_events_open = True, sv_stats_open = False, sv_tap = False, sv_preedit = False, sv_done = None\<rparr>"
      "[quiet_offers\<lparr>co_event := Some (Some (OE_Final (lit ''hi'')))\<rparr>,
        quiet_offers\<lparr>co_event := Some (Some OE_Ready)\<rparr>]"]
  unfolding pressed_once by (simp add: ctrl_eval)

text \<open>
  C4: Nothing dictated is lost on the way. In an utterance that completes, with no focus event
  and no commit refused, the text the field accepted is by the time the controller is idle again
  exactly the committed segments the session sent, all of them and in order, each as it was sent
  or after one space.
\<close>

theorem controller_inserts_all_finals:
  assumes "fst (controller_run tr offs) = In_Utterance c v" and "utt_buffer (sv_utt v) = buffer_new"
    and "sv_ending v = Still_Writing" and "sv_done v = None" and "list_all undisturbed rest"
    and "Ef_Start \<notin> set (snd (run_machine (controller_step tr) (In_Utterance c v) rest))"
    and "fst (run_machine (controller_step tr) (In_Utterance c v) rest) = At_Idle c'"
  shows "spaced (finals_taken tr (In_Utterance c v) rest)
    (field_text (snd (run_machine (controller_step tr) (In_Utterance c v) rest)))"
proof -
  have ok: "ctrl_ok (In_Utterance c v)" using ctl.run_inv [OF controller_new_ok, of tr offs] assms(1) by simp
  have "completes v" using assms(3,4) by (simp add: completes_def)
  from run_field_text [OF ok this assms(5,6,7), of "[]"] assms(2) show ?thesis by (simp add: buffer_new_def pending_as_def)
qed

theorem controller_inserts_all_finals_witness:
  "spaced [lit ''hi'', lit ''you''] (field_text (snd (run_machine (controller_step id)
     (fst (controller_run id [quiet_offers\<lparr>co_edge := Some (Some Press)\<rparr>]))
     [quiet_offers\<lparr>co_event := Some (Some (OE_Final (lit ''hi'')))\<rparr>,
      quiet_offers\<lparr>co_event := Some (Some (OE_Final (lit ''you'')))\<rparr>,
      quiet_offers\<lparr>co_result := Some (Inr (Out_Completed (lit ''hi you'')))\<rparr>,
      quiet_offers\<lparr>co_event := Some None\<rparr>])))"
  using controller_inserts_all_finals [of id "[quiet_offers\<lparr>co_edge := Some (Some Press)\<rparr>]"
      "\<lparr>ct_state = DS_Recording, ct_warned = []\<rparr>"
      "\<lparr>sv_ending = Still_Writing, sv_utt = utterance_new, sv_trigger_open = True, sv_focus_open = True,
         sv_events_open = True, sv_stats_open = False, sv_tap = False, sv_preedit = False, sv_done = None\<rparr>"
      "[quiet_offers\<lparr>co_event := Some (Some (OE_Final (lit ''hi'')))\<rparr>,
        quiet_offers\<lparr>co_event := Some (Some (OE_Final (lit ''you'')))\<rparr>,
        quiet_offers\<lparr>co_result := Some (Inr (Out_Completed (lit ''hi you'')))\<rparr>,
        quiet_offers\<lparr>co_event := Some None\<rparr>]"
      "\<lparr>ct_state = DS_Idle, ct_warned = []\<rparr>"]
  unfolding pressed_once by (simp add: ctrl_eval undisturbed_def)

text \<open>
  A commit refused for any other reason than a lost focus is lost without notice: the buffer is
  empty, nothing counts as dropped, and the utterance goes on.
\<close>

lemma refused_commit_unreported:
  assumes "buf_pending b \<noteq> []" and "e \<noteq> IE_FocusLost"
  shows "case buffer_flush (Some e) before True b of (b', ended, out) \<Rightarrow>
    buf_pending b' = [] \<and> buf_dropped b' = buf_dropped b \<and> ended = Still_Writing \<and> field_text out = []"
  using assms by (cases rule: buffer_flush_cases [of b "Some e" before True]) (auto simp: field_text_def)

text \<open>
  Every started session is matched by exactly one release of its target, at the end of the
  utterance: outside an utterance no field is held, and inside one exactly one is.
\<close>

theorem controller_releases_target:
  "length (filter (\<lambda>x. x = Ef_Start) (snd (controller_run tr offs))) =
   length (filter (\<lambda>x. x = Ef_Release) (snd (controller_run tr offs))) +
     (if resting (fst (controller_run tr offs)) then 0 else 1)"
proof (induction offs rule: rev_induct)
  case Nil
  show ?case by (simp add: controller_new_def)
next
  case (snoc off offs)
  with step_lease [OF ctl.run_inv [OF controller_new_ok, of tr offs], of tr off] show ?case
    by (simp add: fst_run_machine_append snd_run_machine_append)
qed

text \<open>
  After an utterance that did not complete (focus lost with an abort, a failure, a backend
  error, a refused target) the trigger's press parity is clear, so the next poke of a toggle
  trigger starts a session; while an utterance no longer listens to its trigger the parity is
  clear too.
\<close>

theorem controller_resyncs_trigger:
  assumes "list_all answered offs" and "fst (controller_run tr offs) = At_Idle c"
  shows "\<not> parity False (snd (controller_run tr offs))"
proof -
  have "parity_ok (fst (controller_run tr offs)) (parity False (snd (controller_run tr offs)))"
    using assms(1)
  proof (induction offs rule: rev_induct)
    case Nil
    show ?case by (simp add: controller_new_def)
  next
    case (snoc off offs)
    with step_parity [OF ctl.run_inv [OF controller_new_ok, of tr offs], of _ off tr] show ?case
      by (simp add: fst_run_machine_append snd_run_machine_append)
  qed
  with assms(2) show ?thesis by simp
qed

theorem controller_resyncs_trigger_witness:
  "\<not> parity False (snd (controller_run id [quiet_offers\<lparr>co_edge := Some (Some Press)\<rparr>,
     quiet_offers\<lparr>co_result := Some (Inr Out_Aborted)\<rparr>, quiet_offers\<lparr>co_event := Some None\<rparr>]))"
  using controller_resyncs_trigger [of "[quiet_offers\<lparr>co_edge := Some (Some Press)\<rparr>,
     quiet_offers\<lparr>co_result := Some (Inr Out_Aborted)\<rparr>, quiet_offers\<lparr>co_event := Some None\<rparr>]" id
     "\<lparr>ct_state = DS_Idle, ct_warned = []\<rparr>"]
  by (simp add: ctrl_eval answered_def)

text \<open>
  The hypothesis that no session completes is needed: a session that completes before any edge,
  focus loss or silence timeout ended it leaves the parity set, and the next poke of a toggle
  trigger is then read as a release and ignored.
\<close>

lemma completed_leaves_parity_set:
  "\<exists>offs c. fst (controller_run id offs) = At_Idle c \<and> parity False (snd (controller_run id offs))"
proof (intro exI conjI)
  let ?offs = "[quiet_offers\<lparr>co_edge := Some (Some Press)\<rparr>,
    quiet_offers\<lparr>co_result := Some (Inr (Out_Completed (lit ''hi'')))\<rparr>, quiet_offers\<lparr>co_event := Some None\<rparr>]"
  show "fst (controller_run id ?offs) = At_Idle \<lparr>ct_state = DS_Idle, ct_warned = []\<rparr>"
    by (simp add: ctrl_eval)
  show "parity False (snd (controller_run id ?offs))" by (simp add: ctrl_eval)
qed

text \<open>
  Text that reached no field is never reported as delivered: when a completed utterance
  dropped text (discarded after a loss, or refused at the very last flush) and the target is not
  gone, the completion notice is the focus loss, however much was transcribed.
\<close>

theorem controller_reports_dropped_text:
  assumes "live (ct_state c)" and "sv_ending v \<noteq> Target_Gone"
    and "buf_dropped (utt_buffer (sv_utt v)) \<or>
      buf_pending (utt_buffer (sv_utt v)) \<noteq> [] \<and>
        (sv_ending v \<noteq> Still_Writing \<or> co_commit off = Some IE_FocusLost)"
  shows "Ef_Indicator (recoverable (tr (lit ''Focus lost''))) \<in>
      set (snd (finish_utterance tr off (Inr (Out_Completed t)) c v)) \<and>
    Ef_Indicator IS_Hidden \<notin> set (snd (finish_utterance tr off (Inr (Out_Completed t)) c v))"
proof -
  obtain b e1 out1 where fl:
    "buffer_flush (co_commit off) (co_before off) (writes_allowed (sv_ending v)) (utt_buffer (sv_utt v)) = (b, e1, out1)"
    by (metis prod_cases3)
  have b: "buf_dropped b" and e1: "e1 \<noteq> Target_Gone" and out1: "Ef_Indicator i \<notin> set out1" for i
    using fl assms(3)
    by (cases rule: buffer_flush_cases [of "utt_buffer (sv_utt v)" "co_commit off" "co_before off"
          "writes_allowed (sv_ending v)"]; auto simp: writes_allowed_def split: if_splits)+
  have "ending_or (sv_ending v) e1 \<noteq> Target_Gone" using ending_or_gone [OF e1] assms(2) by simp
  moreover have "completion_indicator_state tr t (ending_delivery e (buf_dropped b)) q w =
      recoverable (tr (lit ''Focus lost''))" for e q w
    using b by (simp add: completion_indicator_state_def ending_delivery_def)
  ultimately show ?thesis
    using assms(1) fl out1
    by (auto simp: finish_utterance_def dispose_def finalize_live advance_def Let_def levels_effect_def
        recoverable_def)
qed

theorem controller_reports_dropped_text_witness:
  "Ef_Indicator (recoverable (lit ''Focus lost'')) \<in>
     set (snd (finish_utterance id (quiet_offers\<lparr>co_commit := Some IE_FocusLost\<rparr>)
       (Inr (Out_Completed (lit ''hi''))) \<lparr>ct_state = DS_Finalizing, ct_warned = []\<rparr>
       \<lparr>sv_ending = Still_Writing, sv_utt = utterance_new\<lparr>utt_buffer := buffer_push buffer_new (lit ''hi'')\<rparr>,
        sv_trigger_open = False, sv_focus_open = True, sv_events_open = False, sv_stats_open = False,
        sv_tap = False, sv_preedit = False, sv_done = None\<rparr>))"
  using controller_reports_dropped_text [of "\<lparr>ct_state = DS_Finalizing, ct_warned = []\<rparr>"
       "\<lparr>sv_ending = Still_Writing, sv_utt = utterance_new\<lparr>utt_buffer := buffer_push buffer_new (lit ''hi'')\<rparr>,
        sv_trigger_open = False, sv_focus_open = True, sv_events_open = False, sv_stats_open = False,
        sv_tap = False, sv_preedit = False, sv_done = None\<rparr>"
       "quiet_offers\<lparr>co_commit := Some IE_FocusLost\<rparr>" id "lit ''hi''"]
  by (simp add: quiet_offers_def utterance_new_def buffer_push_def buffer_new_def)

end
