(* ===== verification/Trigger.thy ===== *)
theory Trigger
  imports Controller
begin

text \<open>
  The toggle trigger, \<open>client/myna-desktop/src/shortcut/control.rs\<close>: pokes from the desktop
  shortcut become alternating press and release edges, and a held key's repeats become none.
  \<open>next_edge\<close> is polled at a time; \<open>None\<close> is its waiting. Times are milliseconds.
\<close>

section \<open>Pokes and the trigger\<close>

definition BACKLOG :: nat where "BACKLOG = 8"
definition REPEAT_QUIET :: nat where "REPEAT_QUIET = 800"
definition REPEAT_FOLLOW :: nat where "REPEAT_FOLLOW = 200"

record arrival =
  arr_at :: nat
  arr_gap :: "nat option"

record trigger =
  tg_queue :: "arrival list"
  tg_last :: "nat option"
  tg_pressed :: bool
  tg_candidate :: "arrival option"
  tg_later :: "arrival option"
  tg_streaming :: bool
  tg_quiet :: nat

definition with_quiet :: "nat \<Rightarrow> trigger" where
  "with_quiet q = \<lparr>tg_queue = [], tg_last = None, tg_pressed = False, tg_candidate = None, tg_later = None,
     tg_streaming = False, tg_quiet = q\<rparr>"

definition trigger_new :: trigger where
  "trigger_new = with_quiet REPEAT_QUIET"

text \<open>A full backlog drops the poke, but not the time it came at.\<close>

definition poke :: "nat \<Rightarrow> trigger \<Rightarrow> trigger" where
  "poke now t =
     (let gap = map_option (\<lambda>before. now - before) (tg_last t);
          q = (if length (tg_queue t) < BACKLOG then tg_queue t @ [\<lparr>arr_at = now, arr_gap = gap\<rparr>] else tg_queue t)
      in t\<lparr>tg_last := Some now, tg_queue := q\<rparr>)"

definition toggle :: "trigger \<Rightarrow> trigger \<times> trigger_edge" where
  "toggle t = (t\<lparr>tg_pressed := \<not> tg_pressed t\<rparr>, if \<not> tg_pressed t then Press else Release)"

definition gap_below :: "nat \<Rightarrow> arrival \<Rightarrow> bool" where
  "gap_below n a = (case arr_gap a of Some g \<Rightarrow> g < n | None \<Rightarrow> False)"

text \<open>\<open>later.take()\<close>, else the queue.\<close>

definition take_arrival :: "trigger \<Rightarrow> (arrival \<times> trigger) option" where
  "take_arrival t =
     (case tg_later t of
        Some a \<Rightarrow> Some (a, t\<lparr>tg_later := None\<rparr>)
      | None \<Rightarrow> (case tg_queue t of [] \<Rightarrow> None | a # q \<Rightarrow> Some (a, t\<lparr>tg_queue := q\<rparr>)))"

definition backlog_measure :: "trigger \<Rightarrow> nat" where
  "backlog_measure t =
     3 * (length (tg_queue t) + (if tg_later t = None then 0 else 1)) + (if tg_candidate t = None then 0 else 1)"

lemma take_arrival_measure:
  "take_arrival t = Some (a, t') \<Longrightarrow>
   backlog_measure t' + 3 = backlog_measure t \<and> tg_candidate t' = tg_candidate t \<and> tg_pressed t' = tg_pressed t"
  by (auto simp: take_arrival_def backlog_measure_def split: option.splits list.splits)

function next_edge :: "nat \<Rightarrow> trigger \<Rightarrow> trigger \<times> trigger_edge option" where
  "next_edge now t =
     (case tg_candidate t of
        Some c \<Rightarrow>
          (case take_arrival t of
             Some (nxt, t') \<Rightarrow>
               (if gap_below REPEAT_FOLLOW nxt
                then next_edge now (t'\<lparr>tg_candidate := None, tg_streaming := True\<rparr>)
                else let (t'', e) = toggle (t'\<lparr>tg_candidate := None, tg_later := Some nxt\<rparr>) in (t'', Some e))
           | None \<Rightarrow>
               (if arr_at c + REPEAT_FOLLOW \<le> now
                then let (t'', e) = toggle (t\<lparr>tg_candidate := None\<rparr>) in (t'', Some e)
                else (t, None)))
      | None \<Rightarrow>
          (case take_arrival t of
             None \<Rightarrow> (t, None)
           | Some (a, t') \<Rightarrow>
               (if \<not> gap_below (tg_quiet t) a
                then let (t'', e) = toggle (t'\<lparr>tg_streaming := False\<rparr>) in (t'', Some e)
                else if tg_streaming t \<and> gap_below REPEAT_FOLLOW a then next_edge now t'
                else next_edge now (t'\<lparr>tg_streaming := False, tg_candidate := Some a\<rparr>))))"
  by pat_completeness auto
termination
  by (relation "measure (\<lambda>(now, t). backlog_measure t)")
    (auto dest!: take_arrival_measure simp: backlog_measure_def split: if_splits)

declare next_edge.simps [simp del]

definition discard_pending :: "trigger \<Rightarrow> trigger" where
  "discard_pending t = t\<lparr>tg_candidate := None, tg_later := None, tg_queue := []\<rparr>"

definition resync :: "trigger \<Rightarrow> trigger" where
  "resync t = t\<lparr>tg_pressed := False\<rparr>"

section \<open>Using the trigger\<close>

datatype trigger_op = Poke nat | Ask nat | Discard | Resync

datatype trigger_out = Edge trigger_edge | Resynced

fun trigger_step :: "trigger \<Rightarrow> trigger_op \<Rightarrow> trigger \<times> trigger_out list" where
  "trigger_step t (Poke now) = (poke now t, [])"
| "trigger_step t (Ask now) =
     (let (t', e) = next_edge now t in (t', (case e of None \<Rightarrow> [] | Some x \<Rightarrow> [Edge x])))"
| "trigger_step t Discard = (discard_pending t, [])"
| "trigger_step t Resync = (resync t, [Resynced])"

text \<open>Edges alternate, starting over after a resync.\<close>

fun alternates :: "bool \<Rightarrow> trigger_out list \<Rightarrow> bool" where
  "alternates p [] = True"
| "alternates p (Edge e # outs) = (e = (if p then Release else Press) \<and> alternates (\<not> p) outs)"
| "alternates p (Resynced # outs) = alternates False outs"

fun parity_after :: "bool \<Rightarrow> trigger_out list \<Rightarrow> bool" where
  "parity_after p [] = p"
| "parity_after p (Edge e # outs) = parity_after (e = Press) outs"
| "parity_after p (Resynced # outs) = parity_after False outs"

lemma toggle_simps [simp]:
  "tg_pressed (fst (toggle t)) = (\<not> tg_pressed t)" "snd (toggle t) = (if tg_pressed t then Release else Press)"
  by (simp_all add: toggle_def)

definition edge_ok :: "bool \<Rightarrow> trigger \<times> trigger_edge option \<Rightarrow> bool" where
  "edge_ok p r \<longleftrightarrow>
     (case snd r of
        None \<Rightarrow> tg_pressed (fst r) = p
      | Some e \<Rightarrow> tg_pressed (fst r) = (\<not> p) \<and> e = (if p then Release else Press))"

lemma edge_ok_toggle: "tg_pressed t = p \<Longrightarrow> edge_ok p (let (t', e) = toggle t in (t', Some e))"
  by (simp add: edge_ok_def split_beta)

lemma next_edge_parity: "edge_ok (tg_pressed t) (next_edge now t)"
proof (induction now t rule: next_edge.induct)
  case (1 now t)
  show ?case
  proof (cases "take_arrival t")
    case None
    then show ?thesis
      by (cases "tg_candidate t")
        (auto simp: next_edge.simps [of now t] edge_ok_def toggle_def)
  next
    case (Some arrived)
    obtain a t' where at: "arrived = (a, t')" by (cases arrived)
    with Some have p: "tg_pressed t' = tg_pressed t" using take_arrival_measure by blast
    show ?thesis
    proof (cases "tg_candidate t")
      case None
      from 1(1) [OF None Some at [symmetric]] 1(2) [OF None Some at [symmetric]] Some at None p show ?thesis
        by (cases "gap_below (tg_quiet t) a"; cases "tg_streaming t \<and> gap_below REPEAT_FOLLOW a")
          (auto simp: next_edge.simps [of now t] edge_ok_def toggle_def)
    next
      case cand: (Some c)
      from 1(3) [OF cand Some at [symmetric]] Some at cand p show ?thesis
        by (cases "gap_below REPEAT_FOLLOW a") (auto simp: next_edge.simps [of now t] edge_ok_def toggle_def)
    qed
  qed
qed

lemma alternates_append: "alternates p (xs @ ys) \<longleftrightarrow> alternates p xs \<and> alternates (parity_after p xs) ys"
proof (induction xs arbitrary: p)
  case (Cons x xs)
  then show ?case
  proof (cases x)
    case (Edge e)
    with Cons show ?thesis by (cases p; cases e) auto
  qed simp
qed simp

lemma parity_after_append: "parity_after p (xs @ ys) = parity_after (parity_after p xs) ys"
  by (induction p xs rule: parity_after.induct) simp_all

lemma trigger_step_parity:
  "alternates (tg_pressed t) (snd (trigger_step t op)) \<and>
   tg_pressed (fst (trigger_step t op)) = parity_after (tg_pressed t) (snd (trigger_step t op))"
proof (cases op)
  case (Ask now)
  with next_edge_parity [of t now] show ?thesis
    by (auto simp: split_beta edge_ok_def split: option.splits)
qed (simp_all add: poke_def discard_pending_def resync_def Let_def)

lemma trigger_run_parity:
  "alternates (tg_pressed t) (snd (run_machine trigger_step t ops)) \<and>
   tg_pressed (fst (run_machine trigger_step t ops)) =
     parity_after (tg_pressed t) (snd (run_machine trigger_step t ops))"
proof (induction ops arbitrary: t)
  case (Cons op ops)
  from trigger_step_parity [of t op] Cons.IH [of "fst (trigger_step t op)"] show ?case
    by (auto simp: alternates_append parity_after_append simp del: trigger_step.simps)
qed simp

text \<open>A repeat stream under way swallows every close poke without an edge.\<close>

lemma next_edge_streaming:
  assumes "tg_candidate t = None" and "tg_later t = None" and "tg_streaming t"
    and "list_all (gap_below REPEAT_FOLLOW) (tg_queue t)" and "REPEAT_FOLLOW \<le> tg_quiet t"
  shows "next_edge now t = (t\<lparr>tg_queue := []\<rparr>, None)"
  using assms
proof (induction "tg_queue t" arbitrary: t)
  case Nil
  then show ?case by (subst next_edge.simps) (simp add: take_arrival_def)
next
  case (Cons a q)
  from Cons(2) [symmetric] Cons(3-) have take: "take_arrival t = Some (a, t\<lparr>tg_queue := q\<rparr>)"
    by (simp add: take_arrival_def)
  have gap: "gap_below REPEAT_FOLLOW a" using Cons(2) [symmetric] Cons(6) by simp
  then have "gap_below (tg_quiet t) a" using Cons(7) by (auto simp: gap_below_def split: option.splits)
  with take gap Cons(3-5) have "next_edge now t = next_edge now (t\<lparr>tg_queue := q\<rparr>)"
    by (subst next_edge.simps) simp
  also have "\<dots> = (t\<lparr>tg_queue := q\<rparr>\<lparr>tg_queue := []\<rparr>, None)"
    using Cons(2) [symmetric] Cons(3-) by (intro Cons(1)) simp_all
  finally show ?case by simp
qed

lemma asks_waiting:
  "(\<And>n. next_edge n s = (s, None)) \<Longrightarrow> snd (run_machine trigger_step s (map Ask ns)) = []"
  by (induction ns) simp_all

section \<open>Properties of the trigger\<close>

text \<open>
  Edges strictly alternate, press first, and start over with a press after a resync, whatever
  pokes, polls and discards are interleaved; so a controller that resyncs after an utterance gets
  a press from the next poke.
\<close>

theorem trigger_alternates: "alternates False (snd (run_machine trigger_step trigger_new ops))"
  using trigger_run_parity [of trigger_new ops] by (simp add: trigger_new_def with_quiet_def)

text \<open>
  A held key is one press: with the first poke, the first repeat (within the quiet time) and
  any number of further repeats close behind it waiting, polling yields exactly one edge and then
  waits, however often and whenever it is polled.
\<close>

theorem trigger_held_key_one_edge:
  assumes "tg_queue t = first # second # third # rest" and "tg_candidate t = None" and "tg_later t = None"
    and "\<not> gap_below (tg_quiet t) first" and "gap_below (tg_quiet t) second"
    and "list_all (gap_below REPEAT_FOLLOW) (third # rest)" and "REPEAT_FOLLOW \<le> tg_quiet t"
  shows "snd (run_machine trigger_step t (map Ask (now # later))) = [Edge (if tg_pressed t then Release else Press)]"
proof -
  let ?t1 = "t\<lparr>tg_queue := second # third # rest, tg_streaming := False, tg_pressed := \<not> tg_pressed t\<rparr>"
  let ?t2 = "?t1\<lparr>tg_queue := third # rest, tg_candidate := Some second\<rparr>"
  let ?t3 = "?t1\<lparr>tg_queue := rest, tg_candidate := None, tg_streaming := True\<rparr>"
  have one: "next_edge now t = (?t1, Some (if tg_pressed t then Release else Press))"
    using assms by (subst next_edge.simps, cases t) (simp add: take_arrival_def toggle_def)
  have two: "next_edge n ?t1 = (?t3\<lparr>tg_queue := []\<rparr>, None)" for n
  proof -
    have "next_edge n ?t1 = next_edge n ?t2"
      using assms by (subst next_edge.simps, cases t) (simp add: take_arrival_def)
    also have "\<dots> = next_edge n ?t3"
      using assms by (subst next_edge.simps, cases t) (simp add: take_arrival_def)
    also have "\<dots> = (?t3\<lparr>tg_queue := []\<rparr>, None)"
      using assms by (intro next_edge_streaming) simp_all
    finally show ?thesis .
  qed
  have three: "next_edge n (?t3\<lparr>tg_queue := []\<rparr>) = (?t3\<lparr>tg_queue := []\<rparr>, None)" for n
    using assms next_edge_streaming [of "?t3\<lparr>tg_queue := []\<rparr>" n] by simp
  have idle: "snd (run_machine trigger_step (?t3\<lparr>tg_queue := []\<rparr>) (map Ask ns)) = []" for ns
    by (rule asks_waiting [OF three])
  have "snd (run_machine trigger_step ?t1 (map Ask later)) = []"
  proof (cases later)
    case (Cons n ns)
    have "trigger_step ?t1 (Ask n) = (?t3\<lparr>tg_queue := []\<rparr>, [])" by (simp only: trigger_step.simps two) simp
    with Cons idle [of ns] show ?thesis by (simp del: trigger_step.simps)
  qed simp
  then show ?thesis by (simp add: one)
qed

theorem trigger_held_key_one_edge_witness:
  "snd (run_machine trigger_step (poke 570 (poke 500 (poke 450 (poke 0 trigger_new)))) (map Ask [600, 700])) = [Edge Press]"
  using trigger_held_key_one_edge [of "poke 570 (poke 500 (poke 450 (poke 0 trigger_new)))"
      "\<lparr>arr_at = 0, arr_gap = None\<rparr>" "\<lparr>arr_at = 450, arr_gap = Some 450\<rparr>"
      "\<lparr>arr_at = 500, arr_gap = Some 50\<rparr>" "[\<lparr>arr_at = 570, arr_gap = Some 70\<rparr>]" 600 "[700]"]
  by (simp add: poke_def trigger_new_def with_quiet_def BACKLOG_def gap_below_def REPEAT_QUIET_def
      REPEAT_FOLLOW_def)

end
