(* ===== verification/Hud_Host.thy ===== *)
theory Hud_Host
  imports Myna_Prelude
begin

text \<open>
  The HUD host, \<open>client/myna-config/src/hud_host\<close>: the supervision rules of \<open>machine.rs\<close>,
  pure (events in, actions out), and the supervisor of \<open>run.rs\<close> that owns the process
  handle and the two timers and performs the actions. Times are milliseconds. Whether
  starting a process succeeds, and when, is offered with each event.
\<close>

section \<open>The supervision rules\<close>

definition BASE_BACKOFF_MS :: nat where "BASE_BACKOFF_MS = 500"
definition MAX_BACKOFF_MS :: nat where "MAX_BACKOFF_MS = 30000"
definition RESTART_BUDGET :: nat where "RESTART_BUDGET = 5"
definition HEALTHY_UPTIME_MS :: nat where "HEALTHY_UPTIME_MS = 60000"
definition TERM_GRACE_MS :: nat where "TERM_GRACE_MS = 3000"
definition EXIT_CANNOT_HOST :: int where "EXIT_CANNOT_HOST = 78"

datatype hud_event =
    HE_NameOwned
  | HE_NameLost
  | HE_Exited "int option" nat
  | HE_SpawnFailed nat
  | HE_RestartDue
  | HE_KillDue
  | HE_Spawned nat
  | HE_Shutdown

datatype hud_note = HN_CannotHost | HN_Dormant

datatype hud_action =
    HA_Register
  | HA_Unregister
  | HA_Spawn
  | HA_Terminate
  | HA_Kill
  | HA_ArmRestart nat
  | HA_CancelRestart
  | HA_ArmKill nat
  | HA_CancelKill
  | HA_Log hud_note

datatype hud_child =
    HC_None
  | HC_Running nat
  | HC_Stopping bool
  | HC_Backoff

record hud_machine =
  hm_owned :: bool
  hm_child :: hud_child
  hm_failures :: nat
  hm_refused :: bool
  hm_dormant :: bool
  hm_registered :: bool
  hm_grace_ms :: nat

definition hud_machine_new :: hud_machine where
  "hud_machine_new = \<lparr>hm_owned = False, hm_child = HC_None, hm_failures = 0, hm_refused = False,
     hm_dormant = False, hm_registered = False, hm_grace_ms = TERM_GRACE_MS\<rparr>"

definition with_grace :: "nat \<Rightarrow> hud_machine \<Rightarrow> hud_machine" where
  "with_grace g m = m\<lparr>hm_grace_ms := g\<rparr>"

definition has_child :: "hud_machine \<Rightarrow> bool" where
  "has_child m = (case hm_child m of HC_Running _ \<Rightarrow> True | HC_Stopping _ \<Rightarrow> True | _ \<Rightarrow> False)"

definition startable :: "hud_machine \<Rightarrow> bool" where
  "startable m \<longleftrightarrow> hm_owned m \<and> \<not> hm_refused m \<and> \<not> hm_dormant m"

definition name_owned :: "hud_machine \<Rightarrow> hud_machine \<times> hud_action list" where
  "name_owned m =
     (if hm_owned m then (m, [])
      else let m = m\<lparr>hm_owned := True\<rparr> in
        if \<not> startable m then (m, [])
        else let m = m\<lparr>hm_registered := True\<rparr> in
          case hm_child m of
            HC_None \<Rightarrow> (m, [HA_Register, HA_Spawn])
          | HC_Stopping _ \<Rightarrow> (m\<lparr>hm_child := HC_Stopping True\<rparr>, [HA_Register])
          | _ \<Rightarrow> (m, [HA_Register]))"

definition unregister :: "hud_machine \<Rightarrow> hud_machine \<times> hud_action list" where
  "unregister m =
     (if hm_registered m then (m\<lparr>hm_registered := False\<rparr>, [HA_Unregister]) else (m, []))"

definition name_lost :: "hud_machine \<Rightarrow> hud_machine \<times> hud_action list" where
  "name_lost m =
     (if \<not> hm_owned m then (m, [])
      else let m = m\<lparr>hm_owned := False, hm_registered := False, hm_failures := 0, hm_dormant := False\<rparr> in
        case hm_child m of
          HC_Running _ \<Rightarrow> (m\<lparr>hm_child := HC_Stopping False\<rparr>, [HA_Terminate, HA_ArmKill (hm_grace_ms m)])
        | HC_Stopping _ \<Rightarrow> (m\<lparr>hm_child := HC_Stopping False\<rparr>, [])
        | HC_Backoff \<Rightarrow> (m\<lparr>hm_child := HC_None\<rparr>, [HA_CancelRestart])
        | HC_None \<Rightarrow> (m, []))"

text \<open>\<open>BASE_BACKOFF_MS.saturating_mul(1 << (failures - 1)).min(MAX_BACKOFF_MS)\<close> on \<open>u64\<close>.\<close>

definition backoff_delay :: "nat \<Rightarrow> nat" where
  "backoff_delay failures = min (min (2 ^ 64 - 1) (BASE_BACKOFF_MS * 2 ^ (failures - 1))) MAX_BACKOFF_MS"

definition fail :: "hud_machine \<Rightarrow> hud_machine \<times> hud_action list" where
  "fail m =
     (let m = m\<lparr>hm_failures := hm_failures m + 1\<rparr> in
      if RESTART_BUDGET < hm_failures m
      then let (m, actions) = unregister (m\<lparr>hm_dormant := True\<rparr>) in (m, actions @ [HA_Log HN_Dormant])
      else (m\<lparr>hm_child := HC_Backoff\<rparr>, [HA_ArmRestart (backoff_delay (hm_failures m))]))"

definition exited :: "int option \<Rightarrow> nat \<Rightarrow> hud_machine \<Rightarrow> hud_machine \<times> hud_action list" where
  "exited code now_ms m =
     (case hm_child m of
        HC_Stopping then_start \<Rightarrow>
          (let m = m\<lparr>hm_failures := 0, hm_child := HC_None\<rparr> in
           (m, HA_CancelKill # (if then_start \<and> startable m then [HA_Spawn] else [])))
      | HC_Running since_ms \<Rightarrow>
          (let m = m\<lparr>hm_child := HC_None\<rparr> in
           if code = Some EXIT_CANNOT_HOST
           then let (m, actions) = unregister (m\<lparr>hm_refused := True\<rparr>) in (m, actions @ [HA_Log HN_CannotHost])
           else let m = (if HEALTHY_UPTIME_MS \<le> now_ms - since_ms then m\<lparr>hm_failures := 0\<rparr> else m) in fail m)
      | HC_None \<Rightarrow> (if startable m then fail m else (m, []))
      | HC_Backoff \<Rightarrow> (m, []))"

fun hud_step :: "hud_machine \<Rightarrow> hud_event \<Rightarrow> hud_machine \<times> hud_action list" where
  "hud_step m HE_NameOwned = name_owned m"
| "hud_step m HE_NameLost = name_lost m"
| "hud_step m HE_Shutdown =
     (let (m, actions) = unregister m; (m, more_actions) = name_lost m in (m, actions @ more_actions))"
| "hud_step m (HE_Spawned now_ms) = (m\<lparr>hm_child := HC_Running now_ms\<rparr>, [])"
| "hud_step m (HE_Exited code now_ms) = exited code now_ms m"
| "hud_step m (HE_SpawnFailed now_ms) = exited None now_ms m"
| "hud_step m HE_RestartDue =
     (if hm_child m = HC_Backoff \<and> hm_owned m then (m\<lparr>hm_child := HC_None\<rparr>, [HA_Spawn]) else (m, []))"
| "hud_step m HE_KillDue =
     (case hm_child m of HC_Stopping _ \<Rightarrow> (m, [HA_Kill]) | _ \<Rightarrow> (m, []))"

section \<open>The supervisor\<close>

text \<open>
  What the supervisor does outside itself: the calls to the daemon (only with a bus
  connection), processes started, not started or ended, signals sent, log lines. \<open>sup_restart\<close> and
  \<open>sup_kill\<close> are the armed GLib timers with their delays.
\<close>

datatype sup_effect =
    SX_RegisterClient
  | SX_UnregisterClient
  | SX_Started
  | SX_Reaped
  | SX_StartFailed
  | SX_Sigterm
  | SX_ForceExit
  | SX_RestartIn nat
  | SX_Log hud_note

record supervisor =
  sup_machine :: hud_machine
  sup_conn :: bool
  sup_child :: bool
  sup_restart :: "nat option"
  sup_kill :: "nat option"
  sup_quitting :: bool
  sup_main_loop_quit :: bool

definition supervisor_new :: "nat option \<Rightarrow> supervisor" where
  "supervisor_new grace = \<lparr>sup_machine = (case grace of Some g \<Rightarrow> with_grace g hud_machine_new | None \<Rightarrow> hud_machine_new),
     sup_conn = False, sup_child = False, sup_restart = None, sup_kill = None, sup_quitting = False,
     sup_main_loop_quit = False\<rparr>"

definition settle_quit :: "supervisor \<Rightarrow> supervisor" where
  "settle_quit s = (if sup_quitting s \<and> \<not> has_child (sup_machine s) then s\<lparr>sup_main_loop_quit := True\<rparr> else s)"

text \<open>
  \<open>perform\<close>, over the function \<open>Spawn\<close> calls; \<open>tell_daemon\<close> says nothing without a bus
  connection, and signals go to the process the handle names.
\<close>

fun perform :: "(supervisor \<Rightarrow> (supervisor \<times> sup_effect list) option) \<Rightarrow> supervisor \<Rightarrow> hud_action
    \<Rightarrow> (supervisor \<times> sup_effect list) option" where
  "perform spawn s HA_Register = Some (s, if sup_conn s then [SX_RegisterClient] else [])"
| "perform spawn s HA_Unregister = Some (s, if sup_conn s then [SX_UnregisterClient] else [])"
| "perform spawn s HA_Spawn = spawn s"
| "perform spawn s HA_Terminate = Some (s, if sup_child s then [SX_Sigterm] else [])"
| "perform spawn s HA_Kill = Some (s, if sup_child s then [SX_ForceExit] else [])"
| "perform spawn s (HA_ArmRestart ms) = Some (s\<lparr>sup_restart := Some ms\<rparr>, [SX_RestartIn ms])"
| "perform spawn s HA_CancelRestart = Some (s\<lparr>sup_restart := None\<rparr>, [])"
| "perform spawn s (HA_ArmKill ms) = Some (s\<lparr>sup_kill := Some ms\<rparr>, [])"
| "perform spawn s HA_CancelKill = Some (s\<lparr>sup_kill := None\<rparr>, [])"
| "perform spawn s (HA_Log n) = Some (s, [SX_Log n])"

fun perform_all :: "(supervisor \<Rightarrow> (supervisor \<times> sup_effect list) option) \<Rightarrow> supervisor \<Rightarrow> hud_action list
    \<Rightarrow> (supervisor \<times> sup_effect list) option" where
  "perform_all spawn s [] = Some (s, [])"
| "perform_all spawn s (a # as) =
     (case perform spawn s a of
        None \<Rightarrow> None
      | Some (s', fx) \<Rightarrow>
          (case perform_all spawn s' as of None \<Rightarrow> None | Some (s'', fx') \<Rightarrow> Some (s'', fx @ fx')))"

text \<open>
  \<open>feed\<close> steps the machine and performs its actions in order; \<open>Spawn\<close> starts the process
  and feeds the machine the outcome from inside. The nesting is counted down by \<open>n\<close>, and a
  \<open>Spawn\<close> at depth 0 is \<open>None\<close>; by \<open>feed_total\<close> one level is enough. The process's
  outcome \<open>os\<close> is whether it started and the time.
\<close>

fun feed :: "nat \<Rightarrow> bool \<times> nat \<Rightarrow> supervisor \<Rightarrow> hud_event \<Rightarrow> (supervisor \<times> sup_effect list) option"
  and spawn_hud :: "nat \<Rightarrow> bool \<times> nat \<Rightarrow> supervisor \<Rightarrow> (supervisor \<times> sup_effect list) option" where
  "feed n os s ev =
     (let (m, actions) = hud_step (sup_machine s) ev in
      case perform_all (spawn_hud n os) (s\<lparr>sup_machine := m\<rparr>) actions of
        None \<Rightarrow> None
      | Some (s', fx) \<Rightarrow> Some (settle_quit s', fx))"
| "spawn_hud 0 os s = None"
| "spawn_hud (Suc n) (ok, now_ms) s =
     (if ok
      then map_option (\<lambda>(s', fx). (s', SX_Started # fx)) (feed n (ok, now_ms) (s\<lparr>sup_child := True\<rparr>) (HE_Spawned now_ms))
      else map_option (\<lambda>(s', fx). (s', SX_StartFailed # fx)) (feed n (ok, now_ms) s (HE_SpawnFailed now_ms)))"

text \<open>
  What the GLib main loop delivers: the bus name watch, the process's end, the timers, and
  the signals and the display's end that both call \<open>end\<close>. A timer fires only while armed,
  a process ends only while there is one, and nothing is delivered once the loop has quit.
\<close>

datatype sup_input =
    SI_NameAppeared
  | SI_NameVanished
  | SI_ChildExited "int option" nat
  | SI_RestartTimer
  | SI_KillTimer
  | SI_End

fun deliver :: "bool \<times> nat \<Rightarrow> supervisor \<Rightarrow> sup_input \<Rightarrow> (supervisor \<times> sup_effect list) option" where
  "deliver os s SI_NameAppeared =
     (if sup_quitting s then Some (s, []) else feed 1 os (s\<lparr>sup_conn := True\<rparr>) HE_NameOwned)"
| "deliver os s SI_NameVanished = feed 1 os s HE_NameLost"
| "deliver os s (SI_ChildExited code now_ms) =
     (if sup_child s
      then map_option (\<lambda>(s', fx). (s', SX_Reaped # fx)) (feed 1 os (s\<lparr>sup_child := False\<rparr>) (HE_Exited code now_ms))
      else Some (s, []))"
| "deliver os s SI_RestartTimer =
     (if sup_restart s \<noteq> None then feed 1 os (s\<lparr>sup_restart := None\<rparr>) HE_RestartDue else Some (s, []))"
| "deliver os s SI_KillTimer =
     (if sup_kill s \<noteq> None then feed 1 os (s\<lparr>sup_kill := None\<rparr>) HE_KillDue else Some (s, []))"
| "deliver os s SI_End = feed 1 os (s\<lparr>sup_quitting := True\<rparr>) HE_Shutdown"

definition sup_step :: "supervisor \<Rightarrow> (bool \<times> nat) \<times> sup_input \<Rightarrow> supervisor \<times> sup_effect list" where
  "sup_step s i =
     (if sup_main_loop_quit s then (s, [])
      else case deliver (fst i) s (snd i) of Some r \<Rightarrow> r | None \<Rightarrow> (s, []))"

section \<open>One level of nesting is enough\<close>

lemma spawn_hud_settles:
  "spawn_hud (Suc n) os s = None \<Longrightarrow> hm_child (sup_machine s) \<noteq> HC_None"
  by (cases os) (auto simp: exited_def fail_def unregister_def Let_def split: if_splits)

lemmas hud_step_defs = name_owned_def name_lost_def exited_def fail_def unregister_def startable_def Let_def

lemma feed_total: "feed (Suc n) os s ev \<noteq> None"
  by (cases ev; cases "hm_child (sup_machine s)")
    (auto dest!: spawn_hud_settles simp: hud_step_defs split: if_splits option.splits prod.splits)

lemma deliver_total: "deliver os s i \<noteq> None"
  using feed_total [of 0 os] by (cases i) (auto simp del: feed.simps)

lemma sup_step_deliver: "\<not> sup_main_loop_quit s \<Longrightarrow> deliver os s i = Some (sup_step s (os, i))"
  using deliver_total [of os s i] by (auto simp: sup_step_def)

section \<open>The supervisor's invariant\<close>

text \<open>
  Between deliveries: the handle is set exactly while the machine counts a child, the
  restart timer is armed exactly in backoff, the kill timer only while stopping; the daemon
  is told of a pill exactly while one may be started, and then one is running, being
  restarted, or will be once the old process is gone.
\<close>

fun child_ok :: "hud_machine \<Rightarrow> hud_child \<Rightarrow> bool" where
  "child_ok m HC_None \<longleftrightarrow> \<not> startable m"
| "child_ok m (HC_Running since) \<longleftrightarrow> startable m"
| "child_ok m (HC_Stopping then_start) \<longleftrightarrow> then_start = hm_owned m \<and> \<not> hm_refused m \<and> \<not> hm_dormant m"
| "child_ok m HC_Backoff \<longleftrightarrow> startable m"

definition machine_ok :: "hud_machine \<Rightarrow> bool" where
  "machine_ok m \<longleftrightarrow> hm_registered m = startable m \<and> child_ok m (hm_child m)
     \<and> (if hm_dormant m then hm_failures m = Suc RESTART_BUDGET else hm_failures m \<le> RESTART_BUDGET)
     \<and> (\<not> hm_owned m \<longrightarrow> hm_failures m = 0 \<and> \<not> hm_dormant m) \<and> (hm_child m = HC_Backoff \<longrightarrow> 0 < hm_failures m)"

definition timers_ok :: "supervisor \<Rightarrow> bool" where
  "timers_ok s \<longleftrightarrow> sup_child s = has_child (sup_machine s)
     \<and> (sup_restart s \<noteq> None) = (hm_child (sup_machine s) = HC_Backoff)
     \<and> (sup_kill s \<noteq> None \<longrightarrow> (\<exists>b. hm_child (sup_machine s) = HC_Stopping b))"

definition quit_ok :: "supervisor \<Rightarrow> bool" where
  "quit_ok s \<longleftrightarrow> (sup_quitting s \<longrightarrow> \<not> hm_owned (sup_machine s))
     \<and> (hm_owned (sup_machine s) \<longrightarrow> sup_conn s)
     \<and> sup_main_loop_quit s = (sup_quitting s \<and> \<not> has_child (sup_machine s))"

definition sup_ok :: "supervisor \<Rightarrow> bool" where
  "sup_ok s \<longleftrightarrow> machine_ok (sup_machine s) \<and> timers_ok s \<and> quit_ok s"

lemmas sup_ok_defs = sup_ok_def machine_ok_def timers_ok_def quit_ok_def

lemma supervisor_new_ok: "sup_ok (supervisor_new g)"
  by (cases g) (simp_all add: sup_ok_defs supervisor_new_def hud_machine_new_def with_grace_def startable_def has_child_def RESTART_BUDGET_def)

text \<open>Every delivery as one equation per case of the child, with the nested feed run out.\<close>

lemmas deliver_run = sup_step_def hud_step_defs settle_quit_def has_child_def

lemma sup_step_ok: "sup_ok s \<Longrightarrow> sup_ok (fst (sup_step s i))"
  by (cases i; cases "snd i"; cases "fst i"; cases "hm_child (sup_machine s)")
    (auto simp: sup_ok_defs deliver_run split: if_splits)

interpretation hud: halting_machine sup_step sup_ok sup_main_loop_quit
  by unfold_locales (simp_all add: sup_step_ok, simp add: sup_step_def)

section \<open>One process at a time\<close>

lemma sup_step_processes:
  "sup_ok s \<Longrightarrow> count_list (snd (sup_step s i)) SX_Started + of_bool (sup_child s)
     = count_list (snd (sup_step s i)) SX_Reaped + of_bool (sup_child (fst (sup_step s i)))"
  by (cases i; cases "snd i"; cases "fst i"; cases "hm_child (sup_machine s)")
    (auto simp: sup_ok_defs deliver_run split: if_splits)

lemma run_processes:
  "sup_ok s \<Longrightarrow> count_list (snd (run_machine sup_step s is)) SX_Started + of_bool (sup_child s)
     = count_list (snd (run_machine sup_step s is)) SX_Reaped + of_bool (sup_child (fst (run_machine sup_step s is)))"
proof (induction "is" arbitrary: s)
  case Nil
  then show ?case by simp
next
  case (Cons i "is")
  have "sup_ok (fst (sup_step s i))" using Cons.prems by (rule sup_step_ok)
  from Cons.IH [OF this] sup_step_processes [OF Cons.prems, of i] show ?case
    by (simp add: count_list_append)
qed

text \<open>
  C15: whatever the bus, the timers, the processes and the signals do, at most one HUD process
  is alive: the processes started are those already reaped, plus the one the handle holds if
  it holds one, and it holds one exactly while the machine counts a child.
\<close>

theorem hud_single_process:
  "let s = fst (run_machine sup_step (supervisor_new g) is); fx = snd (run_machine sup_step (supervisor_new g) is)
   in count_list fx SX_Started = count_list fx SX_Reaped + of_bool (has_child (sup_machine s))
      \<and> sup_child s = has_child (sup_machine s)"
proof -
  have ok: "sup_ok (supervisor_new g)" by (rule supervisor_new_ok)
  have "\<not> sup_child (supervisor_new g)" by (simp add: supervisor_new_def)
  with run_processes [OF ok, of "is"] hud.run_inv [OF ok, of "is"] show ?thesis
    by (simp add: Let_def sup_ok_def timers_ok_def)
qed

section \<open>The daemon knows when a pill is coming\<close>

lemma sup_step_registers:
  assumes "sup_ok s" and "\<not> sup_main_loop_quit s"
  shows "SX_RegisterClient \<in> set (snd (sup_step s i))
      \<longleftrightarrow> \<not> startable (sup_machine s) \<and> startable (sup_machine (fst (sup_step s i)))"
  using assms by (cases i; cases "snd i"; cases "fst i"; cases "hm_child (sup_machine s)")
    (auto simp: sup_ok_defs deliver_run RESTART_BUDGET_def split: if_splits)

lemma sup_step_unregisters:
  assumes "sup_ok s" and "\<not> sup_main_loop_quit s"
  shows "SX_UnregisterClient \<in> set (snd (sup_step s i))
      \<longleftrightarrow> startable (sup_machine s) \<and> \<not> startable (sup_machine (fst (sup_step s i))) \<and> snd i \<noteq> SI_NameVanished"
  using assms by (cases i; cases "snd i"; cases "fst i"; cases "hm_child (sup_machine s)")
    (auto simp: sup_ok_defs deliver_run RESTART_BUDGET_def split: if_splits)

lemma sup_step_starts:
  assumes "sup_ok s" and "\<not> sup_main_loop_quit s" and "SX_Started \<in> set (snd (sup_step s i))"
  shows "startable (sup_machine (fst (sup_step s i)))
     \<and> (SX_RegisterClient \<in> set (snd (sup_step s i)) \<longrightarrow> snd (sup_step s i) = [SX_RegisterClient, SX_Started])"
  using assms by (cases i; cases "snd i"; cases "fst i"; cases "hm_child (sup_machine s)")
    (auto simp: sup_ok_defs deliver_run RESTART_BUDGET_def split: if_splits)

text \<open>
  After any run, the next delivery tells the daemon \<open>RegisterClient\<close> exactly when the
  host goes from not intending to show a pill to intending to, and \<open>UnregisterClient\<close> exactly
  when it stops intending to with the daemon still there. A process is started only with the
  registration on the daemon's books, and in the delivery that makes both, the registration
  comes first.
\<close>

theorem hud_registration:
  fixes g "is" i
  defines "s \<equiv> fst (run_machine sup_step (supervisor_new g) is)"
  defines "s' \<equiv> fst (sup_step s i)" and "fx \<equiv> snd (sup_step s i)"
  assumes running: "\<not> sup_main_loop_quit s"
  shows "(SX_RegisterClient \<in> set fx \<longleftrightarrow> \<not> startable (sup_machine s) \<and> startable (sup_machine s'))
    \<and> (SX_UnregisterClient \<in> set fx
         \<longleftrightarrow> startable (sup_machine s) \<and> \<not> startable (sup_machine s') \<and> snd i \<noteq> SI_NameVanished)
    \<and> (SX_Started \<in> set fx \<longrightarrow> hm_registered (sup_machine s')
         \<and> (SX_RegisterClient \<in> set fx \<longrightarrow> fx = [SX_RegisterClient, SX_Started]))"
proof -
  have ok: "sup_ok s" unfolding s_def by (rule hud.run_inv [OF supervisor_new_ok])
  then have "sup_ok s'" unfolding s'_def by (rule sup_step_ok)
  then have "hm_registered (sup_machine s') = startable (sup_machine s')"
    by (simp add: sup_ok_def machine_ok_def)
  with sup_step_registers [OF ok running, of i] sup_step_unregisters [OF ok running, of i]
    sup_step_starts [OF ok running, of i]
  show ?thesis unfolding s'_def fx_def by blast
qed

theorem hud_registration_witness:
  "let s = fst (run_machine sup_step (supervisor_new None) []); i = ((True, 10), SI_NameAppeared)
   in snd (sup_step s i) = [SX_RegisterClient, SX_Started] \<and> hm_registered (sup_machine (fst (sup_step s i)))"
proof -
  have e: "snd (sup_step (fst (run_machine sup_step (supervisor_new None) [])) ((True, 10), SI_NameAppeared))
      = [SX_RegisterClient, SX_Started]" and q: "\<not> sup_main_loop_quit (fst (run_machine sup_step (supervisor_new None) []))"
    by code_simp+
  from hud_registration [OF q, of "((True, 10), SI_NameAppeared)"] e show ?thesis
    by (simp add: Let_def)
qed

text \<open>
  No pill is forgotten: after any run, while the daemon owns its name and the HUD has
  neither refused this session nor used up its restarts, the HUD is running, or a restart is
  armed, or the old process is on its way out and the new one follows it; and when the
  machine has given up, nothing runs and no timer is armed.
\<close>

theorem hud_never_forgotten:
  "let s = fst (run_machine sup_step (supervisor_new g) is); m = sup_machine s in
   (if startable m
    then (case hm_child m of HC_Running _ \<Rightarrow> sup_child s | HC_Backoff \<Rightarrow> sup_restart s \<noteq> None
          | HC_Stopping then_start \<Rightarrow> sup_child s \<and> then_start | HC_None \<Rightarrow> False)
    else sup_restart s = None \<and> hm_child m \<in> {HC_None, HC_Stopping False})"
proof -
  have "sup_ok (fst (run_machine sup_step (supervisor_new g) is))" by (rule hud.run_inv [OF supervisor_new_ok])
  then show ?thesis
    by (cases "hm_child (sup_machine (fst (run_machine sup_step (supervisor_new g) is)))")
      (auto simp: Let_def sup_ok_defs startable_def has_child_def split: if_splits)
qed

section \<open>Crash loops end\<close>

text \<open>
  One daemon lifetime without a healthy run: the name does not vanish, nobody ends the host,
  and every process is gone before it has been up for a minute.
\<close>

fun crashy :: "sup_input \<Rightarrow> bool" where
  "crashy SI_NameVanished = False"
| "crashy SI_End = False"
| "crashy (SI_ChildExited code now_ms) = (now_ms < HEALTHY_UPTIME_MS)"
| "crashy _ = True"

definition crash_phase :: "supervisor \<Rightarrow> bool" where
  "crash_phase s \<longleftrightarrow> sup_ok s \<and> (\<forall>b. hm_child (sup_machine s) \<noteq> HC_Stopping b)
     \<and> (hm_refused (sup_machine s) \<longrightarrow> hm_owned (sup_machine s)) \<and> \<not> sup_quitting s"

fun restart_delay :: "sup_effect \<Rightarrow> nat option" where
  "restart_delay (SX_RestartIn d) = Some d"
| "restart_delay _ = None"

abbreviation restart_delays :: "sup_effect list \<Rightarrow> nat list" where
  "restart_delays \<equiv> filter_map restart_delay"

definition start_attempts :: "sup_effect list \<Rightarrow> nat" where
  "start_attempts fx = count_list fx SX_Started + count_list fx SX_StartFailed"

definition restarts_used :: "supervisor \<Rightarrow> nat" where
  "restarts_used s = min RESTART_BUDGET (hm_failures (sup_machine s))"

lemma start_attempts_append: "start_attempts (xs @ ys) = start_attempts xs + start_attempts ys"
  by (simp add: start_attempts_def count_list_append)

lemma running_owned: "sup_ok s \<Longrightarrow> hm_child (sup_machine s) = HC_Running t \<Longrightarrow> hm_owned (sup_machine s)"
  by (simp add: sup_ok_defs startable_def)

lemma crash_phase_step: "crash_phase s \<Longrightarrow> crashy (snd i) \<Longrightarrow> crash_phase (fst (sup_step s i))"
  using sup_step_ok [of s i]
  by (cases i; cases "snd i"; cases "fst i"; cases "hm_child (sup_machine s)")
    (auto simp: crash_phase_def deliver_run dest: running_owned split: if_splits)

lemma crash_step_delays:
  assumes "crash_phase s" and "crashy (snd i)"
  shows "restart_delays (snd (sup_step s i)) = map backoff_delay [Suc (restarts_used s) ..< Suc (restarts_used (fst (sup_step s i)))]
     \<and> restarts_used s \<le> restarts_used (fst (sup_step s i))"
  using assms
  by (cases i; cases "snd i"; cases "fst i"; cases "hm_child (sup_machine s)")
    (auto simp: crash_phase_def sup_ok_defs deliver_run restarts_used_def upt_rec split: if_splits)

lemma crash_step_starts:
  assumes "crash_phase s" and "crashy (snd i)"
  shows "start_attempts (snd (sup_step s i)) + of_bool (sup_restart (fst (sup_step s i)) \<noteq> None) + of_bool (hm_owned (sup_machine s))
     = length (restart_delays (snd (sup_step s i))) + of_bool (sup_restart s \<noteq> None) + of_bool (hm_owned (sup_machine (fst (sup_step s i))))"
  using assms
  by (cases i; cases "snd i"; cases "fst i"; cases "hm_child (sup_machine s)")
    (auto simp: crash_phase_def sup_ok_defs deliver_run start_attempts_def split: if_splits)

lemma crash_run:
  assumes "crash_phase s" and "list_all (\<lambda>i. crashy (snd i)) is"
  defines "s' \<equiv> fst (run_machine sup_step s is)" and "fx \<equiv> snd (run_machine sup_step s is)"
  shows "restart_delays fx = map backoff_delay [Suc (restarts_used s) ..< Suc (restarts_used s')]
     \<and> restarts_used s \<le> restarts_used s'
     \<and> start_attempts fx + of_bool (sup_restart s' \<noteq> None) + of_bool (hm_owned (sup_machine s))
       = length (restart_delays fx) + of_bool (sup_restart s \<noteq> None) + of_bool (hm_owned (sup_machine s'))"
  using assms(1,2) unfolding s'_def fx_def
proof (induction "is" arbitrary: s)
  case Nil
  then show ?case by (simp add: start_attempts_def)
next
  case (Cons i "is")
  let ?t = "fst (sup_step s i)"
  have ph: "crash_phase ?t" and c: "crashy (snd i)" and cs: "list_all (\<lambda>i. crashy (snd i)) is"
    using Cons.prems crash_phase_step by auto
  have upt: "[Suc a ..< Suc b] @ [Suc b ..< Suc d] = [Suc a ..< Suc d]" if "a \<le> b" "b \<le> d" for a b d
    using upt_add_eq_append [of "Suc a" "Suc b" "d - b"] that by simp
  let ?u = "fst (run_machine sup_step ?t is)"
  note ih = Cons.IH [OF ph cs] and st = crash_step_delays [OF Cons.prems(1) c] crash_step_starts [OF Cons.prems(1) c]
  have "map backoff_delay [Suc (restarts_used s) ..< Suc (restarts_used ?t)]
      @ map backoff_delay [Suc (restarts_used ?t) ..< Suc (restarts_used ?u)]
      = map backoff_delay [Suc (restarts_used s) ..< Suc (restarts_used ?u)]"
    using ih st upt [of "restarts_used s" "restarts_used ?t" "restarts_used ?u"]
    by (metis map_append)
  then have d: "restart_delays (snd (run_machine sup_step s (i # is))) = map backoff_delay [Suc (restarts_used s) ..< Suc (restarts_used ?u)]"
    using ih st by (simp only: snd_run_machine_Cons filter_map_append)
  have "start_attempts (snd (run_machine sup_step s (i # is))) + of_bool (sup_restart ?u \<noteq> None) + of_bool (hm_owned (sup_machine s))
      = length (restart_delays (snd (run_machine sup_step s (i # is)))) + of_bool (sup_restart s \<noteq> None) + of_bool (hm_owned (sup_machine ?u))"
    using ih st(2) unfolding snd_run_machine_Cons filter_map_append start_attempts_append length_append by linarith
  moreover have "restarts_used s \<le> restarts_used ?u" using ih st by simp
  ultimately show ?case using d by (simp only: fst_run_machine_Cons simp_thms)
qed

lemma backoff_delays_budget: "map backoff_delay [1 ..< Suc RESTART_BUDGET] = [500, 1000, 2000, 4000, 8000]"
  by (simp add: backoff_delay_def BASE_BACKOFF_MS_def MAX_BACKOFF_MS_def RESTART_BUDGET_def upt_rec)

text \<open>
  A HUD that keeps dying is not restarted for ever. In one daemon lifetime in which no run
  of it lasts a minute, the delays before its restarts are the first of 500, 1000, 2000, 4000
  and 8000 milliseconds, in this order and no more, and it is started at most once more than
  it is restarted: six attempts in all.
\<close>

theorem hud_crash_loop_ends:
  fixes g
  assumes "list_all (\<lambda>i. crashy (snd i)) is"
  defines "fx \<equiv> snd (run_machine sup_step (supervisor_new g) is)"
  shows "restart_delays fx = take (length (restart_delays fx)) [500, 1000, 2000, 4000, 8000]
     \<and> start_attempts fx \<le> Suc (length (restart_delays fx)) \<and> start_attempts fx \<le> 6"
proof -
  let ?s = "supervisor_new g"
  let ?k = "restarts_used (fst (run_machine sup_step ?s is))"
  have ph: "crash_phase ?s" and r0: "restarts_used ?s = 0"
    using supervisor_new_ok [of g]
    by (cases g; simp add: crash_phase_def supervisor_new_def hud_machine_new_def with_grace_def restarts_used_def)+
  have fresh: "sup_restart ?s = None" "\<not> hm_owned (sup_machine ?s)"
    by (cases g; simp add: supervisor_new_def hud_machine_new_def with_grace_def)+
  have k: "?k \<le> RESTART_BUDGET" by (simp add: restarts_used_def)
  note run = crash_run [OF ph assms(1), unfolded r0, folded fx_def]
  then have d: "restart_delays fx = map backoff_delay [1 ..< Suc ?k]" by (simp only: One_nat_def)
  from run have st: "start_attempts fx \<le> Suc (length (restart_delays fx))"
    by (cases "hm_owned (sup_machine (fst (run_machine sup_step ?s is)))") (auto simp: fresh simp del: upt_Suc)
  have len: "length (restart_delays fx) = ?k" by (simp add: d)
  have "map backoff_delay [1 ..< Suc ?k] = take ?k (map backoff_delay [1 ..< Suc RESTART_BUDGET])"
    using k by (simp only: take_map take_upt) simp
  with d len have "restart_delays fx = take (length (restart_delays fx)) [500, 1000, 2000, 4000, 8000]"
    by (simp only: backoff_delays_budget)
  with st len k show ?thesis by (simp add: RESTART_BUDGET_def)
qed

theorem hud_crash_loop_ends_witness:
  "let is = [((True, 10), SI_NameAppeared), ((True, 0), SI_ChildExited (Some 1) 20), ((False, 600), SI_RestartTimer)];
       fx = snd (run_machine sup_step (supervisor_new None) is)
   in restart_delays fx = [500, 1000] \<and> start_attempts fx \<le> Suc (length (restart_delays fx)) \<and> start_attempts fx \<le> 6"
proof -
  let ?is = "[((True, 10), SI_NameAppeared), ((True, 0), SI_ChildExited (Some 1) 20), ((False, 600), SI_RestartTimer)]"
  have c: "list_all (\<lambda>i. crashy (snd i)) ?is" by (simp add: HEALTHY_UPTIME_MS_def)
  have "restart_delays (snd (run_machine sup_step (supervisor_new None) ?is)) = [500, 1000]"
    by (simp add: sup_step_def supervisor_new_def hud_machine_new_def hud_step_defs settle_quit_def has_child_def
        backoff_delay_def BASE_BACKOFF_MS_def MAX_BACKOFF_MS_def RESTART_BUDGET_def HEALTHY_UPTIME_MS_def EXIT_CANNOT_HOST_def)
  with hud_crash_loop_ends [OF c, of None] show ?thesis by (simp only: Let_def simp_thms)
qed

section \<open>Ending\<close>

lemma quitting_kept: "sup_quitting s \<Longrightarrow> sup_ok s \<Longrightarrow> sup_quitting (fst (sup_step s i))"
  by (cases i; cases "snd i"; cases "fst i"; cases "hm_child (sup_machine s)")
    (auto simp: sup_ok_defs deliver_run split: if_splits)

lemma quitting_no_start: "sup_quitting s \<Longrightarrow> sup_ok s \<Longrightarrow> SX_Started \<notin> set (snd (sup_step s i)) \<and> SX_StartFailed \<notin> set (snd (sup_step s i))"
  by (cases i; cases "snd i"; cases "fst i"; cases "hm_child (sup_machine s)")
    (auto simp: sup_ok_defs deliver_run split: if_splits)

lemma quitting_run: "sup_quitting s \<Longrightarrow> sup_ok s \<Longrightarrow> sup_quitting (fst (run_machine sup_step s is))"
  by (induction "is" arbitrary: s) (simp_all add: quitting_kept sup_step_ok)

lemma quitting_run_no_start:
  "sup_quitting s \<Longrightarrow> sup_ok s \<Longrightarrow> SX_Started \<notin> set (snd (run_machine sup_step s is)) \<and> SX_StartFailed \<notin> set (snd (run_machine sup_step s is))"
  by (induction "is" arbitrary: s) (simp_all add: quitting_no_start quitting_kept sup_step_ok)

lemma sup_step_end:
  assumes "sup_ok s" and "\<not> sup_main_loop_quit s"
  shows "sup_quitting (fst (sup_step s (os, SI_End)))
     \<and> (sup_main_loop_quit (fst (sup_step s (os, SI_End))) \<longleftrightarrow> \<not> sup_child s)
     \<and> ((\<exists>t. hm_child (sup_machine s) = HC_Running t)
         \<longrightarrow> SX_Sigterm \<in> set (snd (sup_step s (os, SI_End))) \<and> sup_kill (fst (sup_step s (os, SI_End))) = Some (hm_grace_ms (sup_machine s)))"
  using assms by (cases os; cases "hm_child (sup_machine s)") (auto simp: sup_ok_defs deliver_run split: if_splits)

lemma quitting_exit_quits:
  assumes "sup_ok s" and "sup_quitting s" and "sup_child s"
  shows "sup_main_loop_quit (fst (sup_step s (os, SI_ChildExited code now_ms)))"
  using assms by (cases os; cases "hm_child (sup_machine s)") (auto simp: sup_ok_defs deliver_run split: if_splits)

text \<open>
  Asked to end, the host ends: with no process it leaves the main loop at once; with one
  running it sends it SIGTERM and arms the kill timer with the grace, and leaves as soon as
  the process is gone. From then on it starts none, whatever else arrives.
\<close>

theorem hud_end_ends:
  fixes g before after os
  defines "s \<equiv> fst (run_machine sup_step (supervisor_new g) before)"
  defines "s' \<equiv> fst (sup_step s (os, SI_End))"
  defines "t \<equiv> run_machine sup_step s' after"
  assumes "\<not> sup_main_loop_quit s"
  shows "(sup_main_loop_quit s' \<longleftrightarrow> \<not> sup_child s)
    \<and> ((\<exists>u. hm_child (sup_machine s) = HC_Running u)
         \<longrightarrow> SX_Sigterm \<in> set (snd (sup_step s (os, SI_End))) \<and> sup_kill s' = Some (hm_grace_ms (sup_machine s)))
    \<and> (sup_child (fst t) \<longrightarrow> sup_main_loop_quit (fst (sup_step (fst t) (os, SI_ChildExited code now_ms))))
    \<and> SX_Started \<notin> set (snd t)"
proof -
  have ok: "sup_ok s" unfolding s_def by (rule hud.run_inv [OF supervisor_new_ok])
  note e = sup_step_end [OF ok assms(4), of os, folded s'_def]
  have ok': "sup_ok s'" unfolding s'_def by (rule sup_step_ok [OF ok])
  have okt: "sup_ok (fst t)" unfolding t_def by (rule hud.run_inv [OF ok'])
  from e ok' have qt: "sup_quitting (fst t)" by (simp add: t_def quitting_run)
  from e ok' quitting_run_no_start [of s' after] quitting_exit_quits [OF okt qt] show ?thesis
    by (auto simp: t_def)
qed

theorem hud_end_ends_witness:
  "let s = fst (run_machine sup_step (supervisor_new None) [((True, 10), SI_NameAppeared)]);
       s' = fst (sup_step s ((True, 0), SI_End)); t = run_machine sup_step s' [((True, 0), SI_NameVanished)]
   in sup_kill s' = Some 3000 \<and> sup_child (fst t)
      \<and> sup_main_loop_quit (fst (sup_step (fst t) ((True, 0), SI_ChildExited None 50)))"
proof -
  let ?s = "fst (run_machine sup_step (supervisor_new None) [((True, 10), SI_NameAppeared)])"
  have q: "\<not> sup_main_loop_quit ?s" and r: "hm_child (sup_machine ?s) = HC_Running 10"
    and gr: "hm_grace_ms (sup_machine ?s) = 3000"
    and c: "sup_child (fst (run_machine sup_step (fst (sup_step ?s ((True, 0), SI_End))) [((True, 0), SI_NameVanished)]))"
    by code_simp+
  from hud_end_ends [OF q, of "(True, 0)" "[((True, 0), SI_NameVanished)]" None 50] r gr c show ?thesis
    by (simp only: Let_def) blast
qed

end
