(* ===== verification/Rust_Text.thy ===== *)
theory Rust_Text
  imports Myna_Prelude
begin

text \<open>
  The string functions of Rust's standard library that the settings components use beyond
  those of the prelude: ASCII classes, splitting at a string, parsing an unsigned integer,
  and what the words of a split are.
\<close>

definition is_ascii_lowercase :: "uchar \<Rightarrow> bool" where
  "is_ascii_lowercase c \<longleftrightarrow> 97 \<le> c \<and> c \<le> 122"

definition is_ascii_uppercase :: "uchar \<Rightarrow> bool" where
  "is_ascii_uppercase c \<longleftrightarrow> 65 \<le> c \<and> c \<le> 90"

definition is_ascii_digit :: "uchar \<Rightarrow> bool" where
  "is_ascii_digit c \<longleftrightarrow> 48 \<le> c \<and> c \<le> 57"

definition is_ascii_alphanumeric :: "uchar \<Rightarrow> bool" where
  "is_ascii_alphanumeric c \<longleftrightarrow> is_ascii_lowercase c \<or> is_ascii_uppercase c \<or> is_ascii_digit c"

lemmas ascii_defs = is_ascii_lowercase_def is_ascii_uppercase_def is_ascii_digit_def is_ascii_alphanumeric_def

definition is_ascii_alphabetic :: "uchar \<Rightarrow> bool" where
  "is_ascii_alphabetic c \<longleftrightarrow> is_ascii_lowercase c \<or> is_ascii_uppercase c"

definition to_ascii_lowercase :: "ustr \<Rightarrow> ustr" where
  "to_ascii_lowercase = map (\<lambda>c. if is_ascii_uppercase c then c + 32 else c)"

definition to_ascii_uppercase :: "ustr \<Rightarrow> ustr" where
  "to_ascii_uppercase = map (\<lambda>c. if is_ascii_lowercase c then c - 32 else c)"

text \<open>The two items of \<open>splitn(2, P)\<close>; the second is missing when no separator occurs.\<close>

definition splitn2 :: "('a \<Rightarrow> bool) \<Rightarrow> 'a list \<Rightarrow> 'a list \<times> 'a list option" where
  "splitn2 P s = (takeWhile (\<lambda>c. \<not> P c) s, case dropWhile (\<lambda>c. \<not> P c) s of [] \<Rightarrow> None | _ # r \<Rightarrow> Some r)"

text \<open>\<open>s.split_once(pattern)\<close> for a string pattern: around its first occurrence.\<close>

fun split_once_str :: "ustr \<Rightarrow> ustr \<Rightarrow> (ustr \<times> ustr) option" where
  "split_once_str p [] = (if p = [] then Some ([], []) else None)"
| "split_once_str p (c # cs) =
     (case strip_prefix p (c # cs) of
        Some rest \<Rightarrow> Some ([], rest)
      | None \<Rightarrow> map_option (\<lambda>(a, b). (c # a, b)) (split_once_str p cs))"

lemma split_once_str_Some: "split_once_str p s = Some (a, b) \<Longrightarrow> s = a @ p @ b"
  by (induction p s arbitrary: a rule: split_once_str.induct)
    (auto simp: strip_prefix_Some split: option.splits if_splits)

lemma split_once_str_None: "split_once_str p s = None \<longleftrightarrow> (\<nexists>a b. s = a @ p @ b)"
proof (induction p s rule: split_once_str.induct)
  case (1 p)
  then show ?case by auto
next
  case (2 p c cs)
  show ?case
  proof (cases "strip_prefix p (c # cs)")
    case None
    then have no: "\<nexists>b. c # cs = p @ b" by (metis option.distinct(1) strip_prefix_Some)
    have "(\<exists>a b. c # cs = a @ p @ b) \<longleftrightarrow> (\<exists>a b. cs = a @ p @ b)"
      using no by (metis append_Cons append_Nil list.exhaust list.inject)
    with 2 None show ?thesis by simp
  next
    case (Some r)
    then have "c # cs = [] @ p @ r" by (simp add: strip_prefix_Some)
    with Some show ?thesis by (metis option.distinct(1) option.simps(5) split_once_str.simps(2))
  qed
qed

text \<open>\<open>s.split(pattern)\<close> for a non-empty string pattern.\<close>

function split_str :: "ustr \<Rightarrow> ustr \<Rightarrow> ustr list" where
  "split_str p s = (if p = [] then [s] else case split_once_str p s of None \<Rightarrow> [s] | Some (a, b) \<Rightarrow> a # split_str p b)"
  by pat_completeness auto
termination
proof (relation "measure (\<lambda>(_, s). length s)")
  fix p s x a b
  assume "p \<noteq> []" "split_once_str p s = Some x" "(a, b) = x"
  then have "s = a @ p @ b" using split_once_str_Some [of p s a b] by simp
  with \<open>p \<noteq> []\<close> show "((p, b), (p, s)) \<in> measure (\<lambda>(_, s). length s)" by (cases p) simp_all
qed simp

declare split_str.simps [simp del]

text \<open>
  \<open>str::parse\<close> of an unsigned integer: an optional plus sign, then decimal digits, at least
  one, with a value below the bound.
\<close>

definition dec_value :: "ustr \<Rightarrow> nat" where
  "dec_value = foldl (\<lambda>n c. n * 10 + (c - 48)) 0"

definition parse_unsigned :: "nat \<Rightarrow> ustr \<Rightarrow> nat option" where
  "parse_unsigned bound s =
     (let ds = (case s of c # cs \<Rightarrow> if c = 43 then cs else s | [] \<Rightarrow> [])
      in if ds \<noteq> [] \<and> list_all is_ascii_digit ds \<and> dec_value ds < bound then Some (dec_value ds) else None)"

lemma dec_value_snoc: "dec_value (ds @ [c]) = dec_value ds * 10 + (c - 48)"
  by (simp add: dec_value_def)

lemma dec_digits_digits: "list_all is_ascii_digit (dec_digits n) \<and> dec_digits n \<noteq> []"
  by (induction n rule: dec_digits.induct) (subst (1 2) dec_digits.simps, auto, simp_all add: is_ascii_digit_def)

lemma dec_value_dec_digits: "dec_value (dec_digits n) = n"
proof (induction n rule: dec_digits.induct)
  case (1 n)
  show ?case
  proof (cases "n < 10")
    case True
    then show ?thesis by (subst dec_digits.simps) (simp add: dec_value_def)
  next
    case False
    with 1 show ?thesis by (subst dec_digits.simps) (simp add: dec_value_snoc)
  qed
qed

text \<open>The words of a split are the maximal runs free of separators.\<close>

lemma split_p_unfold:
  "split_p P s = takeWhile (\<lambda>c. \<not> P c) s # (case dropWhile (\<lambda>c. \<not> P c) s of [] \<Rightarrow> [] | _ # r \<Rightarrow> split_p P r)"
  by (induction s) auto

lemma split_p_sep: "P x \<Longrightarrow> split_p P (u @ x # v) = split_p P u @ split_p P v"
  by (induction u) (auto split: list.splits)

definition whole_word :: "('a \<Rightarrow> bool) \<Rightarrow> 'a list \<Rightarrow> 'a list \<Rightarrow> bool" where
  "whole_word P w s \<longleftrightarrow> (\<exists>a b. s = a @ w @ b \<and> (\<forall>c \<in> set w. \<not> P c) \<and> (a = [] \<or> P (last a)) \<and> (b = [] \<or> P (hd b)))"

lemma whole_word_shift: "whole_word P w r \<Longrightarrow> P x \<Longrightarrow> whole_word P w (u @ x # r)"
  unfolding whole_word_def
proof (elim exE conjE)
  fix a b
  assume "P x" and r: "r = a @ w @ b" "\<forall>c \<in> set w. \<not> P c" "a = [] \<or> P (last a)" "b = [] \<or> P (hd b)"
  then have "u @ x # r = (u @ x # a) @ w @ b \<and> P (last (u @ x # a))" by auto
  with r show "\<exists>a b. u @ x # r = a @ w @ b \<and> (\<forall>c\<in>set w. \<not> P c) \<and> (a = [] \<or> P (last a)) \<and> (b = [] \<or> P (hd b))"
    by blast
qed

lemma split_p_words: "w \<in> set (split_p P s) \<longleftrightarrow> whole_word P w s"
proof
  assume "w \<in> set (split_p P s)"
  then show "whole_word P w s"
  proof (induction s rule: length_induct)
    case (1 s)
    let ?t = "takeWhile (\<lambda>c. \<not> P c) s" and ?d = "dropWhile (\<lambda>c. \<not> P c) s"
    have eq: "s = ?t @ ?d" by simp
    from 1(2) consider "w = ?t" | x r where "?d = x # r" "w \<in> set (split_p P r)"
      unfolding split_p_unfold [of P s] by (cases ?d) auto
    then show ?case
    proof cases
      case 1
      have "?d = [] \<or> P (hd ?d)" by (metis hd_dropWhile)
      moreover have "\<forall>c \<in> set ?t. \<not> P c" by (auto dest: set_takeWhileD)
      ultimately show ?thesis unfolding whole_word_def using 1 eq by (metis append_Nil)
    next
      case (2 x r)
      have "P x" using 2(1) by (metis dropWhile_hd)
      moreover have "length r < length s" using arg_cong [OF eq, of length] 2(1) by simp
      ultimately show ?thesis using 1(1) 2 eq by (metis whole_word_shift)
    qed
  qed
next
  assume "whole_word P w s"
  then obtain a b where s: "s = a @ w @ b" and w: "\<forall>c \<in> set w. \<not> P c" and a: "a = [] \<or> P (last a)" and b: "b = [] \<or> P (hd b)"
    by (auto simp: whole_word_def)
  have one: "split_p P w = [w]" using w by (intro split_p_single) simp
  have wb: "w \<in> set (split_p P (w @ b))"
    using b one by (cases b) (simp_all add: split_p_sep)
  show "w \<in> set (split_p P s)"
  proof (cases a rule: rev_cases)
    case Nil
    with s wb show ?thesis by simp
  next
    case (snoc u x)
    with a have "P x" by simp
    with s snoc wb show ?thesis using split_p_sep [of P x u "w @ b"] by simp
  qed
qed

end
