(* ===== verification/Snap_Changes.thy ===== *)
theory Snap_Changes
  imports Rust_Text
begin

text \<open>
  snapd's changes as the settings application reads them,
  \<open>client/myna-config/src/snap_changes.rs\<close>: which change concerns which snaps, and how far its
  downloads are. The JSON decoding is serde's; a change is the record it yields. Byte counts
  are \<open>u64\<close> words, whose sums wrap; the properties state where they do not.
\<close>

section \<open>Changes\<close>

record task_progress =
  tp_label :: ustr
  tp_done :: u64
  tp_total :: u64

record change_task =
  ct_kind :: ustr
  ct_status :: ustr
  ct_progress :: task_progress
  ct_affected_snaps :: "ustr list"

record change_in_progress =
  ch_id :: ustr
  ch_kind :: ustr
  ch_ready :: bool
  ch_status :: ustr
  ch_err :: "ustr option"
  ch_summary :: ustr
  ch_tasks :: "change_task list"

definition is_name_char :: "uchar \<Rightarrow> bool" where
  "is_name_char c \<longleftrightarrow> is_ascii_lowercase c \<or> is_ascii_digit c \<or> c = 45"

definition names :: "ustr \<Rightarrow> ustr list \<Rightarrow> bool" where
  "names summary snaps = list_ex (\<lambda>word. list_ex (\<lambda>snap. snap = word) snaps) (split_p (\<lambda>c. \<not> is_name_char c) summary)"

definition sized :: "change_task \<Rightarrow> bool" where
  "sized t \<longleftrightarrow> starts_with (lit ''download-'') (ct_kind t) \<and> 1 < tp_total (ct_progress t)"

text \<open>
  The percentage is computed in \<open>u128\<close>, where neither the product nor the quotient can
  overflow.
\<close>

definition download_sums :: "change_task list \<Rightarrow> (u64 \<times> u64) option" where
  "download_sums ts =
     foldl (\<lambda>sum t. let (d, n) = the_default (0, 0) sum
                    in Some (d + min (tp_done (ct_progress t)) (tp_total (ct_progress t)), n + tp_total (ct_progress t)))
       None (filter sized ts)"

definition download_percent :: "u64 \<Rightarrow> change_in_progress \<Rightarrow> u8 option" where
  "download_percent expected_bytes c =
     (if \<not> list_ex (\<lambda>t. ct_status t = lit ''Doing'') (filter sized (ch_tasks c)) then None
      else case download_sums (ch_tasks c) of
        None \<Rightarrow> None
      | Some (d, n) \<Rightarrow> Some (of_nat (min (unat d * 100 div unat (max n expected_bytes)) 100)))"

definition concerns :: "ustr list \<Rightarrow> change_in_progress \<Rightarrow> bool" where
  "concerns snaps c \<longleftrightarrow> names (ch_summary c) snaps
     \<or> list_ex (\<lambda>t. list_ex (\<lambda>name. list_ex (\<lambda>snap. snap = name) snaps) (ct_affected_snaps t)) (ch_tasks c)"

datatype apply_progress =
    AP_Download ustr u64 u64
  | AP_Change ustr

definition change_progress :: "change_in_progress \<Rightarrow> apply_progress" where
  "change_progress c =
     (case find (\<lambda>t. ct_status t = lit ''Doing'' \<and> starts_with (lit ''download-'') (ct_kind t)
                  \<and> 0 < tp_total (ct_progress t) \<and> tp_label (ct_progress t) \<noteq> []) (ch_tasks c) of
        Some t \<Rightarrow>
          (let label = tp_label (ct_progress t);
               name = (case split_once 43 label of None \<Rightarrow> label | Some (_, component) \<Rightarrow> component)
           in AP_Download name (min (tp_done (ct_progress t)) (tp_total (ct_progress t))) (tp_total (ct_progress t)))
      | None \<Rightarrow> AP_Change (ch_summary c))"

definition pending_install :: "change_in_progress list \<Rightarrow> ustr \<Rightarrow> change_in_progress option" where
  "pending_install changes snap =
     find (\<lambda>c. ch_kind c = lit ''install-snap'' \<and> names (ch_summary c) [snap]) changes"

text \<open>The changes of a decoded listing that snapd has not finished.\<close>

definition parse_changes :: "change_in_progress list \<Rightarrow> change_in_progress list" where
  "parse_changes cs = filter (\<lambda>c. \<not> ch_ready c) cs"

definition apply_progress_of :: "change_in_progress list \<Rightarrow> ustr \<Rightarrow> apply_progress option" where
  "apply_progress_of changes snap = map_option change_progress (find (concerns [snap]) changes)"

section \<open>Naming a snap\<close>

lemma names_iff: "names summary snaps \<longleftrightarrow> (\<exists>snap \<in> set snaps. whole_word (\<lambda>c. \<not> is_name_char c) snap summary)"
  by (auto simp: names_def list_ex_iff split_p_words)

text \<open>
  A change concerns a snap exactly when its summary has the snap's name as a whole run of
  snap-name characters, or one of its tasks lists it: never because another snap's name
  contains it, and quotes, colons and plus signs around it make no difference.
\<close>

theorem concerns_whole_names:
  "concerns snaps c
     \<longleftrightarrow> (\<exists>snap \<in> set snaps.
           (\<exists>a b. ch_summary c = a @ snap @ b \<and> list_all is_name_char snap
              \<and> (a = [] \<or> \<not> is_name_char (last a)) \<and> (b = [] \<or> \<not> is_name_char (hd b)))
           \<or> (\<exists>t \<in> set (ch_tasks c). snap \<in> set (ct_affected_snaps t)))"
  by (auto simp: concerns_def names_iff whole_word_def list_ex_iff list_all_iff)

section \<open>How far the downloads are\<close>

abbreviation fetched :: "change_task \<Rightarrow> nat" where
  "fetched t \<equiv> unat (min (tp_done (ct_progress t)) (tp_total (ct_progress t)))"

abbreviation announced :: "change_task \<Rightarrow> nat" where
  "announced t \<equiv> unat (tp_total (ct_progress t))"

lemma fetched_le_announced: "fetched t \<le> announced t"
  by (simp add: min_def word_le_nat_alt)

lemma download_sums_fold:
  assumes "unat d + (\<Sum>t\<leftarrow>ts. fetched t) < 2 ^ 64" and "unat n + (\<Sum>t\<leftarrow>ts. announced t) < 2 ^ 64"
  shows "\<exists>d' n'. foldl (\<lambda>sum t. let (d, n) = the_default (0, 0) sum
                    in Some (d + min (tp_done (ct_progress t)) (tp_total (ct_progress t)), n + tp_total (ct_progress t)))
       (Some (d, n)) ts = Some (d', n')
     \<and> unat d' = unat d + (\<Sum>t\<leftarrow>ts. fetched t) \<and> unat n' = unat n + (\<Sum>t\<leftarrow>ts. announced t)"
  using assms
proof (induction ts arbitrary: d n)
  case Nil
  then show ?case by simp
next
  case (Cons t ts)
  let ?d = "d + min (tp_done (ct_progress t)) (tp_total (ct_progress t))" and ?n = "n + tp_total (ct_progress t)"
  have "unat ?d = unat d + fetched t" and "unat ?n = unat n + announced t"
    using Cons.prems by (auto intro!: unat_add_lem [THEN iffD1])
  with Cons.IH [of ?d ?n] Cons.prems show ?case by (simp add: add.assoc)
qed

lemma fetched_sum_le: "(\<Sum>t\<leftarrow>ts. fetched t) \<le> (\<Sum>t\<leftarrow>ts. announced t)"
  by (induction ts) (simp_all add: add_mono fetched_le_announced)

lemma download_sums_exact:
  assumes "(\<Sum>t\<leftarrow>filter sized ts. announced t) < 2 ^ 64" and "filter sized ts \<noteq> []"
  shows "\<exists>d n. download_sums ts = Some (d, n)
     \<and> unat d = (\<Sum>t\<leftarrow>filter sized ts. fetched t) \<and> unat n = (\<Sum>t\<leftarrow>filter sized ts. announced t)"
proof (cases "filter sized ts")
  case (Cons t us)
  have "(\<Sum>t\<leftarrow>filter sized ts. fetched t) < 2 ^ 64" using fetched_sum_le assms(1) by (rule le_less_trans)
  with assms(1) Cons
  have "fetched t + (\<Sum>t\<leftarrow>us. fetched t) < 2 ^ 64" "announced t + (\<Sum>t\<leftarrow>us. announced t) < 2 ^ 64" by simp_all
  from download_sums_fold [OF this] Cons show ?thesis
    by (simp add: download_sums_def)
qed (use assms in simp)

definition percent_of :: "nat \<Rightarrow> change_in_progress \<Rightarrow> nat" where
  "percent_of expected c =
     100 * (\<Sum>t\<leftarrow>filter sized (ch_tasks c). fetched t) div max (\<Sum>t\<leftarrow>filter sized (ch_tasks c). announced t) expected"

lemma percent_of_le: "percent_of expected c \<le> 100"
proof -
  have "100 * (\<Sum>t\<leftarrow>filter sized (ch_tasks c). fetched t) \<le> 100 * max (\<Sum>t\<leftarrow>filter sized (ch_tasks c). announced t) expected"
    using fetched_sum_le by (intro mult_left_mono le_max_iff_disj [THEN iffD2] disjI1) auto
  then have "percent_of expected c \<le> 100 * max (\<Sum>t\<leftarrow>filter sized (ch_tasks c). announced t) expected
      div max (\<Sum>t\<leftarrow>filter sized (ch_tasks c). announced t) expected"
    unfolding percent_of_def by (rule div_le_mono)
  also have "\<dots> \<le> 100" by simp
  finally show ?thesis .
qed

lemma unat_max: "unat (max a b) = max (unat a) (unat (b :: u64))"
  by (simp add: max_def word_le_nat_alt)

text \<open>
  The percentage shown is the exact share, rounded down, of what the change's downloads
  announce or of the expected size if that is more; it never needs its clamp at 100, and there
  is one exactly while a sized download runs. The announced sizes must sum to less than
  \<open>2 ^ 64\<close> bytes.
\<close>

theorem download_percent_exact:
  assumes "(\<Sum>t\<leftarrow>filter sized (ch_tasks c). announced t) < 2 ^ 64"
  shows "download_percent expected c =
      (if \<exists>t \<in> set (ch_tasks c). sized t \<and> ct_status t = lit ''Doing'' then Some (of_nat (percent_of (unat expected) c)) else None)
    \<and> percent_of (unat expected) c \<le> 100"
proof (cases "\<exists>t \<in> set (ch_tasks c). sized t \<and> ct_status t = lit ''Doing''")
  case True
  then have "filter sized (ch_tasks c) \<noteq> []" by (auto simp: filter_empty_conv)
  from download_sums_exact [OF assms this] obtain d n where "download_sums (ch_tasks c) = Some (d, n)"
    and "unat d = (\<Sum>t\<leftarrow>filter sized (ch_tasks c). fetched t)" "unat n = (\<Sum>t\<leftarrow>filter sized (ch_tasks c). announced t)"
    by blast
  then have "download_percent expected c = Some (of_nat (min (percent_of (unat expected) c) 100))"
    using True by (auto simp: download_percent_def percent_of_def unat_max mult.commute list_ex_iff)
  with True percent_of_le [of "unat expected" c] show ?thesis by (simp add: min_def)
next
  case False
  then show ?thesis by (auto simp: download_percent_def list_ex_iff percent_of_le)
qed

theorem download_percent_exact_witness:
  "download_percent 4 \<lparr>ch_id = [], ch_kind = [], ch_ready = False, ch_status = [], ch_err = None, ch_summary = [],
      ch_tasks = [\<lparr>ct_kind = lit ''download-snap'', ct_status = lit ''Doing'',
                   ct_progress = \<lparr>tp_label = [], tp_done = 10, tp_total = 20\<rparr>, ct_affected_snaps = []\<rparr>]\<rparr> = Some 50"
proof -
  let ?t = "\<lparr>ct_kind = lit ''download-snap'', ct_status = lit ''Doing'',
                   ct_progress = \<lparr>tp_label = [], tp_done = 10, tp_total = 20\<rparr>, ct_affected_snaps = []\<rparr>"
  let ?c = "\<lparr>ch_id = [], ch_kind = [], ch_ready = False, ch_status = [], ch_err = None, ch_summary = [], ch_tasks = [?t]\<rparr>"
  have sz: "sized ?t" by (simp add: sized_def starts_with_def lit_def)
  have mn: "min 10 20 = (10 :: u64)" by (simp add: min_def)
  have "(\<Sum>t\<leftarrow>filter sized (ch_tasks ?c). announced t) < 2 ^ 64" using sz by simp
  from download_percent_exact [OF this, of 4] sz mn show ?thesis by (simp add: percent_of_def)
qed

end
