(* ===== verification/Snap_Install.thy ===== *)
theory Snap_Install
  imports Snap_Changes
begin

text \<open>
  Installing a snap and following its change, \<open>client/myna-config/src/snap_install.rs\<close>, and
  the store errors snapd words. snapd's answers are offered: what the install request
  answered, and for each turn of the following loop whether the user has cancelled and what
  reading the change gave. \<open>None\<close> as the loop's outcome is its still following when the
  offered turns are used up.
\<close>

section \<open>Store errors\<close>

record store_error =
  se_status :: u16
  se_method :: ustr
  se_url :: ustr

definition store_error_find :: "ustr \<Rightarrow> store_error option" where
  "store_error_find s =
     (case split_once_str (lit ''got unexpected HTTP status code '') s of
        None \<Rightarrow> None
      | Some (_, rest) \<Rightarrow>
     (case split_once_str (lit '' via '') rest of
        None \<Rightarrow> None
      | Some (status, rest) \<Rightarrow>
     (case split_once_str (lit '' to '' @ [34]) rest of
        None \<Rightarrow> None
      | Some (method, rest) \<Rightarrow>
     (case split_once 34 rest of
        None \<Rightarrow> None
      | Some (url, _) \<Rightarrow>
          map_option (\<lambda>n. \<lparr>se_status = of_nat n, se_method = method, se_url = url\<rparr>) (parse_unsigned (2 ^ 16) status)))))"

definition transient :: "store_error \<Rightarrow> bool" where
  "transient e \<longleftrightarrow> se_status e = 408 \<or> se_status e = 429 \<or> (500 \<le> se_status e \<and> se_status e \<le> 599)"

definition evidence :: "store_error \<Rightarrow> ustr \<Rightarrow> bool \<Rightarrow> ustr" where
  "evidence e snap retrying =
     lit ''myna-config: store: '' @ lit ''HTTP '' @ dec_digits (unat (se_status e)) @ lit '' from '' @ se_method e @ lit '' ''
     @ se_url e @ lit '' installing '' @ snap @ lit ''; '' @ (if retrying then lit ''retrying'' else lit ''giving up'')"

section \<open>Following a change\<close>

definition UNREADABLE_READS :: nat where "UNREADABLE_READS = 10"

datatype change_failure =
    CF_Cancelled
  | CF_Failed ustr
  | CF_Unreadable ustr

text \<open>One turn of the loop: the cancellation flag as it is read, and the read change.\<close>

record poll =
  po_cancelled :: bool
  po_read :: "ustr + change_in_progress"

record following =
  fo_shown :: "u8 option"
  fo_highest :: u8
  fo_unreadable :: nat

definition following_new :: following where
  "following_new = \<lparr>fo_shown = None, fo_highest = 0, fo_unreadable = 0\<rparr>"

definition change_outcome :: "change_in_progress \<Rightarrow> change_failure + unit" where
  "change_outcome c =
     (case ch_err c of
        Some err \<Rightarrow> Inl (CF_Failed err)
      | None \<Rightarrow> if ch_status c = lit ''Done'' then Inr ()
                else Inl (CF_Failed (lit ''snapd ended the change as '' @ ch_status c)))"

text \<open>One turn: the state to go on with and what is reported, or the outcome.\<close>

definition follow_turn :: "u64 \<Rightarrow> following \<Rightarrow> poll \<Rightarrow> (following \<times> u8 option list) + (change_failure + unit)" where
  "follow_turn expected f p =
     (if po_cancelled p then Inr (Inl CF_Cancelled)
      else case po_read p of
        Inl message \<Rightarrow>
          (let n = fo_unreadable f + 1 in
           if n = UNREADABLE_READS then Inr (Inl (CF_Unreadable message)) else Inl (f\<lparr>fo_unreadable := n\<rparr>, []))
      | Inr c \<Rightarrow>
          if ch_ready c then Inr (change_outcome c)
          else let percent = map_option (\<lambda>q. max q (fo_highest f)) (download_percent expected c)
               in Inl (\<lparr>fo_shown = percent, fo_highest = the_default (fo_highest f) percent, fo_unreadable = 0\<rparr>,
                       if percent \<noteq> fo_shown f then [percent] else []))"

fun follow_change :: "u64 \<Rightarrow> following \<Rightarrow> poll list \<Rightarrow> u8 option list \<times> (change_failure + unit) option" where
  "follow_change expected f [] = ([], None)"
| "follow_change expected f (p # ps) =
     (case follow_turn expected f p of
        Inr outcome \<Rightarrow> ([], Some outcome)
      | Inl (f', reports) \<Rightarrow>
          (let (more_reports, outcome) = follow_change expected f' ps in (reports @ more_reports, outcome)))"

section \<open>Installing\<close>

datatype failed_step =
    FS_Command ustr "ustr list" "int option" ustr
  | FS_Snapd ustr "u16 option"
  | FS_DBus ustr
  | FS_Setting ustr

datatype system_configurator_error =
    SC_Cancelled
  | SC_AuthorizationDenied failed_step ustr
  | SC_ValuesRejected failed_step ustr
  | SC_Execution failed_step ustr

definition snapd_execution :: "ustr \<Rightarrow> u16 option \<Rightarrow> ustr \<Rightarrow> system_configurator_error" where
  "snapd_execution request http_status message = SC_Execution (FS_Snapd request http_status) message"

definition install_request :: "ustr \<Rightarrow> ustr" where
  "install_request snap = lit ''POST /v2/snaps/'' @ snap @ lit '' (install, latest/edge)''"

fun failed_store_error :: "system_configurator_error + unit \<Rightarrow> store_error option" where
  "failed_store_error (Inl (SC_Execution step message)) = store_error_find message"
| "failed_store_error _ = None"

definition change_failure_error :: "ustr \<Rightarrow> ustr \<Rightarrow> change_failure \<Rightarrow> system_configurator_error" where
  "change_failure_error snap change_id failure =
     (case failure of
        CF_Cancelled \<Rightarrow> SC_Cancelled
      | CF_Failed message \<Rightarrow> snapd_execution (install_request snap) (Some 202) message
      | CF_Unreadable message \<Rightarrow> snapd_execution (lit ''GET /v2/changes/'' @ change_id) None message)"

text \<open>
  What snapd answers one attempt: the install request's answer (an error, nothing to follow,
  or a change) and the polls of the change.
\<close>

record attempt =
  at_request :: "system_configurator_error + ustr option"
  at_polls :: "poll list"

definition install_once :: "ustr \<Rightarrow> u64 \<Rightarrow> attempt \<Rightarrow> u8 option list \<times> (system_configurator_error + unit) option" where
  "install_once snap expected at =
     (case at_request at of
        Inl e \<Rightarrow> ([], Some (Inl e))
      | Inr None \<Rightarrow> ([], Some (Inr ()))
      | Inr (Some change_id) \<Rightarrow>
          (let (reports, outcome) = follow_change expected following_new (at_polls at)
           in (reports, map_option (map_sum (change_failure_error snap change_id) id) outcome)))"

datatype install_effect =
    IX_Report "u8 option"
  | IX_Evidence ustr

text \<open>\<open>install\<close>: at most a second attempt, after a store error that may not recur.\<close>

definition install :: "ustr \<Rightarrow> u64 \<Rightarrow> attempt \<Rightarrow> attempt \<Rightarrow> install_effect list \<times> (system_configurator_error + unit) option" where
  "install snap expected first second =
     (let (reports, outcome) = install_once snap expected first in
      case outcome of
        None \<Rightarrow> (map IX_Report reports, None)
      | Some r \<Rightarrow>
          (case failed_store_error r of
             Some e \<Rightarrow>
               if transient e then
                 (let (reports', outcome') = install_once snap expected second;
                      last_words = (case outcome' of
                          Some r' \<Rightarrow> (case failed_store_error r' of Some e' \<Rightarrow> [IX_Evidence (evidence e' snap False)] | None \<Rightarrow> [])
                        | None \<Rightarrow> [])
                  in (map IX_Report reports @ [IX_Evidence (evidence e snap True)] @ map IX_Report reports' @ last_words, outcome'))
               else (map IX_Report reports, Some r)
           | None \<Rightarrow> (map IX_Report reports, Some r)))"

section \<open>The percentage never goes down\<close>

fun percentages :: "u8 option list \<Rightarrow> u8 list" where
  "percentages [] = []"
| "percentages (None # rs) = percentages rs"
| "percentages (Some q # rs) = q # percentages rs"

lemma percentages_append [simp]: "percentages (xs @ ys) = percentages xs @ percentages ys"
  by (induction xs rule: percentages.induct) simp_all

lemma download_percent_le: "download_percent expected c = Some q \<Longrightarrow> q \<le> 100"
proof -
  have "(of_nat n :: u8) \<le> 100" if "n \<le> 100" for n
    using that by (simp add: word_le_nat_alt unat_of_nat)
  then show "download_percent expected c = Some q \<Longrightarrow> q \<le> 100"
    by (auto simp: download_percent_def split: if_splits option.splits)
qed

lemma follow_turn_reports:
  assumes "follow_turn expected f p = Inl (f', reports)" and "fo_highest f \<le> 100"
  shows "fo_highest f \<le> fo_highest f'" and "fo_highest f' \<le> 100"
    and "reports \<in> {[], [None], [Some (fo_highest f')]}"
    and "reports \<in> {[], [fo_shown f']} \<and> (reports = [] \<longrightarrow> fo_shown f' = fo_shown f) \<and> (reports \<noteq> [] \<longrightarrow> fo_shown f' \<noteq> fo_shown f)"
  using assms download_percent_le
  by (cases "po_read p"; cases "download_percent expected (projr (po_read p))";
      fastforce simp: follow_turn_def Let_def max_def split: if_splits)+

lemma follow_change_reports:
  assumes "fo_highest f \<le> 100"
  shows "sorted (percentages (fst (follow_change expected f ps)))
    \<and> (\<forall>q \<in> set (percentages (fst (follow_change expected f ps))). fo_highest f \<le> q \<and> q \<le> 100)
    \<and> distinct_adj (fo_shown f # fst (follow_change expected f ps))"
  using assms
proof (induction ps arbitrary: f)
  case Nil
  then show ?case by simp
next
  case (Cons p ps)
  show ?case
  proof (cases "follow_turn expected f p")
    case (Inr r)
    then show ?thesis by simp
  next
    case (Inl fr)
    then obtain f' reports where t: "follow_turn expected f p = Inl (f', reports)" by (cases fr) auto
    note turn = follow_turn_reports [OF t Cons.prems]
    obtain rs r where fc: "follow_change expected f' ps = (rs, r)" by (cases "follow_change expected f' ps")
    from Cons.IH [OF turn(2)] turn(1,2)
    have ih: "sorted (percentages rs)" "\<forall>q \<in> set (percentages rs). fo_highest f' \<le> q \<and> fo_highest f \<le> q \<and> q \<le> 100"
      "distinct_adj (fo_shown f' # rs)"
      by (auto simp: fc intro: order_trans)
    have e: "fst (follow_change expected f (p # ps)) = reports @ rs" by (simp add: t fc)
    from turn(3,4) consider "reports = []" "fo_shown f' = fo_shown f"
      | "reports = [None]" "fo_shown f' = None" "fo_shown f \<noteq> None"
      | "reports = [Some (fo_highest f')]" "fo_shown f' = Some (fo_highest f')" "fo_shown f \<noteq> Some (fo_highest f')"
      by (cases "fo_shown f") auto
    then show ?thesis
      unfolding e by cases (use ih turn(1,2) in \<open>simp_all\<close>)
  qed
qed

text \<open>
  While one change is followed, the percentages reported never go down and never pass
  100, and nothing is reported twice in a row: the first report is a percentage, and each
  later one differs from the one before it.
\<close>

theorem follow_progress_monotone:
  "sorted (percentages (fst (follow_change expected following_new ps)))
    \<and> list_all (\<lambda>q. q \<le> 100) (percentages (fst (follow_change expected following_new ps)))
    \<and> distinct_adj (None # fst (follow_change expected following_new ps))"
  using follow_change_reports [of following_new expected ps] by (simp add: following_new_def list_all_iff)

section \<open>What the outcome rests on\<close>

definition settled :: "poll \<Rightarrow> bool" where
  "settled p \<longleftrightarrow> (po_cancelled p \<or> (case po_read p of Inr c \<Rightarrow> ch_ready c | Inl _ \<Rightarrow> False))"

definition unread :: "poll \<Rightarrow> bool" where
  "unread p \<longleftrightarrow> (case po_read p of Inl _ \<Rightarrow> True | Inr _ \<Rightarrow> False)"

lemma follow_turn_goes_on: "follow_turn expected f p = Inl (f', reports) \<Longrightarrow> \<not> settled p"
  by (auto simp: follow_turn_def settled_def Let_def split: if_splits sum.splits)

lemma follow_change_success:
  assumes "snd (follow_change expected f ps) = Some (Inr ())"
  shows "\<exists>pre c post. ps = pre @ \<lparr>po_cancelled = False, po_read = Inr c\<rparr> # post \<and> ch_ready c \<and> ch_err c = None
     \<and> ch_status c = lit ''Done'' \<and> list_all (\<lambda>p. \<not> settled p) pre"
  using assms
proof (induction ps arbitrary: f)
  case Nil
  then show ?case by simp
next
  case (Cons p ps)
  show ?case
  proof (cases "follow_turn expected f p")
    case (Inr r)
    with Cons.prems have "r = Inr ()" by simp
    with Inr obtain c where "po_read p = Inr c" "\<not> po_cancelled p" "ch_ready c" "change_outcome c = Inr ()"
      by (auto simp: follow_turn_def Let_def split: if_splits sum.splits)
    then have "p # ps = [] @ \<lparr>po_cancelled = False, po_read = Inr c\<rparr> # ps \<and> ch_ready c \<and> ch_err c = None \<and> ch_status c = lit ''Done''"
      by (cases p) (auto simp: change_outcome_def split: option.splits if_splits)
    then show ?thesis by (intro exI [of _ "[]"]) auto
  next
    case (Inl fr)
    then obtain f' reports where t: "follow_turn expected f p = Inl (f', reports)" by (cases fr) auto
    with Cons.prems have "snd (follow_change expected f' ps) = Some (Inr ())" by (simp split: prod.splits)
    from Cons.IH [OF this] obtain pre c post where "ps = pre @ \<lparr>po_cancelled = False, po_read = Inr c\<rparr> # post" "ch_ready c"
      "ch_err c = None" "ch_status c = lit ''Done''" "list_all (\<lambda>p. \<not> settled p) pre" by blast
    then show ?thesis using follow_turn_goes_on [OF t] by (intro exI [of _ "p # pre"]) auto
  qed
qed

text \<open>The run of unreadable polls before a turn is at least as long as the counter says.\<close>

lemma follow_change_unreadable:
  assumes "snd (follow_change expected f ps) = Some (Inl (CF_Unreadable m))"
    and "length before = fo_unreadable f" and "list_all unread before" and "fo_unreadable f < UNREADABLE_READS"
  shows "\<exists>pre bad post. before @ ps = pre @ bad @ post \<and> length bad = UNREADABLE_READS \<and> list_all unread bad
     \<and> po_read (last bad) = Inl m"
  using assms
proof (induction ps arbitrary: f before)
  case Nil
  then show ?case by simp
next
  case (Cons p ps)
  show ?case
  proof (cases "follow_turn expected f p")
    case (Inr r)
    with Cons.prems have "r = Inl (CF_Unreadable m)" by simp
    with Inr have p: "po_read p = Inl m" and n: "Suc (fo_unreadable f) = UNREADABLE_READS"
      by (auto simp: follow_turn_def change_outcome_def Let_def split: if_splits sum.splits option.splits)
    then have "unread p" by (simp add: unread_def)
    with p n have "before @ p # ps = [] @ (before @ [p]) @ ps \<and> length (before @ [p]) = UNREADABLE_READS \<and> list_all unread (before @ [p])
        \<and> po_read (last (before @ [p])) = Inl m" using Cons.prems by simp
    then show ?thesis by blast
  next
    case (Inl fr)
    then obtain f' reports where t: "follow_turn expected f p = Inl (f', reports)" by (cases fr) auto
    with Cons.prems have r: "snd (follow_change expected f' ps) = Some (Inl (CF_Unreadable m))" by (simp split: prod.splits)
    have "(unread p \<and> fo_unreadable f' = Suc (fo_unreadable f) \<and> Suc (fo_unreadable f) \<noteq> UNREADABLE_READS) \<or> fo_unreadable f' = 0"
      using t by (auto simp: follow_turn_def unread_def Let_def split: if_splits sum.splits)
    then show ?thesis
    proof
      assume "unread p \<and> fo_unreadable f' = Suc (fo_unreadable f) \<and> Suc (fo_unreadable f) \<noteq> UNREADABLE_READS"
      with Cons.IH [OF r, of "before @ [p]"] Cons.prems show ?thesis by simp
    next
      assume "fo_unreadable f' = 0"
      with Cons.IH [OF r, of "[]"] obtain pre bad post where "ps = pre @ bad @ post" "length bad = UNREADABLE_READS" "list_all unread bad"
        "po_read (last bad) = Inl m" by (auto simp: UNREADABLE_READS_def)
      then show ?thesis by (intro exI [of _ "before @ p # pre"] exI [of _ bad] exI [of _ post]) simp
    qed
  qed
qed

lemma follow_change_ends:
  "list_ex settled ps \<Longrightarrow> snd (follow_change expected f ps) \<noteq> None"
proof (induction ps arbitrary: f)
  case (Cons p ps)
  show ?case
  proof (cases "follow_turn expected f p")
    case (Inl fr)
    then obtain f' reports where t: "follow_turn expected f p = Inl (f', reports)" by (cases fr) auto
    with Cons.prems follow_turn_goes_on [OF t] Cons.IH [of f'] show ?thesis by (simp add: case_prod_beta)
  qed simp
qed simp

text \<open>
  What following a change answers is what happened. It answers success only on reading
  the change ready, \<open>Done\<close> and without an error, with nothing before that ending it; it gives
  up on reading only after ten unreadable answers in a row, and reports the last of them; and
  it does end once the user cancels or snapd has finished.
\<close>

theorem follow_outcome_real:
  "(snd (follow_change expected following_new ps) = Some (Inr ()) \<longrightarrow>
      (\<exists>pre c post. ps = pre @ \<lparr>po_cancelled = False, po_read = Inr c\<rparr> # post \<and> ch_ready c \<and> ch_err c = None
         \<and> ch_status c = lit ''Done'' \<and> list_all (\<lambda>p. \<not> settled p) pre))
   \<and> (snd (follow_change expected following_new ps) = Some (Inl (CF_Unreadable m)) \<longrightarrow>
      (\<exists>pre bad post. ps = pre @ bad @ post \<and> length bad = UNREADABLE_READS \<and> list_all unread bad \<and> po_read (last bad) = Inl m))
   \<and> (list_ex settled ps \<longrightarrow> snd (follow_change expected following_new ps) \<noteq> None)"
  using follow_change_success [of expected following_new ps] follow_change_ends [of ps expected following_new]
    follow_change_unreadable [of expected following_new ps m "[]"]
  by (simp add: following_new_def UNREADABLE_READS_def)

theorem follow_outcome_real_witness:
  "\<exists>pre bad post. replicate 12 \<lparr>po_cancelled = False, po_read = Inl (lit ''gone'')\<rparr> = pre @ bad @ post \<and> length bad = 10
     \<and> list_all unread bad \<and> po_read (last bad) = Inl (lit ''gone'')"
proof -
  let ?ps = "replicate 12 \<lparr>po_cancelled = False, po_read = Inl (lit ''gone'')\<rparr>"
  have "snd (follow_change 0 following_new ?ps) = Some (Inl (CF_Unreadable (lit ''gone'')))"
    by (simp add: follow_turn_def following_new_def UNREADABLE_READS_def numeral_eq_Suc)
  with follow_outcome_real [of 0 ?ps "lit ''gone''"] show ?thesis by (simp add: UNREADABLE_READS_def)
qed

section \<open>The second attempt\<close>

definition needs_retry :: "ustr \<Rightarrow> u64 \<Rightarrow> attempt \<Rightarrow> bool" where
  "needs_retry snap expected at =
     (case snd (install_once snap expected at) of
        Some r \<Rightarrow> (case failed_store_error r of Some e \<Rightarrow> transient e | None \<Rightarrow> False)
      | None \<Rightarrow> False)"

lemma install_outcome:
  "snd (install snap expected first second)
     = (if needs_retry snap expected first then snd (install_once snap expected second) else snd (install_once snap expected first))"
  by (auto simp: install_def needs_retry_def case_prod_beta Let_def split: option.splits)

text \<open>
  A snap installs when snapd says so, with one retry and no more. The install answers
  success exactly when the first attempt did, or when the first failed with a store error
  that may not recur (HTTP 408, 429 or 5xx in the message) and the second attempt succeeded;
  a failure that is not such an error, and a cancellation, are final.
\<close>

theorem install_retries_once:
  "snd (install snap expected first second) = Some (Inr ())
     \<longleftrightarrow> snd (install_once snap expected first) = Some (Inr ())
       \<or> (\<exists>step message e. snd (install_once snap expected first) = Some (Inl (SC_Execution step message))
            \<and> store_error_find message = Some e \<and> unat (se_status e) \<in> {408, 429} \<union> {500..599}
            \<and> snd (install_once snap expected second) = Some (Inr ()))"
proof -
  have tr: "transient e \<longleftrightarrow> unat (se_status e) \<in> {408, 429} \<union> {500..599}" for e
    by (simp add: transient_def word_le_nat_alt word_unat_eq_iff)
  have "needs_retry snap expected first
      \<longleftrightarrow> (\<exists>step message e. snd (install_once snap expected first) = Some (Inl (SC_Execution step message))
            \<and> store_error_find message = Some e \<and> transient e)"
    unfolding needs_retry_def
    by (auto split: option.splits elim!: failed_store_error.elims) metis
  then show ?thesis by (auto simp: install_outcome tr)
qed

text \<open>
  Across the retry the percentages may go down, and the report of a first attempt that
  failed while downloading stands until the second has a percentage of its own: each attempt
  follows its change afresh.
\<close>

definition shows_percent :: "nat \<Rightarrow> change_in_progress" where
  "shows_percent n = \<lparr>ch_id = [], ch_kind = [], ch_ready = False, ch_status = lit ''Doing'', ch_err = None, ch_summary = [],
      ch_tasks = [\<lparr>ct_kind = lit ''download-snap'', ct_status = lit ''Doing'',
                   ct_progress = \<lparr>tp_label = [], tp_done = of_nat n, tp_total = 100\<rparr>, ct_affected_snaps = []\<rparr>]\<rparr>"

definition fails_with :: "ustr \<Rightarrow> change_in_progress" where
  "fails_with m = (shows_percent 0)\<lparr>ch_ready := True, ch_err := Some m\<rparr>"

definition store_timeout :: ustr where
  "store_timeout = lit ''got unexpected HTTP status code 408 via GET to '' @ [34] @ lit ''u'' @ [34]"

lemma store_timeout_found: "store_error_find store_timeout = Some \<lparr>se_status = 408, se_method = lit ''GET'', se_url = lit ''u''\<rparr>"
  by (simp add: store_error_find_def store_timeout_def lit_def parse_unsigned_def is_ascii_digit_def dec_value_def)

lemma shows_percent_percent: "download_percent 0 (shows_percent 40) = Some 40" "download_percent 0 (shows_percent 5) = Some 5"
  by (simp_all add: download_percent_def download_sums_def shows_percent_def sized_def starts_with_def lit_def min_def max_def)

definition retried_install :: "install_effect list \<times> (system_configurator_error + unit) option" where
  "retried_install = install (lit ''myna'') 0
     \<lparr>at_request = Inr (Some (lit ''1'')),
      at_polls = [\<lparr>po_cancelled = False, po_read = Inr (shows_percent 40)\<rparr>, \<lparr>po_cancelled = False, po_read = Inr (fails_with store_timeout)\<rparr>]\<rparr>
     \<lparr>at_request = Inr (Some (lit ''2'')), at_polls = [\<lparr>po_cancelled = False, po_read = Inr (shows_percent 5)\<rparr>]\<rparr>"

text \<open>
  The percentages of one \<open>install\<close> may go down: after 40 percent of a first attempt that the
  store then fails with HTTP 408, the retry reports 5 percent.
\<close>

theorem install_percentage_may_drop:
  "\<exists>w. fst retried_install = [IX_Report (Some 40), IX_Evidence w, IX_Report (Some 5)] \<and> snd retried_install = None"
proof -
  have r: "ch_ready (fails_with m)" "ch_err (fails_with m) = Some m" "\<not> ch_ready (shows_percent n)" for m n
    by (simp_all add: fails_with_def shows_percent_def)
  have first: "follow_change 0 following_new [\<lparr>po_cancelled = False, po_read = Inr (shows_percent 40)\<rparr>,
        \<lparr>po_cancelled = False, po_read = Inr (fails_with store_timeout)\<rparr>] = ([Some 40], Some (Inl (CF_Failed store_timeout)))"
    and second: "follow_change 0 following_new [\<lparr>po_cancelled = False, po_read = Inr (shows_percent 5)\<rparr>] = ([Some 5], None)"
    by (simp_all add: follow_turn_def following_new_def shows_percent_percent r change_outcome_def Let_def max_def)
  show ?thesis
    by (simp add: retried_install_def install_def install_once_def first second Let_def
        change_failure_error_def snapd_execution_def store_timeout_found transient_def
        del: follow_change.simps)
qed

end
