(* ===== verification/Apply_Plan.thy ===== *)
theory Apply_Plan
  imports Snap_Install
begin

text \<open>
  The privileged plans, \<open>client/myna-config/src/apply_plan.rs\<close>: what the executor that runs as
  root accepts, and how it runs it. A plan is the list serde decodes from its argument; what
  running a command answers is offered, by how many commands have run before it.
\<close>

section \<open>Names\<close>

text \<open>
  \<open>is_valid_snap_name\<close> of \<open>adapters/snapd_client.rs\<close>. It reads bytes; a name with a character
  beyond ASCII is refused at its first byte, so characters serve.
\<close>

fun snap_name_loop :: "bool \<Rightarrow> ustr \<Rightarrow> bool" where
  "snap_name_loop prev_hyphen [] = True"
| "snap_name_loop prev_hyphen (b # bs) =
     (if is_ascii_lowercase b \<or> is_ascii_digit b then snap_name_loop False bs
      else if b = 45 then (if prev_hyphen then False else snap_name_loop True bs)
      else False)"

definition is_valid_snap_name :: "ustr \<Rightarrow> bool" where
  "is_valid_snap_name name \<longleftrightarrow>
     \<not> (name = [] \<or> 40 < length name) \<and> (is_ascii_lowercase (hd name) \<or> is_ascii_digit (hd name))
     \<and> last name \<noteq> 45 \<and> snap_name_loop False name"

text \<open>\<open>ModelFamily\<close> of \<open>myna-core/src/language.rs\<close>.\<close>

datatype model_family = Parakeet | Whisper | FunAsr

definition families :: "model_family list" where
  "families = [Parakeet, Whisper, FunAsr]"

fun family_snap_name :: "model_family \<Rightarrow> ustr" where
  "family_snap_name Parakeet = lit ''myna-parakeet''"
| "family_snap_name FunAsr = lit ''myna-funasr''"
| "family_snap_name Whisper = lit ''myna-whisper''"

definition from_snap_name :: "ustr \<Rightarrow> model_family option" where
  "from_snap_name s = find (\<lambda>f. family_snap_name f = s) families"

definition MYNA_SNAP :: ustr where "MYNA_SNAP = lit ''myna''"

section \<open>Plans\<close>

datatype plan_kind = PK_Apply | PK_SetUp

definition ALLOWED_EXECUTABLE :: ustr where "ALLOWED_EXECUTABLE = lit ''snap''"
definition MODELCTL_TAIL :: "ustr list" where "MODELCTL_TAIL = [lit ''--assume-yes'', lit ''--no-restart'']"

record plan_operation =
  op_executable :: ustr
  op_arguments :: "ustr list"

record plan_result =
  pr_executable :: ustr
  pr_arguments :: "ustr list"
  pr_exit_status :: "int option"
  pr_stdout :: ustr
  pr_stderr :: ustr

datatype plan_exit = PE_Success | PE_OperationFailed | PE_InvalidPlan

fun plan_exit_code :: "plan_exit \<Rightarrow> int" where
  "plan_exit_code PE_Success = 0"
| "plan_exit_code PE_OperationFailed = 1"
| "plan_exit_code PE_InvalidPlan = 2"

definition unexpected :: "ustr list \<Rightarrow> ustr" where
  "unexpected args = lit ''unexpected operation: '' @ ALLOWED_EXECUTABLE @ lit '' '' @ join (lit '' '') args"

definition is_modelctl_app :: "ustr \<Rightarrow> bool" where
  "is_modelctl_app app =
     (case split_once 46 app of
        Some (snap, command) \<Rightarrow> is_valid_snap_name snap \<and> is_valid_snap_name command
      | None \<Rightarrow> is_valid_snap_name app)"

definition is_config_key :: "ustr \<Rightarrow> bool" where
  "is_config_key key \<longleftrightarrow> key \<noteq> [] \<and> \<not> starts_with (lit ''-'') key
     \<and> list_all (\<lambda>c. is_ascii_alphanumeric c \<or> c = 46 \<or> c = 45 \<or> c = 95) key"

definition is_mynas :: "ustr \<Rightarrow> bool" where
  "is_mynas snap \<longleftrightarrow> snap = MYNA_SNAP \<or> from_snap_name snap \<noteq> None"

definition validate_set_up :: "ustr list \<Rightarrow> ustr + unit" where
  "validate_set_up args =
     (case args of
        [a, b, c] \<Rightarrow>
          if a = lit ''set'' \<and> b = lit ''system'' \<and> c = lit ''experimental.user-daemons=true'' then Inr ()
          else if a = lit ''install'' \<and> b = lit ''--edge'' then
            (if is_mynas c then Inr () else Inl (c @ lit '' is not one of Myna's snaps''))
          else if a = lit ''connect'' \<and> b = lit ''myna:backend'' then
            (case strip_suffix (lit '':provider'') c of
               Some snap \<Rightarrow> if from_snap_name snap \<noteq> None then Inr () else Inl (c @ lit '' is not a model's provider slot'')
             | None \<Rightarrow> Inl (c @ lit '' is not a model's provider slot''))
          else Inl (unexpected args)
      | _ \<Rightarrow> Inl (unexpected args))"

text \<open>The loop over the assignments of \<open>modelctl set\<close>.\<close>

fun validate_assignments :: "ustr list \<Rightarrow> ustr + unit" where
  "validate_assignments [] = Inr ()"
| "validate_assignments (a # as) =
     (case split_once 61 a of
        None \<Rightarrow> Inl (lit ''assignment '' @ a @ lit '' is not key=value'')
      | Some (key, _) \<Rightarrow>
          if is_config_key key then validate_assignments as else Inl (lit ''invalid configuration key '' @ key))"

definition validate_set :: "ustr list \<Rightarrow> ustr + unit" where
  "validate_set rest =
     (case strip_suffix MODELCTL_TAIL rest of
        None \<Rightarrow> Inl (lit ''modelctl set must end with --assume-yes --no-restart'')
      | Some assignments \<Rightarrow>
          if assignments = [] then Inl (lit ''modelctl set has no assignments'') else validate_assignments assignments)"

definition validate_modelctl :: "ustr \<Rightarrow> (ustr + unit) \<Rightarrow> ustr + unit" where
  "validate_modelctl app rest =
     (if \<not> is_modelctl_app app then Inl (lit ''invalid modelctl app '' @ app) else rest)"

definition validate_apply :: "ustr list \<Rightarrow> ustr + unit" where
  "validate_apply args =
     (case args of
        [a, snap] \<Rightarrow>
          if a = lit ''restart''
          then (if is_valid_snap_name snap then Inr () else Inl (lit ''invalid snap name '' @ snap))
          else Inl (unexpected args)
      | a # app # sub # rest \<Rightarrow>
          if a \<noteq> lit ''run'' then Inl (unexpected args)
          else if sub = lit ''set'' then validate_modelctl app (validate_set rest)
          else if sub = lit ''prune-cache'' \<and> rest = [] then validate_modelctl app (Inr ())
          else if sub = lit ''use-model'' then
            (case rest of
               model # tail \<Rightarrow> validate_modelctl app
                 (if model = [] \<or> starts_with (lit ''-'') model then Inl (lit ''invalid model '' @ model)
                  else if tail \<noteq> MODELCTL_TAIL then Inl (lit ''use-model must end with --assume-yes --no-restart'')
                  else Inr ())
             | [] \<Rightarrow> Inl (unexpected args))
          else if sub = lit ''use-engine'' then
            (case rest of
               engine # tail \<Rightarrow> validate_modelctl app
                 (if engine = [] \<or> (starts_with (lit ''-'') engine \<and> engine \<noteq> lit ''--auto'') then Inl (lit ''invalid engine '' @ engine)
                  else if tail \<noteq> MODELCTL_TAIL then Inl (lit ''use-engine must end with --assume-yes --no-restart'')
                  else Inr ())
             | [] \<Rightarrow> Inl (unexpected args))
          else Inl (unexpected args)
      | _ \<Rightarrow> Inl (unexpected args))"

fun validate_operations :: "plan_kind \<Rightarrow> plan_operation list \<Rightarrow> ustr + unit" where
  "validate_operations k [] = Inr ()"
| "validate_operations k (p # ps) =
     (if op_executable p \<noteq> ALLOWED_EXECUTABLE then Inl (lit ''unexpected executable '' @ op_executable p)
      else case (case k of PK_Apply \<Rightarrow> validate_apply (op_arguments p) | PK_SetUp \<Rightarrow> validate_set_up (op_arguments p)) of
        Inl e \<Rightarrow> Inl e
      | Inr _ \<Rightarrow> validate_operations k ps)"

definition validate_plan :: "plan_kind \<Rightarrow> plan_operation list \<Rightarrow> ustr + unit" where
  "validate_plan k plan = (if plan = [] then Inl (lit ''plan has no operations'') else validate_operations k plan)"

section \<open>Running a plan\<close>

text \<open>
  Running a command: its exit status and output, or the error that kept it from starting.
  \<open>execute\<close> records the command it ran; the offered world answers the \<open>n\<close>-th command.
\<close>

datatype command_answer = Ran "int option" ustr ustr | CannotRun ustr

type_synonym world = "nat \<Rightarrow> plan_operation \<Rightarrow> command_answer"

fun execute_result :: "plan_operation \<Rightarrow> command_answer \<Rightarrow> plan_result" where
  "execute_result p (Ran st out err) =
     \<lparr>pr_executable = op_executable p, pr_arguments = op_arguments p, pr_exit_status = st, pr_stdout = out, pr_stderr = err\<rparr>"
| "execute_result p (CannotRun e) =
     \<lparr>pr_executable = op_executable p, pr_arguments = op_arguments p, pr_exit_status = None, pr_stdout = [],
      pr_stderr = lit ''cannot run '' @ op_executable p @ lit '': '' @ e\<rparr>"

definition result_store_error :: "plan_result \<Rightarrow> store_error option" where
  "result_store_error r = (if pr_exit_status r \<noteq> Some 0 then store_error_find (pr_stderr r) else None)"

definition install_edge :: "plan_operation \<Rightarrow> ustr option" where
  "install_edge p =
     (case op_arguments p of
        [a, b, snap] \<Rightarrow> if a = lit ''install'' \<and> b = lit ''--edge'' then Some snap else None
      | _ \<Rightarrow> None)"

text \<open>\<open>run_operation\<close>: its result, the commands it ran, and what it wrote on stderr.\<close>

definition run_operation :: "world \<Rightarrow> nat \<Rightarrow> plan_operation \<Rightarrow> plan_result \<times> plan_operation list \<times> ustr list" where
  "run_operation w n p =
     (let r = execute_result p (w n p) in
      case install_edge p of
        None \<Rightarrow> (r, [p], [])
      | Some snap \<Rightarrow>
          (case result_store_error r of
             Some e \<Rightarrow>
               if transient e then
                 (let r' = execute_result p (w (n + 1) p) in
                  (r', [p, p], evidence e snap True # (case result_store_error r' of Some e' \<Rightarrow> [evidence e' snap False] | None \<Rightarrow> [])))
               else (r, [p], [])
           | None \<Rightarrow> (r, [p], [])))"

fun run_operations :: "world \<Rightarrow> nat \<Rightarrow> plan_operation list \<Rightarrow> plan_exit \<times> plan_result list \<times> plan_operation list \<times> ustr list" where
  "run_operations w n [] = (PE_Success, [], [], [])"
| "run_operations w n (p # ps) =
     (let (r, cmds, errs) = run_operation w n p in
      if pr_exit_status r \<noteq> Some 0 then (PE_OperationFailed, [r], cmds, errs)
      else let (x, rs, cmds', errs') = run_operations w (n + length cmds) ps in (x, r # rs, cmds @ cmds', errs @ errs'))"

text \<open>\<open>run_plan\<close> of the decoded plan; a plan that does not decode is serde's error.\<close>

definition run_plan :: "world \<Rightarrow> plan_kind \<Rightarrow> ustr + plan_operation list \<Rightarrow> plan_exit \<times> plan_result list \<times> plan_operation list \<times> ustr list" where
  "run_plan w k decoded =
     (case decoded of
        Inl e \<Rightarrow> (PE_InvalidPlan, [], [], [lit ''myna-config: invalid apply plan: '' @ e])
      | Inr plan \<Rightarrow>
          (case validate_plan k plan of
             Inl e \<Rightarrow> (PE_InvalidPlan, [], [], [lit ''myna-config: invalid apply plan: '' @ e])
           | Inr _ \<Rightarrow> run_operations w 0 plan))"

section \<open>Snap names\<close>

lemma snap_name_loop_iff:
  "snap_name_loop h s \<longleftrightarrow> list_all is_name_char s \<and> (\<nexists>a b. s = a @ [45, 45] @ b) \<and> \<not> (h \<and> s \<noteq> [] \<and> hd s = 45)"
proof (induction h s rule: snap_name_loop.induct)
  case (1 h)
  then show ?case by simp
next
  case (2 h c cs)
  have "(\<exists>a b. c # cs = a @ [45, 45] @ b) \<longleftrightarrow> (c = 45 \<and> cs \<noteq> [] \<and> hd cs = 45) \<or> (\<exists>a b. cs = a @ [45, 45] @ b)"
    by (cases cs) (auto simp: Cons_eq_append_conv)
  with 2 show ?case by (auto simp: is_name_char_def is_ascii_lowercase_def is_ascii_digit_def)
qed

lemma is_valid_snap_name_iff:
  "is_valid_snap_name s \<longleftrightarrow> s \<noteq> [] \<and> length s \<le> 40 \<and> list_all is_name_char s \<and> hd s \<noteq> 45 \<and> last s \<noteq> 45
     \<and> (\<nexists>a b. s = a @ [45, 45] @ b)"
  by (cases s) (auto simp: is_valid_snap_name_def snap_name_loop_iff is_name_char_def is_ascii_lowercase_def is_ascii_digit_def)

lemma from_snap_name_Some: "from_snap_name s \<noteq> None \<longleftrightarrow> s \<in> {lit ''myna-parakeet'', lit ''myna-whisper'', lit ''myna-funasr''}"
  by (auto simp: from_snap_name_def families_def)

section \<open>What a plan may do\<close>

text \<open>All that setting up may run as root.\<close>

definition set_up_arguments :: "ustr list set" where
  "set_up_arguments =
     {[lit ''set'', lit ''system'', lit ''experimental.user-daemons=true'']}
     \<union> (\<lambda>snap. [lit ''install'', lit ''--edge'', snap]) ` {lit ''myna'', lit ''myna-parakeet'', lit ''myna-whisper'', lit ''myna-funasr''}
     \<union> (\<lambda>snap. [lit ''connect'', lit ''myna:backend'', snap @ lit '':provider'']) ` {lit ''myna-parakeet'', lit ''myna-whisper'', lit ''myna-funasr''}"

lemma three_cases:
  obtains a b c where "args = [a, b, c]" | "\<nexists>a b c. args = [a, b, c]"
  by blast

lemma validate_set_up_shape:
  "validate_set_up args = Inr () \<longleftrightarrow>
     args = [lit ''set'', lit ''system'', lit ''experimental.user-daemons=true'']
   \<or> (\<exists>snap. args = [lit ''install'', lit ''--edge'', snap] \<and> is_mynas snap)
   \<or> (\<exists>snap. args = [lit ''connect'', lit ''myna:backend'', snap @ lit '':provider''] \<and> from_snap_name snap \<noteq> None)"
proof (cases rule: three_cases [of args])
  case (1 a b c)
  show ?thesis
  proof (cases "strip_suffix (lit '':provider'') c")
    case None
    then have "\<nexists>snap. c = snap @ lit '':provider''" by (metis option.distinct(1) strip_suffix_Some)
    then show ?thesis unfolding 1 validate_set_up_def using None by simp
  next
    case (Some snap)
    then have "c = snap @ lit '':provider''" by (simp add: strip_suffix_Some)
    with Some show ?thesis unfolding 1 validate_set_up_def by (simp, blast)
  qed
next
  case 2
  then have "validate_set_up args = Inl (unexpected args)" by (simp add: validate_set_up_def split: list.split)
  with 2 show ?thesis by auto
qed

lemma validate_set_up_iff: "validate_set_up args = Inr () \<longleftrightarrow> args \<in> set_up_arguments"
  unfolding validate_set_up_shape set_up_arguments_def is_mynas_def from_snap_name_Some MYNA_SNAP_def by blast

lemma validate_operations_iff:
  "validate_operations k plan = Inr () \<longleftrightarrow>
     (\<forall>p \<in> set plan. op_executable p = lit ''snap''
        \<and> (case k of PK_Apply \<Rightarrow> validate_apply (op_arguments p) | PK_SetUp \<Rightarrow> validate_set_up (op_arguments p)) = Inr ())"
  by (induction k plan rule: validate_operations.induct)
    (auto simp: ALLOWED_EXECUTABLE_def split: sum.splits plan_kind.splits)

lemma validate_plan_iff: "validate_plan k plan = Inr () \<longleftrightarrow> plan \<noteq> [] \<and> validate_operations k plan = Inr ()"
  by (simp add: validate_plan_def)

text \<open>The shapes an apply may have.\<close>

definition allowed_apply :: "ustr list \<Rightarrow> bool" where
  "allowed_apply args \<longleftrightarrow>
     (\<exists>snap. args = [lit ''restart'', snap] \<and> is_valid_snap_name snap)
   \<or> (\<exists>app. is_modelctl_app app \<and>
        (args = [lit ''run'', app, lit ''prune-cache'']
         \<or> (\<exists>assigns. args = [lit ''run'', app, lit ''set''] @ assigns @ MODELCTL_TAIL \<and> assigns \<noteq> []
              \<and> (\<forall>a \<in> set assigns. \<exists>key v. a = key @ [61] @ v \<and> is_config_key key))
         \<or> (\<exists>model. args = [lit ''run'', app, lit ''use-model'', model] @ MODELCTL_TAIL \<and> model \<noteq> [] \<and> hd model \<noteq> 45)
         \<or> (\<exists>engine. args = [lit ''run'', app, lit ''use-engine'', engine] @ MODELCTL_TAIL \<and> engine \<noteq> []
              \<and> (hd engine \<noteq> 45 \<or> engine = lit ''--auto''))))"

lemma key_no_equals: "is_config_key key \<Longrightarrow> 61 \<notin> set key"
  by (auto simp: is_config_key_def list_all_iff ascii_defs)

lemma validate_assignments_iff:
  "validate_assignments as = Inr () \<longleftrightarrow> (\<forall>a \<in> set as. \<exists>key v. a = key @ [61] @ v \<and> is_config_key key)"
proof (induction as rule: validate_assignments.induct)
  case 1
  then show ?case by simp
next
  case (2 a as)
  have "(\<exists>key v. a = key @ [61] @ v \<and> is_config_key key)
      \<longleftrightarrow> (case split_once 61 a of None \<Rightarrow> False | Some (key, _) \<Rightarrow> is_config_key key)"
  proof (cases "split_once 61 a")
    case None
    then have "61 \<notin> set a" by (simp add: split_once_None)
    then show ?thesis by (auto simp: None)
  next
    case (Some kv)
    obtain key v where kv: "kv = (key, v)" by (cases kv)
    have "split_once 61 a = Some (key', v')" if "a = key' @ [61] @ v'" "is_config_key key'" for key' v'
      using that key_no_equals by (simp add: split_once_Some)
    moreover have "a = key @ [61] @ v" using Some kv by (simp add: split_once_Some)
    ultimately show ?thesis using Some kv by auto
  qed
  with 2 show ?case by (auto split: option.splits)
qed

lemma validate_set_iff:
  "validate_set rest = Inr () \<longleftrightarrow>
     (\<exists>assigns. rest = assigns @ MODELCTL_TAIL \<and> assigns \<noteq> []
        \<and> (\<forall>a \<in> set assigns. \<exists>key v. a = key @ [61] @ v \<and> is_config_key key))"
proof (cases "strip_suffix MODELCTL_TAIL rest")
  case None
  then have "\<nexists>assigns. rest = assigns @ MODELCTL_TAIL" by (metis option.distinct(1) strip_suffix_Some)
  with None show ?thesis by (auto simp: validate_set_def)
next
  case (Some assigns)
  then have "rest = assigns @ MODELCTL_TAIL" by (simp add: strip_suffix_Some)
  with Some show ?thesis by (auto simp: validate_set_def validate_assignments_iff)
qed

lemma starts_with_hyphen: "starts_with (lit ''-'') s \<longleftrightarrow> s \<noteq> [] \<and> hd s = 45"
  by (cases s) (auto simp: starts_with_def lit_def)

lemma validate_modelctl_iff: "validate_modelctl app r = Inr () \<longleftrightarrow> is_modelctl_app app \<and> r = Inr ()"
  by (simp add: validate_modelctl_def)

lemma arguments_cases:
  obtains a snap where "args = [a, snap]" | a app sub rest where "args = a # app # sub # rest"
  | "length args < 2"
proof (cases args)
  case Nil
  then show ?thesis using that by simp
next
  case (Cons a as)
  show ?thesis
  proof (cases as)
    case Nil
    then show ?thesis using that Cons by simp
  next
    case inner: (Cons b bs)
    then show ?thesis using that Cons by (cases bs) auto
  qed
qed

lemma validate_apply_iff: "validate_apply args = Inr () \<longleftrightarrow> allowed_apply args"
proof (cases rule: arguments_cases [of args])
  case (1 a snap)
  then show ?thesis by (auto simp: validate_apply_def allowed_apply_def MODELCTL_TAIL_def)
next
  case (2 a app sub rest)
  show ?thesis unfolding 2
    by (cases rest)
      (auto simp: validate_apply_def allowed_apply_def validate_modelctl_iff validate_set_iff starts_with_hyphen split: if_splits)
next
  case 3
  then show ?thesis by (auto simp: validate_apply_def allowed_apply_def MODELCTL_TAIL_def split: list.splits)
qed

text \<open>
  C14: setting up can do eight things and nothing else. A set-up plan is accepted exactly when
  it is not empty and each of its commands is \<open>snap\<close> with the user-daemons flag, an install of
  Myna or of one of its three models from edge, or a connection of Myna's backend plug to one
  of those models' provider slots.
\<close>

theorem set_up_plan_allowlist:
  "validate_plan PK_SetUp plan = Inr ()
     \<longleftrightarrow> plan \<noteq> [] \<and> list_all (\<lambda>p. op_executable p = lit ''snap'' \<and> op_arguments p \<in> set_up_arguments) plan"
  by (simp add: validate_plan_iff validate_operations_iff validate_set_up_iff list_all_iff)

lemma snap_name_no_option: "is_valid_snap_name s \<Longrightarrow> s \<noteq> [] \<and> hd s \<noteq> 45"
  by (simp add: is_valid_snap_name_iff)

lemma modelctl_app_no_option: "is_modelctl_app app \<Longrightarrow> app \<noteq> [] \<and> hd app \<noteq> 45"
  by (auto simp: is_modelctl_app_def split_once_Some dest: snap_name_no_option split: option.splits)

lemma assignment_no_option: "is_config_key key \<Longrightarrow> hd (key @ [61] @ v) \<noteq> 45"
  by (cases key) (auto simp: is_config_key_def starts_with_hyphen)

lemma lit_options: "hd (lit ''run'') \<noteq> 45" "hd (lit ''restart'') \<noteq> 45" "hd (lit ''set'') \<noteq> 45" "hd (lit ''prune-cache'') \<noteq> 45"
  "hd (lit ''use-model'') \<noteq> 45" "hd (lit ''use-engine'') \<noteq> 45"
  by (simp_all add: lit_def)

lemma allowed_apply_options:
  assumes "allowed_apply args" and "a \<in> set args" and "hd a = 45"
  shows "a \<in> {lit ''--assume-yes'', lit ''--no-restart'', lit ''--auto''}"
  using assms
proof -
  have no_app: "\<not> is_modelctl_app a" and no_snap: "\<not> is_valid_snap_name a"
    and no_key: "\<nexists>key v. a = key @ [61] @ v \<and> is_config_key key"
    using assms(3) modelctl_app_no_option snap_name_no_option assignment_no_option by blast+
  show ?thesis
    using assms no_app no_snap no_key
    unfolding allowed_apply_def MODELCTL_TAIL_def by (elim disjE exE conjE; auto simp: lit_options; blast)
qed

lemma allowed_apply_command: "allowed_apply args \<Longrightarrow> args \<noteq> [] \<and> hd args \<in> {lit ''restart'', lit ''run''}"
  by (auto simp: allowed_apply_def)

text \<open>
  C38: an apply cannot smuggle options. Every command of an accepted apply plan is \<open>snap run\<close> or
  \<open>snap restart\<close> in one of the allowed shapes, and none of its arguments that begins with a
  hyphen is other than \<open>--assume-yes\<close>, \<open>--no-restart\<close> and \<open>--auto\<close>.
\<close>

theorem apply_plan_allowlist:
  assumes "validate_plan PK_Apply plan = Inr ()" and "p \<in> set plan"
  shows "op_executable p = lit ''snap'' \<and> allowed_apply (op_arguments p)
    \<and> hd (op_arguments p) \<in> {lit ''restart'', lit ''run''}
    \<and> (\<forall>a \<in> set (op_arguments p). hd a = 45 \<longrightarrow> a \<in> {lit ''--assume-yes'', lit ''--no-restart'', lit ''--auto''})"
proof -
  from assms have "op_executable p = lit ''snap''" and a: "allowed_apply (op_arguments p)"
    by (auto simp: validate_plan_iff validate_operations_iff validate_apply_iff)
  with allowed_apply_options [OF a] allowed_apply_command [OF a] show ?thesis by blast
qed

theorem apply_plan_allowlist_witness:
  "allowed_apply [lit ''restart'', lit ''myna-whisper'']"
proof -
  let ?p = "\<lparr>op_executable = lit ''snap'', op_arguments = [lit ''restart'', lit ''myna-whisper'']\<rparr>"
  have "is_valid_snap_name (lit ''myna-whisper'')" by (simp add: is_valid_snap_name_def lit_def ascii_defs)
  then have "validate_plan PK_Apply [?p] = Inr ()"
    by (simp add: validate_plan_def ALLOWED_EXECUTABLE_def validate_apply_def)
  from apply_plan_allowlist [OF this, of ?p] show ?thesis by simp
qed

section \<open>How a plan runs\<close>

lemma run_operation_ran:
  "fst (snd (run_operation w n p)) = [p] \<or> install_edge p \<noteq> None \<and> fst (snd (run_operation w n p)) = [p, p]"
  by (auto simp: run_operation_def Let_def split: option.splits)

lemma execute_result_names: "pr_executable (execute_result p a) = op_executable p \<and> pr_arguments (execute_result p a) = op_arguments p"
  by (cases a) simp_all

lemma run_operation_names:
  "pr_executable (fst (run_operation w n p)) = op_executable p \<and> pr_arguments (fst (run_operation w n p)) = op_arguments p"
  by (auto simp: run_operation_def Let_def execute_result_names split: option.splits)

text \<open>How often each operation of a plan ran, and what the run answers.\<close>

definition ran_as :: "nat list \<Rightarrow> plan_operation list \<Rightarrow> plan_operation list \<Rightarrow> bool" where
  "ran_as ns ps cmds \<longleftrightarrow> list_all2 (\<lambda>n p. n = 1 \<or> n = 2 \<and> install_edge p \<noteq> None) ns ps \<and> cmds = concat (map2 replicate ns ps)"

definition stopped_right :: "plan_operation list \<Rightarrow> plan_exit \<Rightarrow> plan_result list \<Rightarrow> bool" where
  "stopped_right plan x rs \<longleftrightarrow>
     (case x of
        PE_Success \<Rightarrow> length rs = length plan \<and> list_all (\<lambda>r. pr_exit_status r = Some 0) rs
      | PE_OperationFailed \<Rightarrow> rs \<noteq> [] \<and> pr_exit_status (last rs) \<noteq> Some 0 \<and> list_all (\<lambda>r. pr_exit_status r = Some 0) (butlast rs)
      | PE_InvalidPlan \<Rightarrow> False)"

lemma run_operations_spec:
  "run_operations w n plan = (x, rs, cmds, errs) \<Longrightarrow>
     stopped_right plan x rs \<and> length rs \<le> length plan
     \<and> list_all2 (\<lambda>r p. pr_executable r = op_executable p \<and> pr_arguments r = op_arguments p) rs (take (length rs) plan)
     \<and> (\<exists>ns. ran_as ns (take (length rs) plan) cmds)"
proof (induction w n plan arbitrary: x rs cmds errs rule: run_operations.induct)
  case (1 w n)
  then show ?case by (auto simp: stopped_right_def ran_as_def)
next
  case (2 w n p ps)
  obtain r cmds1 errs1 where op: "run_operation w n p = (r, cmds1, errs1)" by (cases "run_operation w n p") auto
  have nm: "pr_executable r = op_executable p" "pr_arguments r = op_arguments p"
    using run_operation_names [of w n p] op by auto
  obtain k where k: "cmds1 = replicate k p" "k = 1 \<or> k = 2 \<and> install_edge p \<noteq> None"
  proof (cases "cmds1 = [p]")
    case True
    with that [of 1] show ?thesis by simp
  next
    case False
    with run_operation_ran [of w n p] op that [of 2] show ?thesis by (auto simp: numeral_2_eq_2)
  qed
  show ?case
  proof (cases "pr_exit_status r = Some 0")
    case False
    then have "x = PE_OperationFailed" "rs = [r]" "cmds = cmds1" using "2.prems" op by auto
    moreover from this k have "ran_as [k] (take (length rs) (p # ps)) cmds" by (auto simp: ran_as_def)
    ultimately show ?thesis using False nm by (auto simp: stopped_right_def)
  next
    case True
    obtain x' rs' cmds' errs' where more: "run_operations w (n + length cmds1) ps = (x', rs', cmds', errs')"
      by (cases "run_operations w (n + length cmds1) ps") auto
    with True "2.prems" op have eqs: "x = x'" "rs = r # rs'" "cmds = cmds1 @ cmds'" by auto
    from "2.IH" [OF op [symmetric] refl refl _ more] True
    obtain ns where ih: "stopped_right ps x' rs'" "length rs' \<le> length ps" "ran_as ns (take (length rs') ps) cmds'"
      "list_all2 (\<lambda>r p. pr_executable r = op_executable p \<and> pr_arguments r = op_arguments p) rs' (take (length rs') ps)" by auto
    then have "ran_as (k # ns) (take (length rs) (p # ps)) cmds"
      using k by (auto simp: eqs ran_as_def)
    moreover have "stopped_right (p # ps) x rs"
      using ih(1) True by (auto simp: eqs stopped_right_def split: plan_exit.splits)
    ultimately show ?thesis using ih nm by (auto simp: eqs)
  qed
qed

text \<open>
  C13: nothing unvalidated runs as root. Whatever the commands answer, a plan that does not
  decode or validate runs nothing and exits 2; otherwise the commands run are those of a
  prefix of the plan, in order, each once, or twice when it is an install from edge. Success
  means every operation of the plan exited 0; a failure is the last result, with every result
  before it a success, and nothing of the plan after it has run.
\<close>

theorem run_plan_safe:
  assumes "run_plan w k decoded = (x, rs, cmds, errs)"
  shows "if \<exists>plan. decoded = Inr plan \<and> validate_plan k plan = Inr ()
    then \<exists>ns. ran_as ns (take (length rs) (projr decoded)) cmds
           \<and> list_all2 (\<lambda>r p. pr_executable r = op_executable p \<and> pr_arguments r = op_arguments p) rs (take (length rs) (projr decoded))
           \<and> stopped_right (projr decoded) x rs
    else plan_exit_code x = 2 \<and> rs = [] \<and> cmds = []"
proof (cases "\<exists>plan. decoded = Inr plan \<and> validate_plan k plan = Inr ()")
  case True
  then obtain plan where "decoded = Inr plan" and "validate_plan k plan = Inr ()" by blast
  with assms run_operations_spec [of w 0 plan x rs cmds errs] True show ?thesis by (auto simp: run_plan_def)
next
  case False
  with assms show ?thesis by (auto simp: run_plan_def split: sum.splits)
qed

definition store_down :: world where
  "store_down n p = (if n = 0 then Ran (Some 1) [] store_timeout else Ran (Some 0) [] [])"

theorem run_plan_safe_witness:
  "\<exists>ns. ran_as ns [\<lparr>op_executable = lit ''snap'', op_arguments = [lit ''install'', lit ''--edge'', lit ''myna'']\<rparr>]
      (replicate 2 \<lparr>op_executable = lit ''snap'', op_arguments = [lit ''install'', lit ''--edge'', lit ''myna'']\<rparr>)"
proof -
  let ?p = "\<lparr>op_executable = lit ''snap'', op_arguments = [lit ''install'', lit ''--edge'', lit ''myna'']\<rparr>"
  have v: "validate_plan PK_SetUp [?p] = Inr ()"
    by (simp add: validate_plan_def ALLOWED_EXECUTABLE_def validate_set_up_def is_mynas_def MYNA_SNAP_def)
  have "run_operations store_down 0 [?p] = (PE_Success,
      [\<lparr>pr_executable = lit ''snap'', pr_arguments = op_arguments ?p, pr_exit_status = Some 0, pr_stdout = [], pr_stderr = []\<rparr>], [?p, ?p],
      [evidence \<lparr>se_status = 408, se_method = lit ''GET'', se_url = lit ''u''\<rparr> (lit ''myna'') True])"
    by (simp add: run_operation_def store_down_def install_edge_def result_store_error_def store_timeout_found transient_def)
  then have "run_plan store_down PK_SetUp (Inr [?p]) = (PE_Success,
      [\<lparr>pr_executable = lit ''snap'', pr_arguments = op_arguments ?p, pr_exit_status = Some 0, pr_stdout = [], pr_stderr = []\<rparr>], [?p, ?p],
      [evidence \<lparr>se_status = 408, se_method = lit ''GET'', se_url = lit ''u''\<rparr> (lit ''myna'') True])"
    by (simp add: run_plan_def v del: run_operations.simps)
  from run_plan_safe [OF this] v show ?thesis by (auto simp: numeral_2_eq_2)
qed

end
