(* ===== verification/Connections.thy ===== *)
theory Connections
  imports Apply_Plan "HOL-Library.List_Lexorder" "HOL-Library.Product_Lexorder" "HOL-Library.Option_ord"
begin

text \<open>
  The models on the machine and which of them feed Myna, \<open>client/myna-config/src/domain.rs\<close>, and
  the plan that switches from one to another, \<open>active_backend.rs\<close>, with the adapter that runs it
  against snapd, \<open>adapters/system_configurator.rs\<close>. A \<open>BTreeSet\<close> is its sorted list.
\<close>

section \<open>Backends and connections\<close>

record backend_identity =
  bi_snap_name :: ustr
  bi_slot_name :: ustr
  bi_modelctl_app :: "ustr option"

definition backend_identity_new :: "ustr \<Rightarrow> ustr \<Rightarrow> backend_identity" where
  "backend_identity_new snap slot_name = \<lparr>bi_snap_name = snap, bi_slot_name = slot_name, bi_modelctl_app = None\<rparr>"

definition slot :: "backend_identity \<Rightarrow> ustr" where
  "slot b = bi_snap_name b @ lit '':'' @ bi_slot_name b"

text \<open>The derived order compares the fields in turn.\<close>

definition identity_key :: "backend_identity \<Rightarrow> ustr \<times> ustr \<times> ustr option" where
  "identity_key b = (bi_snap_name b, bi_slot_name b, bi_modelctl_app b)"

datatype active_backend_state =
    AB_Disconnected
  | AB_Connected backend_identity
  | AB_MultiplyConnected "backend_identity list"

record connection_snapshot =
  cs_backends :: "backend_identity list"
  cs_active_state :: active_backend_state
  cs_strays :: "backend_identity list"

definition PROVIDER_CONTENT_ID :: ustr where "PROVIDER_CONTENT_ID = lit ''inference-provider''"
definition SPEECH_TO_TEXT_TASK :: ustr where "SPEECH_TO_TEXT_TASK = lit ''speech-to-text''"

text \<open>The attributes of a slot that are strings, and the plugs connected to it.\<close>

record content_slot =
  sl_snap :: ustr
  sl_slot :: ustr
  sl_attrs :: "ustr \<rightharpoonup> ustr"
  sl_connections :: "(ustr \<times> ustr) list"

definition is_model :: "content_slot \<Rightarrow> bool" where
  "is_model s \<longleftrightarrow> sl_attrs s (lit ''content'') = Some PROVIDER_CONTENT_ID
     \<and> (sl_attrs s (lit ''task'') = Some SPEECH_TO_TEXT_TASK \<or> from_snap_name (sl_snap s) \<noteq> None)"

definition feeds_myna :: "content_slot \<Rightarrow> bool" where
  "feeds_myna s = list_ex (\<lambda>(snap, plug). snap = lit ''myna'' \<and> plug = lit ''backend'') (sl_connections s)"

definition set_insert :: "backend_identity \<Rightarrow> backend_identity list \<Rightarrow> backend_identity list" where
  "set_insert b bs = insort_insert_key identity_key b bs"

fun classify_slots :: "content_slot list \<Rightarrow> backend_identity list \<times> backend_identity list \<times> backend_identity list
    \<Rightarrow> backend_identity list \<times> backend_identity list \<times> backend_identity list" where
  "classify_slots [] acc = acc"
| "classify_slots (s # ss) (discovered, connected, strays) =
     (let b = backend_identity_new (sl_snap s) (sl_slot s) in
      classify_slots ss
        (if is_model s \<and> feeds_myna s then (set_insert b discovered, set_insert b connected, strays)
         else if is_model s then (set_insert b discovered, connected, strays)
         else if feeds_myna s then (discovered, connected, set_insert b strays)
         else (discovered, connected, strays)))"

definition active_state_of :: "backend_identity list \<Rightarrow> active_backend_state" where
  "active_state_of connected =
     (case connected of [] \<Rightarrow> AB_Disconnected | [b] \<Rightarrow> AB_Connected b | bs \<Rightarrow> AB_MultiplyConnected bs)"

definition connection_snapshot_of :: "content_slot list \<Rightarrow> connection_snapshot" where
  "connection_snapshot_of slots =
     (let (discovered, connected, strays) = classify_slots slots ([], [], [])
      in \<lparr>cs_backends = discovered, cs_active_state = active_state_of connected, cs_strays = strays\<rparr>)"

section \<open>The switch plan\<close>

definition MYNA_USER_UNIT :: ustr where "MYNA_USER_UNIT = lit ''snap.myna.myna.service''"

text \<open>Of a \<open>CommandRequest\<close> the plans use the executable and the arguments.\<close>

record command_request =
  cr_executable :: ustr
  cr_arguments :: "ustr list"

datatype prepare_switch_error = PS_BackendUnavailable backend_identity | PS_Busy

record switch_plan =
  sp_baseline :: connection_snapshot
  sp_selected :: backend_identity
  sp_operations :: "command_request list"

definition privileged_snap_request :: "ustr \<Rightarrow> ustr \<Rightarrow> command_request" where
  "privileged_snap_request action s = \<lparr>cr_executable = lit ''snap'', cr_arguments = [action, lit ''myna:backend'', s]\<rparr>"

definition myna_restart_request :: command_request where
  "myna_restart_request = \<lparr>cr_executable = lit ''systemctl'', cr_arguments = [lit ''--user'', lit ''restart'', MYNA_USER_UNIT]\<rparr>"

fun connected_of :: "active_backend_state \<Rightarrow> backend_identity list" where
  "connected_of AB_Disconnected = []"
| "connected_of (AB_Connected b) = [b]"
| "connected_of (AB_MultiplyConnected bs) = bs"

definition connected_backends :: "connection_snapshot \<Rightarrow> backend_identity list" where
  "connected_backends s = connected_of (cs_active_state s)"

definition selected_is_active :: "connection_snapshot \<Rightarrow> backend_identity \<Rightarrow> bool" where
  "selected_is_active s b = (case cs_active_state s of AB_Connected c \<Rightarrow> c = b | _ \<Rightarrow> False)"

definition switch_plan_new :: "connection_snapshot \<Rightarrow> backend_identity \<Rightarrow> prepare_switch_error + switch_plan" where
  "switch_plan_new snapshot selected =
     (if selected \<notin> set (cs_backends snapshot) then Inl (PS_BackendUnavailable selected)
      else
        let connected = connected_backends snapshot;
            operations =
              (if connected = [selected] then []
               else map (\<lambda>b. privileged_snap_request (lit ''disconnect'') (slot b)) (connected @ cs_strays snapshot)
                 @ [privileged_snap_request (lit ''connect'') (slot selected), myna_restart_request])
        in Inr \<lparr>sp_baseline = snapshot, sp_selected = selected, sp_operations = operations\<rparr>)"

definition is_noop :: "switch_plan \<Rightarrow> bool" where
  "is_noop p \<longleftrightarrow> sp_operations p = []"

section \<open>The adapter that runs a switch\<close>

definition is_valid_slot_name :: "ustr \<Rightarrow> bool" where
  "is_valid_slot_name name \<longleftrightarrow>
     (case name of [] \<Rightarrow> False | c # _ \<Rightarrow> is_ascii_lowercase c) \<and> last name \<noteq> 45
     \<and> split_once_str [45, 45] name = None \<and> list_all is_name_char name"

datatype interface_action = Connect ustr ustr | Disconnect ustr ustr

datatype switch_step = SS_Interface command_request interface_action | SS_Restart command_request

fun request_for_step :: "switch_step \<Rightarrow> command_request" where
  "request_for_step (SS_Interface r a) = r"
| "request_for_step (SS_Restart r) = r"

fun is_connect :: "switch_step \<Rightarrow> bool" where
  "is_connect (SS_Interface r (Connect s t)) = True"
| "is_connect _ = False"

fun is_disconnect :: "switch_step \<Rightarrow> bool" where
  "is_disconnect (SS_Interface r (Disconnect s t)) = True"
| "is_disconnect _ = False"

fun is_restart :: "switch_step \<Rightarrow> bool" where
  "is_restart (SS_Restart r) = True"
| "is_restart _ = False"

definition validate_operation :: "command_request \<Rightarrow> ustr + switch_step" where
  "validate_operation r =
     (if cr_executable r = lit ''systemctl'' then
        (if r \<noteq> myna_restart_request then Inl (lit ''restart must be exactly Myna's user service'') else Inr (SS_Restart r))
      else if cr_executable r \<noteq> lit ''snap'' then Inl (lit ''unexpected executable in switch plan: '' @ cr_executable r)
      else case cr_arguments r of
        [] \<Rightarrow> Inl (lit ''switch plan operation has no arguments'')
      | action # rest \<Rightarrow>
          if action \<noteq> lit ''connect'' \<and> action \<noteq> lit ''disconnect'' then Inl (lit ''unknown snap action '' @ action)
          else (case rest of
              [plug, target] \<Rightarrow>
                if plug \<noteq> lit ''myna:backend'' then Inl (lit ''unexpected plug '' @ plug)
                else (case split_once 58 target of
                    None \<Rightarrow> Inl (lit ''malformed slot '' @ target)
                  | Some (backend, slot_name) \<Rightarrow>
                      if \<not> is_valid_snap_name backend then Inl (lit ''invalid backend snap name: '' @ backend)
                      else if \<not> is_valid_slot_name slot_name then Inl (lit ''invalid backend slot name: '' @ slot_name)
                      else Inr (SS_Interface r (if action = lit ''connect'' then Connect backend slot_name else Disconnect backend slot_name)))
            | _ \<Rightarrow> Inl (lit ''switch plan operation must have 3 arguments, got '' @ dec_digits (length (cr_arguments r)))))"

record command_result =
  cmd_executable :: ustr
  cmd_arguments :: "ustr list"
  cmd_exit_status :: "int option"
  cmd_stdout :: ustr
  cmd_stderr :: ustr

record configurator_failure =
  cf_completed :: "command_result list"
  cf_error :: system_configurator_error

definition interface_request :: "command_request \<Rightarrow> ustr" where
  "interface_request r = lit ''POST /v2/interfaces ('' @ join (lit '' '') (cr_arguments r) @ lit '')''"

definition invalid_switch_plan :: "command_request \<Rightarrow> ustr \<Rightarrow> configurator_failure" where
  "invalid_switch_plan r message = \<lparr>cf_completed = [], cf_error = snapd_execution (interface_request r) None message\<rparr>"

fun validate_switch_operations :: "command_request list \<Rightarrow> configurator_failure + switch_step list" where
  "validate_switch_operations [] = Inr []"
| "validate_switch_operations (r # rs) =
     (case validate_operation r of
        Inl message \<Rightarrow> Inl (invalid_switch_plan r message)
      | Inr step \<Rightarrow> map_sum id (\<lambda>steps. step # steps) (validate_switch_operations rs))"

definition indices :: "('a \<Rightarrow> bool) \<Rightarrow> 'a list \<Rightarrow> nat list" where
  "indices P xs = filter (\<lambda>i. P (xs ! i)) [0 ..< length xs]"

text \<open>The order of the steps: one connect, one restart, the restart last, no disconnect between.\<close>

definition validate_step_order :: "command_request list \<Rightarrow> switch_step list \<Rightarrow> configurator_failure + switch_step list" where
  "validate_step_order ops steps =
     (let connects = indices is_connect steps; restarts = indices is_restart steps in
      if connects = [] then Inl (invalid_switch_plan (last ops) (lit ''switch plan is missing the final connect''))
      else if length connects \<noteq> 1
        then Inl (invalid_switch_plan (request_for_step (steps ! (connects ! 1))) (lit ''switch plan must contain exactly one connect''))
      else if restarts = [] then Inl (invalid_switch_plan (last ops) (lit ''switch plan is missing the final restart''))
      else if length restarts \<noteq> 1
        then Inl (invalid_switch_plan (request_for_step (steps ! (restarts ! 1))) (lit ''duplicate restart in switch plan''))
      else let c = connects ! 0; r = restarts ! 0 in
        if r \<le> c then Inl (invalid_switch_plan (request_for_step (steps ! r)) (lit ''restart must follow the final connect''))
        else if r \<noteq> length steps - 1
          then Inl (invalid_switch_plan (request_for_step (steps ! r)) (lit ''restart must be the final switch operation''))
        else case find is_disconnect (take (r - c - 1) (drop (c + 1) steps)) of
            Some step \<Rightarrow> Inl (invalid_switch_plan (request_for_step step) (lit ''disconnect cannot follow connect''))
          | None \<Rightarrow> Inr steps)"

definition validate_switch_plan :: "switch_plan \<Rightarrow> configurator_failure + switch_step list" where
  "validate_switch_plan p =
     (if sp_operations p = [] then Inr []
      else case validate_switch_operations (sp_operations p) of
        Inl f \<Rightarrow> Inl f
      | Inr steps \<Rightarrow> validate_step_order (sp_operations p) steps)"

text \<open>
  snapd and systemctl, as the adapter calls them: each answers and leaves the world in some
  state. \<open>sd_apply\<close> carries the error as \<open>snapd_error_to_system_error\<close> words it, given the
  request's name.
\<close>

record 'w snapd =
  sd_apply :: "ustr \<Rightarrow> interface_action \<Rightarrow> 'w \<Rightarrow> (system_configurator_error + unit) \<times> 'w"
  sd_restart :: "'w \<Rightarrow> (system_configurator_error + unit) \<times> 'w"

definition succeeded :: "command_request \<Rightarrow> command_result" where
  "succeeded r = \<lparr>cmd_executable = cr_executable r, cmd_arguments = cr_arguments r, cmd_exit_status = Some 0,
     cmd_stdout = [], cmd_stderr = []\<rparr>"

fun run_step :: "'w snapd \<Rightarrow> switch_step \<Rightarrow> 'w \<Rightarrow> (system_configurator_error + unit) \<times> 'w" where
  "run_step sd (SS_Interface r a) w = sd_apply sd (interface_request r) a w"
| "run_step sd (SS_Restart r) w = sd_restart sd w"

fun run_steps :: "'w snapd \<Rightarrow> ('w \<Rightarrow> bool) \<Rightarrow> command_result list \<Rightarrow> switch_step list \<Rightarrow> 'w
    \<Rightarrow> (configurator_failure + command_result list) \<times> 'w" where
  "run_steps sd cancelled completed [] w = (Inr completed, w)"
| "run_steps sd cancelled completed (s # ss) w =
     (if cancelled w then (Inl \<lparr>cf_completed = completed, cf_error = SC_Cancelled\<rparr>, w)
      else case run_step sd s w of
        (Inl e, w') \<Rightarrow> (Inl \<lparr>cf_completed = completed, cf_error = e\<rparr>, w')
      | (Inr _, w') \<Rightarrow> run_steps sd cancelled (completed @ [succeeded (request_for_step s)]) ss w')"

definition execute_backend_switch :: "'w snapd \<Rightarrow> ('w \<Rightarrow> bool) \<Rightarrow> switch_plan \<Rightarrow> 'w \<Rightarrow> (configurator_failure + command_result list) \<times> 'w" where
  "execute_backend_switch sd cancelled p w =
     (case validate_switch_plan p of
        Inl f \<Rightarrow> (Inl f, w)
      | Inr steps \<Rightarrow> run_steps sd cancelled [] steps w)"

section \<open>What a listing says\<close>

definition slot_identity :: "content_slot \<Rightarrow> backend_identity" where
  "slot_identity s = backend_identity_new (sl_snap s) (sl_slot s)"

lemma identity_key_inject: "identity_key a = identity_key b \<longleftrightarrow> a = b"
  by (cases a; cases b) (simp add: identity_key_def)

lemma set_set_insert: "set (set_insert b bs) = insert b (set bs)"
  by (auto simp: set_insert_def insort_insert_key_def set_insort_key identity_key_inject)

abbreviation strictly_sorted :: "backend_identity list \<Rightarrow> bool" where
  "strictly_sorted bs \<equiv> sorted (map identity_key bs) \<and> distinct (map identity_key bs)"

lemma set_insert_sorted: "strictly_sorted bs \<Longrightarrow> strictly_sorted (set_insert b bs)"
  by (auto simp: set_insert_def sorted_insort_insert_key insort_insert_key_def distinct_insort_key sorted_insort_key)

text \<open>What the loop over the slots has gathered.\<close>

definition gathered :: "content_slot set \<Rightarrow> backend_identity list \<times> backend_identity list \<times> backend_identity list \<Rightarrow> bool" where
  "gathered S acc \<longleftrightarrow> (case acc of (d, c, t) \<Rightarrow>
     set d = slot_identity ` {s \<in> S. is_model s} \<and> set c = slot_identity ` {s \<in> S. is_model s \<and> feeds_myna s}
     \<and> set t = slot_identity ` {s \<in> S. \<not> is_model s \<and> feeds_myna s}
     \<and> strictly_sorted d \<and> strictly_sorted c \<and> strictly_sorted t)"

lemma classify_slots_gathers:
  "gathered S acc \<Longrightarrow> gathered (S \<union> set slots) (classify_slots slots acc)"
proof (induction slots acc arbitrary: S rule: classify_slots.induct)
  case (1 acc)
  then show ?case by simp
next
  case (2 s ss d c t)
  let ?b = "backend_identity_new (sl_snap s) (sl_slot s)"
  let ?acc = "if is_model s \<and> feeds_myna s then (set_insert ?b d, set_insert ?b c, t)
         else if is_model s then (set_insert ?b d, c, t)
         else if feeds_myna s then (d, c, set_insert ?b t) else (d, c, t)"
  have b: "?b = slot_identity s" by (simp add: slot_identity_def)
  have "gathered (insert s S) ?acc"
    using "2.prems" unfolding gathered_def b by (auto simp: set_set_insert set_insert_sorted)
  from "2.IH" [OF refl this] show ?case by (simp add: Let_def)
qed

lemma connected_active_state: "connected_of (active_state_of bs) = bs"
  by (auto simp: active_state_of_def split: list.split)

text \<open>
  The connections read from snapd are what the slots say: the backends are exactly the
  slots of models, those connected exactly the models' slots that feed Myna's plug, the strays
  exactly the other slots that feed it; each list is sorted without repeats, a connected
  backend is one of the backends and never a stray by the same slot.
\<close>

theorem connection_snapshot_faithful:
  "let s = connection_snapshot_of slots in
     set (cs_backends s) = slot_identity ` {x \<in> set slots. is_model x}
   \<and> set (connected_backends s) = slot_identity ` {x \<in> set slots. is_model x \<and> feeds_myna x}
   \<and> set (cs_strays s) = slot_identity ` {x \<in> set slots. \<not> is_model x \<and> feeds_myna x}
   \<and> strictly_sorted (cs_backends s) \<and> strictly_sorted (connected_backends s) \<and> strictly_sorted (cs_strays s)
   \<and> set (connected_backends s) \<subseteq> set (cs_backends s)"
proof -
  obtain d c t where e: "classify_slots slots ([], [], []) = (d, c, t)" by (cases "classify_slots slots ([], [], [])") auto
  have "gathered {} ([], [], [])" by (simp add: gathered_def)
  from classify_slots_gathers [OF this, of slots] e have "gathered (set slots) (d, c, t)" by simp
  then show ?thesis
    by (auto simp: Let_def connection_snapshot_of_def e gathered_def connected_backends_def connected_active_state)
qed

section \<open>A plan the adapter accepts\<close>

lemma indices_snoc: "indices P (xs @ [x]) = indices P xs @ (if P x then [length xs] else [])"
proof -
  have "filter (\<lambda>i. P ((xs @ [x]) ! i)) [0..<length xs] = filter (\<lambda>i. P (xs ! i)) [0..<length xs]"
    by (rule filter_cong) (auto simp: nth_append)
  then show ?thesis by (simp add: indices_def)
qed

lemma indices_none: "\<forall>x \<in> set xs. \<not> P x \<Longrightarrow> indices P xs = []"
  by (auto simp: indices_def filter_empty_conv)

definition named_right :: "backend_identity \<Rightarrow> bool" where
  "named_right b \<longleftrightarrow> is_valid_snap_name (bi_snap_name b) \<and> is_valid_slot_name (bi_slot_name b)"

definition interface_step :: "bool \<Rightarrow> backend_identity \<Rightarrow> switch_step" where
  "interface_step connect b =
     SS_Interface (privileged_snap_request (if connect then lit ''connect'' else lit ''disconnect'') (slot b))
       ((if connect then Connect else Disconnect) (bi_snap_name b) (bi_slot_name b))"

lemma snap_name_no_colon: "is_valid_snap_name s \<Longrightarrow> 58 \<notin> set s"
  by (auto simp: is_valid_snap_name_iff list_all_iff is_name_char_def is_ascii_lowercase_def is_ascii_digit_def)

lemma validate_interface:
  assumes "named_right b"
  shows "validate_operation (privileged_snap_request (if connect then lit ''connect'' else lit ''disconnect'') (slot b))
    = Inr (interface_step connect b)"
proof -
  have "split_once 58 (slot b) = Some (bi_snap_name b, bi_slot_name b)"
    using assms snap_name_no_colon by (simp add: split_once_Some slot_def named_right_def lit_def)
  with assms show ?thesis
    by (simp add: validate_operation_def privileged_snap_request_def interface_step_def named_right_def)
qed

lemma validate_restart: "validate_operation myna_restart_request = Inr (SS_Restart myna_restart_request)"
  by (simp add: validate_operation_def myna_restart_request_def)

lemma validate_switch_operations_append:
  "validate_switch_operations rs = Inr xs \<Longrightarrow> validate_switch_operations qs = Inr ys \<Longrightarrow>
     validate_switch_operations (rs @ qs) = Inr (xs @ ys)"
proof (induction rs arbitrary: xs)
  case Nil
  then show ?case by simp
next
  case (Cons r rs)
  then obtain x xs' where "validate_operation r = Inr x" "validate_switch_operations rs = Inr xs'" "xs = x # xs'"
    by (cases "validate_switch_operations rs") (auto split: sum.splits)
  with Cons show ?case by simp
qed

lemma validate_switch_operations_map:
  "\<forall>b \<in> set bs. named_right b \<Longrightarrow>
     validate_switch_operations (map (\<lambda>b. privileged_snap_request (lit ''disconnect'') (slot b)) bs) = Inr (map (interface_step False) bs)"
  using validate_interface [where connect = False] by (induction bs) auto

lemma step_kinds [simp]:
  "is_connect (interface_step c b) = c" "is_disconnect (interface_step c b) = (\<not> c)" "\<not> is_restart (interface_step c b)"
  by (simp_all add: interface_step_def)

lemma switch_order_ok:
  assumes "steps = map (interface_step False) bs @ [interface_step True b, SS_Restart r]"
  shows "validate_step_order ops steps = Inr steps"
proof -
  let ?ds = "map (interface_step False) bs"
  have c: "indices is_connect steps = [length bs]" and r: "indices is_restart steps = [Suc (length bs)]"
    using indices_snoc [of is_connect "?ds @ [interface_step True b]" "SS_Restart r"] indices_snoc [of is_connect ?ds "interface_step True b"]
      indices_snoc [of is_restart "?ds @ [interface_step True b]" "SS_Restart r"] indices_snoc [of is_restart ?ds "interface_step True b"]
    by (simp_all add: assms indices_none)
  show ?thesis by (simp add: validate_step_order_def c r Let_def) (simp add: assms)
qed

definition switch_steps :: "connection_snapshot \<Rightarrow> backend_identity \<Rightarrow> switch_step list" where
  "switch_steps s b =
     (if connected_backends s = [b] then []
      else map (interface_step False) (connected_backends s @ cs_strays s) @ [interface_step True b, SS_Restart myna_restart_request])"

lemma switch_plan_steps:
  assumes "switch_plan_new s b = Inr p" and "\<forall>x \<in> set (b # connected_backends s @ cs_strays s). named_right x"
  shows "validate_switch_plan p = Inr (switch_steps s b)"
proof -
  define bs where "bs = connected_backends s @ cs_strays s"
  let ?ops = "map (\<lambda>b. privileged_snap_request (lit ''disconnect'') (slot b)) bs
         @ [privileged_snap_request (lit ''connect'') (slot b), myna_restart_request]"
  let ?steps = "map (interface_step False) bs @ [interface_step True b, SS_Restart myna_restart_request]"
  have ops: "sp_operations p = (if connected_backends s = [b] then [] else ?ops)"
    using assms(1) by (auto simp: switch_plan_new_def Let_def bs_def split: if_splits)
  have ok: "\<forall>x \<in> set bs. named_right x" "named_right b" using assms(2) by (auto simp: bs_def)
  have two: "validate_switch_operations [privileged_snap_request (lit ''connect'') (slot b), myna_restart_request]
      = Inr [interface_step True b, SS_Restart myna_restart_request]"
    using validate_interface [of b True] validate_restart ok(2) by simp
  have "validate_switch_operations ?ops = Inr ?steps"
    by (intro validate_switch_operations_append validate_switch_operations_map two ok)
  then show ?thesis
    using switch_order_ok [OF refl, of ?ops bs b myna_restart_request]
    by (simp add: ops validate_switch_plan_def switch_steps_def flip: bs_def)
qed

text \<open>
  The adapter never refuses the application's own plan: for a snapshot whose backends have
  well-formed snap and slot names, a switch the plan can be made for is accepted and becomes
  the disconnection of every connected backend and stray, the connection of the selected one
  and the restart of Myna, in this order, or nothing when the selected one is connected alone.
\<close>

theorem switch_plan_accepted:
  assumes "b \<in> set (cs_backends s)" and "list_all named_right (b # connected_backends s @ cs_strays s)"
  shows "\<exists>p. switch_plan_new s b = Inr p \<and> validate_switch_plan p = Inr (switch_steps s b)"
proof -
  from assms(1) obtain p where p: "switch_plan_new s b = Inr p" by (auto simp: switch_plan_new_def Let_def)
  with switch_plan_steps [OF p] assms(2) show ?thesis by (auto simp: list_all_iff)
qed

definition whisper_backend :: backend_identity where
  "whisper_backend = backend_identity_new (lit ''myna-whisper'') (lit ''provider'')"

definition parakeet_backend :: backend_identity where
  "parakeet_backend = backend_identity_new (lit ''myna-parakeet'') (lit ''provider'')"

definition two_models :: connection_snapshot where
  "two_models = \<lparr>cs_backends = [parakeet_backend, whisper_backend], cs_active_state = AB_Connected parakeet_backend, cs_strays = []\<rparr>"

lemma example_names: "named_right whisper_backend" "named_right parakeet_backend" "whisper_backend \<noteq> parakeet_backend"
  by (simp_all add: named_right_def whisper_backend_def parakeet_backend_def backend_identity_new_def is_valid_snap_name_def
      is_valid_slot_name_def)
    (simp_all add: lit_def is_name_char_def ascii_defs)

theorem switch_plan_accepted_witness:
  "\<exists>p. switch_plan_new two_models whisper_backend = Inr p \<and> validate_switch_plan p
     = Inr [interface_step False parakeet_backend, interface_step True whisper_backend, SS_Restart myna_restart_request]"
proof -
  have s: "cs_backends two_models = [parakeet_backend, whisper_backend]" "connected_backends two_models = [parakeet_backend]"
    "cs_strays two_models = []" by (simp_all add: two_models_def connected_backends_def)
  have "switch_steps two_models whisper_backend
      = [interface_step False parakeet_backend, interface_step True whisper_backend, SS_Restart myna_restart_request]"
    using example_names by (simp add: switch_steps_def s)
  with switch_plan_accepted [of whisper_backend two_models] example_names s show ?thesis by simp
qed

section \<open>What a switch does to the connections\<close>

text \<open>
  The slots connected to Myna's plug are a set, which a change of snapd's adds to or takes from.
  A change the client has stopped following, because it was cancelled, timed out, or the answer
  could not be read, goes on: it is \<^emph>\<open>in progress\<close>, and ends at some later moment either with
  its effect, once, or without one, since snapd undoes a change that fails.
\<close>

fun act_effect :: "interface_action \<Rightarrow> (ustr \<times> ustr) set \<Rightarrow> (ustr \<times> ustr) set" where
  "act_effect (Connect s t) C = insert (s, t) C"
| "act_effect (Disconnect s t) C = C - {(s, t)}"

inductive lands :: "interface_action set \<Rightarrow> (ustr \<times> ustr) set \<Rightarrow> interface_action set \<Rightarrow> (ustr \<times> ustr) set \<Rightarrow> bool" where
  lands_refl [simp, intro]: "lands F C F C"
| lands_done: "lands F C F' C' \<Longrightarrow> a \<in> F' \<Longrightarrow> lands F C (F' - {a}) (act_effect a C')"
| lands_undone: "lands F C F' C' \<Longrightarrow> a \<in> F' \<Longrightarrow> lands F C (F' - {a}) C'"

text \<open>The states the connections can be in at any later moment, when nobody starts another change.\<close>

definition landed :: "interface_action set \<Rightarrow> (ustr \<times> ustr) set \<Rightarrow> (ustr \<times> ustr) set set" where
  "landed F C = {C'. \<exists>F'. lands F C F' C'}"

lemma lands_trans:
  assumes "lands F C F' C'" and "lands F' C' F'' C''"
  shows "lands F C F'' C''"
  using assms(2,1) by (induction rule: lands.induct) (auto intro: lands_done lands_undone)

lemma lands_subset: "lands F C F' C' \<Longrightarrow> F' \<subseteq> F"
  by (induction rule: lands.induct) auto

lemma lands_mono:
  assumes "lands F C F' C'"
  shows "landed F' C' \<subseteq> landed F C"
  using lands_trans [OF assms] by (auto simp: landed_def)

lemma landed_now [simp]: "C \<in> landed F C"
  by (auto simp: landed_def)

lemma lands_empty [simp]: "lands {} C F' C' \<longleftrightarrow> F' = {} \<and> C' = C"
proof
  show "lands {} C F' C' \<Longrightarrow> F' = {} \<and> C' = C"
    by (induction "{} :: interface_action set" C F' C' rule: lands.induct) auto
qed simp

lemma lands_single: "lands {a} C F' C' \<longleftrightarrow> F' = {a} \<and> C' = C \<or> F' = {} \<and> (C' = C \<or> C' = act_effect a C)"
proof
  show "lands {a} C F' C' \<Longrightarrow> F' = {a} \<and> C' = C \<or> F' = {} \<and> (C' = C \<or> C' = act_effect a C)"
    by (induction "{a}" C F' C' rule: lands.induct) auto
  show "F' = {a} \<and> C' = C \<or> F' = {} \<and> (C' = C \<or> C' = act_effect a C) \<Longrightarrow> lands {a} C F' C'"
    using lands_done [OF lands_refl, of a "{a}" C] lands_undone [OF lands_refl, of a "{a}" C] by auto
qed

lemma landed_none [simp]: "landed {} C = {C}"
  by (simp add: landed_def)

lemma landed_one: "landed {a} C = {C, act_effect a C}"
  by (auto simp: landed_def lands_single)

lemma lands_keeps:
  assumes "lands F C F' C'" and "c \<in> C" and "\<forall>a \<in> F. a \<noteq> Disconnect (fst c) (snd c)"
  shows "c \<in> C'"
  using assms
proof (induction rule: lands.induct)
  case (lands_done F C F' C' a)
  then have "a \<noteq> Disconnect (fst c) (snd c)" using lands_subset [OF lands_done.hyps(1)] by blast
  with lands_done show ?case by (cases a) auto
qed auto

text \<open>
  What the client's calls do, with \<open>conn\<close> the connected slots and \<open>flight\<close> the changes in progress:
  a connect or disconnect that succeeds has its effect; after one that fails, for whatever
  reason, its change may have had its effect, may be undone, or may still be in progress;
  restarting Myna's service starts no change. During every call, changes already in progress may
  end. Nobody else changes the connections meanwhile.
\<close>

definition snapd_faithful :: "'w snapd \<Rightarrow> ('w \<Rightarrow> (ustr \<times> ustr) set) \<Rightarrow> ('w \<Rightarrow> interface_action set) \<Rightarrow> bool" where
  "snapd_faithful sd conn flight \<longleftrightarrow>
     (\<forall>n a w w'. sd_apply sd n a w = (Inr (), w') \<longrightarrow>
        (\<exists>F C. lands (flight w) (conn w) F C \<and> lands F (act_effect a C) (flight w') (conn w')))
   \<and> (\<forall>n a w e w'. sd_apply sd n a w = (Inl e, w') \<longrightarrow> lands (insert a (flight w)) (conn w) (flight w') (conn w'))
   \<and> (\<forall>w r w'. sd_restart sd w = (r, w') \<longrightarrow> lands (flight w) (conn w) (flight w') (conn w'))"

definition slot_of :: "backend_identity \<Rightarrow> ustr \<times> ustr" where
  "slot_of b = (bi_snap_name b, bi_slot_name b)"

fun step_effect :: "switch_step \<Rightarrow> (ustr \<times> ustr) set \<Rightarrow> (ustr \<times> ustr) set" where
  "step_effect (SS_Interface r a) C = act_effect a C"
| "step_effect (SS_Restart r) C = C"

fun step_changes :: "switch_step \<Rightarrow> interface_action set" where
  "step_changes (SS_Interface r a) = {a}"
| "step_changes (SS_Restart r) = {}"

text \<open>Of the steps of a run that failed: how many were done, and what the failed one left in progress.\<close>

definition stopped_at :: "nat \<Rightarrow> switch_step list \<Rightarrow> (ustr \<times> ustr) set \<Rightarrow> interface_action set \<Rightarrow> (ustr \<times> ustr) set \<Rightarrow> bool" where
  "stopped_at k ss C F' C' \<longleftrightarrow> k < length ss \<and> lands (step_changes (ss ! k)) (fold step_effect (take k ss) C) F' C'"

lemma run_step_effect:
  assumes "snapd_faithful sd conn flight" and "flight w = {}" and "run_step sd s w = (x, w')"
  shows "case x of Inl _ \<Rightarrow> lands (step_changes s) (conn w) (flight w') (conn w')
    | Inr _ \<Rightarrow> conn w' = step_effect s (conn w) \<and> flight w' = {}"
proof (cases s)
  case (SS_Interface r a)
  with assms show ?thesis by (cases x) (fastforce simp: snapd_faithful_def)+
next
  case (SS_Restart r)
  with assms have "lands {} (conn w) (flight w') (conn w')" by (fastforce simp: snapd_faithful_def)
  with SS_Restart show ?thesis by (auto split: sum.split)
qed

lemma lands_nothing_left: "\<exists>F'. lands (step_changes s) C F' C \<and> F' = {}"
  by (cases s) (auto simp: lands_single)

lemma run_steps_effect:
  assumes faithful: "snapd_faithful sd conn flight" and "flight w = {}" and "run_steps sd cancelled completed ss w = (x, w')"
  shows "case x of Inr _ \<Rightarrow> conn w' = fold step_effect ss (conn w) \<and> flight w' = {}
    | Inl f \<Rightarrow> \<exists>k. stopped_at k ss (conn w) (flight w') (conn w') \<and> length (cf_completed f) = length completed + k"
  using assms(2,3)
proof (induction ss arbitrary: completed w)
  case Nil
  then show ?case by auto
next
  case (Cons s ss)
  obtain y v where st: "run_step sd s w = (y, v)" by (cases "run_step sd s w")
  note eff = run_step_effect [OF faithful Cons.prems(1) st]
  consider (now) "cancelled w" | (failed) e where "\<not> cancelled w" "y = Inl e" | (went_on) u where "\<not> cancelled w" "y = Inr u"
    by (cases y) auto
  then show ?case
  proof cases
    case now
    with Cons.prems have "x = Inl \<lparr>cf_completed = completed, cf_error = SC_Cancelled\<rparr>" "w' = w" by auto
    moreover have "stopped_at 0 (s # ss) (conn w) (flight w) (conn w)"
      using lands_nothing_left [of s "conn w"] Cons.prems(1) by (auto simp: stopped_at_def)
    ultimately show ?thesis by (auto intro: exI [of _ 0])
  next
    case failed
    with Cons.prems st eff have "stopped_at 0 (s # ss) (conn w) (flight w') (conn w')" "\<exists>f. x = Inl f \<and> cf_completed f = completed"
      by (auto simp: stopped_at_def)
    then show ?thesis by (auto intro: exI [of _ 0])
  next
    case went_on
    with Cons.prems st have r: "run_steps sd cancelled (completed @ [succeeded (request_for_step s)]) ss v = (x, w')" by simp
    have v: "conn v = step_effect s (conn w)" "flight v = {}" using eff went_on by auto
    show ?thesis
    proof (cases x)
      case (Inr u)
      with Cons.IH [OF v(2) r] v show ?thesis by simp
    next
      case (Inl f)
      with Cons.IH [OF v(2) r] v obtain k where "stopped_at k ss (step_effect s (conn w)) (flight w') (conn w')"
        "length (cf_completed f) = Suc (length completed) + k" by auto
      then have "stopped_at (Suc k) (s # ss) (conn w) (flight w') (conn w')" "length (cf_completed f) = length completed + Suc k"
        by (simp_all add: stopped_at_def)
      with Inl show ?thesis by auto
    qed
  qed
qed

lemma fold_disconnects: "fold step_effect (map (interface_step False) bs) C = C - slot_of ` set bs"
  by (induction bs arbitrary: C) (auto simp: interface_step_def slot_of_def)

lemma fold_prefix_disconnects:
  assumes "k \<le> length bs"
  shows "fold step_effect (take k (map (interface_step False) bs @ ss)) C = C - slot_of ` set (take k bs)"
  using assms by (simp add: take_map fold_disconnects)

lemma interface_step_effects:
  "step_effect (interface_step True b) C = insert (slot_of b) C" "step_effect (interface_step False b) C = C - {slot_of b}"
  "step_changes (interface_step True b) = {Connect (fst (slot_of b)) (snd (slot_of b))}"
  "step_changes (interface_step False b) = {Disconnect (fst (slot_of b)) (snd (slot_of b))}"
  by (simp_all add: interface_step_def slot_of_def)

text \<open>
  Where a switch stops: while disconnecting, with the disconnection of a backend begun; while
  connecting, with nothing connected; or after.
\<close>

lemma switch_stops:
  assumes "stopped_at k (map (interface_step False) bs @ [interface_step True b, SS_Restart r]) (slot_of ` set bs) F' C'"
  shows "k < length bs \<and> lands {Disconnect (fst (slot_of (bs ! k))) (snd (slot_of (bs ! k)))} (slot_of ` set bs - slot_of ` set (take k bs)) F' C'
    \<or> k = length bs \<and> lands {Connect (fst (slot_of b)) (snd (slot_of b))} {} F' C'
    \<or> k = Suc (length bs) \<and> F' = {} \<and> C' = {slot_of b}"
proof -
  let ?ss = "map (interface_step False) bs @ [interface_step True b, SS_Restart r]"
  have k: "k < length ?ss" and l: "lands (step_changes (?ss ! k)) (fold step_effect (take k ?ss) (slot_of ` set bs)) F' C'"
    using assms by (auto simp: stopped_at_def)
  consider "k < length bs" | "k = length bs" | "k = Suc (length bs)" using k by fastforce
  then show ?thesis
  proof cases
    case 1
    with l fold_prefix_disconnects [of k bs] show ?thesis by (simp add: nth_append interface_step_effects)
  next
    case 2
    with l fold_prefix_disconnects [of k bs] show ?thesis by (simp add: nth_append interface_step_effects)
  next
    case 3
    then have "take k ?ss = map (interface_step False) bs @ [interface_step True b]" by simp
    with l 3 show ?thesis by (simp add: nth_append fold_disconnects interface_step_effects)
  qed
qed

lemma take_Suc_slots: "k < length bs \<Longrightarrow> C - slot_of ` set (take k bs) - {slot_of (bs ! k)} = C - slot_of ` set (take (Suc k) bs)"
  by (auto simp: take_Suc_conv_app_nth)

text \<open>A switch that leaves nothing to chance: what was done, and what was left in progress.\<close>

lemma execute_backend_switch_effect:
  assumes faithful: "snapd_faithful sd conn flight" and plan: "switch_plan_new s b = Inr p"
    and names: "\<forall>x \<in> set (b # connected_backends s @ cs_strays s). named_right x"
    and baseline: "conn w = slot_of ` set (connected_backends s @ cs_strays s)" and none: "flight w = {}"
    and other: "connected_backends s \<noteq> [b]"
    and run: "execute_backend_switch sd cancelled p w = (x, w')"
  shows "(case x of Inr _ \<Rightarrow> conn w' = {slot_of b} \<and> flight w' = {}
    | Inl f \<Rightarrow> stopped_at (length (cf_completed f))
        (map (interface_step False) (connected_backends s @ cs_strays s) @ [interface_step True b, SS_Restart myna_restart_request])
        (conn w) (flight w') (conn w'))"
proof -
  define bs where "bs = connected_backends s @ cs_strays s"
  let ?steps = "map (interface_step False) bs @ [interface_step True b, SS_Restart myna_restart_request]"
  from run switch_plan_steps [OF plan names] other
  have "run_steps sd cancelled [] ?steps w = (x, w')"
    by (simp add: execute_backend_switch_def switch_steps_def bs_def)
  note eff = run_steps_effect [OF faithful none this]
  have "fold step_effect ?steps (conn w) = {slot_of b}"
    using baseline by (auto simp: fold_disconnects interface_step_effects bs_def)
  with eff show ?thesis by (auto simp: bs_def split: sum.splits)
qed

text \<open>
  C24: a switch that succeeds leaves exactly the selected model connected to Myna, strays
  included in what it clears, and nothing in progress. One that fails or is cancelled, even while
  snapd is still carrying out a step, leaves now and at every later moment the selected model
  alone connected, or the old connections less a prefix of them: never another model, and
  never the old and the new one together.
\<close>

theorem switch_connects_selected:
  assumes "snapd_faithful sd conn flight" and "switch_plan_new s b = Inr p"
    and "list_all named_right (b # connected_backends s @ cs_strays s)"
    and "conn w = slot_of ` set (connected_backends s @ cs_strays s)" and "flight w = {}"
    and "connected_backends s \<noteq> [b]"
    and "execute_backend_switch sd cancelled p w = (x, w')"
  shows "(case x of Inr _ \<Rightarrow> conn w' = {slot_of b} \<and> flight w' = {}
          | Inl _ \<Rightarrow> landed (flight w') (conn w')
              \<subseteq> insert {slot_of b} {C. \<exists>k. C = conn w - slot_of ` set (take k (connected_backends s @ cs_strays s))})"
proof (cases x)
  case (Inr u)
  with execute_backend_switch_effect [OF assms(1,2) _ assms(4,5,6,7)] assms(3) show ?thesis by (simp add: list_all_iff)
next
  case (Inl f)
  define bs where "bs = connected_backends s @ cs_strays s"
  let ?ok = "insert {slot_of b} {C. \<exists>k. C = conn w - slot_of ` set (take k bs)}"
  from execute_backend_switch_effect [OF assms(1,2) _ assms(4,5,6,7)] assms(3) Inl obtain k
    where "stopped_at k (map (interface_step False) bs @ [interface_step True b, SS_Restart myna_restart_request])
      (slot_of ` set bs) (flight w') (conn w')"
    using assms(4) by (auto simp: list_all_iff bs_def)
  from switch_stops [OF this]
  have "landed (flight w') (conn w') \<subseteq> ?ok"
  proof (elim disjE conjE)
    assume k: "k < length bs"
      and l: "lands {Disconnect (fst (slot_of (bs ! k))) (snd (slot_of (bs ! k)))} (slot_of ` set bs - slot_of ` set (take k bs)) (flight w') (conn w')"
    have "landed (flight w') (conn w') \<subseteq> {conn w - slot_of ` set (take k bs), conn w - slot_of ` set (take (Suc k) bs)}"
      using lands_mono [OF l] take_Suc_slots [OF k, of "conn w"] assms(4) by (simp add: landed_one bs_def)
    then show ?thesis by blast
  next
    assume l: "lands {Connect (fst (slot_of b)) (snd (slot_of b))} {} (flight w') (conn w')"
    have "landed (flight w') (conn w') \<subseteq> {conn w - slot_of ` set (take (length bs) bs), {slot_of b}}"
      using lands_mono [OF l] assms(4) by (simp add: landed_one bs_def)
    then show ?thesis by blast
  next
    assume "flight w' = {}" "conn w' = {slot_of b}"
    then show ?thesis by simp
  qed
  with Inl show ?thesis by (simp add: bs_def)
qed

text \<open>
  A snapd that does as it is told but whose connects the client stops waiting for: the state is
  the set of connected slots and the changes in progress, and every connect is left in progress.
\<close>

definition slow_snapd :: "((ustr \<times> ustr) set \<times> interface_action set) snapd" where
  "slow_snapd = \<lparr>sd_apply = (\<lambda>n a (C, F). case a of
        Connect s t \<Rightarrow> (Inl SC_Cancelled, (C, insert a F))
      | Disconnect s t \<Rightarrow> (Inr (), (C - {(s, t)}, F))),
     sd_restart = (\<lambda>w. (Inr (), w))\<rparr>"

lemma slow_faithful: "snapd_faithful slow_snapd fst snd"
  by (auto simp: snapd_faithful_def slow_snapd_def split: interface_action.splits)

theorem switch_connects_selected_witness:
  "\<exists>p f w'. switch_plan_new two_models whisper_backend = Inr p
     \<and> execute_backend_switch slow_snapd (\<lambda>_. False) p ({slot_of parakeet_backend}, {}) = (Inl f, w')
     \<and> landed (snd w') (fst w') \<subseteq> insert {slot_of whisper_backend}
         {C. \<exists>k. C = {slot_of parakeet_backend} - slot_of ` set (take k [parakeet_backend])}"
proof -
  have s: "cs_backends two_models = [parakeet_backend, whisper_backend]" "connected_backends two_models = [parakeet_backend]"
    "cs_strays two_models = []" by (simp_all add: two_models_def connected_backends_def)
  obtain p where p: "switch_plan_new two_models whisper_backend = Inr p"
    by (simp add: switch_plan_new_def s Let_def)
  obtain x w' where x: "execute_backend_switch slow_snapd (\<lambda>_. False) p ({slot_of parakeet_backend}, {}) = (x, w')"
    by (cases "execute_backend_switch slow_snapd (\<lambda>_. False) p ({slot_of parakeet_backend}, {})")
  have "validate_switch_plan p = Inr (switch_steps two_models whisper_backend)"
    using switch_plan_steps [OF p] example_names s by simp
  with x obtain f where "x = Inl f"
    using example_names by (auto simp: execute_backend_switch_def switch_steps_def s interface_step_def slow_snapd_def)
  with switch_connects_selected [OF slow_faithful p, of "({slot_of parakeet_backend}, {})" "\<lambda>_. False" x w'] x p example_names s show ?thesis
    by (cases w') auto
qed

end
