(* ===== verification/Operation_Gate.thy ===== *)
theory Operation_Gate
  imports Myna_Prelude
begin

text \<open>
  The settings application's operation gate, \<open>client/myna-config/src/operation_gate.rs\<close>: one
  backend apply or switch at a time, each known by a token and stopped by a cancellation
  token it shares with whoever asked for it (\<open>CancellationToken\<close> of \<open>command.rs\<close>). Every
  method runs under the coordinator's mutex, so a run is a sequence of calls. The shared
  flags behind the cancellation tokens are a store, and a token is its index there; the
  wakers a cancellation wakes are not modelled.
\<close>

section \<open>Cancellation tokens\<close>

type_synonym cancellation_token = nat
type_synonym cancellation_store = "bool list"

definition cancellation_new :: "cancellation_store \<Rightarrow> cancellation_store \<times> cancellation_token" where
  "cancellation_new st = (st @ [False], length st)"

definition cancellation_cancel :: "cancellation_token \<Rightarrow> cancellation_store \<Rightarrow> cancellation_store" where
  "cancellation_cancel c st = st[c := True]"

definition is_cancelled :: "cancellation_token \<Rightarrow> cancellation_store \<Rightarrow> bool" where
  "is_cancelled c st \<longleftrightarrow> c < length st \<and> st ! c"

definition cancellation_refuse :: "cancellation_token \<Rightarrow> cancellation_store \<Rightarrow> cancellation_store" where
  "cancellation_refuse c st = st[c := False]"

section \<open>The coordinator\<close>

datatype operation_kind = BackendApply | BackendSwitch

datatype begin_operation_error = Busy

record operation_request =
  req_token :: u64
  req_cancellation :: cancellation_token

record active_operation =
  act_token :: u64
  act_kind :: operation_kind
  act_cancellation :: cancellation_token

record coordinator =
  co_next_token :: u64
  co_active :: "active_operation option"
  co_flags :: cancellation_store

definition coordinator_new :: coordinator where
  "coordinator_new = \<lparr>co_next_token = 0, co_active = None, co_flags = []\<rparr>"

definition bump_token :: "u64 \<Rightarrow> u64" where
  "bump_token t = (if t + 1 = 0 then 1 else t + 1)"

definition begin_operation :: "operation_kind \<Rightarrow> coordinator \<Rightarrow> coordinator \<times> (begin_operation_error + operation_request)" where
  "begin_operation k s =
     (if co_active s \<noteq> None then (s, Inl Busy)
      else let t = bump_token (co_next_token s); (flags, c) = cancellation_new (co_flags s) in
        (s\<lparr>co_next_token := t, co_active := Some \<lparr>act_token = t, act_kind = k, act_cancellation = c\<rparr>, co_flags := flags\<rparr>,
         Inr \<lparr>req_token = t, req_cancellation = c\<rparr>))"

definition active_kind :: "coordinator \<Rightarrow> operation_kind option" where
  "active_kind s = map_option act_kind (co_active s)"

definition complete :: "u64 \<Rightarrow> coordinator \<Rightarrow> coordinator \<times> bool" where
  "complete t s =
     (case co_active s of
        Some a \<Rightarrow> if act_token a = t then (s\<lparr>co_active := None\<rparr>, True) else (s, False)
      | None \<Rightarrow> (s, False))"

definition cancel_operation :: "u64 \<Rightarrow> coordinator \<Rightarrow> coordinator \<times> bool" where
  "cancel_operation t s =
     (case co_active s of
        None \<Rightarrow> (s, False)
      | Some a \<Rightarrow> if act_token a \<noteq> t then (s, False)
          else (s\<lparr>co_flags := cancellation_cancel (act_cancellation a) (co_flags s)\<rparr>, True))"

definition abandon :: "u64 \<Rightarrow> coordinator \<Rightarrow> coordinator \<times> bool" where
  "abandon t s =
     (case co_active s of
        Some a \<Rightarrow> if act_token a = t
          then (s\<lparr>co_active := None, co_flags := cancellation_cancel (act_cancellation a) (co_flags s)\<rparr>, True) else (s, False)
      | None \<Rightarrow> (s, False))"

text \<open>A sequence of calls, and what each answered.\<close>

datatype gate_call = GC_Begin operation_kind | GC_Complete u64 | GC_Cancel u64 | GC_Abandon u64

datatype gate_answer =
    GA_Begun operation_kind operation_request
  | GA_Busy
  | GA_Completed u64 bool
  | GA_Cancelled u64 bool
  | GA_Abandoned u64 bool

fun gate_step :: "coordinator \<Rightarrow> gate_call \<Rightarrow> coordinator \<times> gate_answer list" where
  "gate_step s (GC_Begin k) =
     (case begin_operation k s of (s', Inr r) \<Rightarrow> (s', [GA_Begun k r]) | (s', Inl Busy) \<Rightarrow> (s', [GA_Busy]))"
| "gate_step s (GC_Complete t) = (let (s', b) = complete t s in (s', [GA_Completed t b]))"
| "gate_step s (GC_Cancel t) = (let (s', b) = cancel_operation t s in (s', [GA_Cancelled t b]))"
| "gate_step s (GC_Abandon t) = (let (s', b) = abandon t s in (s', [GA_Abandoned t b]))"

fun is_begun :: "gate_answer \<Rightarrow> bool" where
  "is_begun (GA_Begun k r) = True"
| "is_begun _ = False"

fun is_release :: "gate_answer \<Rightarrow> bool" where
  "is_release (GA_Completed t b) = b"
| "is_release (GA_Abandoned t b) = b"
| "is_release _ = False"

lemmas gate_defs = begin_operation_def complete_def cancel_operation_def abandon_def
  cancellation_new_def cancellation_cancel_def Let_def

section \<open>Tokens\<close>

text \<open>
  \<open>token_no n\<close> is the \<open>n\<close>-th token the gate hands out: 1, 2 and so on up to the largest
  \<open>u64\<close>, then 1 again, and never 0.
\<close>

definition token_no :: "nat \<Rightarrow> nat" where
  "token_no n = (if n = 0 then 0 else Suc ((n - 1) mod (2 ^ 64 - 1)))"

lemma unat_bump_token: "unat (bump_token t) = (if unat t = 2 ^ 64 - 1 then 1 else Suc (unat t))"
proof (cases "t + 1 = 0")
  case True
  then have "t = - 1" by (simp add: eq_neg_iff_add_eq_0)
  then have "unat t = 2 ^ 64 - 1" by (simp add: unsigned_minus_1_eq_mask mask_eq_exp_minus_1)
  with True show ?thesis by (simp add: bump_token_def)
next
  case False
  then have "unat (t + 1) = Suc (unat t)" by (simp add: unatSuc add.commute)
  moreover have "unat (t + 1) < 2 ^ 64" using unsigned_less [of "t + 1"] by simp
  ultimately show ?thesis using False by (simp add: bump_token_def)
qed

lemma token_no_Suc: "token_no (Suc n) = (if token_no n = 2 ^ 64 - 1 then 1 else Suc (token_no n))"
  by (cases n) (auto simp: token_no_def mod_Suc)

lemma token_no_inj:
  assumes "token_no i = token_no j" and "0 < i" and "i < j"
  shows "2 ^ 64 - 1 \<le> j - i"
proof -
  from assms have "(i - 1) mod (2 ^ 64 - 1) = (j - 1) mod (2 ^ 64 - 1)" by (simp add: token_no_def)
  then have "(2 ^ 64 - 1) dvd (j - 1) - (i - 1)" using assms(3) by (intro mod_eq_dvd_iff_nat [THEN iffD1]) auto
  moreover have "(j - 1) - (i - 1) = j - i" and "0 < j - i" using assms(2,3) by auto
  ultimately show ?thesis by (metis dvd_imp_le)
qed

section \<open>Runs of the gate\<close>

text \<open>
  What holds after a run in which \<open>n\<close> operations were begun: the last token is the
  \<open>n\<close>-th, one flag was made for each, and an active operation is the last one begun.
\<close>

definition gate_ok :: "nat \<Rightarrow> coordinator \<Rightarrow> bool" where
  "gate_ok n s \<longleftrightarrow> unat (co_next_token s) = token_no n \<and> length (co_flags s) = n
     \<and> (case co_active s of None \<Rightarrow> True
        | Some a \<Rightarrow> act_token a = co_next_token s \<and> n = Suc (act_cancellation a))"

lemma gate_step_ok:
  assumes "gate_ok n s"
  shows "gate_ok (n + length (filter is_begun (snd (gate_step s c)))) (fst (gate_step s c))"
  using assms
  by (cases c) (auto simp: gate_ok_def gate_defs unat_bump_token token_no_Suc split: option.splits sum.splits begin_operation_error.splits)

lemma gate_run_ok:
  "gate_ok n s \<Longrightarrow> gate_ok (n + length (filter is_begun (snd (run_machine gate_step s cs)))) (fst (run_machine gate_step s cs))"
proof (induction cs arbitrary: n s)
  case Nil
  then show ?case by simp
next
  case (Cons c cs)
  from Cons.IH [OF gate_step_ok [OF Cons.prems, of c]] show ?case by (simp add: add.assoc)
qed

lemma coordinator_new_ok: "gate_ok 0 coordinator_new"
  by (simp add: gate_ok_def coordinator_new_def token_no_def)

lemma gate_step_balance:
  "length (filter is_begun (snd (gate_step s c))) + of_bool (co_active s \<noteq> None)
     = length (filter is_release (snd (gate_step s c))) + of_bool (co_active (fst (gate_step s c)) \<noteq> None)"
  by (cases c) (auto simp: gate_defs split: option.splits sum.splits begin_operation_error.splits)

lemma gate_run_balance:
  "length (filter is_begun (snd (run_machine gate_step s cs))) + of_bool (co_active s \<noteq> None)
     = length (filter is_release (snd (run_machine gate_step s cs))) + of_bool (co_active (fst (run_machine gate_step s cs)) \<noteq> None)"
proof (induction cs arbitrary: s)
  case Nil
  show ?case by simp
next
  case (Cons c cs)
  from Cons.IH [of "fst (gate_step s c)"] gate_step_balance [of s c] show ?case by simp
qed

text \<open>
  Operations exclude each other. After any sequence of calls the operations begun are
  those completed or abandoned and the active one if there is one; a further \<open>begin\<close> is
  refused exactly while one is active, and then changes nothing.
\<close>

theorem gate_mutual_exclusion:
  "let s = fst (run_machine gate_step coordinator_new cs); answers = snd (run_machine gate_step coordinator_new cs)
   in length (filter is_begun answers) = length (filter is_release answers) + of_bool (active_kind s \<noteq> None)
      \<and> (if active_kind s = None then is_begun (hd (snd (gate_step s (GC_Begin k)))) \<and> active_kind (fst (gate_step s (GC_Begin k))) = Some k
         else gate_step s (GC_Begin k) = (s, [GA_Busy]))"
  using gate_run_balance [of coordinator_new cs]
  by (auto simp: Let_def coordinator_new_def active_kind_def begin_operation_def cancellation_new_def split: option.splits)

text \<open>Before the tokens come round, an active operation with a request's token is that request.\<close>

lemma begun_request:
  assumes "gate_ok n s" and "begin_operation k s = (s', Inr r)"
  shows "gate_ok (Suc n) s'" and "unat (req_token r) = token_no (Suc n)" and "req_cancellation r = n"
    and "co_flags s' = co_flags s @ [False]"
  using assms gate_step_ok [of n s "GC_Begin k"]
  by (auto simp: gate_ok_def begin_operation_def cancellation_new_def Let_def unat_bump_token token_no_Suc split: if_splits)

lemma active_token_unique:
  assumes ok: "gate_ok m s" and a: "co_active s = Some a"
    and r: "unat t = token_no (Suc n)" and "Suc n \<le> m" and near: "m - Suc n < 2 ^ 64 - 1"
  shows "act_token a = t \<longleftrightarrow> act_cancellation a = n"
proof -
  from ok a have m: "unat (act_token a) = token_no m" "m = Suc (act_cancellation a)" by (auto simp: gate_ok_def)
  have "token_no m = token_no (Suc n) \<longleftrightarrow> m = Suc n"
  proof
    assume eq: "token_no m = token_no (Suc n)"
    show "m = Suc n"
    proof (rule ccontr)
      assume "m \<noteq> Suc n"
      with assms(4) have "Suc n < m" by simp
      with token_no_inj [of "Suc n" m] eq near show False by simp
    qed
  qed simp
  with m r show ?thesis by (metis Suc_inject word_unat_eq_iff)
qed

text \<open>
  A stale token is harmless. Take any request a run has been granted, with at least one
  and fewer than \<open>2 ^ 64 - 1\<close> operations begun since: completing, cancelling or abandoning its
  token answers \<open>false\<close> and leaves the coordinator and every cancellation flag as they were.
\<close>

theorem gate_stale_token:
  assumes "begin_operation k (fst (run_machine gate_step coordinator_new cs)) = (s', Inr r)"
    and "0 < length (filter is_begun (snd (run_machine gate_step s' ds)))"
    and "length (filter is_begun (snd (run_machine gate_step s' ds))) < 2 ^ 64 - 1"
  defines "s \<equiv> fst (run_machine gate_step s' ds)"
  shows "complete (req_token r) s = (s, False) \<and> cancel_operation (req_token r) s = (s, False)
     \<and> abandon (req_token r) s = (s, False)"
proof -
  let ?n = "length (filter is_begun (snd (run_machine gate_step coordinator_new cs)))"
  let ?d = "length (filter is_begun (snd (run_machine gate_step s' ds)))"
  have ok: "gate_ok ?n (fst (run_machine gate_step coordinator_new cs))"
    using gate_run_ok [OF coordinator_new_ok, of cs] by simp
  note b = begun_request [OF ok assms(1)]
  have ok2: "gate_ok (Suc ?n + ?d) s" unfolding s_def by (rule gate_run_ok [OF b(1)])
  have "act_token a \<noteq> req_token r" if "co_active s = Some a" for a
    using active_token_unique [OF ok2 that b(2)] ok2 that assms(2,3) by (simp add: gate_ok_def del: length_greater_0_conv)
  then show ?thesis
    by (auto simp: complete_def cancel_operation_def abandon_def split: option.split)
qed

theorem gate_stale_token_witness:
  "complete 1 (fst (begin_operation BackendSwitch (fst (complete 1 (fst (begin_operation BackendApply coordinator_new))))))
     = (fst (begin_operation BackendSwitch (fst (complete 1 (fst (begin_operation BackendApply coordinator_new))))), False)"
proof -
  let ?s = "fst (begin_operation BackendApply coordinator_new)" and ?r = "\<lparr>req_token = 1, req_cancellation = 0\<rparr>"
  let ?ds = "[GC_Complete 1, GC_Begin BackendSwitch]"
  have b: "begin_operation BackendApply (fst (run_machine gate_step coordinator_new [])) = (?s, Inr ?r)"
    by (simp add: gate_defs coordinator_new_def bump_token_def)
  have run: "run_machine gate_step ?s ?ds
      = (fst (begin_operation BackendSwitch (fst (complete 1 ?s))), [GA_Completed 1 True, GA_Begun BackendSwitch \<lparr>req_token = 2, req_cancellation = 1\<rparr>])"
    by (simp add: prod_eq_iff gate_defs coordinator_new_def bump_token_def)
  from gate_stale_token [OF b, of ?ds] run show ?thesis by simp
qed

section \<open>Whose cancellation it is\<close>

fun cancels :: "u64 \<Rightarrow> gate_answer \<Rightarrow> bool" where
  "cancels t (GA_Cancelled u b) = (b \<and> u = t)"
| "cancels t (GA_Abandoned u b) = (b \<and> u = t)"
| "cancels t _ = False"

lemma gate_step_flag:
  assumes ok: "gate_ok m s" and r: "unat t = token_no (Suc n)" and "Suc n \<le> m" and near: "m - Suc n < 2 ^ 64 - 1"
  shows "is_cancelled n (co_flags (fst (gate_step s c)))
      \<longleftrightarrow> is_cancelled n (co_flags s) \<or> list_ex (cancels t) (snd (gate_step s c))"
proof -
  have len: "n < length (co_flags s)" using ok \<open>Suc n \<le> m\<close> by (simp add: gate_ok_def)
  have u: "act_token a = t \<longleftrightarrow> act_cancellation a = n" if "co_active s = Some a" for a
    by (rule active_token_unique [OF ok that r assms(3,4)])
  show ?thesis
    using len u
    by (cases c) (auto simp: gate_defs is_cancelled_def nth_append nth_list_update
        split: option.splits sum.splits begin_operation_error.splits)
qed

lemma gate_run_flag:
  assumes "gate_ok m s" and "unat t = token_no (Suc n)" and "Suc n \<le> m"
    and "m + length (filter is_begun (snd (run_machine gate_step s cs))) - Suc n < 2 ^ 64 - 1"
  shows "is_cancelled n (co_flags (fst (run_machine gate_step s cs)))
      \<longleftrightarrow> is_cancelled n (co_flags s) \<or> list_ex (cancels t) (snd (run_machine gate_step s cs))"
  using assms
proof (induction cs arbitrary: m s)
  case Nil
  then show ?case by simp
next
  case (Cons c cs)
  let ?m = "m + length (filter is_begun (snd (gate_step s c)))"
  have ok: "gate_ok ?m (fst (gate_step s c))" by (rule gate_step_ok [OF Cons.prems(1)])
  have "m - Suc n < 2 ^ 64 - 1" and "?m + length (filter is_begun (snd (run_machine gate_step (fst (gate_step s c)) cs))) - Suc n < 2 ^ 64 - 1"
    and "Suc n \<le> ?m"
    using Cons.prems(3,4) by simp_all
  with Cons.IH [OF ok Cons.prems(2)] gate_step_flag [OF Cons.prems(1,2,3), of c] show ?case by simp
qed

text \<open>
  A request is cancelled exactly by its own token. However the run goes on, as long as
  fewer than \<open>2 ^ 64 - 1\<close> operations are begun after it, the flag its holder polls is set
  exactly when some \<open>cancel\<close> or \<open>abandon\<close> with its token answered \<open>true\<close>; completing it, or
  anything done to other operations, never sets it.
\<close>

theorem gate_cancels_own_request:
  assumes "begin_operation k (fst (run_machine gate_step coordinator_new cs)) = (s', Inr r)"
    and "length (filter is_begun (snd (run_machine gate_step s' ds))) < 2 ^ 64 - 1"
  shows "is_cancelled (req_cancellation r) (co_flags (fst (run_machine gate_step s' ds)))
      \<longleftrightarrow> list_ex (cancels (req_token r)) (snd (run_machine gate_step s' ds))"
proof -
  have ok: "gate_ok (length (filter is_begun (snd (run_machine gate_step coordinator_new cs))))
      (fst (run_machine gate_step coordinator_new cs))"
    using gate_run_ok [OF coordinator_new_ok, of cs] by simp
  note b = begun_request [OF ok assms(1)]
  have "\<not> is_cancelled (req_cancellation r) (co_flags s')"
    using b ok by (simp add: is_cancelled_def gate_ok_def nth_append)
  with gate_run_flag [OF b(1,2), of ds] assms(2) b(3) show ?thesis by simp
qed

theorem gate_cancels_own_request_witness:
  "is_cancelled 0 (co_flags (fst (cancel_operation 1 (fst (begin_operation BackendApply coordinator_new)))))"
proof -
  let ?s = "fst (begin_operation BackendApply coordinator_new)"
  have b: "begin_operation BackendApply (fst (run_machine gate_step coordinator_new [])) = (?s, Inr \<lparr>req_token = 1, req_cancellation = 0\<rparr>)"
    by (simp add: gate_defs coordinator_new_def bump_token_def)
  have run: "run_machine gate_step ?s [GC_Cancel 1] = (fst (cancel_operation 1 ?s), [GA_Cancelled 1 True])"
    by (simp add: prod_eq_iff gate_defs coordinator_new_def bump_token_def)
  from gate_cancels_own_request [OF b, of "[GC_Cancel 1]"] run show ?thesis by simp
qed

end
