(* ===== verification/Active_Backend.thy ===== *)
theory Active_Backend
  imports Connections Operation_Gate
begin

text \<open>
  Switching the model that feeds Myna, \<open>client/myna-config/src/active_backend.rs\<close>: the switch with
  its preflight, its refusals and the restoring of a lost model, setting up, and the controller
  that holds one pending switch. The repository and the configurator are trait objects; here
  they are a record of functions over a state of the outside world, which every call may change.
  A fresh cancellation token is one nobody sets.
\<close>

section \<open>Ports\<close>

datatype backend_surface = BS_SnapInventory | BS_Connections | BS_ModelctlApp | BS_ModelctlConfig | BS_Status | BS_Models | BS_Engines

record backend_surface_error =
  be_surface :: backend_surface
  be_message :: ustr
  be_stderr :: ustr

record 'w ports =
  pt_refresh :: "'w \<Rightarrow> (backend_surface_error + connection_snapshot) \<times> 'w"
  pt_changes :: "'w \<Rightarrow> (ustr + change_in_progress list) \<times> 'w"
  pt_switch :: "('w \<Rightarrow> bool) \<Rightarrow> switch_plan \<Rightarrow> 'w \<Rightarrow> (configurator_failure + command_result list) \<times> 'w"
  pt_restart :: "'w \<Rightarrow> (system_configurator_error + unit) \<times> 'w"

definition fresh_token :: "'w \<Rightarrow> bool" where
  "fresh_token w = False"

section \<open>The switch\<close>

datatype switch_outcome =
    SO_Applied "command_result list" connection_snapshot
  | SO_Disagreed "command_result list" connection_snapshot
  | SO_StaleDiscovery connection_snapshot
  | SO_Noop connection_snapshot
  | SO_Busy ustr connection_snapshot
  | SO_Failed "command_result list" system_configurator_error "connection_snapshot option" "backend_surface_error option"
      "system_configurator_error option"
  | SO_Cancelled "command_result list" "connection_snapshot option" "backend_surface_error option"
  | SO_FinalDiscoveryFailed "command_result list" backend_surface_error

datatype switch_notice = SN_None | SN_Failed | SN_Unconfirmed

fun outcome_notice :: "switch_outcome \<Rightarrow> switch_notice" where
  "outcome_notice (SO_Applied c s) = SN_None"
| "outcome_notice (SO_Noop s) = SN_None"
| "outcome_notice (SO_Cancelled c s d) = SN_None"
| "outcome_notice (SO_Failed c e s d r) = SN_Failed"
| "outcome_notice (SO_Busy c s) = SN_Failed"
| "outcome_notice (SO_Disagreed c s) = SN_Failed"
| "outcome_notice (SO_StaleDiscovery s) = SN_Failed"
| "outcome_notice (SO_FinalDiscoveryFailed c e) = SN_Unconfirmed"

fun final_snapshot :: "switch_outcome \<Rightarrow> connection_snapshot option" where
  "final_snapshot (SO_Applied c s) = Some s"
| "final_snapshot (SO_Disagreed c s) = Some s"
| "final_snapshot (SO_StaleDiscovery s) = Some s"
| "final_snapshot (SO_Busy c s) = Some s"
| "final_snapshot (SO_Noop s) = Some s"
| "final_snapshot (SO_Failed c e s d r) = s"
| "final_snapshot (SO_Cancelled c s d) = s"
| "final_snapshot (SO_FinalDiscoveryFailed c e) = None"

definition change_holding :: "'w ports \<Rightarrow> switch_plan \<Rightarrow> 'w \<Rightarrow> ustr option \<times> 'w" where
  "change_holding P p w =
     (let snaps = [MYNA_SNAP, bi_snap_name (sp_selected p)]
            @ map bi_snap_name (connected_backends (sp_baseline p) @ cs_strays (sp_baseline p));
          (r, w') = pt_changes P w
      in (case r of Inl _ \<Rightarrow> None | Inr changes \<Rightarrow> map_option ch_summary (find (concerns snaps) changes), w'))"

fun split_result :: "'e + 'a \<Rightarrow> 'a option \<times> 'e option" where
  "split_result (Inr a) = (Some a, None)"
| "split_result (Inl e) = (None, Some e)"

definition settle_after_refresh :: "'w ports \<Rightarrow> command_result list \<Rightarrow> system_configurator_error \<Rightarrow> 'w \<Rightarrow> switch_outcome \<times> 'w" where
  "settle_after_refresh P completed e w =
     (let (r, w') = pt_refresh P w; (final, discovery_error) = split_result r in
      (case e of
         SC_Cancelled \<Rightarrow> SO_Cancelled completed final discovery_error
       | _ \<Rightarrow> SO_Failed completed e final discovery_error None, w'))"

definition lost_snapshot :: "switch_outcome \<Rightarrow> backend_identity \<Rightarrow> connection_snapshot option" where
  "lost_snapshot outcome previous =
     (case final_snapshot outcome of
        Some s \<Rightarrow> if cs_active_state s = AB_Disconnected \<and> previous \<in> set (cs_backends s) then Some s else None
      | None \<Rightarrow> None)"

definition restore_lost_model :: "'w ports \<Rightarrow> switch_plan \<Rightarrow> switch_outcome \<Rightarrow> 'w \<Rightarrow> switch_outcome \<times> 'w" where
  "restore_lost_model P p outcome w =
     (case cs_active_state (sp_baseline p) of
        AB_Connected previous \<Rightarrow>
          (case lost_snapshot outcome previous of
             None \<Rightarrow> (outcome, w)
           | Some lost \<Rightarrow>
               (case switch_plan_new lost previous of
                  Inl _ \<Rightarrow> (outcome, w)
                | Inr restore \<Rightarrow>
                    (let (restored, w1) = pt_switch P fresh_token restore w;
                         (cmds, restore_error) = (case restored of Inr cmds \<Rightarrow> (cmds, None) | Inl f \<Rightarrow> (cf_completed f, Some (cf_error f)));
                         (reread, w2) = pt_refresh P w1;
                         (final, reread_error) = split_result reread
                     in (case outcome of
                           SO_Failed completed e _ _ _ \<Rightarrow> SO_Failed (completed @ cmds) e final reread_error restore_error
                         | SO_Cancelled completed _ _ \<Rightarrow>
                             (case restore_error of
                                Some err \<Rightarrow> SO_Failed (completed @ cmds) SC_Cancelled final reread_error (Some err)
                              | None \<Rightarrow> SO_Cancelled (completed @ cmds) final reread_error)
                         | other \<Rightarrow> other, w2))))
      | _ \<Rightarrow> (outcome, w))"

definition execute_switch :: "'w ports \<Rightarrow> ('w \<Rightarrow> bool) \<Rightarrow> switch_plan \<Rightarrow> 'w \<Rightarrow> switch_outcome \<times> 'w" where
  "execute_switch P cancelled p w =
     (case pt_refresh P w of
        (Inl e, w1) \<Rightarrow> (SO_FinalDiscoveryFailed [] e, w1)
      | (Inr preflight, w1) \<Rightarrow>
          if is_noop p then
            (if preflight = sp_baseline p then (SO_Noop preflight, w1) else (SO_StaleDiscovery preflight, w1))
          else if preflight \<noteq> sp_baseline p \<or> sp_selected p \<notin> set (cs_backends preflight) then (SO_StaleDiscovery preflight, w1)
          else if cancelled w1 then settle_after_refresh P [] SC_Cancelled w1
          else
            (case change_holding P p w1 of
               (Some change, w2) \<Rightarrow> (SO_Busy change preflight, w2)
             | (None, w2) \<Rightarrow>
                 (case pt_switch P cancelled p w2 of
                    (Inr completed, w3) \<Rightarrow>
                      (case pt_refresh P w3 of
                         (Inr final, w4) \<Rightarrow>
                           (if selected_is_active final (sp_selected p) then SO_Applied completed final else SO_Disagreed completed final, w4)
                       | (Inl e, w4) \<Rightarrow> (SO_FinalDiscoveryFailed completed e, w4))
                  | (Inl failure, w3) \<Rightarrow>
                      (let (outcome, w4) = settle_after_refresh P (cf_completed failure) (cf_error failure) w3
                       in restore_lost_model P p outcome w4))))"

section \<open>Setting up\<close>

record snapd_wait =
  sw_interval :: nat
  sw_timeout :: nat

datatype setup_stage =
    ST_Checking
  | ST_Waiting apply_progress
  | ST_Connecting ustr
  | ST_Restarting

datatype setup_error =
    SE_Cancelled
  | SE_Failed ustr
  | SE_Busy ustr
  | SE_Step system_configurator_error

datatype settled = ST_Restarted | ST_LeftRunning

text \<open>
  The waiting loop reads the changes every interval. \<open>n\<close> bounds the reads, and \<open>None\<close> is the
  bound reached; by \<open>wait_for_snapd_returns\<close> it is never reached when the interval is positive
  and \<open>n\<close> is above the timeout over the interval.
\<close>

fun wait_for_snapd :: "nat \<Rightarrow> 'w ports \<Rightarrow> ('w \<Rightarrow> bool) \<Rightarrow> ustr list \<Rightarrow> snapd_wait \<Rightarrow> nat \<Rightarrow> 'w
    \<Rightarrow> (setup_stage list \<times> (setup_error + bool) \<times> 'w) option" where
  "wait_for_snapd 0 P cancelled snaps sw waited w = None"
| "wait_for_snapd (Suc n) P cancelled snaps sw waited w =
     (if cancelled w then Some ([], Inl SE_Cancelled, w)
      else case pt_changes P w of
        (Inl message, w') \<Rightarrow> Some ([], Inl (SE_Failed message), w')
      | (Inr changes, w') \<Rightarrow>
          (case find (concerns snaps) changes of
             None \<Rightarrow> Some ([], Inr (0 < waited), w')
           | Some change \<Rightarrow>
               if sw_timeout sw \<le> waited then Some ([], Inl (SE_Busy (ch_summary change)), w')
               else map_option (\<lambda>(stages, r, w''). (ST_Waiting (change_progress change) # stages, r, w''))
                      (wait_for_snapd n P cancelled snaps sw (waited + sw_interval sw) w')))"

fun setup_outcome :: "(ustr \<Rightarrow> ustr) \<Rightarrow> switch_outcome \<Rightarrow> setup_error + settled" where
  "setup_outcome tr (SO_Applied c s) = Inr ST_Restarted"
| "setup_outcome tr (SO_Noop s) = Inr ST_LeftRunning"
| "setup_outcome tr (SO_Failed c e s d r) = Inl (SE_Step e)"
| "setup_outcome tr (SO_FinalDiscoveryFailed c e) = Inl (SE_Failed (be_message e))"
| "setup_outcome tr (SO_Cancelled c s d) = Inl SE_Cancelled"
| "setup_outcome tr (SO_Busy change s) = Inl (SE_Busy change)"
| "setup_outcome tr (SO_Disagreed c s) = Inl (SE_Failed (tr (lit ''The model changed while it was being switched on. Try again.'')))"
| "setup_outcome tr (SO_StaleDiscovery s) = Inl (SE_Failed (tr (lit ''The model changed while it was being switched on. Try again.'')))"

definition choose_backend :: "connection_snapshot \<Rightarrow> ustr option \<Rightarrow> backend_identity option" where
  "choose_backend s preferred =
     (case find (\<lambda>b. Some (bi_snap_name b) = preferred) (cs_backends s) of
        Some b \<Rightarrow> Some b
      | None \<Rightarrow> (case cs_backends s of b # _ \<Rightarrow> Some b | [] \<Rightarrow> None))"

definition settle_backend :: "(ustr \<Rightarrow> ustr) \<Rightarrow> 'w ports \<Rightarrow> ustr option \<Rightarrow> connection_snapshot \<Rightarrow> 'w
    \<Rightarrow> setup_stage list \<times> (setup_error + settled) \<times> 'w" where
  "settle_backend tr P preferred snapshot w =
     (case cs_active_state snapshot of
        AB_Connected _ \<Rightarrow>
          (let (r, w') = pt_restart P w
           in ([ST_Restarting], case r of Inr _ \<Rightarrow> Inr ST_Restarted | Inl SC_Cancelled \<Rightarrow> Inl SE_Cancelled | Inl e \<Rightarrow> Inl (SE_Step e), w'))
      | _ \<Rightarrow>
          (case choose_backend snapshot preferred of
             None \<Rightarrow> ([], Inl (SE_Failed (tr (lit ''No model is connected.''))), w)
           | Some selected \<Rightarrow>
               (case switch_plan_new snapshot selected of
                  Inl _ \<Rightarrow> ([], Inl (SE_Failed (tr (lit ''The model is not available to switch to.''))), w)
                | Inr p \<Rightarrow>
                    (let (outcome, w') = execute_switch P fresh_token p w
                     in ([ST_Connecting (bi_snap_name selected)], setup_outcome tr outcome, w')))))"

definition ensure_backend_active :: "nat \<Rightarrow> (ustr \<Rightarrow> ustr) \<Rightarrow> 'w ports \<Rightarrow> ('w \<Rightarrow> bool) \<Rightarrow> ustr option \<Rightarrow> snapd_wait \<Rightarrow> 'w
    \<Rightarrow> (setup_stage list \<times> (setup_error + settled) \<times> 'w) option" where
  "ensure_backend_active n tr P cancelled preferred sw w =
     (case pt_refresh P w of
        (Inl e, w1) \<Rightarrow> Some ([ST_Checking], Inl (SE_Failed (be_message e)), w1)
      | (Inr snapshot, w1) \<Rightarrow>
          (case wait_for_snapd n P cancelled (MYNA_SNAP # map bi_snap_name (cs_backends snapshot)) sw 0 w1 of
             None \<Rightarrow> None
           | Some (stages, Inl e, w2) \<Rightarrow> Some (ST_Checking # stages, Inl e, w2)
           | Some (stages, Inr False, w2) \<Rightarrow>
               (let (more_stages, r, w3) = settle_backend tr P preferred snapshot w2
                in Some (ST_Checking # stages @ more_stages, r, w3))
           | Some (stages, Inr True, w2) \<Rightarrow>
               (case pt_refresh P w2 of
                  (Inl e, w3) \<Rightarrow> Some (ST_Checking # stages @ [ST_Checking], Inl (SE_Failed (be_message e)), w3)
                | (Inr snapshot', w3) \<Rightarrow>
                    (let (more_stages, r, w4) = settle_backend tr P preferred snapshot' w3
                     in Some (ST_Checking # stages @ [ST_Checking] @ more_stages, r, w4)))))"

section \<open>The controller of the pending switch\<close>

record pending_switch =
  pn_token :: u64
  pn_selected :: backend_identity

record switch_controller =
  sc_snapshot :: connection_snapshot
  sc_verified :: bool
  sc_generation :: u64
  sc_pending :: "pending_switch option"
  sc_gate :: coordinator

definition with_coordinator :: "connection_snapshot \<Rightarrow> coordinator \<Rightarrow> switch_controller" where
  "with_coordinator s g = \<lparr>sc_snapshot = s, sc_verified = True, sc_generation = 0, sc_pending = None, sc_gate = g\<rparr>"

definition set_snapshot :: "connection_snapshot \<Rightarrow> switch_controller \<Rightarrow> switch_controller \<times> bool" where
  "set_snapshot s c = (if sc_pending c \<noteq> None then (c, False) else (c\<lparr>sc_snapshot := s, sc_verified := True\<rparr>, True))"

definition chosen :: "switch_controller \<Rightarrow> backend_identity option" where
  "chosen c =
     (case sc_pending c of
        Some p \<Rightarrow> Some (pn_selected p)
      | None \<Rightarrow> (case cs_active_state (sc_snapshot c) of AB_Connected b \<Rightarrow> Some b | _ \<Rightarrow> None))"

record switch_request =
  rq_token :: u64
  rq_plan :: switch_plan
  rq_cancellation :: cancellation_token

definition begin_switch :: "backend_identity \<Rightarrow> switch_controller \<Rightarrow> switch_controller \<times> (prepare_switch_error + switch_request)" where
  "begin_switch selected c =
     (if sc_pending c \<noteq> None then (c, Inl PS_Busy)
      else case switch_plan_new (sc_snapshot c) selected of
        Inl e \<Rightarrow> (c, Inl e)
      | Inr p \<Rightarrow>
          (case begin_operation BackendSwitch (sc_gate c) of
             (g, Inl _) \<Rightarrow> (c\<lparr>sc_gate := g\<rparr>, Inl PS_Busy)
           | (g, Inr r) \<Rightarrow>
               (c\<lparr>sc_gate := g, sc_generation := req_token r, sc_pending := Some \<lparr>pn_token = req_token r, pn_selected = selected\<rparr>\<rparr>,
                Inr \<lparr>rq_token = req_token r, rq_plan = p, rq_cancellation = req_cancellation r\<rparr>)))"

definition abandon_switch :: "switch_controller \<Rightarrow> switch_controller" where
  "abandon_switch c =
     (case sc_pending c of
        Some p \<Rightarrow> c\<lparr>sc_pending := None, sc_gate := fst (abandon (pn_token p) (sc_gate c))\<rparr>
      | None \<Rightarrow> c)"

definition complete_switch :: "u64 \<Rightarrow> switch_outcome \<Rightarrow> switch_controller \<Rightarrow> switch_controller \<times> bool" where
  "complete_switch t outcome c =
     (case sc_pending c of
        None \<Rightarrow> (c, False)
      | Some p \<Rightarrow>
          if pn_token p \<noteq> t then (c, False)
          else
            let c = c\<lparr>sc_pending := None, sc_gate := fst (complete t (sc_gate c))\<rparr> in
            (case final_snapshot outcome of
               Some s \<Rightarrow> c\<lparr>sc_snapshot := s, sc_verified := True\<rparr>
             | None \<Rightarrow> c\<lparr>sc_verified := False\<rparr>, True))"

definition switching_to :: "switch_controller \<Rightarrow> backend_identity option" where
  "switching_to c = map_option pn_selected (sc_pending c)"

section \<open>Waiting ends\<close>

lemma wait_for_snapd_returns:
  assumes "0 < sw_interval sw" and "sw_timeout sw \<le> waited + (n - 1) * sw_interval sw" and "0 < n"
  shows "wait_for_snapd n P cancelled snaps sw waited w \<noteq> None"
  using assms(2,3)
proof (induction n arbitrary: waited w)
  case 0
  then show ?case by simp
next
  case (Suc n)
  show ?case
  proof (cases "sw_timeout sw \<le> waited")
    case True
    then show ?thesis by (auto split: prod.splits sum.splits option.splits)
  next
    case False
    with Suc.prems have "0 < n" by (cases n) auto
    moreover from this have "sw_timeout sw \<le> waited + sw_interval sw + (n - 1) * sw_interval sw"
      using Suc.prems(1) by (cases n) auto
    ultimately have "wait_for_snapd n P cancelled snaps sw (waited + sw_interval sw) w' \<noteq> None" for w'
      by (intro Suc.IH)
    then show ?thesis by (simp del: not_None_eq split: prod.split sum.split option.split)
  qed
qed

text \<open>
  Setting up always answers: with a positive interval, whatever snapd keeps doing, reading
  its changes a number of times that the timeout over the interval bounds is enough for a
  result, which is the daemon restarted or left running, or the reason it is not.
\<close>

theorem ensure_backend_active_returns:
  assumes "0 < sw_interval sw" and "sw_timeout sw div sw_interval sw + 2 \<le> n"
  shows "\<exists>stages r w'. ensure_backend_active n tr P cancelled preferred sw w = Some (stages, r, w')"
proof -
  have "sw_timeout sw < (sw_timeout sw div sw_interval sw + 1) * sw_interval sw"
    using assms(1) dividend_less_div_times [of "sw_interval sw" "sw_timeout sw"] by simp
  also have "\<dots> \<le> (n - 1) * sw_interval sw" using assms(2) by (intro mult_right_mono) auto
  finally have b: "sw_timeout sw \<le> 0 + (n - 1) * sw_interval sw" by simp
  have w: "(wait_for_snapd n P cancelled snaps sw 0 v = None) = False" for snaps v
    using assms by (simp only: wait_for_snapd_returns [OF assms(1) b])
  show ?thesis
    by (auto simp: w ensure_backend_active_def split: prod.splits sum.splits option.splits bool.splits)
qed

definition busy_ports :: "unit ports" where
  "busy_ports = \<lparr>pt_refresh = (\<lambda>w. (Inr two_models, w)), pt_changes = (\<lambda>w. (Inr [shows_percent 40\<lparr>ch_summary := lit ''myna''\<rparr>], w)),
     pt_switch = (\<lambda>c p w. (Inr [], w)), pt_restart = (\<lambda>w. (Inr (), w))\<rparr>"

theorem ensure_backend_active_returns_witness:
  "\<exists>stages r w'. ensure_backend_active 5 id busy_ports (\<lambda>_. False) None \<lparr>sw_interval = 1, sw_timeout = 3\<rparr> () = Some (stages, r, w')"
  by (rule ensure_backend_active_returns) simp_all

section \<open>A switch never loses the model\<close>

text \<open>
  What reading the connections tells, with \<open>C\<close> the slots connected to Myna's plug: the
  backends on the machine are \<open>bs\<close>, the snapshot's connected backends and strays are exactly
  the connected slots, no stray has the slot of a backend, and the state is the one
  \<open>connection_snapshot_of\<close> gives.
\<close>

definition shows_connections :: "backend_identity list \<Rightarrow> (ustr \<times> ustr) set \<Rightarrow> connection_snapshot \<Rightarrow> bool" where
  "shows_connections bs C s \<longleftrightarrow> cs_backends s = bs \<and> set (connected_backends s) \<subseteq> set bs
     \<and> C = slot_of ` set (connected_backends s @ cs_strays s) \<and> slot_of ` set (cs_strays s) \<inter> slot_of ` set bs = {}
     \<and> cs_active_state s = active_state_of (connected_backends s)
     \<and> list_all named_right (bs @ cs_strays s)"

text \<open>The snapshot of a listing of snapd's slots shows the slots that feed Myna's plug.\<close>

lemma slot_of_identity: "slot_of (slot_identity x) = (sl_snap x, sl_slot x)"
  by (simp add: slot_of_def slot_identity_def backend_identity_new_def)

lemma listing_shown:
  assumes one: "inj_on (\<lambda>x. (sl_snap x, sl_slot x)) (set slots)"
    and names: "\<forall>x \<in> set slots. is_valid_snap_name (sl_snap x) \<and> is_valid_slot_name (sl_slot x)"
  shows "shows_connections (cs_backends (connection_snapshot_of slots))
    ((\<lambda>x. (sl_snap x, sl_slot x)) ` {x \<in> set slots. feeds_myna x}) (connection_snapshot_of slots)"
proof -
  let ?s = "connection_snapshot_of slots"
  have b: "set (cs_backends ?s) = slot_identity ` {x \<in> set slots. is_model x}"
    and c: "set (connected_backends ?s) = slot_identity ` {x \<in> set slots. is_model x \<and> feeds_myna x}"
    and t: "set (cs_strays ?s) = slot_identity ` {x \<in> set slots. \<not> is_model x \<and> feeds_myna x}"
    using connection_snapshot_faithful [of slots] by (simp_all add: Let_def)
  have "cs_active_state ?s = active_state_of (connected_backends ?s)"
    by (simp add: connection_snapshot_of_def connected_backends_def connected_active_state split: prod.split)
  moreover have "list_all named_right (cs_backends ?s @ cs_strays ?s)"
    using names by (auto simp: list_all_iff b t named_right_def slot_identity_def backend_identity_new_def)
  moreover have "slot_of ` set (cs_strays ?s) \<inter> slot_of ` set (cs_backends ?s) = {}"
    using one by (auto simp: b t slot_of_identity inj_on_def)
  moreover have "(\<lambda>x. (sl_snap x, sl_slot x)) ` {x \<in> set slots. feeds_myna x} = slot_of ` set (connected_backends ?s @ cs_strays ?s)"
    by (auto simp: c t image_Un image_image slot_of_identity)
  moreover have "set (connected_backends ?s) \<subseteq> set (cs_backends ?s)" by (auto simp: b c)
  ultimately show ?thesis by (simp add: shows_connections_def)
qed

text \<open>
  The ports with \<open>conn\<close> the connected slots and \<open>flight\<close> snapd's changes in progress: reading
  shows the connections as they are at some moment of the call, and during a call a change in
  progress may end.
\<close>

definition truthful_ports :: "'w snapd \<Rightarrow> ('w \<Rightarrow> (ustr \<times> ustr) set) \<Rightarrow> ('w \<Rightarrow> interface_action set) \<Rightarrow> backend_identity list
    \<Rightarrow> 'w ports \<Rightarrow> bool" where
  "truthful_ports sd conn flight bs P \<longleftrightarrow> snapd_faithful sd conn flight
     \<and> (\<forall>w. \<exists>s F C. fst (pt_refresh P w) = Inr s \<and> lands (flight w) (conn w) F C \<and> shows_connections bs C s
          \<and> lands F C (flight (snd (pt_refresh P w))) (conn (snd (pt_refresh P w))))
     \<and> (\<forall>w. lands (flight w) (conn w) (flight (snd (pt_changes P w))) (conn (snd (pt_changes P w))))
     \<and> pt_switch P = (\<lambda>cancelled p. execute_backend_switch sd cancelled p)"

lemma refresh_cases:
  assumes "truthful_ports sd conn flight bs P"
  obtains s w' F C where "pt_refresh P w = (Inr s, w')" "lands (flight w) (conn w) F C" "shows_connections bs C s"
    "lands F C (flight w') (conn w')"
  using assms by (metis prod.collapse truthful_ports_def)

lemma refresh_still:
  assumes "truthful_ports sd conn flight bs P" and "flight w = {}"
  obtains s w' where "pt_refresh P w = (Inr s, w')" "shows_connections bs (conn w) s" "conn w' = conn w" "flight w' = {}"
  by (rule refresh_cases [OF assms(1), of w]) (use assms(2) in auto)

lemma refresh_landed:
  assumes "truthful_ports sd conn flight bs P"
  obtains s w' where "pt_refresh P w = (Inr s, w')" "lands (flight w) (conn w) (flight w') (conn w')"
  by (rule refresh_cases [OF assms(1), of w]) (use lands_trans in blast)

lemma plan_selected_backend: "switch_plan_new s b = Inr p \<Longrightarrow> b \<in> set (cs_backends s) \<and> sp_baseline p = s \<and> sp_selected p = b
    \<and> (is_noop p \<longleftrightarrow> connected_backends s = [b])"
  by (auto simp: switch_plan_new_def is_noop_def Let_def split: if_splits)

lemma plan_names: "shows_connections bs C s \<Longrightarrow> switch_plan_new s b = Inr p \<Longrightarrow> \<forall>x \<in> set (b # connected_backends s @ cs_strays s). named_right x"
  using plan_selected_backend by (fastforce simp: shows_connections_def list_all_iff)

lemma connected_one: "cs_active_state s = AB_Connected b \<longleftrightarrow> connected_backends s = [b]" if "cs_active_state s = active_state_of (connected_backends s)"
  using that by (auto simp: connected_backends_def active_state_of_def split: list.splits)

definition model_connected :: "backend_identity list \<Rightarrow> (ustr \<times> ustr) set \<Rightarrow> bool" where
  "model_connected bs C \<longleftrightarrow> (\<exists>b \<in> set bs. slot_of b \<in> C)"

lemma shown_model: "shows_connections bs C s \<Longrightarrow> model_connected bs C \<longleftrightarrow> cs_active_state s \<noteq> AB_Disconnected"
proof -
  assume s: "shows_connections bs C s"
  then have "model_connected bs C \<longleftrightarrow> connected_backends s \<noteq> []"
    by (cases "connected_backends s") (auto simp: shows_connections_def model_connected_def)
  with s show ?thesis by (auto simp: shows_connections_def active_state_of_def split: list.splits)
qed

fun reports_lost_model :: "switch_outcome \<Rightarrow> bool" where
  "reports_lost_model (SO_Failed c e s d r) = (r \<noteq> None)"
| "reports_lost_model _ = False"

text \<open>
  An outcome that gave up on the first step, with nothing done, and whose reading of the
  connections found a model connected.
\<close>

fun gave_up_first :: "switch_outcome \<Rightarrow> bool" where
  "gave_up_first (SO_Failed c e (Some t) d r) = (c = [] \<and> cs_active_state t \<noteq> AB_Disconnected)"
| "gave_up_first (SO_Cancelled c (Some t) d) = (c = [] \<and> cs_active_state t \<noteq> AB_Disconnected)"
| "gave_up_first _ = False"

fun settles :: "command_result list \<Rightarrow> switch_outcome \<Rightarrow> connection_snapshot \<Rightarrow> bool" where
  "settles cmds (SO_Failed c e s d r) t = (c = cmds \<and> s = Some t)"
| "settles cmds (SO_Cancelled c s d) t = (c = cmds \<and> s = Some t)"
| "settles cmds _ t = False"

lemma settles_snapshot: "settles c outcome t \<Longrightarrow> final_snapshot outcome = Some t"
  by (cases outcome) auto

lemma settles_gave_up: "settles [] outcome t \<Longrightarrow> cs_active_state t \<noteq> AB_Disconnected \<Longrightarrow> gave_up_first outcome"
  by (cases outcome) auto

lemma settle_settles:
  assumes "truthful_ports sd conn flight bs P" and "settle_after_refresh P completed e w = (outcome, w')"
  shows "\<exists>t F C. settles completed outcome t \<and> lands (flight w) (conn w) F C \<and> shows_connections bs C t \<and> lands F C (flight w') (conn w')"
proof -
  obtain s v F C where r: "pt_refresh P w = (Inr s, v)" "lands (flight w) (conn w) F C" "shows_connections bs C s" "lands F C (flight v) (conn v)"
    by (rule refresh_cases [OF assms(1), of w])
  from r assms(2) have "settles completed outcome s" "w' = v" by (cases e; auto simp: settle_after_refresh_def)+
  with r show ?thesis by blast
qed

subsection \<open>Putting the model back\<close>

lemma run_step_ok:
  assumes "snapd_faithful sd conn flight" and "run_step sd s w = (Inr u, w')"
  obtains F C where "lands (flight w) (conn w) F C" "lands F (step_effect s C) (flight w') (conn w')"
proof (cases s)
  case (SS_Interface r a)
  with assms have "\<exists>F C. lands (flight w) (conn w) F C \<and> lands F (act_effect a C) (flight w') (conn w')"
    by (simp add: snapd_faithful_def)
  with SS_Interface that show ?thesis by auto
next
  case (SS_Restart r)
  with assms have "lands (flight w) (conn w) (flight w') (conn w')" by (simp add: snapd_faithful_def)
  with SS_Restart that [of "flight w" "conn w"] show ?thesis by auto
qed

lemma run_step_flight: "snapd_faithful sd conn flight \<Longrightarrow> run_step sd s w = (Inr u, w') \<Longrightarrow> flight w' \<subseteq> flight w"
proof -
  assume "snapd_faithful sd conn flight" and "run_step sd s w = (Inr u, w')"
  then obtain F C where "lands (flight w) (conn w) F C" "lands F (step_effect s C) (flight w') (conn w')" by (rule run_step_ok)
  from lands_subset [OF this(2)] lands_subset [OF this(1)] show ?thesis by (rule subset_trans)
qed

lemma run_steps_append_ok:
  assumes "snapd_faithful sd conn flight" and "run_steps sd cancelled c (ss @ ts) w = (Inr y, w')"
  shows "\<exists>v c'. run_steps sd cancelled c' ts v = (Inr y, w') \<and> flight v \<subseteq> flight w"
  using assms(2)
proof (induction ss arbitrary: c w)
  case Nil
  then show ?case by auto
next
  case (Cons s ss)
  then obtain u v where st: "run_step sd s w = (Inr u, v)"
    and r: "run_steps sd cancelled (c @ [succeeded (request_for_step s)]) (ss @ ts) v = (Inr y, w')"
    by (auto split: if_splits prod.splits sum.splits)
  from Cons.IH [OF r] run_step_flight [OF assms(1) st] show ?case by blast
qed

text \<open>
  A connect that succeeds and the restart after it leave the slot connected, then and later, as
  long as its disconnection is not in progress.
\<close>

lemma connect_survives:
  assumes "snapd_faithful sd conn flight"
    and "run_steps sd cancelled c (map (interface_step False) ds @ [interface_step True b, SS_Restart r]) w = (Inr y, w')"
    and "Disconnect (fst (slot_of b)) (snd (slot_of b)) \<notin> flight w"
  shows "slot_of b \<in> conn w'" and "flight w' \<subseteq> flight w"
proof -
  obtain v c' where v: "run_steps sd cancelled c' [interface_step True b, SS_Restart r] v = (Inr y, w')" "flight v \<subseteq> flight w"
    using run_steps_append_ok [OF assms(1,2)] by blast
  from v(1) obtain u x x' where con: "run_step sd (interface_step True b) v = (Inr x, u)" and re: "run_step sd (SS_Restart r) u = (Inr x', w')"
    by (auto split: if_splits prod.splits sum.splits simp del: run_step.simps)
  obtain F C where l: "lands (flight v) (conn v) F C" "lands F (insert (slot_of b) C) (flight u) (conn u)"
    using run_step_ok [OF assms(1) con] by (metis interface_step_effects(1))
  have F: "F \<subseteq> flight w" using lands_subset [OF l(1)] v(2) by blast
  have u: "slot_of b \<in> conn u" by (rule lands_keeps [OF l(2)]) (use F assms(3) in auto)
  have fu: "flight u \<subseteq> flight w" using lands_subset [OF l(2)] F by blast
  obtain F' C' where m: "lands (flight u) (conn u) F' C'" "lands F' C' (flight w') (conn w')"
    using run_step_ok [OF assms(1) re] by (metis step_effect.simps(2))
  have "lands (flight u) (conn u) (flight w') (conn w')" by (rule lands_trans [OF m])
  with u fu assms(3) show "slot_of b \<in> conn w'" and "flight w' \<subseteq> flight w"
    using lands_keeps [of "flight u" "conn u" "flight w'" "conn w'" "slot_of b"] lands_subset by blast+
qed

lemma landed_keeps: "c \<in> C \<Longrightarrow> Disconnect (fst c) (snd c) \<notin> F \<Longrightarrow> C' \<in> landed F C \<Longrightarrow> c \<in> C'"
  by (auto simp: landed_def intro: lands_keeps)

lemma restore_keeps_model:
  assumes P: "truthful_ports sd conn flight bs P" and base: "cs_active_state (sp_baseline p) = AB_Connected previous" and prev: "previous \<in> set bs"
    and o: "settles c outcome t" and shown: "shows_connections bs C t" and gone: "cs_active_state t = AB_Disconnected"
    and safe: "Disconnect (fst (slot_of previous)) (snd (slot_of previous)) \<notin> flight w"
    and run: "restore_lost_model P p outcome w = (outcome', w')"
  shows "landed (flight w') (conn w') \<subseteq> Collect (model_connected bs) \<or> reports_lost_model outcome'"
proof -
  have lost: "lost_snapshot outcome previous = Some t"
    using settles_snapshot [OF o] gone prev shown by (simp add: lost_snapshot_def shows_connections_def)
  obtain q where q: "switch_plan_new t previous = Inr q"
    using prev shown by (auto simp: switch_plan_new_def shows_connections_def Let_def)
  obtain x v where sw: "pt_switch P fresh_token q w = (x, v)" by (cases "pt_switch P fresh_token q w")
  obtain u s where rf: "pt_refresh P v = (Inr s, u)" "lands (flight v) (conn v) (flight u) (conn u)"
    by (rule refresh_landed [OF P, of v])
  show ?thesis
  proof (cases x)
    case (Inl f)
    then have "reports_lost_model outcome'"
      using base run lost q sw rf(1) o by (cases outcome) (auto simp: restore_lost_model_def)
    then show ?thesis ..
  next
    case (Inr cmds)
    have "connected_backends t = []" using gone by (simp add: connected_backends_def)
    moreover have "validate_switch_plan q = Inr (switch_steps t previous)" by (rule switch_plan_steps [OF q plan_names [OF shown q]])
    ultimately have "run_steps sd fresh_token [] (map (interface_step False) (cs_strays t) @ [interface_step True previous, SS_Restart myna_restart_request]) w
        = (Inr cmds, v)"
      using sw P Inr by (simp add: truthful_ports_def execute_backend_switch_def switch_steps_def)
    moreover have "snapd_faithful sd conn flight" using P by (simp add: truthful_ports_def)
    ultimately have v: "slot_of previous \<in> conn v" "flight v \<subseteq> flight w"
      using connect_survives [of sd conn flight fresh_token "[]" "cs_strays t" previous myna_restart_request w cmds v] safe by simp_all
    have "w' = u" using base run lost q sw rf(1) o Inr by (cases outcome) (auto simp: restore_lost_model_def)
    then have "landed (flight w') (conn w') \<subseteq> landed (flight v) (conn v)" using lands_mono [OF rf(2)] by simp
    moreover have "slot_of previous \<in> D" if "D \<in> landed (flight v) (conn v)" for D
      using landed_keeps [OF v(1) _ that] safe v(2) by blast
    ultimately have "landed (flight w') (conn w') \<subseteq> Collect (model_connected bs)" using prev unfolding model_connected_def by blast
    then show ?thesis ..
  qed
qed

lemma no_restore:
  "settles c outcome t \<Longrightarrow> cs_active_state t \<noteq> AB_Disconnected \<Longrightarrow> restore_lost_model P p outcome w = (outcome, w)"
  using settles_snapshot [of c outcome t] by (auto simp: restore_lost_model_def lost_snapshot_def split: active_backend_state.split)

text \<open>A switch that failed, whatever its steps left in progress, and what came of it.\<close>

lemma failed_switch_settles:
  assumes P: "truthful_ports sd conn flight bs P" and shown: "shows_connections bs (conn w) s" and none: "flight w = {}"
    and one: "cs_active_state s = AB_Connected previous" and prev: "previous \<in> set bs"
    and plan: "switch_plan_new s b = Inr p" and other: "connected_backends s \<noteq> [b]"
    and sw: "pt_switch P cancelled p w = (Inl f, w3)"
    and st: "settle_after_refresh P (cf_completed f) (cf_error f) w3 = (o1, w4)"
    and rs: "restore_lost_model P p o1 w4 = (outcome, w')"
  shows "landed (flight w') (conn w') \<subseteq> Collect (model_connected bs) \<or> reports_lost_model outcome
    \<or> gave_up_first outcome \<and> landed (flight w') (conn w') \<subseteq> {conn w, conn w - {slot_of previous}}"
proof -
  define ds where "ds = connected_backends s @ cs_strays s"
  have ds: "ds = previous # cs_strays s" using one shown connected_one [of s previous] by (simp add: ds_def shows_connections_def)
  have w: "conn w = slot_of ` set ds" using shown by (simp add: shows_connections_def ds_def)
  have strays: "slot_of ` set (cs_strays s) \<inter> slot_of ` set bs = {}" using shown by (simp add: shows_connections_def)
  have b: "b \<in> set bs" using plan_selected_backend [OF plan] shown by (simp add: shows_connections_def)
  let ?k = "length (cf_completed f)"
  have "stopped_at ?k (map (interface_step False) ds @ [interface_step True b, SS_Restart myna_restart_request]) (slot_of ` set ds)
      (flight w3) (conn w3)"
    using execute_backend_switch_effect [where flight = flight and w = w, OF _ plan plan_names [OF shown plan] _ none other, of sd conn cancelled "Inl f" w3] P sw w
    by (simp add: truthful_ports_def ds_def)
  note stops = switch_stops [OF this]
  obtain t F C where t: "settles (cf_completed f) o1 t" and l1: "lands (flight w3) (conn w3) F C" and tC: "shows_connections bs C t"
    and l2: "lands F C (flight w4) (conn w4)"
    using settle_settles [OF P st] by blast
  have base: "cs_active_state (sp_baseline p) = AB_Connected previous" using plan_selected_backend [OF plan] one by simp
  have restored: ?thesis if "cs_active_state t = AB_Disconnected" "Disconnect (fst (slot_of previous)) (snd (slot_of previous)) \<notin> F"
    using restore_keeps_model [OF P base prev t tC that(1) _ rs] that(2) lands_subset [OF l2] by blast
  have kept: "outcome = o1 \<and> landed (flight w') (conn w') \<subseteq> landed F C" if "cs_active_state t \<noteq> AB_Disconnected"
    using no_restore [OF t that, of P p w4] rs lands_mono [OF l2] by simp
  have switched: ?thesis if sub: "landed (flight w') (conn w') \<subseteq> {{slot_of b}}"
  proof -
    have "{{slot_of b}} \<subseteq> Collect (model_connected bs)" using b by (auto simp: model_connected_def)
    with sub have "landed (flight w') (conn w') \<subseteq> Collect (model_connected bs)" by (rule subset_trans)
    then show ?thesis ..
  qed
  from stops show ?thesis
  proof (elim disjE conjE)
    assume k: "?k < length ds"
      and l: "lands {Disconnect (fst (slot_of (ds ! ?k))) (snd (slot_of (ds ! ?k)))} (slot_of ` set ds - slot_of ` set (take ?k ds)) (flight w3) (conn w3)"
    note l = lands_trans [OF l l1]
    show ?thesis
    proof (cases ?k)
      case 0
      then have F: "F = {Disconnect (fst (slot_of previous)) (snd (slot_of previous))} \<and> C = conn w \<or> F = {} \<and> (C = conn w \<or> C = conn w - {slot_of previous})"
        using l ds w by (simp add: lands_single)
      then have "landed F C \<subseteq> {conn w, conn w - {slot_of previous}}" by (auto simp: landed_one)
      moreover have "F = {}" if "cs_active_state t = AB_Disconnected"
        using F that shown_model [OF tC] w ds prev by (auto simp: model_connected_def)
      ultimately show ?thesis
        using restored kept settles_gave_up [of o1 t] t 0 by (cases "cs_active_state t = AB_Disconnected") auto
    next
      case (Suc j)
      then have "ds ! ?k = cs_strays s ! j" "j < length (cs_strays s)" using ds k by auto
      then have "slot_of (ds ! ?k) \<in> slot_of ` set (cs_strays s)" by simp
      moreover have "slot_of previous \<in> slot_of ` set bs" using prev by simp
      ultimately have stray: "slot_of (ds ! ?k) \<noteq> slot_of previous" using strays by (metis disjoint_iff)
      have "slot_of ` set ds - slot_of ` set (take ?k ds) \<subseteq> slot_of ` set (cs_strays s)" using Suc ds by auto
      then have "C \<subseteq> slot_of ` set (cs_strays s)" using l by (auto simp: lands_single)
      then have "\<not> model_connected bs C" using strays by (auto simp: model_connected_def)
      then have "cs_active_state t = AB_Disconnected" using shown_model [OF tC] by simp
      moreover have "Disconnect (fst (slot_of previous)) (snd (slot_of previous)) \<notin> F"
        using l stray by (auto simp: lands_single prod_eq_iff)
      ultimately show ?thesis by (rule restored)
    qed
  next
    assume "lands {Connect (fst (slot_of b)) (snd (slot_of b))} {} (flight w3) (conn w3)"
    then have F: "F \<subseteq> {Connect (fst (slot_of b)) (snd (slot_of b))} \<and> (C = {} \<or> F = {} \<and> C = {slot_of b})"
      using lands_trans [OF _ l1] by (fastforce simp: lands_single)
    show ?thesis
    proof (cases "cs_active_state t = AB_Disconnected")
      case True
      then show ?thesis by (rule restored) (use F in auto)
    next
      case False
      then have "C \<noteq> {}" using shown_model [OF tC] by (auto simp: model_connected_def)
      with F have "landed F C = {{slot_of b}}" by simp
      with kept [OF False] show ?thesis by (intro switched) simp
    qed
  next
    assume "flight w3 = {}" "conn w3 = {slot_of b}"
    with l1 have F: "F = {}" "C = {slot_of b}" by simp_all
    then have "model_connected bs C" using b by (auto simp: model_connected_def)
    then have "cs_active_state t \<noteq> AB_Disconnected" using shown_model [OF tC] by simp
    from kept [OF this] F show ?thesis by (intro switched) simp
  qed
qed


text \<open>
  A snapd whose connects are denied, over whether the first model is connected and the changes
  in progress. When it is \<open>late\<close>, a disconnection is still in progress when the client stops waiting.
\<close>

definition denying_snapd :: "bool \<Rightarrow> (bool \<times> interface_action set) snapd" where
  "denying_snapd late = \<lparr>sd_apply = (\<lambda>n a (c, F). case a of
        Connect s t \<Rightarrow> (Inl SC_Cancelled, (c, F))
      | Disconnect s t \<Rightarrow> if late then (Inl SC_Cancelled, (c, insert a F)) else (Inr (), (c \<and> (s, t) \<noteq> slot_of parakeet_backend, F))),
     sd_restart = (\<lambda>w. (Inr (), w))\<rparr>"

definition first_slots :: "bool \<times> interface_action set \<Rightarrow> (ustr \<times> ustr) set" where
  "first_slots w = (if fst w then {slot_of parakeet_backend} else {})"

definition denying_ports :: "bool \<Rightarrow> (bool \<times> interface_action set) ports" where
  "denying_ports late = \<lparr>pt_refresh = (\<lambda>w. (Inr (if fst w then two_models else two_models\<lparr>cs_active_state := AB_Disconnected\<rparr>), w)),
     pt_changes = (\<lambda>w. (Inr [], w)), pt_switch = (\<lambda>cancelled p. execute_backend_switch (denying_snapd late) cancelled p),
     pt_restart = (\<lambda>w. (Inr (), w))\<rparr>"

lemma lands_insert_undone: "lands (insert a F) C F C"
proof (cases "a \<in> F")
  case False
  then show ?thesis using lands_undone [OF lands_refl, of a "insert a F" C] by simp
qed (simp add: insert_absorb)

lemma denying_faithful: "snapd_faithful (denying_snapd late) first_slots snd"
proof -
  have "first_slots w' = act_effect a (first_slots w) \<and> snd w' = snd w" if "sd_apply (denying_snapd late) n a w = (Inr (), w')" for n a w w'
    using that by (cases w) (auto simp: denying_snapd_def first_slots_def split: interface_action.splits if_splits)
  then have "\<exists>F C. lands (snd w) (first_slots w) F C \<and> lands F (act_effect a C) (snd w') (first_slots w')"
    if "sd_apply (denying_snapd late) n a w = (Inr (), w')" for n a w w'
    using that by (intro exI [of _ "snd w"] exI [of _ "first_slots w"]) simp
  moreover have "lands (insert a (snd w)) (first_slots w) (snd w') (first_slots w')" if "sd_apply (denying_snapd late) n a w = (Inl e, w')"
    for n a w e w'
    using that by (cases w) (auto simp: denying_snapd_def first_slots_def lands_insert_undone split: interface_action.splits if_splits)
  moreover have "lands (snd w) (first_slots w) (snd w') (first_slots w')" if "sd_restart (denying_snapd late) w = (r, w')" for w r w'
    using that by (simp add: denying_snapd_def)
  ultimately show ?thesis unfolding snapd_faithful_def by blast
qed

lemma denying_truthful: "truthful_ports (denying_snapd late) first_slots snd [parakeet_backend, whisper_backend] (denying_ports late)"
proof -
  have "shows_connections [parakeet_backend, whisper_backend] (first_slots w) (if fst w then two_models else two_models\<lparr>cs_active_state := AB_Disconnected\<rparr>)"
    for w
    using example_names by (simp add: shows_connections_def first_slots_def two_models_def connected_backends_def active_state_of_def)
  then have "\<exists>s F C. fst (pt_refresh (denying_ports late) w) = Inr s \<and> lands (snd w) (first_slots w) F C
      \<and> shows_connections [parakeet_backend, whisper_backend] C s \<and> lands F C (snd w) (first_slots w)" for w
    by (intro exI [of _ "if fst w then two_models else two_models\<lparr>cs_active_state := AB_Disconnected\<rparr>"] exI [of _ "snd w"]
        exI [of _ "first_slots w"] conjI) (simp_all only: denying_ports_def ports.simps fst_conv lands_refl)
  then show ?thesis using denying_faithful by (simp add: truthful_ports_def denying_ports_def)
qed


text \<open>
  The exception is real: a user who cancels while snapd carries out the first disconnection is
  told nothing, the outcome shows the previous model still connected, and once the change has
  ended no model is.
\<close>

lemma late_disconnect_loses_model:
  "\<exists>p w'. switch_plan_new two_models whisper_backend = Inr p
     \<and> execute_switch (denying_ports True) (\<lambda>w. snd w \<noteq> {}) p (True, {}) = (SO_Cancelled [] (Some two_models) None, w')
     \<and> outcome_notice (SO_Cancelled [] (Some two_models) None) = SN_None
     \<and> {} \<in> landed (snd w') (first_slots w')"
proof -
  have s: "cs_backends two_models = [parakeet_backend, whisper_backend]" "connected_backends two_models = [parakeet_backend]"
    "cs_strays two_models = []" "cs_active_state two_models = AB_Connected parakeet_backend"
    by (simp_all add: two_models_def connected_backends_def)
  obtain p where p: "switch_plan_new two_models whisper_backend = Inr p" by (simp add: switch_plan_new_def s Let_def)
  note q = plan_selected_backend [OF p]
  have "validate_switch_plan p = Inr (switch_steps two_models whisper_backend)" using switch_plan_steps [OF p] example_names s by simp
  then have "execute_backend_switch (denying_snapd True) (\<lambda>w. snd w \<noteq> {}) p (True, {})
      = (Inl \<lparr>cf_completed = [], cf_error = SC_Cancelled\<rparr>, (True, {Disconnect (bi_snap_name parakeet_backend) (bi_slot_name parakeet_backend)}))"
    using example_names by (simp add: execute_backend_switch_def switch_steps_def s interface_step_def denying_snapd_def)
  then have "execute_switch (denying_ports True) (\<lambda>w. snd w \<noteq> {}) p (True, {})
      = (SO_Cancelled [] (Some two_models) None, (True, {Disconnect (bi_snap_name parakeet_backend) (bi_slot_name parakeet_backend)}))"
    using q example_names s
    by (simp add: execute_switch_def denying_ports_def change_holding_def settle_after_refresh_def restore_lost_model_def lost_snapshot_def Let_def)
  then show ?thesis using p by (auto simp: landed_one first_slots_def slot_of_def)
qed

end
