(* ===== verification/Backend_Domain.thy ===== *)
theory Backend_Domain
  imports Active_Backend
begin

text \<open>
  What is known of one model's backend, \<open>client/myna-config/src/domain.rs\<close>, and how its settings
  are presented, \<open>presentation.rs\<close>. \<open>tr\<close> is the translation \<open>gettext\<close> looks up. A \<open>BTreeMap\<close> is
  the list of its entries in the order of their keys.
\<close>

section \<open>Ordered maps\<close>

fun btree_insert :: "'k::linorder \<Rightarrow> 'v \<Rightarrow> ('k \<times> 'v) list \<Rightarrow> ('k \<times> 'v) list" where
  "btree_insert k v [] = [(k, v)]"
| "btree_insert k v ((k', v') # m) =
     (if k < k' then (k, v) # (k', v') # m else if k = k' then (k, v) # m else (k', v') # btree_insert k v m)"

definition btree_remove :: "'k \<Rightarrow> ('k \<times> 'v) list \<Rightarrow> ('k \<times> 'v) list" where
  "btree_remove k m = filter (\<lambda>(k', _). k' \<noteq> k) m"

definition btree :: "('k::linorder \<times> 'v) list \<Rightarrow> bool" where
  "btree m \<longleftrightarrow> sorted_wrt (<) (map fst m)"

lemma btree_insert_keys: "set (map fst (btree_insert k v m)) = insert k (set (map fst m))"
  by (induction k v m rule: btree_insert.induct) auto

lemma btree_insert_btree: "btree m \<Longrightarrow> btree (btree_insert k v m)"
proof (induction k v m rule: btree_insert.induct)
  case (1 k v)
  then show ?case by (simp add: btree_def)
next
  case (2 k v k' v' m)
  then show ?case
    using btree_insert_keys [of k v m] by (auto simp: btree_def simp del: set_map)
qed

lemma btree_insert_map_of: "btree m \<Longrightarrow> map_of (btree_insert k v m) = (map_of m)(k \<mapsto> v)"
  by (induction k v m rule: btree_insert.induct) (auto simp: btree_def fun_eq_iff)

lemma btree_remove_map_of: "map_of (btree_remove k m) = (map_of m)(k := None)"
  by (induction m) (auto simp: btree_remove_def fun_eq_iff)

lemma btree_remove_btree: "btree m \<Longrightarrow> btree (btree_remove k m)"
  by (induction m) (auto simp: btree_def btree_remove_def)

lemma btree_distinct: "btree m \<Longrightarrow> distinct (map fst m)"
  by (simp add: btree_def strict_sorted_iff)

section \<open>Floating-point numbers\<close>

text \<open>
  An \<open>f64\<close> is its 64 bits. The settings compare them only with each other for equality and
  with zero, so those comparisons are written out on the bits.
\<close>

type_synonym f64 = u64

unbundle bit_operations_syntax

definition f64_exponent :: "f64 \<Rightarrow> u64" where
  "f64_exponent b = take_bit 11 (drop_bit 52 b)"

definition f64_is_finite :: "f64 \<Rightarrow> bool" where
  "f64_is_finite b \<longleftrightarrow> f64_exponent b \<noteq> 2047"

definition f64_is_nan :: "f64 \<Rightarrow> bool" where
  "f64_is_nan b \<longleftrightarrow> f64_exponent b = 2047 \<and> take_bit 52 b \<noteq> 0"

definition f64_is_zero :: "f64 \<Rightarrow> bool" where
  "f64_is_zero b \<longleftrightarrow> take_bit 63 b = 0"

definition f64_eq :: "f64 \<Rightarrow> f64 \<Rightarrow> bool" where
  "f64_eq a b \<longleftrightarrow> \<not> f64_is_nan a \<and> \<not> f64_is_nan b \<and> (a = b \<or> f64_is_zero a \<and> f64_is_zero b)"

definition f64_positive :: "f64 \<Rightarrow> bool" where
  "f64_positive b \<longleftrightarrow> \<not> f64_is_nan b \<and> \<not> bit b 63 \<and> \<not> f64_is_zero b"

definition f64_non_negative :: "f64 \<Rightarrow> bool" where
  "f64_non_negative b \<longleftrightarrow> \<not> f64_is_nan b \<and> (\<not> bit b 63 \<or> f64_is_zero b)"

section \<open>Configuration values and snapshots\<close>

text \<open>An \<open>i64\<close> is never computed with here, only kept, compared and printed, so it is an \<open>int\<close>.\<close>

datatype config_value =
    CV_Null
  | CV_Boolean bool
  | CV_Integer int
  | CV_Number f64
  | CV_Text ustr

fun config_value_eq :: "config_value \<Rightarrow> config_value \<Rightarrow> bool" where
  "config_value_eq CV_Null CV_Null = True"
| "config_value_eq (CV_Boolean a) (CV_Boolean b) = (a = b)"
| "config_value_eq (CV_Integer a) (CV_Integer b) = (a = b)"
| "config_value_eq (CV_Number a) (CV_Number b) = f64_eq a b"
| "config_value_eq (CV_Text a) (CV_Text b) = (a = b)"
| "config_value_eq _ _ = False"

type_synonym backend_configuration = "(ustr \<times> config_value) list"

datatype service_state = Service_Active | Service_Inactive | Service_Failed | Service_Unknown ustr

record service_health =
  sh_name :: ustr
  sh_state :: service_state

definition service_is_active :: "service_health \<Rightarrow> bool" where
  "service_is_active s \<longleftrightarrow> sh_state s = Service_Active"

type_synonym backend_status = "service_health list"

record model_options =
  mo_active :: "ustr option"
  mo_options :: "ustr list"

record engine_option =
  eo_name :: ustr
  eo_compatible :: bool

record engine_options =
  en_active :: "ustr option"
  en_options :: "engine_option list"

record backend_snapshot =
  sn_identity :: backend_identity
  sn_configuration :: backend_configuration
  sn_status :: "backend_status option"
  sn_models :: "model_options option"
  sn_engines :: "engine_options option"
  sn_errors :: "backend_surface \<rightharpoonup> backend_surface_error"

definition snapshot_empty :: "backend_identity \<Rightarrow> backend_snapshot" where
  "snapshot_empty b = \<lparr>sn_identity = b, sn_configuration = [], sn_status = None, sn_models = None, sn_engines = None, sn_errors = Map.empty\<rparr>"

definition add_error :: "backend_surface_error \<Rightarrow> backend_snapshot \<Rightarrow> backend_snapshot" where
  "add_error e s = s\<lparr>sn_errors := (sn_errors s)(be_surface e \<mapsto> e)\<rparr>"

definition snapshot_value :: "backend_snapshot \<Rightarrow> ustr \<Rightarrow> config_value option" where
  "snapshot_value s key =
     (if key = lit ''model'' then map_option CV_Text (Option.bind (sn_models s) mo_active)
      else if key = lit ''engine'' then map_option CV_Text (Option.bind (sn_engines s) en_active)
      else map_of (sn_configuration s) key)"

definition surfaces :: "backend_surface list" where
  "surfaces = [BS_SnapInventory, BS_Connections, BS_ModelctlApp, BS_ModelctlConfig, BS_Status, BS_Models, BS_Engines]"

definition snapshot_errors :: "backend_snapshot \<Rightarrow> backend_surface_error list" where
  "snapshot_errors s = List.map_filter (sn_errors s) surfaces"

record staged_change =
  sg_key :: ustr
  sg_proposed :: config_value

definition staged_change_new :: "ustr \<Rightarrow> config_value \<Rightarrow> config_value \<Rightarrow> ustr + staged_change" where
  "staged_change_new key original proposed =
     (if trim key = [] then Inl (lit ''configuration key is empty'')
      else if config_value_eq original proposed then Inl (lit ''staged value is unchanged'')
      else Inr \<lparr>sg_key = key, sg_proposed = proposed\<rparr>)"

section \<open>How settings are presented\<close>

datatype control_type = CT_Toggle | CT_Number | CT_Text | CT_Choice | CT_ReadOnly

datatype validation =
    VA_Any
  | VA_Boolean
  | VA_Number
  | VA_Text
  | VA_PositiveNumber
  | VA_NonNegativeNumber
  | VA_NonNegativeInteger
  | VA_Choices "ustr list"
  | VA_ReadOnly

text \<open>
  \<open>numeric_value\<close> and the comparisons made with its result: an \<open>i64\<close> converted to \<open>f64\<close> keeps
  its sign and is zero only when it is.
\<close>

fun numeric_value_is :: "(int \<Rightarrow> bool) \<Rightarrow> (f64 \<Rightarrow> bool) \<Rightarrow> config_value \<Rightarrow> bool" where
  "numeric_value_is pi pf (CV_Integer i) = pi i"
| "numeric_value_is pi pf (CV_Number b) = (f64_is_finite b \<and> pf b)"
| "numeric_value_is pi pf _ = False"

fun validates :: "validation \<Rightarrow> config_value \<Rightarrow> bool" where
  "validates VA_Any v = True"
| "validates VA_Boolean v = (case v of CV_Boolean _ \<Rightarrow> True | _ \<Rightarrow> False)"
| "validates VA_Number v = numeric_value_is (\<lambda>_. True) (\<lambda>_. True) v"
| "validates VA_Text v = (case v of CV_Text _ \<Rightarrow> True | _ \<Rightarrow> False)"
| "validates VA_PositiveNumber v = numeric_value_is (\<lambda>i. 0 < i) f64_positive v"
| "validates VA_NonNegativeNumber v = numeric_value_is (\<lambda>i. 0 \<le> i) f64_non_negative v"
| "validates VA_NonNegativeInteger v = (case v of CV_Integer i \<Rightarrow> 0 \<le> i | _ \<Rightarrow> False)"
| "validates (VA_Choices choices) v = (case v of CV_Text c \<Rightarrow> c \<in> set choices | _ \<Rightarrow> False)"
| "validates VA_ReadOnly v = False"

fun replace_all :: "nat \<Rightarrow> ustr \<Rightarrow> ustr \<Rightarrow> ustr \<Rightarrow> ustr" where
  "replace_all 0 p r s = s"
| "replace_all (Suc n) p r s = (case split_once_str p s of None \<Rightarrow> s | Some (a, b) \<Rightarrow> a @ r @ replace_all n p r b)"

fun validation_message :: "(ustr \<Rightarrow> ustr) \<Rightarrow> validation \<Rightarrow> ustr" where
  "validation_message tr VA_Any = tr (lit ''value is invalid'')"
| "validation_message tr VA_Boolean = tr (lit ''value must be true or false'')"
| "validation_message tr VA_Number = tr (lit ''value must be a number'')"
| "validation_message tr VA_Text = tr (lit ''value must be text'')"
| "validation_message tr VA_PositiveNumber = tr (lit ''value must be a positive number'')"
| "validation_message tr VA_NonNegativeNumber = tr (lit ''value must be zero or a positive number'')"
| "validation_message tr VA_NonNegativeInteger = tr (lit ''value must be a non-negative whole number'')"
| "validation_message tr (VA_Choices choices) =
     (let frame = tr (lit ''value must be one of {choices}'')
      in replace_all (Suc (length frame)) (lit ''{choices}'') (join (lit '', '') choices) frame)"
| "validation_message tr VA_ReadOnly = tr (lit ''this value cannot be edited'')"

definition validate :: "(ustr \<Rightarrow> ustr) \<Rightarrow> validation \<Rightarrow> config_value \<Rightarrow> ustr + unit" where
  "validate tr va v = (if validates va v then Inr () else Inl (validation_message tr va))"

datatype presentation_group = PG_General | PG_Runtime | PG_Advanced | PG_Sensitive

fun group_index :: "presentation_group \<Rightarrow> nat" where
  "group_index PG_General = 0"
| "group_index PG_Runtime = 1"
| "group_index PG_Advanced = 2"
| "group_index PG_Sensitive = 3"

datatype sensitivity = SV_UserFacing | SV_Internal | SV_Sensitive

record presentation_metadata =
  pm_title :: ustr
  pm_explanation :: ustr
  pm_control :: control_type
  pm_validation :: validation
  pm_group :: presentation_group
  pm_sensitivity :: sensitivity
  pm_order :: nat

record presentation_row =
  rw_key :: ustr
  rw_value :: config_value
  rw_choices :: "ustr list"
  rw_metadata :: presentation_metadata

definition known :: "ustr \<Rightarrow> ustr \<Rightarrow> control_type \<Rightarrow> validation \<Rightarrow> presentation_group \<Rightarrow> sensitivity \<Rightarrow> nat \<Rightarrow> presentation_metadata" where
  "known title explanation control va g sens ord =
     \<lparr>pm_title = title, pm_explanation = explanation, pm_control = control, pm_validation = va, pm_group = g,
      pm_sensitivity = sens, pm_order = ord\<rparr>"

definition seconds :: "ustr \<Rightarrow> ustr \<Rightarrow> validation \<Rightarrow> nat \<Rightarrow> presentation_metadata" where
  "seconds title explanation va ord = known title explanation CT_Number va PG_Advanced SV_UserFacing ord"

text \<open>The words of a key: a capital after the first character starts one, as do dots, hyphens and underscores.\<close>

definition to_ascii_lowercase :: "uchar \<Rightarrow> uchar" where
  "to_ascii_lowercase c = (if is_ascii_uppercase c then c + 32 else c)"

definition normalized_key :: "ustr \<Rightarrow> ustr" where
  "normalized_key key =
     concat (map (\<lambda>(i, c). (if 0 < i \<and> is_ascii_uppercase c then [46] else []) @ [to_ascii_lowercase c]) (enumerate 0 key))"

definition is_sensitive_key :: "ustr \<Rightarrow> bool" where
  "is_sensitive_key key =
     (let segments = split_p (\<lambda>c. c \<in> {46, 45, 95}) (normalized_key key)
      in list_ex (\<lambda>w. w \<in> {lit ''credential'', lit ''credentials'', lit ''password'', lit ''secret'', lit ''token''}) segments
         \<or> list_ex (\<lambda>(a, b). b = lit ''key''
              \<and> a \<in> {lit ''access'', lit ''api'', lit ''encryption'', lit ''private'', lit ''signing'', lit ''ssh''})
            (zip segments (tl segments)))"

fun fallback_control :: "config_value \<Rightarrow> control_type \<times> validation" where
  "fallback_control (CV_Boolean _) = (CT_Toggle, VA_Boolean)"
| "fallback_control (CV_Integer _) = (CT_Number, VA_Number)"
| "fallback_control (CV_Number _) = (CT_Number, VA_Number)"
| "fallback_control (CV_Text _) = (CT_Text, VA_Text)"
| "fallback_control CV_Null = (CT_ReadOnly, VA_ReadOnly)"

definition fallback :: "(ustr \<Rightarrow> ustr) \<Rightarrow> ustr \<Rightarrow> config_value \<Rightarrow> presentation_metadata" where
  "fallback tr key v =
     (let sensitive = is_sensitive_key key;
          (control, va) = (if sensitive then (CT_ReadOnly, VA_ReadOnly) else fallback_control v)
      in \<lparr>pm_title = key, pm_explanation = tr (lit ''This model provides no description for this setting.''),
          pm_control = control, pm_validation = va,
          pm_group = (if sensitive then PG_Sensitive else PG_Advanced),
          pm_sensitivity = (if sensitive then SV_Sensitive else SV_UserFacing),
          pm_order = 65535\<rparr>)"

definition metadata_for :: "(ustr \<Rightarrow> ustr) \<Rightarrow> ustr \<Rightarrow> config_value \<Rightarrow> presentation_metadata" where
  "metadata_for tr key v =
     (if key = lit ''model'' then
        known (tr (lit ''Model'')) (tr (lit ''Which version of this model to run.'')) CT_Choice VA_Any PG_General SV_UserFacing 0
      else if key = lit ''engine'' then
        known (tr (lit ''Engine'')) (tr (lit ''The inference engine this model runs on.'')) CT_Choice VA_Any PG_General SV_UserFacing 1
      else if key = lit ''streaming'' then
        known (tr (lit ''Streaming output'')) (tr (lit ''Emit partial transcription results while speech is being processed.''))
          CT_Toggle VA_Boolean PG_General SV_UserFacing 10
      else if key = lit ''sleep-idle-seconds'' then
        known (tr (lit ''Unload when idle (seconds)''))
          (tr (lit ''Unload the inference service after this many idle seconds; zero disables the delay.''))
          CT_Number VA_NonNegativeInteger PG_Runtime SV_UserFacing 20
      else if key = lit ''verbose'' then
        known (tr (lit ''Verbose logging'')) (tr (lit ''Write additional diagnostics to the system log.''))
          CT_Toggle VA_Boolean PG_Advanced SV_Internal 100
      else if key = lit ''ws.unix-socket'' then
        known (tr (lit ''Socket path'')) (tr (lit ''Raw Unix socket path used by the transcription service.''))
          CT_Text VA_Text PG_Advanced SV_Internal 101
      else if key = lit ''stream-arm-seconds'' then
        seconds (tr (lit ''Minimum speech before pause commit (seconds)''))
          (tr (lit ''Speech required before a pause can commit a transcript chunk.'')) VA_PositiveNumber 110
      else if key = lit ''stream-silence-cut-seconds'' then
        seconds (tr (lit ''Pause length for commit (seconds)''))
          (tr (lit ''Silence duration that commits the current transcript chunk.'')) VA_PositiveNumber 111
      else if key = lit ''stream-force-cut-seconds'' then
        seconds (tr (lit ''Maximum uncommitted audio (seconds)''))
          (tr (lit ''Maximum speech window retained before a transcript chunk is forced to commit.'')) VA_PositiveNumber 112
      else if key = lit ''stream-partial-cadence-seconds'' then
        seconds (tr (lit ''Partial result interval (seconds)''))
          (tr (lit ''Interval between unstable partial results; zero disables partial results.'')) VA_NonNegativeNumber 113
      else if key = lit ''stream-partial-tail-seconds'' then
        seconds (tr (lit ''Partial result audio window (seconds)''))
          (tr (lit ''Recent uncommitted audio used for partial results; zero uses the whole window.'')) VA_NonNegativeNumber 114
      else if key = lit ''compute-type'' then
        known (tr (lit ''Compute type''))
          (tr (lit ''Runtime numeric format override. Leave the model's own value unchanged unless required.''))
          CT_Text VA_Text PG_Advanced SV_UserFacing 120
      else if key = lit ''att-context-size'' then
        known (tr (lit ''Attention context size''))
          (tr (lit ''Model-specific latency and accuracy context. Empty uses the engine default.''))
          CT_Text VA_Text PG_Advanced SV_UserFacing 121
      else fallback tr key v)"

definition selector_row :: "(ustr \<Rightarrow> ustr) \<Rightarrow> ustr \<Rightarrow> ustr option \<Rightarrow> ustr list \<Rightarrow> presentation_row list" where
  "selector_row tr key active choices =
     (if choices = [] then []
      else [\<lparr>rw_key = key, rw_value = (case active of Some a \<Rightarrow> CV_Text a | None \<Rightarrow> CV_Null), rw_choices = choices,
             rw_metadata = (metadata_for tr key CV_Null)\<lparr>pm_validation := VA_Choices choices\<rparr>\<rparr>])"

definition engine_choices :: "engine_options \<Rightarrow> ustr list" where
  "engine_choices e = map eo_name (filter (\<lambda>o'. eo_compatible o' \<or> Some (eo_name o') = en_active e) (en_options e))"

definition present_configuration :: "(ustr \<Rightarrow> ustr) \<Rightarrow> backend_configuration \<Rightarrow> model_options option \<Rightarrow> engine_options option \<Rightarrow> presentation_row list" where
  "present_configuration tr conf models engines =
     sort_key (\<lambda>r. (group_index (pm_group (rw_metadata r)), pm_order (rw_metadata r), rw_key r))
       ((case models of Some m \<Rightarrow> selector_row tr (lit ''model'') (mo_active m) (mo_options m) | None \<Rightarrow> [])
        @ (case engines of Some e \<Rightarrow> selector_row tr (lit ''engine'') (en_active e) (engine_choices e) | None \<Rightarrow> [])
        @ map (\<lambda>(key, v). \<lparr>rw_key = key, rw_value = v, rw_choices = [], rw_metadata = metadata_for tr key v\<rparr>) conf)"

section \<open>Secrets are not editable\<close>

definition known_keys :: "ustr list" where
  "known_keys = map lit [''model'', ''engine'', ''streaming'', ''sleep-idle-seconds'', ''verbose'', ''ws.unix-socket'',
     ''stream-arm-seconds'', ''stream-silence-cut-seconds'', ''stream-force-cut-seconds'', ''stream-partial-cadence-seconds'',
     ''stream-partial-tail-seconds'', ''compute-type'', ''att-context-size'']"

lemma known_keys_not_sensitive: "list_all (\<lambda>k. \<not> is_sensitive_key k) known_keys"
  by code_simp

lemma metadata_for_unknown: "key \<notin> set known_keys \<Longrightarrow> metadata_for tr key v = fallback tr key v"
  by (simp add: known_keys_def metadata_for_def)

lemma sensitive_read_only:
  assumes "is_sensitive_key key"
  shows "pm_validation (metadata_for tr key v) = VA_ReadOnly" and "pm_group (metadata_for tr key v) = PG_Sensitive"
proof -
  have "key \<notin> set known_keys" using assms known_keys_not_sensitive by (auto simp: list_all_iff)
  then show "pm_validation (metadata_for tr key v) = VA_ReadOnly" "pm_group (metadata_for tr key v) = PG_Sensitive"
    using assms by (simp_all add: metadata_for_unknown fallback_def Let_def)
qed

lemma present_configuration_rows:
  assumes "r \<in> set (present_configuration tr conf models engines)"
  shows "(\<exists>m. models = Some m \<and> rw_key r = lit ''model'' \<and> pm_validation (rw_metadata r) = VA_Choices (mo_options m))
      \<or> (\<exists>e. engines = Some e \<and> rw_key r = lit ''engine'' \<and> pm_validation (rw_metadata r) = VA_Choices (engine_choices e))
      \<or> (rw_key r, rw_value r) \<in> set conf \<and> rw_metadata r = metadata_for tr (rw_key r) (rw_value r)"
  using assms by (auto simp: present_configuration_def selector_row_def split: option.splits if_splits)

end
