(* ===== verification/Backend_Controller.thy ===== *)
theory Backend_Controller
  imports Backend_Domain
begin

text \<open>
  The presenter of the backend pages, \<open>client/myna-config/src/backend_controller.rs\<close>: which
  models were discovered, what was read of each, and which requests are in flight. An
  \<open>Instant\<close> is a number of milliseconds; the cancellation flags are the store of
  \<open>Operation_Gate\<close>. The observers are called with the events each operation returns.
\<close>

section \<open>State\<close>

datatype connection_kind = CK_Disconnected | CK_Active | CK_Contested

record page_entry =
  pe_identity :: backend_identity
  pe_connection :: connection_kind
  pe_snapshot :: "backend_snapshot option"
  pe_snapshot_generation :: u64
  pe_latest_completed_snapshot :: u64
  pe_inflight_token :: "cancellation_token option"
  pe_loading :: bool

record backend_controller =
  bc_pages :: "(ustr \<times> page_entry) list"
  bc_order :: "ustr list"
  bc_active :: active_backend_state
  bc_discovery_generation :: u64
  bc_latest_completed_discovery :: u64
  bc_discovery_token :: "cancellation_token option"
  bc_discovery_loading :: bool
  bc_last_discovery_started :: "nat option"
  bc_last_discovery_error :: "backend_surface_error option"
  bc_flags :: cancellation_store

definition controller_default :: backend_controller where
  "controller_default = \<lparr>bc_pages = [], bc_order = [], bc_active = AB_Disconnected, bc_discovery_generation = 0,
     bc_latest_completed_discovery = 0, bc_discovery_token = None, bc_discovery_loading = False,
     bc_last_discovery_started = None, bc_last_discovery_error = None, bc_flags = []\<rparr>"

datatype controller_event =
    EV_DiscoveryStarted
  | EV_DiscoveryChanged
  | EV_DiscoveryFailed backend_surface_error
  | EV_BackendChanged backend_identity

definition FOCUS_REDISCOVERY_INTERVAL :: nat where "FOCUS_REDISCOVERY_INTERVAL = 2000"

record discovery_request =
  dr_generation :: u64
  dr_token :: cancellation_token
  dr_quiet :: bool

record snapshot_request =
  sq_snap :: ustr
  sq_generation :: u64
  sq_token :: cancellation_token

text \<open>\<open>if let Some(token) = slot.take() { token.cancel() }\<close>, on the flags.\<close>

definition cancel_taken :: "cancellation_token option \<Rightarrow> cancellation_store \<Rightarrow> cancellation_store" where
  "cancel_taken t st = (case t of Some c \<Rightarrow> cancellation_cancel c st | None \<Rightarrow> st)"

section \<open>Discovery\<close>

definition inner_begin_discovery :: "nat \<Rightarrow> bool \<Rightarrow> backend_controller \<Rightarrow> backend_controller \<times> discovery_request" where
  "inner_begin_discovery now quiet c =
     (let (flags, t) = cancellation_new (cancel_taken (bc_discovery_token c) (bc_flags c));
          g = bc_discovery_generation c + 1
      in (c\<lparr>bc_flags := flags, bc_discovery_generation := g, bc_discovery_loading := \<not> quiet,
            bc_last_discovery_started := Some now, bc_discovery_token := Some t\<rparr>,
          \<lparr>dr_generation = g, dr_token = t, dr_quiet = quiet\<rparr>))"

definition begin_discovery :: "nat \<Rightarrow> backend_controller \<Rightarrow> backend_controller \<times> discovery_request \<times> controller_event list" where
  "begin_discovery now c = (let (c', r) = inner_begin_discovery now False c in (c', r, [EV_DiscoveryStarted]))"

definition begin_focus_discovery :: "nat \<Rightarrow> backend_controller \<Rightarrow> (backend_controller \<times> discovery_request) option" where
  "begin_focus_discovery now c =
     (let recent = (case bc_last_discovery_started c of Some started \<Rightarrow> now - started < FOCUS_REDISCOVERY_INTERVAL | None \<Rightarrow> False)
      in if bc_discovery_token c \<noteq> None \<or> recent then None else Some (inner_begin_discovery now True c))"

definition new_page :: "backend_identity \<Rightarrow> page_entry" where
  "new_page b = \<lparr>pe_identity = b, pe_connection = CK_Disconnected, pe_snapshot = None, pe_snapshot_generation = 0,
     pe_latest_completed_snapshot = 0, pe_inflight_token = None, pe_loading = False\<rparr>"

fun remove_pages :: "ustr list \<Rightarrow> (ustr \<times> page_entry) list \<Rightarrow> cancellation_store \<Rightarrow> (ustr \<times> page_entry) list \<times> cancellation_store" where
  "remove_pages [] ps st = (ps, st)"
| "remove_pages (snap # snaps) ps st =
     (case map_of ps snap of
        Some e \<Rightarrow> remove_pages snaps (btree_remove snap ps) (cancel_taken (pe_inflight_token e) st)
      | None \<Rightarrow> remove_pages snaps ps st)"

definition add_page :: "backend_identity \<Rightarrow> (ustr \<times> page_entry) list \<Rightarrow> (ustr \<times> page_entry) list \<times> bool \<times> controller_event list" where
  "add_page b ps =
     (let name = bi_snap_name b in
      case map_of ps name of
        None \<Rightarrow> (btree_insert name (new_page b) ps, True, [])
      | Some e \<Rightarrow>
          if pe_identity e \<noteq> b then (btree_insert name (e\<lparr>pe_identity := b\<rparr>) ps, True, [EV_BackendChanged b])
          else (ps, False, []))"

fun add_pages :: "backend_identity list \<Rightarrow> (ustr \<times> page_entry) list \<Rightarrow> (ustr \<times> page_entry) list \<times> bool \<times> controller_event list" where
  "add_pages [] ps = (ps, False, [])"
| "add_pages (b # bs) ps =
     (let (ps', changed, events) = add_page b ps; (ps'', changed', events') = add_pages bs ps'
      in (ps'', changed \<or> changed', events @ events'))"

definition connection_kind_of :: "active_backend_state \<Rightarrow> ustr \<Rightarrow> connection_kind" where
  "connection_kind_of active name =
     (if name \<in> set (map bi_snap_name (connected_of active))
      then (case active of AB_MultiplyConnected _ \<Rightarrow> CK_Contested | _ \<Rightarrow> CK_Active)
      else CK_Disconnected)"

definition reconnect_pages :: "active_backend_state \<Rightarrow> (ustr \<times> page_entry) list \<Rightarrow> (ustr \<times> page_entry) list \<times> controller_event list" where
  "reconnect_pages active ps =
     (map (\<lambda>(name, e). (name, e\<lparr>pe_connection := connection_kind_of active name\<rparr>)) ps,
      map (\<lambda>(name, e). EV_BackendChanged (pe_identity e)) (filter (\<lambda>(name, e). connection_kind_of active name \<noteq> pe_connection e) ps))"

definition apply_discovery :: "connection_snapshot \<Rightarrow> backend_controller \<Rightarrow> backend_controller \<times> controller_event list" where
  "apply_discovery snapshot c =
     (let names = map bi_snap_name (cs_backends snapshot);
          removed = filter (\<lambda>n. n \<notin> set names) (bc_order c);
          (ps, flags) = remove_pages removed (bc_pages c) (bc_flags c);
          (ps, changed, events) = add_pages (cs_backends snapshot) ps;
          (ps, events') = reconnect_pages (cs_active_state snapshot) ps;
          structure_changed = (removed \<noteq> [] \<or> changed \<or> events' \<noteq> [])
      in (c\<lparr>bc_pages := ps, bc_order := names, bc_active := cs_active_state snapshot, bc_flags := flags\<rparr>,
          events @ events' @ (if structure_changed then [EV_DiscoveryChanged] else [])))"

definition complete_discovery :: "discovery_request \<Rightarrow> backend_surface_error + connection_snapshot \<Rightarrow> backend_controller
    \<Rightarrow> backend_controller \<times> bool \<times> controller_event list" where
  "complete_discovery r result c =
     (if dr_generation r \<le> bc_latest_completed_discovery c \<or> dr_generation r \<noteq> bc_discovery_generation c then (c, False, [])
      else
        let c = c\<lparr>bc_latest_completed_discovery := dr_generation r, bc_discovery_loading := False, bc_discovery_token := None\<rparr> in
        case result of
          Inr snapshot \<Rightarrow>
            (let recovered = (bc_last_discovery_error c \<noteq> None);
                 (c', events) = apply_discovery snapshot (c\<lparr>bc_last_discovery_error := None\<rparr>);
                 announce = (\<not> dr_quiet r \<or> recovered)
             in (c', True, if announce \<and> EV_DiscoveryChanged \<notin> set events then events @ [EV_DiscoveryChanged] else events))
        | Inl e \<Rightarrow>
            (c\<lparr>bc_last_discovery_error := Some e\<rparr>, True,
             if dr_quiet r \<and> bc_last_discovery_error c = Some e then [] else [EV_DiscoveryFailed e]))"

section \<open>Reading one backend\<close>

definition begin_snapshot :: "ustr \<Rightarrow> backend_controller \<Rightarrow> backend_controller \<times> snapshot_request option \<times> controller_event list" where
  "begin_snapshot snap c =
     (case map_of (bc_pages c) snap of
        None \<Rightarrow> (c, None, [])
      | Some e \<Rightarrow>
          (let (flags, t) = cancellation_new (cancel_taken (pe_inflight_token e) (bc_flags c));
               g = pe_snapshot_generation e + 1
           in (c\<lparr>bc_flags := flags,
                 bc_pages := btree_insert snap (e\<lparr>pe_snapshot_generation := g, pe_loading := True, pe_inflight_token := Some t\<rparr>) (bc_pages c)\<rparr>,
               Some \<lparr>sq_snap = snap, sq_generation = g, sq_token = t\<rparr>, [EV_BackendChanged (pe_identity e)])))"

definition complete_snapshot :: "snapshot_request \<Rightarrow> backend_snapshot \<Rightarrow> backend_controller \<Rightarrow> backend_controller \<times> controller_event list" where
  "complete_snapshot r snapshot c =
     (case map_of (bc_pages c) (sq_snap r) of
        None \<Rightarrow> (c, [])
      | Some e \<Rightarrow>
          if sq_generation r \<le> pe_latest_completed_snapshot e \<or> sq_generation r \<noteq> pe_snapshot_generation e then (c, [])
          else (c\<lparr>bc_pages := btree_insert (sq_snap r)
                  (e\<lparr>pe_latest_completed_snapshot := sq_generation r, pe_loading := False, pe_inflight_token := None,
                     pe_snapshot := Some snapshot\<rparr>) (bc_pages c)\<rparr>, [EV_BackendChanged (pe_identity e)]))"

definition apply_readback :: "ustr \<Rightarrow> backend_snapshot \<Rightarrow> backend_controller \<Rightarrow> backend_controller \<times> controller_event list" where
  "apply_readback snap snapshot c =
     (case map_of (bc_pages c) snap of
        None \<Rightarrow> (c, [])
      | Some e \<Rightarrow>
          (c\<lparr>bc_flags := cancel_taken (pe_inflight_token e) (bc_flags c),
             bc_pages := btree_insert snap (e\<lparr>pe_inflight_token := None, pe_loading := False, pe_snapshot := Some snapshot\<rparr>) (bc_pages c)\<rparr>,
           [EV_BackendChanged (pe_identity e)]))"

definition cancel_page :: "ustr \<Rightarrow> backend_controller \<Rightarrow> backend_controller" where
  "cancel_page snap c =
     (case map_of (bc_pages c) snap of
        None \<Rightarrow> c
      | Some e \<Rightarrow>
          c\<lparr>bc_flags := cancel_taken (pe_inflight_token e) (bc_flags c),
            bc_pages := btree_insert snap (e\<lparr>pe_inflight_token := None, pe_loading := False\<rparr>) (bc_pages c)\<rparr>)"

definition cancel_all :: "backend_controller \<Rightarrow> backend_controller" where
  "cancel_all c =
     c\<lparr>bc_flags := fold (\<lambda>(_, e). cancel_taken (pe_inflight_token e)) (bc_pages c) (cancel_taken (bc_discovery_token c) (bc_flags c)),
       bc_discovery_token := None, bc_discovery_loading := False,
       bc_pages := map (\<lambda>(n, e). (n, e\<lparr>pe_inflight_token := None, pe_loading := False\<rparr>)) (bc_pages c)\<rparr>"

section \<open>What the pages show\<close>

record backend_page =
  pg_identity :: backend_identity
  pg_connection :: connection_kind
  pg_loading :: bool
  pg_partial :: bool
  pg_snapshot :: "backend_snapshot option"
  pg_rows :: "presentation_row list"
  pg_errors :: "backend_surface_error list"

definition build_page :: "(ustr \<Rightarrow> ustr) \<Rightarrow> page_entry \<Rightarrow> backend_page" where
  "build_page tr e =
     \<lparr>pg_identity = pe_identity e, pg_connection = pe_connection e, pg_loading = pe_loading e,
      pg_partial = (case pe_snapshot e of Some s \<Rightarrow> snapshot_errors s \<noteq> [] | None \<Rightarrow> False),
      pg_snapshot = pe_snapshot e,
      pg_rows = (case pe_snapshot e of Some s \<Rightarrow> present_configuration tr (sn_configuration s) (sn_models s) (sn_engines s) | None \<Rightarrow> []),
      pg_errors = (case pe_snapshot e of Some s \<Rightarrow> snapshot_errors s | None \<Rightarrow> [])\<rparr>"

definition page :: "(ustr \<Rightarrow> ustr) \<Rightarrow> backend_controller \<Rightarrow> ustr \<Rightarrow> backend_page option" where
  "page tr c snap = map_option (build_page tr) (map_of (bc_pages c) snap)"

definition pages :: "(ustr \<Rightarrow> ustr) \<Rightarrow> backend_controller \<Rightarrow> backend_page list" where
  "pages tr c = List.map_filter (page tr c) (bc_order c)"

definition controller_connection_snapshot :: "backend_controller \<Rightarrow> connection_snapshot" where
  "controller_connection_snapshot c =
     \<lparr>cs_backends = List.map_filter (\<lambda>snap. map_option pe_identity (map_of (bc_pages c) snap)) (bc_order c),
      cs_active_state = bc_active c, cs_strays = []\<rparr>"

section \<open>Flags\<close>

lemma length_cancel_taken [simp]: "length (cancel_taken t st) = length st"
  by (simp add: cancel_taken_def cancellation_cancel_def split: option.split)

lemma nth_set_flag: "t < length st \<Longrightarrow> st[c := True] ! t \<longleftrightarrow> st ! t \<or> c = t"
  by (cases "c = t") auto

lemma is_cancelled_cancel_taken [simp]:
  "is_cancelled t (cancel_taken x st) \<longleftrightarrow> is_cancelled t st \<or> (x = Some t \<and> t < length st)"
  by (auto simp: cancel_taken_def cancellation_cancel_def is_cancelled_def nth_set_flag split: option.split)

lemma is_cancelled_new [simp]: "is_cancelled t (st @ [False]) \<longleftrightarrow> is_cancelled t st"
  by (auto simp: is_cancelled_def nth_append)

lemma is_cancelled_length: "is_cancelled t st \<Longrightarrow> t < length st"
  by (simp add: is_cancelled_def)

definition cancel_reads :: "(ustr \<times> page_entry) list \<Rightarrow> cancellation_store \<Rightarrow> cancellation_store" where
  "cancel_reads = fold (\<lambda>(_, e). cancel_taken (pe_inflight_token e))"

lemma length_cancel_reads [simp]: "length (cancel_reads ps st) = length st"
  unfolding cancel_reads_def by (induction ps arbitrary: st) auto

lemma is_cancelled_cancel_reads [simp]:
  "is_cancelled t (cancel_reads ps st) \<longleftrightarrow> is_cancelled t st \<or> (t < length st \<and> Some t \<in> pe_inflight_token ` snd ` set ps)"
proof (induction ps arbitrary: st)
  case Nil
  then show ?case by (simp add: cancel_reads_def)
next
  case (Cons p ps)
  have "cancel_reads (p # ps) st = cancel_reads ps (cancel_taken (pe_inflight_token (snd p)) st)"
    by (simp add: cancel_reads_def case_prod_beta)
  with Cons show ?case by auto
qed

section \<open>Discovery and the pages\<close>

definition pages_ok :: "backend_controller \<Rightarrow> bool" where
  "pages_ok c \<longleftrightarrow> btree (bc_pages c) \<and> set (map fst (bc_pages c)) = set (bc_order c)"

lemma remove_pages_btree: "btree ps \<Longrightarrow> btree (fst (remove_pages snaps ps st))"
  by (induction snaps ps st rule: remove_pages.induct) (auto simp: btree_remove_btree split: option.split)

lemma remove_pages_map_of: "map_of (fst (remove_pages snaps ps st)) n = (if n \<in> set snaps then None else map_of ps n)"
  by (induction snaps ps st rule: remove_pages.induct) (auto simp: btree_remove_map_of split: option.split)

lemma map_of_keys: "set (map fst ps) = dom (map_of ps)"
  by (simp add: dom_map_of_conv_image_fst)

definition updated_page :: "backend_identity \<Rightarrow> page_entry option \<Rightarrow> page_entry" where
  "updated_page b p = (case p of None \<Rightarrow> new_page b | Some e \<Rightarrow> e\<lparr>pe_identity := b\<rparr>)"

lemma add_page_btree: "btree ps \<Longrightarrow> btree (fst (add_page b ps))"
  by (simp add: add_page_def Let_def btree_insert_btree split: option.split)

lemma add_page_map_of:
  "btree ps \<Longrightarrow> map_of (fst (add_page b ps)) = (map_of ps)(bi_snap_name b \<mapsto> updated_page b (map_of ps (bi_snap_name b)))"
  by (auto simp: add_page_def Let_def btree_insert_map_of updated_page_def fun_eq_iff split: option.split)

lemma fst_add_pages: "fst (add_pages (b # bs) ps) = fst (add_pages bs (fst (add_page b ps)))"
  by (simp add: case_prod_beta)

lemma add_pages_btree: "btree ps \<Longrightarrow> btree (fst (add_pages bs ps))"
  by (induction bs arbitrary: ps) (simp_all add: fst_add_pages add_page_btree del: add_pages.simps(2))

lemma add_pages_map_of:
  assumes "btree ps" and "distinct (map bi_snap_name bs)"
  shows "map_of (fst (add_pages bs ps)) n =
    (case find (\<lambda>b. bi_snap_name b = n) bs of Some b \<Rightarrow> Some (updated_page b (map_of ps n)) | None \<Rightarrow> map_of ps n)"
  using assms
proof (induction bs arbitrary: ps)
  case Nil
  then show ?case by simp
next
  case (Cons b bs)
  have "find (\<lambda>b. bi_snap_name b = n) bs = None" if "bi_snap_name b = n"
    using that Cons.prems(2) unfolding find_None_iff by (metis distinct.simps(2) image_eqI list.set_map list.simps(9))
  with Cons.IH [OF add_page_btree [OF Cons.prems(1)]] Cons.prems show ?case
    by (auto simp: fst_add_pages add_page_map_of simp del: add_pages.simps(2) split: option.split)
qed

lemma add_pages_keys: "btree ps \<Longrightarrow> dom (map_of (fst (add_pages bs ps))) = dom (map_of ps) \<union> set (map bi_snap_name bs)"
  by (induction bs arbitrary: ps) (auto simp: fst_add_pages add_page_map_of add_page_btree simp del: add_pages.simps(2))

lemma reconnect_pages_map_of:
  "map_of (fst (reconnect_pages active ps)) n = map_option (\<lambda>e. e\<lparr>pe_connection := connection_kind_of active n\<rparr>) (map_of ps n)"
  by (induction ps) (auto simp: reconnect_pages_def)

lemma reconnect_pages_btree: "btree ps \<Longrightarrow> btree (fst (reconnect_pages active ps))"
  by (simp add: btree_def reconnect_pages_def comp_def case_prod_beta)

lemma apply_discovery_pages:
  "bc_pages (fst (apply_discovery s c)) = fst (reconnect_pages (cs_active_state s) (fst (add_pages (cs_backends s)
     (fst (remove_pages (filter (\<lambda>n. n \<notin> bi_snap_name ` set (cs_backends s)) (bc_order c)) (bc_pages c) (bc_flags c))))))"
  by (simp add: apply_discovery_def Let_def case_prod_beta)

lemma apply_discovery_fields:
  "bc_order (fst (apply_discovery s c)) = map bi_snap_name (cs_backends s)"
  "bc_active (fst (apply_discovery s c)) = cs_active_state s"
  by (simp_all add: apply_discovery_def Let_def case_prod_beta)

lemma apply_discovery_ok:
  assumes "pages_ok c"
  shows "pages_ok (fst (apply_discovery s c))"
proof -
  let ?rm = "filter (\<lambda>n. n \<notin> bi_snap_name ` set (cs_backends s)) (bc_order c)"
  let ?ps = "fst (remove_pages ?rm (bc_pages c) (bc_flags c))"
  have bt: "btree ?ps" using assms by (simp add: pages_ok_def remove_pages_btree)
  have "dom (map_of ?ps) = dom (map_of (bc_pages c)) - set ?rm" by (auto simp: remove_pages_map_of dom_def)
  also have "dom (map_of (bc_pages c)) = set (bc_order c)" using assms by (simp add: pages_ok_def map_of_keys [symmetric])
  finally have "dom (map_of ?ps) \<subseteq> bi_snap_name ` set (cs_backends s)" by auto
  then have "dom (map_of (fst (add_pages (cs_backends s) ?ps))) = bi_snap_name ` set (cs_backends s)"
    using add_pages_keys [OF bt, of "cs_backends s"] by auto
  moreover have "dom (map_of (fst (reconnect_pages a ps))) = dom (map_of ps)" for a ps
    by (auto simp: reconnect_pages_map_of dom_def)
  ultimately show ?thesis
    unfolding pages_ok_def map_of_keys apply_discovery_pages apply_discovery_fields
    using reconnect_pages_btree [OF add_pages_btree [OF bt]] by simp
qed

lemma apply_discovery_map_of:
  assumes "pages_ok c" and "distinct (map bi_snap_name (cs_backends s))"
  shows "map_of (bc_pages (fst (apply_discovery s c))) n =
    (case find (\<lambda>b. bi_snap_name b = n) (cs_backends s) of
       Some b \<Rightarrow> Some ((updated_page b (map_of (bc_pages c) n))\<lparr>pe_connection := connection_kind_of (cs_active_state s) n\<rparr>)
     | None \<Rightarrow> None)"
proof -
  let ?rm = "filter (\<lambda>n. n \<notin> bi_snap_name ` set (cs_backends s)) (bc_order c)"
  let ?ps = "fst (remove_pages ?rm (bc_pages c) (bc_flags c))"
  have bt: "btree ?ps" using assms(1) by (simp add: pages_ok_def remove_pages_btree)
  have "map_of (bc_pages c) n = None" if "n \<notin> set (bc_order c)"
  proof -
    have "dom (map_of (bc_pages c)) = set (bc_order c)" using assms(1) by (simp add: pages_ok_def map_of_keys [symmetric])
    with that show ?thesis by (metis domIff)
  qed
  moreover have "find (\<lambda>b. bi_snap_name b = n) (cs_backends s) = None \<longleftrightarrow> n \<notin> bi_snap_name ` set (cs_backends s)"
    by (auto simp: find_None_iff)
  ultimately show ?thesis
    by (auto simp: apply_discovery_pages reconnect_pages_map_of add_pages_map_of [OF bt assms(2)] remove_pages_map_of split: option.split)
qed

lemma map_filter_find:
  assumes "distinct (map f xs)" and "\<And>x. x \<in> set xs \<Longrightarrow> g (f x) = Some (h x)"
  shows "List.map_filter g (map f xs) = map h xs"
  using assms by (induction xs) (auto simp: List.map_filter_simps)

lemma find_by_name: "distinct (map f xs) \<Longrightarrow> x \<in> set xs \<Longrightarrow> find (\<lambda>y. f y = f x) xs = Some x"
  by (induction xs) auto

lemma discovery_pages:
  assumes "pages_ok c" and "distinct (map bi_snap_name (cs_backends s))"
    and "complete_discovery r (Inr s) c = (c', True, events)"
  shows "pages_ok c' \<and> controller_connection_snapshot c' = s\<lparr>cs_strays := []\<rparr>
    \<and> map pg_identity (pages tr c') = cs_backends s
    \<and> (\<forall>b \<in> set (cs_backends s). \<exists>e. map_of (bc_pages c') (bi_snap_name b) = Some e
         \<and> pe_connection e = connection_kind_of (cs_active_state s) (bi_snap_name b)
         \<and> pe_snapshot e = Option.bind (map_of (bc_pages c) (bi_snap_name b)) pe_snapshot)"
proof -
  let ?c = "c\<lparr>bc_latest_completed_discovery := dr_generation r, bc_discovery_loading := False, bc_discovery_token := None,
    bc_last_discovery_error := None\<rparr>"
  have c': "c' = fst (apply_discovery s ?c)"
    using assms(3) by (auto simp: complete_discovery_def Let_def case_prod_beta split: if_splits)
  have ok: "pages_ok ?c" using assms(1) by (simp add: pages_ok_def)
  have pg: "map_of (bc_pages c') (bi_snap_name b) = Some ((updated_page b (map_of (bc_pages c) (bi_snap_name b)))
      \<lparr>pe_connection := connection_kind_of (cs_active_state s) (bi_snap_name b)\<rparr>)" if "b \<in> set (cs_backends s)" for b
    using apply_discovery_map_of [OF ok assms(2), of "bi_snap_name b"] find_by_name [OF assms(2) that] c' by simp
  have id: "pe_identity (updated_page b x) = b" for b x by (simp add: updated_page_def new_page_def split: option.split)
  have "List.map_filter (\<lambda>snap. map_option pe_identity (map_of (bc_pages c') snap)) (map bi_snap_name (cs_backends s)) = cs_backends s"
    by (subst map_filter_find [where h = "\<lambda>b. b", OF assms(2)]) (simp_all add: pg id)
  then have "controller_connection_snapshot c' = s\<lparr>cs_strays := []\<rparr>"
    by (simp add: controller_connection_snapshot_def c' apply_discovery_fields)
  moreover have "map pg_identity (pages tr c') = cs_backends s"
  proof -
    have "bc_order c' = map bi_snap_name (cs_backends s)" by (simp add: c' apply_discovery_fields)
    then have "pages tr c' = map (\<lambda>b. build_page tr (the (map_of (bc_pages c') (bi_snap_name b)))) (cs_backends s)"
      using map_filter_find [OF assms(2), of "page tr c'"] pg by (simp add: pages_def page_def)
    then show ?thesis using pg id by (simp add: build_page_def comp_def map_idI)
  qed
  ultimately show ?thesis
    using pg apply_discovery_ok [OF ok, of s] c' by (auto simp: updated_page_def new_page_def split: option.splits)
qed

lemma discovery_shown_snapshot:
  assumes "pages_ok c" and "distinct (map bi_snap_name (cs_backends s))" and "complete_discovery r (Inr s) c = (c', True, events)"
  shows "controller_connection_snapshot c' = s\<lparr>cs_strays := []\<rparr>"
  using discovery_pages [OF assms] by simp

text \<open>
  The pages show the machine as it was last discovered. When a discovery is accepted, in
  any state whose pages are those in order, with at most one model slot per snap: the pages are
  exactly the models found, in that order; each page says whether its model is the one
  connected, one of several, or none; a page that was there keeps what was read of it; and the
  snapshot the controller hands on is the one discovered, less the strays.
\<close>

theorem discovery_shown:
  assumes "pages_ok c" and "distinct (map bi_snap_name (cs_backends s))"
    and "complete_discovery r (Inr s) c = (c', True, events)"
  shows "pages_ok c' \<and> controller_connection_snapshot c' = s\<lparr>cs_strays := []\<rparr>
    \<and> map pg_identity (pages tr c') = cs_backends s
    \<and> (\<forall>b \<in> set (cs_backends s). \<exists>e. map_of (bc_pages c') (bi_snap_name b) = Some e
         \<and> pe_connection e = connection_kind_of (cs_active_state s) (bi_snap_name b)
         \<and> pe_snapshot e = Option.bind (map_of (bc_pages c) (bi_snap_name b)) pe_snapshot)"
  by (rule discovery_pages [OF assms])

theorem discovery_shown_witness:
  "let (c, r, _) = begin_discovery 0 controller_default; (c', accepted, _) = complete_discovery r (Inr two_models) c
   in accepted \<and> controller_connection_snapshot c' = two_models"
proof -
  obtain c r ev where b: "begin_discovery 0 controller_default = (c, r, ev)" by (cases "begin_discovery 0 controller_default") auto
  obtain c' acc ev' where d: "complete_discovery r (Inr two_models) c = (c', acc, ev')"
    by (cases "complete_discovery r (Inr two_models) c") auto
  have f: "dr_generation r = 1" "bc_latest_completed_discovery c = 0" "bc_discovery_generation c = 1" "bc_pages c = []" "bc_order c = []"
    using b by (auto simp: begin_discovery_def inner_begin_discovery_def controller_default_def cancellation_new_def cancel_taken_def Let_def)
  then have acc using d by (auto simp: complete_discovery_def Let_def case_prod_beta)
  moreover have "distinct (map bi_snap_name (cs_backends two_models))"
    by (simp add: two_models_def parakeet_backend_def whisper_backend_def backend_identity_new_def)
  ultimately have "controller_connection_snapshot c' = two_models\<lparr>cs_strays := []\<rparr>"
    using discovery_shown [of c two_models r c' ev'] d f by (simp add: pages_ok_def btree_def)
  then show ?thesis using b d \<open>acc\<close> by (simp add: two_models_def)
qed

section \<open>Reads in flight\<close>

text \<open>
  The reads the user interface has running (\<open>trigger_snapshot\<close>, \<open>trigger_manual_refresh\<close> and
  \<open>report_text\<close> of \<open>backend_ui.rs\<close>): each holds its request, and when it comes back it completes
  it unless its token was cancelled.
\<close>

record reads =
  rd_controller :: backend_controller
  rd_futures :: "snapshot_request list"

datatype read_call =
    RC_Discover nat
  | RC_Focus nat
  | RC_Discovered discovery_request "backend_surface_error + connection_snapshot"
  | RC_Read ustr
  | RC_ReadDone nat backend_snapshot
  | RC_Readback ustr backend_snapshot
  | RC_CancelPage ustr
  | RC_CancelAll

definition finish_read :: "snapshot_request \<Rightarrow> backend_snapshot \<Rightarrow> backend_controller \<Rightarrow> backend_controller" where
  "finish_read r snapshot c = (if is_cancelled (sq_token r) (bc_flags c) then c else fst (complete_snapshot r snapshot c))"

fun read_step :: "reads \<Rightarrow> read_call \<Rightarrow> reads" where
  "read_step s (RC_Discover now) = s\<lparr>rd_controller := fst (begin_discovery now (rd_controller s))\<rparr>"
| "read_step s (RC_Focus now) =
     (case begin_focus_discovery now (rd_controller s) of Some (c, _) \<Rightarrow> s\<lparr>rd_controller := c\<rparr> | None \<Rightarrow> s)"
| "read_step s (RC_Discovered r result) = s\<lparr>rd_controller := fst (complete_discovery r result (rd_controller s))\<rparr>"
| "read_step s (RC_Read snap) =
     (case begin_snapshot snap (rd_controller s) of
        (c, Some r, _) \<Rightarrow> s\<lparr>rd_controller := c, rd_futures := rd_futures s @ [r]\<rparr>
      | (c, None, _) \<Rightarrow> s)"
| "read_step s (RC_ReadDone i snapshot) =
     (if i < length (rd_futures s)
      then s\<lparr>rd_controller := finish_read (rd_futures s ! i) snapshot (rd_controller s),
             rd_futures := take i (rd_futures s) @ drop (Suc i) (rd_futures s)\<rparr>
      else s)"
| "read_step s (RC_Readback snap snapshot) = s\<lparr>rd_controller := fst (apply_readback snap snapshot (rd_controller s))\<rparr>"
| "read_step s (RC_CancelPage snap) = s\<lparr>rd_controller := cancel_page snap (rd_controller s)\<rparr>"
| "read_step s RC_CancelAll = s\<lparr>rd_controller := cancel_all (rd_controller s)\<rparr>"

definition reads_new :: reads where
  "reads_new = \<lparr>rd_controller = controller_default, rd_futures = []\<rparr>"

text \<open>
  What holds after fewer than \<open>n\<close> reads were begun. A page is loading exactly while a read of it
  is in flight; the token of that read is live and some running read holds it; and a running
  read whose token is live is the one its page waits for.
\<close>

definition awaits :: "page_entry \<Rightarrow> snapshot_request \<Rightarrow> bool" where
  "awaits e r \<longleftrightarrow> pe_inflight_token e = Some (sq_token r) \<and> pe_snapshot_generation e = sq_generation r"

definition entry_ok :: "nat \<Rightarrow> cancellation_token option \<Rightarrow> cancellation_store \<Rightarrow> snapshot_request list \<Rightarrow> ustr \<Rightarrow> page_entry \<Rightarrow> bool" where
  "entry_ok n d flags fs name e \<longleftrightarrow> unat (pe_snapshot_generation e) \<le> n \<and> pe_latest_completed_snapshot e \<le> pe_snapshot_generation e
     \<and> (pe_loading e \<longleftrightarrow> pe_inflight_token e \<noteq> None)
     \<and> (\<forall>t. pe_inflight_token e = Some t \<longrightarrow> d \<noteq> Some t \<and> t < length flags \<and> \<not> is_cancelled t flags
          \<and> pe_latest_completed_snapshot e < pe_snapshot_generation e \<and> (\<exists>r \<in> set fs. sq_token r = t \<and> sq_snap r = name))"

definition read_ok :: "(ustr \<rightharpoonup> page_entry) \<Rightarrow> cancellation_store \<Rightarrow> snapshot_request \<Rightarrow> bool" where
  "read_ok pg flags r \<longleftrightarrow> sq_token r < length flags
     \<and> (is_cancelled (sq_token r) flags \<or> (\<exists>e. pg (sq_snap r) = Some e \<and> awaits e r))"

definition reads_inv :: "nat \<Rightarrow> (ustr \<rightharpoonup> page_entry) \<Rightarrow> cancellation_token option \<Rightarrow> cancellation_store \<Rightarrow> snapshot_request list \<Rightarrow> bool" where
  "reads_inv n pg d flags fs \<longleftrightarrow> (\<forall>name e. pg name = Some e \<longrightarrow> entry_ok n d flags fs name e)
     \<and> (\<forall>t. d = Some t \<longrightarrow> t < length flags) \<and> (\<forall>r \<in> set fs. read_ok pg flags r) \<and> distinct (map sq_token fs)"

lemmas reads_defs = reads_inv_def entry_ok_def read_ok_def awaits_def

lemma inflight_unique:
  assumes "reads_inv n pg d flags fs" and "pg a = Some e" "pg b = Some e'"
    and "pe_inflight_token e = Some t" "pe_inflight_token e' = Some t"
  shows "a = b"
proof -
  from assms obtain r r' where "r \<in> set fs" "sq_token r = t" "sq_snap r = a" "r' \<in> set fs" "sq_token r' = t" "sq_snap r' = b"
    unfolding reads_inv_def entry_ok_def by metis
  moreover have "inj_on sq_token (set fs)" using assms(1) by (simp add: reads_inv_def distinct_map)
  ultimately show ?thesis by (metis inj_onD)
qed

text \<open>One page's read is dropped: cancelled, with the page changed or gone.\<close>

lemma reads_drop:
  assumes inv: "reads_inv n pg d flags fs" and e: "pg name = Some e"
    and e': "case x of None \<Rightarrow> True | Some e' \<Rightarrow> pe_snapshot_generation e' = pe_snapshot_generation e
        \<and> pe_latest_completed_snapshot e' = pe_latest_completed_snapshot e \<and> pe_inflight_token e' = None \<and> \<not> pe_loading e'"
  shows "reads_inv n (pg(name := x)) d (cancel_taken (pe_inflight_token e) flags) fs"
proof -
  have u: "b = name" if "pg b = Some e2" "pe_inflight_token e2 = Some t" "pe_inflight_token e = Some t" for b e2 t
    by (rule inflight_unique [OF inv that(1) e that(2,3)])
  show ?thesis
    using inv e e' u unfolding reads_defs
    by (auto split: option.splits if_splits)
qed

lemma reads_new_token:
  "reads_inv n pg d flags fs \<Longrightarrow> reads_inv n pg (Some (length flags)) (cancel_taken d flags @ [False]) fs"
  unfolding reads_defs by (auto simp: less_Suc_eq)

lemma reads_no_token: "reads_inv n pg d flags fs \<Longrightarrow> reads_inv n pg None flags fs"
  unfolding reads_defs by auto

lemma reads_more: "reads_inv n pg d flags fs \<Longrightarrow> reads_inv (Suc n) pg d flags fs"
  unfolding reads_defs by (auto intro: le_SucI)

text \<open>Pages that keep what concerns their reads, and new pages.\<close>

definition same_reads :: "page_entry \<Rightarrow> page_entry \<Rightarrow> bool" where
  "same_reads e e' \<longleftrightarrow> pe_snapshot_generation e' = pe_snapshot_generation e \<and> pe_inflight_token e' = pe_inflight_token e
     \<and> pe_latest_completed_snapshot e' = pe_latest_completed_snapshot e \<and> pe_loading e' = pe_loading e"

lemma reads_same:
  assumes "reads_inv n pg d flags fs"
    and "\<And>name e. pg name = Some e \<Longrightarrow> \<exists>e'. pg' name = Some e' \<and> same_reads e e'"
    and "\<And>name e'. pg' name = Some e' \<Longrightarrow> (\<exists>e. pg name = Some e \<and> same_reads e e') \<or> (\<exists>b. same_reads (new_page b) e')"
  shows "reads_inv n pg' d flags fs"
proof -
  have "entry_ok n d flags fs name e'" if "pg' name = Some e'" for name e'
  proof -
    from assms(3) [OF that] consider e where "pg name = Some e" "same_reads e e'" | b where "same_reads (new_page b) e'" by blast
    then show ?thesis
      using assms(1) by cases (auto simp: reads_inv_def entry_ok_def same_reads_def new_page_def)
  qed
  moreover have "read_ok pg' flags r" if "r \<in> set fs" for r
  proof -
    have "sq_token r < length flags" "is_cancelled (sq_token r) flags \<or> (\<exists>e. pg (sq_snap r) = Some e \<and> awaits e r)"
      using assms(1) that by (auto simp: reads_inv_def read_ok_def)
    moreover have "\<exists>e'. pg' (sq_snap r) = Some e' \<and> awaits e' r" if "pg (sq_snap r) = Some e" "awaits e r" for e
      using assms(2) [OF that(1)] that(2) by (auto simp: awaits_def same_reads_def)
    ultimately show ?thesis by (auto simp: read_ok_def)
  qed
  ultimately show ?thesis using assms(1) by (simp add: reads_inv_def)
qed

lemma reads_remove:
  "reads_inv n (map_of ps) d st fs \<Longrightarrow> remove_pages snaps ps st = (ps', st') \<Longrightarrow> reads_inv n (map_of ps') d st' fs"
proof (induction snaps ps st rule: remove_pages.induct)
  case (1 ps st)
  then show ?case by simp
next
  case (2 snap snaps ps st)
  show ?case
  proof (cases "map_of ps snap")
    case None
    with 2 show ?thesis by simp
  next
    case (Some e)
    then have "reads_inv n (map_of (btree_remove snap ps)) d (cancel_taken (pe_inflight_token e) st) fs"
      using reads_drop [OF "2.prems"(1) Some, of None] by (simp add: btree_remove_map_of)
    with 2 Some show ?thesis by (simp del: fun_upd_apply)
  qed
qed

lemma reads_add:
  assumes "reads_inv n (map_of ps) d st fs" and "btree ps"
  shows "reads_inv n (map_of (fst (add_pages bs ps))) d st fs"
  using assms
proof (induction bs arbitrary: ps)
  case Nil
  then show ?case by simp
next
  case (Cons b bs)
  have "reads_inv n (map_of (fst (add_page b ps))) d st fs"
    by (rule reads_same [OF Cons.prems(1)])
      (auto simp: add_page_map_of [OF Cons.prems(2)] updated_page_def same_reads_def split: option.splits if_splits)
  from Cons.IH [OF this add_page_btree [OF Cons.prems(2)]] show ?case by (simp add: fst_add_pages del: add_pages.simps(2))
qed

lemma reads_discovery:
  assumes "reads_inv n (map_of (bc_pages c)) d (bc_flags c) fs" and "pages_ok c"
  shows "reads_inv n (map_of (bc_pages (fst (apply_discovery s c)))) d (bc_flags (fst (apply_discovery s c))) fs"
proof -
  let ?rm = "filter (\<lambda>n. n \<notin> bi_snap_name ` set (cs_backends s)) (bc_order c)"
  obtain ps st where rm: "remove_pages ?rm (bc_pages c) (bc_flags c) = (ps, st)" by (cases "remove_pages ?rm (bc_pages c) (bc_flags c)")
  have "btree ps" using assms(2) remove_pages_btree [of "bc_pages c" ?rm "bc_flags c"] rm by (simp add: pages_ok_def)
  note inv = reads_add [OF reads_remove [OF assms(1) rm] this, of "cs_backends s"]
  have "reads_inv n (map_of (fst (reconnect_pages (cs_active_state s) (fst (add_pages (cs_backends s) ps))))) d st fs"
    by (rule reads_same [OF inv]) (auto simp: reconnect_pages_map_of same_reads_def)
  moreover have "bc_flags (fst (apply_discovery s c)) = st" using rm by (simp add: apply_discovery_def Let_def case_prod_beta)
  ultimately show ?thesis by (simp add: apply_discovery_pages rm)
qed

lemma u64_Suc: "unat (g :: u64) \<le> n \<Longrightarrow> Suc n < 2 ^ 64 \<Longrightarrow> unat (g + 1) = Suc (unat g)"
  by (simp add: unat_word_ariths)


lemma entry_more: "entry_ok n d flags fs name e \<Longrightarrow> entry_ok (Suc n) d (flags @ [False]) (fs @ [r]) name e"
  unfolding entry_ok_def by (auto intro: le_SucI)

lemma reads_begin:
  assumes inv: "reads_inv n pg d flags fs" and e: "pg name = Some e" and n: "Suc n < 2 ^ 64"
  shows "reads_inv (Suc n) (pg(name \<mapsto> e\<lparr>pe_snapshot_generation := pe_snapshot_generation e + 1, pe_loading := True,
        pe_inflight_token := Some (length flags)\<rparr>)) d (cancel_taken (pe_inflight_token e) flags @ [False])
      (fs @ [\<lparr>sq_snap = name, sq_generation = pe_snapshot_generation e + 1, sq_token = length flags\<rparr>])"
    (is "reads_inv _ (pg(name \<mapsto> ?e)) _ ?flags (fs @ [?r])")
proof -
  let ?old = "e\<lparr>pe_inflight_token := None, pe_loading := False\<rparr>"
  have drop: "reads_inv n (pg(name := Some ?old)) d (cancel_taken (pe_inflight_token e) flags) fs"
    by (rule reads_drop [OF inv e]) simp
  have ok: "unat (pe_snapshot_generation e) \<le> n" "pe_latest_completed_snapshot e \<le> pe_snapshot_generation e"
    using inv e by (auto simp: reads_inv_def entry_ok_def)
  note g = u64_Suc [OF ok(1) n]
  have "pe_latest_completed_snapshot e < pe_snapshot_generation e + 1"
    using ok(2) g by (simp add: word_less_nat_alt word_le_nat_alt)
  then have "entry_ok (Suc n) d ?flags (fs @ [?r]) name ?e"
    using ok g drop is_cancelled_length [of "length flags" flags] by (auto simp: entry_ok_def reads_inv_def)
  moreover have "entry_ok (Suc n) d ?flags (fs @ [?r]) a x" if "pg a = Some x" "a \<noteq> name" for a x
    using drop that by (intro entry_more) (simp add: reads_inv_def)
  moreover have "read_ok (pg(name \<mapsto> ?e)) ?flags r" if "r \<in> set fs" for r
  proof -
    from drop that have "read_ok (pg(name := Some ?old)) (cancel_taken (pe_inflight_token e) flags) r" by (simp add: reads_inv_def)
    then show ?thesis by (auto simp: read_ok_def awaits_def split: if_splits)
  qed
  moreover have "read_ok (pg(name \<mapsto> ?e)) ?flags ?r"
    unfolding read_ok_def awaits_def by (intro conjI disjI2 exI [of _ ?e]) simp_all
  moreover have "distinct (map sq_token (fs @ [?r]))" "\<forall>t. d = Some t \<longrightarrow> t < length ?flags"
    using drop by (auto simp: reads_inv_def read_ok_def)
  ultimately show ?thesis unfolding reads_inv_def by auto
qed

text \<open>A read whose token is cancelled comes back, and the one a page waits for does.\<close>

lemma mem_drop_nth: "r \<in> set (take i xs @ drop (Suc i) xs) \<Longrightarrow> r \<in> set xs"
  by (auto dest: in_set_takeD in_set_dropD)

lemma distinct_drop_nth: "distinct xs \<Longrightarrow> distinct (take i xs @ drop (Suc i) xs)"
  by (auto dest: in_set_takeD in_set_dropD simp: set_take_disj_set_drop_if_distinct)

lemma mem_other_nth: "r \<in> set xs \<Longrightarrow> i < length xs \<Longrightarrow> r \<noteq> xs ! i \<Longrightarrow> r \<in> set (take i xs @ drop (Suc i) xs)"
  by (metis id_take_nth_drop in_set_conv_decomp insert_iff list.set(2) set_append Un_iff)

lemma reads_gone:
  assumes inv: "reads_inv n pg d flags fs" and i: "i < length fs" and c: "is_cancelled (sq_token (fs ! i)) flags"
  shows "reads_inv n pg d flags (take i fs @ drop (Suc i) fs)"
proof -
  have "entry_ok n d flags (take i fs @ drop (Suc i) fs) name e" if "pg name = Some e" for name e
  proof -
    have "entry_ok n d flags fs name e" using inv that by (simp add: reads_inv_def)
    then show ?thesis
      unfolding entry_ok_def using c mem_other_nth [OF _ i] by (metis (no_types, lifting))
  qed
  with inv show ?thesis
    using distinct_drop_nth [of "map sq_token fs" i]
    by (auto simp: reads_inv_def take_map drop_map dest: in_set_takeD in_set_dropD)
qed

lemma reads_landed:
  assumes inv: "reads_inv n pg d flags fs" and i: "i < length fs" and live: "\<not> is_cancelled (sq_token (fs ! i)) flags"
  obtains e where "pg (sq_snap (fs ! i)) = Some e" "awaits e (fs ! i)" "pe_loading e"
    "pe_latest_completed_snapshot e < sq_generation (fs ! i)"
    "\<And>e'. e' = e\<lparr>pe_latest_completed_snapshot := sq_generation (fs ! i), pe_loading := False, pe_inflight_token := None, pe_snapshot := x\<rparr> \<Longrightarrow>
       reads_inv n (pg(sq_snap (fs ! i) \<mapsto> e')) d flags (take i fs @ drop (Suc i) fs)"
proof -
  let ?r = "fs ! i" and ?fs = "take i fs @ drop (Suc i) fs"
  have r: "?r \<in> set fs" using i by simp
  from inv r live obtain e where e: "pg (sq_snap ?r) = Some e" "awaits e ?r" by (auto simp: reads_inv_def read_ok_def)
  have ok: "entry_ok n d flags fs (sq_snap ?r) e" using inv e(1) by (simp add: reads_inv_def)
  let ?e = "e\<lparr>pe_latest_completed_snapshot := sq_generation ?r, pe_loading := False, pe_inflight_token := None, pe_snapshot := x\<rparr>"
  have "entry_ok n d flags ?fs (sq_snap ?r) ?e" using ok e(2) by (simp add: entry_ok_def awaits_def)
  moreover have "entry_ok n d flags ?fs a y" if y: "pg a = Some y" "a \<noteq> sq_snap ?r" for a y
  proof -
    have "entry_ok n d flags fs a y" using inv y(1) by (simp add: reads_inv_def)
    moreover have "pe_inflight_token y \<noteq> Some (sq_token ?r)"
      using inflight_unique [OF inv y(1) e(1)] y(2) e(2) by (auto simp: awaits_def)
    ultimately show ?thesis unfolding entry_ok_def using mem_other_nth [OF _ i] by (metis (no_types, lifting))
  qed
  moreover have "read_ok (pg(sq_snap ?r \<mapsto> ?e)) flags q" if q: "q \<in> set ?fs" for q
  proof -
    have "read_ok pg flags q" using inv mem_drop_nth [OF q] by (simp add: reads_inv_def)
    moreover have "sq_token q \<noteq> sq_token ?r"
    proof -
      have "distinct (map sq_token fs)" using inv by (simp add: reads_inv_def)
      then have "sq_token ?r \<notin> sq_token ` set ?fs"
        by (subst (asm) id_take_nth_drop [OF i]) auto
      with q show ?thesis by (metis imageI)
    qed
    ultimately show ?thesis using e by (auto simp: read_ok_def awaits_def)
  qed
  ultimately have "reads_inv n (pg(sq_snap ?r \<mapsto> ?e)) d flags ?fs"
    using inv distinct_drop_nth [of "map sq_token fs" i] by (auto simp: reads_inv_def take_map drop_map)
  with that e ok show ?thesis by (auto simp: entry_ok_def awaits_def)
qed


section \<open>Every step of the reads\<close>

definition reads_ok :: "nat \<Rightarrow> reads \<Rightarrow> bool" where
  "reads_ok n s \<longleftrightarrow> pages_ok (rd_controller s)
     \<and> reads_inv n (map_of (bc_pages (rd_controller s))) (bc_discovery_token (rd_controller s)) (bc_flags (rd_controller s)) (rd_futures s)"

lemma insert_existing_ok: "pages_ok c \<Longrightarrow> map_of (bc_pages c) snap = Some e \<Longrightarrow> pages_ok (c\<lparr>bc_pages := btree_insert snap e' (bc_pages c), bc_flags := st\<rparr>)"
  using btree_insert_keys [of snap e' "bc_pages c"] map_of_keys [of "bc_pages c"]
  by (auto simp: pages_ok_def btree_insert_btree domI insert_absorb)

lemma btree_insert_pages: "pages_ok c \<Longrightarrow> map_of (btree_insert snap e (bc_pages c)) = (map_of (bc_pages c))(snap \<mapsto> e)"
  by (simp add: pages_ok_def btree_insert_map_of)

lemma inner_begin_ok:
  assumes "reads_ok n s"
  shows "reads_ok n (s\<lparr>rd_controller := fst (inner_begin_discovery now quiet (rd_controller s))\<rparr>)"
  using assms reads_new_token [of n]
  by (auto simp: reads_ok_def inner_begin_discovery_def cancellation_new_def Let_def pages_ok_def)

lemma complete_discovery_ok:
  assumes "reads_ok n s"
  shows "reads_ok n (s\<lparr>rd_controller := fst (complete_discovery r result (rd_controller s))\<rparr>)"
proof (cases "dr_generation r \<le> bc_latest_completed_discovery (rd_controller s) \<or> dr_generation r \<noteq> bc_discovery_generation (rd_controller s)")
  case True
  with assms show ?thesis by (auto simp: complete_discovery_def)
next
  case False
  let ?c = "(rd_controller s)\<lparr>bc_latest_completed_discovery := dr_generation r, bc_discovery_loading := False, bc_discovery_token := None\<rparr>"
  have inv: "reads_inv n (map_of (bc_pages ?c)) None (bc_flags ?c) (rd_futures s)" and ok: "pages_ok ?c"
    using assms reads_no_token by (auto simp: reads_ok_def pages_ok_def)
  show ?thesis
  proof (cases result)
    case (Inl e)
    with False inv ok show ?thesis by (auto simp: complete_discovery_def reads_ok_def pages_ok_def)
  next
    case (Inr snapshot)
    let ?d = "?c\<lparr>bc_last_discovery_error := None\<rparr>"
    have "fst (complete_discovery r result (rd_controller s)) = fst (apply_discovery snapshot ?d)"
      using False Inr by (auto simp: complete_discovery_def Let_def case_prod_beta)
    moreover have "bc_discovery_token (fst (apply_discovery snapshot ?d)) = None"
      by (simp add: apply_discovery_def Let_def case_prod_beta)
    moreover have "pages_ok ?d" using ok by (simp add: pages_ok_def)
    ultimately show ?thesis
      using reads_discovery [of n ?d None "rd_futures s" snapshot] apply_discovery_ok [of ?d snapshot] inv by (simp add: reads_ok_def)
  qed
qed

lemma drop_page_ok:
  assumes "reads_ok n s" and e: "map_of (bc_pages (rd_controller s)) snap = Some e"
    and "pe_snapshot_generation e' = pe_snapshot_generation e" "pe_latest_completed_snapshot e' = pe_latest_completed_snapshot e"
      "pe_inflight_token e' = None" "\<not> pe_loading e'"
  shows "reads_ok n (s\<lparr>rd_controller := (rd_controller s)\<lparr>bc_flags := cancel_taken (pe_inflight_token e) (bc_flags (rd_controller s)),
      bc_pages := btree_insert snap e' (bc_pages (rd_controller s))\<rparr>\<rparr>)"
proof -
  let ?c = "rd_controller s"
  have inv: "reads_inv n (map_of (bc_pages ?c)) (bc_discovery_token ?c) (bc_flags ?c) (rd_futures s)" and ok: "pages_ok ?c"
    using assms(1) by (simp_all add: reads_ok_def)
  have "reads_inv n ((map_of (bc_pages ?c))(snap := Some e')) (bc_discovery_token ?c)
      (cancel_taken (pe_inflight_token e) (bc_flags ?c)) (rd_futures s)"
    by (rule reads_drop [OF inv e]) (simp add: assms(3-6))
  with insert_existing_ok [OF ok e] show ?thesis
    by (simp add: reads_ok_def btree_insert_pages [OF ok] pages_ok_def)
qed

lemma cancel_all_ok:
  assumes "reads_ok n s"
  shows "reads_ok n (s\<lparr>rd_controller := cancel_all (rd_controller s)\<rparr>)"
proof -
  let ?c = "rd_controller s"
  let ?pg = "map_of (bc_pages ?c)" and ?st = "cancel_reads (bc_pages ?c) (cancel_taken (bc_discovery_token ?c) (bc_flags ?c))"
  have pg': "map_of (bc_pages (cancel_all ?c)) n = map_option (\<lambda>e. e\<lparr>pe_inflight_token := None, pe_loading := False\<rparr>) (?pg n)" for n
    unfolding cancel_all_def by (induction "bc_pages ?c") (auto simp: map_of_map)
  have fl: "bc_flags (cancel_all ?c) = ?st" "bc_discovery_token (cancel_all ?c) = None" "bc_order (cancel_all ?c) = bc_order ?c"
    by (simp_all add: cancel_all_def cancel_reads_def)
  have ks: "map fst (bc_pages (cancel_all ?c)) = map fst (bc_pages ?c)" by (simp add: cancel_all_def comp_def case_prod_beta)
  have inv: "reads_inv n ?pg (bc_discovery_token ?c) (bc_flags ?c) (rd_futures s)" using assms by (simp add: reads_ok_def)
  have "is_cancelled (sq_token r) ?st" if "r \<in> set (rd_futures s)" for r
  proof -
    have "sq_token r < length (bc_flags ?c)" using inv that by (simp add: reads_inv_def read_ok_def)
    moreover have "is_cancelled (sq_token r) (bc_flags ?c) \<or> Some (sq_token r) \<in> pe_inflight_token ` snd ` set (bc_pages ?c)"
    proof -
      have "\<exists>e. ?pg (sq_snap r) = Some e \<and> pe_inflight_token e = Some (sq_token r)" if "\<not> is_cancelled (sq_token r) (bc_flags ?c)"
        using inv \<open>r \<in> set (rd_futures s)\<close> that by (auto simp: reads_inv_def read_ok_def awaits_def)
      then show ?thesis by (metis image_eqI map_of_SomeD snd_conv)
    qed
    ultimately show ?thesis by auto
  qed
  then have "reads_inv n (map_of (bc_pages (cancel_all ?c))) None ?st (rd_futures s)"
    using inv by (auto simp: reads_inv_def read_ok_def entry_ok_def pg')
  moreover have "pages_ok (cancel_all ?c)" using assms ks by (simp add: reads_ok_def pages_ok_def btree_def fl(3))
  ultimately show ?thesis by (simp add: reads_ok_def fl)
qed


lemma finish_read_ok:
  assumes "reads_ok n s" and i: "i < length (rd_futures s)"
  shows "reads_ok n (read_step s (RC_ReadDone i snapshot))"
proof -
  let ?c = "rd_controller s" and ?r = "rd_futures s ! i"
  have inv: "reads_inv n (map_of (bc_pages ?c)) (bc_discovery_token ?c) (bc_flags ?c) (rd_futures s)" and ok: "pages_ok ?c"
    using assms(1) by (simp_all add: reads_ok_def)
  show ?thesis
  proof (cases "is_cancelled (sq_token ?r) (bc_flags ?c)")
    case True
    with reads_gone [OF inv i True] ok i show ?thesis by (simp add: reads_ok_def finish_read_def)
  next
    case False
    obtain e where e: "map_of (bc_pages ?c) (sq_snap ?r) = Some e" "awaits e ?r"
        "pe_latest_completed_snapshot e < sq_generation ?r"
      and inv': "\<And>e'. e' = e\<lparr>pe_latest_completed_snapshot := sq_generation ?r, pe_loading := False, pe_inflight_token := None,
          pe_snapshot := Some snapshot\<rparr> \<Longrightarrow> reads_inv n ((map_of (bc_pages ?c))(sq_snap ?r \<mapsto> e')) (bc_discovery_token ?c)
          (bc_flags ?c) (take i (rd_futures s) @ drop (Suc i) (rd_futures s))"
      using reads_landed [OF inv i False] by metis
    from e False have "finish_read ?r snapshot ?c = ?c\<lparr>bc_pages := btree_insert (sq_snap ?r)
        (e\<lparr>pe_latest_completed_snapshot := sq_generation ?r, pe_loading := False, pe_inflight_token := None, pe_snapshot := Some snapshot\<rparr>) (bc_pages ?c)\<rparr>"
      by (simp add: finish_read_def complete_snapshot_def awaits_def)
    with inv' [OF refl] insert_existing_ok [OF ok e(1)] i show ?thesis
      by (simp add: reads_ok_def btree_insert_pages [OF ok] pages_ok_def)
  qed
qed

lemma begin_snapshot_ok:
  assumes "reads_ok n s" and "Suc n < 2 ^ 64"
  shows "reads_ok (Suc n) (read_step s (RC_Read snap))"
proof (cases "map_of (bc_pages (rd_controller s)) snap")
  case None
  with assms reads_more show ?thesis by (auto simp: begin_snapshot_def reads_ok_def)
next
  case (Some e)
  let ?c = "rd_controller s"
  have inv: "reads_inv n (map_of (bc_pages ?c)) (bc_discovery_token ?c) (bc_flags ?c) (rd_futures s)" and ok: "pages_ok ?c"
    using assms(1) by (simp_all add: reads_ok_def)
  from reads_begin [OF inv Some assms(2)] insert_existing_ok [OF ok Some] Some show ?thesis
    by (simp add: begin_snapshot_def cancellation_new_def Let_def reads_ok_def btree_insert_pages [OF ok] pages_ok_def)
qed

lemma read_step_ok:
  assumes "reads_ok n s" and "Suc n < 2 ^ 64"
  shows "reads_ok (Suc n) (read_step s call)"
proof -
  have up: "reads_ok n s' \<Longrightarrow> reads_ok (Suc n) s'" for s' by (auto simp: reads_ok_def reads_more)
  show ?thesis
  proof (cases call)
    case (RC_Discover now)
    with inner_begin_ok [OF assms(1)] up show ?thesis by (simp add: begin_discovery_def case_prod_beta)
  next
    case (RC_Focus now)
    with inner_begin_ok [OF assms(1), of now True] assms(1) up show ?thesis
      by (auto simp: begin_focus_discovery_def Let_def case_prod_beta split: prod.splits)
  next
    case (RC_Discovered r result)
    with complete_discovery_ok [OF assms(1)] up show ?thesis by simp
  next
    case (RC_Read snap)
    with begin_snapshot_ok [OF assms] show ?thesis by simp
  next
    case (RC_ReadDone i snapshot)
    with finish_read_ok [OF assms(1)] assms(1) up show ?thesis by (cases "i < length (rd_futures s)") auto
  next
    case (RC_Readback snap snapshot)
    then show ?thesis
      using drop_page_ok [OF assms(1), of snap] assms(1)
      by (intro up) (auto simp: apply_readback_def split: option.split)
  next
    case (RC_CancelPage snap)
    then show ?thesis
      using drop_page_ok [OF assms(1), of snap] assms(1)
      by (intro up) (auto simp: cancel_page_def split: option.split)
  next
    case RC_CancelAll
    with cancel_all_ok [OF assms(1)] up show ?thesis by simp
  qed
qed

lemma reads_run_ok: "reads_ok n s \<Longrightarrow> n + length calls < 2 ^ 64 \<Longrightarrow> reads_ok (n + length calls) (foldl read_step s calls)"
proof (induction calls arbitrary: n s)
  case Nil
  then show ?case by simp
next
  case (Cons call calls)
  have "reads_ok (Suc n) (read_step s call)" using Cons.prems by (intro read_step_ok) simp_all
  from Cons.IH [OF this] Cons.prems(2) show ?case by simp
qed

lemma reads_new_ok: "reads_ok 0 reads_new"
  by (simp add: reads_ok_def reads_new_def controller_default_def pages_ok_def btree_def reads_inv_def)

text \<open>
  C19: a page shows the read it waits for, and never an overtaken one. Whatever discoveries,
  reads, read-backs and cancellations there were, up to \<open>2 ^ 64\<close> of them: a running read whose
  token is live is the only live one of its page, the page shows that it loads, and when the
  read comes back it is shown and the loading ends; a running read whose token was cancelled,
  by a newer read, a read-back, the page's cancellation or the model's removal, changes
  nothing when it comes back; and a page that shows it loads has a live read running.
\<close>

theorem reads_land:
  assumes "length calls < 2 ^ 64"
  defines "s \<equiv> foldl read_step reads_new calls"
  shows "(\<forall>i < length (rd_futures s). let r = rd_futures s ! i; c = rd_controller s; c' = rd_controller (read_step s (RC_ReadDone i snapshot)) in
      if is_cancelled (sq_token r) (bc_flags c) then c' = c
      else (\<exists>e. map_of (bc_pages c) (sq_snap r) = Some e \<and> pe_loading e)
        \<and> (\<exists>e'. map_of (bc_pages c') (sq_snap r) = Some e' \<and> \<not> pe_loading e' \<and> pe_snapshot e' = Some snapshot)
        \<and> (\<forall>j < length (rd_futures s). sq_snap (rd_futures s ! j) = sq_snap r \<and> \<not> is_cancelled (sq_token (rd_futures s ! j)) (bc_flags c) \<longrightarrow> j = i))
    \<and> (\<forall>name e. map_of (bc_pages (rd_controller s)) name = Some e \<and> pe_loading e
         \<longrightarrow> (\<exists>r \<in> set (rd_futures s). sq_snap r = name \<and> \<not> is_cancelled (sq_token r) (bc_flags (rd_controller s))))"
proof -
  let ?c = "rd_controller s" and ?fs = "rd_futures s"
  have rok: "reads_ok (length calls) s" unfolding s_def using reads_run_ok [OF reads_new_ok] assms(1) by simp
  then have inv: "reads_inv (length calls) (map_of (bc_pages ?c)) (bc_discovery_token ?c) (bc_flags ?c) ?fs" and ok: "pages_ok ?c"
    by (simp_all add: reads_ok_def)
  have "let r = ?fs ! i; c' = rd_controller (read_step s (RC_ReadDone i snapshot)) in
      if is_cancelled (sq_token r) (bc_flags ?c) then c' = ?c
      else (\<exists>e. map_of (bc_pages ?c) (sq_snap r) = Some e \<and> pe_loading e)
        \<and> (\<exists>e'. map_of (bc_pages c') (sq_snap r) = Some e' \<and> \<not> pe_loading e' \<and> pe_snapshot e' = Some snapshot)
        \<and> (\<forall>j < length ?fs. sq_snap (?fs ! j) = sq_snap r \<and> \<not> is_cancelled (sq_token (?fs ! j)) (bc_flags ?c) \<longrightarrow> j = i)"
    if i: "i < length ?fs" for i
  proof (cases "is_cancelled (sq_token (?fs ! i)) (bc_flags ?c)")
    case True
    with i show ?thesis by (simp add: finish_read_def)
  next
    case False
    obtain e where e: "map_of (bc_pages ?c) (sq_snap (?fs ! i)) = Some e" "awaits e (?fs ! i)" "pe_loading e"
        "pe_latest_completed_snapshot e < sq_generation (?fs ! i)"
      using reads_landed [OF inv i False] by metis
    have "j = i" if j: "j < length ?fs" "sq_snap (?fs ! j) = sq_snap (?fs ! i)" "\<not> is_cancelled (sq_token (?fs ! j)) (bc_flags ?c)" for j
    proof -
      obtain e' where "map_of (bc_pages ?c) (sq_snap (?fs ! j)) = Some e'" "awaits e' (?fs ! j)"
        using reads_landed [OF inv j(1) j(3)] by metis
      with e j(2) have "sq_token (?fs ! j) = sq_token (?fs ! i)" by (auto simp: awaits_def)
      moreover have "distinct (map sq_token ?fs)" using inv by (simp add: reads_inv_def)
      ultimately show ?thesis using i j(1) by (simp add: distinct_conv_nth) metis
    qed
    with e i False show ?thesis
      by (auto simp: Let_def finish_read_def complete_snapshot_def awaits_def btree_insert_pages [OF ok])
  qed
  moreover have "\<exists>r \<in> set ?fs. sq_snap r = name \<and> \<not> is_cancelled (sq_token r) (bc_flags ?c)"
    if "map_of (bc_pages ?c) name = Some e" "pe_loading e" for name e
    using inv that unfolding reads_inv_def entry_ok_def by (metis option.exhaust)
  ultimately show ?thesis by (auto simp: Let_def)
qed


text \<open>Two reads of one page: the first is cancelled by the second, which is shown.\<close>

definition two_reads :: "read_call list" where
  "two_reads = [RC_Discover 0, RC_Discovered \<lparr>dr_generation = 1, dr_token = 0, dr_quiet = False\<rparr> (Inr two_models),
     RC_Read (lit ''myna-parakeet''), RC_Read (lit ''myna-parakeet'')]"

lemma two_reads_futures:
  "rd_futures (foldl read_step reads_new two_reads)
     = [\<lparr>sq_snap = lit ''myna-parakeet'', sq_generation = 1, sq_token = 1\<rparr>, \<lparr>sq_snap = lit ''myna-parakeet'', sq_generation = 2, sq_token = 2\<rparr>]
   \<and> bc_flags (rd_controller (foldl read_step reads_new two_reads)) = [False, True, False]"
  by code_simp

theorem reads_land_witness:
  "\<exists>e. map_of (bc_pages (rd_controller (read_step (foldl read_step reads_new two_reads) (RC_ReadDone 1 (snapshot_empty parakeet_backend)))))
      (lit ''myna-parakeet'') = Some e \<and> \<not> pe_loading e \<and> pe_snapshot e = Some (snapshot_empty parakeet_backend)"
proof -
  have "length two_reads < 2 ^ 64" by (simp add: two_reads_def)
  from reads_land [OF this, of "snapshot_empty parakeet_backend"] two_reads_futures show ?thesis
    by (auto simp: Let_def is_cancelled_def dest!: spec [of _ 1])
qed

end
