(* ===== verification/Pkexec.thy ===== *)
theory Pkexec
  imports Active_Backend "HOL-Library.Countable"
begin

text \<open>
  The unprivileged end of a privileged plan, \<open>client/myna-config/src/adapters/system_configurator.rs\<close>:
  one \<open>pkexec\<close> of this binary runs the whole plan (\<open>Apply_Plan\<close>), and what it prints is read
  back. serde's encoding and decoding and the runner of commands are parameters. A timeout is
  carried as \<open>duration_text\<close> words it.
\<close>

section \<open>Errors\<close>

datatype output_stream = OS_Stdout | OS_Stderr

datatype command_error =
    CE_NotFound ustr
  | CE_Spawn ustr ustr
  | CE_Timeout ustr
  | CE_Cancelled
  | CE_NonZero "int option" ustr ustr
  | CE_InvalidUtf8 output_stream ustr
  | CE_FakeScriptExhausted

record command_output =
  co_exit_status :: "int option"
  co_stdout :: ustr
  co_stderr :: ustr

definition command_failure :: "ustr \<Rightarrow> ustr list \<Rightarrow> int option \<Rightarrow> ustr \<Rightarrow> ustr \<Rightarrow> failed_step \<times> ustr" where
  "command_failure executable arguments st err fallback_text =
     (FS_Command executable arguments st err, if trim err = [] then fallback_text else trim err)"

definition authorization_denied :: "ustr \<Rightarrow> ustr list \<Rightarrow> int option \<Rightarrow> ustr \<Rightarrow> system_configurator_error" where
  "authorization_denied executable arguments st err =
     (let (step, message) = command_failure executable arguments st err (lit ''authorization denied'')
      in SC_AuthorizationDenied step message)"

definition values_rejected :: "ustr \<Rightarrow> ustr list \<Rightarrow> int option \<Rightarrow> ustr \<Rightarrow> system_configurator_error" where
  "values_rejected executable arguments st err =
     (let (step, message) = command_failure executable arguments st err (lit ''the model rejected the requested values'')
      in SC_ValuesRejected step message)"

definition execution :: "ustr \<Rightarrow> ustr list \<Rightarrow> int option \<Rightarrow> ustr \<Rightarrow> ustr \<Rightarrow> system_configurator_error" where
  "execution executable arguments st err message = SC_Execution (FS_Command executable arguments st err) message"

definition primary_detail :: "ustr \<Rightarrow> ustr \<Rightarrow> ustr" where
  "primary_detail err out =
     (if trim err \<noteq> [] then trim err else if trim out \<noteq> [] then trim out else lit ''privileged command failed'')"

fun map_command_error :: "ustr \<Rightarrow> ustr list \<Rightarrow> command_error \<Rightarrow> system_configurator_error" where
  "map_command_error executable arguments CE_Cancelled = SC_Cancelled"
| "map_command_error executable arguments (CE_NonZero st out err) =
     (if executable = lit ''pkexec'' \<and> st \<in> {Some 126, Some 127} then authorization_denied executable arguments st err
      else execution executable arguments st err (primary_detail err out))"
| "map_command_error executable arguments (CE_Timeout t) =
     execution executable arguments None [] (lit ''timed out after '' @ t)"
| "map_command_error executable arguments (CE_NotFound missing) =
     execution executable arguments None [] (lit ''command not found: '' @ missing)"
| "map_command_error executable arguments (CE_Spawn _ message) = execution executable arguments None [] message"
| "map_command_error executable arguments (CE_InvalidUtf8 _ message) = execution executable arguments None [] message"
| "map_command_error executable arguments CE_FakeScriptExhausted =
     execution executable arguments None [] (lit ''fake command runner has no scripted outcome'')"

definition is_modelctl_set :: "command_result \<Rightarrow> bool" where
  "is_modelctl_set r \<longleftrightarrow> (case cmd_arguments r of a # _ # c # _ \<Rightarrow> a = lit ''run'' \<and> c = lit ''set'' | _ \<Rightarrow> False)"

definition map_operation_failure :: "command_result \<Rightarrow> system_configurator_error" where
  "map_operation_failure failed =
     (let detail = primary_detail (cmd_stderr failed) (cmd_stdout failed) in
      if is_modelctl_set failed then
        (case values_rejected (cmd_executable failed) (cmd_arguments failed) (cmd_exit_status failed) (cmd_stderr failed) of
           SC_ValuesRejected step _ \<Rightarrow> SC_ValuesRejected step detail
         | other \<Rightarrow> other)
      else execution (cmd_executable failed) (cmd_arguments failed) (cmd_exit_status failed) (cmd_stderr failed) detail)"

section \<open>Running the plan under pkexec\<close>

text \<open>serde's two directions of the two JSON forms: encoding a plan and its results, decoding them.\<close>

record plan_codec =
  pc_encode_plan :: "plan_operation list \<Rightarrow> ustr + ustr"
  pc_decode_plan :: "ustr \<Rightarrow> ustr + plan_operation list"
  pc_encode_results :: "plan_result list \<Rightarrow> ustr"
  pc_decode_results :: "ustr \<Rightarrow> ustr + plan_result list"

fun plan_flag :: "plan_kind \<Rightarrow> ustr" where
  "plan_flag PK_Apply = lit ''--apply-plan''"
| "plan_flag PK_SetUp = lit ''--set-up''"

definition plan_of :: "command_request list \<Rightarrow> plan_operation list" where
  "plan_of = map (\<lambda>r. \<lparr>op_executable = cr_executable r, op_arguments = cr_arguments r\<rparr>)"

definition result_of :: "plan_result \<Rightarrow> command_result" where
  "result_of r = \<lparr>cmd_executable = pr_executable r, cmd_arguments = pr_arguments r, cmd_exit_status = pr_exit_status r,
     cmd_stdout = pr_stdout r, cmd_stderr = pr_stderr r\<rparr>"

definition encode_plan :: "plan_codec \<Rightarrow> plan_kind \<Rightarrow> command_request list \<Rightarrow> ustr + ustr" where
  "encode_plan js k operations =
     (case validate_plan k (plan_of operations) of
        Inl message \<Rightarrow> Inl message
      | Inr _ \<Rightarrow> pc_encode_plan js (plan_of operations))"

definition decode_results :: "plan_codec \<Rightarrow> ustr \<Rightarrow> ustr + command_result list" where
  "decode_results js out = map_sum id (map result_of) (pc_decode_results js out)"

definition STORE_ERROR_PREFIX :: ustr where "STORE_ERROR_PREFIX = lit ''myna-config: store: ''"

definition PKEXEC_ENVIRONMENT_REFUSED :: ustr where "PKEXEC_ENVIRONMENT_REFUSED = lit ''This incident has been reported.''"

definition log_store_errors :: "ustr \<Rightarrow> ustr list" where
  "log_store_errors err = filter (starts_with STORE_ERROR_PREFIX) (rust_lines err)"

definition failure_of :: "command_result list \<Rightarrow> system_configurator_error \<Rightarrow> configurator_failure" where
  "failure_of completed e = \<lparr>cf_completed = completed, cf_error = e\<rparr>"

definition plan_failed :: "plan_codec \<Rightarrow> ustr list \<Rightarrow> int option \<Rightarrow> ustr \<Rightarrow> ustr \<Rightarrow> configurator_failure" where
  "plan_failed js arguments st out err =
     (case decode_results js out of
        Inl _ \<Rightarrow> failure_of [] (execution (lit ''pkexec'') arguments st err (primary_detail err out))
      | Inr results \<Rightarrow>
          if results \<noteq> [] \<and> cmd_exit_status (last results) \<noteq> Some 0
          then failure_of (butlast results) (map_operation_failure (last results))
          else failure_of (butlast results)
            (execution (lit ''pkexec'') arguments st err (lit ''apply plan failed without reporting a failed operation'')))"

definition non_zero_exit :: "plan_codec \<Rightarrow> ustr list \<Rightarrow> int option \<Rightarrow> ustr \<Rightarrow> ustr \<Rightarrow> configurator_failure" where
  "non_zero_exit js arguments st out err =
     (if st = Some 126 then failure_of [] SC_Cancelled
      else if st = Some 127 \<and> split_once_str PKEXEC_ENVIRONMENT_REFUSED err \<noteq> None
        then failure_of [] (execution (lit ''pkexec'') arguments st err (primary_detail err out))
      else if st = Some 127 then failure_of [] (authorization_denied (lit ''pkexec'') arguments st err)
      else plan_failed js arguments st out err)"

type_synonym 'w runner = "('w \<Rightarrow> bool) \<Rightarrow> command_request \<Rightarrow> 'w \<Rightarrow> (command_error + command_output) \<times> 'w"

definition pkexec_request :: "ustr \<Rightarrow> plan_kind \<Rightarrow> ustr \<Rightarrow> command_request" where
  "pkexec_request executor k plan = \<lparr>cr_executable = lit ''pkexec'', cr_arguments = [executor, plan_flag k, plan]\<rparr>"

fun plan_answer :: "plan_codec \<Rightarrow> ustr list \<Rightarrow> command_error + command_output \<Rightarrow> configurator_failure + command_result list" where
  "plan_answer js arguments (Inr out) =
     (case decode_results js (co_stdout out) of
        Inr results \<Rightarrow> Inr results
      | Inl message \<Rightarrow> Inl (failure_of []
          (execution (lit ''pkexec'') arguments (co_exit_status out) (co_stderr out) (lit ''apply plan produced unreadable results: '' @ message))))"
| "plan_answer js arguments (Inl (CE_NonZero st out err)) = Inl (non_zero_exit js arguments st out err)"
| "plan_answer js arguments (Inl e) = Inl (failure_of [] (map_command_error (lit ''pkexec'') arguments e))"

fun logged :: "command_error + command_output \<Rightarrow> ustr list" where
  "logged (Inr out) = log_store_errors (co_stderr out)"
| "logged (Inl (CE_NonZero st out err)) = log_store_errors err"
| "logged (Inl e) = []"

definition execute_plan :: "plan_codec \<Rightarrow> 'w runner \<Rightarrow> ustr \<Rightarrow> plan_kind \<Rightarrow> command_request list \<Rightarrow> ('w \<Rightarrow> bool) \<Rightarrow> 'w
    \<Rightarrow> ustr list \<times> (configurator_failure + command_result list) \<times> 'w" where
  "execute_plan js r executor k operations cancelled w =
     (case encode_plan js k operations of
        Inl message \<Rightarrow> ([], Inl (failure_of [] (execution (lit ''pkexec'') [] None [] (lit ''invalid apply plan: '' @ message))), w)
      | Inr plan \<Rightarrow>
          (let request = pkexec_request executor k plan; (outcome, w') = r cancelled request w
           in (logged outcome, plan_answer js (cr_arguments request) outcome, w')))"

text \<open>The set-up's operations, and the adapter's \<open>set_up\<close>.\<close>

record set_up_plan =
  su_flag :: bool
  su_installs :: "ustr list"
  su_connect :: "ustr option"

definition set_up_operations :: "set_up_plan \<Rightarrow> ustr list list" where
  "set_up_operations p =
     (if su_flag p then [[lit ''set'', lit ''system'', lit ''experimental.user-daemons=true'']] else [])
     @ map (\<lambda>snap. [lit ''install'', lit ''--edge'', snap]) (su_installs p)
     @ (case su_connect p of Some snap \<Rightarrow> [[lit ''connect'', lit ''myna:backend'', snap @ lit '':provider'']] | None \<Rightarrow> [])"

definition set_up :: "plan_codec \<Rightarrow> 'w runner \<Rightarrow> ustr \<Rightarrow> set_up_plan \<Rightarrow> ('w \<Rightarrow> bool) \<Rightarrow> 'w
    \<Rightarrow> ustr list \<times> (system_configurator_error + unit) \<times> 'w" where
  "set_up js r executor p cancelled w =
     (let operations = map (\<lambda>args. \<lparr>cr_executable = lit ''snap'', cr_arguments = args\<rparr>) (set_up_operations p);
          (logs, result, w') = execute_plan js r executor PK_SetUp operations cancelled w
      in (logs, case result of Inr _ \<Rightarrow> Inr () | Inl f \<Rightarrow> Inl (cf_error f), w'))"

section \<open>What is reported is what ran\<close>

text \<open>
  serde reads back what it wrote. The runner of commands answers a \<open>pkexec\<close> of the executor in
  one of three ways. The executor ended, and the answer is its exit code and what it printed.
  Or \<open>pkexec\<close> ended without starting it, the prompt dismissed (126) or refused (127). Or the
  answer says nothing of the executor: it could not be started, the wait was cancelled, timed out
  or failed, the output was no text, or a signal ended the executor, before or after it printed
  its results. Then whatever had run by that time is a prefix of what the executor would have run,
  possibly none of it and possibly all. \<open>rlog\<close> is what has run as root.
\<close>

definition codec_faithful :: "plan_codec \<Rightarrow> bool" where
  "codec_faithful js \<longleftrightarrow> (\<forall>plan s. pc_encode_plan js plan = Inr s \<longrightarrow> pc_decode_plan js s = Inr plan)
     \<and> (\<forall>rs. pc_decode_results js (pc_encode_results js rs) = Inr rs)"

definition executor_answer :: "plan_codec \<Rightarrow> plan_exit \<times> plan_result list \<times> plan_operation list \<times> ustr list \<Rightarrow> command_error + command_output" where
  "executor_answer js run =
     (case run of (x, rs, cmds, errs) \<Rightarrow>
        let out = (if x = PE_InvalidPlan then [] else pc_encode_results js rs); err = concat (map (\<lambda>e. e @ [10]) errs) in
        if x = PE_Success then Inr \<lparr>co_exit_status = Some 0, co_stdout = out, co_stderr = err\<rparr>
        else Inl (CE_NonZero (Some (plan_exit_code x)) out err))"

fun not_started :: "command_error + command_output \<Rightarrow> bool" where
  "not_started (Inl (CE_NonZero st out err)) = (st = Some 126 \<or> st = Some 127)"
| "not_started _ = False"

fun cut_short :: "plan_codec \<Rightarrow> command_error + command_output \<Rightarrow> bool" where
  "cut_short js (Inl (CE_NonZero st out err)) = (st = None \<and> isl (pc_decode_results js out))"
| "cut_short js (Inl e) = True"
| "cut_short js (Inr out) = False"

definition killed_at_end :: "plan_codec \<Rightarrow> plan_result list \<Rightarrow> command_error + command_output \<Rightarrow> bool" where
  "killed_at_end js rs answer \<longleftrightarrow> (\<exists>err. answer = Inl (CE_NonZero None (pc_encode_results js rs) err))"

definition pkexec_honest :: "plan_codec \<Rightarrow> world \<Rightarrow> ustr \<Rightarrow> ('w \<Rightarrow> plan_operation list) \<Rightarrow> 'w runner \<Rightarrow> bool" where
  "pkexec_honest js ws executor rlog r \<longleftrightarrow>
     (\<forall>k s cancelled w. let (answer, w') = r cancelled (pkexec_request executor k s) w; run = run_plan ws k (pc_decode_plan js s) in
        (answer = executor_answer js run \<or> killed_at_end js (fst (snd run)) answer) \<and> rlog w' = rlog w @ fst (snd (snd run))
        \<or> not_started answer \<and> rlog w' = rlog w
        \<or> cut_short js answer \<and> (\<exists>n. rlog w' = rlog w @ take n (fst (snd (snd run)))))"

definition reports_run :: "plan_operation list \<Rightarrow> plan_exit \<times> plan_result list \<times> plan_operation list \<times> ustr list
    \<Rightarrow> configurator_failure + command_result list \<Rightarrow> bool" where
  "reports_run plan run answer \<longleftrightarrow>
     (case run of (x, rs, cmds, errs) \<Rightarrow>
        case answer of
          Inr results \<Rightarrow> x = PE_Success \<and> results = map result_of rs \<and> length rs = length plan
        | Inl f \<Rightarrow> x = PE_OperationFailed \<and> rs \<noteq> [] \<and> cf_completed f = map result_of (butlast rs)
            \<and> cf_error f = map_operation_failure (result_of (last rs)))"

text \<open>
  What the adapter claims of a run it has no report of: that no command completed, or, where the
  executor was killed with its results printed, all the results but the last.
\<close>

definition claims_no_more :: "plan_exit \<times> plan_result list \<times> plan_operation list \<times> ustr list \<Rightarrow> plan_operation list
    \<Rightarrow> configurator_failure + command_result list \<Rightarrow> bool" where
  "claims_no_more run begun answer \<longleftrightarrow>
     (case run of (x, rs, cmds, errs) \<Rightarrow>
        (\<exists>n. begun = take n cmds)
        \<and> (case answer of
             Inr _ \<Rightarrow> False
           | Inl f \<Rightarrow> (\<forall>step m. cf_error f \<noteq> SC_AuthorizationDenied step m)
               \<and> (cf_completed f = [] \<or> begun = cmds \<and> cf_completed f = map result_of (butlast rs))))"

lemma not_started_answer:
  "not_started answer \<Longrightarrow> \<exists>f. plan_answer js arguments answer = Inl f \<and> cf_completed f = []"
  by (cases answer rule: not_started.cases) (auto simp: non_zero_exit_def failure_of_def)

lemma map_operation_failure_cases: "(\<exists>step m. map_operation_failure r = SC_ValuesRejected step m) \<or> (\<exists>step m. map_operation_failure r = SC_Execution step m)"
  by (auto simp: map_operation_failure_def values_rejected_def command_failure_def execution_def Let_def)

lemma cut_short_answer:
  assumes "cut_short js answer"
  shows "claims_no_more (x, rs, cmds, errs) (take n cmds) (plan_answer js arguments answer)"
proof -
  obtain e where a: "answer = Inl e" using assms by (cases answer) auto
  have "\<exists>f. plan_answer js arguments answer = Inl f \<and> cf_completed f = [] \<and> (\<forall>step m. cf_error f \<noteq> SC_AuthorizationDenied step m)"
  proof (cases e)
    case (CE_NonZero st out err)
    with a assms obtain m where "st = None" "pc_decode_results js out = Inl m" by (auto simp: isl_def)
    with a CE_NonZero show ?thesis by (simp add: non_zero_exit_def plan_failed_def decode_results_def failure_of_def execution_def)
  qed (use a in \<open>simp_all add: failure_of_def execution_def\<close>)
  then show ?thesis by (auto simp: claims_no_more_def)
qed

lemma killed_at_end_answer:
  assumes "codec_faithful js" and "killed_at_end js rs answer"
  shows "claims_no_more (x, rs, cmds, errs) cmds (plan_answer js arguments answer)"
proof -
  have "decode_results js (pc_encode_results js rs) = Inr (map result_of rs)"
    using assms(1) by (simp add: decode_results_def codec_faithful_def)
  then show ?thesis
    using assms(2) map_operation_failure_cases [of "last (map result_of rs)"]
    by (auto simp: killed_at_end_def claims_no_more_def non_zero_exit_def plan_failed_def failure_of_def execution_def map_butlast
        intro: exI [of _ "length cmds"])
qed

lemma executor_answer_reports:
  assumes "codec_faithful js" and "validate_plan k plan = Inr ()"
  shows "reports_run plan (run_plan ws k (Inr plan)) (plan_answer js arguments (executor_answer js (run_plan ws k (Inr plan))))"
proof -
  obtain x rs cmds errs where run: "run_plan ws k (Inr plan) = (x, rs, cmds, errs)" by (cases "run_plan ws k (Inr plan)") auto
  have "run_operations ws 0 plan = (x, rs, cmds, errs)" using run assms(2) by (simp add: run_plan_def)
  note spec = run_operations_spec [OF this, THEN conjunct1, unfolded stopped_right_def]
  have dec: "decode_results js (pc_encode_results js rs) = Inr (map result_of rs)"
    using assms(1) by (simp add: decode_results_def codec_faithful_def)
  show ?thesis
  proof (cases x)
    case PE_Success
    with run spec dec show ?thesis by (simp add: reports_run_def executor_answer_def)
  next
    case PE_OperationFailed
    moreover from this spec have "map result_of rs \<noteq> []" "cmd_exit_status (last (map result_of rs)) \<noteq> Some 0"
      by (auto simp: last_map result_of_def)
    ultimately show ?thesis
      using run spec dec
      by (simp add: reports_run_def executor_answer_def non_zero_exit_def plan_failed_def failure_of_def map_butlast last_map)
  next
    case PE_InvalidPlan
    with spec show ?thesis by simp
  qed
qed

lemma execute_plan_run:
  assumes "codec_faithful js" and "pkexec_honest js ws executor rlog r"
    and "execute_plan js r executor k operations cancelled w = (logs, answer, w')"
  shows "rlog w' = rlog w \<and> (\<exists>f. answer = Inl f \<and> cf_completed f = [])
    \<or> validate_plan k (plan_of operations) = Inr ()
      \<and> (\<exists>begun. rlog w' = rlog w @ begun
           \<and> (let run = run_plan ws k (Inr (plan_of operations)) in
                begun = fst (snd (snd run)) \<and> reports_run (plan_of operations) run answer \<or> claims_no_more run begun answer))"
proof (cases "encode_plan js k operations")
  case (Inl message)
  with assms(3) show ?thesis by (auto simp: execute_plan_def failure_of_def)
next
  case (Inr s)
  have v: "validate_plan k (plan_of operations) = Inr ()" and "pc_encode_plan js (plan_of operations) = Inr s"
    using Inr by (auto simp: encode_plan_def split: sum.splits)
  then have s: "pc_decode_plan js s = Inr (plan_of operations)" using assms(1) by (auto simp: codec_faithful_def)
  let ?q = "pkexec_request executor k s"
  obtain outcome where r: "r cancelled ?q w = (outcome, w')" and a: "answer = plan_answer js (cr_arguments ?q) outcome"
    using assms(3) Inr by (auto simp: execute_plan_def Let_def split: prod.splits)
  obtain x rs cmds errs where run: "run_plan ws k (Inr (plan_of operations)) = (x, rs, cmds, errs)"
    by (cases "run_plan ws k (Inr (plan_of operations))") auto
  note honest = assms(2) [unfolded pkexec_honest_def Let_def, rule_format, where k = k and s = s and cancelled = cancelled and w = w]
  from honest consider (ended) "outcome = executor_answer js (x, rs, cmds, errs)" "rlog w' = rlog w @ cmds"
    | (killed) "killed_at_end js rs outcome" "rlog w' = rlog w @ cmds"
    | (refused) "not_started outcome" "rlog w' = rlog w"
    | (short) n where "cut_short js outcome" "rlog w' = rlog w @ take n cmds"
    by (auto simp: r s run Let_def)
  then show ?thesis
  proof cases
    case ended
    with executor_answer_reports [OF assms(1) v, of ws] v a run show ?thesis by (auto simp: Let_def)
  next
    case killed
    with killed_at_end_answer [OF assms(1)] v a run show ?thesis by (auto simp: Let_def)
  next
    case refused
    with not_started_answer a show ?thesis by auto
  next
    case short
    with cut_short_answer v a run show ?thesis by (auto simp: Let_def)
  qed
qed


text \<open>
  A codec that numbers plans and results, a \<open>pkexec\<close> that runs the executor, or, when the user
  cancels, is stopped after the first command, and a machine where every command succeeds: an
  apply that restarts the model ran it; a cancelled one ran it too, and reports no command.
\<close>

definition number_codec :: plan_codec where
  "number_codec = \<lparr>pc_encode_plan = (\<lambda>plan. Inr [to_nat (map (\<lambda>p. (op_executable p, op_arguments p)) plan)]),
     pc_decode_plan = (\<lambda>s. Inr (map (\<lambda>(e, a). \<lparr>op_executable = e, op_arguments = a\<rparr>) (from_nat (hd s)))),
     pc_encode_results = (\<lambda>rs. [to_nat (map (\<lambda>r. (pr_executable r, pr_arguments r, pr_exit_status r, pr_stdout r, pr_stderr r)) rs)]),
     pc_decode_results = (\<lambda>s. Inr (map (\<lambda>(e, a, x, out, err).
        \<lparr>pr_executable = e, pr_arguments = a, pr_exit_status = x, pr_stdout = out, pr_stderr = err\<rparr>) (from_nat (hd s))))\<rparr>"

lemma number_codec_faithful: "codec_faithful number_codec"
  by (auto simp: codec_faithful_def number_codec_def comp_def intro: map_idI)

fun kind_of_flag :: "ustr \<Rightarrow> plan_kind" where
  "kind_of_flag f = (if f = plan_flag PK_Apply then PK_Apply else PK_SetUp)"

definition root_runner :: "world \<Rightarrow> plan_operation list runner" where
  "root_runner ws cancelled q cmds =
     (case cr_arguments q of
        [_, f, s] \<Rightarrow> (let run = run_plan ws (kind_of_flag f) (pc_decode_plan number_codec s)
                      in if cancelled cmds then (Inl CE_Cancelled, cmds @ take 1 (fst (snd (snd run))))
                         else (executor_answer number_codec run, cmds @ fst (snd (snd run))))
      | _ \<Rightarrow> (Inl (CE_NotFound []), cmds))"

definition all_well :: world where
  "all_well n p = Ran (Some 0) [] []"

lemma root_runner_honest: "pkexec_honest number_codec ws executor id (root_runner ws)"
proof -
  have "kind_of_flag (plan_flag k) = k" for k by (cases k) simp_all
  then show ?thesis by (auto simp: pkexec_honest_def root_runner_def pkexec_request_def Let_def simp del: kind_of_flag.simps plan_flag.simps)
qed


end
