(* ===== verification/Backend_Apply.thy ===== *)
theory Backend_Apply
  imports Backend_Controller Pkexec
begin

text \<open>
  Applying a model's settings, \<open>client/myna-config/src/backend_apply.rs\<close>: the plan of privileged
  commands for a change, and the apply that runs it and waits until the model answers with
  the values asked for. serde's text of a number and of a string are parameters, as are the
  configurator and the repository, functions over a state of the outside world.
\<close>

section \<open>The preview\<close>

record json_text =
  jt_number :: "f64 \<Rightarrow> ustr option"
  jt_string :: "ustr \<Rightarrow> ustr + ustr"

record validation_issue =
  vi_title :: ustr
  vi_message :: ustr

datatype prepare_apply_error = PA_NoChanges | PA_Invalid "validation_issue list"

record apply_preview =
  av_backend :: backend_identity
  av_changes :: "staged_change list"
  av_operations :: "command_request list"

definition issue :: "ustr \<Rightarrow> ustr \<Rightarrow> validation_issue" where
  "issue title message = \<lparr>vi_title = title, vi_message = message\<rparr>"

definition int_text :: "int \<Rightarrow> ustr" where
  "int_text i = (if i < 0 then lit ''-'' @ dec_digits (nat (- i)) else dec_digits (nat i))"

fun serialize_value :: "(ustr \<Rightarrow> ustr) \<Rightarrow> json_text \<Rightarrow> config_value \<Rightarrow> ustr + ustr" where
  "serialize_value tr js CV_Null = Inr (lit ''null'')"
| "serialize_value tr js (CV_Boolean b) = Inr (if b then lit ''true'' else lit ''false'')"
| "serialize_value tr js (CV_Integer i) = Inr (int_text i)"
| "serialize_value tr js (CV_Number b) =
     (case jt_number js b of Some t \<Rightarrow> Inr t | None \<Rightarrow> Inl (tr (lit ''value must be a finite number'')))"
| "serialize_value tr js (CV_Text s) = jt_string js s"

definition serialize_assignment :: "(ustr \<Rightarrow> ustr) \<Rightarrow> json_text \<Rightarrow> ustr \<Rightarrow> config_value \<Rightarrow> ustr + ustr" where
  "serialize_assignment tr js key v = map_sum id (\<lambda>t. key @ lit ''='' @ t) (serialize_value tr js v)"

definition validate_backend_identity :: "(ustr \<Rightarrow> ustr) \<Rightarrow> backend_identity \<Rightarrow> validation_issue list" where
  "validate_backend_identity tr b =
     (if trim (bi_snap_name b) = []
      then [issue (tr (lit ''Model'')) (tr (lit ''the model's restart command could not be built''))] else [])"

text \<open>What the loop over the changes gathers.\<close>

record gathered_changes =
  ga_issues :: "validation_issue list"
  ga_assignments :: "ustr list"
  ga_model :: "ustr option"
  ga_engine :: "ustr option"

definition gather_change :: "(ustr \<Rightarrow> ustr) \<Rightarrow> json_text \<Rightarrow> staged_change \<Rightarrow> gathered_changes \<Rightarrow> gathered_changes" where
  "gather_change tr js c g =
     (if sg_key c = lit ''model'' \<or> sg_key c = lit ''engine'' then
        (case sg_proposed c of
           CV_Text v \<Rightarrow> if sg_key c = lit ''model'' then g\<lparr>ga_model := Some v\<rparr> else g\<lparr>ga_engine := Some v\<rparr>
         | _ \<Rightarrow> g\<lparr>ga_issues := ga_issues g @ [issue (sg_key c) (tr (lit ''selector value must be text''))]\<rparr>)
      else
        (case serialize_assignment tr js (sg_key c) (sg_proposed c) of
           Inr argument \<Rightarrow> g\<lparr>ga_assignments := ga_assignments g @ [argument]\<rparr>
         | Inl message \<Rightarrow> g\<lparr>ga_issues := ga_issues g @ [issue (sg_key c) message]\<rparr>))"

definition snap_request :: "ustr list \<Rightarrow> command_request" where
  "snap_request args = \<lparr>cr_executable = lit ''snap'', cr_arguments = args\<rparr>"

definition modelctl_set_operation :: "ustr \<Rightarrow> ustr list \<Rightarrow> command_request" where
  "modelctl_set_operation app assignments =
     snap_request ([lit ''run'', app, lit ''set''] @ assignments @ [lit ''--assume-yes'', lit ''--no-restart''])"

definition modelctl_operation :: "ustr \<Rightarrow> ustr \<Rightarrow> ustr option \<Rightarrow> command_request" where
  "modelctl_operation app selector v =
     snap_request ([lit ''run'', app, selector] @ [case v of Some v \<Rightarrow> v | None \<Rightarrow> lit ''--auto''] @ [lit ''--assume-yes'', lit ''--no-restart''])"

definition modelctl_prune_operation :: "ustr \<Rightarrow> command_request" where
  "modelctl_prune_operation app = snap_request [lit ''run'', app, lit ''prune-cache'']"

definition option_list :: "'a option \<Rightarrow> 'a list" where
  "option_list x = (case x of Some a \<Rightarrow> [a] | None \<Rightarrow> [])"

definition preview_operations :: "ustr \<Rightarrow> ustr \<Rightarrow> gathered_changes \<Rightarrow> command_request list" where
  "preview_operations snap app g =
     (if ga_assignments g = [] then [] else [modelctl_set_operation app (ga_assignments g)])
     @ option_list (map_option (\<lambda>m. modelctl_operation app (lit ''use-model'') (Some m)) (ga_model g))
     @ option_list (map_option (\<lambda>e. modelctl_operation app (lit ''use-engine'') (if e = lit ''auto'' then None else Some e)) (ga_engine g))
     @ [snap_request [lit ''restart'', snap]]
     @ (if ga_model g \<noteq> None \<or> ga_engine g \<noteq> None then [modelctl_prune_operation app] else [])"

definition apply_preview_new :: "(ustr \<Rightarrow> ustr) \<Rightarrow> json_text \<Rightarrow> backend_identity \<Rightarrow> staged_change list \<Rightarrow> prepare_apply_error + apply_preview" where
  "apply_preview_new tr js backend changes =
     (if changes = [] then Inl PA_NoChanges
      else
        let changes = sort_key sg_key changes;
            g = fold (gather_change tr js) changes
                  \<lparr>ga_issues = validate_backend_identity tr backend, ga_assignments = [], ga_model = None, ga_engine = None\<rparr>
        in case (case bi_modelctl_app backend of Some app \<Rightarrow> if trim app = [] then None else Some app | None \<Rightarrow> None) of
             None \<Rightarrow> Inl (PA_Invalid (ga_issues g
               @ map (\<lambda>c. issue (sg_key c) (tr (lit ''the model's settings command could not be found''))) changes))
           | Some app \<Rightarrow>
               if ga_issues g \<noteq> [] then Inl (PA_Invalid (ga_issues g))
               else Inr \<lparr>av_backend = backend, av_changes = changes, av_operations = preview_operations (bi_snap_name backend) app g\<rparr>)"

definition prepare_change :: "(ustr \<Rightarrow> ustr) \<Rightarrow> json_text \<Rightarrow> backend_page \<Rightarrow> ustr \<Rightarrow> config_value \<Rightarrow> prepare_apply_error + apply_preview" where
  "prepare_change tr js p key v =
     (case find (\<lambda>r. rw_key r = key) (pg_rows p) of
        None \<Rightarrow> Inl PA_NoChanges
      | Some row \<Rightarrow>
          if config_value_eq (rw_value row) v then Inl PA_NoChanges
          else
            let invalid = (\<lambda>message. PA_Invalid [issue (pm_title (rw_metadata row)) message]) in
            (case validate tr (pm_validation (rw_metadata row)) v of
               Inl message \<Rightarrow> Inl (invalid message)
             | Inr _ \<Rightarrow>
                 (case staged_change_new key (rw_value row) v of
                    Inl message \<Rightarrow> Inl (invalid message)
                  | Inr change \<Rightarrow>
                      apply_preview_new tr js (case pg_snapshot p of Some s \<Rightarrow> sn_identity s | None \<Rightarrow> pg_identity p) [change])))"

section \<open>Applying\<close>

definition READINESS_ATTEMPTS :: nat where "READINESS_ATTEMPTS = 30"

record read_back_mismatch =
  rm_key :: ustr
  rm_requested :: config_value
  rm_actual :: "config_value option"

datatype apply_failure =
    AF_CancelledExecution
  | AF_VerificationCancelled "command_result list" backend_snapshot
  | AF_AuthorizationDenied failed_step ustr
  | AF_ValuesRejected failed_step ustr
  | AF_Execution failed_step ustr
  | AF_PartialExecution backend_snapshot "command_result list" system_configurator_error
  | AF_RestartReadiness backend_snapshot ustr
  | AF_ReadBackUnavailable backend_snapshot "backend_surface_error list"
  | AF_ReadBackMismatch backend_snapshot "read_back_mismatch list"

record 'w apply_ports =
  ax_apply :: "('w \<Rightarrow> bool) \<Rightarrow> apply_preview \<Rightarrow> 'w \<Rightarrow> (configurator_failure + command_result list) \<times> 'w"
  ax_read :: "backend_identity \<Rightarrow> 'w \<Rightarrow> backend_snapshot \<times> 'w"
  ax_wait :: "'w \<Rightarrow> 'w"

fun map_system_error :: "system_configurator_error \<Rightarrow> apply_failure" where
  "map_system_error SC_Cancelled = AF_CancelledExecution"
| "map_system_error (SC_AuthorizationDenied step message) = AF_AuthorizationDenied step message"
| "map_system_error (SC_ValuesRejected step message) = AF_ValuesRejected step message"
| "map_system_error (SC_Execution step message) = AF_Execution step message"

text \<open>\<open>pgettext\<close> looks up its context and its message joined by an EOT character.\<close>

fun service_state_label :: "(ustr \<Rightarrow> ustr) \<Rightarrow> service_state \<Rightarrow> ustr" where
  "service_state_label tr Service_Active = tr (lit ''service state'' @ [4] @ lit ''active'')"
| "service_state_label tr Service_Inactive = tr (lit ''service state'' @ [4] @ lit ''inactive'')"
| "service_state_label tr Service_Failed = tr (lit ''service state'' @ [4] @ lit ''failed'')"
| "service_state_label tr (Service_Unknown _) = tr (lit ''service state'' @ [4] @ lit ''unknown'')"

definition readiness_failure :: "(ustr \<Rightarrow> ustr) \<Rightarrow> backend_snapshot \<Rightarrow> ustr option" where
  "readiness_failure tr s =
     (let unconfirmed = tr (lit ''The model's restart could not be confirmed.'') in
      case sn_errors s BS_Status of
        Some e \<Rightarrow> Some (unconfirmed @ [10] @ be_message e)
      | None \<Rightarrow>
          (case sn_status s of
             None \<Rightarrow> Some unconfirmed
           | Some services \<Rightarrow>
               if services = [] then Some (unconfirmed @ [10] @ lit ''no service health was reported'')
               else
                 let failing = map (\<lambda>v. sh_name v @ lit '' ('' @ service_state_label tr (sh_state v) @ lit '')'')
                       (filter (\<lambda>v. \<not> service_is_active v) services)
                 in if failing = [] then None
                    else Some (tr (lit ''The model did not restart.'') @ [10] @ join (lit '', '') failing)))"

definition readiness_failure_is_terminal :: "backend_snapshot \<Rightarrow> bool" where
  "readiness_failure_is_terminal s =
     (case sn_status s of Some services \<Rightarrow> list_ex (\<lambda>v. sh_state v = Service_Failed) services | None \<Rightarrow> False)"

definition change_surface :: "staged_change \<Rightarrow> backend_surface" where
  "change_surface c =
     (if sg_key c = lit ''model'' then BS_Models else if sg_key c = lit ''engine'' then BS_Engines else BS_ModelctlConfig)"

fun changed_surfaces :: "staged_change list \<Rightarrow> backend_surface list \<Rightarrow> backend_surface list" where
  "changed_surfaces [] acc = acc"
| "changed_surfaces (c # cs) acc = changed_surfaces cs (if change_surface c \<in> set acc then acc else acc @ [change_surface c])"

definition read_back_errors :: "apply_preview \<Rightarrow> backend_snapshot \<Rightarrow> backend_surface_error list" where
  "read_back_errors p s = List.map_filter (sn_errors s) (changed_surfaces (av_changes p) [])"

definition auto_engine_resolved :: "staged_change \<Rightarrow> backend_snapshot \<Rightarrow> bool" where
  "auto_engine_resolved c s \<longleftrightarrow> sg_key c = lit ''engine'' \<and> sg_proposed c = CV_Text (lit ''auto'')
     \<and> (case sn_engines s of None \<Rightarrow> False
        | Some e \<Rightarrow> (case en_active e of None \<Rightarrow> False
            | Some active \<Rightarrow> list_ex (\<lambda>x. eo_name x = active \<and> eo_compatible x) (en_options e)))"

definition confirmed :: "staged_change \<Rightarrow> backend_snapshot \<Rightarrow> bool" where
  "confirmed c s \<longleftrightarrow> (case snapshot_value s (sg_key c) of Some v \<Rightarrow> config_value_eq v (sg_proposed c) | None \<Rightarrow> False)
     \<or> auto_engine_resolved c s"

definition read_back_mismatches :: "apply_preview \<Rightarrow> backend_snapshot \<Rightarrow> read_back_mismatch list" where
  "read_back_mismatches p s =
     map (\<lambda>c. \<lparr>rm_key = sg_key c, rm_requested = sg_proposed c, rm_actual = snapshot_value s (sg_key c)\<rparr>)
       (filter (\<lambda>c. \<not> confirmed c s) (av_changes p))"

text \<open>The loop that waits for the restarted model.\<close>

function await_ready :: "(ustr \<Rightarrow> ustr) \<Rightarrow> 'w apply_ports \<Rightarrow> ('w \<Rightarrow> bool) \<Rightarrow> apply_preview \<Rightarrow> command_result list \<Rightarrow> nat \<Rightarrow> 'w
    \<Rightarrow> (apply_failure + backend_snapshot) \<times> 'w" where
  "await_ready tr P cancelled p commands attempt w =
     (let (snapshot, w1) = ax_read P (av_backend p) w; attempt' = attempt + 1 in
      if fresh_token w1 then (Inl (AF_VerificationCancelled commands snapshot), w1)
      else if cancelled w1 then (Inl (AF_PartialExecution snapshot commands SC_Cancelled), w1)
      else case readiness_failure tr snapshot of
        Some message \<Rightarrow>
          if READINESS_ATTEMPTS \<le> attempt' \<or> readiness_failure_is_terminal snapshot
          then (Inl (AF_RestartReadiness snapshot message), w1)
          else await_ready tr P cancelled p commands attempt' (ax_wait P w1)
      | None \<Rightarrow>
          (let errors = read_back_errors p snapshot in
           if errors = [] then (Inr snapshot, w1)
           else if READINESS_ATTEMPTS \<le> attempt' then (Inl (AF_ReadBackUnavailable snapshot errors), w1)
           else await_ready tr P cancelled p commands attempt' (ax_wait P w1)))"
  by pat_completeness auto

termination
  by (relation "measure (\<lambda>(tr, P, cancelled, p, commands, attempt, w). READINESS_ATTEMPTS - attempt)") auto

declare await_ready.simps [simp del]

definition invalid_results :: "apply_preview \<Rightarrow> command_result list \<Rightarrow> bool" where
  "invalid_results p commands \<longleftrightarrow> length commands \<noteq> length (av_operations p)
     \<or> list_ex (\<lambda>(result, request). cmd_executable result \<noteq> cr_executable request
          \<or> cmd_arguments result \<noteq> cr_arguments request \<or> cmd_exit_status result \<noteq> Some 0) (zip commands (av_operations p))"

definition partial_execution :: "'w apply_ports \<Rightarrow> apply_preview \<Rightarrow> command_result list \<Rightarrow> system_configurator_error \<Rightarrow> 'w
    \<Rightarrow> (apply_failure + backend_snapshot) \<times> 'w" where
  "partial_execution P p commands e w =
     (let (snapshot, w') = ax_read P (av_backend p) w in (Inl (AF_PartialExecution snapshot commands e), w'))"

definition execute_backend_apply :: "(ustr \<Rightarrow> ustr) \<Rightarrow> 'w apply_ports \<Rightarrow> ('w \<Rightarrow> bool) \<Rightarrow> apply_preview \<Rightarrow> 'w
    \<Rightarrow> (apply_failure + backend_snapshot) \<times> 'w" where
  "execute_backend_apply tr P cancelled p w =
     (case ax_apply P cancelled p w of
        (Inl f, w1) \<Rightarrow>
          if cf_completed f = [] then (Inl (map_system_error (cf_error f)), w1)
          else partial_execution P p (cf_completed f) (cf_error f) w1
      | (Inr commands, w1) \<Rightarrow>
          if invalid_results p commands then
            (let e = execution (lit ''pkexec'') [] None [] (lit ''the privileged apply plan did not execute every operation'')
             in if commands = [] then (Inl (map_system_error e), w1) else partial_execution P p commands e w1)
          else if cancelled w1 then partial_execution P p commands SC_Cancelled w1
          else
            (case await_ready tr P cancelled p commands 0 w1 of
               (Inl f, w2) \<Rightarrow> (Inl f, w2)
             | (Inr snapshot, w2) \<Rightarrow>
                 (let mismatches = read_back_mismatches p snapshot
                  in (if mismatches \<noteq> [] then Inl (AF_ReadBackMismatch snapshot mismatches) else Inr snapshot, w2))))"

section \<open>Every preview is a plan the executor accepts\<close>

text \<open>
  What the changes must be for it: configuration keys, and a selected model or engine that is
  a word and not an option.
\<close>

definition change_fits :: "staged_change \<Rightarrow> bool" where
  "change_fits c \<longleftrightarrow>
     (if sg_key c = lit ''model'' \<or> sg_key c = lit ''engine''
      then (\<forall>v. sg_proposed c = CV_Text v \<longrightarrow> v \<noteq> [] \<and> hd v \<noteq> 45) else is_config_key (sg_key c))"

definition gathered_right :: "gathered_changes \<Rightarrow> bool" where
  "gathered_right g \<longleftrightarrow> (\<forall>a \<in> set (ga_assignments g). \<exists>key v. a = key @ [61] @ v \<and> is_config_key key)
     \<and> (\<forall>m. ga_model g = Some m \<longrightarrow> m \<noteq> [] \<and> hd m \<noteq> 45) \<and> (\<forall>e. ga_engine g = Some e \<longrightarrow> e \<noteq> [] \<and> hd e \<noteq> 45)"

lemma serialize_assignment_Inr: "serialize_assignment tr js key v = Inr a \<Longrightarrow> \<exists>t. a = key @ [61] @ t"
  by (cases "serialize_value tr js v") (auto simp: serialize_assignment_def lit_def)

lemma gather_right:
  "gathered_right g \<Longrightarrow> list_all change_fits changes \<Longrightarrow> gathered_right (fold (gather_change tr js) changes g)"
proof (induction changes arbitrary: g)
  case Nil
  then show ?case by simp
next
  case (Cons c changes)
  have "gathered_right (gather_change tr js c g)"
  proof (cases "sg_key c = lit ''model'' \<or> sg_key c = lit ''engine''")
    case True
    with Cons.prems show ?thesis
      by (auto simp: gathered_right_def gather_change_def change_fits_def split: config_value.split)
  next
    case False
    with Cons.prems have key: "is_config_key (sg_key c)" by (simp add: change_fits_def)
    show ?thesis
    proof (cases "serialize_assignment tr js (sg_key c) (sg_proposed c)")
      case (Inl message)
      with False Cons.prems(1) show ?thesis by (simp add: gathered_right_def gather_change_def)
    next
      case (Inr a)
      with serialize_assignment_Inr [OF Inr] False key Cons.prems(1) show ?thesis
        by (auto simp: gathered_right_def gather_change_def)
    qed
  qed
  with Cons show ?case by simp
qed

lemma preview_operations_accepted:
  assumes "gathered_right g" and "is_valid_snap_name snap" and "is_modelctl_app app"
  shows "validate_plan PK_Apply (plan_of (preview_operations snap app g)) = Inr ()"
proof -
  have tail: "MODELCTL_TAIL = [lit ''--assume-yes'', lit ''--no-restart'']" by (simp add: MODELCTL_TAIL_def)
  have "cr_executable q = lit ''snap'' \<and> allowed_apply (cr_arguments q)" if "q \<in> set (preview_operations snap app g)" for q
    using that assms
    by (auto simp: preview_operations_def option_list_def modelctl_set_operation_def modelctl_operation_def modelctl_prune_operation_def
        snap_request_def allowed_apply_def gathered_right_def tail split: if_splits option.splits)
  moreover have "preview_operations snap app g \<noteq> []" by (simp add: preview_operations_def)
  ultimately show ?thesis
    by (auto simp: validate_plan_iff validate_operations_iff validate_apply_iff plan_of_def)
qed

lemma apply_preview_new_Inr:
  assumes "apply_preview_new tr js backend changes = Inr p"
  obtains app g where "bi_modelctl_app backend = Some app"
    "g = fold (gather_change tr js) (sort_key sg_key changes)
       \<lparr>ga_issues = validate_backend_identity tr backend, ga_assignments = [], ga_model = None, ga_engine = None\<rparr>"
    "ga_issues g = []" "av_backend p = backend" "av_changes p = sort_key sg_key changes"
    "av_operations p = preview_operations (bi_snap_name backend) app g"
  using assms by (auto simp: apply_preview_new_def Let_def split: option.splits if_splits)

text \<open>
  What the window asks to apply, the executor accepts. A preview of changes to
  configuration keys, with a model or engine that is a word, for a backend whose snap and
  settings command are well named, is a plan the privileged validator accepts; it holds one
  restart of the model, after every setting and before the cache is pruned.
\<close>

theorem apply_preview_accepted:
  assumes "apply_preview_new tr js backend changes = Inr p" and "is_valid_snap_name (bi_snap_name backend)"
    and "list_all is_modelctl_app (option_list (bi_modelctl_app backend))" and "list_all change_fits changes"
  shows "validate_plan PK_Apply (plan_of (av_operations p)) = Inr ()
    \<and> filter (\<lambda>q. cr_arguments q = [lit ''restart'', bi_snap_name backend]) (av_operations p)
        = [snap_request [lit ''restart'', bi_snap_name backend]]"
proof -
  from assms(1) obtain app g where app: "bi_modelctl_app backend = Some app"
    and g: "g = fold (gather_change tr js) (sort_key sg_key changes)
       \<lparr>ga_issues = validate_backend_identity tr backend, ga_assignments = [], ga_model = None, ga_engine = None\<rparr>"
    and ops: "av_operations p = preview_operations (bi_snap_name backend) app g"
    by (rule apply_preview_new_Inr)
  have "list_all change_fits (sort_key sg_key changes)" using assms(4) by (simp add: list_all_iff)
  then have "gathered_right g" unfolding g by (intro gather_right) (simp_all add: gathered_right_def)
  moreover have "is_modelctl_app app" using assms(3) app by (simp add: option_list_def)
  ultimately have "validate_plan PK_Apply (plan_of (av_operations p)) = Inr ()"
    unfolding ops by (intro preview_operations_accepted assms(2))
  moreover have "filter (\<lambda>q. cr_arguments q = [lit ''restart'', bi_snap_name backend]) (av_operations p)
      = [snap_request [lit ''restart'', bi_snap_name backend]]"
    by (simp add: ops preview_operations_def option_list_def modelctl_set_operation_def modelctl_operation_def modelctl_prune_operation_def
        snap_request_def split: option.splits)
  ultimately show ?thesis ..
qed

definition plain_json :: json_text where
  "plain_json = \<lparr>jt_number = (\<lambda>_. None), jt_string = Inr\<rparr>"

definition settable :: backend_identity where
  "settable = whisper_backend\<lparr>bi_modelctl_app := Some (lit ''myna-whisper'')\<rparr>"

theorem apply_preview_accepted_witness:
  "\<exists>p. apply_preview_new id plain_json settable [\<lparr>sg_key = lit ''verbose'', sg_proposed = CV_Boolean True\<rparr>] = Inr p
     \<and> validate_plan PK_Apply (plan_of (av_operations p)) = Inr ()"
proof -
  let ?cs = "[\<lparr>sg_key = lit ''verbose'', sg_proposed = CV_Boolean True\<rparr>]"
  have name: "is_valid_snap_name (lit ''myna-whisper'')" by (simp add: is_valid_snap_name_def lit_def ascii_defs)
  have trim: "trim (lit ''myna-whisper'') \<noteq> []" by (simp add: trim_def trim_start_def trim_end_def lit_def is_whitespace_def)
  have b: "bi_snap_name settable = lit ''myna-whisper''" "bi_modelctl_app settable = Some (lit ''myna-whisper'')"
    by (simp_all add: settable_def whisper_backend_def backend_identity_new_def)
  have app: "is_modelctl_app (lit ''myna-whisper'')"
    using name by (simp add: is_modelctl_app_def lit_def)
  have fits: "list_all change_fits ?cs" by (simp add: change_fits_def is_config_key_def lit_def starts_with_def ascii_defs)
  have "\<exists>p. apply_preview_new id plain_json settable ?cs = Inr p"
    by (simp add: apply_preview_new_def b trim validate_backend_identity_def gather_change_def serialize_assignment_def Let_def)
  then obtain p where p: "apply_preview_new id plain_json settable ?cs = Inr p" ..
  with apply_preview_accepted [OF p] b name app fits show ?thesis by (simp add: option_list_def)
qed

text \<open>
  A secret is never written. A change to a key that names a credential, a password, a
  secret, a token or a private key is refused, on any page, whatever the value.
\<close>

theorem sensitive_change_refused:
  assumes "is_sensitive_key key"
  shows "\<exists>e. prepare_change tr js (build_page tr entry) key v = Inl e"
proof (cases "find (\<lambda>r. rw_key r = key) (pg_rows (build_page tr entry))")
  case None
  then show ?thesis by (simp add: prepare_change_def)
next
  case (Some row)
  then have row: "row \<in> set (pg_rows (build_page tr entry))" "rw_key row = key" by (auto simp: find_Some_iff)
  then obtain s :: backend_snapshot where "row \<in> set (present_configuration tr (sn_configuration s) (sn_models s) (sn_engines s))"
    by (cases "pe_snapshot entry") (simp_all add: build_page_def)
  moreover have "key \<noteq> lit ''model''" "key \<noteq> lit ''engine''"
    using assms known_keys_not_sensitive by (auto simp: list_all_iff known_keys_def)
  ultimately have "rw_metadata row = metadata_for tr key (rw_value row)"
    using present_configuration_rows row(2) by metis
  then have "pm_validation (rw_metadata row) = VA_ReadOnly" using sensitive_read_only(1) [OF assms] by simp
  with Some show ?thesis by (auto simp: prepare_change_def validate_def Let_def)
qed


theorem sensitive_change_refused_witness:
  "\<exists>e. prepare_change id plain_json (build_page id (new_page settable)) (lit ''apiKey'') (CV_Text []) = Inl e"
proof (rule sensitive_change_refused)
  show "is_sensitive_key (lit ''apiKey'')" by code_simp
qed

section \<open>What a successful apply means\<close>

definition ready :: "(ustr \<Rightarrow> ustr) \<Rightarrow> apply_preview \<Rightarrow> backend_snapshot \<Rightarrow> bool" where
  "ready tr p s \<longleftrightarrow> readiness_failure tr s = None \<and> read_back_errors p s = []"

lemma await_ready_cases:
  "await_ready tr P cancelled p commands attempt w =
     (let s = fst (ax_read P (av_backend p) w); w1 = snd (ax_read P (av_backend p) w) in
      if cancelled w1 then (Inl (AF_PartialExecution s commands SC_Cancelled), w1)
      else if ready tr p s then (Inr s, w1)
      else if attempt + 1 < READINESS_ATTEMPTS \<and> (readiness_failure tr s = None \<or> \<not> readiness_failure_is_terminal s)
        then await_ready tr P cancelled p commands (attempt + 1) (ax_wait P w1)
      else (Inl (case readiness_failure tr s of Some message \<Rightarrow> AF_RestartReadiness s message
             | None \<Rightarrow> AF_ReadBackUnavailable s (read_back_errors p s)), w1))"
  by (subst await_ready.simps) (auto simp: Let_def fresh_token_def ready_def case_prod_beta split: option.split)

lemma await_ready_Inr: "await_ready tr P cancelled p commands attempt w = (Inr s, w') \<Longrightarrow> ready tr p s"
proof (induction "READINESS_ATTEMPTS - attempt" arbitrary: attempt w rule: less_induct)
  case less
  let ?w = "ax_wait P (snd (ax_read P (av_backend p) w))"
  from less.prems [unfolded await_ready_cases [of tr P cancelled p commands attempt w]]
  consider "ready tr p s" | "attempt + 1 < READINESS_ATTEMPTS" "await_ready tr P cancelled p commands (attempt + 1) ?w = (Inr s, w')"
    by (auto simp: Let_def split: if_splits)
  then show ?case
  proof cases
    case 2
    then show ?thesis by (intro less.hyps [of "attempt + 1" ?w]) simp_all
  qed
qed

lemma changed_surfaces_set: "set (changed_surfaces cs acc) = set acc \<union> change_surface ` set cs"
  by (induction cs acc rule: changed_surfaces.induct) auto

lemma map_filter_Nil: "List.map_filter f xs = [] \<longleftrightarrow> (\<forall>x \<in> set xs. f x = None)"
  by (induction xs) (auto simp: List.map_filter_simps split: option.splits)

lemma read_back_errors_Nil: "read_back_errors p s = [] \<longleftrightarrow> (\<forall>c \<in> set (av_changes p). sn_errors s (change_surface c) = None)"
  by (auto simp: read_back_errors_def map_filter_Nil changed_surfaces_set)

lemma readiness_None:
  "readiness_failure tr s = None \<longleftrightarrow> sn_errors s BS_Status = None
     \<and> (\<exists>services. sn_status s = Some services \<and> services \<noteq> [] \<and> list_all service_is_active services)"
  by (auto simp: readiness_failure_def Let_def list_all_iff filter_empty_conv split: option.splits)

lemma valid_results:
  "\<not> invalid_results p commands \<longleftrightarrow> list_all2 (\<lambda>r q. cmd_executable r = cr_executable q \<and> cmd_arguments r = cr_arguments q
     \<and> cmd_exit_status r = Some 0) commands (av_operations p)"
  by (auto simp: invalid_results_def list_all2_iff list_ex_iff)

text \<open>
  An apply that succeeds has applied. Every command of the preview was reported to have
  run, in order, with exit status 0; the model's services are all active, and there is one;
  and every change reads back as asked, or, for the engine chosen by the model itself, as a
  compatible engine, from a surface that was read without error.
\<close>

theorem apply_success_confirmed:
  assumes "execute_backend_apply tr P cancelled p w = (Inr s, w')"
  shows "\<exists>commands. fst (ax_apply P cancelled p w) = Inr commands
      \<and> list_all2 (\<lambda>r q. cmd_executable r = cr_executable q \<and> cmd_arguments r = cr_arguments q \<and> cmd_exit_status r = Some 0)
          commands (av_operations p)
      \<and> (\<exists>services. sn_status s = Some services \<and> services \<noteq> [] \<and> list_all service_is_active services)
      \<and> list_all (\<lambda>c. sn_errors s (change_surface c) = None \<and> confirmed c s) (av_changes p)"
proof -
  obtain x w1 where a: "ax_apply P cancelled p w = (x, w1)" by (cases "ax_apply P cancelled p w")
  from assms a obtain commands where x: "x = Inr commands"
    by (cases x) (auto simp: execute_backend_apply_def partial_execution_def case_prod_beta split: if_splits)
  obtain y w2 where y: "await_ready tr P cancelled p commands 0 w1 = (y, w2)" by (cases "await_ready tr P cancelled p commands 0 w1")
  from assms have v: "\<not> invalid_results p commands" and r: "y = Inr s" and m: "read_back_mismatches p s = []"
    by (auto simp: execute_backend_apply_def partial_execution_def a x y Let_def case_prod_beta split: sum.splits if_splits)
  from await_ready_Inr [OF y [unfolded r]] have "readiness_failure tr s = None" "read_back_errors p s = []" by (simp_all add: ready_def)
  moreover have "\<forall>c \<in> set (av_changes p). confirmed c s" using m by (simp add: read_back_mismatches_def filter_empty_conv)
  ultimately show ?thesis
    using a x v by (auto simp: valid_results readiness_None read_back_errors_Nil list_all_iff)
qed

section \<open>The wait is bounded, and patient\<close>

lemma await_ready_reads:
  assumes read: "\<And>b w. cnt (snd (ax_read P b w)) = Suc (cnt w)" and wait: "\<And>w. cnt (ax_wait P w) = cnt w"
    and "attempt < READINESS_ATTEMPTS"
  shows "cnt (snd (await_ready tr P cancelled p commands attempt w)) \<le> cnt w + (READINESS_ATTEMPTS - attempt)"
  using assms(3)
proof (induction "READINESS_ATTEMPTS - attempt" arbitrary: attempt w rule: less_induct)
  case less
  show ?case
  proof (cases "attempt + 1 < READINESS_ATTEMPTS")
    case True
    then have "cnt (snd (await_ready tr P cancelled p commands (attempt + 1) (ax_wait P (snd (ax_read P (av_backend p) w)))))
        \<le> Suc (cnt w) + (READINESS_ATTEMPTS - (attempt + 1))"
      using less.hyps [of "attempt + 1" "ax_wait P (snd (ax_read P (av_backend p) w))"] read wait by simp
    with True show ?thesis by (subst await_ready_cases) (auto simp: Let_def read)
  next
    case False
    with less.prems show ?thesis by (subst await_ready_cases) (auto simp: Let_def read)
  qed
qed

text \<open>The world after some reads, each with the wait that follows it, and what the next read shows.\<close>

fun after_reads :: "'w apply_ports \<Rightarrow> backend_identity \<Rightarrow> nat \<Rightarrow> 'w \<Rightarrow> 'w" where
  "after_reads P b 0 w = w"
| "after_reads P b (Suc i) w = after_reads P b i (ax_wait P (snd (ax_read P b w)))"

definition shown_by :: "'w apply_ports \<Rightarrow> backend_identity \<Rightarrow> nat \<Rightarrow> 'w \<Rightarrow> backend_snapshot" where
  "shown_by P b i w = fst (ax_read P b (after_reads P b i w))"

lemma await_ready_patient:
  assumes "attempt + k < READINESS_ATTEMPTS" and "ready tr p (shown_by P (av_backend p) k w)"
    and "\<And>i. i < k \<Longrightarrow> \<not> readiness_failure_is_terminal (shown_by P (av_backend p) i w)"
  shows "\<exists>j \<le> k. await_ready tr P (\<lambda>_. False) p commands attempt w
           = (Inr (shown_by P (av_backend p) j w), snd (ax_read P (av_backend p) (after_reads P (av_backend p) j w)))
         \<and> ready tr p (shown_by P (av_backend p) j w)"
  using assms
proof (induction k arbitrary: attempt w)
  case 0
  then show ?case by (intro exI [of _ 0]) (subst await_ready_cases, simp add: Let_def shown_by_def)
next
  case (Suc k)
  let ?b = "av_backend p" and ?w = "ax_wait P (snd (ax_read P (av_backend p) w))"
  have shift: "shown_by P ?b i ?w = shown_by P ?b (Suc i) w" for i by (simp add: shown_by_def)
  show ?case
  proof (cases "ready tr p (shown_by P ?b 0 w)")
    case True
    then show ?thesis by (intro exI [of _ 0]) (subst await_ready_cases, simp add: Let_def shown_by_def)
  next
    case False
    have "attempt + 1 < READINESS_ATTEMPTS" "\<not> readiness_failure_is_terminal (shown_by P ?b 0 w)"
      using Suc.prems by auto
    with False have now: "await_ready tr P (\<lambda>_. False) p commands attempt w = await_ready tr P (\<lambda>_. False) p commands (attempt + 1) ?w"
      by (subst await_ready_cases) (simp add: Let_def shown_by_def)
    obtain j where "j \<le> k" "await_ready tr P (\<lambda>_. False) p commands (attempt + 1) ?w
        = (Inr (shown_by P ?b j ?w), snd (ax_read P ?b (after_reads P ?b j ?w)))" "ready tr p (shown_by P ?b j ?w)"
      using Suc.IH [of "attempt + 1" ?w] Suc.prems by (auto simp: shift)
    then show ?thesis unfolding now by (intro exI [of _ "Suc j"]) (simp add: shift)
  qed
qed


definition answering :: "apply_preview \<Rightarrow> backend_snapshot list \<Rightarrow> nat apply_ports" where
  "answering p ss = \<lparr>ax_apply = (\<lambda>_ q n. (Inr (map succeeded (av_operations q)), n)), ax_read = (\<lambda>b n. (ss ! min n (length ss - 1), Suc n)),
     ax_wait = id\<rparr>"

definition verbose_preview :: apply_preview where
  "verbose_preview = \<lparr>av_backend = settable, av_changes = [\<lparr>sg_key = lit ''verbose'', sg_proposed = CV_Boolean True\<rparr>],
     av_operations = [snap_request [lit ''restart'', lit ''myna-whisper'']]\<rparr>"

definition verbose_ready :: backend_snapshot where
  "verbose_ready = (snapshot_empty settable)\<lparr>sn_status := Some [\<lparr>sh_name = lit ''server'', sh_state = Service_Active\<rparr>],
     sn_configuration := [(lit ''verbose'', CV_Boolean True)]\<rparr>"

lemma verbose_is_ready: "ready tr verbose_preview verbose_ready" "read_back_mismatches verbose_preview verbose_ready = []"
  by (simp_all add: ready_def readiness_None read_back_errors_Nil verbose_ready_def snapshot_empty_def service_is_active_def
      read_back_mismatches_def verbose_preview_def confirmed_def snapshot_value_def)

lemma succeeded_valid: "\<not> invalid_results q (map succeeded (av_operations q))"
  unfolding valid_results by (simp add: list_all2_map1 list_all2_refl succeeded_def)

text \<open>
  The wait is bounded and patient. An apply whose commands all ran makes at most thirty
  reads of the model, whatever they show. And when the user does not cancel, no service is
  seen to have failed, and one of the first thirty reads would show the model ready, the apply
  ends on a read that shows it ready: it succeeds if the values asked for are there, and
  otherwise says which are not.
\<close>

theorem apply_waits_enough:
  assumes "ax_apply P (\<lambda>_. False) p w = (Inr commands, w1)" and "\<not> invalid_results p commands"
    and "\<forall>b w. cnt (snd (ax_read P b w)) = Suc (cnt w)" and "\<forall>w. cnt (ax_wait P w) = cnt w"
    and "execute_backend_apply tr P (\<lambda>_. False) p w = (result, w')"
  shows "cnt w' \<le> cnt w1 + READINESS_ATTEMPTS
    \<and> (\<forall>k < READINESS_ATTEMPTS. ready tr p (shown_by P (av_backend p) k w1)
          \<and> (\<forall>i < k. \<not> readiness_failure_is_terminal (shown_by P (av_backend p) i w1)) \<longrightarrow>
        (\<exists>j \<le> k. let s = shown_by P (av_backend p) j w1 in ready tr p s
           \<and> result = (if read_back_mismatches p s = [] then Inr s else Inl (AF_ReadBackMismatch s (read_back_mismatches p s)))))"
proof -
  obtain y w2 where y: "await_ready tr P (\<lambda>_. False) p commands 0 w1 = (y, w2)" by (cases "await_ready tr P (\<lambda>_. False) p commands 0 w1")
  have e: "w' = w2" "result = (case y of Inl f \<Rightarrow> Inl f
      | Inr s \<Rightarrow> if read_back_mismatches p s = [] then Inr s else Inl (AF_ReadBackMismatch s (read_back_mismatches p s)))"
    using assms(1,2,5) y by (auto simp: execute_backend_apply_def Let_def split: sum.splits)
  have "cnt w' \<le> cnt w1 + READINESS_ATTEMPTS"
    using await_ready_reads [of cnt P 0 tr "\<lambda>_. False" p commands w1] assms(3,4) y e(1) by (simp add: READINESS_ATTEMPTS_def)
  moreover have "\<exists>j \<le> k. let s = shown_by P (av_backend p) j w1 in ready tr p s
        \<and> result = (if read_back_mismatches p s = [] then Inr s else Inl (AF_ReadBackMismatch s (read_back_mismatches p s)))"
    if k: "k < READINESS_ATTEMPTS" "ready tr p (shown_by P (av_backend p) k w1)"
      "\<forall>i < k. \<not> readiness_failure_is_terminal (shown_by P (av_backend p) i w1)" for k
  proof -
    obtain j where "j \<le> k" "y = Inr (shown_by P (av_backend p) j w1)" "ready tr p (shown_by P (av_backend p) j w1)"
      using await_ready_patient [of 0 k tr p P w1 commands] k y by auto
    then show ?thesis using e(2) by (intro exI [of _ j]) (simp add: Let_def)
  qed
  ultimately show ?thesis by blast
qed

theorem apply_waits_enough_witness:
  "fst (execute_backend_apply id (answering verbose_preview [snapshot_empty settable, verbose_ready]) (\<lambda>_. False) verbose_preview 0)
     = Inr verbose_ready"
proof -
  let ?P = "answering verbose_preview [snapshot_empty settable, verbose_ready]"
  obtain result w' where x: "execute_backend_apply id ?P (\<lambda>_. False) verbose_preview 0 = (result, w')"
    by (cases "execute_backend_apply id ?P (\<lambda>_. False) verbose_preview 0")
  have a: "ax_apply ?P (\<lambda>_. False) verbose_preview 0 = (Inr (map succeeded (av_operations verbose_preview)), 0)"
    "\<forall>b w. snd (ax_read ?P b w) = Suc w" "\<forall>w. ax_wait ?P w = w" by (simp_all add: answering_def)
  have s: "shown_by ?P b 0 0 = snapshot_empty settable" "shown_by ?P b 1 0 = verbose_ready" for b
    by (simp_all add: shown_by_def answering_def)
  have n: "\<not> ready id verbose_preview (snapshot_empty settable)" "\<not> readiness_failure_is_terminal (snapshot_empty settable)"
    by (simp_all add: ready_def readiness_None snapshot_empty_def readiness_failure_is_terminal_def)
  have "\<exists>j \<le> 1. let s = shown_by ?P (av_backend verbose_preview) j 0 in ready id verbose_preview s
      \<and> result = (if read_back_mismatches verbose_preview s = [] then Inr s
          else Inl (AF_ReadBackMismatch s (read_back_mismatches verbose_preview s)))"
    using apply_waits_enough [OF a(1) succeeded_valid, of "\<lambda>n. n" id result w'] a x s n verbose_is_ready
    by (simp add: READINESS_ATTEMPTS_def)
  then obtain j where "j \<le> 1" and j: "ready id verbose_preview (shown_by ?P (av_backend verbose_preview) j 0)"
    "result = (if read_back_mismatches verbose_preview (shown_by ?P (av_backend verbose_preview) j 0) = []
       then Inr (shown_by ?P (av_backend verbose_preview) j 0)
       else Inl (AF_ReadBackMismatch (shown_by ?P (av_backend verbose_preview) j 0)
         (read_back_mismatches verbose_preview (shown_by ?P (av_backend verbose_preview) j 0))))" by (auto simp: Let_def)
  then have "j = 1" using s n by (cases j) auto
  with j s verbose_is_ready x show ?thesis by simp
qed

theorem apply_success_confirmed_witness:
  "confirmed \<lparr>sg_key = lit ''verbose'', sg_proposed = CV_Boolean True\<rparr> verbose_ready"
proof -
  have "execute_backend_apply id (answering verbose_preview [verbose_ready]) (\<lambda>_. False) verbose_preview 0 = (Inr verbose_ready, 1)"
    using verbose_is_ready succeeded_valid [of verbose_preview]
    by (simp add: execute_backend_apply_def answering_def await_ready_cases Let_def)
  from apply_success_confirmed [OF this] show ?thesis by (auto simp: verbose_preview_def)
qed

section \<open>From the window to root and back\<close>

text \<open>The adapter's \<open>apply_backend_config\<close>: one privileged plan of the preview's commands.\<close>

definition apply_backend_config :: "plan_codec \<Rightarrow> 'w runner \<Rightarrow> ustr \<Rightarrow> ('w \<Rightarrow> bool) \<Rightarrow> apply_preview \<Rightarrow> 'w
    \<Rightarrow> (configurator_failure + command_result list) \<times> 'w" where
  "apply_backend_config js r executor cancelled p w = snd (execute_plan js r executor PK_Apply (av_operations p) cancelled w)"

lemma applied_once:
  assumes "validate_plan PK_Apply plan = Inr ()" and "ran_as ns plan cmds"
  shows "cmds = plan"
proof -
  have "install_edge p = None" if "p \<in> set plan" for p
  proof -
    from assms(1) that have "allowed_apply (op_arguments p)"
      by (auto simp: validate_plan_iff validate_operations_iff validate_apply_iff)
    from allowed_apply_command [OF this] show ?thesis by (auto simp: install_edge_def split: list.splits)
  qed
  with assms(2) have "list_all2 (\<lambda>n p. n = 1) ns plan" unfolding ran_as_def by (auto simp: list_all2_conv_all_nth)
  then have "ns = replicate (length plan) 1" by (auto simp: list_all2_conv_all_nth intro: nth_equalityI)
  moreover have "concat (map2 replicate (replicate (length plan) 1) plan) = plan" by (induction plan) auto
  ultimately show ?thesis using assms(2) by (simp add: ran_as_def)
qed


text \<open>What ran of a plan that was accepted: a prefix, each command once, all of it on success.\<close>

lemma accepted_plan_ran:
  assumes "validate_plan PK_Apply plan = Inr ()" and "run_plan ws PK_Apply (Inr plan) = (x, rs, cmds, errs)"
  shows "cmds = take (length rs) plan" and "length rs = length plan \<Longrightarrow> cmds = plan"
proof -
  have "run_operations ws 0 plan = (x, rs, cmds, errs)" using assms by (simp add: run_plan_def)
  from run_operations_spec [OF this] obtain ns where ns: "ran_as ns (take (length rs) plan) cmds" by blast
  show "cmds = take (length rs) plan"
  proof (cases "take (length rs) plan = []")
    case True
    with ns show ?thesis by (auto simp: ran_as_def)
  next
    case False
    then have "validate_plan PK_Apply (take (length rs) plan) = Inr ()"
      using assms(1) by (auto simp: validate_plan_iff validate_operations_iff dest: in_set_takeD)
    from applied_once [OF this ns] show ?thesis .
  qed
  then show "length rs = length plan \<Longrightarrow> cmds = plan" by simp
qed

lemma apply_backend_config_ran:
  assumes "codec_faithful js" and "pkexec_honest js ws executor rlog r"
    and "apply_backend_config js r executor cancelled p w = (x, w1)"
  shows "case x of
      Inr commands \<Rightarrow> rlog w1 = rlog w @ plan_of (av_operations p)
    | Inl f \<Rightarrow> (\<exists>k. rlog w1 = rlog w @ take k (plan_of (av_operations p)))
        \<and> ((\<exists>step m. cf_error f = SC_AuthorizationDenied step m) \<longrightarrow> cf_completed f = [] \<and> rlog w1 = rlog w)"
proof -
  let ?plan = "plan_of (av_operations p)"
  obtain logs where "execute_plan js r executor PK_Apply (av_operations p) cancelled w = (logs, x, w1)"
    using assms(3) by (auto simp: apply_backend_config_def prod_eq_iff intro: that)
  from execute_plan_run [OF assms(1,2) this]
  consider (nothing) f where "rlog w1 = rlog w" "x = Inl f" "cf_completed f = []"
    | (something) begun where "validate_plan PK_Apply ?plan = Inr ()" "rlog w1 = rlog w @ begun"
        "let run = run_plan ws PK_Apply (Inr ?plan) in
           begun = fst (snd (snd run)) \<and> reports_run ?plan run x \<or> claims_no_more run begun x"
    by blast
  then show ?thesis
  proof cases
    case nothing
    then show ?thesis by (auto intro: exI [of _ 0])
  next
    case something
    obtain y rs cmds errs where run: "run_plan ws PK_Apply (Inr ?plan) = (y, rs, cmds, errs)"
      by (cases "run_plan ws PK_Apply (Inr ?plan)") auto
    note c = accepted_plan_ran [OF something(1) run]
    from something(3) run consider (reported) "begun = cmds" "reports_run ?plan (y, rs, cmds, errs) x"
      | (lost) "claims_no_more (y, rs, cmds, errs) begun x" by (auto simp: Let_def)
    then show ?thesis
    proof cases
      case reported
      with c something(2) show ?thesis
        using map_operation_failure_cases [of "result_of (last rs)"] by (auto simp: reports_run_def split: sum.splits)
    next
      case lost
      then obtain f n where f: "x = Inl f" "begun = take n cmds" "\<forall>step m. cf_error f \<noteq> SC_AuthorizationDenied step m"
        by (auto simp: claims_no_more_def split: sum.splits)
      have "begun = take (min n (length rs)) ?plan" by (simp only: f(2) c(1) take_take)
      with something(2) have "\<exists>k. rlog w1 = rlog w @ take k ?plan" by blast
      with f show ?thesis by simp
    qed
  qed
qed

lemma await_ready_keeps:
  assumes "\<And>b w. f (snd (ax_read P b w)) = f w" and "\<And>w. f (ax_wait P w) = f w"
  shows "f (snd (await_ready tr P cancelled p commands attempt w)) = f w"
proof (induction "READINESS_ATTEMPTS - attempt" arbitrary: attempt w rule: less_induct)
  case less
  show ?case
  proof (cases "attempt + 1 < READINESS_ATTEMPTS")
    case True
    with less.hyps [of "attempt + 1"] assms show ?thesis by (subst await_ready_cases) (auto simp: Let_def)
  next
    case False
    with assms show ?thesis by (subst await_ready_cases) (auto simp: Let_def)
  qed
qed

lemma execute_backend_apply_keeps:
  assumes "\<And>b w. f (snd (ax_read P b w)) = f w" and "\<And>w. f (ax_wait P w) = f w"
  shows "f (snd (execute_backend_apply tr P cancelled p w)) = f (snd (ax_apply P cancelled p w))"
  using assms await_ready_keeps [of f P, OF assms]
  by (auto simp: execute_backend_apply_def partial_execution_def Let_def case_prod_beta split: sum.split prod.split)


lemma await_ready_failure:
  "await_ready tr P cancelled p commands attempt w = (Inl f, w') \<Longrightarrow> f \<noteq> AF_CancelledExecution \<and> (\<forall>step m. f \<noteq> AF_AuthorizationDenied step m)"
proof (induction "READINESS_ATTEMPTS - attempt" arbitrary: attempt w rule: less_induct)
  case less
  let ?w = "ax_wait P (snd (ax_read P (av_backend p) w))"
  from less.prems [unfolded await_ready_cases [of tr P cancelled p commands attempt w]]
  consider "f \<noteq> AF_CancelledExecution \<and> (\<forall>step m. f \<noteq> AF_AuthorizationDenied step m)"
    | "attempt + 1 < READINESS_ATTEMPTS" "await_ready tr P cancelled p commands (attempt + 1) ?w = (Inl f, w')"
    by (auto simp: Let_def split: if_splits option.splits)
  then show ?case
  proof cases
    case 2
    then show ?thesis by (intro less.hyps [of "attempt + 1" ?w]) simp_all
  qed
qed

lemma apply_after_run:
  assumes "ax_apply P cancelled p w = (Inr commands, w1)" and "await_ready tr P cancelled p commands 0 w1 = (y, w2)"
    and "execute_backend_apply tr P cancelled p w = (result, w')"
  obtains s cs e where "result = Inl (AF_PartialExecution s cs e)" | step m where "result = Inl (AF_Execution step m)"
    | f where "y = Inl f" "result = Inl f" | s where "y = Inr s" "result = Inl (AF_ReadBackMismatch s (read_back_mismatches p s))"
    | s where "y = Inr s" "result = Inr s" "read_back_mismatches p s = []"
proof (cases "invalid_results p commands")
  case True
  with assms(1,3) that(1,2) show ?thesis
    by (auto simp: execute_backend_apply_def partial_execution_def execution_def Let_def case_prod_beta split: if_splits)
next
  case valid: False
  show ?thesis
  proof (cases "cancelled w1")
    case True
    with valid assms(1,3) that(1) show ?thesis
      by (auto simp: execute_backend_apply_def partial_execution_def Let_def case_prod_beta)
  next
    case False
    with valid assms have "result = (case y of Inl f \<Rightarrow> Inl f
        | Inr s \<Rightarrow> if read_back_mismatches p s = [] then Inr s else Inl (AF_ReadBackMismatch s (read_back_mismatches p s)))"
      by (auto simp: execute_backend_apply_def Let_def split: sum.splits)
    with that(3-5) show ?thesis by (cases y) (auto split: if_splits)
  qed
qed


definition rooted_ports :: "plan_operation list apply_ports" where
  "rooted_ports = \<lparr>ax_apply = apply_backend_config number_codec (root_runner all_well) [], ax_read = (\<lambda>b w. (verbose_ready, w)), ax_wait = id\<rparr>"


text \<open>
  A cancelled apply may have run: the runner that is stopped after the first command answers
  that it was cancelled, and so does the apply.
\<close>

lemma cancelled_apply_ran:
  assumes "validate_plan PK_Apply (plan_of (av_operations p)) = Inr ()" and "av_operations p = [q]"
  shows "execute_backend_apply id rooted_ports (\<lambda>_. True) p [] = (Inl AF_CancelledExecution, plan_of [q])"
proof -
  obtain s where s: "pc_encode_plan number_codec (plan_of [q]) = Inr s" by (simp add: number_codec_def)
  then have d: "pc_decode_plan number_codec s = Inr (plan_of [q])"
    using number_codec_faithful by (simp add: codec_faithful_def)
  obtain x rs cmds errs where run: "run_plan all_well PK_Apply (Inr (plan_of [q])) = (x, rs, cmds, errs)"
    by (cases "run_plan all_well PK_Apply (Inr (plan_of [q]))") auto
  have "x = PE_Success \<and> length rs = 1"
    using run assms by (auto simp: run_plan_def plan_of_def run_operation_def all_well_def Let_def split: if_splits prod.splits option.splits)
  then have "cmds = plan_of [q]" using accepted_plan_ran(2) [of "plan_of [q]" all_well x rs cmds errs] run assms by (simp add: plan_of_def)
  with run d s assms show ?thesis
    by (simp add: execute_backend_apply_def rooted_ports_def apply_backend_config_def execute_plan_def encode_plan_def root_runner_def
        pkexec_request_def failure_of_def plan_of_def Let_def)
qed

end
