(* ===== verification/Backend_Ui.thy ===== *)
theory Backend_Ui
  imports Backend_Apply
begin

text \<open>
  The operations the settings window starts, \<open>client/myna-config/src/backend_ui.rs\<close>: switching
  the model and applying a setting share the operation gate, and each runs as a future that
  ends on the main loop. The widgets are not modelled: a call says what the user asked, or
  which future came back with what. The gate is the one inside the switch controller.
\<close>

section \<open>State\<close>

record pending_change =
  pd_key :: ustr
  pd_value :: config_value
  pd_token :: u64
  pd_cancellation :: cancellation_token

record backend_ui =
  ui_controller :: backend_controller
  ui_active :: switch_controller
  ui_apply_state :: "ustr \<rightharpoonup> pending_change"
  ui_switches :: "switch_request list"
  ui_applies :: "(ustr \<times> u64) list"
  ui_reads :: "snapshot_request list"
  ui_discoveries :: "discovery_request list"

definition ui_gate :: "backend_ui \<Rightarrow> coordinator" where
  "ui_gate u = sc_gate (ui_active u)"

definition set_gate :: "coordinator \<Rightarrow> backend_ui \<Rightarrow> backend_ui" where
  "set_gate g u = u\<lparr>ui_active := (ui_active u)\<lparr>sc_gate := g\<rparr>\<rparr>"

definition ui_new :: backend_ui where
  "ui_new = \<lparr>ui_controller = controller_default,
     ui_active = with_coordinator \<lparr>cs_backends = [], cs_active_state = AB_Disconnected, cs_strays = []\<rparr> coordinator_new,
     ui_apply_state = Map.empty, ui_switches = [], ui_applies = [], ui_reads = [], ui_discoveries = []\<rparr>"

datatype ui_call =
    UI_Switch backend_identity bool bool nat
  | UI_SwitchDone nat switch_outcome nat
  | UI_Apply ustr ustr config_value bool
  | UI_ApplyDone nat "apply_failure + backend_snapshot"
  | UI_Read ustr
  | UI_ReadDone nat backend_snapshot
  | UI_Discover nat
  | UI_Focus nat
  | UI_Discovered nat "backend_surface_error + connection_snapshot" "ustr list"

datatype ui_event = UE_Started operation_kind u64 | UE_Ended operation_kind u64

section \<open>Operations\<close>

text \<open>
  \<open>trigger_discovery\<close>, at a moment \<open>now\<close> and where there is a repository: the discovery runs until
  it comes back.
\<close>

definition trigger_discovery :: "nat \<Rightarrow> backend_ui \<Rightarrow> backend_ui" where
  "trigger_discovery now u =
     (case begin_discovery now (ui_controller u) of
        (c, r, _) \<Rightarrow> u\<lparr>ui_controller := c, ui_discoveries := ui_discoveries u @ [r]\<rparr>)"

definition rediscover_on_focus :: "nat \<Rightarrow> backend_ui \<Rightarrow> backend_ui" where
  "rediscover_on_focus now u =
     (if co_active (ui_gate u) \<noteq> None then u
      else case begin_focus_discovery now (ui_controller u) of
        Some (c, r) \<Rightarrow> u\<lparr>ui_controller := c, ui_discoveries := ui_discoveries u @ [r]\<rparr>
      | None \<Rightarrow> u)"

text \<open>
  \<open>begin_backend_switch\<close> and \<open>run_backend_switch\<close>: whether the model is still being installed,
  and whether there is a repository, come with the call.
\<close>

definition begin_backend_switch :: "backend_identity \<Rightarrow> bool \<Rightarrow> bool \<Rightarrow> nat \<Rightarrow> backend_ui \<Rightarrow> backend_ui \<times> ui_event list" where
  "begin_backend_switch selected installing repository now u =
     (if installing then (u, [])
      else case begin_switch selected (ui_active u) of
        (a, Inl (PS_BackendUnavailable _)) \<Rightarrow>
          (if repository then trigger_discovery now (u\<lparr>ui_active := a\<rparr>) else u\<lparr>ui_active := a\<rparr>, [])
      | (a, Inl PS_Busy) \<Rightarrow> (u\<lparr>ui_active := a\<rparr>, [])
      | (a, Inr r) \<Rightarrow>
          if repository then (u\<lparr>ui_active := a, ui_switches := ui_switches u @ [r]\<rparr>, [UE_Started BackendSwitch (rq_token r)])
          else (u\<lparr>ui_active := abandon_switch a\<rparr>, []))"

definition switch_done :: "nat \<Rightarrow> switch_outcome \<Rightarrow> nat \<Rightarrow> backend_ui \<Rightarrow> backend_ui \<times> ui_event list" where
  "switch_done i outcome now u =
     (if i < length (ui_switches u) then
        let t = rq_token (ui_switches u ! i);
            u = set_gate (fst (complete t (ui_gate u))) (u\<lparr>ui_switches := take i (ui_switches u) @ drop (Suc i) (ui_switches u)\<rparr>);
            (a, taken) = complete_switch t outcome (ui_active u); u = u\<lparr>ui_active := a\<rparr>
        in (if taken then trigger_discovery now u else u, [UE_Ended BackendSwitch t])
      else (u, []))"

text \<open>\<open>apply_change\<close> and \<open>run_apply\<close>.\<close>

definition apply_change :: "(ustr \<Rightarrow> ustr) \<Rightarrow> json_text \<Rightarrow> ustr \<Rightarrow> ustr \<Rightarrow> config_value \<Rightarrow> bool \<Rightarrow> backend_ui \<Rightarrow> backend_ui \<times> ui_event list" where
  "apply_change tr js snap key v repository u =
     (case page tr (ui_controller u) snap of
        None \<Rightarrow> (u, [])
      | Some p \<Rightarrow>
          if ui_apply_state u snap \<noteq> None then (u, [])
          else (case prepare_change tr js p key v of
              Inl _ \<Rightarrow> (u, [])
            | Inr preview \<Rightarrow>
                (case begin_operation BackendApply (ui_gate u) of
                   (g, Inl _) \<Rightarrow> (set_gate g u, [])
                 | (g, Inr r) \<Rightarrow>
                     let u = (set_gate g u)\<lparr>ui_apply_state := (ui_apply_state u)(snap \<mapsto>
                           \<lparr>pd_key = key, pd_value = v, pd_token = req_token r, pd_cancellation = req_cancellation r\<rparr>)\<rparr>;
                         name = bi_snap_name (av_backend preview)
                     in if repository then (u\<lparr>ui_applies := ui_applies u @ [(name, req_token r)]\<rparr>, [UE_Started BackendApply (req_token r)])
                        else ((set_gate (fst (abandon (req_token r) (ui_gate u))) u)\<lparr>ui_apply_state := (ui_apply_state u)(name := None)\<rparr>, []))))"

fun apply_snapshot :: "apply_failure + backend_snapshot \<Rightarrow> backend_snapshot option" where
  "apply_snapshot (Inr s) = Some s"
| "apply_snapshot (Inl (AF_ReadBackMismatch s _)) = Some s"
| "apply_snapshot (Inl (AF_RestartReadiness s _)) = Some s"
| "apply_snapshot (Inl (AF_ReadBackUnavailable s _)) = Some s"
| "apply_snapshot (Inl (AF_VerificationCancelled _ s)) = Some s"
| "apply_snapshot (Inl (AF_PartialExecution s _ _)) = Some s"
| "apply_snapshot (Inl _) = None"

definition complete_apply :: "apply_failure + backend_snapshot \<Rightarrow> ustr \<Rightarrow> backend_ui \<Rightarrow> backend_ui" where
  "complete_apply result snap u =
     (if ui_apply_state u snap = None then u
      else
        let u = u\<lparr>ui_apply_state := (ui_apply_state u)(snap := None)\<rparr> in
        (case map_of (bc_pages (ui_controller u)) snap of
           None \<Rightarrow> u
         | Some _ \<Rightarrow>
             (case apply_snapshot result of
                Some s \<Rightarrow> u\<lparr>ui_controller := fst (apply_readback snap s (ui_controller u))\<rparr>
              | None \<Rightarrow> u)))"

definition apply_done :: "nat \<Rightarrow> apply_failure + backend_snapshot \<Rightarrow> backend_ui \<Rightarrow> backend_ui \<times> ui_event list" where
  "apply_done i result u =
     (if i < length (ui_applies u) then
        let (snap, t) = ui_applies u ! i;
            u = set_gate (fst (complete t (ui_gate u))) (u\<lparr>ui_applies := take i (ui_applies u) @ drop (Suc i) (ui_applies u)\<rparr>)
        in (complete_apply result snap u, [UE_Ended BackendApply t])
      else (u, []))"

text \<open>
  What a changed discovery does: the stale pages' applies are told to stop, and the switch
  controller takes over what was discovered.
\<close>

definition cancel_apply_state :: "ustr \<Rightarrow> backend_ui \<Rightarrow> backend_ui" where
  "cancel_apply_state snap u =
     (case ui_apply_state u snap of
        None \<Rightarrow> u
      | Some d \<Rightarrow>
          let g = ui_gate u; g = g\<lparr>co_flags := cancellation_cancel (pd_cancellation d) (co_flags g)\<rparr>
          in set_gate (fst (cancel_operation (pd_token d) g)) u)"

definition prune_missing_backends :: "ustr list \<Rightarrow> backend_ui \<Rightarrow> backend_ui" where
  "prune_missing_backends stale u =
     fold (\<lambda>name u. let u = cancel_apply_state name u in u\<lparr>ui_controller := cancel_page name (ui_controller u)\<rparr>) stale u"

definition sync_active_backend :: "backend_ui \<Rightarrow> backend_ui" where
  "sync_active_backend u =
     u\<lparr>ui_active := fst (set_snapshot (controller_connection_snapshot (ui_controller u)) (ui_active u))\<rparr>"

definition discovered :: "discovery_request \<Rightarrow> backend_surface_error + connection_snapshot \<Rightarrow> ustr list \<Rightarrow> backend_ui \<Rightarrow> backend_ui" where
  "discovered r result stale u =
     (let (c, accepted, events) = complete_discovery r result (ui_controller u); u = u\<lparr>ui_controller := c\<rparr>
      in if EV_DiscoveryChanged \<in> set events then sync_active_backend (prune_missing_backends stale u) else u)"

text \<open>\<open>trigger_snapshot\<close>, and its read coming back.\<close>

definition trigger_snapshot :: "ustr \<Rightarrow> backend_ui \<Rightarrow> backend_ui" where
  "trigger_snapshot snap u =
     (case begin_snapshot snap (ui_controller u) of
        (c, Some r, _) \<Rightarrow> u\<lparr>ui_controller := c, ui_reads := ui_reads u @ [r]\<rparr>
      | (c, None, _) \<Rightarrow> u)"

definition read_done :: "nat \<Rightarrow> backend_snapshot \<Rightarrow> backend_ui \<Rightarrow> backend_ui" where
  "read_done i snapshot u =
     (if i < length (ui_reads u)
      then u\<lparr>ui_controller := finish_read (ui_reads u ! i) snapshot (ui_controller u),
             ui_reads := take i (ui_reads u) @ drop (Suc i) (ui_reads u)\<rparr>
      else u)"

text \<open>A discovery coming back.\<close>

definition discovery_done :: "nat \<Rightarrow> backend_surface_error + connection_snapshot \<Rightarrow> ustr list \<Rightarrow> backend_ui \<Rightarrow> backend_ui" where
  "discovery_done i result stale u =
     (if i < length (ui_discoveries u)
      then discovered (ui_discoveries u ! i) result stale
        (u\<lparr>ui_discoveries := take i (ui_discoveries u) @ drop (Suc i) (ui_discoveries u)\<rparr>)
      else u)"

fun ui_step :: "(ustr \<Rightarrow> ustr) \<Rightarrow> json_text \<Rightarrow> backend_ui \<Rightarrow> ui_call \<Rightarrow> backend_ui \<times> ui_event list" where
  "ui_step tr js u (UI_Switch selected installing repository now) = begin_backend_switch selected installing repository now u"
| "ui_step tr js u (UI_SwitchDone i outcome now) = switch_done i outcome now u"
| "ui_step tr js u (UI_Apply snap key v repository) = apply_change tr js snap key v repository u"
| "ui_step tr js u (UI_ApplyDone i result) = apply_done i result u"
| "ui_step tr js u (UI_Read snap) = (trigger_snapshot snap u, [])"
| "ui_step tr js u (UI_ReadDone i snapshot) = (read_done i snapshot u, [])"
| "ui_step tr js u (UI_Discover now) = (trigger_discovery now u, [])"
| "ui_step tr js u (UI_Focus now) = (rediscover_on_focus now u, [])"
| "ui_step tr js u (UI_Discovered i result stale) = (discovery_done i result stale u, [])"

text \<open>\<open>shutdown\<close>, when the window goes.\<close>

definition abandon_all_apply_state :: "pending_change list \<Rightarrow> backend_ui \<Rightarrow> backend_ui" where
  "abandon_all_apply_state ds u =
     fold (\<lambda>d u. let u = set_gate (fst (abandon (pd_token d) (ui_gate u))) u
                 in set_gate ((ui_gate u)\<lparr>co_flags := cancellation_cancel (pd_cancellation d) (co_flags (ui_gate u))\<rparr>) u) ds
       (u\<lparr>ui_apply_state := Map.empty\<rparr>)"

definition shutdown :: "pending_change list \<Rightarrow> backend_ui \<Rightarrow> backend_ui" where
  "shutdown ds u =
     (let u = abandon_all_apply_state ds u; u = u\<lparr>ui_active := abandon_switch (ui_active u)\<rparr>
      in u\<lparr>ui_controller := cancel_all (ui_controller u)\<rparr>)"

section \<open>Pages are named after their backend\<close>

text \<open>
  A read of a backend answers with that backend (\<open>read_snapshot\<close> starts from
  \<open>BackendSnapshot::empty\<close> of it and only adds its settings command), so a call that brings a
  read back is honest when the snapshot carries the name that was asked for.
\<close>

fun honest_call :: "backend_ui \<Rightarrow> ui_call \<Rightarrow> bool" where
  "honest_call u (UI_ReadDone i s) = (i < length (ui_reads u) \<longrightarrow> bi_snap_name (sn_identity s) = sq_snap (ui_reads u ! i))"
| "honest_call u (UI_ApplyDone i result) =
     (i < length (ui_applies u) \<longrightarrow> (case apply_snapshot result of Some s \<Rightarrow> bi_snap_name (sn_identity s) = fst (ui_applies u ! i) | None \<Rightarrow> True))"
| "honest_call u _ = True"

fun honest_run :: "(ustr \<Rightarrow> ustr) \<Rightarrow> json_text \<Rightarrow> backend_ui \<Rightarrow> ui_call list \<Rightarrow> bool" where
  "honest_run tr js u [] = True"
| "honest_run tr js u (call # calls) = (honest_call u call \<and> honest_run tr js (fst (ui_step tr js u call)) calls)"

definition entry_named :: "ustr \<Rightarrow> page_entry \<Rightarrow> bool" where
  "entry_named name e \<longleftrightarrow> bi_snap_name (pe_identity e) = name \<and> (\<forall>s. pe_snapshot e = Some s \<longrightarrow> bi_snap_name (sn_identity s) = name)"

definition named_pages :: "(ustr \<rightharpoonup> page_entry) \<Rightarrow> bool" where
  "named_pages pg \<longleftrightarrow> (\<forall>name e. pg name = Some e \<longrightarrow> entry_named name e)"

definition controller_ok :: "backend_controller \<Rightarrow> bool" where
  "controller_ok c \<longleftrightarrow> pages_ok c \<and> named_pages (map_of (bc_pages c))"

lemma named_update: "named_pages pg \<Longrightarrow> entry_named name e \<Longrightarrow> named_pages (pg(name \<mapsto> e))"
  by (simp add: named_pages_def)

lemma controller_insert_ok:
  assumes "controller_ok c" and "map_of (bc_pages c) snap = Some e" and "entry_named snap e'"
  shows "controller_ok (c\<lparr>bc_flags := st, bc_pages := btree_insert snap e' (bc_pages c)\<rparr>)"
    and "controller_ok (c\<lparr>bc_pages := btree_insert snap e' (bc_pages c)\<rparr>)"
proof -
  have "pages_ok (c\<lparr>bc_pages := btree_insert snap e' (bc_pages c), bc_flags := bc_flags c\<rparr>)"
    using assms(1,2) by (intro insert_existing_ok) (simp_all add: controller_ok_def)
  moreover have "named_pages (map_of (btree_insert snap e' (bc_pages c)))"
    using assms by (simp add: controller_ok_def btree_insert_pages named_update)
  ultimately show "controller_ok (c\<lparr>bc_flags := st, bc_pages := btree_insert snap e' (bc_pages c)\<rparr>)"
    and "controller_ok (c\<lparr>bc_pages := btree_insert snap e' (bc_pages c)\<rparr>)"
    by (simp_all add: controller_ok_def pages_ok_def)
qed

lemma page_named: "controller_ok c \<Longrightarrow> map_of (bc_pages c) snap = Some e \<Longrightarrow> entry_named snap e"
  by (simp add: controller_ok_def named_pages_def)

lemma named_remove: "named_pages (map_of ps) \<Longrightarrow> named_pages (map_of (fst (remove_pages snaps ps st)))"
  by (simp add: named_pages_def remove_pages_map_of)

lemma named_add: "btree ps \<Longrightarrow> named_pages (map_of ps) \<Longrightarrow> named_pages (map_of (fst (add_pages bs ps)))"
proof (induction bs arbitrary: ps)
  case Nil
  then show ?case by simp
next
  case (Cons b bs)
  have "entry_named (bi_snap_name b) (updated_page b (map_of ps (bi_snap_name b)))"
    using Cons.prems(2) by (auto simp: updated_page_def new_page_def entry_named_def named_pages_def split: option.split)
  with Cons.prems have "named_pages (map_of (fst (add_page b ps)))" by (simp add: add_page_map_of named_update)
  from Cons.IH [OF add_page_btree [OF Cons.prems(1)] this] show ?case by (simp add: fst_add_pages del: add_pages.simps(2))
qed

lemma controller_discovery_ok:
  assumes "controller_ok c"
  shows "controller_ok (fst (apply_discovery s c))"
proof -
  let ?ps = "fst (remove_pages (filter (\<lambda>n. n \<notin> bi_snap_name ` set (cs_backends s)) (bc_order c)) (bc_pages c) (bc_flags c))"
  have "btree ?ps" "named_pages (map_of ?ps)" using assms by (simp_all add: controller_ok_def pages_ok_def remove_pages_btree named_remove)
  from named_add [OF this, of "cs_backends s"] have "named_pages (map_of (bc_pages (fst (apply_discovery s c))))"
    by (auto simp: apply_discovery_pages named_pages_def reconnect_pages_map_of entry_named_def)
  then show ?thesis using assms apply_discovery_ok by (simp add: controller_ok_def)
qed

lemma controller_complete_ok:
  assumes "controller_ok c"
  shows "controller_ok (fst (complete_discovery r result c))"
proof -
  have keep: "controller_ok (c\<lparr>bc_latest_completed_discovery := g, bc_discovery_loading := l, bc_discovery_token := t, bc_last_discovery_error := e\<rparr>)"
    for g l t e using assms by (simp add: controller_ok_def pages_ok_def)
  have "controller_ok (c\<lparr>bc_latest_completed_discovery := g, bc_discovery_loading := l, bc_discovery_token := t\<rparr>)" for g l t
    using assms by (simp add: controller_ok_def pages_ok_def)
  then show ?thesis
    using assms keep controller_discovery_ok by (auto simp: complete_discovery_def Let_def case_prod_beta split: sum.split)
qed

lemma entry_named_same: "entry_named name e \<Longrightarrow> pe_identity e' = pe_identity e \<Longrightarrow> pe_snapshot e' = pe_snapshot e \<Longrightarrow> entry_named name e'"
  by (simp add: entry_named_def)

lemma controller_cancel_page_ok:
  assumes "controller_ok c"
  shows "controller_ok (cancel_page snap c)"
proof (cases "map_of (bc_pages c) snap")
  case None
  with assms show ?thesis by (simp add: cancel_page_def)
next
  case (Some e)
  from entry_named_same [OF page_named [OF assms Some], of "e\<lparr>pe_inflight_token := None, pe_loading := False\<rparr>"] Some show ?thesis
    by (simp add: cancel_page_def controller_insert_ok(1) [OF assms Some])
qed

lemma controller_readback_ok:
  assumes "controller_ok c" and "bi_snap_name (sn_identity s) = snap"
  shows "controller_ok (fst (apply_readback snap s c))"
proof (cases "map_of (bc_pages c) snap")
  case None
  with assms show ?thesis by (simp add: apply_readback_def)
next
  case (Some e)
  have "entry_named snap (e\<lparr>pe_inflight_token := None, pe_loading := False, pe_snapshot := Some s\<rparr>)"
    using page_named [OF assms(1) Some] assms(2) by (simp add: entry_named_def)
  with Some show ?thesis by (simp add: apply_readback_def controller_insert_ok(1) [OF assms(1) Some])
qed

lemma controller_begin_ok:
  assumes "controller_ok c"
  shows "controller_ok (fst (begin_snapshot snap c))"
proof (cases "map_of (bc_pages c) snap")
  case None
  with assms show ?thesis by (simp add: begin_snapshot_def)
next
  case (Some e)
  have "entry_named snap (e\<lparr>pe_snapshot_generation := g, pe_loading := True, pe_inflight_token := t\<rparr>)" for g t
    by (rule entry_named_same [OF page_named [OF assms Some]]) simp_all
  with Some show ?thesis by (simp add: begin_snapshot_def cancellation_new_def Let_def controller_insert_ok(1) [OF assms Some])
qed

lemma controller_finish_ok:
  assumes "controller_ok c" and "bi_snap_name (sn_identity s) = sq_snap r"
  shows "controller_ok (finish_read r s c)"
proof (cases "map_of (bc_pages c) (sq_snap r)")
  case None
  with assms show ?thesis by (simp add: finish_read_def complete_snapshot_def)
next
  case (Some e)
  have "entry_named (sq_snap r) (e\<lparr>pe_latest_completed_snapshot := g, pe_loading := False, pe_inflight_token := None, pe_snapshot := Some s\<rparr>)" for g
    using page_named [OF assms(1) Some] assms(2) by (simp add: entry_named_def)
  with assms(1) Some show ?thesis
    by (simp add: finish_read_def complete_snapshot_def controller_insert_ok(2) [OF assms(1) Some])
qed

lemma controller_ok_pages: "bc_pages c' = bc_pages c \<Longrightarrow> bc_order c' = bc_order c \<Longrightarrow> controller_ok c' = controller_ok c"
  by (simp add: controller_ok_def pages_ok_def)

lemma controller_discover_ok:
  assumes "controller_ok c"
  shows "controller_ok (fst (begin_discovery now c))" and "begin_focus_discovery now c = Some (c', r) \<Longrightarrow> controller_ok c'"
proof -
  have i: "bc_pages (fst (inner_begin_discovery now q c)) = bc_pages c" "bc_order (fst (inner_begin_discovery now q c)) = bc_order c" for q
    by (simp_all add: inner_begin_discovery_def cancellation_new_def Let_def)
  show "controller_ok (fst (begin_discovery now c))"
    using assms i controller_ok_pages [of "fst (begin_discovery now c)" c] by (simp add: begin_discovery_def case_prod_beta)
  assume "begin_focus_discovery now c = Some (c', r)"
  then have "c' = fst (inner_begin_discovery now True c)" by (auto simp: begin_focus_discovery_def Let_def split: if_splits)
  with assms i controller_ok_pages [of c' c] show "controller_ok c'" by simp
qed

section \<open>One operation at a time\<close>

text \<open>The gate is held by what runs, and what runs has a cancellation token of its own.\<close>

definition gate_agrees :: "backend_ui \<Rightarrow> bool" where
  "gate_agrees u \<longleftrightarrow>
     (case co_active (ui_gate u) of
        None \<Rightarrow> sc_pending (ui_active u) = None \<and> ui_apply_state u = Map.empty \<and> ui_switches u = [] \<and> ui_applies u = []
      | Some a \<Rightarrow> act_cancellation a < length (co_flags (ui_gate u)) \<and>
          (case act_kind a of
             BackendSwitch \<Rightarrow> map_option pn_token (sc_pending (ui_active u)) = Some (act_token a) \<and> map rq_token (ui_switches u) = [act_token a]
               \<and> ui_apply_state u = Map.empty \<and> ui_applies u = []
           | BackendApply \<Rightarrow> sc_pending (ui_active u) = None \<and> ui_switches u = []
               \<and> (\<exists>snap d. ui_apply_state u = [snap \<mapsto> d] \<and> pd_token d = act_token a \<and> pd_cancellation d = act_cancellation a
                    \<and> ui_applies u = [(snap, act_token a)])))"

lemma gate_agrees_idle:
  "co_active (ui_gate u) = None \<Longrightarrow> gate_agrees u \<longleftrightarrow>
     sc_pending (ui_active u) = None \<and> ui_apply_state u = Map.empty \<and> ui_switches u = [] \<and> ui_applies u = []"
  by (simp add: gate_agrees_def)

text \<open>A discovery leaves the operations alone: it sets flags, pages and an idle controller's snapshot.\<close>

definition same_operations :: "backend_ui \<Rightarrow> backend_ui \<Rightarrow> bool" where
  "same_operations u u' \<longleftrightarrow> co_active (ui_gate u') = co_active (ui_gate u) \<and> length (co_flags (ui_gate u)) \<le> length (co_flags (ui_gate u'))
     \<and> sc_pending (ui_active u') = sc_pending (ui_active u)
     \<and> ui_apply_state u' = ui_apply_state u \<and> ui_switches u' = ui_switches u \<and> ui_applies u' = ui_applies u"

lemma same_operations_agrees: "same_operations u u' \<Longrightarrow> gate_agrees u \<Longrightarrow> gate_agrees u'"
  by (auto simp: same_operations_def gate_agrees_def split: option.splits operation_kind.splits)

lemma trigger_discovery_parts:
  "ui_active (trigger_discovery now u) = ui_active u" "ui_apply_state (trigger_discovery now u) = ui_apply_state u"
  "ui_switches (trigger_discovery now u) = ui_switches u" "ui_applies (trigger_discovery now u) = ui_applies u"
  "ui_controller (trigger_discovery now u) = fst (begin_discovery now (ui_controller u))"
  by (simp_all add: trigger_discovery_def case_prod_beta)

lemma trigger_discovery_same: "same_operations u (trigger_discovery now u)"
  by (simp add: same_operations_def trigger_discovery_parts ui_gate_def)

lemma rediscover_on_focus_same: "same_operations u (rediscover_on_focus now u)"
  by (auto simp: same_operations_def rediscover_on_focus_def ui_gate_def split: option.split)

lemma begin_switch_refused: "begin_switch selected c = (a, Inl e) \<Longrightarrow> a = c"
  by (auto simp: begin_switch_def begin_operation_def Let_def split: if_splits sum.splits prod.splits)

lemma begin_switch_agrees:
  assumes "gate_agrees u"
  shows "gate_agrees (fst (begin_backend_switch selected installing repository now u))"
proof (cases "begin_switch selected (ui_active u)")
  case (Pair a x)
  show ?thesis
  proof (cases x)
    case (Inl e)
    with Pair have "a = ui_active u" using begin_switch_refused [of selected "ui_active u" a e] by simp
    with assms Pair Inl same_operations_agrees [OF trigger_discovery_same] show ?thesis
      by (cases e) (auto simp: begin_backend_switch_def)
  next
    case (Inr r)
    with Pair have "co_active (ui_gate u) = None" by (auto simp: begin_switch_def begin_operation_def ui_gate_def split: if_splits sum.splits)
    moreover from this assms have "sc_pending (ui_active u) = None" "ui_apply_state u = Map.empty" "ui_switches u = []" "ui_applies u = []"
      by (simp_all add: gate_agrees_def)
    ultimately show ?thesis using Pair Inr
      by (auto simp: begin_backend_switch_def begin_switch_def begin_operation_def cancellation_new_def abandon_switch_def abandon_def
          gate_agrees_def ui_gate_def Let_def split: sum.splits if_splits)
  qed
qed

lemma apply_change_agrees:
  assumes "gate_agrees u" and "controller_ok (ui_controller u)"
  shows "gate_agrees (fst (apply_change tr js snap key v repository u))"
proof (cases "co_active (ui_gate u)")
  case None
  with assms(1) have idle: "sc_pending (ui_active u) = None" "ui_apply_state u = Map.empty" "ui_switches u = []" "ui_applies u = []"
    by (simp_all add: gate_agrees_def)
  have name: "bi_snap_name (av_backend preview) = snap"
    if p: "page tr (ui_controller u) snap = Some p" and prep: "prepare_change tr js p key v = Inr preview" for p preview
  proof -
    from p obtain e where e: "map_of (bc_pages (ui_controller u)) snap = Some e" "p = build_page tr e" by (auto simp: page_def)
    note named = page_named [OF assms(2) e(1)]
    from prep have "av_backend preview = (case pg_snapshot p of Some s \<Rightarrow> sn_identity s | None \<Rightarrow> pg_identity p)"
      by (auto simp: prepare_change_def Let_def split: option.splits sum.splits if_splits elim: apply_preview_new_Inr)
    with named e(2) show ?thesis by (auto simp: entry_named_def build_page_def split: option.splits)
  qed
  from None idle name show ?thesis
    by (auto simp: apply_change_def begin_operation_def cancellation_new_def abandon_def gate_agrees_def ui_gate_def set_gate_def Let_def
        fun_upd_idem split: sum.split option.split)
next
  case (Some a)
  then have busy: "begin_operation BackendApply (ui_gate u) = (ui_gate u, Inl Busy)" by (simp add: begin_operation_def)
  have "set_gate (ui_gate u) u = u" by (simp add: set_gate_def ui_gate_def)
  with assms(1) busy show ?thesis by (auto simp: apply_change_def split: option.split sum.split)
qed

lemma switch_done_agrees:
  assumes "gate_agrees u"
  shows "gate_agrees (fst (switch_done i outcome now u))"
proof (cases "i < length (ui_switches u)")
  case False
  with assms show ?thesis by (simp add: switch_done_def)
next
  case True
  with assms obtain a p r where a: "co_active (ui_gate u) = Some a" "act_kind a = BackendSwitch" "sc_pending (ui_active u) = Some p"
    "pn_token p = act_token a" "ui_switches u = [r]" "rq_token r = act_token a" "ui_apply_state u = Map.empty" "ui_applies u = []"
    by (auto simp: gate_agrees_def split: option.splits operation_kind.splits)
  moreover from this True have "i = 0" by simp
  ultimately show ?thesis
    by (auto simp: switch_done_def set_gate_def ui_gate_def complete_def complete_switch_def gate_agrees_def trigger_discovery_parts Let_def
        split: option.split)
qed

lemma complete_apply_parts:
  "ui_active (complete_apply result snap u) = ui_active u" "ui_switches (complete_apply result snap u) = ui_switches u"
  "ui_applies (complete_apply result snap u) = ui_applies u" "ui_apply_state (complete_apply result snap u) = (ui_apply_state u)(snap := None)"
  by (auto simp: complete_apply_def Let_def fun_eq_iff split: option.split)

lemma apply_done_agrees:
  assumes "gate_agrees u"
  shows "gate_agrees (fst (apply_done i result u))"
proof (cases "i < length (ui_applies u)")
  case False
  with assms show ?thesis by (simp add: apply_done_def)
next
  case True
  with assms obtain a snap d where a: "co_active (ui_gate u) = Some a" "act_kind a = BackendApply" "sc_pending (ui_active u) = None"
    "ui_switches u = []" "ui_apply_state u = [snap \<mapsto> d]" "ui_applies u = [(snap, act_token a)]"
    by (auto simp: gate_agrees_def split: option.splits operation_kind.splits)
  moreover from this True have "i = 0" by simp
  ultimately show ?thesis
    by (simp add: apply_done_def set_gate_def ui_gate_def complete_def gate_agrees_def complete_apply_parts)
qed

lemma cancel_apply_state_same: "same_operations u (cancel_apply_state snap u) \<and> ui_controller (cancel_apply_state snap u) = ui_controller u"
  by (auto simp: same_operations_def cancel_apply_state_def set_gate_def ui_gate_def cancel_operation_def cancellation_cancel_def Let_def
      split: option.split)

lemma prune_same:
  "same_operations u (prune_missing_backends stale u)
   \<and> (controller_ok (ui_controller u) \<longrightarrow> controller_ok (ui_controller (prune_missing_backends stale u)))"
proof (induction stale arbitrary: u)
  case Nil
  then show ?case by (simp add: prune_missing_backends_def same_operations_def)
next
  case (Cons name stale)
  let ?v = "(cancel_apply_state name u)\<lparr>ui_controller := cancel_page name (ui_controller (cancel_apply_state name u))\<rparr>"
  have "prune_missing_backends (name # stale) u = prune_missing_backends stale ?v" by (simp add: prune_missing_backends_def Let_def)
  moreover have "same_operations u ?v" using cancel_apply_state_same [of u name] by (simp add: same_operations_def ui_gate_def)
  moreover have "controller_ok (ui_controller u) \<Longrightarrow> controller_ok (ui_controller ?v)"
    using cancel_apply_state_same [of u name] controller_cancel_page_ok by simp
  ultimately show ?case using Cons.IH [of ?v] by (auto simp: same_operations_def)
qed

lemma sync_same: "same_operations u (sync_active_backend u)" "ui_controller (sync_active_backend u) = ui_controller u"
  by (simp_all add: same_operations_def sync_active_backend_def set_snapshot_def ui_gate_def)

lemma discovered_same:
  "same_operations u (discovered r result stale u) \<and> (controller_ok (ui_controller u) \<longrightarrow> controller_ok (ui_controller (discovered r result stale u)))"
proof -
  obtain c acc events where d: "complete_discovery r result (ui_controller u) = (c, acc, events)"
    by (cases "complete_discovery r result (ui_controller u)") auto
  let ?u = "u\<lparr>ui_controller := c\<rparr>"
  have "same_operations u ?u" by (simp add: same_operations_def ui_gate_def)
  moreover have "controller_ok (ui_controller u) \<Longrightarrow> controller_ok c" using controller_complete_ok [of "ui_controller u" r result] d by simp
  ultimately show ?thesis
    using prune_same [of ?u stale] sync_same [of "prune_missing_backends stale ?u"] by (auto simp: discovered_def d Let_def same_operations_def)
qed


lemma discovery_done_same:
  "same_operations u (discovery_done i result stale u)
   \<and> (controller_ok (ui_controller u) \<longrightarrow> controller_ok (ui_controller (discovery_done i result stale u)))"
proof -
  let ?u = "u\<lparr>ui_discoveries := take i (ui_discoveries u) @ drop (Suc i) (ui_discoveries u)\<rparr>"
  have "same_operations u ?u" by (simp add: same_operations_def ui_gate_def)
  with discovered_same [of ?u "ui_discoveries u ! i" result stale] show ?thesis
    by (auto simp: discovery_done_def same_operations_def)
qed

lemma apply_change_controller: "ui_controller (fst (apply_change tr js snap key v repository u)) = ui_controller u"
  by (simp add: apply_change_def set_gate_def Let_def split: option.split sum.split prod.split)

lemma apply_done_controller_ok:
  assumes "controller_ok (ui_controller u)" and "honest_call u (UI_ApplyDone i result)"
  shows "controller_ok (ui_controller (fst (apply_done i result u)))"
  using assms controller_readback_ok
  by (auto simp: apply_done_def complete_apply_def set_gate_def Let_def case_prod_beta split: option.splits)

definition ui_ok :: "backend_ui \<Rightarrow> bool" where
  "ui_ok u \<longleftrightarrow> controller_ok (ui_controller u) \<and> gate_agrees u"

lemma ui_step_ok:
  assumes "ui_ok u" and "honest_call u call"
  shows "ui_ok (fst (ui_step tr js u call))"
proof (cases call)
  case (UI_Switch b i r now)
  have "controller_ok (ui_controller (fst (begin_backend_switch b i r now u)))"
    using assms controller_discover_ok(1)
    by (auto simp: begin_backend_switch_def ui_ok_def trigger_discovery_parts split: prod.split sum.split prepare_switch_error.split)
  with UI_Switch assms begin_switch_agrees show ?thesis by (simp add: ui_ok_def)
next
  case (UI_SwitchDone i outcome now)
  have "controller_ok (ui_controller (fst (switch_done i outcome now u)))"
    using assms controller_discover_ok(1) by (auto simp: switch_done_def set_gate_def ui_ok_def trigger_discovery_parts Let_def case_prod_beta)
  with UI_SwitchDone assms switch_done_agrees show ?thesis by (simp add: ui_ok_def)
next
  case (UI_Apply snap key v r)
  with assms apply_change_agrees show ?thesis by (simp add: ui_ok_def apply_change_controller)
next
  case (UI_ApplyDone i result)
  with assms apply_done_agrees apply_done_controller_ok show ?thesis by (simp add: ui_ok_def)
next
  case (UI_Read snap)
  have "same_operations u (trigger_snapshot snap u)"
    by (auto simp: trigger_snapshot_def same_operations_def ui_gate_def split: prod.split option.split)
  moreover have "controller_ok (ui_controller (trigger_snapshot snap u))"
    using assms controller_begin_ok [of "ui_controller u" snap] by (auto simp: ui_ok_def trigger_snapshot_def split: prod.splits option.splits)
  ultimately show ?thesis using UI_Read assms same_operations_agrees by (simp add: ui_ok_def)
next
  case (UI_ReadDone i snapshot)
  have "same_operations u (read_done i snapshot u)" by (simp add: read_done_def same_operations_def ui_gate_def)
  moreover have "controller_ok (ui_controller (read_done i snapshot u))"
    using assms UI_ReadDone controller_finish_ok by (simp add: ui_ok_def read_done_def)
  ultimately show ?thesis using UI_ReadDone assms same_operations_agrees by (simp add: ui_ok_def)
next
  case (UI_Discover now)
  with assms trigger_discovery_same same_operations_agrees controller_discover_ok(1) show ?thesis
    by (auto simp: ui_ok_def trigger_discovery_parts)
next
  case (UI_Focus now)
  have "controller_ok (ui_controller (rediscover_on_focus now u))"
    using assms controller_discover_ok(2) by (auto simp: ui_ok_def rediscover_on_focus_def split: option.split)
  with UI_Focus assms rediscover_on_focus_same same_operations_agrees show ?thesis by (auto simp: ui_ok_def)
next
  case (UI_Discovered i result stale)
  with assms discovery_done_same [of u i result stale] same_operations_agrees show ?thesis by (auto simp: ui_ok_def)
qed

lemma ui_new_ok: "ui_ok ui_new"
  by (simp add: ui_ok_def ui_new_def controller_ok_def controller_default_def pages_ok_def btree_def named_pages_def gate_agrees_def
      ui_gate_def with_coordinator_def coordinator_new_def)

lemma ui_run_ok: "ui_ok u \<Longrightarrow> honest_run tr js u calls \<Longrightarrow> ui_ok (fst (run_machine (ui_step tr js) u calls))"
  by (induction calls arbitrary: u) (simp_all add: ui_step_ok)

text \<open>The futures that run: each starts when no other runs, and is the next to end.\<close>

fun one_at_a_time :: "(operation_kind \<times> u64) option \<Rightarrow> ui_event list \<Rightarrow> bool" where
  "one_at_a_time r [] = True"
| "one_at_a_time None (UE_Started k t # es) = one_at_a_time (Some (k, t)) es"
| "one_at_a_time (Some r) (UE_Ended k t # es) = (r = (k, t) \<and> one_at_a_time None es)"
| "one_at_a_time _ _ = False"

definition running :: "backend_ui \<Rightarrow> (operation_kind \<times> u64) option" where
  "running u = map_option (\<lambda>a. (act_kind a, act_token a)) (co_active (ui_gate u))"

lemma same_running: "same_operations u u' \<Longrightarrow> running u' = running u"
  by (simp add: same_operations_def running_def)

lemma one_at_a_time_step:
  assumes "ui_ok u"
  shows "one_at_a_time (running u) (snd (ui_step tr js u call) @ es) \<longleftrightarrow> one_at_a_time (running (fst (ui_step tr js u call))) es"
proof -
  have g: "gate_agrees u" using assms by (simp add: ui_ok_def)
  show ?thesis
  proof (cases call)
    case (UI_Switch b i r now)
    then show ?thesis
      by (cases "co_active (ui_gate u)")
        (auto simp: begin_backend_switch_def begin_switch_def begin_operation_def cancellation_new_def abandon_switch_def abandon_def
          running_def ui_gate_def Let_def trigger_discovery_parts split: sum.split prepare_switch_error.split)
  next
    case (UI_SwitchDone i outcome now)
    show ?thesis
    proof (cases "i < length (ui_switches u)")
      case True
      with g obtain a p r where "co_active (ui_gate u) = Some a" "act_kind a = BackendSwitch" "sc_pending (ui_active u) = Some p"
        "pn_token p = act_token a" "ui_switches u = [r]" "rq_token r = act_token a"
        by (auto simp: gate_agrees_def split: option.splits operation_kind.splits)
      moreover from this True have "i = 0" by simp
      ultimately show ?thesis
        using UI_SwitchDone
        by (auto simp: switch_done_def set_gate_def ui_gate_def complete_def complete_switch_def running_def trigger_discovery_parts Let_def
            split: option.split)
    next
      case False
      with UI_SwitchDone show ?thesis by (simp add: switch_done_def)
    qed
  next
    case (UI_Apply snap key v r)
    then show ?thesis
      by (cases "co_active (ui_gate u)")
        (auto simp: apply_change_def begin_operation_def cancellation_new_def abandon_def running_def ui_gate_def set_gate_def Let_def
          split: sum.split option.split)
  next
    case (UI_ApplyDone i result)
    show ?thesis
    proof (cases "i < length (ui_applies u)")
      case True
      with g obtain a snap d where "co_active (ui_gate u) = Some a" "act_kind a = BackendApply" "ui_applies u = [(snap, act_token a)]"
        by (auto simp: gate_agrees_def split: option.splits operation_kind.splits)
      moreover from this True have "i = 0" by simp
      ultimately show ?thesis
        using UI_ApplyDone by (simp add: apply_done_def set_gate_def ui_gate_def complete_def running_def complete_apply_parts)
    next
      case False
      with UI_ApplyDone show ?thesis by (simp add: apply_done_def)
    qed
  next
    case (UI_Read snap)
    have "same_operations u (trigger_snapshot snap u)"
      by (auto simp: trigger_snapshot_def same_operations_def ui_gate_def split: prod.split option.split)
    with UI_Read same_running show ?thesis by simp
  next
    case (UI_ReadDone i snapshot)
    have "same_operations u (read_done i snapshot u)" by (simp add: read_done_def same_operations_def ui_gate_def)
    with UI_ReadDone same_running show ?thesis by simp
  next
    case (UI_Discover now)
    with same_running [OF trigger_discovery_same] show ?thesis by simp
  next
    case (UI_Focus now)
    with same_running [OF rediscover_on_focus_same] show ?thesis by simp
  next
    case (UI_Discovered i result stale)
    with same_running [OF discovery_done_same [THEN conjunct1]] show ?thesis by simp
  qed
qed

lemma one_at_a_time_run:
  "ui_ok u \<Longrightarrow> honest_run tr js u calls \<Longrightarrow> one_at_a_time (running u) (snd (run_machine (ui_step tr js) u calls))"
proof (induction calls arbitrary: u)
  case Nil
  then show ?case by (cases "running u") simp_all
next
  case (Cons call calls)
  then have "ui_ok (fst (ui_step tr js u call))" by (simp add: ui_step_ok)
  with Cons show ?case by (simp add: one_at_a_time_step)
qed

lemma distinct_one: "distinct xs \<Longrightarrow> set xs = {x} \<Longrightarrow> xs = [x]"
  by (cases xs) (auto simp: subset_singleton_iff)

lemma shutdown_frees:
  assumes "gate_agrees u" and "set ds = ran (ui_apply_state u)" and "distinct ds"
  shows "co_active (ui_gate (shutdown ds u)) = None
    \<and> (\<forall>a. co_active (ui_gate u) = Some a \<longrightarrow> is_cancelled (act_cancellation a) (co_flags (ui_gate (shutdown ds u))))"
proof (cases "co_active (ui_gate u)")
  case None
  with assms have "ds = []" "sc_pending (ui_active u) = None" by (auto simp: gate_agrees_def)
  with None show ?thesis by (simp add: shutdown_def abandon_all_apply_state_def abandon_switch_def ui_gate_def Let_def)
next
  case (Some a)
  show ?thesis
  proof (cases "act_kind a")
    case BackendSwitch
    with Some assms obtain p where "ds = []" "sc_pending (ui_active u) = Some p" "pn_token p = act_token a"
      "act_cancellation a < length (co_flags (ui_gate u))"
      by (auto simp: gate_agrees_def)
    with Some show ?thesis
      by (auto simp: shutdown_def abandon_all_apply_state_def abandon_switch_def abandon_def ui_gate_def Let_def is_cancelled_def
          cancellation_cancel_def)
  next
    case BackendApply
    with Some assms(1) obtain snap d where d: "ui_apply_state u = [snap \<mapsto> d]" "pd_token d = act_token a" "pd_cancellation d = act_cancellation a"
      "sc_pending (ui_active u) = None" "act_cancellation a < length (co_flags (ui_gate u))" by (auto simp: gate_agrees_def)
    with assms(2,3) have "ds = [d]" by (intro distinct_one) simp_all
    with Some d show ?thesis
      by (auto simp: shutdown_def abandon_all_apply_state_def abandon_switch_def abandon_def ui_gate_def set_gate_def Let_def is_cancelled_def
          cancellation_cancel_def)
  qed
qed

text \<open>
  C18: the window runs one operation at a time and never loses the gate. Whatever the user asks
  and in whatever order the reads, switches, applies and discoveries come back, each with what
  it was asked for: a switch or an apply starts only when none runs, and what ends is the one
  running; the gate is taken exactly while a switch is pending or a change is being applied,
  by that operation's own token; and closing the window frees it and cancels what runs.
\<close>

theorem ui_one_operation:
  assumes "honest_run tr js ui_new calls"
  defines "u \<equiv> fst (run_machine (ui_step tr js) ui_new calls)"
  shows "one_at_a_time None (snd (run_machine (ui_step tr js) ui_new calls))
    \<and> (active_kind (ui_gate u) = Some BackendSwitch \<longleftrightarrow> switching_to (ui_active u) \<noteq> None)
    \<and> (active_kind (ui_gate u) = Some BackendApply \<longleftrightarrow> ui_apply_state u \<noteq> Map.empty)
    \<and> (\<forall>ds a. set ds = ran (ui_apply_state u) \<and> distinct ds \<longrightarrow>
         co_active (ui_gate (shutdown ds u)) = None
         \<and> (co_active (ui_gate u) = Some a \<longrightarrow> is_cancelled (act_cancellation a) (co_flags (ui_gate (shutdown ds u)))))"
proof -
  have ok: "ui_ok u" unfolding u_def by (rule ui_run_ok [OF ui_new_ok assms(1)])
  then have g: "gate_agrees u" by (simp add: ui_ok_def)
  have "running ui_new = None" by (simp add: running_def ui_gate_def ui_new_def with_coordinator_def coordinator_new_def)
  then have "one_at_a_time None (snd (run_machine (ui_step tr js) ui_new calls))"
    using one_at_a_time_run [OF ui_new_ok assms(1)] by simp
  moreover have "Map.empty \<noteq> [snap \<mapsto> d]" for snap :: ustr and d :: pending_change by (metis map_upd_nonempty)
  then have "active_kind (ui_gate u) = Some BackendSwitch \<longleftrightarrow> switching_to (ui_active u) \<noteq> None"
    "active_kind (ui_gate u) = Some BackendApply \<longleftrightarrow> ui_apply_state u \<noteq> Map.empty"
    using g by (auto simp: gate_agrees_def active_kind_def switching_to_def split: option.splits operation_kind.splits)
  moreover have "co_active (ui_gate (shutdown ds u)) = None
      \<and> (co_active (ui_gate u) = Some a \<longrightarrow> is_cancelled (act_cancellation a) (co_flags (ui_gate (shutdown ds u))))"
    if ds: "set ds = ran (ui_apply_state u)" "distinct ds" for ds a
    using shutdown_frees [OF g ds] by blast
  ultimately show ?thesis by blast
qed


text \<open>
  Two models discovered, the other one chosen: the switch runs, choosing the first one meanwhile
  starts nothing, and the switch comes back and looks again at the machine. Closing the window
  while it runs cancels it.
\<close>

definition whisper_connected :: connection_snapshot where
  "whisper_connected = two_models\<lparr>cs_active_state := AB_Connected whisper_backend\<rparr>"

definition choose_whisper :: "ui_call list" where
  "choose_whisper = [UI_Discover 0, UI_Discovered 0 (Inr two_models) [], UI_Switch whisper_backend False True 5]"

definition back_from_whisper :: "ui_call list" where
  "back_from_whisper = [UI_Switch parakeet_backend False True 6, UI_SwitchDone 0 (SO_Applied [] whisper_connected) 9,
     UI_Discovered 0 (Inr whisper_connected) []]"

lemma whisper_runs:
  "let (u, es) = run_machine (ui_step id plain_json) ui_new choose_whisper in
     es = [UE_Started BackendSwitch 1] \<and> active_kind (ui_gate u) = Some BackendSwitch"
  "honest_run id plain_json ui_new choose_whisper"
  by code_simp+

lemma whisper_comes_back:
  "snd (run_machine (ui_step id plain_json) ui_new (choose_whisper @ back_from_whisper)) = [UE_Started BackendSwitch 1, UE_Ended BackendSwitch 1]"
  "honest_run id plain_json ui_new (choose_whisper @ back_from_whisper)"
  by code_simp+

theorem ui_one_operation_witness:
  "let (u, es) = run_machine (ui_step id plain_json) ui_new choose_whisper;
       (v, fs) = run_machine (ui_step id plain_json) ui_new (choose_whisper @ back_from_whisper) in
     es = [UE_Started BackendSwitch 1] \<and> fs = [UE_Started BackendSwitch 1, UE_Ended BackendSwitch 1] \<and> one_at_a_time None fs
     \<and> switching_to (ui_active u) \<noteq> None
     \<and> (\<exists>a. co_active (ui_gate u) = Some a \<and> is_cancelled (act_cancellation a) (co_flags (ui_gate (shutdown [] u))))"
proof -
  obtain u es where u: "run_machine (ui_step id plain_json) ui_new choose_whisper = (u, es)" by fastforce
  obtain v fs where v: "run_machine (ui_step id plain_json) ui_new (choose_whisper @ back_from_whisper) = (v, fs)" by fastforce
  from ui_one_operation [OF whisper_runs(2)] whisper_runs(1) u
  have "switching_to (ui_active u) \<noteq> None"
    "\<exists>a. co_active (ui_gate u) = Some a \<and> is_cancelled (act_cancellation a) (co_flags (ui_gate (shutdown [] u)))"
    by (auto simp: active_kind_def)
  moreover from ui_one_operation [OF whisper_comes_back(2)] v have "one_at_a_time None fs" by simp
  ultimately show ?thesis using whisper_runs(1) whisper_comes_back(1) u v by simp
qed

section \<open>Strays and the window\<close>

text \<open>
  \<open>BackendController::connection_snapshot\<close> rebuilds the snapshot with
  \<open>ConnectionSnapshot::new\<close>, which has no strays, and that is the snapshot a switch is planned
  on; the preflight compares it with one read afresh, strays and all.
\<close>

lemma stray_plan_stale:
  assumes "switch_plan_new (s\<lparr>cs_strays := []\<rparr>) b = Inr p" and "cs_strays s \<noteq> []" and "\<And>w. fst (pt_refresh P w) = Inr s"
  shows "execute_switch P cancelled p w = (SO_StaleDiscovery s, snd (pt_refresh P w))"
proof -
  have "sp_baseline p = s\<lparr>cs_strays := []\<rparr>" using assms(1) by (auto simp: switch_plan_new_def Let_def split: if_splits)
  moreover have "s \<noteq> s\<lparr>cs_strays := []\<rparr>" using assms(2) by (metis connection_snapshot.select_convs(3) connection_snapshot.surjective
        connection_snapshot.update_convs(3))
  moreover obtain w' where "pt_refresh P w = (Inr s, w')" using assms(3) [of w] by (metis prod.collapse)
  ultimately show ?thesis by (simp add: execute_switch_def)
qed

lemma prune_snapshot:
  "controller_ok (ui_controller u) \<Longrightarrow>
     controller_connection_snapshot (ui_controller (prune_missing_backends stale u)) = controller_connection_snapshot (ui_controller u)"
proof (induction stale arbitrary: u)
  case Nil
  then show ?case by (simp add: prune_missing_backends_def)
next
  case (Cons name stale)
  let ?v = "(cancel_apply_state name u)\<lparr>ui_controller := cancel_page name (ui_controller u)\<rparr>"
  have "prune_missing_backends (name # stale) u = prune_missing_backends stale ?v"
    using cancel_apply_state_same [of u name] by (simp add: prune_missing_backends_def Let_def)
  moreover have "controller_connection_snapshot (cancel_page name (ui_controller u)) = controller_connection_snapshot (ui_controller u)"
    using Cons.prems
    by (auto simp: controller_connection_snapshot_def cancel_page_def controller_ok_def btree_insert_pages fun_eq_iff
        intro!: arg_cong2 [where f = List.map_filter] split: option.split)
  ultimately show ?case using Cons.IH [of ?v] Cons.prems controller_cancel_page_ok by simp
qed

text \<open>The calls that bring neither a switch's outcome nor a discovery.\<close>

fun keeps_snapshot :: "ui_call \<Rightarrow> bool" where
  "keeps_snapshot (UI_SwitchDone i outcome now) = False"
| "keeps_snapshot (UI_Discovered i result stale) = False"
| "keeps_snapshot _ = True"

lemma begin_switch_snapshot: "begin_switch b c = (a, x) \<Longrightarrow> sc_snapshot a = sc_snapshot c"
  by (auto simp: begin_switch_def begin_operation_def Let_def split: if_splits sum.splits prod.splits)

lemma abandon_switch_snapshot: "sc_snapshot (abandon_switch a) = sc_snapshot a"
  by (simp add: abandon_switch_def split: option.split)

lemma ui_step_snapshot:
  assumes "keeps_snapshot call"
  shows "sc_snapshot (ui_active (fst (ui_step tr js u call))) = sc_snapshot (ui_active u)"
proof (cases call)
  case (UI_Switch b i r now)
  show ?thesis
  proof (cases "begin_switch b (ui_active u)")
    case (Pair a x)
    with UI_Switch begin_switch_snapshot [OF Pair] show ?thesis
      by (auto simp: begin_backend_switch_def trigger_discovery_parts abandon_switch_snapshot split: sum.split prepare_switch_error.split)
  qed
next
  case (UI_Apply snap key v r)
  then show ?thesis
    by (auto simp: apply_change_def set_gate_def Let_def split: option.split sum.split prod.split)
next
  case (UI_ApplyDone i result)
  then show ?thesis by (simp add: apply_done_def complete_apply_parts set_gate_def Let_def case_prod_beta)
next
  case (UI_Read snap)
  then show ?thesis by (simp add: trigger_snapshot_def split: prod.split option.split)
next
  case (UI_ReadDone i s)
  then show ?thesis by (simp add: read_done_def)
next
  case (UI_Discover now)
  then show ?thesis by (simp add: trigger_discovery_parts)
next
  case (UI_Focus now)
  then show ?thesis by (simp add: rediscover_on_focus_def split: option.split)
qed (use assms in simp_all)

lemma ui_run_snapshot:
  "list_all keeps_snapshot calls \<Longrightarrow> sc_snapshot (ui_active (fst (run_machine (ui_step tr js) u calls))) = sc_snapshot (ui_active u)"
  by (induction calls arbitrary: u) (simp_all add: ui_step_snapshot)


text \<open>
  Once the stale outcome is back, the controller holds the snapshot the preflight read, strays
  and all, until the discovery it starts comes back and takes them out again.
\<close>

lemma stale_outcome_keeps_strays:
  assumes "gate_agrees u" and "switching_to (ui_active u) \<noteq> None"
  shows "sc_snapshot (ui_active (fst (switch_done 0 (SO_StaleDiscovery s) now u))) = s"
proof -
  from assms obtain a p r where "co_active (ui_gate u) = Some a" "sc_pending (ui_active u) = Some p" "pn_token p = act_token a"
    "ui_switches u = [r]" "rq_token r = act_token a"
    by (auto simp: gate_agrees_def switching_to_def split: option.splits operation_kind.splits)
  then show ?thesis
    by (simp add: switch_done_def set_gate_def ui_gate_def complete_def complete_switch_def trigger_discovery_parts Let_def)
qed

definition stray_machine :: connection_snapshot where
  "stray_machine = two_models\<lparr>cs_strays := [backend_identity_new (lit ''gemma4'') (lit ''provider'')]\<rparr>"

definition discovering :: backend_ui where
  "discovering = ui_new\<lparr>ui_controller := fst (begin_discovery 0 controller_default)\<rparr>"

definition first_discovery :: discovery_request where
  "first_discovery = \<lparr>dr_generation = 1, dr_token = 0, dr_quiet = False\<rparr>"

definition stray_ports :: "unit ports" where
  "stray_ports = \<lparr>pt_refresh = (\<lambda>w. (Inr stray_machine, w)), pt_changes = (\<lambda>w. (Inr [], w)), pt_switch = (\<lambda>c p w. (Inr [], w)),
     pt_restart = (\<lambda>w. (Inr (), w))\<rparr>"


end
