(* ===== verification/Language.thy ===== *)
theory Language
  imports Apply_Plan
begin

text \<open>
  The user's languages and the model recommended for them: \<open>client/myna-core/src/locale.rs\<close>
  and \<open>client/myna-core/src/language.rs\<close>. What the locale environment and AccountsService
  answer are arguments. A published error rate, a percentage with two decimals below 100, is
  kept as its hundredfold: \<open>f32\<close> holds such numbers well enough apart that \<open>total_cmp\<close> orders
  them as these naturals are ordered.
\<close>

section \<open>Locales\<close>

text \<open>
  \<open>language.len()\<close> counts bytes; a language beyond ASCII is refused by the other condition
  whatever its length, so characters serve.
\<close>

definition normalize_locale :: "ustr \<Rightarrow> ustr option" where
  "normalize_locale locale =
     (let (language, region) = splitn2 (\<lambda>c. c = 95 \<or> c = 45) (hd (split_p (\<lambda>c. c = 46 \<or> c = 64) locale)) in
      if \<not> (2 \<le> length language \<and> length language \<le> 3) \<or> \<not> list_all is_ascii_alphabetic language then None
      else case region of
        Some r \<Rightarrow> if r \<noteq> [] then Some (to_ascii_lowercase language @ lit ''_'' @ to_ascii_uppercase r)
                  else Some (to_ascii_lowercase language)
      | None \<Rightarrow> Some (to_ascii_lowercase language))"

definition language_code :: "ustr \<Rightarrow> ustr option" where
  "language_code locale = map_option (takeWhile (\<lambda>c. c \<noteq> 95)) (normalize_locale locale)"

fun collect_languages :: "ustr list \<Rightarrow> ustr list \<Rightarrow> ustr list" where
  "collect_languages languages [] = languages"
| "collect_languages languages (name # rest) =
     (case normalize_locale name of
        Some language \<Rightarrow> collect_languages (if language \<in> set languages then languages else languages @ [language]) rest
      | None \<Rightarrow> collect_languages languages rest)"

definition preferred_languages :: "ustr list \<Rightarrow> ustr option \<Rightarrow> ustr list" where
  "preferred_languages language_names account_language =
     (let languages = collect_languages [] language_names;
          languages' = (if languages = [] then (case Option.bind account_language normalize_locale of Some l \<Rightarrow> [l] | None \<Rightarrow> [])
                        else languages)
      in if languages' = [] then [lit ''en''] else languages')"

section \<open>Model families\<close>

definition PARAKEET_LANGUAGES :: "ustr list" where
  "PARAKEET_LANGUAGES = map lit [''en'', ''de'', ''fr'', ''es'', ''it'', ''pt'', ''ru'', ''pl'', ''uk'', ''nl'', ''ro'', ''cs'', ''el'', ''hu'',
     ''sv'', ''bg'', ''da'', ''fi'', ''sk'', ''hr'', ''lt'', ''sl'', ''lv'', ''et'', ''mt'']"

definition FUNASR_LANGUAGES :: "ustr list" where
  "FUNASR_LANGUAGES = map lit [''zh'', ''en'', ''yue'', ''ja'', ''ko'']"

definition WHISPER_LANGUAGES :: "ustr list" where
  "WHISPER_LANGUAGES = map lit [''en'', ''zh'', ''de'', ''es'', ''ru'', ''ko'', ''fr'', ''ja'', ''pt'', ''tr'', ''pl'', ''ca'', ''nl'', ''ar'',
     ''sv'', ''it'', ''id'', ''hi'', ''fi'', ''vi'', ''he'', ''uk'', ''el'', ''ms'', ''cs'', ''ro'', ''da'', ''hu'',
     ''ta'', ''no'', ''th'', ''ur'', ''hr'', ''bg'', ''lt'', ''la'', ''mi'', ''ml'', ''cy'', ''sk'', ''te'', ''fa'',
     ''lv'', ''bn'', ''sr'', ''az'', ''sl'', ''kn'', ''et'', ''mk'', ''br'', ''eu'', ''is'', ''hy'', ''ne'', ''mn'',
     ''bs'', ''kk'', ''sq'', ''sw'', ''gl'', ''mr'', ''pa'', ''si'', ''km'', ''sn'', ''yo'', ''so'', ''af'', ''oc'',
     ''ka'', ''be'', ''tg'', ''sd'', ''gu'', ''am'', ''yi'', ''lo'', ''uz'', ''fo'', ''ht'', ''ps'', ''tk'', ''nn'',
     ''mt'', ''sa'', ''lb'', ''my'', ''bo'', ''tl'', ''mg'', ''as'', ''tt'', ''haw'', ''ln'', ''ha'', ''ba'', ''jv'',
     ''su'']"

fun family_languages :: "model_family \<Rightarrow> ustr list" where
  "family_languages Parakeet = PARAKEET_LANGUAGES"
| "family_languages Whisper = WHISPER_LANGUAGES"
| "family_languages FunAsr = FUNASR_LANGUAGES"

definition takes_spoken_language :: "model_family \<Rightarrow> bool" where
  "takes_spoken_language f \<longleftrightarrow> f = Whisper"

definition takes_vocabulary :: "model_family \<Rightarrow> bool" where
  "takes_vocabulary f \<longleftrightarrow> f = Parakeet"

definition streams_by_default :: "model_family \<Rightarrow> bool" where
  "streams_by_default f \<longleftrightarrow> f = Parakeet"

definition ALIASES :: "(ustr \<times> ustr) list" where
  "ALIASES = [(lit ''nb'', lit ''no''), (lit ''fil'', lit ''tl''), (lit ''iw'', lit ''he''), (lit ''in'', lit ''id''), (lit ''ji'', lit ''yi'')]"

fun find_map :: "('a \<Rightarrow> 'b option) \<Rightarrow> 'a list \<Rightarrow> 'b option" where
  "find_map f [] = None"
| "find_map f (x # xs) = (case f x of Some y \<Rightarrow> Some y | None \<Rightarrow> find_map f xs)"

definition user_language :: "ustr list \<Rightarrow> ustr option" where
  "user_language preferred =
     map_option (\<lambda>language. case find (\<lambda>(alias, _). alias = language) ALIASES of Some (_, code) \<Rightarrow> code | None \<Rightarrow> language)
       (find_map language_code preferred)"

record measured =
  me_language :: ustr
  me_family :: model_family
  me_error_rate :: nat

definition measured :: "ustr \<Rightarrow> model_family \<Rightarrow> nat \<Rightarrow> measured" where
  "measured l f r = \<lparr>me_language = l, me_family = f, me_error_rate = r\<rparr>"

definition TABLE :: "measured list" where
  "TABLE = [measured (lit ''bg'') Parakeet 1264, measured (lit ''cs'') Parakeet 1101, measured (lit ''da'') Parakeet 1841, measured (lit ''de'') Parakeet 504,
     measured (lit ''el'') Parakeet 2070, measured (lit ''en'') Parakeet 485, measured (lit ''es'') Parakeet 345, measured (lit ''et'') Parakeet 1773,
     measured (lit ''fi'') Parakeet 1321, measured (lit ''fr'') Parakeet 515, measured (lit ''hr'') Parakeet 1246, measured (lit ''hu'') Parakeet 1572,
     measured (lit ''it'') Parakeet 300, measured (lit ''lt'') Parakeet 2035, measured (lit ''lv'') Parakeet 2284, measured (lit ''mt'') Parakeet 2046,
     measured (lit ''nl'') Parakeet 748, measured (lit ''pl'') Parakeet 731, measured (lit ''pt'') Parakeet 476, measured (lit ''ro'') Parakeet 1244,
     measured (lit ''ru'') Parakeet 551, measured (lit ''sk'') Parakeet 882, measured (lit ''sl'') Parakeet 2403, measured (lit ''sv'') Parakeet 1508,
     measured (lit ''uk'') Parakeet 679, measured (lit ''en'') FunAsr 1471, measured (lit ''ja'') FunAsr 1196, measured (lit ''ko'') FunAsr 828,
     measured (lit ''yue'') FunAsr 709, measured (lit ''zh'') FunAsr 1078, measured (lit ''en'') Whisper 1485, measured (lit ''ja'') Whisper 1951,
     measured (lit ''ko'') Whisper 1048, measured (lit ''yue'') Whisper 3897, measured (lit ''zh'') Whisper 1960]"

text \<open>\<open>Iterator::min_by\<close>: the first of the least.\<close>

fun min_by_rate :: "measured list \<Rightarrow> measured option" where
  "min_by_rate [] = None"
| "min_by_rate (m # ms) =
     (case min_by_rate ms of
        None \<Rightarrow> Some m
      | Some n \<Rightarrow> if me_error_rate m \<le> me_error_rate n then Some m else Some n)"

definition recommend_among :: "ustr list \<Rightarrow> model_family list \<Rightarrow> model_family option" where
  "recommend_among preferred candidates =
     (case Option.bind (user_language preferred)
             (\<lambda>language. map_option me_family
                (min_by_rate (filter (\<lambda>m. me_language m = language \<and> me_family m \<in> set candidates) TABLE))) of
        Some f \<Rightarrow> Some f
      | None \<Rightarrow> if Whisper \<in> set candidates then Some Whisper else None)"

definition recommend :: "ustr list \<Rightarrow> model_family" where
  "recommend preferred = (case recommend_among preferred families of Some f \<Rightarrow> f | None \<Rightarrow> Whisper)"

section \<open>Normal locales\<close>

text \<open>A normal locale: two or three lower-case letters, and a region in capitals if any.\<close>

definition normal_locale :: "ustr \<Rightarrow> bool" where
  "normal_locale l \<longleftrightarrow>
     (\<exists>language region. l = language @ region \<and> 2 \<le> length language \<and> length language \<le> 3 \<and> list_all is_ascii_lowercase language
        \<and> (region = [] \<or> (\<exists>r. region = 95 # r \<and> r \<noteq> [] \<and> list_all (\<lambda>c. \<not> is_ascii_lowercase c \<and> c \<noteq> 46 \<and> c \<noteq> 64) r)))"

lemma to_lower_letters: "list_all is_ascii_alphabetic l \<Longrightarrow> list_all is_ascii_lowercase (to_ascii_lowercase l)"
  by (induction l) (auto simp: to_ascii_lowercase_def is_ascii_alphabetic_def ascii_defs)

lemma to_lower_id: "list_all is_ascii_lowercase l \<Longrightarrow> to_ascii_lowercase l = l"
  by (induction l) (auto simp: to_ascii_lowercase_def ascii_defs)

lemma to_upper_id: "list_all (\<lambda>c. \<not> is_ascii_lowercase c \<and> Q c) l \<Longrightarrow> to_ascii_uppercase l = l"
  by (induction l) (auto simp: to_ascii_uppercase_def)

lemma to_upper_region:
  "\<forall>c \<in> set l. c \<noteq> 46 \<and> c \<noteq> 64 \<Longrightarrow> list_all (\<lambda>c. \<not> is_ascii_lowercase c \<and> c \<noteq> 46 \<and> c \<noteq> 64) (to_ascii_uppercase l)"
  by (induction l) (auto simp: to_ascii_uppercase_def ascii_defs)

lemma splitn2_region:
  assumes "splitn2 P s = (language, Some r)"
  shows "set r \<subseteq> set s"
proof -
  obtain x where "dropWhile (\<lambda>c. \<not> P c) s = x # r"
    using assms by (auto simp: splitn2_def split: list.splits)
  then show ?thesis by (metis set_dropWhileD set_subset_Cons subset_eq)
qed

lemma normalize_locale_normal:
  assumes "normalize_locale s = Some l"
  shows "normal_locale l"
proof -
  let ?name = "hd (split_p (\<lambda>c. c = 46 \<or> c = 64) s)"
  obtain language region where sp: "splitn2 (\<lambda>c. c = 95 \<or> c = 45) ?name = (language, region)" by fastforce
  have ok: "2 \<le> length language" "length language \<le> 3" "list_all is_ascii_alphabetic language"
    using assms sp by (auto simp: normalize_locale_def split: if_splits)
  have name: "c \<noteq> 46 \<and> c \<noteq> 64" if "c \<in> set ?name" for c
    using that split_p_no_sep [of ?name "\<lambda>c. c = 46 \<or> c = 64" s c] by simp
  note low = to_lower_letters [OF ok(3)]
  have len: "length (to_ascii_lowercase language) = length language" by (simp add: to_ascii_lowercase_def)
  show ?thesis
  proof (cases "\<exists>r. region = Some r \<and> r \<noteq> []")
    case True
    then obtain r where r: "region = Some r" "r \<noteq> []" by blast
    then have "\<forall>c \<in> set r. c \<noteq> 46 \<and> c \<noteq> 64" using sp splitn2_region name by blast
    from to_upper_region [OF this] r sp assms ok low len show ?thesis
      unfolding normal_locale_def
      by (intro exI [of _ "to_ascii_lowercase language"] exI [of _ "95 # to_ascii_uppercase r"])
        (auto simp: normalize_locale_def lit_def to_ascii_uppercase_def)
  next
    case False
    then have "l = to_ascii_lowercase language"
      using assms sp ok by (auto simp: normalize_locale_def split: option.splits if_splits)
    with ok low len show ?thesis unfolding normal_locale_def by (intro exI [of _ l] exI [of _ "[]"]) simp
  qed
qed

lemma lowercase_no_separator: "is_ascii_lowercase c \<Longrightarrow> c \<noteq> 95 \<and> c \<noteq> 45 \<and> c \<noteq> 46 \<and> c \<noteq> 64"
  by (simp add: is_ascii_lowercase_def)

lemma normal_locale_fixed:
  assumes "normal_locale l"
  shows "normalize_locale l = Some l"
proof -
  obtain language region where l: "l = language @ region" and len: "2 \<le> length language" "length language \<le> 3"
    and low: "list_all is_ascii_lowercase language"
    and reg: "region = [] \<or> (\<exists>r. region = 95 # r \<and> r \<noteq> [] \<and> list_all (\<lambda>c. \<not> is_ascii_lowercase c \<and> c \<noteq> 46 \<and> c \<noteq> 64) r)"
    using assms unfolding normal_locale_def by blast
  have "c \<noteq> 46 \<and> c \<noteq> 64" if "c \<in> set l" for c
    using that l low reg lowercase_no_separator by (auto simp: list_all_iff)
  then have name: "split_p (\<lambda>c. c = 46 \<or> c = 64) l = [l]" by (intro split_p_single) auto
  have tw: "takeWhile (\<lambda>c. c \<noteq> 95 \<and> c \<noteq> 45) l = language"
    and dw: "dropWhile (\<lambda>c. c \<noteq> 95 \<and> c \<noteq> 45) l = region"
    using l low reg lowercase_no_separator
    by (auto simp: list_all_iff takeWhile_append dropWhile_append takeWhile_eq_all_conv dropWhile_eq_Nil_conv)
  have alpha: "list_all is_ascii_alphabetic language" using low by (simp add: list_all_iff is_ascii_alphabetic_def)
  have sp: "splitn2 (\<lambda>c. c = 95 \<or> c = 45) l = (language, case region of [] \<Rightarrow> None | _ # r \<Rightarrow> Some r)"
    using tw dw by (simp add: splitn2_def)
  note facts = name sp len alpha to_lower_id [OF low]
  from reg have "normalize_locale l = Some (language @ region)"
  proof
    assume "region = []"
    with facts show ?thesis by (simp add: normalize_locale_def)
  next
    assume "\<exists>r. region = 95 # r \<and> r \<noteq> [] \<and> list_all (\<lambda>c. \<not> is_ascii_lowercase c \<and> c \<noteq> 46 \<and> c \<noteq> 64) r"
    then obtain r where r: "region = 95 # r" "r \<noteq> []" "list_all (\<lambda>c. \<not> is_ascii_lowercase c \<and> c \<noteq> 46 \<and> c \<noteq> 64) r" by blast
    with facts to_upper_id [OF r(3)] show ?thesis by (simp add: normalize_locale_def lit_def)
  qed
  with l show ?thesis by simp
qed

lemma normalize_locale_iff: "normalize_locale l = Some l \<longleftrightarrow> normal_locale l"
  using normalize_locale_normal normal_locale_fixed by blast

lemma collect_languages_order:
  "distinct languages \<Longrightarrow>
     collect_languages languages locales = rev (remdups (rev (languages @ filter_map normalize_locale locales)))"
proof (induction languages locales rule: collect_languages.induct)
  case (1 languages)
  then show ?case by (simp add: distinct_remdups_id)
next
  case (2 languages name rest)
  show ?case
  proof (cases "normalize_locale name")
    case None
    with 2 show ?thesis by simp
  next
    case (Some l)
    let ?ls = "if l \<in> set languages then languages else languages @ [l]"
    have "distinct ?ls" using 2(3) by simp
    from 2(2) [OF Some this] Some show ?thesis
      by (simp add: remdups_append2 [of _ "l # rev languages", symmetric] remdups_append2 [of _ "rev languages", symmetric])
  qed
qed

lemma normalize_en: "normalize_locale (lit ''en'') = Some (lit ''en'')"
  by code_simp

text \<open>
  What a name of the environment reads as, without the parsing: letters, a separator and a region,
  and whatever follows the first dot or at sign.
\<close>

definition locale_reads :: "ustr \<Rightarrow> ustr \<Rightarrow> bool" where
  "locale_reads name l \<longleftrightarrow>
     (\<exists>language region rest. name = language @ region @ rest
        \<and> 2 \<le> length language \<and> length language \<le> 3 \<and> list_all is_ascii_alphabetic language
        \<and> list_all (\<lambda>c. c \<noteq> 46 \<and> c \<noteq> 64) region \<and> (rest = [] \<or> hd rest = 46 \<or> hd rest = 64)
        \<and> (case region of
             [] \<Rightarrow> l = to_ascii_lowercase language
           | sep # r \<Rightarrow> (sep = 95 \<or> sep = 45)
               \<and> l = to_ascii_lowercase language @ (if r = [] then [] else 95 # to_ascii_uppercase r)))"

lemma split_p_hd: "hd (split_p P s) = takeWhile (\<lambda>c. \<not> P c) s"
  by (induction s) (auto split: list.splits)

lemma alphabetic_no_separator: "is_ascii_alphabetic c \<Longrightarrow> c \<noteq> 95 \<and> c \<noteq> 45 \<and> c \<noteq> 46 \<and> c \<noteq> 64"
  by (auto simp: is_ascii_alphabetic_def ascii_defs)

lemma divide_at:
  obtains a b where "xs = a @ b" and "list_all (\<lambda>x. \<not> P x) a" and "b = [] \<or> P (hd b)"
    and "takeWhile (\<lambda>x. \<not> P x) xs = a" and "dropWhile (\<lambda>x. \<not> P x) xs = b"
proof -
  let ?a = "takeWhile (\<lambda>x. \<not> P x) xs" and ?b = "dropWhile (\<lambda>x. \<not> P x) xs"
  have "list_all (\<lambda>x. \<not> P x) ?a" by (auto simp: list_all_iff dest: set_takeWhileD)
  moreover have "?b = [] \<or> P (hd ?b)" using hd_dropWhile [of "\<lambda>x. \<not> P x" xs] by auto
  ultimately show ?thesis using that [of ?a ?b] by simp
qed

lemma normalize_locale_reads: "normalize_locale name = Some l \<longleftrightarrow> locale_reads name l"
proof
  assume norm: "normalize_locale name = Some l"
  obtain front rest where front: "name = front @ rest" "list_all (\<lambda>c. \<not> (c = 46 \<or> c = 64)) front"
      "rest = [] \<or> hd rest = 46 \<or> hd rest = 64" "takeWhile (\<lambda>c. \<not> (c = 46 \<or> c = 64)) name = front"
    by (rule divide_at [of name "\<lambda>c. c = 46 \<or> c = 64"])
  obtain language region where lang: "front = language @ region" "region = [] \<or> hd region = 95 \<or> hd region = 45"
      "takeWhile (\<lambda>c. \<not> (c = 95 \<or> c = 45)) front = language" "dropWhile (\<lambda>c. \<not> (c = 95 \<or> c = 45)) front = region"
    by (rule divide_at [of front "\<lambda>c. c = 95 \<or> c = 45"])
  have "splitn2 (\<lambda>c. c = 95 \<or> c = 45) front = (language, case region of [] \<Rightarrow> None | _ # r \<Rightarrow> Some r)"
    using lang(3,4) by (simp add: splitn2_def)
  moreover have "hd (split_p (\<lambda>c. c = 46 \<or> c = 64) name) = front" using front(4) by (simp add: split_p_hd)
  ultimately have norm': "normalize_locale name =
     (if \<not> (2 \<le> length language \<and> length language \<le> 3) \<or> \<not> list_all is_ascii_alphabetic language then None
      else case region of [] \<Rightarrow> Some (to_ascii_lowercase language)
        | _ # r \<Rightarrow> Some (to_ascii_lowercase language @ (if r = [] then [] else 95 # to_ascii_uppercase r)))"
    by (cases region) (simp_all add: normalize_locale_def lit_def)
  with norm have len: "2 \<le> length language \<and> length language \<le> 3 \<and> list_all is_ascii_alphabetic language"
    by (simp split: if_splits)
  with norm norm' lang(2) have l: "case region of [] \<Rightarrow> l = to_ascii_lowercase language
       | sep # r \<Rightarrow> (sep = 95 \<or> sep = 45) \<and> l = to_ascii_lowercase language @ (if r = [] then [] else 95 # to_ascii_uppercase r)"
    by (cases region) simp_all
  have "name = language @ region @ rest" "list_all (\<lambda>c. c \<noteq> 46 \<and> c \<noteq> 64) region"
    using front(1,2) lang(1) by simp_all
  with len l front(3) show "locale_reads name l" unfolding locale_reads_def by blast
next
  assume "locale_reads name l"
  then obtain language region rest where name: "name = language @ region @ rest"
    and len: "2 \<le> length language" "length language \<le> 3" and alpha: "list_all is_ascii_alphabetic language"
    and reg: "list_all (\<lambda>c. c \<noteq> 46 \<and> c \<noteq> 64) region" and rest: "rest = [] \<or> hd rest = 46 \<or> hd rest = 64"
    and l: "case region of [] \<Rightarrow> l = to_ascii_lowercase language
       | sep # r \<Rightarrow> (sep = 95 \<or> sep = 45) \<and> l = to_ascii_lowercase language @ (if r = [] then [] else 95 # to_ascii_uppercase r)"
    unfolding locale_reads_def by blast
  have letters: "\<forall>c \<in> set language. c \<noteq> 95 \<and> c \<noteq> 45 \<and> c \<noteq> 46 \<and> c \<noteq> 64"
    using alpha alphabetic_no_separator by (auto simp: list_all_iff)
  have "takeWhile (\<lambda>c. c \<noteq> 46 \<and> c \<noteq> 64) rest = []" using rest by (cases rest) auto
  then have front: "takeWhile (\<lambda>c. c \<noteq> 46 \<and> c \<noteq> 64) name = language @ region"
    using letters reg by (auto simp: name list_all_iff takeWhile_append)
  have "takeWhile (\<lambda>c. c \<noteq> 95 \<and> c \<noteq> 45) region = []" "dropWhile (\<lambda>c. c \<noteq> 95 \<and> c \<noteq> 45) region = region"
    using l by (auto split: list.splits)
  then have "splitn2 (\<lambda>c. c = 95 \<or> c = 45) (language @ region) = (language, case region of [] \<Rightarrow> None | _ # r \<Rightarrow> Some r)"
    using letters by (auto simp: splitn2_def takeWhile_append dropWhile_append)
  with front len alpha l show "normalize_locale name = Some l"
    by (auto simp: normalize_locale_def split_p_hd lit_def split: list.splits)
qed

text \<open>
  C40: the user's languages come in the order of preference of the environment: every name that
  begins with two or three letters, up to a dot or an at sign, gives its language in small letters
  and its region in capitals, and any other name (\<open>C\<close>, \<open>POSIX\<close>) nothing; of equal ones the
  first is kept. Only when the environment names no language is it the account's, and failing that
  English. So the list is never empty, repeats nothing, and each entry is two or three small
  letters, with an underscore and a region without small letters if it has one; read again,
  it stays as it is.
\<close>

theorem preferred_languages_normal:
  "let ls = preferred_languages locales account;
       env = rev (remdups (rev (filter_map normalize_locale locales)))
   in ls = (if env \<noteq> [] then env
            else case Option.bind account normalize_locale of Some l \<Rightarrow> [l] | None \<Rightarrow> [lit ''en''])
      \<and> ls \<noteq> [] \<and> distinct ls \<and> list_all normal_locale ls \<and> map normalize_locale ls = map Some ls
      \<and> (\<forall>name l. normalize_locale name = Some l \<longleftrightarrow> locale_reads name l)"
proof -
  let ?ls = "preferred_languages locales account"
  let ?env = "rev (remdups (rev (filter_map normalize_locale locales)))"
  have order: "collect_languages [] locales = ?env" using collect_languages_order [of "[]" locales] by simp
  have ls: "?ls = (if ?env \<noteq> [] then ?env
      else case Option.bind account normalize_locale of Some l \<Rightarrow> [l] | None \<Rightarrow> [lit ''en''])"
    unfolding preferred_languages_def order by (auto simp: Let_def split: option.split)
  have "normal_locale l" if "l \<in> set ?env" for l
    using that by (induction locales) (auto split: option.splits simp: normalize_locale_normal)
  moreover have "normal_locale l" if "Option.bind account normalize_locale = Some l" for l
    using that normalize_locale_normal by (auto simp: bind_eq_Some_conv)
  ultimately have normal: "list_all normal_locale ?ls"
    unfolding ls using normalize_locale_normal [OF normalize_en] by (auto simp: list_all_iff split: option.split)
  then have "map normalize_locale ?ls = map Some ?ls" by (auto simp: list_all_iff normal_locale_fixed)
  moreover have "?ls \<noteq> [] \<and> distinct ?ls" unfolding ls by (auto split: option.split)
  ultimately show ?thesis using ls normal normalize_locale_reads unfolding Let_def by blast
qed

section \<open>The recommendation\<close>

lemma min_by_rate_None: "min_by_rate ms = None \<longleftrightarrow> ms = []"
  by (cases ms) (auto split: option.splits)

lemma min_by_rate_Some:
  "min_by_rate ms = Some m \<Longrightarrow> m \<in> set ms \<and> (\<forall>n \<in> set ms. me_error_rate m \<le> me_error_rate n)"
proof (induction ms arbitrary: m)
  case Nil
  then show ?case by simp
next
  case (Cons x ms)
  show ?case
  proof (cases "min_by_rate ms")
    case None
    with Cons.prems show ?thesis by (simp add: min_by_rate_None)
  next
    case (Some n)
    from Cons.IH [OF this] Cons.prems Some show ?thesis by (auto split: if_splits)
  qed
qed

lemma table_covered: "list_all (\<lambda>m. me_family m = Whisper \<or> me_language m \<in> set (family_languages (me_family m))) TABLE"
  by code_simp

definition best_measured :: "ustr \<Rightarrow> model_family list \<Rightarrow> model_family \<Rightarrow> bool" where
  "best_measured language candidates f \<longleftrightarrow>
     (\<exists>m \<in> set TABLE. me_language m = language \<and> me_family m = f \<and> f \<in> set candidates
        \<and> (\<forall>n \<in> set TABLE. me_language n = language \<and> me_family n \<in> set candidates \<longrightarrow> me_error_rate m \<le> me_error_rate n))"

definition unmeasured :: "ustr \<Rightarrow> model_family list \<Rightarrow> bool" where
  "unmeasured language candidates \<longleftrightarrow> (\<forall>m \<in> set TABLE. me_language m = language \<longrightarrow> me_family m \<notin> set candidates)"

lemma best_measured_covered: "best_measured language candidates f \<Longrightarrow> f = Whisper \<or> language \<in> set (family_languages f)"
  using table_covered by (auto simp: best_measured_def list_all_iff)

text \<open>
  The recommended family is one of the candidates. For the user's first language it has
  the lowest published error rate of them, and then it is Whisper or lists the language; a
  language no candidate is measured on, or no language at all, goes to Whisper if it is a
  candidate. Nothing is recommended exactly when no candidate is measured and Whisper is not
  among them.
\<close>

theorem recommend_best:
  "case recommend_among preferred candidates of
     Some f \<Rightarrow> f \<in> set candidates
       \<and> (case user_language preferred of
            Some l \<Rightarrow> best_measured l candidates f \<and> (f = Whisper \<or> l \<in> set (family_languages f))
                       \<or> unmeasured l candidates \<and> f = Whisper
          | None \<Rightarrow> f = Whisper)
   | None \<Rightarrow> Whisper \<notin> set candidates
       \<and> (case user_language preferred of Some l \<Rightarrow> unmeasured l candidates | None \<Rightarrow> True)"
proof (cases "user_language preferred")
  case None
  then show ?thesis by (simp add: recommend_among_def)
next
  case (Some l)
  let ?ms = "filter (\<lambda>m. me_language m = l \<and> me_family m \<in> set candidates) TABLE"
  show ?thesis
  proof (cases "min_by_rate ?ms")
    case None
    then have "unmeasured l candidates" by (auto simp: min_by_rate_None unmeasured_def filter_empty_conv)
    with None Some show ?thesis by (simp add: recommend_among_def)
  next
    case (Some m)
    with min_by_rate_Some [OF this] have "best_measured l candidates (me_family m)"
      unfolding best_measured_def by (intro bexI [of _ m]) auto
    with Some \<open>user_language preferred = Some l\<close> best_measured_covered [OF this] show ?thesis
      by (auto simp: recommend_among_def best_measured_def)
  qed
qed

text \<open>
  The comment of \<open>recommend_among\<close> promises \<open>None\<close> when no candidate can transcribe the
  language; with Whisper among the candidates a language no family lists still gets Whisper.
\<close>

lemma recommend_unlisted:
  "recommend_among [lit ''xx''] families = Some Whisper \<and> list_all (\<lambda>f. lit ''xx'' \<notin> set (family_languages f)) families"
  by code_simp

end
