(* ===== verification/Onboarding.thy ===== *)
theory Onboarding
  imports Language Pkexec
begin

text \<open>
  What a machine is missing before dictation works and what the wizard may do about it:
  \<open>client/myna-config/src/onboarding.rs\<close>, with the desktop's component states of
  \<open>client/myna-platform/src/components.rs\<close>. The wizard that acts on these rules is \<open>Wizard\<close>.
\<close>

section \<open>Components\<close>

datatype component_id = CI_UserDaemons | CI_Myna | CI_Model | CI_InputMethod | CI_StatusSurface

text \<open>The derived order of the enumeration, which orders the wizard's map of installs.\<close>

fun component_rank :: "component_id \<Rightarrow> nat" where
  "component_rank CI_UserDaemons = 0"
| "component_rank CI_Myna = 1"
| "component_rank CI_Model = 2"
| "component_rank CI_InputMethod = 3"
| "component_rank CI_StatusSurface = 4"

lemma component_rank_inject [simp]: "component_rank a = component_rank b \<longleftrightarrow> a = b"
  by (cases a; cases b) simp_all

instantiation component_id :: linorder
begin

definition less_eq_component_id :: "component_id \<Rightarrow> component_id \<Rightarrow> bool" where
  "less_eq_component_id a b \<longleftrightarrow> component_rank a \<le> component_rank b"

definition less_component_id :: "component_id \<Rightarrow> component_id \<Rightarrow> bool" where
  "less_component_id a b \<longleftrightarrow> component_rank a < component_rank b"

instance
  by standard (auto simp: less_eq_component_id_def less_component_id_def)

end

definition ALL_COMPONENTS :: "component_id list" where
  "ALL_COMPONENTS = [CI_UserDaemons, CI_Myna, CI_Model, CI_InputMethod, CI_StatusSurface]"

definition is_desktop :: "component_id \<Rightarrow> bool" where
  "is_desktop cid \<longleftrightarrow> cid \<in> {CI_InputMethod, CI_StatusSurface}"

definition ci_required :: "component_id \<Rightarrow> bool" where
  "ci_required cid \<longleftrightarrow> \<not> is_desktop cid"

datatype blocker = BL_TurnedOff | BL_Locked | BL_Shadowed | BL_Incompatible

datatype component_status =
    CS_Active
  | CS_ActiveAfterRelogin
  | CS_Inactive
  | CS_NeedsRelogin
  | CS_Blocked blocker
  | CS_Failed
  | CS_Unavailable

datatype unavailable = UN_NotInstalled | UN_Shadowed | UN_TurnedOff | UN_Failed | UN_Incompatible | UN_Locked

datatype component_state = Satisfied | AfterRelogin | Missing | Unavailable unavailable

fun unavailable_of :: "component_status \<Rightarrow> unavailable option" where
  "unavailable_of (CS_Blocked BL_Shadowed) = Some UN_Shadowed"
| "unavailable_of (CS_Blocked BL_TurnedOff) = Some UN_TurnedOff"
| "unavailable_of (CS_Blocked BL_Incompatible) = Some UN_Incompatible"
| "unavailable_of (CS_Blocked BL_Locked) = Some UN_Locked"
| "unavailable_of CS_Failed = Some UN_Failed"
| "unavailable_of CS_Unavailable = Some UN_NotInstalled"
| "unavailable_of _ = None"

definition component_state_of :: "component_status \<Rightarrow> component_state" where
  "component_state_of st =
     (case st of
        CS_Active \<Rightarrow> Satisfied
      | CS_ActiveAfterRelogin \<Rightarrow> AfterRelogin
      | CS_Inactive \<Rightarrow> Missing
      | CS_NeedsRelogin \<Rightarrow> Missing
      | blocked \<Rightarrow> Unavailable (case unavailable_of blocked of Some why \<Rightarrow> why | None \<Rightarrow> UN_NotInstalled))"

record component =
  cm_id :: component_id
  cm_state :: component_state

definition cm_satisfied :: "component \<Rightarrow> bool" where
  "cm_satisfied c \<longleftrightarrow> cm_state c \<in> {Satisfied, AfterRelogin}"

definition lacks_input_method :: "component \<Rightarrow> bool" where
  "lacks_input_method c \<longleftrightarrow> cm_id c = CI_InputMethod
     \<and> cm_state c \<in> {Missing, Unavailable UN_NotInstalled, Unavailable UN_Incompatible}"

definition cm_blocks :: "component \<Rightarrow> bool" where
  "cm_blocks c \<longleftrightarrow> (ci_required (cm_id c) \<and> \<not> cm_satisfied c) \<or> lacks_input_method c"

section \<open>The extension\<close>

datatype extension_run = XR_Enabled | XR_Disabled | XR_TurnedOff | XR_Failed | XR_OutOfDate | XR_Locked

record extension_info =
  xi_system :: bool
  xi_run :: extension_run

datatype extension_listing = XL_Enabled | XL_Unlisted | XL_Locked | XL_TurnedOff | XL_Unknown

record extension_copies =
  xc_system :: bool
  xc_user :: bool

fun run_status :: "extension_run \<Rightarrow> component_status" where
  "run_status XR_Enabled = CS_Active"
| "run_status XR_Disabled = CS_Inactive"
| "run_status XR_TurnedOff = CS_Blocked BL_TurnedOff"
| "run_status XR_Failed = CS_Failed"
| "run_status XR_OutOfDate = CS_Blocked BL_Incompatible"
| "run_status XR_Locked = CS_Blocked BL_Locked"

fun listing_status :: "extension_listing \<Rightarrow> component_status" where
  "listing_status XL_Enabled = CS_ActiveAfterRelogin"
| "listing_status XL_Unlisted = CS_NeedsRelogin"
| "listing_status XL_Locked = CS_Blocked BL_Locked"
| "listing_status XL_TurnedOff = CS_Blocked BL_TurnedOff"
| "listing_status XL_Unknown = CS_Unavailable"

definition extension_state :: "extension_info option \<Rightarrow> extension_copies \<Rightarrow> extension_listing \<Rightarrow> component_status" where
  "extension_state reported on_disk listing =
     (let otherwise = (if xc_system on_disk \<and> xc_user on_disk then CS_Blocked BL_Shadowed
                       else if xc_system on_disk then listing_status listing
                       else CS_Unavailable)
      in case reported of
           Some info \<Rightarrow> if xi_system info then run_status (xi_run info) else otherwise
         | None \<Rightarrow> otherwise)"

section \<open>The model offered\<close>

record model_offer =
  mo_family :: model_family
  mo_download_bytes :: u64
  mo_upper_bound :: bool

definition offer_snap :: "model_offer \<Rightarrow> ustr" where
  "offer_snap offer = family_snap_name (mo_family offer)"

datatype download_size = DS_Exact u64 | DS_UpTo u64

definition MYNA_DOWNLOAD_BYTES :: u64 where "MYNA_DOWNLOAD_BYTES = 10133504"
definition PARAKEET_SNAP_BYTES :: u64 where "PARAKEET_SNAP_BYTES = 46194688"
definition PARAKEET_INT8_BYTES :: u64 where "PARAKEET_INT8_BYTES = 729399296"
definition PARAKEET_FP32_BYTES :: u64 where "PARAKEET_FP32_BYTES = 2549030912"
definition ONNXRUNTIME_CUDA_BYTES :: u64 where "ONNXRUNTIME_CUDA_BYTES = 1577467904"
definition WHISPER_SNAP_BYTES :: u64 where "WHISPER_SNAP_BYTES = 121798656"
definition WHISPER_BASE_BYTES :: u64 where "WHISPER_BASE_BYTES = 145858560"
definition WHISPER_SMALL_BYTES :: u64 where "WHISPER_SMALL_BYTES = 483966976"
definition WHISPER_CUDA_BYTES :: u64 where "WHISPER_CUDA_BYTES = 795668480"
definition FUNASR_SNAP_BYTES :: u64 where "FUNASR_SNAP_BYTES = 70057984"
definition SENSEVOICE_BYTES :: u64 where "SENSEVOICE_BYTES = 239083520"

fun family_sizes :: "model_family \<Rightarrow> u64 \<times> u64 \<times> u64 option" where
  "family_sizes Parakeet = (PARAKEET_SNAP_BYTES, PARAKEET_INT8_BYTES, Some (ONNXRUNTIME_CUDA_BYTES + PARAKEET_FP32_BYTES))"
| "family_sizes Whisper = (WHISPER_SNAP_BYTES, WHISPER_BASE_BYTES, Some (WHISPER_CUDA_BYTES + WHISPER_SMALL_BYTES))"
| "family_sizes FunAsr = (FUNASR_SNAP_BYTES, SENSEVOICE_BYTES, None)"

definition family_offer :: "model_family \<Rightarrow> bool \<Rightarrow> model_offer" where
  "family_offer family nvidia_gpu =
     (let (snap, cpu, gpu) = family_sizes family; gpu' = (if nvidia_gpu then gpu else None)
      in \<lparr>mo_family = family, mo_download_bytes = snap + (case gpu' of Some g \<Rightarrow> g | None \<Rightarrow> cpu), mo_upper_bound = (gpu' \<noteq> None)\<rparr>)"

definition model_offer :: "ustr list \<Rightarrow> bool \<Rightarrow> model_offer" where
  "model_offer preferred nvidia_gpu = family_offer (recommend preferred) nvidia_gpu"

definition spoken_language :: "model_offer \<Rightarrow> ustr list \<Rightarrow> ustr option" where
  "spoken_language offer preferred =
     Option.bind (user_language preferred)
       (\<lambda>language. if takes_spoken_language (mo_family offer) \<and> language \<in> set (family_languages (mo_family offer))
                    then Some language else None)"

text \<open>The settings store, as the port offers it: whether a key has a value of the user's, and setting one.\<close>

record ('e, 'w) settings_store =
  ss_has_user_value :: "ustr \<Rightarrow> 'w \<Rightarrow> 'e + bool"
  ss_set :: "ustr \<Rightarrow> ustr \<Rightarrow> 'w \<Rightarrow> ('e + unit) \<times> 'w"

definition KEY_LANGUAGE :: ustr where "KEY_LANGUAGE = lit ''language''"

definition seed_spoken_language :: "('e, 'w) settings_store \<Rightarrow> ustr \<Rightarrow> 'w \<Rightarrow> ('e + bool) \<times> 'w" where
  "seed_spoken_language settings language w =
     (case ss_has_user_value settings KEY_LANGUAGE w of
        Inl e \<Rightarrow> (Inl e, w)
      | Inr True \<Rightarrow> (Inr False, w)
      | Inr False \<Rightarrow>
          (case ss_set settings KEY_LANGUAGE language w of
             (Inl e, w') \<Rightarrow> (Inl e, w')
           | (Inr _, w') \<Rightarrow> (Inr True, w')))"

section \<open>Assessing the machine\<close>

record onboarding_machine =
  om_user_daemons :: bool
  om_myna_installed :: bool
  om_backend_discovered :: bool
  om_status_surface :: component_status
  om_input_method :: "component_status option"

text \<open>\<open>Machine::new\<close>, on the names of the installed snaps.\<close>

definition machine_new :: "ustr list \<Rightarrow> nat \<Rightarrow> onboarding_machine" where
  "machine_new installed_snaps backends_discovered =
     \<lparr>om_user_daemons = False, om_myna_installed = list_ex (\<lambda>name. name = MYNA_SNAP) installed_snaps,
      om_backend_discovered = (0 < backends_discovered), om_status_surface = CS_Unavailable, om_input_method = None\<rparr>"

definition installed_state :: "bool \<Rightarrow> component_state" where
  "installed_state satisfied = (if satisfied then Satisfied else Missing)"

fun assessed_state :: "onboarding_machine \<Rightarrow> component_id \<Rightarrow> component_state option" where
  "assessed_state m CI_UserDaemons = Some (installed_state (om_user_daemons m))"
| "assessed_state m CI_Myna = Some (installed_state (om_myna_installed m))"
| "assessed_state m CI_Model = Some (installed_state (om_backend_discovered m))"
| "assessed_state m CI_InputMethod = map_option component_state_of (om_input_method m)"
| "assessed_state m CI_StatusSurface = Some (component_state_of (om_status_surface m))"

definition assess :: "onboarding_machine \<Rightarrow> component list" where
  "assess m = List.map_filter (\<lambda>cid. map_option (\<lambda>st. \<lparr>cm_id = cid, cm_state = st\<rparr>) (assessed_state m cid)) ALL_COMPONENTS"

definition while_installing :: "component list \<Rightarrow> component_id list \<Rightarrow> component list" where
  "while_installing components installing =
     map (\<lambda>c. if cm_id c \<in> set installing then c\<lparr>cm_state := Missing\<rparr> else c) components"

fun installs :: "component_id \<Rightarrow> model_offer \<Rightarrow> (ustr \<times> u64) option" where
  "installs CI_Myna offer = Some (MYNA_SNAP, MYNA_DOWNLOAD_BYTES)"
| "installs CI_Model offer = Some (offer_snap offer, mo_download_bytes offer)"
| "installs _ offer = None"

definition needs_onboarding :: "component list \<Rightarrow> bool" where
  "needs_onboarding components = list_ex cm_blocks components"

definition input_method_holds :: "component_status \<Rightarrow> bool" where
  "input_method_holds st = lacks_input_method \<lparr>cm_id = CI_InputMethod, cm_state = component_state_of st\<rparr>"

definition input_method_blocker :: "component list \<Rightarrow> unavailable option" where
  "input_method_blocker components =
     find_map (\<lambda>c. case cm_state c of Unavailable why \<Rightarrow> Some why | _ \<Rightarrow> None) (filter lacks_input_method components)"

section \<open>The run of the button\<close>

definition install_plan :: "component list \<Rightarrow> component_id list" where
  "install_plan components = map cm_id (filter (\<lambda>c. cm_state c = Missing) components)"

definition next_install :: "component list \<Rightarrow> component_id list \<Rightarrow> component_id option" where
  "next_install components taken = find (\<lambda>cid. cid \<notin> set taken) (install_plan components)"

definition set_up_steps :: "component list \<Rightarrow> component_id list \<Rightarrow> component_id list" where
  "set_up_steps components taken =
     (if (case next_install components taken of None \<Rightarrow> True | Some cid \<Rightarrow> is_desktop cid) then []
      else filter (\<lambda>cid. cid \<notin> set taken \<and> \<not> is_desktop cid) (install_plan components))"

definition set_up_plan :: "component_id list \<Rightarrow> model_offer \<Rightarrow> set_up_plan" where
  "set_up_plan steps offer =
     \<lparr>su_flag = (CI_UserDaemons \<in> set steps),
      su_installs = List.map_filter (\<lambda>cid. map_option fst (installs cid offer)) steps,
      su_connect = (if CI_Model \<in> set steps then Some (offer_snap offer) else None)\<rparr>"

definition failed_set_up_step :: "failed_step option \<Rightarrow> component_id" where
  "failed_set_up_step step =
     (case step of
        Some (FS_Command _ arguments _ _) \<Rightarrow>
          (case arguments of
             [] \<Rightarrow> CI_UserDaemons
           | a # _ \<Rightarrow>
               if a = lit ''install'' \<and> last arguments = MYNA_SNAP then CI_Myna
               else if a = lit ''install'' \<or> a = lit ''connect'' then CI_Model
               else CI_UserDaemons)
      | _ \<Rightarrow> CI_UserDaemons)"

definition remaining_download :: "component list \<Rightarrow> model_offer \<Rightarrow> download_size" where
  "remaining_download components offer =
     (let plan = install_plan components; bytes = sum_list (map snd (List.map_filter (\<lambda>cid. installs cid offer) plan))
      in if mo_upper_bound offer \<and> CI_Model \<in> set plan then DS_UpTo bytes else DS_Exact bytes)"

definition settled :: "component list \<Rightarrow> bool" where
  "settled components \<longleftrightarrow> \<not> needs_onboarding components \<and> install_plan components = []"

datatype install_view = IV_Offer | IV_Installing component_id | IV_Blocked | IV_Installed

definition install_view :: "component list \<Rightarrow> component_id option \<Rightarrow> install_view" where
  "install_view components installing =
     (case installing of
        Some cid \<Rightarrow> IV_Installing cid
      | None \<Rightarrow> if settled components then IV_Installed
                else if install_plan components = [] then IV_Blocked
                else IV_Offer)"

definition relogin_pending :: "component list \<Rightarrow> bool" where
  "relogin_pending components = list_ex (\<lambda>c. is_desktop (cm_id c) \<and> cm_state c = AfterRelogin) components"

definition flag_enabled :: "component list \<Rightarrow> bool" where
  "flag_enabled components = list_ex (\<lambda>c. cm_id c = CI_UserDaemons \<and> cm_satisfied c) components"

section \<open>The steps of the wizard\<close>

datatype wizard_step = WS_Welcome | WS_Components | WS_Shortcut

definition first_step :: wizard_step where "first_step = WS_Welcome"

fun next_step :: "wizard_step \<Rightarrow> wizard_step option" where
  "next_step WS_Welcome = Some WS_Components"
| "next_step WS_Components = Some WS_Shortcut"
| "next_step WS_Shortcut = None"

fun can_advance :: "wizard_step \<Rightarrow> component list \<Rightarrow> bool" where
  "can_advance WS_Components components = (\<not> needs_onboarding components)"
| "can_advance _ components = True"

definition forward_leads :: "wizard_step \<Rightarrow> component list \<Rightarrow> bool \<Rightarrow> bool" where
  "forward_leads step components needs_key = (if step = WS_Shortcut then \<not> needs_key else can_advance step components)"

definition polls :: "wizard_step \<Rightarrow> component list \<Rightarrow> bool" where
  "polls step components \<longleftrightarrow> step = WS_Components \<and> needs_onboarding components"

definition completes :: "component list \<Rightarrow> component list \<Rightarrow> bool" where
  "completes earlier later \<longleftrightarrow> list_ex (\<lambda>c. \<not> is_desktop (cm_id c) \<and> \<not> cm_satisfied c) earlier \<and> settled later"

section \<open>What is missing\<close>

lemmas onboarding_defs = needs_onboarding_def cm_blocks_def ci_required_def is_desktop_def cm_satisfied_def
  lacks_input_method_def installed_state_def install_plan_def

lemma assess_list:
  "assess m =
     [\<lparr>cm_id = CI_UserDaemons, cm_state = installed_state (om_user_daemons m)\<rparr>,
      \<lparr>cm_id = CI_Myna, cm_state = installed_state (om_myna_installed m)\<rparr>,
      \<lparr>cm_id = CI_Model, cm_state = installed_state (om_backend_discovered m)\<rparr>]
     @ (case om_input_method m of None \<Rightarrow> [] | Some st \<Rightarrow> [\<lparr>cm_id = CI_InputMethod, cm_state = component_state_of st\<rparr>])
     @ [\<lparr>cm_id = CI_StatusSurface, cm_state = component_state_of (om_status_surface m)\<rparr>]"
  by (simp add: assess_def ALL_COMPONENTS_def List.map_filter_def split: option.split)

lemma component_state_holds:
  "component_state_of st \<in> {Missing, Unavailable UN_NotInstalled, Unavailable UN_Incompatible}
     \<longleftrightarrow> st \<in> {CS_Inactive, CS_NeedsRelogin, CS_Unavailable, CS_Blocked BL_Incompatible}"
  by (cases st rule: unavailable_of.cases) (simp_all add: component_state_of_def)

text \<open>
  The wizard opens, and its component step holds, exactly when the flag, the app or the
  model is missing, or the desktop's input method is one Myna cannot type through: stopped,
  not set up, absent, or another in its place. Nothing else of the desktop holds it.
\<close>

theorem needs_onboarding_assess:
  "needs_onboarding (assess m) \<longleftrightarrow>
     \<not> (om_user_daemons m \<and> om_myna_installed m \<and> om_backend_discovered m
        \<and> om_input_method m \<notin> Some ` {CS_Inactive, CS_NeedsRelogin, CS_Unavailable, CS_Blocked BL_Incompatible})"
  using component_state_holds by (auto simp: assess_list onboarding_defs split: option.split if_splits)

lemma find_map_None: "find_map f xs = None \<longleftrightarrow> (\<forall>x \<in> set xs. f x = None)"
  by (induction xs) (auto split: option.splits)

lemma blocked_components:
  assumes "needs_onboarding cs" and "install_plan cs = []"
    and "\<forall>c \<in> set cs. ci_required (cm_id c) \<longrightarrow> cm_state c \<in> {Satisfied, Missing}"
  shows "\<exists>why \<in> {UN_NotInstalled, UN_Incompatible}. input_method_blocker cs = Some why"
proof -
  have present: "\<forall>c \<in> set cs. cm_state c \<noteq> Missing" using assms(2) by (auto simp: install_plan_def filter_empty_conv)
  obtain c where c: "c \<in> set cs" "cm_blocks c" using assms(1) by (auto simp: needs_onboarding_def list_ex_iff)
  then have "lacks_input_method c" using present assms(3) by (auto simp: cm_blocks_def cm_satisfied_def)
  then obtain why where "cm_state c = Unavailable why" using c present by (auto simp: lacks_input_method_def)
  then have "input_method_blocker cs \<noteq> None"
    unfolding input_method_blocker_def find_map_None using c \<open>lacks_input_method c\<close> by auto
  then obtain why' where why: "input_method_blocker cs = Some why'" by blast
  have "find_map f xs = Some y \<Longrightarrow> \<exists>x \<in> set xs. f x = Some y" for f :: "component \<Rightarrow> unavailable option" and xs y
    by (induction xs) (auto split: option.splits)
  from this [OF why [unfolded input_method_blocker_def]] show ?thesis
    unfolding why by (fastforce simp: lacks_input_method_def split: component_state.split_asm)
qed

lemma assess_required_state: "c \<in> set (assess m) \<Longrightarrow> ci_required (cm_id c) \<Longrightarrow> cm_state c \<in> {Satisfied, Missing}"
  by (auto simp: assess_list ci_required_def is_desktop_def installed_state_def split: option.splits if_splits)

lemma while_installing_required:
  "\<forall>c \<in> set cs. ci_required (cm_id c) \<longrightarrow> cm_state c \<in> {Satisfied, Missing} \<Longrightarrow>
   c \<in> set (while_installing cs ids) \<Longrightarrow> ci_required (cm_id c) \<Longrightarrow> cm_state c \<in> {Satisfied, Missing}"
  by (auto simp: while_installing_def)

text \<open>
  The component step has no dead end. Whatever the machine and whatever is installing, a
  step that shows neither that all is installed nor a button to press names what only the
  user can fix: an input method that is not installed or another one in its place.
\<close>

theorem blocked_step_explained:
  assumes "install_view (while_installing (assess m) ids) None = IV_Blocked"
  shows "\<exists>why \<in> {UN_NotInstalled, UN_Incompatible}. input_method_blocker (while_installing (assess m) ids) = Some why"
proof (rule blocked_components)
  show "needs_onboarding (while_installing (assess m) ids)" and "install_plan (while_installing (assess m) ids) = []"
    using assms by (auto simp: install_view_def settled_def split: if_splits)
  show "\<forall>c \<in> set (while_installing (assess m) ids). ci_required (cm_id c) \<longrightarrow> cm_state c \<in> {Satisfied, Missing}"
    using while_installing_required [of "assess m"] assess_required_state by blast
qed

definition no_ibus :: onboarding_machine where
  "no_ibus = \<lparr>om_user_daemons = True, om_myna_installed = True, om_backend_discovered = True,
     om_status_surface = CS_Active, om_input_method = Some CS_Unavailable\<rparr>"

theorem blocked_step_explained_witness:
  "install_view (while_installing (assess no_ibus) []) None = IV_Blocked
   \<and> (\<exists>why \<in> {UN_NotInstalled, UN_Incompatible}. input_method_blocker (while_installing (assess no_ibus) []) = Some why)"
proof -
  have "install_view (while_installing (assess no_ibus) []) None = IV_Blocked" by code_simp
  with blocked_step_explained [OF this] show ?thesis by blast
qed

section \<open>What a run asks of snapd\<close>

definition set_up_requests :: "set_up_plan \<Rightarrow> command_request list" where
  "set_up_requests p = map (\<lambda>args. \<lparr>cr_executable = lit ''snap'', cr_arguments = args\<rparr>) (set_up_operations p)"

lemma next_install_Some:
  "next_install cs taken = Some cid \<Longrightarrow> cid \<notin> set taken \<and> cid \<in> set (install_plan cs)"
  by (auto simp: next_install_def find_Some_iff)

lemma next_install_None: "next_install cs taken = None \<longleftrightarrow> set (install_plan cs) \<subseteq> set taken"
  by (auto simp: next_install_def find_None_iff)

lemma set_up_steps_fresh: "cid \<in> set (set_up_steps cs taken) \<Longrightarrow> cid \<notin> set taken \<and> \<not> is_desktop cid \<and> cid \<in> set (install_plan cs)"
  by (auto simp: set_up_steps_def split: if_splits)

lemma set_up_steps_next:
  "next_install cs taken = Some cid \<Longrightarrow> \<not> is_desktop cid \<Longrightarrow> cid \<in> set (set_up_steps cs taken)"
  using next_install_Some [of cs taken cid] by (simp add: set_up_steps_def)

lemma set_up_steps_Nil:
  "next_install cs taken = Some cid \<Longrightarrow> set_up_steps cs taken = [] \<longleftrightarrow> is_desktop cid"
  using set_up_steps_next [of cs taken cid] by (cases "is_desktop cid") (simp add: set_up_steps_def, auto)

lemma offer_snap_known: "from_snap_name (offer_snap offer) \<noteq> None"
  unfolding from_snap_name_Some by (cases "mo_family offer") (simp_all add: offer_snap_def)

lemma map_filter_installs:
  "set (List.map_filter (\<lambda>cid. map_option fst (installs cid offer)) steps)
     = (if CI_Myna \<in> set steps then {MYNA_SNAP} else {}) \<union> (if CI_Model \<in> set steps then {offer_snap offer} else {})"
proof (induction steps)
  case Nil
  then show ?case by (simp add: List.map_filter_def)
next
  case (Cons cid steps)
  then show ?case by (cases cid) (auto simp: List.map_filter_simps)
qed

lemma set_up_requests_valid:
  assumes "steps \<noteq> []" and "\<forall>cid \<in> set steps. \<not> is_desktop cid"
  shows "validate_plan PK_SetUp (plan_of (set_up_requests (set_up_plan steps offer))) = Inr ()"
proof -
  let ?ops = "set_up_operations (set_up_plan steps offer)"
  have "\<forall>args \<in> set ?ops. validate_set_up args = Inr ()"
    unfolding validate_set_up_shape using offer_snap_known [of offer] map_filter_installs [of offer steps]
    by (auto simp: set_up_operations_def set_up_plan_def is_mynas_def split: if_splits)
  moreover have "?ops \<noteq> []"
    using assms map_filter_installs [of offer steps]
    by (cases "hd steps"; cases steps) (auto simp: set_up_operations_def set_up_plan_def is_desktop_def)
  ultimately show ?thesis
    unfolding validate_plan_iff validate_operations_iff by (auto simp: plan_of_def set_up_requests_def)
qed

text \<open>The component each operation of a set-up is for, in the order of \<open>set_up_operations\<close>.\<close>

definition set_up_targets :: "component_id list \<Rightarrow> component_id list" where
  "set_up_targets steps =
     filter (\<lambda>cid. cid = CI_UserDaemons) (remdups steps) @ filter (\<lambda>cid. cid \<in> {CI_Myna, CI_Model}) steps
     @ filter (\<lambda>cid. cid = CI_Model) (remdups steps)"

lemma filter_single: "distinct xs \<Longrightarrow> filter (\<lambda>x. x = a) xs = (if a \<in> set xs then [a] else [])"
  by (induction xs) auto

lemma installs_failed:
  "list_all2 (\<lambda>args cid. failed_set_up_step (Some (FS_Command exe args st err)) = cid)
     (map (\<lambda>snap. [lit ''install'', lit ''--edge'', snap]) (List.map_filter (\<lambda>cid. map_option fst (installs cid offer)) steps))
     (filter (\<lambda>cid. cid \<in> {CI_Myna, CI_Model}) steps)"
proof (induction steps)
  case Nil
  then show ?case by (simp add: List.map_filter_def)
next
  case (Cons cid steps)
  have "offer_snap offer \<noteq> MYNA_SNAP" by (cases "mo_family offer") (simp_all add: offer_snap_def MYNA_SNAP_def)
  with Cons show ?case by (cases cid) (auto simp: List.map_filter_simps failed_set_up_step_def)
qed

lemma set_up_failure_targets:
  "list_all2 (\<lambda>args cid. failed_set_up_step (Some (FS_Command exe args st err)) = cid)
     (set_up_operations (set_up_plan steps offer)) (set_up_targets steps)"
  unfolding set_up_operations_def set_up_targets_def filter_single [OF distinct_remdups]
  using installs_failed [of exe st err offer steps]
  by (auto simp: set_up_plan_def failed_set_up_step_def intro!: list_all2_appendI)

text \<open>
  What the wizard asks under its one prompt is always accepted by the privileged side:
  the set-up of whatever is still missing, for any offer, is a plan the executor validates.
  And a failure is told of the right component: whichever operation of the plan fails, the
  step named is the one the operation was for.
\<close>

theorem wizard_set_up_accepted:
  assumes "set_up_steps components taken \<noteq> []"
  shows "let steps = set_up_steps components taken; p = set_up_plan steps offer in
           validate_plan PK_SetUp (plan_of (set_up_requests p)) = Inr ()
         \<and> length (set_up_targets steps) = length (set_up_requests p)
         \<and> (\<forall>i < length (set_up_requests p).
              failed_set_up_step (Some (FS_Command exe (cr_arguments (set_up_requests p ! i)) st err)) = set_up_targets steps ! i)"
proof -
  let ?steps = "set_up_steps components taken"
  have "\<forall>cid \<in> set ?steps. \<not> is_desktop cid" using set_up_steps_fresh by blast
  from set_up_requests_valid [OF assms this] set_up_failure_targets [of exe st err ?steps offer]
  show ?thesis by (auto simp: Let_def set_up_requests_def list_all2_conv_all_nth)
qed

definition bare_machine :: onboarding_machine where
  "bare_machine = \<lparr>om_user_daemons = False, om_myna_installed = False, om_backend_discovered = False,
     om_status_surface = CS_NeedsRelogin, om_input_method = None\<rparr>"

lemma bare_machine_steps: "set_up_steps (assess bare_machine) [] = [CI_UserDaemons, CI_Myna, CI_Model]"
  by code_simp

theorem wizard_set_up_accepted_witness:
  "set_up_steps (assess bare_machine) [] \<noteq> []
   \<and> validate_plan PK_SetUp (plan_of (set_up_requests (set_up_plan (set_up_steps (assess bare_machine) []) (family_offer Whisper True)))) = Inr ()"
  using wizard_set_up_accepted [of "assess bare_machine" "[]" "family_offer Whisper True" "[]" None "[]"]
  by (simp add: Let_def bare_machine_steps)

end
