(* ===== verification/Wizard.thy ===== *)
theory Wizard
  imports Onboarding Backend_Domain
begin

text \<open>
  The wizard, \<open>client/myna-config/src/onboarding_ui.rs\<close>: the button's run, the reads of the
  machine, the installs of others it follows, the set-up that ends the component step, and
  moving between the steps. The wizard is one machine: an event is what the main loop
  delivers next, a press, a timer or the answer to one of the calls in flight, and each
  handler is the code up to its next await. What the ports answer is in the events. The
  widgets it renders, its log and its texts are left out.
\<close>

section \<open>State\<close>

datatype install_progress = IP_Running "u8 option" | IP_Confirming

text \<open>
  Where a run is: about to take its next step, waiting for the privileged set-up of some
  steps (with the highest percentages seen, and whether it is reading snapd's changes or
  sleeping), for the desktop, or for the read after a step.
\<close>

datatype run_stage =
    RS_Next
  | RS_SetUp "component_id list" "(component_id \<times> u8) list" bool
  | RS_Desktop component_id
  | RS_Reread

record wizard_run =
  wr_offer :: model_offer
  wr_done :: "component_id list"
  wr_stage :: run_stage

record follower =
  fo_id :: component_id
  fo_change :: ustr
  fo_expected :: u64

text \<open>A read that waits for snapd's changes: what was shown before it, and the snaps it looks for.\<close>

record check =
  ck_before :: "component list"
  ck_missing :: "(component_id \<times> ustr \<times> u64) list"

record wizard =
  wz_step :: wizard_step
  wz_components :: "component list"
  wz_nvidia_gpu :: bool
  wz_languages :: "ustr list option"
  wz_settings :: bool
  wz_desktop :: "component_id list"
  wz_problem :: "ustr option"
  wz_busy :: bool
  wz_running :: bool
  wz_run_step :: "component_id option"
  wz_epoch :: u64
  wz_installs :: "(component_id \<times> install_progress) list"
  wz_install_cancelled :: bool
  wz_setup_cancellation :: bool
  wz_setup_slow :: bool
  wz_setup_failed :: bool
  wz_spinner :: bool
  wz_assessing :: bool
  wz_poll :: bool
  wz_beat :: "wizard_step option"
  wz_can_pop :: bool
  wz_keeps_settings :: bool
  wz_run :: "wizard_run option"
  wz_read :: "u64 option"
  wz_checks :: "check list"
  wz_follows :: "follower list"
  wz_finish :: "(wizard_step \<times> bool) option"
  wz_closed :: bool

datatype wizard_effect =
    WO_SetUp set_up_plan
  | WO_Enable component_id
  | WO_ReadMachine
  | WO_ReadChanges
  | WO_Follow ustr
  | WO_SeedLanguage ustr
  | WO_FinishSetup "ustr option"
  | WO_CancelSetup
  | WO_InstallDefault
  | WO_Toast
  | WO_CloseWizard
  | WO_CloseAll

type_synonym wz = "wizard \<times> wizard_effect list"

definition wizard_new :: "component list \<Rightarrow> bool \<Rightarrow> bool \<Rightarrow> component_id list \<Rightarrow> bool \<Rightarrow> wizard" where
  "wizard_new initial nvidia_gpu settings desktop keeps_settings =
     \<lparr>wz_step = first_step, wz_components = initial, wz_nvidia_gpu = nvidia_gpu, wz_languages = None, wz_settings = settings,
      wz_desktop = desktop, wz_problem = None, wz_busy = False, wz_running = False, wz_run_step = None, wz_epoch = 0,
      wz_installs = [], wz_install_cancelled = False, wz_setup_cancellation = False, wz_setup_slow = False,
      wz_setup_failed = False, wz_spinner = False, wz_assessing = False, wz_poll = False, wz_beat = None, wz_can_pop = True,
      wz_keeps_settings = keeps_settings, wz_run = None, wz_read = None, wz_checks = [], wz_follows = [], wz_finish = None,
      wz_closed = False\<rparr>"

section \<open>Reading the machine\<close>

text \<open>
  \<open>read_machine\<close> on what the ports answered: the flag, the installed snaps, the number of
  models discovered, and each desktop component with its status.
\<close>

definition surface_reason :: "backend_surface_error \<Rightarrow> ustr" where
  "surface_reason e = (if trim (be_stderr e) = [] then be_message e else trim (be_stderr e))"

fun dedup :: "'a list \<Rightarrow> 'a list" where
  "dedup (x # y # xs) = (if x = y then dedup (x # xs) else x # dedup (y # xs))"
| "dedup xs = xs"

record machine_answers =
  ma_user_daemons :: "ustr + bool"
  ma_installed_snaps :: "backend_surface_error + ustr list"
  ma_discovered :: "backend_surface_error + nat"
  ma_desktop :: "(component_id \<times> component_status) list"

definition or_else_problem :: "'a \<Rightarrow> ('e \<Rightarrow> ustr) \<Rightarrow> 'e + 'a \<Rightarrow> 'a \<times> ustr list" where
  "or_else_problem d f r = (case r of Inl e \<Rightarrow> (d, [f e]) | Inr x \<Rightarrow> (x, []))"

fun desktop_status :: "component_id \<times> component_status \<Rightarrow> onboarding_machine \<Rightarrow> onboarding_machine" where
  "desktop_status (CI_StatusSurface, st) m = m\<lparr>om_status_surface := st\<rparr>"
| "desktop_status (CI_InputMethod, st) m = m\<lparr>om_input_method := Some st\<rparr>"
| "desktop_status _ m = m"

definition read_machine :: "machine_answers \<Rightarrow> component list \<times> ustr option" where
  "read_machine a =
     (let (user_daemons, p1) = or_else_problem False (\<lambda>e. e) (ma_user_daemons a);
          (installed, p2) = or_else_problem [] surface_reason (ma_installed_snaps a);
          (backends, p3) = or_else_problem 0 surface_reason (ma_discovered a);
          problems = dedup (p1 @ p2 @ p3);
          m = (machine_new installed backends)\<lparr>om_user_daemons := user_daemons\<rparr>
      in (assess (fold desktop_status (ma_desktop a) m), if problems = [] then None else Some (join (lit ''; '') problems)))"

section \<open>Operations\<close>

definition installing_ids :: "wizard \<Rightarrow> component_id list" where
  "installing_ids w = map fst (wz_installs w)"

definition shown :: "wizard \<Rightarrow> component list" where
  "shown w = while_installing (wz_components w) (installing_ids w)"

definition current_offer :: "wizard \<Rightarrow> model_offer option" where
  "current_offer w = map_option (\<lambda>languages. model_offer languages (wz_nvidia_gpu w)) (wz_languages w)"

definition in_progress :: "wizard \<Rightarrow> (component_id \<times> u8 option) option" where
  "in_progress w =
     (case (case wz_run_step w of Some cid \<Rightarrow> Some cid | None \<Rightarrow> (case wz_installs w of (cid, _) # _ \<Rightarrow> Some cid | [] \<Rightarrow> None)) of
        None \<Rightarrow> None
      | Some cid \<Rightarrow> Some (cid, case map_of (wz_installs w) cid of Some (IP_Running percent) \<Rightarrow> percent | _ \<Rightarrow> None))"

text \<open>What rendering changes: whether Back is allowed, whether the step polls, and a pause left behind.\<close>

definition render :: "wizard \<Rightarrow> wizard" where
  "render w =
     w\<lparr>wz_can_pop := \<not> (wz_step w = WS_Components \<and> wz_busy w \<and> wz_setup_slow w),
       wz_poll := (\<not> wz_busy w \<and> \<not> wz_running w \<and> polls (wz_step w) (shown w)),
       wz_beat := (if wz_step w \<noteq> WS_Components then None else wz_beat w)\<rparr>"

definition take_reading :: "component list \<times> ustr option \<Rightarrow> wizard \<Rightarrow> wizard" where
  "take_reading reading w =
     w\<lparr>wz_installs := filter (\<lambda>(_, i). i \<noteq> IP_Confirming) (wz_installs w), wz_problem := snd reading, wz_components := fst reading\<rparr>"

definition refresh_assessment :: "wizard \<Rightarrow> wz" where
  "refresh_assessment w =
     (if wz_assessing w then (w, []) else (w\<lparr>wz_assessing := True, wz_read := Some (wz_epoch w)\<rparr>, [WO_ReadMachine]))"

definition bump_epoch :: "wizard \<Rightarrow> wizard" where
  "bump_epoch w = w\<lparr>wz_epoch := wz_epoch w + 1\<rparr>"

definition finish_setup :: "wizard_step \<Rightarrow> bool \<Rightarrow> wizard \<Rightarrow> wz" where
  "finish_setup after pause w =
     (if wz_busy w then (w, [])
      else (render (w\<lparr>wz_busy := True, wz_setup_cancellation := True, wz_setup_slow := False, wz_setup_failed := False,
                       wz_spinner := True, wz_finish := Some (after, pause)\<rparr>),
            [WO_FinishSetup (map_option offer_snap (current_offer w))]))"

definition move_on :: "wizard_step \<Rightarrow> wizard \<Rightarrow> wz" where
  "move_on after w = (render (w\<lparr>wz_step := after\<rparr>), [WO_InstallDefault])"

text \<open>Closing drops the only lasting reference; reads that wait for snapd's changes hold the last ones.\<close>

definition close :: "wizard \<Rightarrow> wz" where
  "close w =
     (if wz_closed w then (w, [])
      else (w\<lparr>wz_closed := True, wz_install_cancelled := True, wz_setup_cancellation := False\<rparr>,
            if wz_setup_cancellation w then [WO_CancelSetup] else []))"

definition alive :: "wizard \<Rightarrow> bool" where
  "alive w \<longleftrightarrow> \<not> wz_closed w \<or> wz_checks w \<noteq> []"

subsection \<open>Reads and the installs of others\<close>

definition end_assessment :: "component list \<Rightarrow> wizard \<Rightarrow> wz" where
  "end_assessment before w =
     (if wz_step w = WS_Components \<and> \<not> wz_busy w \<and> \<not> wz_running w \<and> completes before (shown w)
      then finish_setup WS_Shortcut True w else (render w, []))"

definition missing_installs :: "model_offer \<Rightarrow> wizard \<Rightarrow> (component_id \<times> ustr \<times> u64) list" where
  "missing_installs offer w =
     List.map_filter (\<lambda>c. map_option (\<lambda>(snap, bytes). (cm_id c, snap, bytes)) (installs (cm_id c) offer))
       (filter (\<lambda>c. cm_state c = Missing \<and> cm_id c \<notin> set (installing_ids w)) (shown w))"

text \<open>\<open>follow_installs_elsewhere\<close> up to its read of the changes; \<open>None\<close> when it returns without one.\<close>

definition wants_changes :: "wizard \<Rightarrow> (component_id \<times> ustr \<times> u64) list option" where
  "wants_changes w =
     (case current_offer w of
        None \<Rightarrow> None
      | Some offer \<Rightarrow>
          (let missing = missing_installs offer w
           in if missing = [] \<or> \<not> flag_enabled (wz_components w) then None else Some missing))"

definition read_answered :: "component list \<times> ustr option \<Rightarrow> wizard \<Rightarrow> wz" where
  "read_answered reading w =
     (case wz_read w of
        None \<Rightarrow> (w, [])
      | Some epoch \<Rightarrow>
          (let w1 = w\<lparr>wz_assessing := False, wz_read := None\<rparr> in
           if wz_epoch w1 \<noteq> epoch then refresh_assessment w1
           else
             let before = shown w1; w2 = take_reading reading w1 in
             if wz_running w2 then end_assessment before w2
             else case wants_changes w2 of
               None \<Rightarrow> end_assessment before w2
             | Some missing \<Rightarrow> (w2\<lparr>wz_checks := wz_checks w2 @ [\<lparr>ck_before = before, ck_missing = missing\<rparr>]\<rparr>, [WO_ReadChanges])))"

definition follow_elsewhere :: "component_id \<Rightarrow> ustr \<Rightarrow> u64 \<Rightarrow> wizard \<Rightarrow> wizard" where
  "follow_elsewhere cid change expected w =
     w\<lparr>wz_installs := btree_insert cid (IP_Running None) (wz_installs w),
       wz_follows := wz_follows w @ [\<lparr>fo_id = cid, fo_change = change, fo_expected = expected\<rparr>]\<rparr>"

fun follow_missing :: "change_in_progress list \<Rightarrow> (component_id \<times> ustr \<times> u64) list \<Rightarrow> wizard \<Rightarrow> wz" where
  "follow_missing changes [] w = (w, [])"
| "follow_missing changes ((cid, snap, expected) # missing) w =
     (if cid \<in> set (installing_ids w) then follow_missing changes missing w
      else case pending_install changes snap of
        None \<Rightarrow> follow_missing changes missing w
      | Some change \<Rightarrow>
          (let (w', effects) = follow_missing changes missing (follow_elsewhere cid (ch_id change) expected w)
           in (w', WO_Follow (ch_id change) # effects)))"

definition drop_nth :: "nat \<Rightarrow> 'a list \<Rightarrow> 'a list" where
  "drop_nth n xs = take n xs @ drop (Suc n) xs"

definition changes_answered :: "nat \<Rightarrow> ustr + change_in_progress list \<Rightarrow> wizard \<Rightarrow> wz" where
  "changes_answered n answer w =
     (if n < length (wz_checks w) then
        (let check = wz_checks w ! n; w1 = w\<lparr>wz_checks := drop_nth n (wz_checks w)\<rparr>;
             (w2, effects) = (case answer of Inl _ \<Rightarrow> (w1, []) | Inr changes \<Rightarrow> follow_missing changes (ck_missing check) w1);
             (w3, more) = end_assessment (ck_before check) w2
         in (w3, effects @ more))
      else (w, []))"

definition follow_progress :: "nat \<Rightarrow> u8 option \<Rightarrow> wizard \<Rightarrow> wz" where
  "follow_progress n percent w =
     (if n < length (wz_follows w)
      then (render (w\<lparr>wz_installs := btree_insert (fo_id (wz_follows w ! n)) (IP_Running percent) (wz_installs w)\<rparr>), [])
      else (w, []))"

definition follow_ended :: "nat \<Rightarrow> change_failure + unit \<Rightarrow> wizard \<Rightarrow> wz" where
  "follow_ended n outcome w =
     (if n < length (wz_follows w) then
        (let cid = fo_id (wz_follows w ! n); w1 = bump_epoch (w\<lparr>wz_follows := drop_nth n (wz_follows w)\<rparr>) in
         case outcome of
           Inr _ \<Rightarrow> (let (w2, effects) = refresh_assessment (w1\<lparr>wz_installs := btree_insert cid IP_Confirming (wz_installs w1)\<rparr>)
                     in (render w2, effects))
         | Inl _ \<Rightarrow> (render (w1\<lparr>wz_installs := btree_remove cid (wz_installs w1)\<rparr>), []))
      else (w, []))"

subsection \<open>The run\<close>

definition install_all :: "wizard \<Rightarrow> wz" where
  "install_all w =
     (case current_offer w of
        None \<Rightarrow> (w, [])
      | Some offer \<Rightarrow>
          if wz_running w \<or> wz_busy w \<or> wz_installs w \<noteq> [] \<or> next_install (shown w) [] = None then (w, [])
          else (render (w\<lparr>wz_running := True, wz_run := Some \<lparr>wr_offer = offer, wr_done = [], wr_stage = RS_Next\<rparr>\<rparr>), []))"

definition end_run :: "(component_id \<times> system_configurator_error) option \<Rightarrow> wizard \<Rightarrow> wz" where
  "end_run failure w =
     (let w1 = w\<lparr>wz_running := False, wz_run_step := None, wz_run := None\<rparr> in
      case failure of
        None \<Rightarrow> if wz_step w1 = WS_Components \<and> \<not> wz_busy w1 \<and> settled (shown w1)
                then finish_setup WS_Shortcut True w1 else (render w1, [])
      | Some (_, SC_Cancelled) \<Rightarrow> (render w1, [])
      | Some _ \<Rightarrow> (render w1, [WO_Toast]))"

definition set_stage :: "wizard_run \<Rightarrow> run_stage \<Rightarrow> wizard \<Rightarrow> wizard" where
  "set_stage r stage w = w\<lparr>wz_run := Some (r\<lparr>wr_stage := stage\<rparr>)\<rparr>"

text \<open>A step done: the run has taken it, and the machine is read again.\<close>

definition step_done :: "wizard_run \<Rightarrow> component_id list \<Rightarrow> wizard \<Rightarrow> wz" where
  "step_done r steps w = (set_stage (r\<lparr>wr_done := wr_done r @ steps\<rparr>) RS_Reread w, [WO_ReadMachine])"

definition set_up_snaps :: "component_id list \<Rightarrow> model_offer \<Rightarrow> (component_id \<times> ustr \<times> u64) list" where
  "set_up_snaps steps offer =
     List.map_filter (\<lambda>cid. map_option (\<lambda>(snap, bytes). (cid, snap, bytes)) (installs cid offer)) steps"

text \<open>
  \<open>desktop_step\<close> and \<open>set_up_step\<close> up to their first await. A wizard that has been closed
  asks for the set-up and at once stops following it.
\<close>

definition begin_step :: "wizard_run \<Rightarrow> component_id \<Rightarrow> wizard \<Rightarrow> wz" where
  "begin_step r cid w =
     (let steps = set_up_steps (shown w) (wr_done r) in
      if steps = [] then
        (if cid \<in> set (wz_desktop w) then (set_stage r (RS_Desktop cid) (bump_epoch w), [WO_Enable cid])
         else step_done r [cid] w)
      else
        let w1 = bump_epoch w; effects = [WO_SetUp (set_up_plan steps (wr_offer r))] in
        if wz_install_cancelled w1 then
          (let (w2, more) = end_run (Some (CI_UserDaemons, SC_Cancelled)) w1 in (w2, effects @ more))
        else (set_stage r (RS_SetUp steps [] True) w1, effects @ [WO_ReadChanges]))"

definition run_turn :: "wizard_run \<Rightarrow> wizard \<Rightarrow> wz" where
  "run_turn r w =
     (case next_install (shown w) (wr_done r) of
        None \<Rightarrow> end_run None w
      | Some cid \<Rightarrow> begin_step r cid (render (w\<lparr>wz_run_step := Some cid\<rparr>)))"

definition run_starts :: "wizard \<Rightarrow> wz" where
  "run_starts w =
     (case wz_run w of Some r \<Rightarrow> if wr_stage r = RS_Next then run_turn r w else (w, []) | None \<Rightarrow> (w, []))"

definition reread_answered :: "component list \<times> ustr option \<Rightarrow> wizard \<Rightarrow> wz" where
  "reread_answered reading w =
     (case wz_run w of
        Some r \<Rightarrow> if wr_stage r = RS_Reread then run_turn r (take_reading reading w) else (w, [])
      | None \<Rightarrow> (w, []))"

fun show_progress :: "change_in_progress list \<Rightarrow> (component_id \<times> ustr \<times> u64) list \<Rightarrow> (component_id \<times> u8) list \<Rightarrow> wizard
    \<Rightarrow> (component_id \<times> u8) list \<times> wizard" where
  "show_progress changes [] highest w = (highest, w)"
| "show_progress changes ((cid, snap, expected) # snaps) highest w =
     (case pending_install changes snap of
        None \<Rightarrow> show_progress changes snaps highest w
      | Some change \<Rightarrow>
          (let h = (case map_of highest cid of Some h \<Rightarrow> h | None \<Rightarrow> 0);
               percent = map_option (\<lambda>p. max p h) (download_percent expected change);
               highest' = btree_insert cid (case percent of Some p \<Rightarrow> p | None \<Rightarrow> h) highest
           in show_progress changes snaps highest'
                (render (w\<lparr>wz_run_step := Some cid, wz_installs := btree_insert cid (IP_Running percent) (wz_installs w)\<rparr>))))"

definition set_up_changes :: "ustr + change_in_progress list \<Rightarrow> wizard \<Rightarrow> wz" where
  "set_up_changes answer w =
     (case wz_run w of
        Some r \<Rightarrow>
          (case wr_stage r of
             RS_SetUp steps highest True \<Rightarrow>
               (let (highest', w1) = (case answer of
                       Inl _ \<Rightarrow> (highest, w)
                     | Inr changes \<Rightarrow> show_progress changes (set_up_snaps steps (wr_offer r)) highest w)
                in (set_stage r (RS_SetUp steps highest' False) w1, []))
           | _ \<Rightarrow> (w, []))
      | None \<Rightarrow> (w, []))"

fun error_step :: "system_configurator_error \<Rightarrow> failed_step option" where
  "error_step SC_Cancelled = None"
| "error_step (SC_AuthorizationDenied step _) = Some step"
| "error_step (SC_ValuesRejected step _) = Some step"
| "error_step (SC_Execution step _) = Some step"

definition mark_installs :: "(component_id \<times> ustr \<times> u64) list \<Rightarrow> bool \<Rightarrow> wizard \<Rightarrow> wizard" where
  "mark_installs snaps ok w =
     w\<lparr>wz_installs := fold (\<lambda>(cid, _). if ok then btree_insert cid IP_Confirming else btree_remove cid) snaps (wz_installs w)\<rparr>"

definition seed_effects :: "model_offer \<Rightarrow> wizard \<Rightarrow> wizard_effect list" where
  "seed_effects offer w =
     (case Option.bind (wz_languages w) (spoken_language offer) of
        Some language \<Rightarrow> if wz_settings w then [WO_SeedLanguage language] else []
      | None \<Rightarrow> [])"

definition set_up_finished :: "wizard_run \<Rightarrow> component_id list \<Rightarrow> system_configurator_error + unit \<Rightarrow> wizard \<Rightarrow> wz" where
  "set_up_finished r steps outcome w =
     (let w1 = mark_installs (set_up_snaps steps (wr_offer r)) (outcome = Inr ()) (bump_epoch w) in
      case outcome of
        Inl e \<Rightarrow> end_run (Some (failed_set_up_step (error_step e), e)) w1
      | Inr _ \<Rightarrow>
          (let (w2, effects) = step_done r steps w1
           in (w2, (if su_connect (set_up_plan steps (wr_offer r)) \<noteq> None then seed_effects (wr_offer r) w1 else []) @ effects)))"

text \<open>The set-up's loop wakes: with its outcome, if the executor has answered.\<close>

definition set_up_wakes :: "(system_configurator_error + unit) option \<Rightarrow> wizard \<Rightarrow> wz" where
  "set_up_wakes finished w =
     (case wz_run w of
        Some r \<Rightarrow>
          (case wr_stage r of
             RS_SetUp steps highest False \<Rightarrow>
               (case finished of
                  Some outcome \<Rightarrow> set_up_finished r steps outcome w
                | None \<Rightarrow>
                    if wz_install_cancelled w then end_run (Some (CI_UserDaemons, SC_Cancelled)) w
                    else (set_stage r (RS_SetUp steps highest True) w, [WO_ReadChanges]))
           | _ \<Rightarrow> (w, []))
      | None \<Rightarrow> (w, []))"

definition desktop_answered :: "system_configurator_error + unit \<Rightarrow> wizard \<Rightarrow> wz" where
  "desktop_answered outcome w =
     (case wz_run w of
        Some r \<Rightarrow>
          (case wr_stage r of
             RS_Desktop cid \<Rightarrow>
               (case outcome of
                  Inr _ \<Rightarrow> step_done r [cid] (bump_epoch w)
                | Inl e \<Rightarrow> end_run (Some (cid, e)) (bump_epoch w))
           | _ \<Rightarrow> (w, []))
      | None \<Rightarrow> (w, []))"

subsection \<open>Moving on\<close>

definition setup_ended :: "setup_error + settled \<Rightarrow> wizard \<Rightarrow> wz" where
  "setup_ended outcome w =
     (case wz_finish w of
        None \<Rightarrow> (w, [])
      | Some (after, pause) \<Rightarrow>
          (let w1 = render (w\<lparr>wz_setup_cancellation := False, wz_spinner := False, wz_setup_slow := False, wz_busy := False,
                               wz_setup_failed := (case outcome of Inl _ \<Rightarrow> True | Inr _ \<Rightarrow> False), wz_finish := None\<rparr>) in
           case outcome of
             Inr _ \<Rightarrow> if wz_step w1 \<noteq> WS_Components then (w1, [])
                      else if pause then (w1\<lparr>wz_beat := Some after\<rparr>, [])
                      else move_on after w1
           | Inl SE_Cancelled \<Rightarrow> (w1, [])
           | Inl _ \<Rightarrow> (w1, [WO_Toast])))"

definition beat_over :: "wizard \<Rightarrow> wz" where
  "beat_over w = (case wz_beat w of Some after \<Rightarrow> move_on after (w\<lparr>wz_beat := None\<rparr>) | None \<Rightarrow> (w, []))"

definition finish :: "wizard \<Rightarrow> wz" where
  "finish w =
     (let (w', effects) = close w in (w', effects @ [if wz_keeps_settings w then WO_CloseWizard else WO_CloseAll]))"

definition advance :: "wizard \<Rightarrow> wz" where
  "advance w =
     (if (wz_step w = WS_Components \<and> (wz_busy w \<or> wz_running w)) \<or> \<not> can_advance (wz_step w) (shown w) then (w, [])
      else case wz_beat w of
        Some _ \<Rightarrow> move_on WS_Shortcut (w\<lparr>wz_beat := None\<rparr>)
      | None \<Rightarrow>
          (case next_step (wz_step w) of
             Some after \<Rightarrow> if wz_step w = WS_Components then finish_setup after False w else (render (w\<lparr>wz_step := after\<rparr>), [])
           | None \<Rightarrow> finish w))"

fun previous_step :: "wizard_step \<Rightarrow> wizard_step option" where
  "previous_step WS_Welcome = None"
| "previous_step WS_Components = Some WS_Welcome"
| "previous_step WS_Shortcut = Some WS_Components"

definition go_back :: "wizard \<Rightarrow> wz" where
  "go_back w =
     (case previous_step (wz_step w) of
        Some s \<Rightarrow> if wz_can_pop w then (render (w\<lparr>wz_step := s\<rparr>), []) else (w, [])
      | None \<Rightarrow> (w, []))"

definition regains_focus :: "wizard \<Rightarrow> wz" where
  "regains_focus w =
     (if wz_step w = WS_Components \<and> \<not> wz_busy w \<and> \<not> wz_running w then refresh_assessment w else (w, []))"

section \<open>The machine\<close>

datatype wizard_event =
    WE_Install
  | WE_Forward
  | WE_Back
  | WE_Focus
  | WE_Close
  | WE_Poll
  | WE_Spinner
  | WE_Beat
  | WE_Languages "ustr list"
  | WE_Read machine_answers
  | WE_Changes nat "ustr + change_in_progress list"
  | WE_Progress nat "u8 option"
  | WE_Followed nat "change_failure + unit"
  | WE_RunStarts
  | WE_SetUpChanges "ustr + change_in_progress list"
  | WE_SetUpWakes "(system_configurator_error + unit) option"
  | WE_DesktopDone "system_configurator_error + unit"
  | WE_Reread machine_answers
  | WE_SetupEnded "setup_error + settled"

text \<open>A closed window takes no more input.\<close>

definition is_input :: "wizard_event \<Rightarrow> bool" where
  "is_input e \<longleftrightarrow> e \<in> {WE_Install, WE_Forward, WE_Back, WE_Focus, WE_Close}"

fun wizard_handle :: "wizard \<Rightarrow> wizard_event \<Rightarrow> wz" where
  "wizard_handle w WE_Install = install_all w"
| "wizard_handle w WE_Forward = advance w"
| "wizard_handle w WE_Back = go_back w"
| "wizard_handle w WE_Focus = regains_focus w"
| "wizard_handle w WE_Close = close w"
| "wizard_handle w WE_Poll = (if wz_poll w then refresh_assessment w else (w, []))"
| "wizard_handle w WE_Spinner = (if wz_spinner w then (render (w\<lparr>wz_spinner := False, wz_setup_slow := True\<rparr>), []) else (w, []))"
| "wizard_handle w WE_Beat = beat_over w"
| "wizard_handle w (WE_Languages languages) = (render (w\<lparr>wz_languages := Some languages\<rparr>), [])"
| "wizard_handle w (WE_Read answers) = read_answered (read_machine answers) w"
| "wizard_handle w (WE_Changes n answer) = changes_answered n answer w"
| "wizard_handle w (WE_Progress n percent) = follow_progress n percent w"
| "wizard_handle w (WE_Followed n outcome) = follow_ended n outcome w"
| "wizard_handle w WE_RunStarts = run_starts w"
| "wizard_handle w (WE_SetUpChanges answer) = set_up_changes answer w"
| "wizard_handle w (WE_SetUpWakes finished) = set_up_wakes finished w"
| "wizard_handle w (WE_DesktopDone outcome) = desktop_answered outcome w"
| "wizard_handle w (WE_Reread answers) = reread_answered (read_machine answers) w"
| "wizard_handle w (WE_SetupEnded outcome) = setup_ended outcome w"

definition wizard_step :: "wizard \<Rightarrow> wizard_event \<Rightarrow> wz" where
  "wizard_step w e = (if \<not> alive w \<or> (wz_closed w \<and> is_input e) then (w, []) else wizard_handle w e)"

section \<open>The invariant\<close>

fun stage_steps :: "run_stage \<Rightarrow> component_id list" where
  "stage_steps (RS_SetUp steps _ _) = steps"
| "stage_steps (RS_Desktop cid) = [cid]"
| "stage_steps _ = []"

fun stage_ok :: "run_stage \<Rightarrow> bool" where
  "stage_ok (RS_SetUp steps _ _) = (steps \<noteq> [] \<and> (\<forall>cid \<in> set steps. \<not> is_desktop cid))"
| "stage_ok _ = True"

definition run_ok :: "wizard_run \<Rightarrow> bool" where
  "run_ok r \<longleftrightarrow> distinct (wr_done r @ stage_steps (wr_stage r)) \<and> stage_ok (wr_stage r)"

definition wz_ok :: "wizard \<Rightarrow> bool" where
  "wz_ok w \<longleftrightarrow> (wz_run w = None) = (\<not> wz_running w) \<and> (wz_finish w = None) = (\<not> wz_busy w) \<and> \<not> (wz_running w \<and> wz_busy w)
     \<and> (wz_read w = None) = (\<not> wz_assessing w) \<and> distinct (map cm_id (wz_components w)) \<and> btree (wz_installs w)
     \<and> pred_option run_ok (wz_run w)"

lemma assess_distinct: "distinct (map cm_id (assess m))"
  by (simp add: assess_list split: option.split)

lemma read_machine_distinct [simp]: "distinct (map cm_id (fst (read_machine a)))"
  by (simp add: read_machine_def assess_distinct Let_def split: prod.split)

lemma shown_ids [simp]: "map cm_id (shown w) = map cm_id (wz_components w)"
  by (simp add: shown_def while_installing_def comp_def if_distrib cong: if_cong)

lemma install_plan_distinct: "distinct (map cm_id cs) \<Longrightarrow> distinct (install_plan cs)"
  by (simp add: install_plan_def distinct_map_filter)

lemma set_up_steps_distinct: "distinct (map cm_id cs) \<Longrightarrow> distinct (set_up_steps cs taken)"
  by (simp add: set_up_steps_def install_plan_distinct)

lemma shown_render [simp]: "shown (render w) = shown w"
  by (simp add: shown_def installing_ids_def render_def)

lemma render_ok [simp]: "wz_ok (render w) = wz_ok w"
  by (simp add: wz_ok_def render_def)

lemma wz_run_fields [simp]: "wz_run (render w) = wz_run w" "wz_run (bump_epoch w) = wz_run w"
    "wz_run (take_reading reading w) = wz_run w" "wz_run (mark_installs snaps ok w) = wz_run w"
  by (simp_all add: render_def bump_epoch_def take_reading_def mark_installs_def)

lemma bump_epoch_ok [simp]: "wz_ok (bump_epoch w) = wz_ok w"
  by (simp add: wz_ok_def bump_epoch_def)

lemma take_reading_ok: "wz_ok w \<Longrightarrow> distinct (map cm_id (fst reading)) \<Longrightarrow> wz_ok (take_reading reading w)"
  by (auto simp: wz_ok_def take_reading_def btree_def sorted_wrt_map sorted_wrt_filter)

lemma refresh_assessment_ok: "wz_ok w \<Longrightarrow> wz_ok (fst (refresh_assessment w))"
  by (auto simp: wz_ok_def refresh_assessment_def)

lemma finish_setup_ok: "wz_ok w \<Longrightarrow> \<not> wz_running w \<Longrightarrow> wz_ok (fst (finish_setup after pause w))"
  by (simp add: finish_setup_def) (simp add: wz_ok_def)

lemma installs_ok: "wz_ok w \<Longrightarrow> btree m \<Longrightarrow> wz_ok (w\<lparr>wz_installs := m\<rparr>)"
  by (simp add: wz_ok_def)

lemma wz_ok_btree: "wz_ok w \<Longrightarrow> btree (wz_installs w)"
  by (simp add: wz_ok_def)

lemma end_assessment_ok: "wz_ok w \<Longrightarrow> wz_ok (fst (end_assessment before w))"
  by (simp add: end_assessment_def finish_setup_ok)

lemma checks_ok [simp]: "wz_ok (w\<lparr>wz_checks := c\<rparr>) = wz_ok w" "wz_ok (w\<lparr>wz_follows := f\<rparr>) = wz_ok w"
    "wz_ok (w\<lparr>wz_run_step := s\<rparr>) = wz_ok w" "wz_ok (w\<lparr>wz_step := st\<rparr>) = wz_ok w" "wz_ok (w\<lparr>wz_beat := b\<rparr>) = wz_ok w"
    "wz_ok (w\<lparr>wz_languages := l\<rparr>) = wz_ok w" "wz_ok (w\<lparr>wz_spinner := n, wz_setup_slow := y\<rparr>) = wz_ok w"
  by (simp_all add: wz_ok_def)

lemma read_answered_ok:
  assumes "wz_ok w" and "distinct (map cm_id (fst reading))"
  shows "wz_ok (fst (read_answered reading w))"
proof (cases "wz_read w")
  case None
  with assms show ?thesis by (simp add: read_answered_def)
next
  case (Some epoch)
  have w1: "wz_ok (w\<lparr>wz_assessing := False, wz_read := None\<rparr>)" using assms(1) by (simp add: wz_ok_def)
  note w2 = take_reading_ok [OF w1 assms(2)]
  show ?thesis
    using refresh_assessment_ok [OF w1] end_assessment_ok [OF w2] w2
    by (simp add: read_answered_def Some Let_def split: option.split)
qed

lemma follow_elsewhere_ok: "wz_ok w \<Longrightarrow> wz_ok (follow_elsewhere cid change expected w)"
  by (simp add: follow_elsewhere_def installs_ok btree_insert_btree wz_ok_btree)

lemma follow_missing_ok: "wz_ok w \<Longrightarrow> wz_ok (fst (follow_missing changes missing w))"
  by (induction changes missing w rule: follow_missing.induct)
    (auto simp: Let_def follow_elsewhere_ok split: option.split prod.split)

lemma changes_answered_ok: "wz_ok w \<Longrightarrow> wz_ok (fst (changes_answered n answer w))"
  unfolding changes_answered_def
  by (auto simp: Let_def split: prod.split sum.split)
    (metis checks_ok(1) end_assessment_ok follow_missing_ok fst_conv)+

lemma follow_progress_ok: "wz_ok w \<Longrightarrow> wz_ok (fst (follow_progress n percent w))"
  by (simp add: follow_progress_def installs_ok btree_insert_btree wz_ok_btree)

lemma follow_ended_ok:
  assumes "wz_ok w"
  shows "wz_ok (fst (follow_ended n outcome w))"
proof -
  let ?w1 = "bump_epoch (w\<lparr>wz_follows := drop_nth n (wz_follows w)\<rparr>)"
  have w1: "wz_ok ?w1" using assms by simp
  show ?thesis
    using refresh_assessment_ok [OF installs_ok [OF w1 btree_insert_btree [OF wz_ok_btree [OF w1]]]]
      installs_ok [OF w1 btree_remove_btree [OF wz_ok_btree [OF w1]]] assms
    by (auto simp: follow_ended_def Let_def split: sum.split prod.split) (metis fst_conv)
qed

lemma install_all_ok: "wz_ok w \<Longrightarrow> wz_ok (fst (install_all w))"
  by (auto simp: install_all_def split: option.split) (auto simp: wz_ok_def run_ok_def)

lemma end_run_ok:
  assumes "wz_ok w"
  shows "wz_ok (fst (end_run failure w))"
proof -
  let ?w1 = "w\<lparr>wz_running := False, wz_run_step := None, wz_run := None\<rparr>"
  have w1: "wz_ok ?w1" using assms by (auto simp: wz_ok_def)
  from finish_setup_ok [OF w1] w1 show ?thesis
    by (auto simp: end_run_def Let_def split: option.split system_configurator_error.split)
qed

lemma set_stage_ok:
  "wz_ok w \<Longrightarrow> wz_running w \<Longrightarrow> run_ok (r\<lparr>wr_stage := stage\<rparr>) \<Longrightarrow> wz_ok (set_stage r stage w)"
  by (auto simp: wz_ok_def set_stage_def)

lemma step_done_ok:
  "wz_ok w \<Longrightarrow> wz_running w \<Longrightarrow> distinct (wr_done r @ steps) \<Longrightarrow> wz_ok (fst (step_done r steps w))"
  by (simp add: step_done_def set_stage_ok run_ok_def)

lemma wz_running_fields [simp]: "wz_running (bump_epoch w) = wz_running w" "wz_running (render w) = wz_running w"
    "wz_running (mark_installs snaps ok w) = wz_running w" "wz_running (take_reading reading w) = wz_running w"
  by (simp_all add: bump_epoch_def render_def mark_installs_def take_reading_def)

lemma shown_bump [simp]: "shown (bump_epoch w) = shown w" "shown (w\<lparr>wz_run_step := s\<rparr>) = shown w"
  by (simp_all add: shown_def installing_ids_def bump_epoch_def)

lemma wz_ok_distinct: "wz_ok w \<Longrightarrow> distinct (map cm_id (shown w))"
  by (simp add: wz_ok_def)

lemma run_turn_steps:
  assumes "wz_ok w" and "run_ok r" and "next_install (shown w) (wr_done r) = Some cid"
  shows "distinct (wr_done r)" and "cid \<notin> set (wr_done r)"
    and "run_ok (r\<lparr>wr_stage := RS_Desktop cid\<rparr>)"
    and "set_up_steps (shown w) (wr_done r) \<noteq> [] \<Longrightarrow> run_ok (r\<lparr>wr_stage := RS_SetUp (set_up_steps (shown w) (wr_done r)) h b\<rparr>)"
  using assms next_install_Some [OF assms(3)] set_up_steps_distinct [OF wz_ok_distinct [OF assms(1)], of "wr_done r"]
    set_up_steps_fresh [of _ "shown w" "wr_done r"]
  by (auto simp: run_ok_def)

lemma run_turn_ok:
  assumes "wz_ok w" and "wz_running w" and "run_ok r"
  shows "wz_ok (fst (run_turn r w))"
proof (cases "next_install (shown w) (wr_done r)")
  case None
  with assms end_run_ok show ?thesis by (simp add: run_turn_def)
next
  case (Some cid)
  note steps = run_turn_steps [OF assms(1,3) Some]
  let ?w1 = "render (w\<lparr>wz_run_step := Some cid\<rparr>)"
  have w1: "wz_ok ?w1" "wz_running ?w1" "shown ?w1 = shown w" using assms by simp_all
  have "wz_ok (fst (begin_step r cid ?w1))"
  proof (cases "set_up_steps (shown w) (wr_done r) = []")
    case True
    with w1 steps(1-3) show ?thesis
      by (simp add: begin_step_def set_stage_ok step_done_ok)
  next
    case False
    with w1 steps(4) [OF False] end_run_ok [of "bump_epoch ?w1"] show ?thesis
      by (auto simp: begin_step_def Let_def set_stage_ok split: prod.split) (metis fst_conv)
  qed
  with Some show ?thesis by (simp add: run_turn_def)
qed

lemma wz_ok_run: "wz_ok w \<Longrightarrow> wz_run w = Some r \<Longrightarrow> run_ok r \<and> wz_running w"
  by (simp add: wz_ok_def)

lemma show_progress_keeps:
  "wz_ok w \<Longrightarrow> wz_ok (snd (show_progress changes snaps highest w))
     \<and> wz_run (snd (show_progress changes snaps highest w)) = wz_run w"
proof (induction changes snaps highest w rule: show_progress.induct)
  case (1 changes highest w)
  then show ?case by simp
next
  case (2 changes cid snap expected snaps highest w)
  show ?case
  proof (cases "pending_install changes snap")
    case None
    with 2 show ?thesis by simp
  next
    case (Some change)
    have "wz_ok (w\<lparr>wz_run_step := Some cid, wz_installs := btree_insert cid i (wz_installs w)\<rparr>)" for i
      using installs_ok [of "w\<lparr>wz_run_step := Some cid\<rparr>" "btree_insert cid i (wz_installs w)"] 2(3)
        btree_insert_btree [OF wz_ok_btree [OF 2(3)], of cid i] by simp
    with 2(2) [OF Some refl refl refl] Some show ?thesis by (simp add: Let_def)
  qed
qed

lemma run_stage_cases:
  obtains "stage = RS_Next" | steps highest where "stage = RS_SetUp steps highest True"
    | steps highest where "stage = RS_SetUp steps highest False" | cid where "stage = RS_Desktop cid" | "stage = RS_Reread"
  by (cases stage) (metis (full_types))+

lemma set_up_changes_ok:
  assumes "wz_ok w"
  shows "wz_ok (fst (set_up_changes answer w))"
proof (cases "wz_run w")
  case None
  with assms show ?thesis by (simp add: set_up_changes_def)
next
  case (Some r)
  note run = wz_ok_run [OF assms Some]
  show ?thesis
  proof (cases "wr_stage r" rule: run_stage_cases)
    case (2 steps highest)
    have stage: "run_ok (r\<lparr>wr_stage := RS_SetUp steps h b\<rparr>)" for h b using run 2 by (simp add: run_ok_def)
    have "wz_ok (set_stage r (RS_SetUp steps h False) w')" if "wz_ok w'" "wz_run w' = Some r" for h w'
      using that stage set_stage_ok wz_ok_run by blast
    with assms Some 2 show_progress_keeps [OF assms] show ?thesis
      by (simp add: set_up_changes_def split: sum.split prod.split) (metis fst_conv snd_conv)
  qed (use assms Some in \<open>simp_all add: set_up_changes_def\<close>)
qed

lemma mark_installs_ok: "wz_ok w \<Longrightarrow> wz_ok (mark_installs snaps ok w)"
proof -
  have "btree m \<Longrightarrow> btree (fold (\<lambda>(cid, _). if ok then btree_insert cid IP_Confirming else btree_remove cid) snaps m)"
    for m :: "(component_id \<times> install_progress) list"
    by (induction snaps arbitrary: m) (auto simp: btree_insert_btree btree_remove_btree)
  then show "wz_ok w \<Longrightarrow> wz_ok (mark_installs snaps ok w)" by (simp add: mark_installs_def installs_ok wz_ok_btree)
qed

lemma set_up_finished_ok:
  assumes "wz_ok w" and "wz_running w" and "distinct (wr_done r @ steps)"
  shows "wz_ok (fst (set_up_finished r steps outcome w))"
proof -
  have "wz_ok (mark_installs snaps ok (bump_epoch w))" for snaps ok using assms(1) by (simp add: mark_installs_ok)
  with assms end_run_ok step_done_ok show ?thesis
    by (auto simp: set_up_finished_def Let_def split: sum.split prod.split)
      (metis fst_conv wz_running_fields(1,3))
qed

lemma set_up_wakes_ok:
  assumes "wz_ok w"
  shows "wz_ok (fst (set_up_wakes finished w))"
proof (cases "wz_run w")
  case None
  with assms show ?thesis by (simp add: set_up_wakes_def)
next
  case (Some r)
  note run = wz_ok_run [OF assms Some]
  show ?thesis
  proof (cases "wr_stage r" rule: run_stage_cases)
    case (3 steps highest)
    have "run_ok (r\<lparr>wr_stage := RS_SetUp steps highest True\<rparr>)" and "distinct (wr_done r @ steps)"
      using run 3 by (simp_all add: run_ok_def)
    with assms run Some 3 end_run_ok [OF assms] set_up_finished_ok set_stage_ok show ?thesis
      by (simp add: set_up_wakes_def split: option.split)
  qed (use assms Some in \<open>simp_all add: set_up_wakes_def\<close>)
qed

lemma desktop_answered_ok:
  assumes "wz_ok w"
  shows "wz_ok (fst (desktop_answered outcome w))"
proof (cases "wz_run w")
  case None
  with assms show ?thesis by (simp add: desktop_answered_def)
next
  case (Some r)
  note run = wz_ok_run [OF assms Some]
  show ?thesis
  proof (cases "wr_stage r" rule: run_stage_cases)
    case (4 cid)
    with run have "distinct (wr_done r @ [cid])" by (simp add: run_ok_def)
    with assms run Some 4 end_run_ok [of "bump_epoch w"] step_done_ok [of "bump_epoch w" r "[cid]"] show ?thesis
      by (simp add: desktop_answered_def split: sum.split)
  qed (use assms Some in \<open>simp_all add: desktop_answered_def\<close>)
qed

lemma reread_answered_ok:
  assumes "wz_ok w" and "distinct (map cm_id (fst reading))"
  shows "wz_ok (fst (reread_answered reading w))"
  using assms run_turn_ok [OF take_reading_ok [OF assms]] wz_ok_run [OF assms(1)]
  by (auto simp: reread_answered_def split: option.split)

lemma run_starts_ok: "wz_ok w \<Longrightarrow> wz_ok (fst (run_starts w))"
  using run_turn_ok wz_ok_run by (auto simp: run_starts_def split: option.split)

lemma setup_ended_ok: "wz_ok w \<Longrightarrow> wz_ok (fst (setup_ended outcome w))"
  by (auto simp: setup_ended_def Let_def move_on_def split: option.split sum.split setup_error.split prod.split)
    (auto simp: wz_ok_def)

lemma close_ok: "wz_ok w \<Longrightarrow> wz_ok (fst (close w))"
  by (simp add: close_def wz_ok_def)

lemma advance_ok: "wz_ok w \<Longrightarrow> wz_ok (fst (advance w))"
  using close_ok [of w]
  by (auto simp: advance_def move_on_def finish_def finish_setup_ok Let_def split: option.split prod.split)

lemma wizard_handle_ok: "wz_ok w \<Longrightarrow> wz_ok (fst (wizard_handle w e))"
  by (cases e) (simp_all add: install_all_ok advance_ok go_back_def regains_focus_def refresh_assessment_ok close_ok beat_over_def
    move_on_def read_answered_ok changes_answered_ok follow_progress_ok follow_ended_ok run_starts_ok set_up_changes_ok
    set_up_wakes_ok desktop_answered_ok reread_answered_ok setup_ended_ok split: option.split)

lemma wizard_step_ok: "wz_ok w \<Longrightarrow> wz_ok (fst (wizard_step w e))"
  by (simp add: wizard_step_def wizard_handle_ok)

interpretation wizard: halting_machine wizard_step wz_ok "\<lambda>w. \<not> alive w"
  by unfold_locales (simp_all add: wizard_step_ok, simp add: wizard_step_def)

lemma wizard_new_ok: "wz_ok (wizard_new (assess m) gpu settings desktop keeps)"
  by (simp add: wizard_new_def wz_ok_def assess_distinct btree_def)

section \<open>What the wizard starts\<close>

text \<open>
  What a step that asks for something has to have seen: the set-up that ends the component
  step is asked for when nothing required is missing, a privileged set-up only by a run, with
  a plan the executor accepts.
\<close>

definition started_right :: "wizard \<Rightarrow> wizard \<Rightarrow> wizard_effect \<Rightarrow> bool" where
  "started_right w w' x \<longleftrightarrow>
     (case x of
        WO_FinishSetup preferred \<Rightarrow>
          \<not> needs_onboarding (shown w') \<and> wz_step w' = WS_Components \<and> wz_busy w' \<and> \<not> wz_running w' \<and> \<not> wz_busy w
          \<and> preferred = map_option offer_snap (current_offer w')
      | WO_SetUp p \<Rightarrow> wz_running w \<and> \<not> wz_busy w \<and> validate_plan PK_SetUp (plan_of (set_up_requests p)) = Inr ()
      | WO_Enable cid \<Rightarrow> wz_running w \<and> \<not> wz_busy w \<and> is_desktop cid
      | _ \<Rightarrow> True)"

abbreviation starts :: "wizard_effect list \<Rightarrow> wizard_effect list" where
  "starts \<equiv> filter (\<lambda>x. case x of WO_FinishSetup _ \<Rightarrow> True | WO_SetUp _ \<Rightarrow> True | WO_Enable _ \<Rightarrow> True | _ \<Rightarrow> False)"

lemma started_right_starts: "list_all (started_right w w') xs \<longleftrightarrow> list_all (started_right w w') (starts xs)"
  by (induction xs) (auto simp: started_right_def split: wizard_effect.splits)

lemma starts_quiet [simp]: "starts (snd (refresh_assessment w)) = []" "starts (snd (follow_missing changes missing w)) = []"
    "starts (snd (move_on after w)) = []" "starts (snd (close w)) = []" "starts (seed_effects offer w) = []"
proof -
  show "starts (snd (follow_missing changes missing w)) = []"
    by (induction changes missing w rule: follow_missing.induct) (auto simp: Let_def split: option.split prod.split)
qed (simp_all add: refresh_assessment_def move_on_def close_def seed_effects_def split: option.split)

lemma current_offer_fields [simp]: "current_offer (render w) = current_offer w"
  by (simp add: current_offer_def render_def)

lemma finish_setup_right:
  assumes "wz_ok w" and "\<not> wz_running w" and "wz_step w = WS_Components" and "\<not> needs_onboarding (shown w)"
    and "\<not> wz_busy v"
  shows "list_all (started_right v (fst (finish_setup after pause w))) (snd (finish_setup after pause w))"
proof (cases "wz_busy w")
  case False
  let ?w = "w\<lparr>wz_busy := True, wz_setup_cancellation := True, wz_setup_slow := False, wz_setup_failed := False,
              wz_spinner := True, wz_finish := Some (after, pause)\<rparr>"
  have "shown ?w = shown w" "current_offer ?w = current_offer w" by (simp_all add: shown_def installing_ids_def current_offer_def)
  with assms False show ?thesis by (simp add: finish_setup_def started_right_def) (simp add: render_def)
qed (simp add: finish_setup_def)

lemma end_assessment_right:
  assumes "wz_ok w" and "wz_busy v = wz_busy w"
  shows "list_all (started_right v (fst (end_assessment before w))) (snd (end_assessment before w))"
proof (cases "wz_step w = WS_Components \<and> \<not> wz_busy w \<and> \<not> wz_running w \<and> completes before (shown w)")
  case True
  with assms finish_setup_right [of w v] show ?thesis by (simp add: end_assessment_def completes_def settled_def)
next
  case False
  then show ?thesis by (simp only: end_assessment_def if_False) simp
qed

lemma end_run_right:
  assumes "wz_ok w" and "\<not> wz_busy v"
  shows "list_all (started_right v (fst (end_run failure w))) (snd (end_run failure w))"
proof -
  let ?w1 = "w\<lparr>wz_running := False, wz_run_step := None, wz_run := None\<rparr>"
  have w1: "wz_ok ?w1" using assms by (auto simp: wz_ok_def)
  show ?thesis
  proof (cases "failure = None \<and> wz_step w = WS_Components \<and> \<not> wz_busy w \<and> settled (shown ?w1)")
    case True
    with finish_setup_right [OF w1 _ _ _ assms(2)] show ?thesis by (simp add: end_run_def settled_def)
  next
    case False
    then have "starts (snd (end_run failure w)) = []"
      by (auto simp: end_run_def Let_def split: option.split system_configurator_error.split)
    then show ?thesis by (subst started_right_starts) simp
  qed
qed

lemma run_turn_right:
  assumes "wz_ok w" and "wz_running w" and "run_ok r" and "wz_running v" and "\<not> wz_busy v"
  shows "list_all (started_right v (fst (run_turn r w))) (snd (run_turn r w))"
proof (cases "next_install (shown w) (wr_done r)")
  case None
  with assms end_run_right show ?thesis by (simp add: run_turn_def)
next
  case (Some cid)
  let ?w1 = "render (w\<lparr>wz_run_step := Some cid\<rparr>)" and ?steps = "set_up_steps (shown w) (wr_done r)"
  have w1: "wz_ok ?w1" "shown ?w1 = shown w" using assms by simp_all
  have "list_all (started_right v (fst (begin_step r cid ?w1))) (snd (begin_step r cid ?w1))"
  proof (cases "?steps = []")
    case True
    with Some have "is_desktop cid" by (simp add: set_up_steps_Nil)
    with True w1 assms(4,5) show ?thesis by (simp add: begin_step_def step_done_def started_right_def)
  next
    case False
    have "\<forall>cid \<in> set ?steps. \<not> is_desktop cid" using set_up_steps_fresh by blast
    note valid = set_up_requests_valid [OF False this]
    from False w1 assms(4,5) valid [of "wr_offer r"] end_run_right [of "bump_epoch ?w1" v] show ?thesis
      by (auto simp: begin_step_def Let_def started_right_def split: prod.split) (metis fst_conv snd_conv)
  qed
  with Some show ?thesis by (simp add: run_turn_def)
qed
lemma wz_busy_fields [simp]: "wz_busy (bump_epoch w) = wz_busy w" "wz_busy (render w) = wz_busy w"
    "wz_busy (take_reading reading w) = wz_busy w" "wz_busy (mark_installs snaps ok w) = wz_busy w"
  by (simp_all add: bump_epoch_def render_def take_reading_def mark_installs_def)

lemma follow_missing_busy: "wz_busy (fst (follow_missing changes missing w)) = wz_busy w"
  by (induction changes missing w rule: follow_missing.induct)
    (auto simp: Let_def follow_elsewhere_def split: option.split prod.split)

lemma reads_right: "started_right v w WO_ReadMachine" "started_right v w WO_ReadChanges"
  by (simp_all add: started_right_def)

lemma quiet_right: "starts xs = [] \<Longrightarrow> list_all (started_right v w) xs"
  by (subst started_right_starts) simp

lemma read_answered_right:
  assumes "wz_ok w" and "distinct (map cm_id (fst reading))"
  shows "list_all (started_right w (fst (read_answered reading w))) (snd (read_answered reading w))"
proof (cases "wz_read w")
  case None
  then show ?thesis by (simp add: read_answered_def)
next
  case (Some epoch)
  let ?w1 = "w\<lparr>wz_assessing := False, wz_read := None\<rparr>"
  have w1: "wz_ok ?w1" using assms(1) by (simp add: wz_ok_def)
  note w2 = take_reading_ok [OF w1 assms(2)]
  have "wz_busy w = wz_busy (take_reading reading ?w1)" by simp
  from end_assessment_right [OF w2 this] quiet_right [of "snd (refresh_assessment ?w1)"] show ?thesis
    by (simp add: read_answered_def Some Let_def started_right_def split: option.split)
qed

lemma changes_answered_right:
  assumes "wz_ok w"
  shows "list_all (started_right w (fst (changes_answered n answer w))) (snd (changes_answered n answer w))"
proof (cases "n < length (wz_checks w)")
  case True
  define w1 where "w1 = w\<lparr>wz_checks := drop_nth n (wz_checks w)\<rparr>"
  define follow where "follow = (case answer of Inl _ \<Rightarrow> (w1, []) | Inr changes \<Rightarrow> follow_missing changes (ck_missing (wz_checks w ! n)) w1)"
  have w1: "wz_ok w1" "wz_busy w1 = wz_busy w" using assms by (simp_all add: w1_def)
  have f: "wz_ok (fst follow)" "wz_busy w = wz_busy (fst follow)" "starts (snd follow) = []"
    using w1 by (simp_all add: follow_def follow_missing_ok follow_missing_busy split: sum.split)
  have eq: "changes_answered n answer w =
      (fst (end_assessment (ck_before (wz_checks w ! n)) (fst follow)), snd follow @ snd (end_assessment (ck_before (wz_checks w ! n)) (fst follow)))"
    unfolding changes_answered_def Let_def w1_def [symmetric] follow_def [symmetric] using True by (simp add: split_beta)
  show ?thesis unfolding eq using end_assessment_right [OF f(1,2)] quiet_right [OF f(3)] by simp
qed (simp add: changes_answered_def)

lemma follow_ended_right: "list_all (started_right w (fst (follow_ended n outcome w))) (snd (follow_ended n outcome w))"
  by (rule quiet_right) (auto simp: follow_ended_def Let_def refresh_assessment_def split: sum.split prod.split)

lemma wz_ok_running: "wz_ok w \<Longrightarrow> wz_run w = Some r \<Longrightarrow> \<not> wz_busy w"
  by (simp add: wz_ok_def)

lemma set_up_wakes_right:
  assumes "wz_ok w"
  shows "list_all (started_right w (fst (set_up_wakes finished w))) (snd (set_up_wakes finished w))"
proof (cases "wz_run w")
  case None
  then show ?thesis by (simp add: set_up_wakes_def)
next
  case (Some r)
  note busy = wz_ok_running [OF assms Some]
  show ?thesis
  proof (cases "wr_stage r" rule: run_stage_cases)
    case (3 steps highest)
    have "list_all (started_right w (fst (set_up_finished r steps outcome w))) (snd (set_up_finished r steps outcome w))" for outcome
      using end_run_right [OF mark_installs_ok [of "bump_epoch w"] busy] assms
      by (cases outcome) (auto simp: set_up_finished_def Let_def step_done_def reads_right intro!: quiet_right)
    with Some 3 assms end_run_right [OF assms busy] show ?thesis
      by (simp add: set_up_wakes_def started_right_def split: option.split)
  qed (use Some in \<open>simp_all add: set_up_wakes_def\<close>)
qed

lemma desktop_answered_right:
  assumes "wz_ok w"
  shows "list_all (started_right w (fst (desktop_answered outcome w))) (snd (desktop_answered outcome w))"
proof (cases "wz_run w")
  case None
  then show ?thesis by (simp add: desktop_answered_def)
next
  case (Some r)
  have "wz_ok (bump_epoch w)" using assms by simp
  from end_run_right [OF this wz_ok_running [OF assms Some]] Some show ?thesis
    by (simp add: desktop_answered_def step_done_def started_right_def split: run_stage.split sum.split)
qed

lemma reread_answered_right:
  assumes "wz_ok w" and "distinct (map cm_id (fst reading))"
  shows "list_all (started_right w (fst (reread_answered reading w))) (snd (reread_answered reading w))"
proof (cases "wz_run w")
  case (Some r)
  note run = wz_ok_run [OF assms(1) Some]
  from run_turn_right [OF take_reading_ok [OF assms] _ conjunct1 [OF run] conjunct2 [OF run] wz_ok_running [OF assms(1) Some]]
    run Some show ?thesis by (simp add: reread_answered_def)
qed (simp add: reread_answered_def)

lemma run_starts_right:
  assumes "wz_ok w"
  shows "list_all (started_right w (fst (run_starts w))) (snd (run_starts w))"
proof (cases "wz_run w")
  case (Some r)
  note run = wz_ok_run [OF assms Some]
  from run_turn_right [OF assms _ conjunct1 [OF run] conjunct2 [OF run] wz_ok_running [OF assms Some]] run Some
  show ?thesis by (simp add: run_starts_def)
qed (simp add: run_starts_def)

lemma advance_right:
  assumes "wz_ok w"
  shows "list_all (started_right w (fst (advance w))) (snd (advance w))"
proof (cases "wz_step w = WS_Components \<and> \<not> wz_busy w \<and> \<not> wz_running w \<and> \<not> needs_onboarding (shown w) \<and> wz_beat w = None")
  case True
  with finish_setup_right [OF assms, of w] show ?thesis by (simp add: advance_def)
next
  case False
  then have "starts (snd (advance w)) = []"
    by (cases "wz_step w") (auto simp: advance_def move_on_def finish_def close_def Let_def split: option.split)
  then show ?thesis by (rule quiet_right)
qed

lemma setup_ended_quiet: "starts (snd (setup_ended outcome w)) = []"
  by (auto simp: setup_ended_def Let_def move_on_def split: option.split sum.split setup_error.split prod.split)

lemma set_up_changes_quiet: "starts (snd (set_up_changes answer w)) = []"
  by (auto simp: set_up_changes_def split: option.split run_stage.split bool.split prod.split)

lemma wizard_step_right:
  assumes "wz_ok w"
  shows "list_all (started_right w (fst (wizard_step w e))) (snd (wizard_step w e))"
proof -
  have quiet: "list_all (started_right w (fst p)) (snd p)" if "starts (snd p) = []" for p :: wz
    using that by (rule quiet_right)
  have "list_all (started_right w (fst (wizard_handle w e))) (snd (wizard_handle w e))"
    by (cases e) (simp_all add: assms advance_right read_answered_right changes_answered_right follow_ended_right
      run_starts_right set_up_wakes_right desktop_answered_right reread_answered_right
      quiet setup_ended_quiet set_up_changes_quiet follow_progress_def install_all_def go_back_def regains_focus_def
      beat_over_def split: option.split)
  then show ?thesis by (simp add: wizard_step_def)
qed
lemma wz_ok_exclusive: "wz_ok w \<Longrightarrow> wz_busy w \<longrightarrow> \<not> wz_running w"
  by (auto simp: wz_ok_def)

text \<open>The state a wizard is in after some events.\<close>

definition wizard_after :: "onboarding_machine \<Rightarrow> bool \<Rightarrow> bool \<Rightarrow> component_id list \<Rightarrow> bool \<Rightarrow> wizard_event list \<Rightarrow> wizard" where
  "wizard_after m gpu settings desktop keeps es = fst (run_machine wizard_step (wizard_new (assess m) gpu settings desktop keeps) es)"

lemma wizard_after_ok: "wz_ok (wizard_after m gpu settings desktop keeps es)"
  unfolding wizard_after_def by (rule wizard.run_inv [OF wizard_new_ok])

text \<open>
  C9: whatever the user, snapd, the desktop and the timers do, in whatever order: the wizard
  never runs its button and its final set-up at once; the final set-up begins only on the
  component step with nothing required missing, none other going; and what a run asks of the
  privileged executor, only while the run goes, is a plan the executor accepts.
\<close>

theorem wizard_starts_right:
  "let w = wizard_after m gpu settings desktop keeps es in
     \<not> (wz_busy w \<and> wz_running w) \<and> list_all (started_right w (fst (wizard_step w e))) (snd (wizard_step w e))"
  using wizard_after_ok [of m gpu settings desktop keeps es]
  by (simp add: Let_def wizard_step_right wz_ok_exclusive)

section \<open>A run ends\<close>

fun stage_weight :: "run_stage \<Rightarrow> nat" where
  "stage_weight RS_Next = 2"
| "stage_weight RS_Reread = 2"
| "stage_weight _ = 1"

definition run_left :: "wizard \<Rightarrow> nat" where
  "run_left w = (case wz_run w of None \<Rightarrow> 0 | Some r \<Rightarrow> 2 * (5 - length (wr_done r)) + stage_weight (wr_stage r))"

text \<open>The event that answers what a run waits for; a set-up that still goes is read again and again.\<close>

definition answers_run :: "wizard \<Rightarrow> wizard_event \<Rightarrow> bool" where
  "answers_run w e \<longleftrightarrow>
     (case wz_run w of
        None \<Rightarrow> False
      | Some r \<Rightarrow>
          (case (wr_stage r, e) of
             (RS_Next, WE_RunStarts) \<Rightarrow> True
           | (RS_SetUp _ _ False, WE_SetUpWakes (Some _)) \<Rightarrow> True
           | (RS_Desktop _, WE_DesktopDone _) \<Rightarrow> True
           | (RS_Reread, WE_Reread _) \<Rightarrow> True
           | _ \<Rightarrow> False))"

lemma distinct_components: "distinct (cs :: component_id list) \<Longrightarrow> length cs \<le> 5"
proof -
  have "set cs \<subseteq> set ALL_COMPONENTS"
  proof
    fix cid assume "cid \<in> set cs" show "cid \<in> set ALL_COMPONENTS" by (cases cid) (simp_all add: ALL_COMPONENTS_def)
  qed
  then have "card (set cs) \<le> card (set ALL_COMPONENTS)" by (intro card_mono) simp_all
  then show "distinct cs \<Longrightarrow> length cs \<le> 5" by (simp add: distinct_card ALL_COMPONENTS_def)
qed

lemma end_run_none: "wz_run (fst (end_run failure w)) = None"
  by (auto simp: end_run_def Let_def finish_setup_def split: option.split system_configurator_error.split)

lemma end_run_left [simp]: "run_left (fst (end_run failure w)) = 0"
  by (simp add: run_left_def end_run_none)

lemma set_stage_left [simp]: "run_left (set_stage r stage w) = 2 * (5 - length (wr_done r)) + stage_weight stage"
  by (simp add: run_left_def set_stage_def)

lemma step_done_left:
  assumes "distinct (wr_done r @ steps)" and "steps \<noteq> []"
  shows "run_left (fst (step_done r steps w)) \<le> 2 * (5 - length (wr_done r))"
proof -
  have "length (wr_done r) + length steps \<le> 5" using distinct_components [OF assms(1)] by simp
  then show ?thesis using assms(2) by (cases steps) (auto simp: step_done_def set_stage_def run_left_def)
qed

lemma run_turn_left:
  assumes "wz_ok w" and "run_ok r"
  shows "run_left (fst (run_turn r w)) < 2 * (5 - length (wr_done r)) + 2"
proof (cases "next_install (shown w) (wr_done r)")
  case None
  then show ?thesis by (simp add: run_turn_def)
next
  case (Some cid)
  note steps = run_turn_steps [OF assms Some]
  let ?w1 = "render (w\<lparr>wz_run_step := Some cid\<rparr>)"
  have "run_left (fst (begin_step r cid ?w1)) < 2 * (5 - length (wr_done r)) + 2"
  proof (cases "set_up_steps (shown w) (wr_done r) = []")
    case True
    then show ?thesis using step_done_left [of r "[cid]" ?w1] steps(1,2) by (simp add: begin_step_def)
  next
    case False
    then show ?thesis using end_run_left [of "Some (CI_UserDaemons, SC_Cancelled)" "bump_epoch ?w1"]
      by (simp add: begin_step_def Let_def split_beta)
  qed
  with Some show ?thesis by (simp add: run_turn_def)
qed

text \<open>What does not belong to a run leaves it alone.\<close>

lemma keeps_run:
  "wz_run (fst (refresh_assessment w)) = wz_run w" "wz_run (fst (finish_setup after pause w)) = wz_run w"
  "wz_run (fst (end_assessment before w)) = wz_run w" "wz_run (fst (close w)) = wz_run w"
  "wz_run (fst (move_on after w)) = wz_run w" "wz_run (fst (follow_missing changes missing w)) = wz_run w"
proof -
  show "wz_run (fst (follow_missing changes missing w)) = wz_run w"
    by (induction changes missing w rule: follow_missing.induct)
      (auto simp: Let_def follow_elsewhere_def split: option.split prod.split)
qed (simp_all add: refresh_assessment_def finish_setup_def end_assessment_def close_def move_on_def)

lemma read_answered_run: "wz_run (fst (read_answered reading w)) = wz_run w"
  by (simp add: read_answered_def Let_def keeps_run split: option.split)

lemma changes_answered_run: "wz_run (fst (changes_answered n answer w)) = wz_run w"
  by (simp add: changes_answered_def Let_def split_beta keeps_run split: sum.split)

lemma follow_ended_run: "wz_run (fst (follow_ended n outcome w)) = wz_run w"
  by (simp add: follow_ended_def Let_def split_beta keeps_run split: sum.split)

lemma advance_run: "wz_run (fst (advance w)) = wz_run w"
  by (simp add: advance_def finish_def Let_def split_beta keeps_run split: option.split)

lemma setup_ended_run: "wz_run (fst (setup_ended outcome w)) = wz_run w"
  by (auto simp: setup_ended_def Let_def keeps_run split: option.split sum.split setup_error.split prod.split)

lemmas others_run = read_answered_run changes_answered_run follow_ended_run advance_run setup_ended_run

lemma set_up_wakes_left:
  assumes "wz_ok w" and "wz_run w = Some r" and "wr_stage r = RS_SetUp steps highest False"
  shows "run_left (fst (set_up_wakes finished w)) \<le> run_left w"
    and "finished \<noteq> None \<Longrightarrow> run_left (fst (set_up_wakes finished w)) < run_left w"
proof -
  have ok: "distinct (wr_done r @ steps)" "steps \<noteq> []"
    using wz_ok_run [OF assms(1,2)] assms(3) by (simp_all add: run_ok_def)
  have left: "run_left w = 2 * (5 - length (wr_done r)) + 1" using assms by (simp add: run_left_def)
  have "run_left (fst (set_up_finished r steps outcome w)) < run_left w" for outcome
    using step_done_left [OF ok] left by (cases outcome) (auto simp: set_up_finished_def Let_def split_beta le_imp_less_Suc)
  then show "run_left (fst (set_up_wakes finished w)) \<le> run_left w"
    and "finished \<noteq> None \<Longrightarrow> run_left (fst (set_up_wakes finished w)) < run_left w"
    using assms left by (auto simp: set_up_wakes_def less_imp_le split: option.split)
qed

lemma set_up_changes_left: "run_left (fst (set_up_changes answer w)) = run_left w"
proof (cases "wz_run w")
  case (Some r)
  then show ?thesis
    by (cases "wr_stage r" rule: run_stage_cases) (simp_all add: set_up_changes_def split_beta run_left_def set_stage_def)
qed (simp add: set_up_changes_def)

lemma desktop_answered_left:
  assumes "wz_ok w" and "wz_run w = Some r" and "wr_stage r = RS_Desktop cid"
  shows "run_left (fst (desktop_answered outcome w)) < run_left w"
proof -
  have "distinct (wr_done r @ [cid])" using wz_ok_run [OF assms(1,2)] assms(3) by (simp add: run_ok_def)
  from step_done_left [OF this, of "bump_epoch w"] assms show ?thesis
    by (simp add: desktop_answered_def run_left_def le_imp_less_Suc end_run_none split: sum.split)
qed

lemma turn_left:
  assumes "wz_ok w" and "wz_run w = Some r"
  shows "wr_stage r = RS_Next \<Longrightarrow> run_left (fst (run_starts w)) < run_left w"
    and "wr_stage r = RS_Reread \<Longrightarrow> distinct (map cm_id (fst reading)) \<Longrightarrow> run_left (fst (reread_answered reading w)) < run_left w"
  using run_turn_left [of w r] run_turn_left [of "take_reading reading w" r] assms wz_ok_run [OF assms] take_reading_ok [OF assms(1)]
  by (simp_all add: run_starts_def reread_answered_def run_left_def)

lemma handle_left_le:
  assumes "wz_ok w" and "wz_run w = Some r"
  shows "run_left (fst (wizard_handle w e)) \<le> run_left w"
proof -
  have same: "wz_run v = wz_run w \<Longrightarrow> run_left v \<le> run_left w" for v by (simp add: run_left_def)
  have running: "wz_running w" using assms by (simp add: wz_ok_def)
  show ?thesis
  proof (cases e)
    case WE_RunStarts
    then show ?thesis using turn_left(1) [OF assms] assms(2) by (cases "wr_stage r = RS_Next") (simp_all add: run_starts_def less_imp_le)
  next
    case (WE_SetUpChanges answer)
    then show ?thesis by (simp add: set_up_changes_left)
  next
    case (WE_SetUpWakes finished)
    then show ?thesis using set_up_wakes_left(1) [OF assms] assms(2)
      by (cases "wr_stage r" rule: run_stage_cases) (simp_all add: set_up_wakes_def)
  next
    case (WE_DesktopDone outcome)
    then show ?thesis using desktop_answered_left [OF assms] assms(2)
      by (cases "wr_stage r" rule: run_stage_cases) (simp_all add: desktop_answered_def less_imp_le)
  next
    case (WE_Reread answers)
    then show ?thesis using turn_left(2) [OF assms] assms(2)
      by (cases "wr_stage r = RS_Reread") (simp_all add: reread_answered_def less_imp_le)
  qed (rule same, simp add: others_run keeps_run install_all_def running go_back_def regains_focus_def beat_over_def follow_progress_def
      split: option.split)+
qed

lemma handle_left_less:
  assumes "wz_ok w" and "answers_run w e"
  shows "run_left (fst (wizard_handle w e)) < run_left w"
proof -
  obtain r where r: "wz_run w = Some r" using assms(2) by (cases "wz_run w") (simp_all add: answers_run_def)
  show ?thesis
  proof (cases "wr_stage r" rule: run_stage_cases)
    case 1
    with assms(2) r turn_left(1) [OF assms(1) r] show ?thesis by (cases e) (simp_all add: answers_run_def)
  next
    case (2 steps highest)
    with assms(2) r show ?thesis by (cases e) (simp_all add: answers_run_def)
  next
    case (3 steps highest)
    with assms(2) r set_up_wakes_left(2) [OF assms(1) r] show ?thesis
      by (cases e) (auto simp: answers_run_def split: option.splits)
  next
    case (4 cid)
    with assms(2) r desktop_answered_left [OF assms(1) r] show ?thesis by (cases e) (simp_all add: answers_run_def)
  next
    case 5
    with assms(2) r turn_left(2) [OF assms(1) r] show ?thesis by (cases e) (simp_all add: answers_run_def)
  qed
qed

text \<open>
  C10: a run of the button ends. Nothing that happens while it goes adds to what it has left,
  at most twelve turns, and every answer it waits for, be it a success or a failure, takes
  at least one off: after as many answers the run is over, however the machine it re-reads
  after each step changes under it.
\<close>

theorem wizard_run_ends:
  fixes m gpu settings desktop keeps es
  defines "w \<equiv> wizard_after m gpu settings desktop keeps es"
  assumes "wz_run w \<noteq> None"
  shows "0 < run_left w \<and> run_left w \<le> 12 \<and> run_left (fst (wizard_step w e)) \<le> run_left w
    \<and> (alive w \<and> answers_run w e \<longrightarrow> run_left (fst (wizard_step w e)) < run_left w)"
proof -
  have ok: "wz_ok w" unfolding w_def by (rule wizard_after_ok)
  obtain r where r: "wz_run w = Some r" using assms(2) by blast
  have "0 < run_left w \<and> run_left w \<le> 12" using r by (cases "wr_stage r") (auto simp: run_left_def)
  moreover have "\<not> is_input e" if "answers_run w e" using that r
    by (cases e) (auto simp: answers_run_def is_input_def split: run_stage.splits bool.splits)
  ultimately show ?thesis using handle_left_le [OF ok r] handle_left_less [OF ok] by (simp add: wizard_step_def)
qed

text \<open>A bare machine with its language read, on the component step, the button pressed.\<close>

definition pressed :: "wizard_event list" where
  "pressed = [WE_Languages [], WE_Forward, WE_Install]"

theorem wizard_run_ends_witness:
  "wz_run (wizard_after bare_machine False False [] False pressed) \<noteq> None
   \<and> run_left (wizard_after bare_machine False False [] False pressed) \<le> 12
   \<and> run_left (fst (wizard_step (wizard_after bare_machine False False [] False pressed) WE_RunStarts))
       < run_left (wizard_after bare_machine False False [] False pressed)"
proof -
  let ?w = "wizard_after bare_machine False False [] False pressed"
  have run: "wz_run ?w \<noteq> None" by code_simp
  have "alive ?w \<and> answers_run ?w WE_RunStarts" by code_simp
  with wizard_run_ends [OF run, of WE_RunStarts] run show ?thesis by blast
qed

section \<open>Behind a closed wizard\<close>

text \<open>
  The wizard means to start nothing once it is closed. A read that waits for snapd's changes
  keeps the wizard alive, and its poll with it: a second read that meanwhile finds the last
  missing component begins the final set-up behind the closed window.
\<close>

definition all_found :: machine_answers where
  "all_found = \<lparr>ma_user_daemons = Inr True, ma_installed_snaps = Inr [MYNA_SNAP], ma_discovered = Inr 1, ma_desktop = [(CI_StatusSurface, CS_Active)]\<rparr>"

definition model_missing :: machine_answers where
  "model_missing = all_found\<lparr>ma_discovered := Inr 0\<rparr>"

lemma setup_behind_closed_wizard:
  "let w = wizard_after bare_machine False False [] False
             [WE_Languages [], WE_Forward, WE_Focus, WE_Read model_missing, WE_Poll, WE_Close]
   in wz_closed w \<and> list_ex (\<lambda>x. case x of WO_FinishSetup _ \<Rightarrow> True | _ \<Rightarrow> False) (snd (wizard_step w (WE_Read all_found)))"
  by code_simp
end
