(* ===== verification/Ibus.thy ===== *)
theory Ibus
  imports Controller
begin

text \<open>
  The IBus engine's side of text input, \<open>client/myna-desktop/src/inject/ibus.rs\<close>: the lease
  that is one utterance's right to write, what the daemon's focus calls and the user's
  activations do to it, and the graces of a focus that blips away. An event is one call of the
  daemon, one activation, or time: instants are milliseconds, and the task that waits out a
  blip wakes when its instant has come. The ids of leases and blips are 64-bit counters that
  only count up; they are natural numbers here. Targets and acquiring are in \<open>Ibus_Target\<close>.
\<close>

section \<open>Constants\<close>

definition FAKE_CLIENT :: ustr where "FAKE_CLIENT = lit ''fake''"
definition SHELL_CLIENT :: ustr where "SHELL_CLIENT = lit ''gnome-shell''"
definition XIM_CLIENT :: ustr where "XIM_CLIENT = lit ''xim''"
definition ENGINE_NAME :: ustr where "ENGINE_NAME = lit ''myna-stt''"
definition XIM_COMMIT_UNITS :: nat where "XIM_COMMIT_UNITS = 255"
definition ACTIVATION_WINDOW :: nat where "ACTIVATION_WINDOW = 500"
definition FOCUS_BLIP_GRACE :: nat where "FOCUS_BLIP_GRACE = 1000"
definition PURPOSE_PASSWORD :: u32 where "PURPOSE_PASSWORD = 8"
definition PURPOSE_PIN :: u32 where "PURPOSE_PIN = 9"
definition HINT_HIDDEN_TEXT :: u32 where "HINT_HIDDEN_TEXT = push_bit 12 1"

unbundle bit_operations_syntax

record content_type =
  cty_purpose :: u32
  cty_hints :: u32

definition content_type_default :: content_type where
  "content_type_default = \<lparr>cty_purpose = 0, cty_hints = 0\<rparr>"

definition is_secure :: "content_type \<Rightarrow> bool" where
  "is_secure c \<longleftrightarrow> cty_purpose c = PURPOSE_PASSWORD \<or> cty_purpose c = PURPOSE_PIN \<or> cty_hints c AND HINT_HIDDEN_TEXT \<noteq> 0"

section \<open>The lease\<close>

record input_context =
  cx_path :: ustr
  cx_client :: ustr

definition is_fake :: "input_context \<Rightarrow> bool" where
  "is_fake c \<longleftrightarrow> cx_client c = FAKE_CLIENT"

datatype focus_change = FC_In "input_context option" | FC_Out "ustr option"

datatype binding =
    BD_Pending
  | BD_Unnamed
  | BD_Left nat
  | BD_Context ustr
  | BD_Away (away_path: ustr) (away_blip: nat) (away_activated: bool) (away_back: bool)
  | BD_Unfocused
  | BD_Lost

record lease =
  ls_id :: nat
  ls_binding :: binding
  ls_before_cursor :: "uchar option"
  ls_activated_at :: "nat option"
  ls_on_fake :: bool
  ls_wrote :: bool
  ls_fieldless :: bool

definition lease_new :: "nat \<Rightarrow> binding \<Rightarrow> lease" where
  "lease_new i b = \<lparr>ls_id = i, ls_binding = b, ls_before_cursor = None, ls_activated_at = None,
     ls_on_fake = False, ls_wrote = False, ls_fieldless = False\<rparr>"

definition held_by :: "lease \<Rightarrow> nat \<Rightarrow> bool" where
  "held_by l i \<longleftrightarrow> ls_id l = i \<and> ls_binding l \<noteq> BD_Lost"

definition recently_activated :: "nat \<Rightarrow> lease \<Rightarrow> bool" where
  "recently_activated now l \<longleftrightarrow> (case ls_activated_at l of None \<Rightarrow> False | Some t \<Rightarrow> now - t \<le> ACTIVATION_WINDOW)"

fun bound_next :: "binding \<Rightarrow> focus_change \<Rightarrow> nat \<Rightarrow> bool \<Rightarrow> bool \<Rightarrow> binding" where
  "bound_next BD_Pending (FC_Out _) blip recent wrote = BD_Pending"
| "bound_next BD_Pending (FC_In None) blip recent wrote = BD_Unnamed"
| "bound_next BD_Pending (FC_In (Some c)) blip recent wrote = (if is_fake c then BD_Pending else BD_Context (cx_path c))"
| "bound_next BD_Unnamed (FC_Out p) blip recent wrote =
     (if \<not> wrote then BD_Left blip else case p of Some path \<Rightarrow> BD_Away path blip recent False | None \<Rightarrow> BD_Lost)"
| "bound_next BD_Unnamed (FC_In (Some c)) blip recent wrote =
     (if is_fake c then (if \<not> wrote then BD_Left blip else BD_Lost) else BD_Context (cx_path c))"
| "bound_next BD_Unnamed (FC_In None) blip recent wrote = BD_Lost"
| "bound_next (BD_Left b) (FC_Out _) blip recent wrote = BD_Left b"
| "bound_next (BD_Left b) (FC_In None) blip recent wrote = BD_Unnamed"
| "bound_next (BD_Left b) (FC_In (Some c)) blip recent wrote = (if is_fake c then BD_Left b else BD_Context (cx_path c))"
| "bound_next (BD_Context path) (FC_Out _) blip recent wrote = BD_Away path blip recent False"
| "bound_next (BD_Context path) (FC_In (Some c)) blip recent wrote = (if path = cx_path c then BD_Context path else BD_Lost)"
| "bound_next (BD_Context path) (FC_In None) blip recent wrote = BD_Lost"
| "bound_next (BD_Away path b activated back) (FC_Out _) blip recent wrote = BD_Away path b activated False"
| "bound_next (BD_Away path b activated back) (FC_In (Some c)) blip recent wrote =
     (if is_fake c then BD_Away path b activated back
      else if path = cx_path c then (if \<not> activated then BD_Away path b activated True else BD_Context path)
      else BD_Lost)"
| "bound_next (BD_Away path b activated back) (FC_In None) blip recent wrote = BD_Lost"
| "bound_next BD_Unfocused _ blip recent wrote = BD_Lost"
| "bound_next BD_Lost _ blip recent wrote = BD_Lost"

fun on_fake_next :: "binding \<Rightarrow> focus_change \<Rightarrow> bool \<Rightarrow> bool" where
  "on_fake_next BD_Pending (FC_Out _) f = False"
| "on_fake_next BD_Pending (FC_In (Some c)) f = (if is_fake c then True else f)"
| "on_fake_next _ _ f = f"

text \<open>\<open>Lease::focus\<close>, at the instant \<open>now\<close>.\<close>

definition lease_focus :: "nat \<Rightarrow> focus_change \<Rightarrow> nat \<Rightarrow> lease \<Rightarrow> lease" where
  "lease_focus now change blip l =
     l\<lparr>ls_binding := bound_next (ls_binding l) change blip (recently_activated now l) (ls_wrote l),
       ls_on_fake := on_fake_next (ls_binding l) change (ls_on_fake l)\<rparr>"

definition lease_activated :: "nat \<Rightarrow> lease \<Rightarrow> lease" where
  "lease_activated now l =
     l\<lparr>ls_activated_at := Some now,
       ls_binding := (case ls_binding l of
          BD_Away path blip _ back \<Rightarrow> if back then BD_Context path else BD_Away path blip True back
        | b \<Rightarrow> b)\<rparr>"

definition lease_away :: "lease \<Rightarrow> nat option" where
  "lease_away l = (case ls_binding l of BD_Away _ blip _ _ \<Rightarrow> Some blip | BD_Left blip \<Rightarrow> Some blip | _ \<Rightarrow> None)"

datatype standing = SD_Held | SD_Unsure | SD_Lost

definition lease_standing :: "lease \<Rightarrow> nat \<Rightarrow> standing option" where
  "lease_standing l i =
     (if \<not> held_by l i then Some SD_Lost
      else case ls_binding l of
        BD_Away _ _ activated _ \<Rightarrow> if activated then None else Some SD_Unsure
      | BD_Left _ \<Rightarrow> Some SD_Unsure
      | _ \<Rightarrow> Some SD_Held)"

section \<open>The engine\<close>

text \<open>A task waiting out a blip: since when, the instant it sleeps to, and whether that is its first sleep.\<close>

record blip_task =
  bt_blip :: nat
  bt_since :: nat
  bt_due :: nat
  bt_first :: bool

record engine =
  en_content_type :: content_type
  en_lease :: lease
  en_next_lease :: nat
  en_next_blip :: nat
  en_runtime :: bool
  en_displaced :: "ustr option"
  en_shell_focused :: bool
  en_xim_focused :: bool
  en_tasks :: "blip_task list"
  en_now :: nat

definition engine_new :: "bool \<Rightarrow> nat \<Rightarrow> engine" where
  "engine_new runtime now =
     \<lparr>en_content_type = content_type_default, en_lease = lease_new 0 BD_Lost, en_next_lease = 1, en_next_blip = 1,
      en_runtime = runtime, en_displaced = None, en_shell_focused = False, en_xim_focused = False, en_tasks = [], en_now = now\<rparr>"

definition mint :: "engine \<Rightarrow> engine" where
  "mint e = e\<lparr>en_lease := lease_new (en_next_lease e) BD_Pending, en_next_lease := en_next_lease e + 1\<rparr>"

definition holds :: "engine \<Rightarrow> nat \<Rightarrow> bool" where
  "holds e i = held_by (en_lease e) i"

definition blip_deadline :: "nat \<Rightarrow> nat \<Rightarrow> engine \<Rightarrow> nat option" where
  "blip_deadline blip since e =
     (if lease_away (en_lease e) = Some blip
      then Some ((case ls_activated_at (en_lease e) of None \<Rightarrow> since | Some t \<Rightarrow> max t since) + FOCUS_BLIP_GRACE)
      else None)"

definition expire :: "nat \<Rightarrow> bool \<Rightarrow> engine \<Rightarrow> engine" where
  "expire blip even_activated e =
     (let l = en_lease e in
      if lease_away l = Some blip
         \<and> (even_activated \<or> (case ls_binding l of BD_Away _ _ activated _ \<Rightarrow> \<not> activated | _ \<Rightarrow> False))
      then e\<lparr>en_lease := l\<lparr>ls_fieldless := (case ls_binding l of BD_Left _ \<Rightarrow> True | _ \<Rightarrow> False), ls_binding := BD_Lost\<rparr>\<rparr>
      else e)"

definition note_client :: "focus_change \<Rightarrow> engine \<Rightarrow> engine" where
  "note_client change e =
     (case change of
        FC_In (Some c) \<Rightarrow>
          if is_fake c then e
          else e\<lparr>en_shell_focused := (cx_client c = SHELL_CLIENT), en_xim_focused := (cx_client c = XIM_CLIENT)\<rparr>
      | _ \<Rightarrow> e)"

definition engine_focus :: "focus_change \<Rightarrow> engine \<Rightarrow> engine" where
  "engine_focus change e =
     (let blip = en_next_blip e;
          e1 = (note_client change e)\<lparr>en_next_blip := blip + 1, en_lease := lease_focus (en_now e) change blip (en_lease e)\<rparr>
      in if lease_away (en_lease e1) \<noteq> Some blip then e1
         else if en_runtime e1
           then e1\<lparr>en_tasks := en_tasks e1 @ [\<lparr>bt_blip = blip, bt_since = en_now e, bt_due = en_now e + ACTIVATION_WINDOW, bt_first = True\<rparr>]\<rparr>
         else expire blip True e1)"

text \<open>The task wakes: after its first sleep it ends a blip no activation came with, then it looks at the grace.\<close>

definition task_wakes :: "nat \<Rightarrow> engine \<Rightarrow> engine" where
  "task_wakes n e =
     (if n < length (en_tasks e) \<and> bt_due (en_tasks e ! n) \<le> en_now e then
        (let t = en_tasks e ! n; e1 = (if bt_first t then expire (bt_blip t) False e else e) in
         case blip_deadline (bt_blip t) (bt_since t) e1 of
           None \<Rightarrow> e1\<lparr>en_tasks := take n (en_tasks e1) @ drop (Suc n) (en_tasks e1)\<rparr>
         | Some deadline \<Rightarrow>
             if deadline \<le> en_now e1
             then (expire (bt_blip t) True e1)\<lparr>en_tasks := take n (en_tasks e1) @ drop (Suc n) (en_tasks e1)\<rparr>
             else e1\<lparr>en_tasks := (en_tasks e1)[n := t\<lparr>bt_due := deadline, bt_first := False\<rparr>]\<rparr>)
      else e)"

definition engine_wrote :: "nat \<Rightarrow> engine \<Rightarrow> engine" where
  "engine_wrote i e = (if holds e i then e\<lparr>en_lease := (en_lease e)\<lparr>ls_wrote := True\<rparr>\<rparr> else e)"

definition activated_current :: "engine \<Rightarrow> engine" where
  "activated_current e =
     (if ls_binding (en_lease e) \<noteq> BD_Lost then e\<lparr>en_lease := lease_activated (en_now e) (en_lease e)\<rparr> else e)"

definition engine_activated :: "nat \<Rightarrow> engine \<Rightarrow> engine" where
  "engine_activated i e = (if holds e i then e\<lparr>en_lease := lease_activated (en_now e) (en_lease e)\<rparr> else e)"

definition surrounding :: "uchar option \<Rightarrow> engine \<Rightarrow> engine" where
  "surrounding before e =
     (case ls_binding (en_lease e) of
        BD_Unnamed \<Rightarrow> e\<lparr>en_lease := (en_lease e)\<lparr>ls_before_cursor := before\<rparr>\<rparr>
      | BD_Context _ \<Rightarrow> e\<lparr>en_lease := (en_lease e)\<lparr>ls_before_cursor := before\<rparr>\<rparr>
      | _ \<Rightarrow> e)"

definition before_cursor :: "nat \<Rightarrow> engine \<Rightarrow> uchar option" where
  "before_cursor i e = (if holds e i then ls_before_cursor (en_lease e) else None)"

datatype retired = RT_Held | RT_Lost | RT_Superseded

definition restores :: "retired \<Rightarrow> bool" where
  "restores r \<longleftrightarrow> r \<noteq> RT_Superseded"

definition retire :: "nat \<Rightarrow> engine \<Rightarrow> retired \<times> engine" where
  "retire i e =
     (if ls_id (en_lease e) \<noteq> i then (RT_Superseded, e)
      else (if ls_binding (en_lease e) \<noteq> BD_Lost then RT_Held else RT_Lost, e\<lparr>en_lease := (en_lease e)\<lparr>ls_binding := BD_Lost\<rparr>\<rparr>))"

definition engine_taken :: "nat \<Rightarrow> engine \<Rightarrow> engine" where
  "engine_taken i e =
     (if holds e i then e\<lparr>en_lease := (en_lease e)\<lparr>ls_binding := BD_Lost\<rparr>\<rparr> else e)\<lparr>en_displaced := None\<rparr>"

definition displace :: "ustr option \<Rightarrow> engine \<Rightarrow> engine" where
  "displace current e =
     (case current of
        Some name \<Rightarrow> if name \<noteq> [] \<and> name \<noteq> ENGINE_NAME then e\<lparr>en_displaced := Some name\<rparr> else e
      | None \<Rightarrow> e)"

definition reclaim :: "retired \<Rightarrow> engine \<Rightarrow> ustr option \<times> engine" where
  "reclaim r e = (if \<not> restores r then (None, e) else (en_displaced e, e\<lparr>en_displaced := None\<rparr>))"

text \<open>What \<open>focus_arrived\<close> does once its wait is over.\<close>

definition focus_arrived :: "nat \<Rightarrow> engine \<Rightarrow> bool \<times> engine" where
  "focus_arrived i e =
     (if ls_id (en_lease e) = i \<and> ls_binding (en_lease e) = BD_Pending
      then (False, e\<lparr>en_lease := (en_lease e)\<lparr>ls_binding := BD_Unfocused\<rparr>\<rparr>) else (True, e))"

definition on_fake :: "nat \<Rightarrow> engine \<Rightarrow> bool" where
  "on_fake i e \<longleftrightarrow> ls_id (en_lease e) = i
     \<and> (case ls_binding (en_lease e) of
          BD_Pending \<Rightarrow> ls_on_fake (en_lease e)
        | BD_Unfocused \<Rightarrow> ls_on_fake (en_lease e)
        | BD_Lost \<Rightarrow> ls_fieldless (en_lease e)
        | _ \<Rightarrow> False)"

definition preedit_hint :: "engine \<Rightarrow> bool" where
  "preedit_hint e \<longleftrightarrow> \<not> en_shell_focused e"

definition commit_limit :: "engine \<Rightarrow> nat option" where
  "commit_limit e = (if en_xim_focused e then Some XIM_COMMIT_UNITS else None)"

text \<open>\<open>char_before\<close>, on the text an \<open>IBusText\<close> carries.\<close>

definition char_before :: "ustr \<Rightarrow> nat \<Rightarrow> uchar option" where
  "char_before t pos = (if pos = 0 then None else if pos - 1 < length t then Some (t ! (pos - 1)) else None)"

section \<open>The machine\<close>

text \<open>The daemon's calls, activations and time, and what the target of a lease does to it.\<close>

datatype engine_event =
    EE_Focus focus_change
  | EE_ContentType content_type
  | EE_Surrounding ustr nat nat
  | EE_Activation
  | EE_Tick nat
  | EE_Task nat
  | EE_Wrote nat
  | EE_Activated nat
  | EE_Retire nat

fun engine_step :: "engine \<Rightarrow> engine_event \<Rightarrow> engine" where
  "engine_step e (EE_Focus change) = engine_focus change e"
| "engine_step e (EE_ContentType c) = e\<lparr>en_content_type := c\<rparr>"
| "engine_step e (EE_Surrounding t cursor anchor) = surrounding (char_before t (min cursor anchor)) e"
| "engine_step e EE_Activation = activated_current e"
| "engine_step e (EE_Tick d) = e\<lparr>en_now := en_now e + d\<rparr>"
| "engine_step e (EE_Task n) = task_wakes n e"
| "engine_step e (EE_Wrote i) = engine_wrote i e"
| "engine_step e (EE_Activated i) = engine_activated i e"
| "engine_step e (EE_Retire i) = snd (retire i e)"

definition engine_run :: "engine \<Rightarrow> engine_event list \<Rightarrow> engine" where
  "engine_run = foldl engine_step"

lemma engine_run_simps [simp]: "engine_run e [] = e" "engine_run e (x # xs) = engine_run (engine_step e x) xs"
    "engine_run e (xs @ ys) = engine_run (engine_run e xs) ys"
  by (simp_all add: engine_run_def)

section \<open>One lease, one field\<close>

text \<open>The field a lease is bound to by name.\<close>

fun bound_path :: "binding \<Rightarrow> ustr option" where
  "bound_path (BD_Context path) = Some path"
| "bound_path (BD_Away path _ _ _) = Some path"
| "bound_path _ = None"

text \<open>The daemon's last word on focus.\<close>

fun last_word :: "focus_change option \<Rightarrow> engine_event list \<Rightarrow> focus_change option" where
  "last_word w [] = w"
| "last_word w (EE_Focus change # es) = last_word (Some change) es"
| "last_word w (_ # es) = last_word w es"

text \<open>
  A daemon focuses its placeholder context only after a \<open>FocusOut\<close>: never while a named field
  has the focus.
\<close>

definition focused_on :: "focus_change option \<Rightarrow> ustr \<Rightarrow> bool" where
  "focused_on w path \<longleftrightarrow> (\<exists>c. w = Some (FC_In (Some c)) \<and> \<not> is_fake c \<and> cx_path c = path)"

fun orderly :: "focus_change option \<Rightarrow> engine_event list \<Rightarrow> bool" where
  "orderly w [] = True"
| "orderly w (EE_Focus change # es) =
     ((case change of
         FC_In (Some c) \<Rightarrow> is_fake c \<longrightarrow> (case w of Some (FC_In (Some d)) \<Rightarrow> is_fake d | _ \<Rightarrow> True)
       | _ \<Rightarrow> True) \<and> orderly (Some change) es)"
| "orderly w (_ # es) = orderly w es"

text \<open>A lease bound to a field knows where the focus is.\<close>

definition knows_focus :: "focus_change option \<Rightarrow> binding \<Rightarrow> bool" where
  "knows_focus w b \<longleftrightarrow>
     (case b of
        BD_Context path \<Rightarrow> focused_on w path
      | BD_Away path _ _ back \<Rightarrow> back = focused_on w path
      | _ \<Rightarrow> True)"

lemma expire_lease: "ls_binding (en_lease (expire blip b e)) \<in> {ls_binding (en_lease e), BD_Lost}"
    "ls_id (en_lease (expire blip b e)) = ls_id (en_lease e)"
  by (simp_all add: expire_def Let_def)

lemma note_client_lease [simp]: "en_lease (note_client change e) = en_lease e" "en_tasks (note_client change e) = en_tasks e"
    "en_now (note_client change e) = en_now e" "en_next_blip (note_client change e) = en_next_blip e"
    "en_runtime (note_client change e) = en_runtime e"
  by (simp_all add: note_client_def split: focus_change.split option.split)

lemma engine_focus_binding:
  "ls_binding (en_lease (engine_focus change e)) \<in>
     {bound_next (ls_binding (en_lease e)) change (en_next_blip e) (recently_activated (en_now e) (en_lease e)) (ls_wrote (en_lease e)), BD_Lost}"
  using expire_lease(1) [of "en_next_blip e" True "(note_client change e)\<lparr>en_next_blip := en_next_blip e + 1,
      en_lease := lease_focus (en_now e) change (en_next_blip e) (en_lease e)\<rparr>"]
  by (auto simp: engine_focus_def Let_def lease_focus_def)

lemma task_wakes_binding: "ls_binding (en_lease (task_wakes n e)) \<in> {ls_binding (en_lease e), BD_Lost}"
proof -
  let ?t = "en_tasks e ! n" and ?e1 = "if bt_first (en_tasks e ! n) then expire (bt_blip (en_tasks e ! n)) False e else e"
  have "ls_binding (en_lease ?e1) \<in> {ls_binding (en_lease e), BD_Lost}" using expire_lease(1) by simp
  then show ?thesis using expire_lease(1) [of "bt_blip ?t" True ?e1]
    by (auto simp: task_wakes_def Let_def split: option.split)
qed

lemma bound_next_path:
  "bound_path b = Some path \<Longrightarrow> bound_path (bound_next b change blip recent wrote) = Some path \<or> bound_next b change blip recent wrote = BD_Lost"
  by (cases "(b, change, blip, recent, wrote)" rule: bound_next.cases) auto

lemma bound_next_lost: "bound_next BD_Lost change blip recent wrote = BD_Lost"
  by simp

lemma bound_next_knows:
  assumes "knows_focus w b" and "orderly w [EE_Focus change]"
  shows "knows_focus (Some change) (bound_next b change blip recent wrote)"
  using assms
  by (cases "(b, change, blip, recent, wrote)" rule: bound_next.cases)
    (auto simp: knows_focus_def focused_on_def split: option.splits focus_change.splits)

lemma activated_path:
  "bound_path (ls_binding (lease_activated now l)) = bound_path (ls_binding l)"
  "knows_focus w (ls_binding l) \<Longrightarrow> knows_focus w (ls_binding (lease_activated now l))"
  by (auto simp: lease_activated_def knows_focus_def split: binding.splits)

lemma engine_step_knows:
  assumes "knows_focus w (ls_binding (en_lease e))" and "orderly w [x]"
  shows "knows_focus (last_word w [x]) (ls_binding (en_lease (engine_step e x)))"
proof -
  have lost: "knows_focus v BD_Lost" for v by (simp add: knows_focus_def)
  show ?thesis
  proof (cases x)
    case (EE_Focus change)
    with assms engine_focus_binding [of change e] bound_next_knows [OF assms(1)] lost show ?thesis by fastforce
  next
    case (EE_Task n)
    with assms task_wakes_binding [of n e] lost show ?thesis by auto
  qed (use assms lost activated_path(2) in \<open>auto simp: activated_current_def engine_activated_def engine_wrote_def retire_def
        surrounding_def split: binding.split\<close>)
qed

lemma engine_step_path:
  assumes "bound_path (ls_binding (en_lease e)) = Some path"
  shows "bound_path (ls_binding (en_lease (engine_step e x))) = Some path \<or> ls_binding (en_lease (engine_step e x)) = BD_Lost"
proof (cases x)
  case (EE_Focus change)
  let ?n = "bound_next (ls_binding (en_lease e)) change (en_next_blip e) (recently_activated (en_now e) (en_lease e)) (ls_wrote (en_lease e))"
  have "bound_path ?n = Some path \<or> ?n = BD_Lost" by (rule bound_next_path [OF assms])
  with EE_Focus engine_focus_binding [of change e] show ?thesis by (metis engine_step.simps(1) insertE singletonD)
next
  case (EE_Task n)
  with assms task_wakes_binding [of n e] show ?thesis by auto
qed (use assms activated_path(1) in \<open>auto simp: activated_current_def engine_activated_def engine_wrote_def retire_def
      surrounding_def split: binding.split\<close>)

lemma lost_stays: "ls_binding (en_lease e) = BD_Lost \<Longrightarrow> ls_binding (en_lease (engine_step e x)) = BD_Lost"
  using engine_focus_binding [of _ e] task_wakes_binding [of _ e]
  by (cases x) (auto simp: activated_current_def surrounding_def engine_activated_def engine_wrote_def retire_def
      holds_def held_by_def)

lemma lost_stays_run: "ls_binding (en_lease e) = BD_Lost \<Longrightarrow> ls_binding (en_lease (engine_run e xs)) = BD_Lost"
  by (induction xs arbitrary: e) (simp_all add: lost_stays)

lemma orderly_Cons: "orderly w (x # xs) \<longleftrightarrow> orderly w [x] \<and> orderly (last_word w [x]) xs"
  by (cases x) simp_all

lemma last_word_Cons: "last_word w (x # xs) = last_word (last_word w [x]) xs"
  by (cases x) simp_all

lemma engine_run_knows:
  "knows_focus w (ls_binding (en_lease e)) \<Longrightarrow> orderly w xs \<Longrightarrow> knows_focus (last_word w xs) (ls_binding (en_lease (engine_run e xs)))"
proof (induction xs arbitrary: e w)
  case Nil
  then show ?case by simp
next
  case (Cons x xs)
  have ord: "orderly w [x]" "orderly (last_word w [x]) xs" using Cons.prems(2) by (simp_all add: orderly_Cons [of w x xs])
  from Cons.IH [OF engine_step_knows [OF Cons.prems(1) ord(1)] ord(2)] show ?case by (simp add: last_word_Cons [of w x xs])
qed

lemma engine_run_path:
  "bound_path (ls_binding (en_lease e)) = Some path \<Longrightarrow>
     bound_path (ls_binding (en_lease (engine_run e xs))) = Some path \<or> ls_binding (en_lease (engine_run e xs)) = BD_Lost"
proof (induction xs arbitrary: e)
  case Nil
  then show ?case by simp
next
  case (Cons x xs)
  from engine_step_path [OF Cons.prems, of x] Cons.IH lost_stays_run show ?case by auto
qed

lemma mint_knows: "knows_focus w (ls_binding (en_lease (mint e)))"
  by (simp add: mint_def lease_new_def knows_focus_def)

text \<open>
  C5: a lease writes to one field and only while that field has the focus. Once the lease is
  bound to an input context it stays bound to that one, or is lost for good; and whenever the
  bound lease lets its target write, the daemon's last word was that this very context has
  the focus. So it is whatever the focus calls, the activations and the graces are, for a
  daemon that focuses its placeholder only after a \<open>FocusOut\<close>.
\<close>

theorem lease_one_field:
  fixes e xs ys i
  defines "b \<equiv> ls_binding (en_lease (engine_run (mint e) (xs @ ys)))"
  assumes "orderly None (xs @ ys)" and "bound_path (ls_binding (en_lease (engine_run (mint e) xs))) = Some path"
  shows "b = BD_Lost \<or> bound_path b = Some path
     \<and> (lease_standing (en_lease (engine_run (mint e) (xs @ ys))) i = Some SD_Held \<longrightarrow> focused_on (last_word None (xs @ ys)) path)"
proof -
  have "bound_path b = Some path \<or> b = BD_Lost" unfolding b_def using engine_run_path [OF assms(3), of ys] by simp
  moreover have "knows_focus (last_word None (xs @ ys)) b" unfolding b_def by (rule engine_run_knows [OF mint_knows assms(2)])
  ultimately show ?thesis
    unfolding b_def by (cases b) (auto simp: knows_focus_def lease_standing_def b_def split: if_splits)
qed

definition field :: "ustr \<Rightarrow> input_context" where
  "field path = \<lparr>cx_path = path, cx_client = lit ''gtk''\<rparr>"

definition blip_trace :: "engine_event list" where
  "blip_trace = [EE_Focus (FC_Out None), EE_Activation, EE_Focus (FC_In (Some (field (lit ''/a''))))]"

theorem lease_one_field_witness:
  "focused_on (last_word None ([EE_Focus (FC_In (Some (field (lit ''/a''))))] @ blip_trace)) (lit ''/a'')
   \<and> lease_standing (en_lease (engine_run (mint (engine_new True 0)) ([EE_Focus (FC_In (Some (field (lit ''/a''))))] @ blip_trace))) 1 = Some SD_Held"
proof -
  let ?xs = "[EE_Focus (FC_In (Some (field (lit ''/a''))))]"
  have ord: "orderly None (?xs @ blip_trace)" by code_simp
  have bound: "bound_path (ls_binding (en_lease (engine_run (mint (engine_new True 0)) ?xs))) = Some (lit ''/a'')" by code_simp
  have held: "lease_standing (en_lease (engine_run (mint (engine_new True 0)) (?xs @ blip_trace))) 1 = Some SD_Held" by code_simp
  have "ls_binding (en_lease (engine_run (mint (engine_new True 0)) (?xs @ blip_trace))) \<noteq> BD_Lost" by code_simp
  with lease_one_field [OF ord bound, of 1] held show ?thesis by blast
qed

section \<open>A blip is decided\<close>

text \<open>
  Every absence has its one task, whose next waking is never after the grace; its instants
  are past ones.
\<close>

definition grace_end :: "lease \<Rightarrow> nat \<Rightarrow> nat" where
  "grace_end l since = (case ls_activated_at l of None \<Rightarrow> since | Some t \<Rightarrow> max t since) + FOCUS_BLIP_GRACE"

definition unanswered :: "lease \<Rightarrow> bool" where
  "unanswered l \<longleftrightarrow> (case ls_binding l of BD_Away _ _ activated _ \<Rightarrow> \<not> activated | _ \<Rightarrow> False)"

definition task_ok :: "engine \<Rightarrow> blip_task \<Rightarrow> bool" where
  "task_ok e t \<longleftrightarrow> bt_blip t < en_next_blip e
     \<and> (lease_away (en_lease e) = Some (bt_blip t) \<longrightarrow>
          bt_due t \<le> grace_end (en_lease e) (bt_since t)
          \<and> (unanswered (en_lease e) \<longrightarrow> bt_first t \<and> bt_due t = bt_since t + ACTIVATION_WINDOW))"

definition away_watched :: "engine \<Rightarrow> bool" where
  "away_watched e \<longleftrightarrow> (\<forall>blip. lease_away (en_lease e) = Some blip \<longrightarrow> blip \<in> bt_blip ` set (en_tasks e))"

definition engine_ok :: "engine \<Rightarrow> bool" where
  "engine_ok e \<longleftrightarrow> en_runtime e \<and> away_watched e \<and> (\<forall>t \<in> set (en_tasks e). task_ok e t)
     \<and> (\<forall>t. ls_activated_at (en_lease e) = Some t \<longrightarrow> t \<le> en_now e)"

lemmas engine_ok_defs = engine_ok_def away_watched_def task_ok_def

lemma blip_deadline_grace: "blip_deadline blip since e = (if lease_away (en_lease e) = Some blip then Some (grace_end (en_lease e) since) else None)"
  by (simp add: blip_deadline_def grace_end_def)

lemma lease_focus_away:
  "lease_away (lease_focus now change blip l) = Some blip \<or> lease_away (lease_focus now change blip l) = None
   \<or> lease_away (lease_focus now change blip l) = lease_away l \<and> (unanswered (lease_focus now change blip l) \<longrightarrow> unanswered l)"
  unfolding lease_away_def lease_focus_def unanswered_def
  by (cases "(ls_binding l, change, blip, recently_activated now l, ls_wrote l)" rule: bound_next.cases)
    (auto split: option.split)

lemma engine_focus_ok:
  assumes "engine_ok e"
  shows "engine_ok (engine_focus change e)"
proof -
  define blip where "blip = en_next_blip e"
  define l' where "l' = lease_focus (en_now e) change blip (en_lease e)"
  define e1 where "e1 = (note_client change e)\<lparr>en_next_blip := blip + 1, en_lease := l'\<rparr>"
  define t1 where "t1 = \<lparr>bt_blip = blip, bt_since = en_now e, bt_due = en_now e + ACTIVATION_WINDOW, bt_first = True\<rparr>"
  have at: "ls_activated_at l' = ls_activated_at (en_lease e)" by (simp add: l'_def lease_focus_def)
  then have grace: "grace_end l' = grace_end (en_lease e)" by (simp add: grace_end_def fun_eq_iff)
  have e1: "en_runtime e1" "en_tasks e1 = en_tasks e" "en_lease e1 = l'" "en_now e1 = en_now e" "en_next_blip e1 = Suc blip"
    using assms by (simp_all add: e1_def engine_ok_def)
  have now: "\<forall>t. ls_activated_at l' = Some t \<longrightarrow> t \<le> en_now e" using assms at by (simp add: engine_ok_def)
  have old: "bt_blip t < blip" if "t \<in> set (en_tasks e)" for t
    using that assms by (auto simp: engine_ok_defs blip_def)
  have eq: "engine_focus change e = (if lease_away l' \<noteq> Some blip then e1 else e1\<lparr>en_tasks := en_tasks e @ [t1]\<rparr>)"
    unfolding engine_focus_def Let_def blip_def [symmetric] l'_def [symmetric] e1_def [symmetric] t1_def [symmetric] using e1 by simp
  show ?thesis
  proof (cases "lease_away l' = Some blip")
    case True
    have "task_ok e1 t" if "t \<in> set (en_tasks e)" for t
      using old [OF that] True by (simp add: task_ok_def e1)
    moreover have "task_ok e1 t1"
      by (simp add: task_ok_def e1 t1_def grace_end_def ACTIVATION_WINDOW_def FOCUS_BLIP_GRACE_def max_def split: option.split)
    ultimately show ?thesis unfolding eq using True e1 now by (simp add: engine_ok_defs t1_def)
  next
    case False
    then consider "lease_away l' = None" | "lease_away l' = lease_away (en_lease e)" "unanswered l' \<longrightarrow> unanswered (en_lease e)"
      using lease_focus_away [of "en_now e" change blip "en_lease e"] unfolding l'_def by metis
    then have "away_watched e1 \<and> (\<forall>t \<in> set (en_tasks e). task_ok e1 t)"
    proof cases
      case 1
      with old show ?thesis by (auto simp: away_watched_def task_ok_def e1 less_Suc_eq)
    next
      case 2
      with assms old grace show ?thesis by (auto simp: engine_ok_defs e1 less_Suc_eq)
    qed
    then show ?thesis unfolding eq using False e1 now by (simp add: engine_ok_def)
  qed
qed

lemma lease_activated_away:
  "lease_away (lease_activated now l) = None
   \<or> lease_away (lease_activated now l) = lease_away l \<and> \<not> unanswered (lease_activated now l)"
  by (auto simp: lease_away_def unanswered_def lease_activated_def split: binding.split)

lemma activation_ok:
  assumes "engine_ok e"
  shows "engine_ok (e\<lparr>en_lease := lease_activated (en_now e) (en_lease e)\<rparr>)"
proof -
  let ?l = "lease_activated (en_now e) (en_lease e)"
  have at: "ls_activated_at ?l = Some (en_now e)" by (simp add: lease_activated_def)
  have grace: "grace_end (en_lease e) since \<le> grace_end ?l since" for since
    using assms at by (auto simp: engine_ok_def grace_end_def split: option.split)
  from lease_activated_away [of "en_now e" "en_lease e"] show ?thesis
  proof (elim disjE conjE)
    assume "lease_away ?l = None"
    with assms at show ?thesis by (auto simp: engine_ok_defs)
  next
    assume "lease_away ?l = lease_away (en_lease e)" and "\<not> unanswered ?l"
    with assms at show ?thesis by (auto simp: engine_ok_defs intro: order_trans [OF _ grace])
  qed
qed

lemma lost_ok: "engine_ok e \<Longrightarrow> engine_ok (e\<lparr>en_lease := (en_lease e)\<lparr>ls_binding := BD_Lost\<rparr>\<rparr>)"
  by (auto simp: engine_ok_defs lease_away_def)

text \<open>Expiring leaves the engine as it is, or ends the lease.\<close>

lemma expire_ok: "engine_ok e \<Longrightarrow> engine_ok (expire blip b e)"
  by (auto simp: expire_def Let_def engine_ok_defs lease_away_def)

lemma expire_fields: "en_tasks (expire blip b e) = en_tasks e" "en_now (expire blip b e) = en_now e"
    "en_next_blip (expire blip b e) = en_next_blip e"
  by (simp_all add: expire_def Let_def)

lemma expire_away: "lease_away (en_lease (expire blip True e)) \<noteq> Some blip"
    "lease_away (en_lease (expire blip False e)) = Some blip \<Longrightarrow> \<not> unanswered (en_lease (expire blip False e))"
  by (auto simp: expire_def Let_def lease_away_def unanswered_def split: binding.splits if_splits)

lemma task_dropped_ok:
  assumes "engine_ok e" and "n < length (en_tasks e)" and "lease_away (en_lease e) \<noteq> Some (bt_blip (en_tasks e ! n))"
  shows "engine_ok (e\<lparr>en_tasks := take n (en_tasks e) @ drop (Suc n) (en_tasks e)\<rparr>)"
proof -
  let ?ts = "take n (en_tasks e) @ drop (Suc n) (en_tasks e)"
  have all: "set (en_tasks e) = insert (en_tasks e ! n) (set ?ts)"
    using assms(2) by (metis Un_insert_right id_take_nth_drop list.simps(15) set_append)
  with assms show ?thesis by (auto simp: engine_ok_defs simp del: set_append)
qed

lemma task_put_off_ok:
  assumes "engine_ok e" and "n < length (en_tasks e)" and "lease_away (en_lease e) = Some (bt_blip t) \<Longrightarrow> \<not> unanswered (en_lease e)"
    and "t = en_tasks e ! n"
  shows "engine_ok (e\<lparr>en_tasks := (en_tasks e)[n := t\<lparr>bt_due := grace_end (en_lease e) (bt_since t), bt_first := False\<rparr>]\<rparr>)"
proof -
  let ?t = "t\<lparr>bt_due := grace_end (en_lease e) (bt_since t), bt_first := False\<rparr>"
  have t: "t \<in> set (en_tasks e)" using assms(2,4) by simp
  have "task_ok e ?t" using assms(1,3) t by (auto simp: engine_ok_defs)
  moreover have "bt_blip ` set ((en_tasks e)[n := ?t]) = bt_blip ` set (en_tasks e)"
  proof -
    have "map bt_blip ((en_tasks e)[n := ?t]) = map bt_blip (en_tasks e)"
      using assms(2,4) by (simp add: map_update list_update_same_conv)
    then show ?thesis by (metis set_map)
  qed
  ultimately show ?thesis
    using assms(1) set_update_subset_insert [of "en_tasks e" n ?t] by (auto simp: engine_ok_defs)
qed

lemma task_wakes_ok:
  assumes "engine_ok e"
  shows "engine_ok (task_wakes n e)"
proof (cases "n < length (en_tasks e) \<and> bt_due (en_tasks e ! n) \<le> en_now e")
  case True
  define t where "t = en_tasks e ! n"
  define e1 where "e1 = (if bt_first t then expire (bt_blip t) False e else e)"
  have e1: "engine_ok e1" "en_tasks e1 = en_tasks e" "en_now e1 = en_now e"
    using assms by (simp_all add: e1_def expire_ok expire_fields)
  have n: "n < length (en_tasks e1)" "t = en_tasks e1 ! n" using True e1 by (simp_all add: t_def)
  have eq: "task_wakes n e =
      (case blip_deadline (bt_blip t) (bt_since t) e1 of
         None \<Rightarrow> e1\<lparr>en_tasks := take n (en_tasks e1) @ drop (Suc n) (en_tasks e1)\<rparr>
       | Some deadline \<Rightarrow>
           if deadline \<le> en_now e1
           then (expire (bt_blip t) True e1)\<lparr>en_tasks := take n (en_tasks e1) @ drop (Suc n) (en_tasks e1)\<rparr>
           else e1\<lparr>en_tasks := (en_tasks e1)[n := t\<lparr>bt_due := deadline, bt_first := False\<rparr>]\<rparr>)"
    using True unfolding task_wakes_def Let_def t_def [symmetric] e1_def [symmetric] by simp
  have answered: "\<not> unanswered (en_lease e1)" if "lease_away (en_lease e1) = Some (bt_blip t)"
  proof (cases "bt_first t")
    case True
    with that expire_away(2) show ?thesis by (simp add: e1_def)
  next
    case False
    moreover have "t \<in> set (en_tasks e1)" using n by simp
    ultimately show ?thesis using e1(1) that by (auto simp: engine_ok_defs)
  qed
  show ?thesis
  proof (cases "lease_away (en_lease e1) = Some (bt_blip t)")
    case False
    with eq task_dropped_ok [OF e1(1) n(1)] n(2) show ?thesis by (simp add: blip_deadline_grace)
  next
    case away: True
    let ?e2 = "expire (bt_blip t) True e1"
    have "engine_ok (?e2\<lparr>en_tasks := take n (en_tasks ?e2) @ drop (Suc n) (en_tasks ?e2)\<rparr>)"
      using task_dropped_ok [OF expire_ok [OF e1(1)], of n "bt_blip t" True] n expire_away(1) by (simp add: expire_fields)
    with eq away task_put_off_ok [OF e1(1) n(1) answered n(2)] show ?thesis
      by (simp add: blip_deadline_grace expire_fields)
  qed
next
  case False
  then have "task_wakes n e = e" unfolding task_wakes_def by (rule if_not_P)
  with assms show ?thesis by simp
qed

lemma engine_step_ok: "engine_ok e \<Longrightarrow> engine_ok (engine_step e x)"
proof (cases x)
  case (EE_Tick d)
  then show "engine_ok e \<Longrightarrow> ?thesis" by (fastforce simp: engine_ok_defs)
next
  case (EE_Surrounding t cursor anchor)
  then show "engine_ok e \<Longrightarrow> ?thesis"
    by (auto simp: surrounding_def engine_ok_defs lease_away_def unanswered_def grace_end_def split: binding.split)
next
  case (EE_Wrote i)
  then show "engine_ok e \<Longrightarrow> ?thesis"
    by (auto simp: engine_wrote_def engine_ok_defs lease_away_def unanswered_def grace_end_def)
next
  case (EE_ContentType c)
  then show "engine_ok e \<Longrightarrow> ?thesis" by (simp add: engine_ok_defs)
qed (simp_all add: engine_focus_ok task_wakes_ok activated_current_def engine_activated_def activation_ok retire_def lost_ok)

text \<open>The states an engine served within a tokio runtime can be in.\<close>

inductive reachable_engine :: "engine \<Rightarrow> bool" where
  engine_starts: "reachable_engine (engine_new True now)"
| engine_mints: "reachable_engine e \<Longrightarrow> reachable_engine (mint e)"
| engine_steps: "reachable_engine e \<Longrightarrow> reachable_engine (engine_step e x)"

lemma reachable_engine_ok: "reachable_engine e \<Longrightarrow> engine_ok e"
proof (induction rule: reachable_engine.induct)
  case (engine_starts now)
  then show ?case by (simp add: engine_ok_defs engine_new_def lease_new_def lease_away_def)
next
  case (engine_mints e)
  then show ?case by (auto simp: engine_ok_defs mint_def lease_new_def lease_away_def)
qed (rule engine_step_ok)

lemma task_fires_loss:
  assumes "n < length (en_tasks e)" and "bt_due (en_tasks e ! n) \<le> en_now e"
    and "lease_away (en_lease e) = Some (bt_blip (en_tasks e ! n))"
    and "unanswered (en_lease e) \<and> bt_first (en_tasks e ! n) \<or> grace_end (en_lease e) (bt_since (en_tasks e ! n)) \<le> en_now e"
  shows "ls_binding (en_lease (task_wakes n e)) = BD_Lost"
  using assms
  by (auto simp: task_wakes_def Let_def blip_deadline_grace expire_def lease_away_def unanswered_def grace_end_def
      split: binding.splits if_splits)

text \<open>
  C12: an absence of focus is always decided. While a lease is away, a task watches that very
  absence; it wakes no later than the grace, a second after focus left or the last
  activation, and from then on its waking ends the lease. An absence no activation came with
  ends with the task's first waking, half a second after focus left.
\<close>

theorem blip_decided:
  assumes "reachable_engine e" and "lease_away (en_lease e) = Some blip"
  shows "\<exists>n < length (en_tasks e). let t = en_tasks e ! n in
     bt_blip t = blip \<and> bt_due t \<le> grace_end (en_lease e) (bt_since t)
     \<and> (\<forall>d. grace_end (en_lease e) (bt_since t) \<le> en_now e + d \<longrightarrow>
          ls_binding (en_lease (engine_run e [EE_Tick d, EE_Task n])) = BD_Lost)
     \<and> (unanswered (en_lease e) \<longrightarrow> bt_due t = bt_since t + ACTIVATION_WINDOW
          \<and> (\<forall>d. bt_due t \<le> en_now e + d \<longrightarrow> ls_binding (en_lease (engine_run e [EE_Tick d, EE_Task n])) = BD_Lost))"
proof -
  note ok = reachable_engine_ok [OF assms(1)]
  obtain n where n: "n < length (en_tasks e)" "bt_blip (en_tasks e ! n) = blip"
    using ok assms(2) by (auto simp: engine_ok_defs in_set_conv_nth image_iff)
  then have "task_ok e (en_tasks e ! n)" using ok by (simp add: engine_ok_def)
  with n assms(2) have due: "bt_due (en_tasks e ! n) \<le> grace_end (en_lease e) (bt_since (en_tasks e ! n))"
    "unanswered (en_lease e) \<Longrightarrow> bt_first (en_tasks e ! n) \<and> bt_due (en_tasks e ! n) = bt_since (en_tasks e ! n) + ACTIVATION_WINDOW"
    by (simp_all add: task_ok_def)
  have fires: "ls_binding (en_lease (task_wakes n (e\<lparr>en_now := en_now e + d\<rparr>))) = BD_Lost"
    if "bt_due (en_tasks e ! n) \<le> en_now e + d"
      "unanswered (en_lease e) \<and> bt_first (en_tasks e ! n) \<or> grace_end (en_lease e) (bt_since (en_tasks e ! n)) \<le> en_now e + d" for d
    by (rule task_fires_loss) (use n assms(2) that in simp_all)
  show ?thesis
    using n due fires by (intro exI [of _ n]) (auto simp: Let_def)
qed

definition away_engine :: engine where
  "away_engine = engine_run (mint (engine_new True 0)) [EE_Focus (FC_In (Some (field (lit ''/a'')))), EE_Focus (FC_Out None)]"

theorem blip_decided_witness:
  "\<exists>n < length (en_tasks away_engine). ls_binding (en_lease (engine_run away_engine [EE_Tick 500, EE_Task n])) = BD_Lost"
proof -
  have reach: "reachable_engine away_engine"
    unfolding away_engine_def engine_run_simps by (intro reachable_engine.intros)
  have away: "lease_away (en_lease away_engine) = Some 2" by code_simp
  have un: "unanswered (en_lease away_engine)" by code_simp
  have since: "list_all (\<lambda>t. bt_since t + ACTIVATION_WINDOW \<le> en_now away_engine + 500) (en_tasks away_engine)" by code_simp
  obtain n where "n < length (en_tasks away_engine)" "bt_due (en_tasks away_engine ! n) = bt_since (en_tasks away_engine ! n) + ACTIVATION_WINDOW"
    and "\<forall>d. bt_due (en_tasks away_engine ! n) \<le> en_now away_engine + d \<longrightarrow> ls_binding (en_lease (engine_run away_engine [EE_Tick d, EE_Task n])) = BD_Lost"
    using blip_decided [OF reach away] un unfolding Let_def by blast
  with since show ?thesis by (metis list_all_length)
qed

end
