(* ===== verification/Ibus_Target.thy ===== *)
theory Ibus_Target
  imports Ibus "HOL-Library.Sublist"
begin

text \<open>
  Writing through IBus, the rest of \<open>client/myna-desktop/src/inject/ibus.rs\<close>: the target of one
  utterance (\<open>commit\<close>, \<open>set_preedit\<close>, \<open>release\<close>), acquiring it, and the pieces a long commit goes
  out in; and the injector that connects on demand, \<open>client/myna-desktop/src/inject/lazy.rs\<close>.

  Each await is a batch of engine events: what the daemon, the user and the clock did
  meanwhile. The daemon's answers are offered in the order of the calls. What goes out on the
  bus is logged with the engine that the check before it saw. An operation that still waits
  when the offered batches run out has the value \<open>None\<close>.
\<close>

section \<open>Commit pieces\<close>

definition len_utf16 :: "uchar \<Rightarrow> nat" where
  "len_utf16 c = (if c < 65536 then 1 else 2)"

definition utf16_units :: "ustr \<Rightarrow> nat" where
  "utf16_units s = sum_list (map len_utf16 s)"

text \<open>The scan of one piece: how many characters fit, and how many up to the last whitespace that does.\<close>

fun scan_piece :: "nat \<Rightarrow> nat \<Rightarrow> nat \<Rightarrow> nat \<Rightarrow> nat option \<Rightarrow> ustr \<Rightarrow> nat" where
  "scan_piece limit units i fit after_space [] = (case after_space of Some n \<Rightarrow> n | None \<Rightarrow> fit)"
| "scan_piece limit units i fit after_space (c # cs) =
     (if units + len_utf16 c > limit then (case after_space of Some n \<Rightarrow> n | None \<Rightarrow> fit)
      else scan_piece limit (units + len_utf16 c) (Suc i) (Suc i) (if is_whitespace c then Some (Suc i) else after_space) cs)"

partial_function (option) commit_pieces :: "ustr \<Rightarrow> nat \<Rightarrow> ustr list option" where
  [code]: "commit_pieces s limit =
     (if limit < utf16_units s then
        (let fit = scan_piece limit 0 0 0 None s
         in Option.bind (commit_pieces (drop fit s) limit) (\<lambda>pieces. Some (take fit s # pieces)))
      else Some [s])"

section \<open>State\<close>

datatype bus_signal =
    IS_Commit ustr
  | IS_Preedit ustr bool
  | IS_Hide
  | IS_SetGlobal ustr
  | IS_Register

type_synonym bus_answer = "inject_error + ustr option"

record bus_run =
  br_engine :: engine
  br_awaits :: "engine_event list list"
  br_answers :: "bus_answer list"
  br_log :: "(bus_signal \<times> engine) list"

record ibus_target =
  tg_lease :: nat
  tg_preedit_active :: bool
  tg_held :: "ustr list"
  tg_held_preedit :: "ustr option"

definition with_engine :: "(engine \<Rightarrow> engine) \<Rightarrow> bus_run \<Rightarrow> bus_run" where
  "with_engine f r = r\<lparr>br_engine := f (br_engine r)\<rparr>"

definition await :: "bus_run \<Rightarrow> bus_run" where
  "await r = (case br_awaits r of [] \<Rightarrow> r | es # rest \<Rightarrow> r\<lparr>br_engine := engine_run (br_engine r) es, br_awaits := rest\<rparr>)"

text \<open>A call's answer; a daemon with no more answers names no engine.\<close>

definition answer :: "bus_run \<Rightarrow> bus_answer \<times> bus_run" where
  "answer r = (case br_answers r of [] \<Rightarrow> (Inr None, await r) | a # rest \<Rightarrow> (a, await (r\<lparr>br_answers := rest\<rparr>)))"

definition send :: "bus_signal \<Rightarrow> engine \<Rightarrow> bus_run \<Rightarrow> bus_answer \<times> bus_run" where
  "send sig seen r = answer (r\<lparr>br_log := br_log r @ [(sig, seen)]\<rparr>)"

text \<open>\<open>global_engine_of\<close>: a daemon that answers with an error names none; a lost connection is an error.\<close>

definition global_engine_of :: "bus_run \<Rightarrow> bus_answer \<times> bus_run" where
  "global_engine_of r =
     (let (a, r') = answer r
      in (case a of Inl (IE_Backend _) \<Rightarrow> Inr None | _ \<Rightarrow> a, r'))"

section \<open>The target\<close>

definition hide_preedit :: "ibus_target \<Rightarrow> bus_run \<Rightarrow> ibus_target \<times> bus_run" where
  "hide_preedit t r =
     (t\<lparr>tg_preedit_active := False\<rparr>,
      if tg_preedit_active t \<and> holds (br_engine r) (tg_lease t) then snd (send IS_Hide (br_engine r) r) else r)"

fun send_pieces :: "engine \<Rightarrow> ustr list \<Rightarrow> bus_run \<Rightarrow> inject_error option \<times> bus_run" where
  "send_pieces seen [] r = (None, r)"
| "send_pieces seen (piece # pieces) r =
     (case send (IS_Commit piece) seen r of
        (Inl e, r') \<Rightarrow> (Some e, r')
      | (Inr _, r') \<Rightarrow> send_pieces seen pieces r')"

definition write_text :: "ustr \<Rightarrow> ibus_target \<Rightarrow> bus_run \<Rightarrow> inject_error option \<times> ibus_target \<times> bus_run" where
  "write_text s t r =
     (let (t1, r1) = hide_preedit t r; e = br_engine r1 in
      if \<not> holds e (tg_lease t1) then (Some IE_FocusLost, t1, r1)
      else if s = [] then (None, t1, r1)
      else if is_secure (en_content_type e) then (Some IE_SecureField, t1, r1)
      else
        let r2 = with_engine (engine_wrote (tg_lease t1)) r1;
            pieces = (case commit_limit e of Some limit \<Rightarrow> (case commit_pieces s limit of Some ps \<Rightarrow> ps | None \<Rightarrow> []) | None \<Rightarrow> [s]);
            (err, r3) = send_pieces e pieces r2
        in (err, t1, r3))"

definition show_preedit :: "ustr \<Rightarrow> ibus_target \<Rightarrow> bus_run \<Rightarrow> ibus_target \<times> bus_run" where
  "show_preedit s t r =
     (let e = br_engine r in
      if \<not> holds e (tg_lease t) then (t, r)
      else if is_secure (en_content_type e) then (t, r)
      else if s = [] then hide_preedit t r
      else
        case send (IS_Preedit s (preedit_hint e)) e (with_engine (engine_wrote (tg_lease t)) r) of
          (Inr _, r') \<Rightarrow> (t\<lparr>tg_preedit_active := True\<rparr>, r')
        | (Inl _, r') \<Rightarrow> (t, r'))"

text \<open>Whether another engine took the global one; an error is a lost connection.\<close>

definition target_taken :: "ibus_target \<Rightarrow> bus_run \<Rightarrow> (inject_error + bool) \<times> ibus_target \<times> bus_run" where
  "target_taken t r =
     (case global_engine_of r of
        (Inl e, r') \<Rightarrow> (Inl e, t, r')
      | (Inr (Some name), r') \<Rightarrow>
          if name \<noteq> ENGINE_NAME
          then (Inr True, t\<lparr>tg_held := [], tg_held_preedit := None\<rparr>, with_engine (engine_taken (tg_lease t)) r')
          else (Inr False, t, r')
      | (Inr None, r') \<Rightarrow> (Inr False, t, r'))"

text \<open>\<open>EngineState::standing\<close>: waits while the lease is away with an activation, and with \<open>sure\<close> while it is unsure.\<close>

fun wait_standing :: "bool \<Rightarrow> nat \<Rightarrow> engine \<Rightarrow> engine_event list list \<Rightarrow> (standing \<times> engine \<times> engine_event list list) option" where
  "wait_standing sure i e awaits =
     (case lease_standing (en_lease e) i of
        Some now \<Rightarrow> if now = SD_Unsure \<and> sure then (case awaits of [] \<Rightarrow> None | es # rest \<Rightarrow> wait_standing sure i (engine_run e es) rest)
                    else Some (now, e, awaits)
      | None \<Rightarrow> (case awaits of [] \<Rightarrow> None | es # rest \<Rightarrow> wait_standing sure i (engine_run e es) rest))"

declare wait_standing.simps [simp del]

definition engine_standing :: "bool \<Rightarrow> nat \<Rightarrow> bus_run \<Rightarrow> (standing \<times> bus_run) option" where
  "engine_standing sure i r =
     map_option (\<lambda>(now, e, awaits). (now, r\<lparr>br_engine := e, br_awaits := awaits\<rparr>)) (wait_standing sure i (br_engine r) (br_awaits r))"

definition target_standing :: "ustr \<Rightarrow> bool \<Rightarrow> ibus_target \<Rightarrow> bus_run \<Rightarrow> (standing \<times> ibus_target \<times> bus_run) option" where
  "target_standing s preedit t r =
     map_option (\<lambda>(now, r').
       (now,
        case now of
          SD_Unsure \<Rightarrow> if preedit then t\<lparr>tg_held_preedit := Some s\<rparr> else t\<lparr>tg_held := tg_held t @ [s], tg_held_preedit := None\<rparr>
        | SD_Lost \<Rightarrow> t\<lparr>tg_held := [], tg_held_preedit := None\<rparr>
        | SD_Held \<Rightarrow> t, r')) (engine_standing False (tg_lease t) r)"

fun write_all :: "ustr list \<Rightarrow> ibus_target \<Rightarrow> bus_run \<Rightarrow> inject_error option \<times> ibus_target \<times> bus_run" where
  "write_all [] t r = (None, t, r)"
| "write_all (s # ss) t r =
     (case write_text s t r of
        (Some e, t', r') \<Rightarrow> (Some e, t', r')
      | (None, t', r') \<Rightarrow> write_all ss t' r')"

definition flush :: "ibus_target \<Rightarrow> bus_run \<Rightarrow> inject_error option \<times> ibus_target \<times> bus_run" where
  "flush t r =
     (case write_all (tg_held t) (t\<lparr>tg_held := []\<rparr>) r of
        (Some e, t', r') \<Rightarrow> (Some e, t', r')
      | (None, t', r') \<Rightarrow>
          (case tg_held_preedit t' of
             None \<Rightarrow> (None, t', r')
           | Some s \<Rightarrow> (let (t'', r'') = show_preedit s (t'\<lparr>tg_held_preedit := None\<rparr>) r' in (None, t'', r''))))"

definition commit :: "ustr \<Rightarrow> ibus_target \<Rightarrow> bus_run \<Rightarrow> (inject_error option \<times> ibus_target \<times> bus_run) option" where
  "commit s t r =
     (case target_taken t r of
        (Inl e, t1, r1) \<Rightarrow> Some (Some e, t1, r1)
      | (Inr True, t1, r1) \<Rightarrow> Some (Some IE_FocusLost, t1, r1)
      | (Inr False, t1, r1) \<Rightarrow>
          (case target_standing s False t1 r1 of
             None \<Rightarrow> None
           | Some (SD_Unsure, t2, r2) \<Rightarrow> Some (None, t2, r2)
           | Some (SD_Lost, t2, r2) \<Rightarrow> Some (Some IE_FocusLost, t2, r2)
           | Some (SD_Held, t2, r2) \<Rightarrow>
               (case flush t2 r2 of
                  (Some e, t3, r3) \<Rightarrow> Some (Some e, t3, r3)
                | (None, t3, r3) \<Rightarrow> Some (write_text s t3 r3))))"

definition set_preedit :: "ustr \<Rightarrow> ibus_target \<Rightarrow> bus_run \<Rightarrow> (ibus_target \<times> bus_run) option" where
  "set_preedit s t r =
     (case target_standing s True t r of
        None \<Rightarrow> None
      | Some (SD_Held, t1, r1) \<Rightarrow>
          (case flush t1 r1 of
             (None, t2, r2) \<Rightarrow> Some (show_preedit s t2 r2)
           | (Some _, t2, r2) \<Rightarrow> Some (t2, r2))
      | Some (_, t1, r1) \<Rightarrow> Some (t1, r1))"

text \<open>The end of a release, after the last flush: the lease retired, the preedit cleared, the input method handed back.\<close>

definition release_end :: "ibus_target \<Rightarrow> bus_run \<Rightarrow> bus_run" where
  "release_end t r =
     (let (retired, e) = retire (tg_lease t) (br_engine r);
          r1 = r\<lparr>br_engine := e\<rparr>;
          r2 = (if tg_preedit_active t \<and> retired = RT_Held then snd (send IS_Hide (br_engine r1) r1) else r1);
          (displaced, e') = reclaim retired (br_engine r2);
          r3 = r2\<lparr>br_engine := e'\<rparr>
      in case displaced of Some name \<Rightarrow> snd (send (IS_SetGlobal name) e' r3) | None \<Rightarrow> r3)"

definition release :: "ibus_target \<Rightarrow> bus_run \<Rightarrow> bus_run option" where
  "release t r =
     (let (_, t1, r1) = target_taken t r in
      case engine_standing True (tg_lease t1) r1 of
        None \<Rightarrow> None
      | Some (now, r2) \<Rightarrow>
          (let (t3, r3) = (if now = SD_Held then snd (flush t1 r2) else (t1, r2)) in Some (release_end t3 r3)))"

section \<open>Acquiring\<close>

definition SWITCHES :: nat where "SWITCHES = 2"

datatype switched = SW_Answered | SW_Failed "ustr option"

definition reclaims :: "nat \<Rightarrow> switched \<Rightarrow> ustr option \<Rightarrow> bool" where
  "reclaims switch switched now =
     (case now of
        None \<Rightarrow> False
      | Some name \<Rightarrow> name \<noteq> [] \<and> name \<noteq> ENGINE_NAME \<and> switch < SWITCHES
          \<and> (case switched of SW_Answered \<Rightarrow> True | SW_Failed before \<Rightarrow> before \<noteq> Some name))"

definition target_new :: "nat \<Rightarrow> ibus_target" where
  "target_new i = \<lparr>tg_lease = i, tg_preedit_active = False, tg_held = [], tg_held_preedit = None\<rparr>"

definition FOCUS_WAIT :: nat where "FOCUS_WAIT = 400"

text \<open>
  The waits of \<open>focus_arrived\<close>: for a first focus up to \<open>FOCUS_WAIT\<close>, then, while the lease
  has seen only the placeholder, up to the grace after the last activation. A wait that is
  satisfied from the start lets the daemon speak before the next turn of the loop.
\<close>

definition arrived :: "nat \<Rightarrow> engine \<Rightarrow> bool" where
  "arrived i e \<longleftrightarrow> ls_id (en_lease e) \<noteq> i \<or> ls_binding (en_lease e) \<noteq> BD_Pending"

fun wait_arrived :: "nat \<Rightarrow> nat \<Rightarrow> engine \<Rightarrow> engine_event list list \<Rightarrow> (engine \<times> engine_event list list) option" where
  "wait_arrived i deadline e [] = (if arrived i e \<or> deadline \<le> en_now e then Some (e, []) else None)"
| "wait_arrived i deadline e (es # rest) =
     (if arrived i e \<or> deadline \<le> en_now e then Some (e, es # rest) else wait_arrived i deadline (engine_run e es) rest)"

lemma wait_arrived_shorter: "wait_arrived i deadline e awaits = Some (e', awaits') \<Longrightarrow> length awaits' \<le> length awaits"
  by (induction i deadline e awaits rule: wait_arrived.induct) (auto split: if_splits)

function focus_waits :: "nat \<Rightarrow> nat \<Rightarrow> engine \<Rightarrow> engine_event list list \<Rightarrow> (engine \<times> engine_event list list) option" where
  "focus_waits i started e awaits =
     (let deadline = (case ls_activated_at (en_lease e) of None \<Rightarrow> started | Some t \<Rightarrow> max t started) + FOCUS_BLIP_GRACE in
      if \<not> on_fake i e \<or> deadline \<le> en_now e then Some (e, awaits)
      else case awaits of
        [] \<Rightarrow> None
      | es # rest \<Rightarrow>
          if arrived i e then focus_waits i started (engine_run e es) rest
          else (case wait_arrived i deadline (engine_run e es) rest of
                  None \<Rightarrow> None
                | Some (e', awaits') \<Rightarrow> focus_waits i started e' awaits'))"
  by pat_completeness auto
termination
  by (relation "measure (\<lambda>(_, _, _, awaits). length awaits)") (auto dest: wait_arrived_shorter)

declare focus_waits.simps [simp del]

definition await_focus :: "nat \<Rightarrow> bus_run \<Rightarrow> bus_run option" where
  "await_focus i r =
     (let started = en_now (br_engine r) in
      case wait_arrived i (started + FOCUS_WAIT) (br_engine r) (br_awaits r) of
        None \<Rightarrow> None
      | Some (e, awaits) \<Rightarrow>
          map_option (\<lambda>(e', awaits'). r\<lparr>br_engine := e', br_awaits := awaits'\<rparr>) (focus_waits i started e awaits))"

text \<open>
  \<open>switch\<close>: a new lease, the switch, the wait for focus, and the grace for the content type
  when it came. \<open>None\<close> is a wait that is not over.
\<close>

definition switch :: "ustr option \<Rightarrow> bus_run \<Rightarrow> ((inject_error + ibus_target) \<times> bus_run) option" where
  "switch displaced r =
     (let r1 = with_engine (\<lambda>e. mint (e\<lparr>en_content_type := content_type_default\<rparr>)) r; i = ls_id (en_lease (br_engine r1)) in
      case send (IS_SetGlobal ENGINE_NAME) (br_engine r1) r1 of
        (Inl err, r2) \<Rightarrow> Some (Inl err, with_engine (\<lambda>e. snd (retire i e)) r2)
      | (Inr _, r2) \<Rightarrow>
          (case await_focus i (with_engine (displace displaced) r2) of
             None \<Rightarrow> None
           | Some r3 \<Rightarrow>
               (let (received, e) = focus_arrived i (br_engine r3); r4 = r3\<lparr>br_engine := e\<rparr>
                in Some (Inr (target_new i), if received then await r4 else r4))))"

definition global_engine_name :: "bus_run \<Rightarrow> ustr option \<times> bus_run" where
  "global_engine_name r = (let (a, r') = global_engine_of r in (case a of Inr name \<Rightarrow> name | Inl _ \<Rightarrow> None, r'))"

lemma await_shorter: "length (br_awaits (await r)) = length (br_awaits r) - 1"
  by (cases "br_awaits r") (simp_all add: await_def)

lemma global_engine_name_shorter: "global_engine_name r = (now, r1) \<Longrightarrow> length (br_awaits r1) \<le> length (br_awaits r)"
  by (auto simp: global_engine_name_def global_engine_of_def answer_def await_shorter split_beta split: list.splits)

text \<open>The global engine once it is no longer \<open>before\<close>, or at the deadline; polled after a sleep.\<close>

function switched_since :: "ustr option \<Rightarrow> nat \<Rightarrow> bus_run \<Rightarrow> (ustr option \<times> bus_run) option" where
  "switched_since before deadline r =
     (case global_engine_name r of
        (now, r1) \<Rightarrow>
          if now \<noteq> before \<or> deadline \<le> en_now (br_engine r1) then Some (now, r1)
          else if br_awaits r1 = [] then None
          else switched_since before deadline (await r1))"
  by pat_completeness auto

termination
proof (relation "measure (\<lambda>(_, _, r). length (br_awaits r))")
  fix before deadline r now r1
  assume "(now, r1) = global_engine_name r" and "br_awaits r1 \<noteq> []"
  then have "length (br_awaits (await r1)) < length (br_awaits r)"
    using global_engine_name_shorter [of r now r1] by (cases "br_awaits r1") (auto simp: await_shorter)
  then show "((before, deadline, await r1), before, deadline, r) \<in> measure (\<lambda>(_, _, r). length (br_awaits r))" by simp
qed simp

declare switched_since.simps [simp del]

datatype acquire_round = AR_Ours ibus_target | AR_Again "ustr option" | AR_Failed inject_error

definition acquire_round :: "nat \<Rightarrow> ustr option \<Rightarrow> ustr option \<Rightarrow> bus_run \<Rightarrow> (acquire_round \<times> bus_run) option" where
  "acquire_round n before displaced r =
     (case switch displaced r of
        None \<Rightarrow> None
      | Some (Inr t, r1) \<Rightarrow>
          (case global_engine_of r1 of
             (Inl err, r2) \<Rightarrow> map_option (Pair (AR_Failed err)) (release t r2)
           | (Inr now, r2) \<Rightarrow>
               if now = Some ENGINE_NAME then Some (AR_Ours t, r2)
               else if reclaims n SW_Answered now then Some (AR_Again now, with_engine (engine_taken (tg_lease t)) r2)
               else map_option (Pair (AR_Failed IE_FocusLost)) (release t r2))
      | Some (Inl err, r1) \<Rightarrow>
          map_option (\<lambda>(now, r2). (if reclaims n (SW_Failed before) now then AR_Again now else AR_Failed err, r2))
            (switched_since before (en_now (br_engine r1) + FOCUS_WAIT) r1))"

lemma acquire_round_again: "acquire_round n before displaced r = Some (AR_Again now, r') \<Longrightarrow> n < SWITCHES"
  by (auto simp: acquire_round_def reclaims_def Let_def split: prod.splits sum.splits if_splits option.splits)

function acquire_loop :: "nat \<Rightarrow> ustr option \<Rightarrow> ustr option \<Rightarrow> bus_run \<Rightarrow> ((inject_error + ibus_target) \<times> bus_run) option" where
  "acquire_loop n before displaced r =
     (case acquire_round n before displaced r of
        None \<Rightarrow> None
      | Some (AR_Ours t, r') \<Rightarrow> Some (Inr t, r')
      | Some (AR_Failed err, r') \<Rightarrow> Some (Inl err, r')
      | Some (AR_Again now, r') \<Rightarrow> acquire_loop (n + 1) before now r')"
  by pat_completeness auto
termination
  by (relation "measure (\<lambda>(n, _). SWITCHES - n)") (auto dest: acquire_round_again)

declare acquire_loop.simps [simp del]

text \<open>\<open>left_settled\<close> waits while the lease is left.\<close>

definition is_left :: "nat \<Rightarrow> engine \<Rightarrow> bool" where
  "is_left i e \<longleftrightarrow> ls_id (en_lease e) = i \<and> (case ls_binding (en_lease e) of BD_Left _ \<Rightarrow> True | _ \<Rightarrow> False)"

fun left_settled :: "nat \<Rightarrow> engine \<Rightarrow> engine_event list list \<Rightarrow> (engine \<times> engine_event list list) option" where
  "left_settled i e [] = (if is_left i e then None else Some (e, []))"
| "left_settled i e (es # rest) = (if is_left i e then left_settled i (engine_run e es) rest else Some (e, es # rest))"

definition refuse :: "inject_error \<Rightarrow> ibus_target \<Rightarrow> bus_run \<Rightarrow> ((inject_error + ibus_target) \<times> bus_run) option" where
  "refuse err t r = map_option (Pair (Inl err)) (release t r)"

definition acquire_judge :: "ibus_target \<Rightarrow> bus_run \<Rightarrow> ((inject_error + ibus_target) \<times> bus_run) option" where
  "acquire_judge t r =
     (case left_settled (tg_lease t) (br_engine r) (br_awaits r) of
        None \<Rightarrow> None
      | Some (e, awaits) \<Rightarrow>
          (let r' = r\<lparr>br_engine := e, br_awaits := awaits\<rparr> in
           if on_fake (tg_lease t) e then refuse IE_NoTarget t r'
           else if \<not> holds e (tg_lease t) then refuse IE_FocusLost t r'
           else if is_secure (en_content_type e) then refuse IE_SecureField t r'
           else Some (Inr t, r')))"

definition acquire :: "bus_run \<Rightarrow> ((inject_error + ibus_target) \<times> bus_run) option" where
  "acquire r =
     (let (before, r1) = global_engine_name r in
      case send IS_Register (br_engine r1) r1 of
        (Inl err, r2) \<Rightarrow> Some (Inl err, r2)
      | (Inr _, r2) \<Rightarrow>
          (case acquire_loop 1 before before r2 of
             None \<Rightarrow> None
           | Some (Inl err, r3) \<Rightarrow> Some (Inl err, r3)
           | Some (Inr t, r3) \<Rightarrow> acquire_judge t r3))"

section \<open>Pieces\<close>

lemma utf16_units_simps [simp]: "utf16_units [] = 0" "utf16_units (c # s) = len_utf16 c + utf16_units s"
    "utf16_units (s @ u) = utf16_units s + utf16_units u"
  by (simp_all add: utf16_units_def)

lemma len_utf16_bounds: "0 < len_utf16 c" "len_utf16 c \<le> 2"
  by (simp_all add: len_utf16_def)

text \<open>
  A scan that has read \<open>i\<close> characters of a text, all within the limit, answers a cut that is
  within the limit, and positive once a character was read or the next one fits.
\<close>

lemma scan_piece_bounds:
  "units = utf16_units (take i s) \<Longrightarrow> units \<le> limit \<Longrightarrow> fit = i \<Longrightarrow> cs = drop i s \<Longrightarrow> i \<le> length s
   \<Longrightarrow> (\<And>n. after_space = Some n \<Longrightarrow> 0 < n \<and> n \<le> i)
   \<Longrightarrow> (let n = scan_piece limit units i fit after_space cs in
          n \<le> length s \<and> utf16_units (take n s) \<le> limit \<and> (0 < i \<or> (cs \<noteq> [] \<and> len_utf16 (hd cs) + units \<le> limit) \<longrightarrow> 0 < n))"
proof (induction limit units i fit after_space cs rule: scan_piece.induct)
  case (1 limit units i fit after_space)
  have "utf16_units (take n s) \<le> utf16_units (take i s)" if "n \<le> i" for n
    using that by (metis le_add1 le_iff_add take_add utf16_units_simps(3))
  with 1 show ?case by (fastforce simp: Let_def split: option.split)
next
  case (2 limit units i fit after_space c cs)
  have mono: "utf16_units (take n s) \<le> utf16_units (take i s)" if "n \<le> i" for n
    using that by (metis le_add1 le_iff_add take_add utf16_units_simps(3))
  show ?case
  proof (cases "units + len_utf16 c > limit")
    case True
    show ?thesis
    proof (cases after_space)
      case None
      with True "2.prems"(1,2,3,5) show ?thesis by (simp add: Let_def add.commute)
    next
      case (Some m)
      with "2.prems"(6) have "0 < m" "m \<le> i" by simp_all
      with Some True "2.prems"(1,2,3,5) mono [of m] show ?thesis by (simp add: Let_def)
    qed
  next
    case False
    have i: "i < length s" "s ! i = c" "cs = drop (Suc i) s"
      using "2.prems"(4,5) by (metis Cons_nth_drop_Suc drop_eq_Nil leI list.inject list.distinct(1))+
    then have "units + len_utf16 c = utf16_units (take (Suc i) s)" using "2.prems"(1) by (simp add: take_Suc_conv_app_nth)
    with "2.IH" [OF False this] False i "2.prems"(6) show ?thesis
      by (fastforce simp: Let_def split: if_splits)
  qed
qed

lemma scan_piece_cut:
  assumes "2 \<le> limit" and "limit < utf16_units s"
  shows "let n = scan_piece limit 0 0 0 None s in 0 < n \<and> n \<le> length s \<and> utf16_units (take n s) \<le> limit"
proof -
  have "s \<noteq> []" using assms by auto
  then have "len_utf16 (hd s) \<le> limit" using assms(1) len_utf16_bounds(2) [of "hd s"] by simp
  with scan_piece_bounds [of 0 0 s limit 0 s None] \<open>s \<noteq> []\<close> show ?thesis by (auto simp: Let_def)
qed

lemma commit_pieces_all:
  assumes "2 \<le> limit"
  shows "\<exists>ps. commit_pieces s limit = Some ps \<and> concat ps = s \<and> ps \<noteq> [] \<and> (\<forall>p \<in> set ps. utf16_units p \<le> limit)"
proof (induction s rule: length_induct)
  case (1 s)
  show ?case
  proof (cases "limit < utf16_units s")
    case False
    then show ?thesis by (subst commit_pieces.simps) simp
  next
    case True
    let ?n = "scan_piece limit 0 0 0 None s"
    have n: "0 < ?n" "?n \<le> length s" "utf16_units (take ?n s) \<le> limit"
      using scan_piece_cut [OF assms True] by (simp_all add: Let_def)
    then have "length (drop ?n s) < length s" by simp
    with 1 obtain ps where ps: "commit_pieces (drop ?n s) limit = Some ps" "concat ps = drop ?n s" "\<forall>p \<in> set ps. utf16_units p \<le> limit"
      by blast
    have "commit_pieces s limit = Some (take ?n s # ps)"
      using True ps(1) by (subst commit_pieces.simps) (simp add: Let_def)
    with ps n show ?thesis by auto
  qed
qed

text \<open>
  A commit goes out in pieces that lose nothing: with room for any one character the
  splitting ends, the pieces joined are the text, in order, and each carries at most the
  limit's UTF-16 units.
\<close>

theorem commit_pieces_join:
  "2 \<le> limit \<Longrightarrow> \<exists>ps. commit_pieces s limit = Some ps \<and> concat ps = s \<and> ps \<noteq> [] \<and> (\<forall>p \<in> set ps. utf16_units p \<le> limit)"
  by (rule commit_pieces_all)

theorem commit_pieces_join_witness:
  "\<exists>ps. commit_pieces (lit ''one two'') 5 = Some ps \<and> concat ps = lit ''one two'' \<and> (\<forall>p \<in> set ps. utf16_units p \<le> 5)"
  using commit_pieces_join [of 5 "lit ''one two''"] by auto

section \<open>What goes out\<close>

text \<open>The text committed by a stretch of the log, and the check every text of it passed.\<close>

fun said :: "(bus_signal \<times> engine) list \<Rightarrow> ustr" where
  "said [] = []"
| "said ((IS_Commit s, _) # xs) = s @ said xs"
| "said (_ # xs) = said xs"

fun let_through :: "nat \<Rightarrow> bus_signal \<times> engine \<Rightarrow> bool" where
  "let_through i (IS_Commit _, e) = (holds e i \<and> \<not> is_secure (en_content_type e))"
| "let_through i (IS_Preedit _ hint, e) = (holds e i \<and> \<not> is_secure (en_content_type e) \<and> hint = (\<not> en_shell_focused e))"
| "let_through i (IS_Hide, e) = True"
| "let_through i _ = False"

definition extends :: "nat \<Rightarrow> bus_run \<Rightarrow> bus_run \<Rightarrow> ustr \<Rightarrow> bool" where
  "extends i r r' x \<longleftrightarrow> (\<exists>new. br_log r' = br_log r @ new \<and> list_all (let_through i) new \<and> said new = x)"

lemma said_append [simp]: "said (xs @ ys) = said xs @ said ys"
  by (induction xs rule: said.induct) simp_all

lemma extends_refl: "br_log r' = br_log r \<Longrightarrow> extends i r r' []"
  by (simp add: extends_def)

lemma extends_trans: "extends i r r' x \<Longrightarrow> extends i r' r'' y \<Longrightarrow> extends i r r'' (x @ y)"
  by (auto simp: extends_def)

lemma extends_quiet: "extends i r r' x \<Longrightarrow> extends i r' r'' [] \<Longrightarrow> extends i r r'' x"
  using extends_trans by fastforce

lemma extends_log: "extends i r r' x \<Longrightarrow> br_log v = br_log r \<Longrightarrow> br_log v' = br_log r' \<Longrightarrow> extends i v v' x"
  by (simp add: extends_def)

lemma log_fields [simp]: "br_log (await r) = br_log r" "br_log (snd (answer r)) = br_log r" "br_log (with_engine f r) = br_log r"
    "br_log (snd (global_engine_of r)) = br_log r"
  by (simp_all add: await_def answer_def with_engine_def global_engine_of_def split_beta split: list.split)

lemma send_log: "br_log (snd (send sig seen r)) = br_log r @ [(sig, seen)]"
  by (simp add: send_def)

lemma hide_preedit_extends:
  "hide_preedit t r = (t', r') \<Longrightarrow> extends i r r' [] \<and> tg_held t' = tg_held t \<and> tg_lease t' = tg_lease t \<and> tg_held_preedit t' = tg_held_preedit t"
  by (auto simp: hide_preedit_def extends_def send_log)

lemma send_pieces_extends:
  assumes "holds e i" and "\<not> is_secure (en_content_type e)"
  shows "send_pieces e ps r = (err, r') \<Longrightarrow> \<exists>x. extends i r r' x \<and> prefix x (concat ps) \<and> (err = None \<longrightarrow> x = concat ps)"
proof (induction ps arbitrary: r)
  case Nil
  then show ?case using extends_refl by auto
next
  case (Cons p ps)
  obtain a r1 where a: "send (IS_Commit p) e r = (a, r1)" by fastforce
  have one: "extends i r r1 p" using send_log [of "IS_Commit p" e r] a assms by (simp add: extends_def)
  show ?case
  proof (cases a)
    case (Inl x)
    with Cons.prems a one show ?thesis by auto
  next
    case (Inr x)
    with Cons.prems a have "send_pieces e ps r1 = (err, r')" by simp
    from Cons.IH [OF this] obtain x where "extends i r1 r' x" "prefix x (concat ps)" "err = None \<longrightarrow> x = concat ps" by blast
    with extends_trans [OF one] show ?thesis by (intro exI [of _ "p @ x"]) auto
  qed
qed

lemma pieces_concat:
  "concat (case commit_limit e of Some limit \<Rightarrow> (case commit_pieces s limit of Some ps \<Rightarrow> ps | None \<Rightarrow> []) | None \<Rightarrow> [s]) = s"
proof (cases "commit_limit e")
  case (Some limit)
  then have "2 \<le> limit" by (simp add: commit_limit_def XIM_COMMIT_UNITS_def split: if_splits)
  from commit_pieces_all [OF this, of s] Some show ?thesis by auto
qed simp

lemma write_text_extends:
  assumes "write_text s t r = (err, t', r')"
  shows "\<exists>x. extends (tg_lease t) r r' x \<and> prefix x s \<and> (err = None \<longrightarrow> x = s)
     \<and> tg_held t' = tg_held t \<and> tg_lease t' = tg_lease t \<and> tg_held_preedit t' = tg_held_preedit t"
proof -
  obtain t1 r1 where h: "hide_preedit t r = (t1, r1)" by fastforce
  note hide = hide_preedit_extends [OF h, of "tg_lease t"]
  let ?e = "br_engine r1"
  let ?ps = "case commit_limit ?e of Some limit \<Rightarrow> (case commit_pieces s limit of Some ps \<Rightarrow> ps | None \<Rightarrow> []) | None \<Rightarrow> [s]"
  show ?thesis
  proof (cases "holds ?e (tg_lease t1) \<and> s \<noteq> [] \<and> \<not> is_secure (en_content_type ?e)")
    case True
    let ?r2 = "with_engine (engine_wrote (tg_lease t1)) r1"
    obtain r3 where "send_pieces ?e ?ps ?r2 = (err, r3)" and eq: "t' = t1" "r' = r3"
      using assms h True by (auto simp: write_text_def Let_def split: prod.splits)
    from send_pieces_extends [OF _ _ this(1), of "tg_lease t"] True hide
    obtain x where "extends (tg_lease t) ?r2 r3 x" "prefix x s" "err = None \<longrightarrow> x = s"
      unfolding pieces_concat by auto
    then have "extends (tg_lease t) r r3 ([] @ x)" using hide extends_log [of "tg_lease t" ?r2 r3 x r1 r3] extends_trans by fastforce
    with \<open>prefix x s\<close> \<open>err = None \<longrightarrow> x = s\<close> hide eq show ?thesis by auto
  next
    case False
    with assms h have "t' = t1" "r' = r1" "err = None \<longrightarrow> s = []" by (auto simp: write_text_def Let_def split: if_splits)
    with hide show ?thesis by auto
  qed
qed

lemma write_all_extends:
  "write_all ss t r = (err, t', r') \<Longrightarrow>
     \<exists>x. extends (tg_lease t) r r' x \<and> prefix x (concat ss) \<and> (err = None \<longrightarrow> x = concat ss)
     \<and> tg_held t' = tg_held t \<and> tg_lease t' = tg_lease t \<and> tg_held_preedit t' = tg_held_preedit t"
proof (induction ss arbitrary: t r)
  case Nil
  then show ?case using extends_refl by auto
next
  case (Cons s ss)
  obtain e1 t1 r1 where w: "write_text s t r = (e1, t1, r1)" by (cases "write_text s t r") auto
  from write_text_extends [OF w] obtain x where x: "extends (tg_lease t) r r1 x" "prefix x s" "e1 = None \<longrightarrow> x = s"
    and keep: "tg_held t1 = tg_held t" "tg_lease t1 = tg_lease t" "tg_held_preedit t1 = tg_held_preedit t" by blast
  show ?case
  proof (cases e1)
    case (Some e)
    with Cons.prems w x keep show ?thesis by (intro exI [of _ x]) (auto intro: prefix_prefix)
  next
    case None
    with Cons.prems w have "write_all ss t1 r1 = (err, t', r')" by simp
    from Cons.IH [OF this] obtain y where "extends (tg_lease t) r1 r' y" "prefix y (concat ss)" "err = None \<longrightarrow> y = concat ss"
      "tg_held t' = tg_held t" "tg_lease t' = tg_lease t" "tg_held_preedit t' = tg_held_preedit t" using keep by auto
    with extends_trans [OF x(1)] x None show ?thesis by (intro exI [of _ "s @ y"]) auto
  qed
qed

lemma show_preedit_extends:
  assumes "show_preedit s t r = (t', r')"
  shows "extends (tg_lease t) r r' [] \<and> tg_held t' = tg_held t \<and> tg_lease t' = tg_lease t"
proof (cases "holds (br_engine r) (tg_lease t) \<and> \<not> is_secure (en_content_type (br_engine r)) \<and> s \<noteq> []")
  case True
  let ?sig = "IS_Preedit s (preedit_hint (br_engine r))" and ?r = "with_engine (engine_wrote (tg_lease t)) r"
  obtain a r1 where a: "send ?sig (br_engine r) ?r = (a, r1)" by fastforce
  have "extends (tg_lease t) r r1 []"
    using send_log [of ?sig "br_engine r" ?r] a True by (simp add: extends_def preedit_hint_def)
  with assms a True show ?thesis by (auto simp: show_preedit_def Let_def split: sum.splits)
next
  case False
  with assms hide_preedit_extends [of t r t' r' "tg_lease t"] show ?thesis
    by (auto simp: show_preedit_def Let_def extends_refl split: if_splits)
qed

lemma flush_extends:
  assumes "flush t r = (err, t', r')"
  shows "\<exists>x. extends (tg_lease t) r r' x \<and> prefix x (concat (tg_held t)) \<and> (err = None \<longrightarrow> x = concat (tg_held t))
     \<and> tg_held t' = [] \<and> tg_lease t' = tg_lease t"
proof -
  obtain e1 t1 r1 where w: "write_all (tg_held t) (t\<lparr>tg_held := []\<rparr>) r = (e1, t1, r1)"
    by (cases "write_all (tg_held t) (t\<lparr>tg_held := []\<rparr>) r") auto
  from write_all_extends [OF w] obtain x where x: "extends (tg_lease t) r r1 x" "prefix x (concat (tg_held t))" "e1 = None \<longrightarrow> x = concat (tg_held t)"
    "tg_held t1 = []" "tg_lease t1 = tg_lease t" by auto
  show ?thesis
  proof (cases "e1 = None \<and> tg_held_preedit t1 \<noteq> None")
    case True
    then obtain s where s: "tg_held_preedit t1 = Some s" by blast
    obtain t2 r2 where p: "show_preedit s (t1\<lparr>tg_held_preedit := None\<rparr>) r1 = (t2, r2)" by fastforce
    from show_preedit_extends [OF p] x have "extends (tg_lease t) r r2 x" "tg_held t2 = []" "tg_lease t2 = tg_lease t"
      using extends_quiet [OF x(1)] by auto
    with assms w True s p x show ?thesis by (auto simp: flush_def)
  next
    case False
    with assms w x show ?thesis by (auto simp: flush_def split: option.splits)
  qed
qed

lemma standing_log:
  "engine_standing sure i r = Some (now, r') \<Longrightarrow> br_log r' = br_log r"
  by (auto simp: engine_standing_def)

lemma target_taken_extends:
  assumes "target_taken t r = (a, t', r')"
  shows "extends i r r' [] \<and> tg_lease t' = tg_lease t \<and> (if a = Inr True then tg_held t' = [] else t' = t)"
proof -
  obtain g r1 where g: "global_engine_of r = (g, r1)" by fastforce
  have "br_log r1 = br_log r" using log_fields(4) [of r] g by simp
  then have out: "extends i r r1 []" "extends i r (with_engine f r1) []" for f by (simp_all add: extends_refl)
  show ?thesis
  proof (cases g)
    case (Inl e)
    with assms g out(1) show ?thesis by (auto simp: target_taken_def)
  next
    case (Inr name)
    with assms g out show ?thesis by (cases name) (auto simp: target_taken_def split: if_splits)
  qed
qed

text \<open>
  C6: a commit loses, doubles and reorders no text, and none of it goes out unchecked. What
  it sends passed a check that found the lease held and the field not secure. When it
  succeeds, everything held before and then the text has been sent, or, with focus away and
  unsure, nothing has and the text is held behind the rest. When it fails, what was sent is a
  beginning of that, and nothing stays held that was sent.
\<close>

theorem commit_conserves:
  assumes "commit s t r = Some (err, t', r')"
  shows "\<exists>x. extends (tg_lease t) r r' x \<and>
     (case err of
        None \<Rightarrow> x = concat (tg_held t) @ s \<and> tg_held t' = [] \<or> x = [] \<and> tg_held t' = tg_held t @ [s]
      | Some _ \<Rightarrow> prefix x (concat (tg_held t) @ s) \<and> (tg_held t' = [] \<or> x = [] \<and> tg_held t' = tg_held t))"
proof -
  obtain a t1 r1 where tk: "target_taken t r = (a, t1, r1)" by (cases "target_taken t r") auto
  note taken = target_taken_extends [OF tk, of "tg_lease t"]
  show ?thesis
  proof (cases "a = Inr False")
    case False
    with assms tk taken show ?thesis
      by (intro exI [of _ "[]"]) (auto simp: commit_def split: sum.splits bool.splits)
  next
    case True
    with taken have t1: "t1 = t" "extends (tg_lease t) r r1 []" by simp_all
    obtain now r2 where st: "engine_standing False (tg_lease t) r1 = Some (now, r2)"
      using assms tk True t1 by (cases "engine_standing False (tg_lease t) r1") (auto simp: commit_def target_standing_def)
    have r2: "extends (tg_lease t) r r2 []" using t1(2) standing_log [OF st] by (auto intro: extends_log)
    show ?thesis
    proof (cases now)
      case SD_Held
      obtain e3 t3 r3 where fl: "flush t r2 = (e3, t3, r3)" by (cases "flush t r2") auto
      from flush_extends [OF fl] extends_trans [OF r2] obtain x where x: "extends (tg_lease t) r r3 x" "prefix x (concat (tg_held t))"
        "e3 = None \<longrightarrow> x = concat (tg_held t)" "tg_held t3 = []" "tg_lease t3 = tg_lease t" by fastforce
      show ?thesis
      proof (cases e3)
        case (Some e)
        with assms tk True t1 st SD_Held fl x show ?thesis
          by (intro exI [of _ x]) (auto simp: commit_def target_standing_def intro: prefix_prefix)
      next
        case None
        then have w: "write_text s t3 r3 = (err, t', r')"
          using assms tk True t1 st SD_Held fl by (simp add: commit_def target_standing_def)
        from write_text_extends [OF w] x obtain y where "extends (tg_lease t) r3 r' y" "prefix y s" "err = None \<longrightarrow> y = s" "tg_held t' = []"
          by auto
        with extends_trans [OF x(1)] x(3) None show ?thesis
          by (intro exI [of _ "x @ y"]) (auto split: option.split)
      qed
    qed (use assms tk True t1 st r2 in \<open>auto simp: commit_def target_standing_def intro!: exI [of _ "[]"]\<close>)
  qed
qed

text \<open>A target on a focused field, with a text held from a blip that has ended.\<close>

definition sample_engine :: engine where
  "sample_engine = engine_run (mint (engine_new True 0)) [EE_Focus (FC_In (Some (field (lit ''/a''))))]"

definition sample_run :: bus_run where
  "sample_run = \<lparr>br_engine = sample_engine, br_awaits = [], br_answers = [Inr (Some ENGINE_NAME)], br_log = []\<rparr>"

definition sample_target :: ibus_target where
  "sample_target = (target_new 1)\<lparr>tg_held := [lit ''one '']\<rparr>"

theorem commit_conserves_witness:
  "\<exists>t' r' x. commit (lit ''two'') sample_target sample_run = Some (None, t', r') \<and> extends 1 sample_run r' x \<and> x = lit ''one two''"
proof -
  have held: "fst (the (commit (lit ''two'') sample_target sample_run)) = None" by code_simp
  have some: "commit (lit ''two'') sample_target sample_run \<noteq> None" by code_simp
  have clear: "tg_held (fst (snd (the (commit (lit ''two'') sample_target sample_run)))) = []" by code_simp
  obtain t' r' where c: "commit (lit ''two'') sample_target sample_run = Some (None, t', r')" and "tg_held t' = []"
    using held some clear by (cases "commit (lit ''two'') sample_target sample_run") auto
  with commit_conserves [OF c] show ?thesis
    by (auto simp: sample_target_def target_new_def lit_append [symmetric])
qed

section \<open>Leases under the target's operations\<close>

lemma engine_step_id: "ls_id (en_lease (engine_step e x)) = ls_id (en_lease e)"
proof (cases x)
  case (EE_Focus change)
  then show ?thesis by (simp add: engine_focus_def Let_def expire_lease(2) lease_focus_def)
next
  case (EE_Task n)
  then show ?thesis by (simp add: task_wakes_def Let_def expire_lease(2) split: option.split)
qed (simp_all add: surrounding_def activated_current_def engine_activated_def lease_activated_def engine_wrote_def
    retire_def split: binding.split)

lemma engine_run_id [simp]: "ls_id (en_lease (engine_run e xs)) = ls_id (en_lease e)"
  by (induction xs arbitrary: e) (simp_all add: engine_step_id)

lemma engine_step_pending: "ls_binding (en_lease e) \<noteq> BD_Pending \<Longrightarrow> ls_binding (en_lease (engine_step e x)) \<noteq> BD_Pending"
proof (cases x)
  case (EE_Focus change)
  have "bound_next b change blip recent wrote \<noteq> BD_Pending" if "b \<noteq> BD_Pending" for b blip recent wrote
    using that by (cases "(b, change, blip, recent, wrote)" rule: bound_next.cases) (auto split: option.split)
  with EE_Focus engine_focus_binding [of change e] show "ls_binding (en_lease e) \<noteq> BD_Pending \<Longrightarrow> ?thesis" by auto
next
  case (EE_Task n)
  with task_wakes_binding [of n e] show "ls_binding (en_lease e) \<noteq> BD_Pending \<Longrightarrow> ?thesis" by auto
qed (auto simp: surrounding_def activated_current_def engine_activated_def lease_activated_def engine_wrote_def
    retire_def split: binding.split)

lemma engine_run_pending: "ls_binding (en_lease e) \<noteq> BD_Pending \<Longrightarrow> ls_binding (en_lease (engine_run e xs)) \<noteq> BD_Pending"
  by (induction xs arbitrary: e) (simp_all add: engine_step_pending)

lemma engine_step_owed: "en_displaced (engine_step e x) = en_displaced e"
  by (cases x) (auto simp: engine_focus_def note_client_def expire_def task_wakes_def surrounding_def activated_current_def engine_activated_def
    engine_wrote_def retire_def Let_def split: binding.split option.split focus_change.split)

lemma engine_run_owed [simp]: "en_displaced (engine_run e xs) = en_displaced e"
  by (induction xs arbitrary: e) (simp_all add: engine_step_owed)

text \<open>An engine at rest: no lease held and no restore owed.\<close>

definition at_rest :: "engine \<Rightarrow> bool" where
  "at_rest e \<longleftrightarrow> ls_binding (en_lease e) = BD_Lost \<and> en_displaced e = None"

lemma at_rest_run: "at_rest e \<Longrightarrow> at_rest (engine_run e xs)"
  by (simp add: at_rest_def lost_stays_run)

abbreviation lease_id :: "bus_run \<Rightarrow> nat" where
  "lease_id r \<equiv> ls_id (en_lease (br_engine r))"

lemma await_engine: "\<exists>xs. br_engine (await r) = engine_run (br_engine r) xs"
  by (cases "br_awaits r") (auto simp: await_def intro: exI [of _ "[]"])

lemma answer_engine: "\<exists>xs. br_engine (snd (answer r)) = engine_run (br_engine r) xs"
  using await_engine [of r] await_engine [of "r\<lparr>br_answers := tl (br_answers r)\<rparr>"]
  by (cases "br_answers r") (auto simp: answer_def)

lemma send_engine: "\<exists>xs. br_engine (snd (send sig seen r)) = engine_run (br_engine r) xs"
  using answer_engine [of "r\<lparr>br_log := br_log r @ [(sig, seen)]\<rparr>"] by (simp add: send_def)

lemma global_engine: "\<exists>xs. br_engine (snd (global_engine_of r)) = engine_run (br_engine r) xs"
  using answer_engine [of r] by (simp add: global_engine_of_def split_beta)

text \<open>What the target's own operations do to the engine are engine events as well.\<close>

definition engine_moves :: "bus_run \<Rightarrow> bus_run \<Rightarrow> bool" where
  "engine_moves r r' \<longleftrightarrow> (\<exists>xs. br_engine r' = engine_run (br_engine r) xs)"

lemma engine_moves_refl: "br_engine r' = br_engine r \<Longrightarrow> engine_moves r r'"
  unfolding engine_moves_def by (intro exI [of _ "[]"]) simp

lemma engine_moves_trans: "engine_moves r r' \<Longrightarrow> engine_moves r' r'' \<Longrightarrow> engine_moves r r''"
  unfolding engine_moves_def by (metis engine_run_simps(3))

lemma engine_moves_send: "engine_moves r (snd (send sig seen r))" "engine_moves r (snd (global_engine_of r))" "engine_moves r (await r)"
    "engine_moves r (snd (answer r))"
  using send_engine global_engine await_engine answer_engine by (auto simp: engine_moves_def)

lemma engine_moves_with: "engine_moves r (with_engine (engine_wrote i) r)"
    "engine_moves r (with_engine (\<lambda>e. snd (retire i e)) r)"
proof -
  show "engine_moves r (with_engine (engine_wrote i) r)"
    unfolding engine_moves_def with_engine_def by (intro exI [of _ "[EE_Wrote i]"]) simp
  show "engine_moves r (with_engine (\<lambda>e. snd (retire i e)) r)"
    unfolding engine_moves_def with_engine_def by (intro exI [of _ "[EE_Retire i]"]) simp
qed

lemma hide_preedit_moves: "engine_moves r (snd (hide_preedit t r))"
  by (simp add: hide_preedit_def engine_moves_send engine_moves_refl)

lemma send_pieces_moves: "engine_moves r (snd (send_pieces e ps r))"
proof (induction ps arbitrary: r)
  case Nil
  then show ?case by (simp add: engine_moves_refl)
next
  case (Cons p ps)
  obtain a r1 where a: "send (IS_Commit p) e r = (a, r1)" by fastforce
  have "engine_moves r r1" using engine_moves_send(1) [of r "IS_Commit p" e] a by simp
  with Cons [of r1] a show ?case by (cases a) (auto intro: engine_moves_trans)
qed

lemma write_text_moves: "engine_moves r (snd (snd (write_text s t r)))"
proof -
  obtain t1 r1 where h: "hide_preedit t r = (t1, r1)" by fastforce
  let ?r2 = "with_engine (engine_wrote (tg_lease t1)) r1"
  have "engine_moves r r1" using hide_preedit_moves [of r t] h by simp
  then have "engine_moves r ?r2" using engine_moves_with(1) engine_moves_trans by blast
  then have "engine_moves r (snd (send_pieces (br_engine r1) ps ?r2))" for ps using send_pieces_moves engine_moves_trans by blast
  with h \<open>engine_moves r r1\<close> show ?thesis by (auto simp: write_text_def Let_def split: prod.splits) (metis snd_conv)
qed

lemma write_all_moves: "engine_moves r (snd (snd (write_all ss t r)))"
proof (induction ss arbitrary: t r)
  case Nil
  then show ?case by (simp add: engine_moves_refl)
next
  case (Cons s ss)
  obtain e1 t1 r1 where w: "write_text s t r = (e1, t1, r1)" by (cases "write_text s t r") auto
  have "engine_moves r r1" using write_text_moves [of r s t] w by simp
  with Cons [of r1 t1] w show ?case by (cases e1) (auto intro: engine_moves_trans)
qed

lemma show_preedit_moves: "engine_moves r (snd (show_preedit s t r))"
proof -
  let ?r = "with_engine (engine_wrote (tg_lease t)) r"
  have "engine_moves r (snd (send sig e ?r))" for sig e
    using engine_moves_with(1) engine_moves_send(1) engine_moves_trans by blast
  then show ?thesis
    by (auto simp: show_preedit_def Let_def hide_preedit_moves engine_moves_refl split: prod.splits sum.splits) (metis snd_conv)+
qed

lemma flush_moves: "engine_moves r (snd (snd (flush t r)))"
proof -
  obtain e1 t1 r1 where w: "write_all (tg_held t) (t\<lparr>tg_held := []\<rparr>) r = (e1, t1, r1)"
    by (cases "write_all (tg_held t) (t\<lparr>tg_held := []\<rparr>) r") auto
  have "engine_moves r r1" using write_all_moves [of r "tg_held t" "t\<lparr>tg_held := []\<rparr>"] w by simp
  with w show_preedit_moves [of r1] show ?thesis
    by (auto simp: flush_def split_beta split: option.split intro: engine_moves_trans)
qed

lemma wait_standing_moves: "wait_standing sure i e awaits = Some (now, e', awaits') \<Longrightarrow> \<exists>xs. e' = engine_run e xs"
proof (induction sure i e awaits rule: wait_standing.induct)
  case (1 sure i e awaits)
  have "(\<exists>xs. e' = engine_run (engine_run e es) xs) \<Longrightarrow> \<exists>xs. e' = engine_run e xs" for es
    by (metis engine_run_simps(3))
  with 1 show ?case
    by (subst (asm) (3) wait_standing.simps) (auto split: option.splits list.splits if_splits intro: exI [of _ "[]"])
qed

lemma engine_standing_moves: "engine_standing sure i r = Some (now, r') \<Longrightarrow> engine_moves r r'"
  using wait_standing_moves by (fastforce simp: engine_standing_def engine_moves_def)

lemma target_taken_moves:
  assumes "target_taken t r = (a, t', r')"
  shows "a \<noteq> Inr True \<and> engine_moves r r' \<or> a = Inr True \<and> (\<exists>r1. engine_moves r r1 \<and> r' = with_engine (engine_taken (tg_lease t)) r1)"
proof -
  obtain g r1 where g: "global_engine_of r = (g, r1)" by fastforce
  have moves: "engine_moves r r1" using engine_moves_send(2) [of r] g by simp
  show ?thesis
  proof (cases g)
    case (Inl e)
    with assms g moves show ?thesis by (auto simp: target_taken_def)
  next
    case (Inr name)
    with assms g moves show ?thesis by (cases name) (auto simp: target_taken_def split: if_splits)
  qed
qed

lemma engine_moves_facts:
  assumes "engine_moves r r'"
  shows "lease_id r' = lease_id r" "en_displaced (br_engine r') = en_displaced (br_engine r)"
    "at_rest (br_engine r) \<Longrightarrow> at_rest (br_engine r')"
    "ls_binding (en_lease (br_engine r)) \<noteq> BD_Pending \<Longrightarrow> ls_binding (en_lease (br_engine r')) \<noteq> BD_Pending"
  using assms engine_run_pending by (auto simp: engine_moves_def at_rest_run)

text \<open>What a release hands back, unless another engine was found to have taken ours.\<close>

definition owed :: "ibus_target \<Rightarrow> bus_run \<Rightarrow> ustr option" where
  "owed t r = (if fst (target_taken t r) = Inr True then None else en_displaced (br_engine r))"

lemma target_taken_owed:
  assumes "target_taken t r = (a, t1, r1)"
  shows "en_displaced (br_engine r1) = owed t r" "lease_id r1 = lease_id r"
  using target_taken_moves [OF assms] engine_moves_facts(1,2) assms
  by (auto simp: owed_def with_engine_def engine_taken_def)

lemma release_end_spec:
  assumes "lease_id r = tg_lease t"
  shows "at_rest (br_engine (release_end t r)) \<and> (\<exists>r5 e. extends i r r5 []
     \<and> br_log (release_end t r) = br_log r5 @ (case en_displaced (br_engine r) of Some name \<Rightarrow> [(IS_SetGlobal name, e)] | None \<Rightarrow> []))"
proof -
  obtain retired e where ret: "retire (tg_lease t) (br_engine r) = (retired, e)" by fastforce
  define r1 where "r1 = r\<lparr>br_engine := e\<rparr>"
  define r2 where "r2 = (if tg_preedit_active t \<and> retired = RT_Held then snd (send IS_Hide (br_engine r1) r1) else r1)"
  have r1: "ls_binding (en_lease (br_engine r1)) = BD_Lost" "en_displaced (br_engine r1) = en_displaced (br_engine r)" "retired \<noteq> RT_Superseded"
    using ret assms by (auto simp: r1_def retire_def split: if_splits)
  have "engine_moves r1 r2" by (simp add: r2_def engine_moves_send engine_moves_refl)
  with r1 have r2: "ls_binding (en_lease (br_engine r2)) = BD_Lost" "en_displaced (br_engine r2) = en_displaced (br_engine r)"
    by (auto simp: engine_moves_def lost_stays_run)
  define r3 where "r3 = r2\<lparr>br_engine := (br_engine r2)\<lparr>en_displaced := None\<rparr>\<rparr>"
  have eq: "release_end t r = (case en_displaced (br_engine r) of Some name \<Rightarrow> snd (send (IS_SetGlobal name) (br_engine r3) r3) | None \<Rightarrow> r3)"
    unfolding release_end_def ret Let_def prod.case r1_def [symmetric] r2_def [symmetric] using r1(3) r2(2)
    by (cases "en_displaced (br_engine r)") (simp_all add: reclaim_def restores_def r3_def)
  have "at_rest (br_engine r3)" using r2 by (simp add: r3_def at_rest_def)
  then have "at_rest (br_engine (release_end t r))"
    unfolding eq using engine_moves_facts(3) [OF engine_moves_send(1)] by (simp split: option.split)
  moreover have "extends i r r2 []" by (auto simp: r2_def r1_def extends_def send_log)
  moreover have "br_log (release_end t r) = br_log r2 @ (case en_displaced (br_engine r) of Some name \<Rightarrow> [(IS_SetGlobal name, br_engine r3)] | None \<Rightarrow> [])"
    unfolding eq by (simp add: send_log r3_def split: option.split)
  ultimately show ?thesis by blast
qed

lemma release_spec:
  assumes "release t r = Some r'" and "lease_id r = tg_lease t"
  shows "at_rest (br_engine r') \<and> (\<exists>r5 x e. extends (tg_lease t) r r5 x \<and> prefix x (concat (tg_held t))
     \<and> br_log r' = br_log r5 @ (case owed t r of Some name \<Rightarrow> [(IS_SetGlobal name, e)] | None \<Rightarrow> []))"
proof -
  obtain a t1 r1 where tk: "target_taken t r = (a, t1, r1)" by (cases "target_taken t r") auto
  note taken = target_taken_extends [OF tk, of "tg_lease t"] and owe = target_taken_owed [OF tk]
  obtain now r2 where st: "engine_standing True (tg_lease t1) r1 = Some (now, r2)"
    using assms(1) tk by (auto simp: release_def split: option.splits)
  define p where "p = (if now = SD_Held then snd (flush t1 r2) else (t1, r2))"
  obtain t3 r3 where p: "p = (t3, r3)" by fastforce
  have held1: "prefix (concat (tg_held t1)) (concat (tg_held t))" using taken by (auto split: if_splits)
  have "\<exists>x. extends (tg_lease t) r2 r3 x \<and> prefix x (concat (tg_held t)) \<and> tg_lease t3 = tg_lease t \<and> engine_moves r2 r3"
  proof (cases "now = SD_Held")
    case True
    obtain err where fl: "flush t1 r2 = (err, t3, r3)" using p True by (cases "flush t1 r2") (simp add: p_def)
    from flush_extends [OF fl] flush_moves [of r2 t1] fl taken held1 show ?thesis by (auto intro: prefix_order.trans)
  next
    case False
    with p taken show ?thesis by (auto simp: p_def intro: extends_refl engine_moves_refl)
  qed
  then obtain x where x: "extends (tg_lease t) r2 r3 x" "prefix x (concat (tg_held t))" "tg_lease t3 = tg_lease t" and m3: "engine_moves r2 r3"
    by blast
  have r2: "extends (tg_lease t) r r2 []" using taken standing_log [OF st] by (auto intro: extends_log)
  have x3: "extends (tg_lease t) r r3 x" using extends_trans [OF r2 x(1)] by simp
  note facts = engine_moves_facts [OF engine_moves_trans [OF engine_standing_moves [OF st] m3]]
  have r': "r' = release_end t3 r3" using assms(1) tk st p by (simp add: release_def p_def)
  have "lease_id r3 = tg_lease t3" "en_displaced (br_engine r3) = owed t r" using facts(1,2) owe assms(2) x(3) by simp_all
  from release_end_spec [OF this(1), of "tg_lease t"] this(2) extends_quiet [OF x3] x(2) show ?thesis unfolding r' by auto
qed

text \<open>
  C11: a release ends the lease and hands the input method back exactly once: afterwards no
  lease is held and nothing is owed; the input method the acquire displaced is made global
  again by the last thing sent, unless another engine was found to have taken ours, which
  then stays; and before it only held text goes out, each piece let through by a check.
\<close>

theorem release_hands_back:
  assumes "release t r = Some r'" and "lease_id r = tg_lease t"
  shows "at_rest (br_engine r') \<and> (\<exists>r5 x e. extends (tg_lease t) r r5 x \<and> prefix x (concat (tg_held t))
     \<and> br_log r' = br_log r5 @ (case owed t r of Some name \<Rightarrow> [(IS_SetGlobal name, e)] | None \<Rightarrow> []))"
  by (rule release_spec [OF assms])

definition sample_owing :: bus_run where
  "sample_owing = sample_run\<lparr>br_engine := displace (Some (lit ''xkb:us'')) sample_engine\<rparr>"

theorem release_hands_back_witness:
  "\<exists>r' e log. release sample_target sample_owing = Some r' \<and> at_rest (br_engine r') \<and> br_log r' = log @ [(IS_SetGlobal (lit ''xkb:us''), e)]"
proof -
  have "release sample_target sample_owing \<noteq> None" by code_simp
  then obtain r' where r': "release sample_target sample_owing = Some r'" by blast
  have i: "lease_id sample_owing = tg_lease sample_target" by code_simp
  have "owed sample_target sample_owing = Some (lit ''xkb:us'')" by code_simp
  with release_hands_back [OF r' i] r' show ?thesis by auto
qed

section \<open>Acquiring is all or nothing\<close>

lemma answer_cases: obtains a r' where "answer r = (a, r')" "engine_moves r r'"
  using engine_moves_send(4) [of r] by (cases "answer r") simp

lemma send_cases: obtains a r' where "send sig e r = (a, r')" "engine_moves r r'"
  using engine_moves_send(1) [of r sig e] by (cases "send sig e r") simp

lemma global_cases: obtains a r' where "global_engine_of r = (a, r')" "engine_moves r r'"
  using engine_moves_send(2) [of r] by (cases "global_engine_of r") simp

lemma taken_rest: "ls_id (en_lease e) = i \<Longrightarrow> at_rest (engine_taken i e)"
  by (auto simp: at_rest_def engine_taken_def holds_def held_by_def)

text \<open>A target fresh from a switch: its lease is the engine's, and no longer pending.\<close>

definition fresh_target :: "ibus_target \<Rightarrow> bus_run \<Rightarrow> bool" where
  "fresh_target t r \<longleftrightarrow> t = target_new (lease_id r) \<and> ls_binding (en_lease (br_engine r)) \<noteq> BD_Pending \<and> en_displaced (br_engine r) \<noteq> Some ENGINE_NAME"

lemma fresh_target_moves: "fresh_target t r \<Longrightarrow> engine_moves r r' \<Longrightarrow> fresh_target t r'"
  using engine_moves_facts by (auto simp: fresh_target_def)

lemma displace_owed: "en_displaced e \<noteq> Some ENGINE_NAME \<Longrightarrow> en_displaced (displace d e) \<noteq> Some ENGINE_NAME"
    "en_lease (displace d e) = en_lease e"
  by (auto simp: displace_def split: option.split)

lemma wait_arrived_moves: "wait_arrived i deadline e awaits = Some (e', awaits') \<Longrightarrow> \<exists>xs. e' = engine_run e xs"
proof (induction i deadline e awaits rule: wait_arrived.induct)
  case (1 i deadline e)
  then show ?case by (auto split: if_splits intro: exI [of _ "[]"])
next
  case (2 i deadline e es rest)
  then show ?case by (auto split: if_splits intro: exI [of _ "[]"]) (metis engine_run_simps(3))
qed

lemma focus_waits_moves: "focus_waits i started e awaits = Some (e', awaits') \<Longrightarrow> \<exists>xs. e' = engine_run e xs"
proof (induction i started e awaits rule: focus_waits.induct)
  case (1 i started e awaits)
  have step: "(\<exists>xs. e' = engine_run (engine_run e es) xs) \<Longrightarrow> \<exists>xs. e' = engine_run e xs" for es
    by (metis engine_run_simps(3))
  have wait: "wait_arrived i d (engine_run e es) rest = Some (e1, awaits1) \<Longrightarrow> \<exists>xs. e' = engine_run e1 xs \<Longrightarrow> \<exists>xs. e' = engine_run e xs"
    for d es rest e1 awaits1 using wait_arrived_moves by (metis engine_run_simps(3))
  from 1 show ?case
    by (subst (asm) (3) focus_waits.simps) (auto simp: Let_def split: option.splits list.splits if_splits
        intro: exI [of _ "[]"] step wait)
qed

lemma await_focus_moves: "await_focus i r = Some r' \<Longrightarrow> engine_moves r r'"
proof -
  assume "await_focus i r = Some r'"
  then obtain e awaits e' awaits' where
    "wait_arrived i (en_now (br_engine r) + FOCUS_WAIT) (br_engine r) (br_awaits r) = Some (e, awaits)"
    "focus_waits i (en_now (br_engine r)) e awaits = Some (e', awaits')" "br_engine r' = e'"
    by (auto simp: await_focus_def Let_def split: option.splits)
  then show ?thesis using wait_arrived_moves focus_waits_moves unfolding engine_moves_def by (metis engine_run_simps(3))
qed

lemma global_engine_name_moves: "global_engine_name r = (now, r') \<Longrightarrow> engine_moves r r'"
  using engine_moves_send(2) [of r] by (auto simp: global_engine_name_def split_beta)

lemma switched_since_moves: "switched_since before deadline r = Some (now, r') \<Longrightarrow> engine_moves r r'"
proof (induction before deadline r rule: switched_since.induct)
  case (1 before deadline r)
  obtain n r1 where g: "global_engine_name r = (n, r1)" by fastforce
  note m = global_engine_name_moves [OF g]
  from "1.prems" g consider "r' = r1" | "n = before" "\<not> deadline \<le> en_now (br_engine r1)" "br_awaits r1 \<noteq> []"
      "switched_since before deadline (await r1) = Some (now, r')"
    by (subst (asm) switched_since.simps) (auto split: if_splits)
  then show ?case
  proof cases
    case 1
    with m show ?thesis by simp
  next
    case 2
    then have "engine_moves (await r1) r'" using "1.IH" [OF g [symmetric]] by simp
    with m engine_moves_send(3) show ?thesis using engine_moves_trans by blast
  qed
qed

lemma switch_spec:
  assumes "at_rest (br_engine r)" and "switch displaced r = Some (s, r')"
  shows "case s of Inr t \<Rightarrow> fresh_target t r' | Inl _ \<Rightarrow> at_rest (br_engine r')"
proof -
  define r1 where "r1 = with_engine (\<lambda>e. mint (e\<lparr>en_content_type := content_type_default\<rparr>)) r"
  have owe1: "en_displaced (br_engine r1) = None" using assms(1) by (simp add: r1_def with_engine_def mint_def at_rest_def)
  obtain a r2 where a: "send (IS_SetGlobal ENGINE_NAME) (br_engine r1) r1 = (a, r2)" and m2: "engine_moves r1 r2" by (rule send_cases)
  note f2 = engine_moves_facts(1,2) [OF m2]
  show ?thesis
  proof (cases a)
    case (Inl err)
    have "at_rest (snd (retire (lease_id r1) (br_engine r2)))" using f2 owe1 by (simp add: at_rest_def retire_def)
    with Inl a assms(2) show ?thesis by (simp add: switch_def Let_def r1_def [symmetric]) (auto simp: with_engine_def)
  next
    case (Inr name)
    obtain r3 where w: "await_focus (lease_id r1) (with_engine (displace displaced) r2) = Some r3"
      using Inr a assms(2)
      by (cases "await_focus (lease_id r1) (with_engine (displace displaced) r2)") (simp_all add: switch_def Let_def r1_def [symmetric])
    obtain received e where f: "focus_arrived (lease_id r1) (br_engine r3) = (received, e)" by fastforce
    define r4 where "r4 = r3\<lparr>br_engine := e\<rparr>"
    from engine_moves_facts(1,2) [OF await_focus_moves [OF w]] f2 owe1 displace_owed(1) [of "br_engine r2" displaced] displace_owed(2)
    have "lease_id r3 = lease_id r1" "en_displaced (br_engine r3) \<noteq> Some ENGINE_NAME" by (auto simp: with_engine_def)
    with f have "fresh_target (target_new (lease_id r1)) r4" by (auto simp: r4_def focus_arrived_def fresh_target_def split: if_splits)
    moreover have "s = Inr (target_new (lease_id r1))" "r' = (if received then await r4 else r4)"
      using Inr a f w assms(2) by (auto simp: switch_def Let_def r1_def [symmetric] r4_def)
    ultimately show ?thesis using fresh_target_moves [OF _ engine_moves_send(3)] by auto
  qed
qed

lemma fresh_release: "fresh_target t r \<Longrightarrow> release t r = Some r' \<Longrightarrow> at_rest (br_engine r')"
  by (rule release_spec [THEN conjunct1]) (auto simp: fresh_target_def target_new_def)

lemma acquire_round_spec:
  assumes "at_rest (br_engine r)" and "acquire_round n before displaced r = Some (res, r')"
  shows "case res of AR_Ours t \<Rightarrow> fresh_target t r' | _ \<Rightarrow> at_rest (br_engine r')"
proof -
  obtain s r1 where s: "switch displaced r = Some (s, r1)"
    using assms(2) by (cases "switch displaced r") (auto simp: acquire_round_def)
  note spec = switch_spec [OF assms(1) s]
  show ?thesis
  proof (cases s)
    case (Inl err)
    then obtain now r2 where g: "switched_since before (en_now (br_engine r1) + FOCUS_WAIT) r1 = Some (now, r2)"
        and "r' = r2" "res = (if reclaims n (SW_Failed before) now then AR_Again now else AR_Failed err)"
      using assms(2) s by (auto simp: acquire_round_def)
    moreover have "at_rest (br_engine r2)" using spec Inl engine_moves_facts(3) [OF switched_since_moves [OF g]] by simp
    ultimately show ?thesis by simp
  next
    case (Inr t)
    obtain g r2 where g: "global_engine_of r1 = (g, r2)" and m: "engine_moves r1 r2" by (rule global_cases)
    have fresh: "fresh_target t r2" using spec Inr fresh_target_moves [OF _ m] by simp
    have "at_rest (br_engine (with_engine (engine_taken (tg_lease t)) r2))"
      using fresh taken_rest [of "br_engine r2"] by (simp add: fresh_target_def target_new_def with_engine_def)
    with assms(2) s g Inr fresh fresh_release [OF fresh] show ?thesis
      by (cases g) (auto simp: acquire_round_def split: if_splits)
  qed
qed

lemma acquire_loop_spec:
  "at_rest (br_engine r) \<Longrightarrow> acquire_loop n before displaced r = Some (res, r') \<Longrightarrow>
     (case res of Inr t \<Rightarrow> fresh_target t r' | Inl _ \<Rightarrow> at_rest (br_engine r'))"
proof (induction n before displaced r rule: acquire_loop.induct)
  case (1 n before displaced r)
  show ?case
  proof (cases "acquire_round n before displaced r")
    case None
    with "1.prems"(2) show ?thesis by (subst (asm) acquire_loop.simps) simp
  next
    case (Some p)
    obtain x r1 where p: "p = (x, r1)" by fastforce
    note spec = acquire_round_spec [OF "1.prems"(1) Some [unfolded p]]
    show ?thesis
    proof (cases x)
      case (AR_Again now)
      with Some p "1.prems"(2) have "acquire_loop (n + 1) before now r1 = Some (res, r')" by (subst (asm) acquire_loop.simps) simp
      with "1.IH" [OF Some p [symmetric] AR_Again] spec AR_Again show ?thesis by simp
    qed (use Some p "1.prems"(2) spec in \<open>auto simp: acquire_loop.simps [of n]\<close>)
  qed
qed

lemma left_settled_spec:
  "left_settled i e awaits = Some (e', awaits') \<Longrightarrow> (\<exists>xs. e' = engine_run e xs) \<and> \<not> is_left i e'"
proof (induction i e awaits rule: left_settled.induct)
  case (1 i e)
  then show ?case by (auto split: if_splits intro: exI [of _ "[]"])
next
  case (2 i e es rest)
  show ?case
  proof (cases "is_left i e")
    case True
    with 2 show ?thesis by simp (metis engine_run_simps(3))
  next
    case False
    with "2.prems" show ?thesis by (auto intro: exI [of _ "[]"])
  qed
qed

text \<open>
  C7: acquiring is all or nothing. Begun with no lease held and nothing owed, it ends with a
  target whose lease is held, is past waiting for its first focus, has not stranded on the
  daemon's placeholder, and whose field is not known to be secure, with nothing held back and
  never our own engine as the one to restore; or it fails and again no lease is held and
  nothing is owed. That is so however often another engine takes ours meanwhile.
\<close>

theorem acquire_all_or_nothing:
  assumes "at_rest (br_engine r)" and "acquire r = Some (res, r')"
  shows "case res of
     Inr t \<Rightarrow> (let e = br_engine r' in
        holds e (tg_lease t) \<and> ls_binding (en_lease e) \<noteq> BD_Pending \<and> \<not> is_left (tg_lease t) e \<and> \<not> on_fake (tg_lease t) e
        \<and> \<not> is_secure (en_content_type e) \<and> tg_held t = [] \<and> en_displaced e \<noteq> Some ENGINE_NAME)
   | Inl _ \<Rightarrow> at_rest (br_engine r')"
proof -
  obtain before r1 where g: "global_engine_name r = (before, r1)" by fastforce
  have "engine_moves r r1" using g by (rule global_engine_name_moves)
  obtain a r2 where a: "send IS_Register (br_engine r1) r1 = (a, r2)" and "engine_moves r1 r2" by (rule send_cases)
  then have rest2: "at_rest (br_engine r2)" using assms(1) \<open>engine_moves r r1\<close> engine_moves_facts(3) by blast
  show ?thesis
  proof (cases a)
    case (Inl err)
    with assms(2) g a rest2 show ?thesis by (auto simp: acquire_def)
  next
    case (Inr name)
    obtain l r3 where l: "acquire_loop 1 before before r2 = Some (l, r3)"
      using assms(2) g a Inr by (cases "acquire_loop 1 before before r2") (auto simp: acquire_def)
    note spec = acquire_loop_spec [OF rest2 l]
    show ?thesis
    proof (cases l)
      case (Inl err)
      with assms(2) g a Inr l spec show ?thesis by (auto simp: acquire_def)
    next
      case t: (Inr t)
      then have fresh: "fresh_target t r3" using spec by simp
      have j: "acquire_judge t r3 = Some (res, r')" using assms(2) g a Inr l t by (simp add: acquire_def)
      obtain e awaits where s: "left_settled (tg_lease t) (br_engine r3) (br_awaits r3) = Some (e, awaits)"
        using j by (cases "left_settled (tg_lease t) (br_engine r3) (br_awaits r3)") (auto simp: acquire_judge_def)
      let ?r = "r3\<lparr>br_engine := e, br_awaits := awaits\<rparr>"
      from left_settled_spec [OF s] have "engine_moves r3 ?r" and left: "\<not> is_left (tg_lease t) e" by (auto simp: engine_moves_def)
      then have fresh': "fresh_target t ?r" using fresh fresh_target_moves by blast
      show ?thesis
        using j s left fresh' fresh_release [OF fresh']
        by (auto simp: acquire_judge_def refuse_def Let_def fresh_target_def target_new_def split: if_splits)
    qed
  qed
qed

definition sample_acquire :: bus_run where
  "sample_acquire = \<lparr>br_engine = engine_new True 0, br_awaits = [[], [], [], [EE_Focus (FC_In (Some (field (lit ''/a''))))]],
     br_answers = [Inr (Some (lit ''xkb:us'')), Inr None, Inr None, Inr (Some ENGINE_NAME)], br_log = []\<rparr>"

theorem acquire_all_or_nothing_witness:
  "\<exists>t r'. acquire sample_acquire = Some (Inr t, r') \<and> holds (br_engine r') (tg_lease t)
     \<and> \<not> is_secure (en_content_type (br_engine r')) \<and> en_displaced (br_engine r') = Some (lit ''xkb:us'')"
proof -
  have ok: "acquire sample_acquire \<noteq> None \<and> (case fst (the (acquire sample_acquire)) of Inr _ \<Rightarrow> True | Inl _ \<Rightarrow> False)
      \<and> en_displaced (br_engine (snd (the (acquire sample_acquire)))) = Some (lit ''xkb:us'')" by code_simp
  then obtain t r' where a: "acquire sample_acquire = Some (Inr t, r')" "en_displaced (br_engine r') = Some (lit ''xkb:us'')"
    by (auto split: sum.splits)
  have "at_rest (br_engine sample_acquire)" by code_simp
  from acquire_all_or_nothing [OF this a(1)] a show ?thesis by (simp add: Let_def)
qed

text \<open>
  Only the first piece of a split commit follows a check: with focus gone to another field
  after it, the rest still goes out.
\<close>

lemma piece_after_loss:
  "let r = sample_run\<lparr>br_awaits := [[EE_Focus (FC_In (Some (field (lit ''/b''))))]]\<rparr>;
       r' = snd (send_pieces sample_engine [lit ''one '', lit ''two''] r)
   in map fst (br_log r') = [IS_Commit (lit ''one ''), IS_Commit (lit ''two'')]
      \<and> \<not> holds (br_engine (snd (send (IS_Commit (lit ''one '')) sample_engine r))) 1"
  by code_simp

section \<open>Connecting on demand\<close>

text \<open>
  \<open>LazyInjector\<close> over any backend: \<open>connect\<close> opens a connection and \<open>acq\<close> acquires on one.
  It keeps the connection it last opened.
\<close>

definition reconnect :: "('w \<Rightarrow> (inject_error + 'c) \<times> 'w) \<Rightarrow> 'w \<Rightarrow> inject_error option \<times> 'c option \<times> 'w" where
  "reconnect cn w = (case cn w of (Inl e, w') \<Rightarrow> (Some e, None, w') | (Inr c, w') \<Rightarrow> (None, Some c, w'))"

definition note_error :: "inject_error \<Rightarrow> 'c option \<Rightarrow> 'c option" where
  "note_error e inner = (case e of IE_Unavailable _ \<Rightarrow> None | _ \<Rightarrow> inner)"

definition noted :: "(inject_error + 't) \<times> 'c \<times> 'w \<Rightarrow> (inject_error + 't) \<times> 'c option \<times> 'w" where
  "noted p = (case p of (Inl e, c, w) \<Rightarrow> (Inl e, note_error e (Some c), w) | (Inr t, c, w) \<Rightarrow> (Inr t, Some c, w))"

definition lazy_acquire :: "('w \<Rightarrow> (inject_error + 'c) \<times> 'w) \<Rightarrow> ('c \<Rightarrow> 'w \<Rightarrow> (inject_error + 't) \<times> 'c \<times> 'w) \<Rightarrow> 'c option \<Rightarrow> 'w
    \<Rightarrow> (inject_error + 't) \<times> 'c option \<times> 'w" where
  "lazy_acquire cn acq inner w =
     (case inner of
        Some c \<Rightarrow>
          (case acq c w of
             (Inl (IE_Unavailable _), _, w1) \<Rightarrow>
               (case reconnect cn w1 of
                  (None, Some c', w2) \<Rightarrow> noted (acq c' w2)
                | (Some e, inner', w2) \<Rightarrow> (Inl e, inner', w2)
                | (None, None, w2) \<Rightarrow> (Inl IE_NoTarget, None, w2))
           | p \<Rightarrow> noted p)
      | None \<Rightarrow>
          (case reconnect cn w of
             (None, Some c, w1) \<Rightarrow> noted (acq c w1)
           | (Some e, inner', w1) \<Rightarrow> (Inl e, inner', w1)
           | (None, None, w1) \<Rightarrow> (Inl IE_NoTarget, None, w1)))"

lemma reconnect_answers: "reconnect cn w = (None, inner, w') \<Longrightarrow> inner \<noteq> None"
  by (auto simp: reconnect_def split: prod.splits sum.splits)

lemma noted_spec:
  "noted p = (res, inner, w) \<Longrightarrow> (case res of Inl (IE_Unavailable _) \<Rightarrow> inner = None | _ \<Rightarrow> inner = Some (fst (snd p))) \<and> res = fst p \<and> w = snd (snd p)"
  by (auto simp: noted_def note_error_def split: prod.splits sum.splits inject_error.splits)

text \<open>
  A press meets a live connection if there is one to be had. With a connection held that
  turns out dead, the same press reconnects once and acquires on the new one; a backend found
  unreachable is let go, so that the next press connects afresh; every other answer keeps the
  connection it came from.
\<close>

theorem lazy_acquire_reconnects:
  assumes "lazy_acquire cn acq inner w = (res, inner', w')"
  shows "(\<forall>c. inner = Some c \<and> (\<nexists>why. fst (acq c w) = Inl (IE_Unavailable why)) \<longrightarrow>
            res = fst (acq c w) \<and> inner' = Some (fst (snd (acq c w))) \<and> w' = snd (snd (acq c w)))
       \<and> (\<forall>c why. inner = Some c \<and> fst (acq c w) = Inl (IE_Unavailable why) \<longrightarrow>
            lazy_acquire cn acq None (snd (snd (acq c w))) = (res, inner', w'))
       \<and> (\<forall>c w1. inner = None \<and> cn w = (Inr c, w1) \<longrightarrow> res = fst (acq c w1) \<and> w' = snd (snd (acq c w1))
            \<and> (inner' = None) = (\<exists>why. res = Inl (IE_Unavailable why)))
       \<and> (\<forall>e w1. inner = None \<and> cn w = (Inl e, w1) \<longrightarrow> res = Inl e \<and> inner' = None \<and> w' = w1)"
proof -
  have n: "noted p = (res, inner', w') \<Longrightarrow> res = fst p \<and> w' = snd (snd p)
      \<and> (inner' = None) = (\<exists>why. res = Inl (IE_Unavailable why)) \<and> (inner' \<noteq> None \<longrightarrow> inner' = Some (fst (snd p)))" for p :: "(inject_error + 'a) \<times> 'b \<times> 'c"
    by (drule noted_spec) (auto split: sum.splits inject_error.splits)
  show ?thesis
  proof (cases inner)
    case None
    with assms n show ?thesis by (auto simp: lazy_acquire_def reconnect_def split: prod.splits sum.splits)
  next
    case (Some c)
    obtain a c' w1 where a: "acq c w = (a, c', w1)" by (cases "acq c w") auto
    show ?thesis
    proof (cases "\<exists>why. a = Inl (IE_Unavailable why)")
      case True
      with assms Some a show ?thesis by (auto simp: lazy_acquire_def)
    next
      case False
      then have "lazy_acquire cn acq inner w = noted (a, c', w1)"
        using Some a by (auto simp: lazy_acquire_def split: sum.splits inject_error.splits)
      with assms n [of "(a, c', w1)"] False Some a show ?thesis by auto
    qed
  qed
qed

text \<open>A connection that is dead, and a fresh one that answers.\<close>

definition sample_connect :: "nat \<Rightarrow> (inject_error + nat) \<times> nat" where
  "sample_connect n = (Inr (n + 1), n + 1)"

definition sample_acq :: "nat \<Rightarrow> nat \<Rightarrow> (inject_error + nat) \<times> nat \<times> nat" where
  "sample_acq c n = (if c = 0 then Inl (IE_Unavailable []) else Inr c, c, n)"

theorem lazy_acquire_reconnects_witness:
  "lazy_acquire sample_connect sample_acq (Some 0) 0 = (Inr 1, Some 1, 1)
   \<and> lazy_acquire sample_connect sample_acq None 0 = (Inr 1, Some 1, 1)"
proof -
  have "lazy_acquire sample_connect sample_acq (Some 0) 0 = (Inr 1, Some 1, 1)" by code_simp
  moreover from lazy_acquire_reconnects [OF this] have "lazy_acquire sample_connect sample_acq None 0 = (Inr 1, Some 1, 1)"
    by (simp add: sample_acq_def)
  ultimately show ?thesis by simp
qed

end
