(* ===== verification/Json.thy ===== *)
theory Json
  imports Myna_Prelude
begin

text \<open>
  A \<open>serde_json\<close> value, with the constructors and accessors the sources use. Parsing, printing and
  the derived codecs of the crate are parameters of the theories that use them.
\<close>

section \<open>JSON values\<close>

datatype json_number = JN_Pos u64 | JN_Neg u64 | JN_Float u64

datatype json =
    JNull
  | JBool bool
  | JNumber json_number
  | JString ustr
  | JArray "json list"
  | JObject "(ustr \<times> json) list"

fun json_get :: "ustr \<Rightarrow> json \<Rightarrow> json option" where
  "json_get k (JObject m) = map_of m k"
| "json_get k _ = None"

fun as_str :: "json \<Rightarrow> ustr option" where
  "as_str (JString s) = Some s"
| "as_str _ = None"

fun as_u64 :: "json \<Rightarrow> u64 option" where
  "as_u64 (JNumber (JN_Pos n)) = Some n"
| "as_u64 _ = None"

fun as_bool :: "json \<Rightarrow> bool option" where
  "as_bool (JBool b) = Some b"
| "as_bool _ = None"

fun is_array :: "json \<Rightarrow> bool" where
  "is_array (JArray _) = True"
| "is_array _ = False"

text \<open>\<open>Value::pointer\<close> on a path of keys none of which is an array index.\<close>

fun json_pointer :: "ustr list \<Rightarrow> json \<Rightarrow> json option" where
  "json_pointer [] v = Some v"
| "json_pointer (k # ks) v = Option.bind (json_get k v) (json_pointer ks)"

definition get_str :: "ustr \<Rightarrow> json \<Rightarrow> ustr option" where
  "get_str k v = Option.bind (json_get k v) as_str"

text \<open>Indexing with \<open>[k]\<close>, which is null where there is no such key.\<close>

definition json_index :: "json \<Rightarrow> ustr \<Rightarrow> json" where
  "json_index v k = (case json_get k v of Some x \<Rightarrow> x | None \<Rightarrow> JNull)"

lemma bind_here [simp]: "Option.bind x (json_pointer []) = x"
  by (cases x) simp_all

end
