(* ===== verification/Wire.thy ===== *)
theory Wire
  imports Driver Json
begin

text \<open>
  The wire of a session: the transcript events on it (\<open>client/myna-core/src/events.rs\<close>), the
  frames of the two dialects and the opening of a session in each
  (\<open>client/myna-orchestrator/src/backend/ws_unix.rs\<close>, \<open>ws_unix_ie115.rs\<close>). Parsing and printing
  JSON, the derived codecs of the payload types and base64 are the fields of \<open>json_lib\<close>.
\<close>

section \<open>Libraries\<close>

text \<open>What the sources take of \<open>serde\<close>, \<open>serde_json\<close> and \<open>base64\<close>; a parse that fails says why.\<close>

datatype 'c server_control = SV_SessionCreated ustr | SV_Capabilities 'c

record 'c json_lib =
  jl_parse :: "ustr \<Rightarrow> ustr + json"
  jl_print :: "json \<Rightarrow> ustr"
  jl_progress :: "json \<Rightarrow> ustr + progress"
  jl_final :: "json \<Rightarrow> ustr + transcription_final"
  jl_error :: "json \<Rightarrow> ustr + error_data"
  jl_of_progress :: "progress \<Rightarrow> json"
  jl_of_final :: "transcription_final \<Rightarrow> json"
  jl_of_error :: "error_data \<Rightarrow> json"
  jl_config :: "session_config \<Rightarrow> json"
  jl_server_control :: "ustr \<Rightarrow> ustr + 'c server_control"
  jl_debug_control :: "'c server_control \<Rightarrow> ustr"
  jl_base64 :: "byte list \<Rightarrow> ustr"

section \<open>Transcript events\<close>

definition EVENT_PROGRESS :: ustr where "EVENT_PROGRESS = lit ''transcription.progress''"
definition EVENT_FINAL :: ustr where "EVENT_FINAL = lit ''transcription.final''"
definition EVENT_DONE :: ustr where "EVENT_DONE = lit ''transcription.done''"
definition EVENT_ERROR :: ustr where "EVENT_ERROR = lit ''transcription.error''"

fun event_type :: "transcription_event \<Rightarrow> ustr" where
  "event_type (TE_Progress _) = EVENT_PROGRESS"
| "event_type (TE_Final _) = EVENT_FINAL"
| "event_type (TE_Done _) = EVENT_DONE"
| "event_type (TE_Error _) = EVENT_ERROR"

fun event_data :: "'c json_lib \<Rightarrow> transcription_event \<Rightarrow> json" where
  "event_data l (TE_Progress p) = jl_of_progress l p"
| "event_data l (TE_Final f) = jl_of_final l f"
| "event_data l (TE_Done f) = jl_of_final l f"
| "event_data l (TE_Error e) = jl_of_error l e"

definition to_wire :: "'c json_lib \<Rightarrow> transcription_event \<Rightarrow> json" where
  "to_wire l e = JObject [(lit ''event'', JString (event_type e)), (lit ''data'', event_data l e)]"

definition from_wire :: "'c json_lib \<Rightarrow> json \<Rightarrow> wire_error + transcription_event option" where
  "from_wire l wire =
     (case get_str (lit ''event'') wire of
        None \<Rightarrow> Inl NotAnEvent
      | Some event \<Rightarrow>
          (let data = (case json_get (lit ''data'') wire of None \<Rightarrow> JObject [] | Some JNull \<Rightarrow> JObject [] | Some v \<Rightarrow> v) in
           if event = EVENT_PROGRESS then map_sum BadData (\<lambda>p. Some (TE_Progress p)) (jl_progress l data)
           else if event = EVENT_FINAL then map_sum BadData (\<lambda>f. Some (TE_Final f)) (jl_final l data)
           else if event = EVENT_DONE then map_sum BadData (\<lambda>f. Some (TE_Done f)) (jl_final l data)
           else if event = EVENT_ERROR then map_sum BadData (\<lambda>e. Some (TE_Error e)) (jl_error l data)
           else Inr None))"

section \<open>Frames\<close>

datatype ws_message = WM_Text ustr | WM_Binary "byte list" | WM_Close | WM_Control

text \<open>What a read of the socket finds: a message, its end, or an error.\<close>

datatype incoming = IN_Frame ws_message | IN_End | IN_Error ustr

definition PROTOCOL_VERSION :: ustr where "PROTOCOL_VERSION = lit ''1''"

datatype client_control = SessionStart ustr session_config | SessionFinish | CapabilitiesQuery

fun client_control_json :: "'c json_lib \<Rightarrow> client_control \<Rightarrow> json" where
  "client_control_json l (SessionStart version config) =
     JObject [(lit ''type'', JString (lit ''session.start'')), (lit ''protocol_version'', JString version), (lit ''config'', jl_config l config)]"
| "client_control_json l SessionFinish = JObject [(lit ''type'', JString (lit ''session.finish''))]"
| "client_control_json l CapabilitiesQuery = JObject [(lit ''type'', JString (lit ''capabilities.query''))]"

definition text_of :: "'c json_lib \<Rightarrow> json \<Rightarrow> ws_message" where
  "text_of l v = WM_Text (jl_print l v)"

subsection \<open>The internal dialect\<close>

fun internal_encode :: "'c json_lib \<Rightarrow> outbound \<Rightarrow> ws_message" where
  "internal_encode l (Ob_Audio chunk) = WM_Binary (chunk_data chunk)"
| "internal_encode l Ob_Finish = text_of l (client_control_json l SessionFinish)"

definition decode_event :: "'c json_lib \<Rightarrow> ustr \<Rightarrow> backend_error + transcription_event option" where
  "decode_event l t =
     (case jl_parse l t of
        Inl e \<Rightarrow> Inl (BE_Transport (lit ''bad JSON: '' @ e))
      | Inr v \<Rightarrow> if json_get (lit ''event'') v \<noteq> None then map_sum BE_Wire (\<lambda>x. x) (from_wire l v) else Inr None)"

definition internal_decode :: "'c json_lib \<Rightarrow> ustr \<Rightarrow> backend_error + transcription_event list" where
  "internal_decode l t = map_sum (\<lambda>e. e) (\<lambda>event. case event of None \<Rightarrow> [] | Some e \<Rightarrow> [e]) (decode_event l t)"

text \<open>The acknowledgement of a session, out of what arrives; \<open>None\<close> while none of it decides.\<close>

definition handshake_ack :: "'c json_lib \<Rightarrow> ustr \<Rightarrow> backend_error + ustr option" where
  "handshake_ack l t =
     (case jl_parse l t of
        Inl e \<Rightarrow> Inl (BE_Handshake (lit ''bad JSON: '' @ e))
      | Inr v \<Rightarrow>
          if get_str (lit ''type'') v = Some (lit ''session.created'') then Inr (get_str (lit ''protocol_version'') v)
          else if json_get (lit ''event'') v \<noteq> None then
            (case from_wire l v of
               Inl e \<Rightarrow> Inl (BE_Wire e)
             | Inr (Some (TE_Error err)) \<Rightarrow> Inl (BE_Rejected (err_code err) (err_message err))
             | Inr _ \<Rightarrow> Inl (BE_Handshake (lit ''transcript event before session.created'')))
          else Inl (BE_Handshake (lit ''unexpected frame: '' @ t)))"

fun read_handshake_ack :: "'c json_lib \<Rightarrow> incoming list \<Rightarrow> (backend_error + ustr option) option" where
  "read_handshake_ack l [] = None"
| "read_handshake_ack l (IN_Frame (WM_Text t) # _) = Some (handshake_ack l t)"
| "read_handshake_ack l (IN_Frame WM_Close # _) = Some (Inl BE_Closed)"
| "read_handshake_ack l (IN_End # _) = Some (Inl BE_Closed)"
| "read_handshake_ack l (IN_Error e # _) = Some (Inl (BE_Transport e))"
| "read_handshake_ack l (IN_Frame _ # rest) = read_handshake_ack l rest"

text \<open>
  What the socket does while a session opens: whether it connects and upgrades, whether the
  first frame goes out, and what arrives.
\<close>

record session_opening =
  op_connect :: "ustr + unit"
  op_upgrade :: "ustr + unit"
  op_sent :: "ustr + unit"
  op_incoming :: "incoming list"

text \<open>\<open>open_session\<close>: the frames it sent, and the acknowledged version.\<close>

definition open_internal :: "'c json_lib \<Rightarrow> ustr \<Rightarrow> session_config \<Rightarrow> session_opening \<Rightarrow> (ws_message list \<times> (backend_error + ustr option)) option" where
  "open_internal l path config op =
     (case op_connect op of
        Inl e \<Rightarrow> Some ([], Inl (BE_Connect (path @ lit '': '' @ e)))
      | Inr _ \<Rightarrow>
          (case op_upgrade op of
             Inl e \<Rightarrow> Some ([], Inl (BE_Handshake e))
           | Inr _ \<Rightarrow>
               (let start = text_of l (client_control_json l (SessionStart PROTOCOL_VERSION config)) in
                case op_sent op of
                  Inl e \<Rightarrow> Some ([start], Inl (BE_Transport e))
                | Inr _ \<Rightarrow> map_option (Pair [start]) (read_handshake_ack l (op_incoming op)))))"

subsection \<open>Discovery\<close>

fun skip_greeting :: "incoming list \<Rightarrow> (backend_error + incoming list) option" where
  "skip_greeting [] = None"
| "skip_greeting (IN_Frame (WM_Text _) # rest) = Some (Inr rest)"
| "skip_greeting (IN_Frame WM_Close # _) = Some (Inl BE_Closed)"
| "skip_greeting (IN_End # _) = Some (Inl BE_Closed)"
| "skip_greeting (IN_Error e # _) = Some (Inl (BE_Transport e))"
| "skip_greeting (IN_Frame _ # rest) = skip_greeting rest"

definition capabilities_reply :: "'c json_lib \<Rightarrow> ustr \<Rightarrow> backend_error + 'c" where
  "capabilities_reply l t =
     (case jl_server_control l t of
        Inr (SV_Capabilities data) \<Rightarrow> Inr data
      | Inr other \<Rightarrow> Inl (BE_Handshake (lit ''expected capabilities, got '' @ jl_debug_control l other))
      | Inl e \<Rightarrow> Inl (BE_Handshake (lit ''bad JSON: '' @ e)))"

fun read_capabilities :: "'c json_lib \<Rightarrow> incoming list \<Rightarrow> (backend_error + 'c) option" where
  "read_capabilities l [] = None"
| "read_capabilities l (IN_Frame (WM_Text t) # _) = Some (capabilities_reply l t)"
| "read_capabilities l (IN_Frame WM_Close # _) = Some (Inl BE_Closed)"
| "read_capabilities l (IN_End # _) = Some (Inl BE_Closed)"
| "read_capabilities l (IN_Error e # _) = Some (Inl (BE_Transport e))"
| "read_capabilities l (IN_Frame _ # rest) = read_capabilities l rest"

definition query_capabilities_unbounded :: "'c json_lib \<Rightarrow> ustr \<Rightarrow> session_opening \<Rightarrow> (ws_message list \<times> (backend_error + 'c)) option" where
  "query_capabilities_unbounded l path op =
     (case op_connect op of
        Inl e \<Rightarrow> Some ([], Inl (BE_Connect (path @ lit '': '' @ e)))
      | Inr _ \<Rightarrow>
          (case op_upgrade op of
             Inl e \<Rightarrow> Some ([], Inl (BE_Handshake e))
           | Inr _ \<Rightarrow>
               (case skip_greeting (op_incoming op) of
                  None \<Rightarrow> None
                | Some (Inl e) \<Rightarrow> Some ([], Inl e)
                | Some (Inr rest) \<Rightarrow>
                    (let query = text_of l (client_control_json l CapabilitiesQuery) in
                     case op_sent op of
                       Inl e \<Rightarrow> Some ([query], Inl (BE_Transport e))
                     | Inr _ \<Rightarrow> map_option (Pair [query]) (read_capabilities l rest)))))"

text \<open>A query that is not answered in time is an error; \<open>timeout\<close> is how the duration prints.\<close>

definition query_capabilities_within :: "'c json_lib \<Rightarrow> ustr \<Rightarrow> ustr \<Rightarrow> session_opening \<Rightarrow> backend_error + 'c" where
  "query_capabilities_within l path timeout op =
     (case query_capabilities_unbounded l path op of
        Some (_, answer) \<Rightarrow> answer
      | None \<Rightarrow> Inl (BE_Transport (lit ''no capabilities reply within '' @ timeout)))"

section \<open>The IE115 dialect\<close>

definition SESSION_CREATED :: ustr where "SESSION_CREATED = lit ''session.created''"
definition SESSION_UPDATE :: ustr where "SESSION_UPDATE = lit ''session.update''"
definition INPUT_AUDIO_APPEND :: ustr where "INPUT_AUDIO_APPEND = lit ''input_audio_buffer.append''"
definition INPUT_AUDIO_COMMIT :: ustr where "INPUT_AUDIO_COMMIT = lit ''input_audio_buffer.commit''"
definition STATUS_EVENT :: ustr where "STATUS_EVENT = lit ''status''"
definition MODEL_LOADED :: ustr where "MODEL_LOADED = lit ''model.loaded''"
definition MODEL_UNLOADED :: ustr where "MODEL_UNLOADED = lit ''model.unloaded''"
definition TRANSCRIPTION_DELTA :: ustr where "TRANSCRIPTION_DELTA = lit ''conversation.item.input_audio_transcription.delta''"
definition TRANSCRIPTION_COMPLETED :: ustr where
  "TRANSCRIPTION_COMPLETED = lit ''conversation.item.input_audio_transcription.completed''"
definition ERROR :: ustr where "ERROR = lit ''error''"
definition DEFAULT_WS_PATH :: ustr where "DEFAULT_WS_PATH = lit ''/''"

lemmas ie115_names = SESSION_CREATED_def SESSION_UPDATE_def INPUT_AUDIO_APPEND_def INPUT_AUDIO_COMMIT_def STATUS_EVENT_def
  MODEL_LOADED_def MODEL_UNLOADED_def TRANSCRIPTION_DELTA_def TRANSCRIPTION_COMPLETED_def ERROR_def

definition session_update_transcription :: "session_config \<Rightarrow> (ustr \<times> json) list" where
  "session_update_transcription config =
     (case language config of Some s \<Rightarrow> [(lit ''language'', JString s)] | None \<Rightarrow> [])
     @ (case prompt config of Some s \<Rightarrow> [(lit ''prompt'', JString s)] | None \<Rightarrow> [])
     @ (if cfg_keywords config \<noteq> [] then [(lit ''keywords'', JArray (map JString (cfg_keywords config)))] else [])"

definition session_update_frame :: "session_config \<Rightarrow> json" where
  "session_update_frame config =
     (let transcription = session_update_transcription config;
          format = JObject [(lit ''type'', JString (lit ''audio/pcm'')), (lit ''rate'', JNumber (JN_Pos (ucast (sample_rate_hz (audio_fmt config)))))];
          input = [(lit ''format'', format)] @ (if transcription \<noteq> [] then [(lit ''transcription'', JObject transcription)] else [])
      in JObject [(lit ''type'', JString SESSION_UPDATE),
                  (lit ''session'', JObject [(lit ''type'', JString (lit ''transcription'')),
                                             (lit ''audio'', JObject [(lit ''input'', JObject input)])])])"

text \<open>The first text frame of what arrives before the greeting's timeout.\<close>

fun read_greeting :: "'c json_lib \<Rightarrow> incoming list \<Rightarrow> json option" where
  "read_greeting l [] = None"
| "read_greeting l (IN_Frame (WM_Text t) # _) = (case jl_parse l t of Inr v \<Rightarrow> Some v | Inl _ \<Rightarrow> None)"
| "read_greeting l (IN_Frame _ # rest) = read_greeting l rest"
| "read_greeting l (_ # _) = None"

definition takes_keywords :: "json \<Rightarrow> bool" where
  "takes_keywords greeting \<longleftrightarrow>
     get_str (lit ''type'') greeting = Some SESSION_CREATED
     \<and> (case json_pointer [lit ''session'', lit ''audio'', lit ''input'', lit ''transcription'', lit ''keywords''] greeting of
          Some v \<Rightarrow> is_array v | None \<Rightarrow> False)"

definition offered_config :: "'c json_lib \<Rightarrow> incoming list \<Rightarrow> session_config \<Rightarrow> session_config" where
  "offered_config l greeting config =
     (if cfg_keywords config \<noteq> [] \<and> \<not> (case read_greeting l greeting of Some g \<Rightarrow> takes_keywords g | None \<Rightarrow> False)
      then config\<lparr>cfg_keywords := []\<rparr> else config)"

definition open_ie115 :: "'c json_lib \<Rightarrow> ustr \<Rightarrow> ustr \<Rightarrow> session_config \<Rightarrow> session_opening \<Rightarrow> ws_message list \<times> (backend_error + unit)" where
  "open_ie115 l path ws_path config op =
     (case op_connect op of
        Inl e \<Rightarrow> ([], Inl (BE_Connect (path @ lit '': '' @ e)))
      | Inr _ \<Rightarrow>
          (case op_upgrade op of
             Inl e \<Rightarrow> ([], Inl (BE_Handshake e))
           | Inr _ \<Rightarrow>
               (let config = offered_config l (op_incoming op) config;
                    has_config = language config \<noteq> None \<or> prompt config \<noteq> None \<or> cfg_keywords config \<noteq> []
                in if has_config \<or> ws_path = DEFAULT_WS_PATH
                   then ([text_of l (session_update_frame config)],
                         case op_sent op of Inl e \<Rightarrow> Inl (BE_Transport e) | Inr _ \<Rightarrow> Inr ())
                   else ([], Inr ()))))"

definition status_phase :: "json \<Rightarrow> ustr" where
  "status_phase v =
     (case get_str (lit ''state'') v of
        Some s \<Rightarrow> if s = lit ''loading'' then PHASE_PREPARING else if s = lit ''ready'' then PHASE_READY else PHASE_TRANSCRIBING
      | None \<Rightarrow> PHASE_TRANSCRIBING)"

definition the_text :: "ustr \<Rightarrow> json \<Rightarrow> ustr" where
  "the_text k v = (case get_str k v of Some s \<Rightarrow> s | None \<Rightarrow> [])"

definition delta_final :: "json \<Rightarrow> transcription_final" where
  "delta_final v =
     \<lparr>fin_text = the_text (lit ''delta'') v, segments = [],
      fin_disposition = (if get_str (lit ''disposition'') v = Some (lit ''unstable'') then Unstable else Committed),
      segment_index = map_option ucast (Option.bind (json_get (lit ''segment_index'') v) as_u64)\<rparr>"

definition ie115_error :: "json \<Rightarrow> error_data" where
  "ie115_error v =
     (let err = json_get (lit ''error'') v
      in \<lparr>err_code = (case Option.bind err (get_str (lit ''code'')) of Some s \<Rightarrow> s | None \<Rightarrow> lit ''server_error''),
          err_message = (case Option.bind err (get_str (lit ''message'')) of Some s \<Rightarrow> s | None \<Rightarrow> [])\<rparr>)"

definition decode_frame :: "json \<Rightarrow> bool \<Rightarrow> transcription_event list" where
  "decode_frame v after_commit =
     (case get_str (lit ''type'') v of
        None \<Rightarrow> []
      | Some ty \<Rightarrow>
          if ty = STATUS_EVENT then
            [TE_Progress \<lparr>snippet = get_str (lit ''snippet'') v, phase = status_phase v,
                          warning = get_str (lit ''warning'') v, warning_code = get_str (lit ''warning_code'') v\<rparr>]
          else if ty = MODEL_LOADED then [TE_Progress (progress_phase PHASE_READY)]
          else if ty = MODEL_UNLOADED then [TE_Progress (progress_phase PHASE_PREPARING)]
          else if ty = TRANSCRIPTION_DELTA then [TE_Final (delta_final v)]
          else if ty = TRANSCRIPTION_COMPLETED then
            (let t = the_text (lit ''transcript'') v
             in if t = [] \<and> \<not> after_commit then [] else [TE_Done (default_final\<lparr>fin_text := t\<rparr>)])
          else if ty = ERROR then [TE_Error (ie115_error v)]
          else [])"

definition append_frame :: "'c json_lib \<Rightarrow> pcm_chunk \<Rightarrow> json" where
  "append_frame l chunk = JObject [(lit ''type'', JString INPUT_AUDIO_APPEND), (lit ''audio'', JString (jl_base64 l (chunk_data chunk)))]"

record ie115 =
  ie_base64_audio :: bool
  ie_after_commit :: bool

fun ie115_encode :: "'c json_lib \<Rightarrow> ie115 \<Rightarrow> outbound \<Rightarrow> ws_message" where
  "ie115_encode l d (Ob_Audio chunk) = (if ie_base64_audio d then text_of l (append_frame l chunk) else WM_Binary (chunk_data chunk))"
| "ie115_encode l d Ob_Finish = text_of l (JObject [(lit ''type'', JString INPUT_AUDIO_COMMIT)])"

definition ie115_written :: "bool \<Rightarrow> ie115 \<Rightarrow> ie115" where
  "ie115_written finish d = d\<lparr>ie_after_commit := ie_after_commit d \<or> finish\<rparr>"

definition ie115_decode :: "'c json_lib \<Rightarrow> ie115 \<Rightarrow> ustr \<Rightarrow> backend_error + transcription_event list" where
  "ie115_decode l d t =
     (case jl_parse l t of
        Inl e \<Rightarrow> Inl (BE_Transport (lit ''bad JSON: '' @ e))
      | Inr v \<Rightarrow> Inr (decode_frame v (ie_after_commit d)))"

section \<open>What the frames say\<close>

lemma decode_frame_one: "length (decode_frame v after_commit) \<le> 1"
  by (simp add: decode_frame_def Let_def split: option.split)

lemma internal_decode_one: "internal_decode l t = Inr events \<Longrightarrow> length events \<le> 1"
  by (cases "decode_event l t") (auto simp: internal_decode_def split: option.split)

text \<open>
  The additive vocabulary: a frame that is no event, and an event of a type this build does not
  know, decode to nothing.
\<close>

lemma decode_event_additive:
  "jl_parse l t = Inr v \<Longrightarrow> json_get (lit ''event'') v = None \<Longrightarrow> internal_decode l t = Inr []"
  "jl_parse l t = Inr v \<Longrightarrow> get_str (lit ''event'') v = Some ty \<Longrightarrow>
     ty \<notin> {EVENT_PROGRESS, EVENT_FINAL, EVENT_DONE, EVENT_ERROR} \<Longrightarrow> internal_decode l t = Inr []"
  by (auto simp: internal_decode_def decode_event_def from_wire_def get_str_def split: option.splits)

definition at_transcription :: "ustr list \<Rightarrow> json \<Rightarrow> json option" where
  "at_transcription ks = json_pointer ([lit ''session'', lit ''audio'', lit ''input'', lit ''transcription''] @ ks)"

definition sends_keywords :: "'c json_lib \<Rightarrow> session_config \<Rightarrow> incoming list \<Rightarrow> bool" where
  "sends_keywords l config greeting \<longleftrightarrow>
     cfg_keywords config \<noteq> [] \<and> (\<exists>g. read_greeting l greeting = Some g \<and> takes_keywords g)"

lemma offered_config_keywords:
  "offered_config l greeting config = (if sends_keywords l config greeting then config else config\<lparr>cfg_keywords := []\<rparr>)"
  by (auto simp: offered_config_def sends_keywords_def split: option.split)

lemma session_update_pointer:
  "at_transcription [k] (session_update_frame config) = map_of (session_update_transcription config) k"
  "at_transcription [] (session_update_frame config)
     = (if session_update_transcription config = [] then None else Some (JObject (session_update_transcription config)))"
  by (simp_all add: at_transcription_def session_update_frame_def Let_def)

lemma session_update_fields:
  "map_of (session_update_transcription config) (lit ''language'') = map_option JString (language config)"
  "map_of (session_update_transcription config) (lit ''prompt'') = map_option JString (prompt config)"
  "map_of (session_update_transcription config) (lit ''keywords'')
     = (if cfg_keywords config = [] then None else Some (JArray (map JString (cfg_keywords config))))"
  by (auto simp: session_update_transcription_def split: option.split)

text \<open>
  Opening an IE115 session tells the server what the user asked for and nothing it did not
  offer to take. The one frame sent carries the language and the prompt of the configuration,
  the keywords if and only if the server's greeting lists them, and never an empty object of
  transcription settings. Nothing is sent at all only when the connection failed or, at a
  foreign path, when there is nothing to say.
\<close>

theorem session_update_faithful:
  fixes l path ws_path config op
  defines "sent \<equiv> fst (open_ie115 l path ws_path config op)"
  shows "(\<exists>v. sent = [text_of l v]
        \<and> at_transcription [lit ''language''] v = map_option JString (language config)
        \<and> at_transcription [lit ''prompt''] v = map_option JString (prompt config)
        \<and> at_transcription [lit ''keywords''] v
            = (if sends_keywords l config (op_incoming op) then Some (JArray (map JString (cfg_keywords config))) else None)
        \<and> at_transcription [] v \<noteq> Some (JObject []))
     \<or> sent = [] \<and> (\<exists>e. snd (open_ie115 l path ws_path config op) = Inl e)
     \<or> sent = [] \<and> ws_path \<noteq> DEFAULT_WS_PATH \<and> language config = None \<and> prompt config = None \<and> \<not> sends_keywords l config (op_incoming op)"
proof (cases "op_connect op")
  case (Inl e)
  then show ?thesis by (simp add: sent_def open_ie115_def)
next
  case connected: (Inr u)
  show ?thesis
  proof (cases "op_upgrade op")
    case (Inl e)
    with connected show ?thesis by (simp add: sent_def open_ie115_def)
  next
    case (Inr u')
    let ?c = "offered_config l (op_incoming op) config"
    have "language ?c = language config" "prompt ?c = prompt config" by (simp_all add: offered_config_keywords)
    moreover have "cfg_keywords ?c = (if sends_keywords l config (op_incoming op) then cfg_keywords config else [])"
      by (simp add: offered_config_keywords)
    moreover have "cfg_keywords config \<noteq> []" if "sends_keywords l config (op_incoming op)" using that by (simp add: sends_keywords_def)
    ultimately show ?thesis
      using connected Inr unfolding sent_def open_ie115_def
      by (auto simp: Let_def session_update_pointer session_update_fields split: if_splits)
  qed
qed

end
