(* ===== verification/Transport.thy ===== *)
theory Transport
  imports Wire "HOL-Library.Sublist"
begin

text \<open>
  The pump both dialects share, \<open>client/myna-orchestrator/src/backend/transport.rs\<close>: one task
  that owns the connection of a session, writes what the client queues and delivers what the
  server says. One poll of its \<open>select!\<close> is one step: the environment offers what is ready on
  each arm and the biased order decides. While an event waits for room in the channel nothing
  else is polled. Time is counted in milliseconds.
\<close>

section \<open>Dialects\<close>

record 'd dialect =
  di_encode :: "'d \<Rightarrow> outbound \<Rightarrow> ws_message"
  di_written :: "bool \<Rightarrow> 'd \<Rightarrow> 'd"
  di_decode :: "'d \<Rightarrow> ustr \<Rightarrow> backend_error + transcription_event list"

definition internal_dialect :: "'c json_lib \<Rightarrow> unit dialect" where
  "internal_dialect l = \<lparr>di_encode = \<lambda>_. internal_encode l, di_written = \<lambda>_ d. d, di_decode = \<lambda>_. internal_decode l\<rparr>"

definition ie115_dialect :: "'c json_lib \<Rightarrow> ie115 dialect" where
  "ie115_dialect l = \<lparr>di_encode = ie115_encode l, di_written = ie115_written, di_decode = ie115_decode l\<rparr>"

section \<open>The pump\<close>

definition WRITE_GRACE :: nat where "WRITE_GRACE = 2 * 1000"

type_synonym delivery_item = "backend_error + transcription_event"

datatype pump_end = XE_Aborted | XE_Gone | XE_Over

datatype pump_stage = PT_Loop | PT_Deliver "delivery_item list" | PT_Ended pump_end

record 'd pump =
  pu_dialect :: 'd
  pu_idle :: bool
  pu_writing :: "bool option"
  pu_outbound_open :: bool
  pu_failed :: "(ustr \<times> nat) option"
  pu_stage :: pump_stage

definition pump_new :: "'d \<Rightarrow> 'd pump" where
  "pump_new d = \<lparr>pu_dialect = d, pu_idle = True, pu_writing = None, pu_outbound_open = True, pu_failed = None, pu_stage = PT_Loop\<rparr>"

text \<open>What is ready at one poll; \<open>po_room\<close> is \<open>False\<close> when nobody takes events any more.\<close>

record pump_offers =
  po_now :: nat
  po_aborted :: bool
  po_written :: "(ustr + unit) option"
  po_item :: "outbound option option"
  po_incoming :: "incoming option"
  po_room :: "bool option"

datatype 'd pump_effect =
    PF_Write ws_message bool
  | PF_Written bool
  | PF_WriteFailed ustr
  | PF_Read 'd incoming
  | PF_Activity
  | PF_Delivered delivery_item

datatype pump_arm =
    PArm_Abort
  | PArm_Written "ustr + unit"
  | PArm_Grace
  | PArm_Item "outbound option"
  | PArm_Incoming incoming

definition out_of_grace :: "nat \<Rightarrow> (ustr \<times> nat) option \<Rightarrow> bool" where
  "out_of_grace now failed = (case failed of Some (_, due) \<Rightarrow> due \<le> now | None \<Rightarrow> False)"

definition select_pump :: "pump_offers \<Rightarrow> 'd pump \<Rightarrow> pump_arm option" where
  "select_pump off p =
     (if po_aborted off then Some PArm_Abort
      else if pu_writing p \<noteq> None \<and> po_written off \<noteq> None then map_option PArm_Written (po_written off)
      else if out_of_grace (po_now off) (pu_failed p) then Some PArm_Grace
      else if pu_outbound_open p \<and> pu_idle p \<and> po_item off \<noteq> None then map_option PArm_Item (po_item off)
      else map_option PArm_Incoming (po_incoming off))"

text \<open>What one read yields: the items to deliver, and whether the reading ends there.\<close>

fun read_items :: "'d dialect \<Rightarrow> 'd \<Rightarrow> incoming \<Rightarrow> delivery_item list" where
  "read_items D d (IN_Frame (WM_Text t)) = (case di_decode D d t of Inr events \<Rightarrow> map Inr events | Inl e \<Rightarrow> [Inl e])"
| "read_items D d (IN_Error e) = [Inl (BE_Transport e)]"
| "read_items D d _ = []"

fun hangs_up :: "incoming \<Rightarrow> bool" where
  "hangs_up (IN_Frame WM_Close) = True"
| "hangs_up IN_End = True"
| "hangs_up _ = False"

fun is_data :: "incoming \<Rightarrow> bool" where
  "is_data (IN_Frame (WM_Text _)) = True"
| "is_data (IN_Frame (WM_Binary _)) = True"
| "is_data _ = False"

definition take_written :: "'d dialect \<Rightarrow> nat \<Rightarrow> ustr + unit \<Rightarrow> 'd pump \<Rightarrow> 'd pump \<times> 'd pump_effect list" where
  "take_written D now sent p =
     (case pu_writing p of
        None \<Rightarrow> (p, [])
      | Some finish \<Rightarrow>
          (case sent of
             Inr _ \<Rightarrow> (p\<lparr>pu_writing := None, pu_dialect := di_written D finish (pu_dialect p), pu_idle := True\<rparr>, [PF_Written finish])
           | Inl e \<Rightarrow> (p\<lparr>pu_writing := None, pu_failed := Some (e, now + WRITE_GRACE)\<rparr>, [PF_WriteFailed e])))"

definition take_incoming :: "'d dialect \<Rightarrow> incoming \<Rightarrow> 'd pump \<Rightarrow> 'd pump \<times> 'd pump_effect list" where
  "take_incoming D inc p =
     (let items = read_items D (pu_dialect p) inc
      in (p\<lparr>pu_stage := (if hangs_up inc then PT_Ended XE_Over else if items = [] then PT_Loop else PT_Deliver items)\<rparr>,
          PF_Read (pu_dialect p) inc # (if is_data inc then [PF_Activity] else [])))"

fun take_pump_arm :: "'d dialect \<Rightarrow> nat \<Rightarrow> pump_arm \<Rightarrow> 'd pump \<Rightarrow> 'd pump \<times> 'd pump_effect list" where
  "take_pump_arm D now PArm_Abort p = (p\<lparr>pu_stage := PT_Ended XE_Aborted\<rparr>, [])"
| "take_pump_arm D now (PArm_Written sent) p = take_written D now sent p"
| "take_pump_arm D now PArm_Grace p =
     (case pu_failed p of
        None \<Rightarrow> (p, [])
      | Some (e, _) \<Rightarrow> (p\<lparr>pu_failed := None, pu_stage := PT_Deliver [Inl (BE_Transport e)]\<rparr>, []))"
| "take_pump_arm D now (PArm_Item None) p = (p\<lparr>pu_outbound_open := False\<rparr>, [])"
| "take_pump_arm D now (PArm_Item (Some item)) p =
     (p\<lparr>pu_idle := False, pu_writing := Some (item = Ob_Finish)\<rparr>, [PF_Write (di_encode D (pu_dialect p) item) (item = Ob_Finish)])"
| "take_pump_arm D now (PArm_Incoming inc) p = take_incoming D inc p"

text \<open>After an error or a terminal event the session is over.\<close>

fun closes :: "delivery_item \<Rightarrow> bool" where
  "closes (Inl _) = True"
| "closes (Inr e) = te_is_terminal e"

fun deliver_next :: "bool option \<Rightarrow> delivery_item list \<Rightarrow> 'd pump \<Rightarrow> 'd pump \<times> 'd pump_effect list" where
  "deliver_next room [] p = (p\<lparr>pu_stage := PT_Loop\<rparr>, [])"
| "deliver_next None (x # xs) p = (p, [])"
| "deliver_next (Some False) (x # xs) p = (p\<lparr>pu_stage := PT_Ended XE_Gone\<rparr>, [])"
| "deliver_next (Some True) (x # xs) p =
     (p\<lparr>pu_stage := (if closes x then PT_Ended XE_Over else if xs = [] then PT_Loop else PT_Deliver xs)\<rparr>, [PF_Delivered x])"

definition pump_step :: "'d dialect \<Rightarrow> 'd pump \<Rightarrow> pump_offers \<Rightarrow> 'd pump \<times> 'd pump_effect list" where
  "pump_step D p off =
     (case pu_stage p of
        PT_Ended _ \<Rightarrow> (p, [])
      | PT_Deliver items \<Rightarrow> deliver_next (po_room off) items p
      | PT_Loop \<Rightarrow> (case select_pump off p of None \<Rightarrow> (p, []) | Some a \<Rightarrow> take_pump_arm D (po_now off) a p))"

section \<open>What the server said\<close>

text \<open>
  The stream a session delivers, as a function of what was read of the socket alone: every
  frame's events in order, up to the first error or terminal event, or the end of the socket.
\<close>

fun upto_close :: "delivery_item list \<Rightarrow> delivery_item list" where
  "upto_close [] = []"
| "upto_close (x # xs) = x # (if closes x then [] else upto_close xs)"

definition ends_read :: "'d dialect \<Rightarrow> 'd \<times> incoming \<Rightarrow> bool" where
  "ends_read D r \<longleftrightarrow> hangs_up (snd r) \<or> list_ex closes (read_items D (fst r) (snd r))"

fun stream_of :: "'d dialect \<Rightarrow> ('d \<times> incoming) list \<Rightarrow> delivery_item list" where
  "stream_of D [] = []"
| "stream_of D (r # rs) = upto_close (read_items D (fst r) (snd r)) @ (if ends_read D r then [] else stream_of D rs)"

definition over :: "'d dialect \<Rightarrow> ('d \<times> incoming) list \<Rightarrow> bool" where
  "over D rs \<longleftrightarrow> list_ex (ends_read D) rs"

definition reads_of :: "'d pump_effect list \<Rightarrow> ('d \<times> incoming) list" where
  "reads_of es = filter_map (\<lambda>e. case e of PF_Read d inc \<Rightarrow> Some (d, inc) | _ \<Rightarrow> None) es"

definition delivered_of :: "'d pump_effect list \<Rightarrow> delivery_item list" where
  "delivered_of es = filter_map (\<lambda>e. case e of PF_Delivered x \<Rightarrow> Some x | _ \<Rightarrow> None) es"

lemma log_simps [simp]: "reads_of [] = []" "delivered_of [] = []"
    "reads_of (es @ fs) = reads_of es @ reads_of fs" "delivered_of (es @ fs) = delivered_of es @ delivered_of fs"
    "reads_of (PF_Read d inc # es) = (d, inc) # reads_of es" "delivered_of (PF_Delivered x # es) = x # delivered_of es"
  by (simp_all add: reads_of_def delivered_of_def)

lemma log_quiet [simp]: "reads_of (PF_Write m f # es) = reads_of es" "reads_of (PF_Written f # es) = reads_of es"
    "reads_of (PF_WriteFailed w # es) = reads_of es" "reads_of (PF_Activity # es) = reads_of es" "reads_of (PF_Delivered x # es) = reads_of es"
    "delivered_of (PF_Write m f # es) = delivered_of es" "delivered_of (PF_Written f # es) = delivered_of es"
    "delivered_of (PF_WriteFailed w # es) = delivered_of es" "delivered_of (PF_Activity # es) = delivered_of es"
    "delivered_of (PF_Read d inc # es) = delivered_of es"
  by (simp_all add: reads_of_def delivered_of_def)

lemma stream_of_snoc: "\<not> over D rs \<Longrightarrow> stream_of D (rs @ [r]) = stream_of D rs @ upto_close (read_items D (fst r) (snd r))"
  by (induction rs) (auto simp: over_def)

lemma over_snoc [simp]: "over D (rs @ [r]) \<longleftrightarrow> over D rs \<or> ends_read D r"
  by (auto simp: over_def)

lemma hangs_up_quiet: "hangs_up inc \<Longrightarrow> read_items D d inc = []"
  by (induction inc rule: hangs_up.induct) simp_all

text \<open>Only the last of the items kept can close.\<close>

lemma upto_close_last: "filter closes (butlast (upto_close xs)) = []"
proof (induction xs)
  case (Cons x xs)
  then show ?case by (cases "upto_close xs") auto
qed simp

lemma upto_close_open: "\<not> list_ex closes xs \<Longrightarrow> filter closes (upto_close xs) = []"
  by (induction xs) auto

lemma stream_of_last: "filter closes (butlast (stream_of D rs)) = []"
proof (induction rs)
  case (Cons r rs)
  let ?xs = "read_items D (fst r) (snd r)"
  show ?case
  proof (cases "ends_read D r \<or> stream_of D rs = []")
    case True
    then show ?thesis by (auto simp: upto_close_last)
  next
    case False
    then have "filter closes (upto_close ?xs) = []" by (auto simp: ends_read_def upto_close_open)
    with False Cons.IH show ?thesis by (simp add: butlast_append)
  qed
qed simp

lemma stream_of_open: "\<not> over D rs \<Longrightarrow> filter closes (stream_of D rs) = []"
  by (induction rs) (auto simp: over_def ends_read_def upto_close_open)

lemma prefix_last:
  assumes "prefix xs ys" and "filter P (butlast ys) = []"
  shows "filter P (butlast xs) = []"
proof -
  obtain zs where ys: "ys = xs @ zs" using assms(1) by (auto simp: prefix_def)
  show ?thesis
  proof (cases zs)
    case Nil
    with ys assms(2) show ?thesis by simp
  next
    case (Cons z zs')
    with ys assms(2) have "filter P xs = []" by (simp add: butlast_append)
    then show ?thesis by (auto simp: filter_empty_conv dest: in_set_butlastD)
  qed
qed

text \<open>How far a pump has come with what was read so far.\<close>

definition pump_story :: "'d dialect \<Rightarrow> 'd pump \<Rightarrow> 'd pump_effect list \<Rightarrow> bool" where
  "pump_story D p out \<longleftrightarrow>
     (let rs = reads_of out; ds = delivered_of out; s = stream_of D rs in
      case pu_stage p of
        PT_Loop \<Rightarrow> ds = s \<and> \<not> over D rs
      | PT_Deliver xs \<Rightarrow> xs \<noteq> []
          \<and> (ds @ upto_close xs = s \<and> (over D rs \<longleftrightarrow> list_ex closes xs)
             \<or> ds = s \<and> \<not> over D rs \<and> (\<exists>w. xs = [Inl (BE_Transport w)] \<and> PF_WriteFailed w \<in> set out))
      | PT_Ended XE_Aborted \<Rightarrow> ds = s \<and> \<not> over D rs
      | PT_Ended XE_Gone \<Rightarrow> prefix ds s
      | PT_Ended XE_Over \<Rightarrow> ds = s \<and> over D rs
          \<or> (\<exists>w. PF_WriteFailed w \<in> set out \<and> \<not> over D rs \<and> ds = s @ [Inl (BE_Transport w)]))
     \<and> (\<forall>w due. pu_failed p = Some (w, due) \<longrightarrow> PF_WriteFailed w \<in> set out \<and> \<not> pu_idle p \<and> pu_writing p = None)
     \<and> (pu_writing p \<noteq> None \<longrightarrow> \<not> pu_idle p)"

lemma story_new: "pump_story D (pump_new d) []"
  by (simp add: pump_story_def pump_new_def over_def Let_def)

lemma pump_story_deliver:
  assumes "pump_story D p out" and "pu_stage p = PT_Deliver xs" and "deliver_next room xs p = (p', es)"
  shows "pump_story D p' (out @ es)"
proof -
  obtain x ys where xs: "xs = x # ys" using assms(1,2) by (cases xs) (auto simp: pump_story_def Let_def)
  consider "room = None" | "room = Some False" | "room = Some True" by (cases room) auto
  then show ?thesis
  proof cases
    case 1
    with assms xs show ?thesis by simp
  next
    case 2
    with assms xs show ?thesis by (auto simp: pump_story_def Let_def intro: prefixI [OF sym])
  next
    case 3
    with assms xs show ?thesis by (auto simp: pump_story_def Let_def split: if_splits)
  qed
qed

lemma story_incoming:
  assumes "pump_story D p out" and "pu_stage p = PT_Loop"
  shows "pump_story D (fst (take_incoming D inc p)) (out @ snd (take_incoming D inc p))"
proof -
  let ?r = "(pu_dialect p, inc)"
  have log: "reads_of (snd (take_incoming D inc p)) = [?r]" "delivered_of (snd (take_incoming D inc p)) = []"
    by (simp_all add: take_incoming_def Let_def)
  have stage: "pu_stage (fst (take_incoming D inc p)) = (if hangs_up inc then PT_Ended XE_Over
        else if read_items D (pu_dialect p) inc = [] then PT_Loop else PT_Deliver (read_items D (pu_dialect p) inc))"
    and rest: "pu_failed (fst (take_incoming D inc p)) = pu_failed p" "pu_idle (fst (take_incoming D inc p)) = pu_idle p"
      "pu_writing (fst (take_incoming D inc p)) = pu_writing p"
    by (simp_all add: take_incoming_def Let_def)
  have before: "delivered_of out = stream_of D (reads_of out)" "\<not> over D (reads_of out)"
    and writes: "(\<forall>w due. pu_failed p = Some (w, due) \<longrightarrow> PF_WriteFailed w \<in> set out \<and> \<not> pu_idle p \<and> pu_writing p = None)
      \<and> (pu_writing p \<noteq> None \<longrightarrow> \<not> pu_idle p)"
    using assms by (simp_all add: pump_story_def Let_def)
  note snoc = stream_of_snoc [OF before(2), of ?r]
  have ends: "ends_read D ?r \<longleftrightarrow> hangs_up inc \<or> list_ex closes (read_items D (pu_dialect p) inc)" by (simp add: ends_read_def)
  from writes show ?thesis
    unfolding pump_story_def Let_def log_simps log stage rest
    by (simp add: snoc before ends hangs_up_quiet)
qed

lemma story_arm:
  assumes "pump_story D p out" and "pu_stage p = PT_Loop" and "select_pump off p = Some a" and "take_pump_arm D (po_now off) a p = (p', es)"
  shows "pump_story D p' (out @ es)"
proof (cases a)
  case (PArm_Incoming inc)
  with assms story_incoming [OF assms(1,2), of inc] show ?thesis by simp
next
  case (PArm_Written sent)
  then obtain f where "pu_writing p = Some f" using assms(3) by (auto simp: select_pump_def split: if_splits)
  with PArm_Written assms show ?thesis
    by (cases sent) (auto simp: pump_story_def Let_def take_written_def)
next
  case PArm_Grace
  then obtain w due where "pu_failed p = Some (w, due)"
    using assms(3) by (auto simp: select_pump_def out_of_grace_def split: if_splits option.splits)
  with PArm_Grace assms show ?thesis by (auto simp: pump_story_def Let_def)
next
  case (PArm_Item item)
  then have "pu_idle p" using assms(3) by (auto simp: select_pump_def split: if_splits)
  with PArm_Item assms show ?thesis by (cases item) (auto simp: pump_story_def Let_def)
qed (use assms in \<open>auto simp: pump_story_def Let_def\<close>)

lemma story_step:
  assumes "pump_story D p out"
  shows "pump_story D (fst (pump_step D p off)) (out @ snd (pump_step D p off))"
proof (cases "pu_stage p")
  case (PT_Deliver xs)
  then show ?thesis using pump_story_deliver [OF assms PT_Deliver, of "po_room off"] by (cases "deliver_next (po_room off) xs p") (simp add: pump_step_def)
next
  case PT_Loop
  show ?thesis
  proof (cases "select_pump off p")
    case (Some a)
    then show ?thesis
      using story_arm [OF assms PT_Loop Some] PT_Loop by (cases "take_pump_arm D (po_now off) a p") (simp add: pump_step_def)
  qed (use assms PT_Loop in \<open>simp add: pump_step_def\<close>)
qed (use assms in \<open>simp add: pump_step_def\<close>)

lemma story_run: "pump_story D p out \<Longrightarrow> pump_story D (fst (run_machine (pump_step D) p os)) (out @ snd (run_machine (pump_step D) p os))"
proof (induction os arbitrary: p out)
  case (Cons off os)
  from Cons.IH [OF story_step [OF Cons.prems]] show ?case by simp
qed simp

definition pump_run :: "'d dialect \<Rightarrow> 'd \<Rightarrow> pump_offers list \<Rightarrow> 'd pump \<times> 'd pump_effect list" where
  "pump_run D d os = run_machine (pump_step D) (pump_new d) os"

lemma story_pump_run: "pump_story D (fst (pump_run D d os)) (snd (pump_run D d os))"
  using story_run [OF story_new, of D d os] by (simp add: pump_run_def)

text \<open>
  C26: whatever is queued, aborted or slow, a session delivers exactly what the server said, in
  order: at every moment the events delivered are the beginning of the stream that the frames
  read so far determine. A pump that ended by itself delivered that stream whole, up to its
  first error or terminal event or to the end of the socket; or a write failed, the server said
  nothing final in the grace, and after all it did say comes the error of that write. A stream
  closes at most once, and with its last item.
\<close>

theorem pump_delivers_stream:
  fixes D d os
  defines "p \<equiv> fst (pump_run D d os)" and "out \<equiv> snd (pump_run D d os)"
  defines "s \<equiv> stream_of D (reads_of out)"
  shows "filter closes (butlast (delivered_of out)) = [] \<and>
     (case pu_stage p of
        PT_Loop \<Rightarrow> delivered_of out = s
      | PT_Deliver _ \<Rightarrow> prefix (delivered_of out) s
      | PT_Ended XE_Aborted \<Rightarrow> delivered_of out = s
      | PT_Ended XE_Gone \<Rightarrow> prefix (delivered_of out) s
      | PT_Ended XE_Over \<Rightarrow> over D (reads_of out) \<and> delivered_of out = s
          \<or> (\<exists>w. PF_WriteFailed w \<in> set out \<and> delivered_of out = s @ [Inl (BE_Transport w)]))"
proof
  have story: "pump_story D p out" unfolding p_def out_def by (rule story_pump_run)
  then show "case pu_stage p of
        PT_Loop \<Rightarrow> delivered_of out = s
      | PT_Deliver _ \<Rightarrow> prefix (delivered_of out) s
      | PT_Ended XE_Aborted \<Rightarrow> delivered_of out = s
      | PT_Ended XE_Gone \<Rightarrow> prefix (delivered_of out) s
      | PT_Ended XE_Over \<Rightarrow> over D (reads_of out) \<and> delivered_of out = s
          \<or> (\<exists>w. PF_WriteFailed w \<in> set out \<and> delivered_of out = s @ [Inl (BE_Transport w)])"
    by (auto simp: pump_story_def Let_def s_def intro: prefixI [OF sym] split: pump_stage.splits pump_end.splits)
  have "prefix (delivered_of out) s \<or> filter closes s = [] \<and> (\<exists>w. delivered_of out = s @ [Inl (BE_Transport w)])"
    using story stream_of_open [of D "reads_of out"]
    by (auto simp: pump_story_def Let_def s_def intro: prefixI [OF sym] split: pump_stage.splits pump_end.splits)
  then show "filter closes (butlast (delivered_of out)) = []"
    using prefix_last [OF _ stream_of_last [of D "reads_of out"]] by (auto simp: s_def)
qed

section \<open>A failed write\<close>

lemma ended_step: "pu_stage p = PT_Ended e \<Longrightarrow> pump_step D p off = (p, [])"
  by (simp add: pump_step_def)

interpretation pump: halting_machine "pump_step D" "\<lambda>_. True" "\<lambda>p. \<exists>e. pu_stage p = PT_Ended e"
  by unfold_locales (auto simp: ended_step)

definition single :: "'d pump \<Rightarrow> bool" where
  "single p \<longleftrightarrow> (case pu_stage p of PT_Deliver xs \<Rightarrow> length xs = 1 | _ \<Rightarrow> True)"

definition failing :: "ustr \<Rightarrow> nat \<Rightarrow> 'd pump \<Rightarrow> bool" where
  "failing w due p \<longleftrightarrow> pu_failed p = Some (w, due) \<and> \<not> pu_idle p \<and> pu_writing p = None"

lemma deliver_one:
  assumes "pu_stage p = PT_Deliver [x]"
  shows "pump_step D p off = (case po_room off of
      None \<Rightarrow> (p, [])
    | Some True \<Rightarrow> (p\<lparr>pu_stage := (if closes x then PT_Ended XE_Over else PT_Loop)\<rparr>, [PF_Delivered x])
    | Some False \<Rightarrow> (p\<lparr>pu_stage := PT_Ended XE_Gone\<rparr>, []))"
  using assms by (auto simp: pump_step_def split: option.split bool.split)

text \<open>With the grace over, a poll of the loop ends it or delivers the write's error.\<close>

lemma grace_poll:
  assumes "failing w due p" and "pu_stage p = PT_Loop" and "due \<le> po_now off"
  shows "pu_stage (fst (pump_step D p off)) = PT_Ended XE_Aborted
     \<or> pu_stage (fst (pump_step D p off)) = PT_Deliver [Inl (BE_Transport w)]"
  using assms by (auto simp: pump_step_def failing_def select_pump_def out_of_grace_def)

lemma room_poll:
  assumes "pu_stage p = PT_Deliver [x]" and "po_room off \<noteq> None"
  shows "(\<exists>e. pu_stage (fst (pump_step D p off)) = PT_Ended e)
     \<or> \<not> closes x \<and> pu_stage (fst (pump_step D p off)) = PT_Loop \<and> (\<forall>w due. failing w due p \<longrightarrow> failing w due (fst (pump_step D p off)))"
  using assms(2) by (cases "po_room off") (auto simp: deliver_one [OF assms(1)] failing_def split: bool.split)

text \<open>A dialect whose frames carry one event at most.\<close>

locale single_event_dialect =
  fixes D :: "'d dialect"
  assumes decode_one: "di_decode D d t = Inr events \<Longrightarrow> length events \<le> 1"
begin

lemma read_one: "length (read_items D d inc) \<le> 1"
  using decode_one by (cases "(D, d, inc)" rule: read_items.cases) (auto split: sum.split)

lemma single_incoming: "single (fst (take_incoming D inc p))"
  using read_one [of "pu_dialect p" inc]
  by (cases "read_items D (pu_dialect p) inc") (auto simp: single_def take_incoming_def Let_def)

lemma single_arm: "single p \<Longrightarrow> pu_stage p = PT_Loop \<Longrightarrow> single (fst (take_pump_arm D now a p))"
  by (cases "(D, now, a, p)" rule: take_pump_arm.cases)
    (auto simp: single_incoming, auto simp: single_def take_written_def split: option.splits sum.splits)

lemma single_step: "single p \<Longrightarrow> single (fst (pump_step D p off))"
proof (cases "pu_stage p")
  case (PT_Deliver xs)
  assume "single p"
  with PT_Deliver obtain x where "pu_stage p = PT_Deliver [x]" by (auto simp: single_def length_Suc_conv)
  then show ?thesis by (simp add: deliver_one single_def split: option.split bool.split)
next
  case PT_Loop
  assume "single p"
  with PT_Loop show ?thesis by (simp add: pump_step_def single_arm split: option.split)
qed (simp add: pump_step_def)

lemma single_run: "single (fst (pump_run D d os))"
proof -
  have "single p \<Longrightarrow> single (fst (run_machine (pump_step D) p os))" for p
    by (induction os arbitrary: p) (simp_all add: single_step)
  then show ?thesis by (simp add: pump_run_def single_def pump_new_def)
qed

lemma failure_ends:
  assumes "pu_failed (fst (pump_run D d os)) = Some (w, due)"
    and "\<forall>off \<in> set os'. due \<le> po_now off \<and> po_room off \<noteq> None" and "3 \<le> length os'"
  shows "\<exists>e. pu_stage (fst (pump_run D d (os @ os'))) = PT_Ended e"
proof -
  define p where "p = fst (pump_run D d os)"
  obtain a b c rest where os': "os' = a # b # c # rest" using assms(3) by (auto simp: numeral_3_eq_3 Suc_le_length_iff)
  have poll: "due \<le> po_now off" "po_room off \<noteq> None" if "off \<in> {a, b, c}" for off using assms(2) os' that by auto
  have f: "failing w due p" using story_pump_run [of D d os] assms(1) by (simp add: p_def pump_story_def failing_def)
  let ?run = "\<lambda>q offs. fst (run_machine (pump_step D) q offs)"
  have ended: "\<exists>e. pu_stage (?run q offs) = PT_Ended e" if "pu_stage q = PT_Ended e" for q e offs
    using pump.run_halted [of q D offs] that by auto
  have two: "\<exists>e. pu_stage (?run q (x # y # offs)) = PT_Ended e"
    if q: "failing w due q" "pu_stage q = PT_Loop" and xy: "x \<in> {a, b, c}" "y \<in> {a, b, c}" for q x y offs
  proof -
    from grace_poll [OF q poll(1) [OF xy(1)], of D] show ?thesis
    proof
      assume "pu_stage (fst (pump_step D q x)) = PT_Deliver [Inl (BE_Transport w)]"
      from room_poll [OF this poll(2) [OF xy(2)], of D] show ?thesis using ended by auto
    qed (use ended [of _ _ "y # offs"] in auto)
  qed
  have "\<exists>e. pu_stage (?run p os') = PT_Ended e"
  proof (cases "pu_stage p")
    case (PT_Deliver xs)
    then obtain x where x: "pu_stage p = PT_Deliver [x]" using single_run [of d os] by (auto simp: p_def single_def length_Suc_conv)
    from room_poll [OF x poll(2) [of a], of D] show ?thesis
      using ended [of _ _ "b # c # rest"] two [of "fst (pump_step D p a)" b c rest] f by (auto simp: os')
  next
    case PT_Loop
    from two [OF f this, of a b "c # rest"] show ?thesis by (simp add: os')
  next
    case (PT_Ended e)
    from ended [OF this] show ?thesis .
  qed
  then show ?thesis by (simp add: p_def pump_run_def fst_run_machine_append)
qed

end

interpretation internal: single_event_dialect "internal_dialect l"
  by unfold_locales (simp add: internal_dialect_def internal_decode_one [simplified])

interpretation ie115: single_event_dialect "ie115_dialect l"
  by unfold_locales (auto simp: ie115_dialect_def ie115_decode_def decode_frame_one [simplified] split: sum.splits)

text \<open>One write fails at most, and its end is the error of the pump.\<close>

definition one_failure :: "'d pump \<Rightarrow> 'd pump_effect list \<Rightarrow> bool" where
  "one_failure p out \<longleftrightarrow>
     (\<forall>v w. PF_WriteFailed v \<in> set out \<longrightarrow> PF_WriteFailed w \<in> set out \<longrightarrow> v = w \<and> \<not> pu_idle p \<and> pu_writing p = None)
     \<and> (pu_writing p \<noteq> None \<longrightarrow> \<not> pu_idle p)"

lemma one_failure_step:
  assumes "one_failure p out"
  shows "one_failure (fst (pump_step D p off)) (out @ snd (pump_step D p off))"
proof (cases "pu_stage p")
  case (PT_Deliver xs)
  with assms show ?thesis
    by (cases "(po_room off, xs, p)" rule: deliver_next.cases) (auto simp: pump_step_def one_failure_def)
next
  case PT_Loop
  show ?thesis
  proof (cases "select_pump off p")
    case (Some a)
    then show ?thesis using assms PT_Loop
      by (cases "(D, po_now off, a, p)" rule: take_pump_arm.cases)
        (auto simp: pump_step_def one_failure_def take_written_def take_incoming_def Let_def select_pump_def
          split: option.splits sum.splits if_splits)
  qed (use assms PT_Loop in \<open>simp add: pump_step_def\<close>)
qed (use assms in \<open>simp add: pump_step_def\<close>)

lemma one_failure_run: "one_failure (fst (pump_run D d os)) (snd (pump_run D d os))"
proof -
  have "one_failure p out \<Longrightarrow> one_failure (fst (run_machine (pump_step D) p os)) (out @ snd (run_machine (pump_step D) p os))" for p out
  proof (induction os arbitrary: p out)
    case (Cons off os)
    from Cons.IH [OF one_failure_step [OF Cons.prems]] show ?case by simp
  qed simp
  from this [of "pump_new d" "[]"] show ?thesis by (simp add: pump_run_def pump_new_def one_failure_def)
qed

text \<open>Who ended the pump, when it was not the server.\<close>

definition ended_by :: "pump_offers list \<Rightarrow> pump_stage \<Rightarrow> bool" where
  "ended_by os stage = (case stage of
      PT_Ended XE_Aborted \<Rightarrow> list_ex po_aborted os
    | PT_Ended XE_Gone \<Rightarrow> list_ex (\<lambda>off. po_room off = Some False) os
    | _ \<Rightarrow> True)"

lemma ended_by_step:
  assumes "ended_by os (pu_stage p)"
  shows "ended_by (os @ [off]) (pu_stage (fst (pump_step D p off)))"
proof (cases "pu_stage p")
  case (PT_Deliver xs)
  then show ?thesis
    by (cases "(po_room off, xs, p)" rule: deliver_next.cases) (auto simp: pump_step_def ended_by_def)
next
  case PT_Loop
  then show ?thesis
  proof (cases "select_pump off p")
    case (Some a)
    then show ?thesis using PT_Loop
      by (cases "(D, po_now off, a, p)" rule: take_pump_arm.cases)
        (auto simp: pump_step_def ended_by_def take_written_def take_incoming_def Let_def select_pump_def
          split: option.splits sum.splits if_splits)
  qed (simp add: pump_step_def ended_by_def)
next
  case (PT_Ended e)
  with assms show ?thesis by (cases e) (simp_all add: pump_step_def ended_by_def)
qed

lemma ended_by_run: "ended_by os (pu_stage (fst (pump_run D d os)))"
proof -
  have "ended_by os0 (pu_stage p) \<Longrightarrow> ended_by (os0 @ os) (pu_stage (fst (run_machine (pump_step D) p os)))" for p os0
  proof (induction os arbitrary: p os0)
    case (Cons off os)
    from Cons.IH [OF ended_by_step [OF Cons.prems]] show ?case by simp
  qed simp
  from this [of "[]" "pump_new d"] show ?thesis by (simp add: pump_run_def pump_new_def ended_by_def)
qed

text \<open>After the grace the pump is deaf: what the server says from then on is not read.\<close>

definition deaf :: "nat \<Rightarrow> 'd pump \<Rightarrow> bool" where
  "deaf due p = (case pu_stage p of
      PT_Loop \<Rightarrow> \<exists>w. failing w due p
    | PT_Deliver xs \<Rightarrow> list_ex closes xs \<or> (\<exists>w. failing w due p)
    | PT_Ended _ \<Rightarrow> True)"

lemma deaf_step:
  assumes "deaf due p" and "due \<le> po_now off"
  shows "deaf due (fst (pump_step D p off)) \<and> reads_of (snd (pump_step D p off)) = []"
proof (cases "pu_stage p")
  case (PT_Deliver xs)
  with assms show ?thesis
    by (cases "(po_room off, xs, p)" rule: deliver_next.cases) (auto simp: pump_step_def deaf_def failing_def)
next
  case PT_Loop
  with assms obtain w where f: "failing w due p" by (auto simp: deaf_def)
  with assms(2) have "select_pump off p = Some (if po_aborted off then PArm_Abort else PArm_Grace)"
    by (simp add: select_pump_def failing_def out_of_grace_def)
  with f PT_Loop show ?thesis by (simp add: pump_step_def deaf_def failing_def)
qed (simp add: pump_step_def deaf_def)

lemma deaf_run:
  assumes "pu_failed (fst (pump_run D d os)) = Some (w, due)" and "\<forall>off \<in> set os'. due \<le> po_now off"
  shows "reads_of (snd (pump_run D d (os @ os'))) = reads_of (snd (pump_run D d os))"
proof -
  have run: "deaf due p \<Longrightarrow> reads_of (snd (run_machine (pump_step D) p os')) = []" for p
    using assms(2)
  proof (induction os' arbitrary: p)
    case (Cons off os')
    with deaf_step [OF Cons.prems(1), of off D] show ?case by simp
  qed simp
  have "failing w due (fst (pump_run D d os))"
    using story_pump_run [of D d os] assms(1) by (simp add: pump_story_def failing_def)
  then have "deaf due (fst (pump_run D d os))" by (auto simp: deaf_def split: pump_stage.split)
  from run [OF this] show ?thesis by (simp add: pump_run_def fst_run_machine_append snd_run_machine_append)
qed

text \<open>
  How a session ends whose write failed with \<open>w\<close>: aborted by its owner, left by the one who took
  its events, or with everything it had read delivered, and behind it, unless the server had ended
  the session itself, the error of that very write.
\<close>

definition answers_failure :: "'d dialect \<Rightarrow> ustr \<Rightarrow> pump_offers list \<Rightarrow> 'd pump \<times> 'd pump_effect list \<Rightarrow> bool" where
  "answers_failure D w os r = (case pu_stage (fst r) of
      PT_Ended XE_Aborted \<Rightarrow> list_ex po_aborted os
    | PT_Ended XE_Gone \<Rightarrow> list_ex (\<lambda>off. po_room off = Some False) os
    | PT_Ended XE_Over \<Rightarrow> delivered_of (snd r)
        = stream_of D (reads_of (snd r)) @ (if over D (reads_of (snd r)) then [] else [Inl (BE_Transport w)])
    | _ \<Rightarrow> False)"

lemma ended_answers_failure:
  assumes "pu_failed (fst (pump_run D d os)) = Some (w, due)" and "pu_stage (fst (pump_run D d (os @ os'))) = PT_Ended e"
  shows "answers_failure D w (os @ os') (pump_run D d (os @ os'))"
proof -
  let ?r = "pump_run D d (os @ os')"
  have "PF_WriteFailed w \<in> set (snd (pump_run D d os))"
    using story_pump_run [of D d os] assms(1) by (simp add: pump_story_def)
  then have "PF_WriteFailed w \<in> set (snd ?r)" by (simp add: pump_run_def fst_run_machine_append snd_run_machine_append)
  then have "v = w" if "PF_WriteFailed v \<in> set (snd ?r)" for v
    using one_failure_run [of D d "os @ os'"] that unfolding one_failure_def by blast
  with story_pump_run [of D d "os @ os'"] ended_by_run [of "os @ os'" D d] assms(2) show ?thesis
    by (cases e) (auto simp: answers_failure_def pump_story_def ended_by_def Let_def)
qed

lemma failure_answered:
  assumes "pu_failed (fst (pump_run D d os)) = Some (w, due)" and "\<exists>e. pu_stage (fst (pump_run D d (os @ os'))) = PT_Ended e"
    and "\<forall>off \<in> set os'. due \<le> po_now off"
  shows "answers_failure D w (os @ os') (pump_run D d (os @ os'))
     \<and> reads_of (snd (pump_run D d (os @ os'))) = reads_of (snd (pump_run D d os))"
  using assms(2) ended_answers_failure [OF assms(1)] deaf_run [OF assms(1,3)] by blast

text \<open>
  C27: a session whose write failed does not wait for ever on a server that keeps the
  connection open, and does not end silently. Once the grace has passed, three polls that find
  somebody to take an event or nobody at all are enough to end it, in both dialects and whatever
  else is ready; nothing more is read of the server in them. Unless its owner aborted it or nobody
  takes its events any more, everything read of the server was delivered, and last comes the error
  of that very write, but for a session the server had closed itself.
\<close>

theorem write_failure_ends:
  assumes "\<forall>off \<in> set os'. due \<le> po_now off \<and> po_room off \<noteq> None" and "3 \<le> length os'"
  shows "(pu_failed (fst (pump_run (internal_dialect l) d os)) = Some (w, due) \<longrightarrow>
            answers_failure (internal_dialect l) w (os @ os') (pump_run (internal_dialect l) d (os @ os'))
            \<and> reads_of (snd (pump_run (internal_dialect l) d (os @ os'))) = reads_of (snd (pump_run (internal_dialect l) d os)))
       \<and> (pu_failed (fst (pump_run (ie115_dialect l) d' os)) = Some (w, due) \<longrightarrow>
            answers_failure (ie115_dialect l) w (os @ os') (pump_run (ie115_dialect l) d' (os @ os'))
            \<and> reads_of (snd (pump_run (ie115_dialect l) d' (os @ os'))) = reads_of (snd (pump_run (ie115_dialect l) d' os)))"
proof -
  have due: "\<forall>off \<in> set os'. due \<le> po_now off" using assms(1) by blast
  note internal = failure_answered [OF _ internal.failure_ends [OF _ assms] due]
  note ie115 = failure_answered [OF _ ie115.failure_ends [OF _ assms] due]
  show ?thesis by (rule conjI; rule impI; (rule internal ie115; assumption))
qed

definition poll :: "nat \<Rightarrow> pump_offers" where
  "poll now = \<lparr>po_now = now, po_aborted = False, po_written = None, po_item = None, po_incoming = None, po_room = Some True\<rparr>"

definition sample_lib :: "unit json_lib" where
  "sample_lib = \<lparr>jl_parse = \<lambda>t. Inr (JObject [(lit ''type'', JString t)]), jl_print = \<lambda>_. [], jl_progress = \<lambda>_. Inl [], jl_final = \<lambda>_. Inl [],
     jl_error = \<lambda>_. Inl [], jl_of_progress = \<lambda>_. JNull, jl_of_final = \<lambda>_. JNull, jl_of_error = \<lambda>_. JNull, jl_config = \<lambda>_. JNull,
     jl_server_control = \<lambda>_. Inl [], jl_debug_control = \<lambda>_. [], jl_base64 = \<lambda>_. []\<rparr>"

definition broken_write :: "pump_offers list" where
  "broken_write = [(poll 0)\<lparr>po_item := Some (Some Ob_Finish)\<rparr>, (poll 0)\<lparr>po_written := Some (Inl (lit ''broken pipe''))\<rparr>]"

text \<open>A finish that could not be written, a server that stays silent: the error is what the session delivers.\<close>

theorem write_failure_ends_witness:
  "delivered_of (snd (pump_run (ie115_dialect sample_lib) \<lparr>ie_base64_audio = False, ie_after_commit = False\<rparr>
      (broken_write @ replicate 3 (poll 2000)))) = [Inl (BE_Transport (lit ''broken pipe''))]"
proof -
  let ?D = "ie115_dialect sample_lib" and ?d = "\<lparr>ie_base64_audio = False, ie_after_commit = False\<rparr>"
  let ?os' = "replicate 3 (poll 2000)"
  have "pu_failed (fst (pump_run ?D ?d broken_write)) = Some (lit ''broken pipe'', 2000)" by code_simp
  moreover have "\<forall>off \<in> set ?os'. 2000 \<le> po_now off \<and> po_room off \<noteq> None" by (simp add: poll_def)
  ultimately have "answers_failure ?D (lit ''broken pipe'') (broken_write @ ?os') (pump_run ?D ?d (broken_write @ ?os'))
      \<and> reads_of (snd (pump_run ?D ?d (broken_write @ ?os'))) = reads_of (snd (pump_run ?D ?d broken_write))"
    using write_failure_ends [of ?os' 2000 sample_lib "()" broken_write "lit ''broken pipe''" ?d] by simp
  moreover have "reads_of (snd (pump_run ?D ?d broken_write)) = []"
    "list_ex po_aborted (broken_write @ ?os') = False" "list_ex (\<lambda>off. po_room off = Some False) (broken_write @ ?os') = False"
    by code_simp+
  ultimately show ?thesis
    by (auto simp: answers_failure_def over_def split: pump_stage.splits pump_end.splits)
qed

section \<open>An empty transcript\<close>

text \<open>The commit is out only once its write is done, and a frame is judged by what was out when it was read.\<close>

definition commit_known :: "ie115 pump \<Rightarrow> ie115 pump_effect list \<Rightarrow> bool" where
  "commit_known p out \<longleftrightarrow> (ie_after_commit (pu_dialect p) \<longrightarrow> PF_Written True \<in> set out)
     \<and> (\<forall>(d, inc) \<in> set (reads_of out). ie_after_commit d \<longrightarrow> PF_Written True \<in> set out)"

lemma commit_known_step:
  assumes "commit_known p out"
  shows "commit_known (fst (pump_step (ie115_dialect l) p off)) (out @ snd (pump_step (ie115_dialect l) p off))"
proof (cases "pu_stage p")
  case (PT_Deliver xs)
  with assms show ?thesis
    by (cases "(po_room off, xs, p)" rule: deliver_next.cases) (auto simp: pump_step_def commit_known_def)
next
  case PT_Loop
  have "commit_known (fst (take_pump_arm (ie115_dialect l) now a p)) (out @ snd (take_pump_arm (ie115_dialect l) now a p))" for now a
    using assms by (cases "(ie115_dialect l, now, a, p)" rule: take_pump_arm.cases)
      (auto simp: commit_known_def take_written_def take_incoming_def Let_def ie115_dialect_def ie115_written_def split: option.splits sum.splits)
  with PT_Loop assms show ?thesis by (simp add: pump_step_def split: option.split)
qed (use assms in \<open>simp add: pump_step_def\<close>)

lemma commit_known_run:
  "\<not> ie_after_commit d \<Longrightarrow> commit_known (fst (pump_run (ie115_dialect l) d os)) (snd (pump_run (ie115_dialect l) d os))"
proof -
  have "commit_known p out \<Longrightarrow>
      commit_known (fst (run_machine (pump_step (ie115_dialect l)) p os)) (out @ snd (run_machine (pump_step (ie115_dialect l)) p os))" for p out
  proof (induction os arbitrary: p out)
    case (Cons off os)
    from Cons.IH [OF commit_known_step [OF Cons.prems]] show ?case by simp
  qed simp
  from this [of "pump_new d" "[]"] show "\<not> ie_after_commit d \<Longrightarrow> ?thesis" by (simp add: commit_known_def pump_new_def pump_run_def)
qed

lemma stream_of_items: "x \<in> set (stream_of D rs) \<Longrightarrow> \<exists>(d, inc) \<in> set rs. x \<in> set (read_items D d inc)"
proof (induction rs)
  case (Cons r rs)
  have "set (upto_close xs) \<subseteq> set xs" for xs by (induction xs) auto
  with Cons show ?case by (cases r) (fastforce split: if_splits)
qed simp

lemma delivered_read:
  assumes "Inr e \<in> set (delivered_of (snd (pump_run D d os)))"
  shows "\<exists>(d', inc) \<in> set (reads_of (snd (pump_run D d os))). Inr e \<in> set (read_items D d' inc)"
proof -
  let ?out = "snd (pump_run D d os)"
  have "prefix (delivered_of ?out) (stream_of D (reads_of ?out)) \<or> (\<exists>w. delivered_of ?out = stream_of D (reads_of ?out) @ [Inl (BE_Transport w)])"
    using story_pump_run [of D d os]
    by (auto simp: pump_story_def Let_def intro: prefixI [OF sym] split: pump_stage.splits pump_end.splits)
  then have "Inr e \<in> set (stream_of D (reads_of ?out))" using assms by (auto simp: prefix_def)
  then show ?thesis by (rule stream_of_items)
qed

lemma empty_done_frame: "TE_Done f \<in> set (decode_frame v after_commit) \<Longrightarrow> fin_text f = [] \<Longrightarrow> after_commit"
  by (auto simp: decode_frame_def Let_def default_final_def split: option.splits if_splits)

text \<open>
  C28: over IE115 an empty transcript ends an utterance only when it answers our commit: a session
  that delivers it as the end had written the commit out before. What a server sends to reset
  its hypotheses in mid-speech is never taken for the end of an utterance nobody spoke into.
\<close>

theorem empty_transcript_after_commit:
  assumes "\<not> ie_after_commit d" and "Inr (TE_Done f) \<in> set (delivered_of (snd (pump_run (ie115_dialect l) d os)))" and "fin_text f = []"
  shows "PF_Written True \<in> set (snd (pump_run (ie115_dialect l) d os))"
proof -
  obtain d' inc where r: "(d', inc) \<in> set (reads_of (snd (pump_run (ie115_dialect l) d os)))"
    and x: "Inr (TE_Done f) \<in> set (read_items (ie115_dialect l) d' inc)" using delivered_read [OF assms(2)] by auto
  from x have "ie_after_commit d'"
    using empty_done_frame assms(3)
    by (cases "(ie115_dialect l, d', inc)" rule: read_items.cases) (auto simp: ie115_dialect_def ie115_decode_def split: sum.splits)
  with r commit_known_run [OF assms(1), of l os] show ?thesis by (fastforce simp: commit_known_def)
qed

definition silent_utterance :: "pump_offers list" where
  "silent_utterance = [(poll 0)\<lparr>po_item := Some (Some Ob_Finish)\<rparr>, (poll 0)\<lparr>po_written := Some (Inr ())\<rparr>,
     (poll 0)\<lparr>po_incoming := Some (IN_Frame (WM_Text TRANSCRIPTION_COMPLETED))\<rparr>, poll 0]"

theorem empty_transcript_after_commit_witness:
  "\<exists>f. Inr (TE_Done f) \<in> set (delivered_of (snd (pump_run (ie115_dialect sample_lib) \<lparr>ie_base64_audio = False, ie_after_commit = False\<rparr> silent_utterance)))
     \<and> fin_text f = []
     \<and> PF_Written True \<in> set (snd (pump_run (ie115_dialect sample_lib) \<lparr>ie_base64_audio = False, ie_after_commit = False\<rparr> silent_utterance))"
proof -
  let ?d = "\<lparr>ie_base64_audio = False, ie_after_commit = False\<rparr>"
  have d: "delivered_of (snd (pump_run (ie115_dialect sample_lib) ?d silent_utterance)) = [Inr (TE_Done default_final)]" by code_simp
  have "fin_text default_final = []" by (simp add: default_final_def)
  moreover from this have "PF_Written True \<in> set (snd (pump_run (ie115_dialect sample_lib) ?d silent_utterance))"
    by (intro empty_transcript_after_commit [of ?d default_final]) (simp_all add: d)
  ultimately show ?thesis using d by (intro exI [of _ default_final]) simp
qed

end
