(* ===== verification/Utf8.thy ===== *)
theory Utf8
  imports Myna_Prelude
begin

text \<open>
  UTF-8 as Rust's standard library reads and writes it: \<open>str::from_utf8\<close> with its error,
  \<open>String::from_utf8_lossy\<close>, \<open>str::as_bytes\<close> and \<open>str::len\<close>. Bytes are words, a string its list of
  code points.
\<close>

section \<open>Decoding\<close>

definition is_cont :: "byte \<Rightarrow> bool" where
  "is_cont b \<longleftrightarrow> 128 \<le> b \<and> b \<le> 191"

text \<open>How long a sequence its first byte announces, and which second bytes may follow.\<close>

definition utf8_width :: "byte \<Rightarrow> nat" where
  "utf8_width b =
     (if b < 128 then 1 else if 194 \<le> b \<and> b \<le> 223 then 2 else if 224 \<le> b \<and> b \<le> 239 then 3
      else if 240 \<le> b \<and> b \<le> 244 then 4 else 0)"

definition second_ok :: "byte \<Rightarrow> byte \<Rightarrow> bool" where
  "second_ok b c \<longleftrightarrow>
     (if b = 224 then 160 \<le> c \<and> c \<le> 191 else if b = 237 then 128 \<le> c \<and> c \<le> 159
      else if b = 240 then 144 \<le> c \<and> c \<le> 191 else if b = 244 then 128 \<le> c \<and> c \<le> 143 else is_cont c)"

definition low6 :: "byte \<Rightarrow> nat" where
  "low6 b = unat b mod 64"

text \<open>
  The first character of a byte string: \<open>Inr\<close> it and its width; \<open>Inl (Some n)\<close> when its first
  \<open>n\<close> bytes are no character, \<open>Inl None\<close> when the string ends within one.
\<close>

definition utf8_first :: "byte list \<Rightarrow> nat option + uchar \<times> nat" where
  "utf8_first bs =
     (case bs of
        [] \<Rightarrow> Inl None
      | b # cs \<Rightarrow>
          if utf8_width b = 0 then Inl (Some 1)
          else if utf8_width b = 1 then Inr (unat b, 1)
          else case cs of
            [] \<Rightarrow> Inl None
          | c # ds \<Rightarrow>
              if \<not> second_ok b c then Inl (Some 1)
              else if utf8_width b = 2 then Inr (unat b mod 32 * 64 + low6 c, 2)
              else case ds of
                [] \<Rightarrow> Inl None
              | d # es \<Rightarrow>
                  if \<not> is_cont d then Inl (Some 2)
                  else if utf8_width b = 3 then Inr ((unat b mod 16 * 64 + low6 c) * 64 + low6 d, 3)
                  else case es of
                    [] \<Rightarrow> Inl None
                  | e # _ \<Rightarrow>
                      if \<not> is_cont e then Inl (Some 3)
                      else Inr (((unat b mod 8 * 64 + low6 c) * 64 + low6 d) * 64 + low6 e, 4))"

lemma utf8_first_width: "utf8_first bs = Inr (c, n) \<Longrightarrow> 0 < n \<and> n \<le> length bs"
  by (auto simp: utf8_first_def split: list.splits if_splits)

text \<open>\<open>str::from_utf8\<close>: an error says how far the bytes are valid and how many after that are not.\<close>

function utf8_decode_from :: "nat \<Rightarrow> byte list \<Rightarrow> (nat \<times> nat option) + ustr" where
  "utf8_decode_from i bs =
     (if bs = [] then Inr []
      else case utf8_first bs of
        Inl n \<Rightarrow> Inl (i, n)
      | Inr (c, n) \<Rightarrow> map_sum id (Cons c) (utf8_decode_from (i + n) (drop n bs)))"
  by pat_completeness auto
termination
  by (relation "measure (\<lambda>(_, bs). length bs)") (auto dest: utf8_first_width [OF sym] utf8_first_width)

declare utf8_decode_from.simps [simp del]

definition from_utf8 :: "byte list \<Rightarrow> (nat \<times> nat option) + ustr" where
  "from_utf8 bs = utf8_decode_from 0 bs"

text \<open>The \<open>Display\<close> of the error.\<close>

fun show_utf8_error :: "nat \<times> nat option \<Rightarrow> ustr" where
  "show_utf8_error (i, Some n) = lit ''invalid utf-8 sequence of '' @ dec_digits n @ lit '' bytes from index '' @ dec_digits i"
| "show_utf8_error (i, None) = lit ''incomplete utf-8 byte sequence from index '' @ dec_digits i"

text \<open>\<open>from_utf8_lossy\<close>: each run of bytes that is no character becomes U+FFFD.\<close>

function utf8_lossy :: "byte list \<Rightarrow> ustr" where
  "utf8_lossy bs =
     (if bs = [] then []
      else case utf8_first bs of
        Inl None \<Rightarrow> [65533]
      | Inl (Some n) \<Rightarrow> 65533 # utf8_lossy (drop (max 1 n) bs)
      | Inr (c, n) \<Rightarrow> c # utf8_lossy (drop n bs))"
  by pat_completeness auto
termination
  by (relation "measure length") (auto dest: utf8_first_width [OF sym] utf8_first_width)

declare utf8_lossy.simps [simp del]

section \<open>Encoding\<close>

definition cont :: "nat \<Rightarrow> byte" where
  "cont n = of_nat (128 + n mod 64)"

definition utf8_char :: "uchar \<Rightarrow> byte list" where
  "utf8_char c =
     (if c < 128 then [of_nat c]
      else if c < 2048 then [of_nat (192 + c div 64), cont c]
      else if c < 65536 then [of_nat (224 + c div 4096), cont (c div 64), cont c]
      else [of_nat (240 + c div 262144), cont (c div 4096), cont (c div 64), cont c])"

definition utf8_bytes :: "ustr \<Rightarrow> byte list" where
  "utf8_bytes s = concat (map utf8_char s)"

text \<open>A Unicode scalar value, which every Rust \<open>char\<close> is.\<close>

definition is_scalar :: "uchar \<Rightarrow> bool" where
  "is_scalar c \<longleftrightarrow> c < 55296 \<or> 57344 \<le> c \<and> c < 1114112"

lemma utf8_bytes_simps [simp]: "utf8_bytes [] = []" "utf8_bytes (c # s) = utf8_char c @ utf8_bytes s"
    "utf8_bytes (s @ t) = utf8_bytes s @ utf8_bytes t"
  by (simp_all add: utf8_bytes_def)

lemma unat_byte: "n < 256 \<Longrightarrow> unat (of_nat n :: byte) = n"
  by (simp only: unat_of_nat) (simp add: take_bit_nat_eq_self)

lemma cont_ok: "is_cont (cont n)" "unat (cont n) = 128 + n mod 64" "low6 (cont n) = n mod 64"
proof -
  have lt: "128 + n mod 64 < 256" using mod_less_divisor [of 64 n] by simp
  then show u: "unat (cont n) = 128 + n mod 64" unfolding cont_def by (rule unat_byte)
  have "(128 + n mod 64) mod 64 = n mod 64" using mod_mult_self1 [of "n mod 64" 2 64] by (simp add: add.commute)
  then show "low6 (cont n) = n mod 64" by (simp add: low6_def u)
  have "n mod 64 \<le> 63" using mod_less_divisor [of 64 n] by simp
  then show "is_cont (cont n)" unfolding is_cont_def word_le_nat_alt u by simp
qed

lemma lead_byte:
  assumes "n < 256"
  shows "utf8_width (of_nat n) = (if n < 128 then 1 else if 194 \<le> n \<and> n \<le> 223 then 2 else if 224 \<le> n \<and> n \<le> 239 then 3
      else if 240 \<le> n \<and> n \<le> 244 then 4 else 0)"
    and "second_ok (of_nat n) (cont m) \<longleftrightarrow>
     (if n = 224 then 32 \<le> m mod 64 else if n = 237 then m mod 64 \<le> 31 else if n = 240 then 16 \<le> m mod 64
      else if n = 244 then m mod 64 \<le> 15 else True)"
proof -
  note u = unat_byte [OF assms]
  have eq: "of_nat n = (k :: byte) \<longleftrightarrow> n = unat k" for k using u word_unat_eq_iff by metis
  show "utf8_width (of_nat n) = (if n < 128 then 1 else if 194 \<le> n \<and> n \<le> 223 then 2 else if 224 \<le> n \<and> n \<le> 239 then 3
      else if 240 \<le> n \<and> n \<le> 244 then 4 else 0)"
    by (simp add: utf8_width_def word_le_nat_alt word_less_nat_alt u del: of_nat_numeral)
  have "m mod 64 \<le> 63" using mod_less_divisor [of 64 m] by simp
  then show "second_ok (of_nat n) (cont m) \<longleftrightarrow>
     (if n = 224 then 32 \<le> m mod 64 else if n = 237 then m mod 64 \<le> 31 else if n = 240 then 16 \<le> m mod 64
      else if n = 244 then m mod 64 \<le> 15 else True)"
    unfolding second_ok_def eq word_le_nat_alt cont_ok(2) by (simp add: cont_ok(1))
qed

text \<open>The digits of a code point in base 64.\<close>

lemma base64_digits:
  fixes c :: nat
  defines "q \<equiv> c div 64"
  shows "c = q * 64 + c mod 64" "c div 4096 = q div 64" "c div 262144 = q div 64 div 64"
    "c < 2048 \<longleftrightarrow> q < 32" "c < 65536 \<longleftrightarrow> q < 1024" "c < 55296 \<longleftrightarrow> q < 864" "c < 57344 \<longleftrightarrow> q < 896" "c < 1114112 \<longleftrightarrow> q < 17408"
  unfolding q_def by (simp_all add: div_less_iff_less_mult flip: div_mult2_eq)

lemma utf8_first_char:
  assumes "is_scalar c"
  shows "utf8_first (utf8_char c @ rest) = Inr (c, length (utf8_char c))"
proof -
  define q where "q = c div 64"
  note digits = base64_digits [of c, folded q_def]
  have scalar: "q < 864 \<or> 896 \<le> q" "q < 17408" using assms digits unfolding is_scalar_def by linarith+
  consider "c < 128" | "128 \<le> c" "q < 32" | "32 \<le> q" "q < 1024" | "1024 \<le> q" by linarith
  then show ?thesis
  proof cases
    case 1
    then show ?thesis by (simp add: utf8_char_def utf8_first_def lead_byte unat_byte)
  next
    case 2
    define n where "n = 192 + q"
    have "2 \<le> q" using 2(1) digits(1) mod_less_divisor [of 64 c] by linarith
    with 2(2) have n: "194 \<le> n" "n \<le> 223" "n < 256" "n mod 32 = q"
      using mod_mult_self1 [of q 6 32] by (simp_all add: n_def add.commute)
    have char: "utf8_char c = [of_nat n, cont c]" using 2 digits(4) by (simp add: utf8_char_def n_def q_def)
    have "n mod 32 * 64 + low6 (cont c) = c" unfolding cont_ok n(4) by (rule digits(1) [symmetric])
    with n(1-3) show ?thesis unfolding char by (simp add: utf8_first_def lead_byte unat_byte)
  next
    case 3
    define n where "n = 224 + q div 64"
    have q: "q = q div 64 * 64 + q mod 64" "q mod 64 \<le> 63" using mod_less_divisor [of 64 q] by simp_all
    then have n: "224 \<le> n" "n \<le> 239" "n < 256" "n = 224 \<Longrightarrow> 32 \<le> q mod 64" "n = 237 \<Longrightarrow> q mod 64 \<le> 31"
      using 3 scalar unfolding n_def by linarith+
    have n16: "n mod 16 = q div 64" using n(2) mod_mult_self1 [of "q div 64" 14 16] by (simp add: n_def add.commute)
    have "\<not> c < 128" using 3 digits(1) by linarith
    then have char: "utf8_char c = [of_nat n, cont q, cont c]" using 3 digits(2,4,5) by (simp add: utf8_char_def n_def q_def)
    have "(n mod 16 * 64 + low6 (cont q)) * 64 + low6 (cont c) = c"
      unfolding cont_ok n16 div_mult_mod_eq by (rule digits(1) [symmetric])
    with n show ?thesis unfolding char by (simp add: utf8_first_def lead_byte unat_byte cont_ok(1))
  next
    case 4
    define r where "r = q div 64"
    define n where "n = 240 + r div 64"
    have r: "16 \<le> r" "r < 272" "q = r * 64 + q mod 64"
      using div_le_mono [OF 4, of 64] scalar(2) by (simp_all add: r_def div_less_iff_less_mult)
    have "r = r div 64 * 64 + r mod 64" "r mod 64 \<le> 63" using mod_less_divisor [of 64 r] by simp_all
    then have n: "240 \<le> n" "n \<le> 244" "n < 256" "n = 240 \<Longrightarrow> 16 \<le> r mod 64" "n = 244 \<Longrightarrow> r mod 64 \<le> 15"
      using r unfolding n_def by linarith+
    have n8: "n mod 8 = r div 64" using n(2) mod_mult_self1 [of "r div 64" 30 8] by (simp add: n_def add.commute)
    have "\<not> c < 128" using 4 digits(1) by linarith
    then have char: "utf8_char c = [of_nat n, cont r, cont q, cont c]"
      using 4 digits(2-5) by (simp add: utf8_char_def n_def q_def r_def)
    have "((n mod 8 * 64 + low6 (cont r)) * 64 + low6 (cont q)) * 64 + low6 (cont c) = c"
      unfolding cont_ok n8 div_mult_mod_eq r(3) [symmetric] by (rule digits(1) [symmetric])
    with n show ?thesis unfolding char by (simp add: utf8_first_def lead_byte unat_byte cont_ok(1))
  qed
qed

lemma utf8_char_not_Nil [simp]: "utf8_char c \<noteq> []"
  by (simp add: utf8_char_def)

lemma utf8_decode_bytes: "list_all is_scalar s \<Longrightarrow> utf8_decode_from i (utf8_bytes s) = Inr s"
proof (induction s arbitrary: i)
  case Nil
  then show ?case by (simp add: utf8_decode_from.simps)
next
  case (Cons c s)
  then show ?case by (subst utf8_decode_from.simps) (simp add: utf8_first_char)
qed

text \<open>Decoding what was encoded.\<close>

lemma from_utf8_bytes: "list_all is_scalar s \<Longrightarrow> from_utf8 (utf8_bytes s) = Inr s"
  by (simp add: from_utf8_def utf8_decode_bytes)

text \<open>A string of characters below 128 is its bytes.\<close>

lemma utf8_ascii: "list_all (\<lambda>c. c < 128) s \<Longrightarrow> utf8_bytes s = map of_nat s"
  by (induction s) (simp_all add: utf8_char_def)

end
