(* ===== verification/Snapd_Http.thy ===== *)
theory Snapd_Http
  imports Connections Snap_Changes Json Utf8
begin

text \<open>
  The HTTP client that speaks to snapd, \<open>client/myna-config/src/adapters/snapd_client.rs\<close>: one
  request, its response's headers, and the three framings of a body. The world is the clock,
  the cancellation and what the socket does: every reading of the clock may find it later, a
  connection has what its write and its reads answer, and a read that nothing answers times
  out. The clock counts milliseconds. \<open>dbg\<close> stands for how \<open>{:?}\<close> prints a string; the decoding
  of snapd's JSON is \<open>serde\<close>'s.
\<close>

section \<open>Errors\<close>

datatype timeout_context = TC_Request | TC_ChangePolling

datatype snapd_error =
    SE_Cancel
  | SE_Timeout nat timeout_context
  | SE_Transport ustr
  | SE_Protocol ustr ustr
  | SE_ResponseTooLarge
  | SE_Snapd u16 "ustr option" ustr
  | SE_AuthorizationDenied u16 "ustr option" ustr

definition MAX_RESPONSE_BYTES :: nat where "MAX_RESPONSE_BYTES = 1024 * 1024"
definition MAX_HEADER_BYTES :: nat where "MAX_HEADER_BYTES = 32 * 1024"
definition MAX_CHUNK_BYTES :: nat where "MAX_CHUNK_BYTES = MAX_RESPONSE_BYTES"
definition SCRATCH :: nat where "SCRATCH = 8 * 1024"

section \<open>The world\<close>

datatype read_result = RD_Bytes "byte list" | RD_Interrupted | RD_TimedOut | RD_Failed ustr

datatype write_result = WR_Done | WR_TimedOut | WR_Failed ustr

record link =
  ln_connect :: "ustr option"
  ln_write :: write_result
  ln_reads :: "read_result list"

record snapd_io =
  io_now :: nat
  io_ticks :: "nat list"
  io_cancel_at :: "nat option"
  io_links :: "link list"
  io_reads :: "read_result list"
  io_log :: "byte list list"

definition tick :: "snapd_io \<Rightarrow> snapd_io" where
  "tick w = (case io_ticks w of [] \<Rightarrow> w | d # ds \<Rightarrow> w\<lparr>io_now := io_now w + d, io_ticks := ds\<rparr>)"

definition io_cancelled :: "snapd_io \<Rightarrow> bool" where
  "io_cancelled w = (case io_cancel_at w of None \<Rightarrow> False | Some t \<Rightarrow> t \<le> io_now w)"

text \<open>\<open>start.elapsed()\<close> in a timeout.\<close>

definition timed_out :: "nat \<Rightarrow> timeout_context \<Rightarrow> snapd_io \<Rightarrow> (snapd_error + 'a) \<times> snapd_io" where
  "timed_out start ctx w = (let w' = tick w in (Inl (SE_Timeout (io_now w' - start) ctx), w'))"

definition remaining :: "nat \<Rightarrow> nat \<Rightarrow> timeout_context \<Rightarrow> snapd_io \<Rightarrow> (snapd_error + nat) \<times> snapd_io" where
  "remaining deadline start ctx w =
     (let w1 = tick w in if deadline \<le> io_now w1 then timed_out start ctx w1 else (Inr (deadline - io_now w1), w1))"

text \<open>A blocking call that the socket's timeout ends has waited until the deadline.\<close>

definition until :: "nat \<Rightarrow> snapd_io \<Rightarrow> snapd_io" where
  "until deadline w = w\<lparr>io_now := max deadline (io_now w)\<rparr>"

lemma tick_fields [simp]: "io_reads (tick w) = io_reads w" "io_links (tick w) = io_links w" "io_log (tick w) = io_log w"
    "io_cancel_at (tick w) = io_cancel_at w" "io_now w \<le> io_now (tick w)"
  by (simp_all add: tick_def split: list.split)

lemma remaining_fields:
  assumes "remaining deadline start ctx w = (r, w1)"
  shows "io_reads w1 = io_reads w" "io_links w1 = io_links w" "io_log w1 = io_log w" "io_cancel_at w1 = io_cancel_at w" "io_now w \<le> io_now w1"
  using assms order_trans [OF tick_fields(5) [of w] tick_fields(5) [of "tick w"]]
  by (auto simp: remaining_def timed_out_def Let_def split: if_splits)

text \<open>One \<open>read\<close> into the scratch buffer; a signal that interrupts it is retried.\<close>

function read_some :: "nat \<Rightarrow> nat \<Rightarrow> timeout_context \<Rightarrow> snapd_io \<Rightarrow> (snapd_error + byte list) \<times> snapd_io" where
  "read_some start deadline ctx w =
     (case remaining deadline start ctx w of
        (Inl e, w1) \<Rightarrow> (Inl e, w1)
      | (Inr _, w1) \<Rightarrow>
          (case io_reads w1 of
             [] \<Rightarrow> timed_out start ctx (until deadline w1)
           | RD_Interrupted # rs \<Rightarrow> read_some start deadline ctx (w1\<lparr>io_reads := rs\<rparr>)
           | RD_TimedOut # rs \<Rightarrow> timed_out start ctx (until deadline (w1\<lparr>io_reads := rs\<rparr>))
           | RD_Failed e # rs \<Rightarrow> (Inl (SE_Transport e), w1\<lparr>io_reads := rs\<rparr>)
           | RD_Bytes bs # rs \<Rightarrow>
               (Inr (take SCRATCH bs), w1\<lparr>io_reads := (if SCRATCH < length bs then RD_Bytes (drop SCRATCH bs) # rs else rs)\<rparr>)))"
  by pat_completeness auto

termination
proof (relation "measure (\<lambda>(_, _, _, w). length (io_reads w))")
  fix start deadline ctx w r w1 u x rs
  assume "(r, w1) = remaining deadline start ctx w" and "io_reads w1 = x # rs"
  then show "((start, deadline, ctx, w1\<lparr>io_reads := rs\<rparr>), start, deadline, ctx, w) \<in> measure (\<lambda>(_, _, _, w). length (io_reads w))"
    using remaining_fields(1) [of deadline start ctx w r w1] by simp
qed simp

declare read_some.simps [simp del]

text \<open>How much the socket still has to say; every read that finds something takes of it.\<close>

fun read_size :: "read_result \<Rightarrow> nat" where
  "read_size (RD_Bytes bs) = Suc (length bs)"
| "read_size _ = 1"

definition reads_left :: "snapd_io \<Rightarrow> nat" where
  "reads_left w = sum_list (map read_size (io_reads w))"

lemma reads_left_Cons: "io_reads w = x # rs \<Longrightarrow> reads_left w = read_size x + sum_list (map read_size rs)"
  by (simp add: reads_left_def)

lemma read_some_less: "read_some start deadline ctx w = (Inr bs, w') \<Longrightarrow> reads_left w' < reads_left w"
proof (induction start deadline ctx w rule: read_some.induct)
  case (1 start deadline ctx w)
  obtain r w1 where r: "remaining deadline start ctx w = (r, w1)" by fastforce
  note same = remaining_fields(1) [OF r]
  show ?case
  proof (cases r)
    case (Inl e)
    with r "1.prems" show ?thesis by (simp add: read_some.simps)
  next
    case (Inr d)
    show ?thesis
    proof (cases "io_reads w1")
      case Nil
      with r Inr "1.prems" show ?thesis by (simp add: read_some.simps timed_out_def Let_def)
    next
      case (Cons x rs)
      then have w: "io_reads w = x # rs" using same by simp
      show ?thesis
      proof (cases x)
        case (RD_Bytes b)
        with r Inr Cons "1.prems" same show ?thesis
          by (auto simp: read_some.simps [of start deadline ctx w] reads_left_def SCRATCH_def split: if_splits)
      next
        case RD_Interrupted
        with r Inr Cons "1.prems" have "read_some start deadline ctx (w1\<lparr>io_reads := rs\<rparr>) = (Inr bs, w')"
          by (simp add: read_some.simps [of start deadline ctx w])
        from "1.IH" [OF r [symmetric] Inr Cons RD_Interrupted this] w RD_Interrupted show ?thesis
          by (simp add: reads_left_def)
      qed (use r Inr Cons "1.prems" in \<open>auto simp: read_some.simps [of start deadline ctx w] timed_out_def Let_def\<close>)
    qed
  qed
qed

section \<open>Finding line ends\<close>

definition CRLF :: "byte list" where "CRLF = [13, 10]"

fun find_sub :: "byte list \<Rightarrow> byte list \<Rightarrow> nat option" where
  "find_sub p [] = (if p = [] then Some 0 else None)"
| "find_sub p (b # bs) = (if take (length p) (b # bs) = p then Some 0 else map_option Suc (find_sub p bs))"

definition find_crlf :: "byte list \<Rightarrow> nat option" where
  "find_crlf = find_sub CRLF"

definition find_double_crlf :: "byte list \<Rightarrow> nat option" where
  "find_double_crlf = find_sub (CRLF @ CRLF)"

section \<open>Headers\<close>

record http_headers =
  hd_status_code :: u16
  hd_content_length :: "nat option"
  hd_chunked :: bool

definition eq_ignore_ascii_case :: "ustr \<Rightarrow> ustr \<Rightarrow> bool" where
  "eq_ignore_ascii_case s t \<longleftrightarrow> to_ascii_lowercase s = to_ascii_lowercase t"

definition comma_parts :: "ustr \<Rightarrow> ustr list" where
  "comma_parts value = filter (\<lambda>s. s \<noteq> []) (map trim (split_p (\<lambda>c. c = 44) value))"

text \<open>The values of one \<open>Content-Length\<close> header, which must agree.\<close>

fun agree_lengths :: "(ustr \<Rightarrow> ustr) \<Rightarrow> ustr \<Rightarrow> ustr \<Rightarrow> nat option \<Rightarrow> ustr list \<Rightarrow> snapd_error + nat option" where
  "agree_lengths dbg line value agreed [] = Inr agreed"
| "agree_lengths dbg line value agreed (part # parts) =
     (case parse_unsigned (2 ^ 64) part of
        None \<Rightarrow> Inl (SE_Protocol (lit ''invalid Content-Length: '' @ dbg value) line)
      | Some n \<Rightarrow>
          (case agreed of
             None \<Rightarrow> agree_lengths dbg line value (Some n) parts
           | Some m \<Rightarrow> if m = n then agree_lengths dbg line value agreed parts
                       else Inl (SE_Protocol (lit ''conflicting Content-Length values: '' @ dbg value) line)))"

definition content_length_header :: "(ustr \<Rightarrow> ustr) \<Rightarrow> ustr \<Rightarrow> ustr \<Rightarrow> nat option \<Rightarrow> snapd_error + nat option" where
  "content_length_header dbg line value so_far =
     (case agree_lengths dbg line value None (comma_parts value) of
        Inl e \<Rightarrow> Inl e
      | Inr None \<Rightarrow> Inl (SE_Protocol (lit ''invalid Content-Length: '' @ dbg value) line)
      | Inr (Some n) \<Rightarrow>
          (case so_far of
             Some m \<Rightarrow> if m \<noteq> n
               then Inl (SE_Protocol (lit ''conflicting Content-Length headers: '' @ dec_digits m @ lit '' vs '' @ dec_digits n) line)
               else Inr (Some n)
           | None \<Rightarrow> Inr (Some n)))"

definition transfer_encoding_header :: "(ustr \<Rightarrow> ustr) \<Rightarrow> ustr \<Rightarrow> ustr \<Rightarrow> snapd_error + unit" where
  "transfer_encoding_header dbg line value =
     (case comma_parts value of
        [] \<Rightarrow> Inl (SE_Protocol (lit ''empty Transfer-Encoding'') line)
      | [single] \<Rightarrow> if eq_ignore_ascii_case single (lit ''chunked'') then Inr ()
                    else Inl (SE_Protocol (lit ''unsupported Transfer-Encoding: '' @ dbg value) line)
      | _ \<Rightarrow> Inl (SE_Protocol (lit ''unsupported Transfer-Encoding: '' @ dbg value) line))"

text \<open>One line of the header block; \<open>chunked\<close> and \<open>saw_transfer_encoding\<close> are always set together.\<close>

definition header_line :: "(ustr \<Rightarrow> ustr) \<Rightarrow> ustr \<Rightarrow> nat option \<times> bool \<Rightarrow> snapd_error + nat option \<times> bool" where
  "header_line dbg line st =
     (if line = [] then Inr st
      else case split_once 58 line of
        None \<Rightarrow> Inr st
      | Some (name, value) \<Rightarrow>
          if eq_ignore_ascii_case (trim name) (lit ''content-length'')
          then map_sum (\<lambda>e. e) (\<lambda>n. (n, snd st)) (content_length_header dbg line (trim value) (fst st))
          else if eq_ignore_ascii_case (trim name) (lit ''transfer-encoding'')
          then map_sum (\<lambda>e. e) (\<lambda>_. (fst st, True)) (transfer_encoding_header dbg line (trim value))
          else Inr st)"

fun header_lines :: "(ustr \<Rightarrow> ustr) \<Rightarrow> ustr list \<Rightarrow> nat option \<times> bool \<Rightarrow> snapd_error + nat option \<times> bool" where
  "header_lines dbg [] st = Inr st"
| "header_lines dbg (line # lines) st = (case header_line dbg line st of Inl e \<Rightarrow> Inl e | Inr st' \<Rightarrow> header_lines dbg lines st')"

definition status_line :: "(ustr \<Rightarrow> ustr) \<Rightarrow> ustr \<Rightarrow> snapd_error + u16" where
  "status_line dbg line =
     (let (version, rest) = splitn2 (\<lambda>c. c = 32) line in
      if \<not> starts_with (lit ''HTTP/1.'') version
      then Inl (SE_Protocol (lit ''unsupported HTTP version: '' @ version) line)
      else
        let code = (case rest of None \<Rightarrow> [] | Some r \<Rightarrow> fst (splitn2 (\<lambda>c. c = 32) r)) in
        case parse_unsigned 65536 code of
          None \<Rightarrow> Inl (SE_Protocol (lit ''invalid HTTP status code: '' @ dbg code) line)
        | Some n \<Rightarrow> Inr (of_nat n))"

definition parse_headers :: "(ustr \<Rightarrow> ustr) \<Rightarrow> ustr \<Rightarrow> snapd_error + http_headers" where
  "parse_headers dbg t =
     (case split_str [13, 10] t of
        [] \<Rightarrow> Inl (SE_Protocol (lit ''missing HTTP status line'') [])
      | line # lines \<Rightarrow>
          (case status_line dbg line of
             Inl e \<Rightarrow> Inl e
           | Inr code \<Rightarrow>
               (case header_lines dbg lines (None, False) of
                  Inl e \<Rightarrow> Inl e
                | Inr (content_length, chunked) \<Rightarrow>
                    if chunked \<and> content_length \<noteq> None
                    then Inl (SE_Protocol (lit ''response declared both Transfer-Encoding and Content-Length'') [])
                    else Inr \<lparr>hd_status_code = code, hd_content_length = content_length, hd_chunked = chunked\<rparr>)))"

section \<open>Bodies\<close>

function read_head :: "nat \<Rightarrow> nat \<Rightarrow> timeout_context \<Rightarrow> byte list \<Rightarrow> snapd_io \<Rightarrow> (snapd_error + nat \<times> byte list) \<times> snapd_io" where
  "read_head start deadline ctx buffer w =
     (if io_cancelled w then (Inl SE_Cancel, w)
      else if deadline \<le> io_now (tick w) then timed_out start ctx (tick w)
      else case find_double_crlf buffer of
        Some i \<Rightarrow> (Inr (i, buffer), tick w)
      | None \<Rightarrow>
          if MAX_HEADER_BYTES \<le> length buffer
          then (Inl (SE_Protocol (lit ''snapd response headers exceeded '' @ dec_digits MAX_HEADER_BYTES
                                    @ lit '' bytes without a CRLF CRLF terminator'') []), tick w)
          else (case read_some start deadline ctx (tick w) of
                  (Inl e, w') \<Rightarrow> (Inl e, w')
                | (Inr bs, w') \<Rightarrow>
                    if bs = [] then (Inl (SE_Protocol (lit ''snapd closed the connection before completing headers'') (utf8_lossy buffer)), w')
                    else read_head start deadline ctx (buffer @ bs) w'))"
  by pat_completeness auto
termination
  by (relation "measure (\<lambda>(_, _, _, _, w). reads_left w)") (auto dest!: sym [of "(_, _)"] read_some_less simp: reads_left_def)

declare read_head.simps [simp del]

function read_exact :: "nat \<Rightarrow> nat \<Rightarrow> timeout_context \<Rightarrow> nat \<Rightarrow> byte list \<Rightarrow> snapd_io \<Rightarrow> (snapd_error + byte list) \<times> snapd_io" where
  "read_exact start deadline ctx len body w =
     (if length body < len then
        (if io_cancelled w then (Inl SE_Cancel, w)
         else case read_some start deadline ctx w of
           (Inl e, w') \<Rightarrow> (Inl e, w')
         | (Inr bs, w') \<Rightarrow>
             if bs = [] then (Inl (SE_Protocol (lit ''snapd closed the connection before Content-Length was satisfied'') (utf8_lossy body)), w')
             else if MAX_RESPONSE_BYTES < length body + length bs then (Inl SE_ResponseTooLarge, w')
             else read_exact start deadline ctx len (body @ bs) w')
      else (Inr (take len body), w))"
  by pat_completeness auto
termination
  by (relation "measure (\<lambda>(_, _, _, _, _, w). reads_left w)") (auto dest!: sym [of "(_, _)"] read_some_less)

declare read_exact.simps [simp del]

function read_to_end :: "nat \<Rightarrow> nat \<Rightarrow> timeout_context \<Rightarrow> byte list \<Rightarrow> snapd_io \<Rightarrow> (snapd_error + byte list) \<times> snapd_io" where
  "read_to_end start deadline ctx body w =
     (if io_cancelled w then (Inl SE_Cancel, w)
      else case read_some start deadline ctx w of
        (Inl e, w') \<Rightarrow> (Inl e, w')
      | (Inr bs, w') \<Rightarrow>
          if bs = [] then (Inr body, w')
          else if MAX_RESPONSE_BYTES < length body + length bs then (Inl SE_ResponseTooLarge, w')
          else read_to_end start deadline ctx (body @ bs) w')"
  by pat_completeness auto
termination
  by (relation "measure (\<lambda>(_, _, _, _, w). reads_left w)") (auto dest!: sym [of "(_, _)"] read_some_less)

declare read_to_end.simps [simp del]

subsection \<open>Chunks\<close>

datatype chunk_step = CH_Chunk "byte list" | CH_NeedMore | CH_Complete

definition is_ascii_hexdigit :: "uchar \<Rightarrow> bool" where
  "is_ascii_hexdigit c \<longleftrightarrow> is_ascii_digit c \<or> 97 \<le> c \<and> c \<le> 102 \<or> 65 \<le> c \<and> c \<le> 70"

definition hex_digit :: "uchar \<Rightarrow> nat" where
  "hex_digit c = (if is_ascii_digit c then c - 48 else if 97 \<le> c then c - 87 else c - 55)"

definition hex_value :: "ustr \<Rightarrow> nat" where
  "hex_value = foldl (\<lambda>n c. n * 16 + hex_digit c) 0"

text \<open>The length a chunk's first line announces.\<close>

definition chunk_size :: "(ustr \<Rightarrow> ustr) \<Rightarrow> byte list \<Rightarrow> snapd_error + nat" where
  "chunk_size dbg line =
     (case from_utf8 line of
        Inl e \<Rightarrow> Inl (SE_Protocol (lit ''invalid chunk header: '' @ show_utf8_error e) [])
      | Inr header \<Rightarrow>
          (let size_str = trim (hd (split_p (\<lambda>c. c = 59) header)) in
           if size_str = [] \<or> \<not> list_all is_ascii_hexdigit size_str
           then Inl (SE_Protocol (lit ''invalid chunk length '' @ dbg size_str) [])
           else if 2 ^ 64 \<le> hex_value size_str
           then Inl (SE_Protocol (lit ''invalid chunk length '' @ dbg size_str @ lit '': number too large to fit in target type'') [])
           else Inr (hex_value size_str)))"

definition decode_chunked :: "(ustr \<Rightarrow> ustr) \<Rightarrow> byte list \<Rightarrow> snapd_error + chunk_step \<times> byte list" where
  "decode_chunked dbg buffer =
     (case find_crlf buffer of
        None \<Rightarrow> if MAX_CHUNK_BYTES < length buffer then Inl SE_ResponseTooLarge else Inr (CH_NeedMore, buffer)
      | Some line_end \<Rightarrow>
          (case chunk_size dbg (take line_end buffer) of
             Inl e \<Rightarrow> Inl e
           | Inr len \<Rightarrow>
               if MAX_CHUNK_BYTES < len then Inl SE_ResponseTooLarge
               else
                 let needed = line_end + 2 + len + 2; trailer_start = line_end + 2 + len in
                 if length buffer < needed then Inr (CH_NeedMore, buffer)
                 else if take 2 (drop trailer_start buffer) \<noteq> CRLF then Inl (SE_Protocol (lit ''chunk not terminated by CRLF'') [])
                 else if len = 0 then Inr (CH_Complete, drop needed buffer)
                 else Inr (CH_Chunk (take len (drop (line_end + 2) buffer)), drop needed buffer)))"

lemma decode_chunked_shorter: "decode_chunked dbg buffer = Inr (CH_Chunk chunk, rest) \<Longrightarrow> length rest < length buffer"
  by (auto simp: decode_chunked_def Let_def split: option.splits sum.splits if_splits)

function read_chunked :: "(ustr \<Rightarrow> ustr) \<Rightarrow> nat \<Rightarrow> nat \<Rightarrow> timeout_context \<Rightarrow> byte list \<Rightarrow> byte list \<Rightarrow> snapd_io
    \<Rightarrow> (snapd_error + byte list) \<times> snapd_io" where
  "read_chunked dbg start deadline ctx body pending w =
     (case decode_chunked dbg pending of
        Inl e \<Rightarrow> (Inl e, w)
      | Inr (CH_Complete, _) \<Rightarrow> (Inr body, w)
      | Inr (CH_NeedMore, pending) \<Rightarrow>
          if io_cancelled w then (Inl SE_Cancel, w)
          else if MAX_CHUNK_BYTES \<le> length pending then (Inl SE_ResponseTooLarge, w)
          else (case read_some start deadline ctx w of
                  (Inl e, w') \<Rightarrow> (Inl e, w')
                | (Inr bs, w') \<Rightarrow>
                    if bs = [] then (Inl (SE_Protocol (lit ''snapd closed the connection during chunked transfer'') (utf8_lossy pending)), w')
                    else read_chunked dbg start deadline ctx body (pending @ bs) w')
      | Inr (CH_Chunk chunk, pending) \<Rightarrow>
          if MAX_RESPONSE_BYTES < length body + length chunk then (Inl SE_ResponseTooLarge, w)
          else read_chunked dbg start deadline ctx (body @ chunk) pending w)"
  by pat_completeness auto
termination
  by (relation "measures [\<lambda>(_, _, _, _, _, _, w). reads_left w, \<lambda>(_, _, _, _, _, pending, _). length pending]")
    (auto dest: read_some_less [OF sym] decode_chunked_shorter)

declare read_chunked.simps [simp del]

section \<open>Envelopes\<close>

text \<open>What \<open>serde\<close> derives: the envelope \<open>Raw\<close>, the \<open>ErrResult\<close> of an error, and what the callers decode.\<close>

record raw_envelope =
  rw_kind :: ustr
  rw_status_code :: "u16 option"
  rw_change :: "ustr option"
  rw_result :: json

record change_body =
  cb_ready :: bool
  cb_status :: ustr
  cb_err :: "ustr option"

record snapd_json =
  sj_raw :: "ustr \<Rightarrow> ustr + raw_envelope"
  sj_err_result :: "json \<Rightarrow> (ustr \<times> ustr option) option"
  sj_change_body :: "json \<Rightarrow> ustr + change_body"
  sj_change :: "json \<Rightarrow> ustr + change_in_progress"
  sj_changes :: "json \<Rightarrow> ustr + change_in_progress list"
  sj_print :: "json \<Rightarrow> ustr"
  sj_debug :: "ustr \<Rightarrow> ustr"

datatype envelope =
    EN_Sync json
  | EN_Async ustr
  | EN_Error u16 "ustr option" ustr

text \<open>The longest prefix of whole characters that fits in \<open>n\<close> bytes.\<close>

fun take_bytes :: "nat \<Rightarrow> ustr \<Rightarrow> ustr" where
  "take_bytes n [] = []"
| "take_bytes n (c # s) = (if length (utf8_char c) \<le> n then c # take_bytes (n - length (utf8_char c)) s else [])"

definition truncate_str :: "ustr \<Rightarrow> nat \<Rightarrow> ustr" where
  "truncate_str input mx = (if length (utf8_bytes input) \<le> mx then input else take_bytes mx input @ [8230])"

definition parse_envelope :: "snapd_json \<Rightarrow> ustr \<Rightarrow> snapd_error + envelope" where
  "parse_envelope J body =
     (case sj_raw J body of
        Inl e \<Rightarrow> Inl (SE_Protocol (lit ''invalid snapd envelope: '' @ e) (truncate_str body 512))
      | Inr raw \<Rightarrow>
          if rw_kind raw = lit ''sync'' then Inr (EN_Sync (rw_result raw))
          else if rw_kind raw = lit ''async'' then
            (case rw_change raw of
               None \<Rightarrow> Inl (SE_Protocol (lit ''async envelope missing change id'') (truncate_str body 512))
             | Some change_id \<Rightarrow> Inr (EN_Async change_id))
          else if rw_kind raw = lit ''error'' then
            (let (message, kind) = the_default (lit ''snapd returned an error without a result body'', None) (sj_err_result J (rw_result raw)) in
             Inr (EN_Error (the_default 0 (rw_status_code raw)) kind
                    (if message = [] then lit ''snapd returned an error without a message'' else message)))
          else Inl (SE_Protocol (lit ''unknown snapd envelope type: '' @ rw_kind raw) (truncate_str body 512)))"

definition classify_error :: "u16 \<Rightarrow> ustr option \<Rightarrow> ustr \<Rightarrow> snapd_error" where
  "classify_error status_code kind message =
     (if kind = Some (lit ''auth-cancelled'') then SE_Cancel
      else if status_code = 401 \<or> status_code = 403 \<or> kind = Some (lit ''login-required'') \<or> kind = Some (lit ''interactive-required'')
      then SE_AuthorizationDenied status_code kind message
      else SE_Snapd status_code kind message)"

section \<open>One response\<close>

text \<open>The first half of \<open>read_response\<close>: the status and the bytes of the body.\<close>

definition read_body :: "snapd_json \<Rightarrow> nat \<Rightarrow> nat \<Rightarrow> timeout_context \<Rightarrow> http_headers \<Rightarrow> byte list \<Rightarrow> snapd_io
    \<Rightarrow> (snapd_error + byte list) \<times> snapd_io" where
  "read_body J start deadline ctx headers rest w =
     (case hd_content_length headers of
        Some len \<Rightarrow> if MAX_RESPONSE_BYTES < len then (Inl SE_ResponseTooLarge, w) else read_exact start deadline ctx len rest w
      | None \<Rightarrow> if hd_chunked headers then read_chunked (sj_debug J) start deadline ctx [] rest w
                else read_to_end start deadline ctx rest w)"

definition response_bytes :: "snapd_json \<Rightarrow> nat \<Rightarrow> nat \<Rightarrow> timeout_context \<Rightarrow> snapd_io
    \<Rightarrow> (snapd_error + u16 \<times> byte list) \<times> snapd_io" where
  "response_bytes J start deadline ctx w =
     (case read_head start deadline ctx [] w of
        (Inl e, w1) \<Rightarrow> (Inl e, w1)
      | (Inr (header_end, buffer), w1) \<Rightarrow>
          (case from_utf8 (take header_end buffer) of
             Inl e \<Rightarrow> (Inl (SE_Protocol (lit ''invalid header bytes: '' @ show_utf8_error e) []), w1)
           | Inr header_text \<Rightarrow>
               (case parse_headers (sj_debug J) header_text of
                  Inl e \<Rightarrow> (Inl e, w1)
                | Inr headers \<Rightarrow>
                    (case read_body J start deadline ctx headers (drop (header_end + 4) buffer) w1 of
                       (Inl e, w2) \<Rightarrow> (Inl e, w2)
                     | (Inr body, w2) \<Rightarrow> (Inr (hd_status_code headers, body), w2)))))"

text \<open>Its second half: the text, and a status other than 2xx only with an error envelope.\<close>

definition response_text :: "snapd_json \<Rightarrow> u16 \<Rightarrow> byte list \<Rightarrow> snapd_error + ustr" where
  "response_text J status_code body_bytes =
     (case from_utf8 body_bytes of
        Inl e \<Rightarrow> Inl (SE_Protocol (lit ''body was not valid UTF-8: '' @ show_utf8_error e) [])
      | Inr body \<Rightarrow>
          if \<not> (200 \<le> status_code \<and> status_code < 300) then
            (case parse_envelope J body of
               Inr (EN_Error _ _ _) \<Rightarrow> Inr body
             | _ \<Rightarrow> Inl (SE_Snapd status_code None
                      (lit ''snapd HTTP '' @ dec_digits (unat status_code) @ lit '', body: '' @ truncate_str body 512)))
          else Inr body)"

definition read_response :: "snapd_json \<Rightarrow> nat \<Rightarrow> nat \<Rightarrow> timeout_context \<Rightarrow> snapd_io \<Rightarrow> (snapd_error + ustr) \<times> snapd_io" where
  "read_response J start deadline ctx w =
     (case response_bytes J start deadline ctx w of
        (Inl e, w') \<Rightarrow> (Inl e, w')
      | (Inr (status_code, body), w') \<Rightarrow> (response_text J status_code body, w'))"

section \<open>One request\<close>

record snapd_timeouts =
  to_per_request :: nat
  to_authorization :: nat
  to_poll_interval :: nat
  to_total :: nat

definition default_timeouts :: snapd_timeouts where
  "default_timeouts = \<lparr>to_per_request = 30 * 1000, to_authorization = 10 * 60 * 1000, to_poll_interval = 500, to_total = 120 * 1000\<rparr>"

definition crlf :: ustr where "crlf = [13, 10]"

definition http_request :: "ustr \<Rightarrow> ustr \<Rightarrow> ustr option \<Rightarrow> ustr" where
  "http_request meth path body =
     meth @ lit '' '' @ path @ lit '' HTTP/1.1'' @ crlf @ lit ''Host: snapd'' @ crlf @ lit ''Accept: application/json'' @ crlf
     @ lit ''X-Allow-Interaction: true'' @ crlf @ lit ''Connection: close'' @ crlf
     @ (case body of
          Some b \<Rightarrow> lit ''Content-Type: application/json'' @ crlf @ lit ''Content-Length: '' @ dec_digits (length (utf8_bytes b)) @ crlf @ crlf @ b
        | None \<Rightarrow> crlf)"

text \<open>The next connection; once the world has none left, nothing listens on the socket.\<close>

definition connect :: "snapd_io \<Rightarrow> (ustr + write_result) \<times> snapd_io" where
  "connect w =
     (case io_links w of
        [] \<Rightarrow> (Inl (lit ''Connection refused (os error 111)''), w)
      | l # ls \<Rightarrow>
          (case ln_connect l of
             Some e \<Rightarrow> (Inl e, w\<lparr>io_links := ls\<rparr>)
           | None \<Rightarrow> (Inr (ln_write l), w\<lparr>io_links := ls, io_reads := ln_reads l\<rparr>)))"

definition send_request :: "nat \<Rightarrow> nat \<Rightarrow> timeout_context \<Rightarrow> byte list \<Rightarrow> write_result \<Rightarrow> snapd_io
    \<Rightarrow> (snapd_error + unit) \<times> snapd_io" where
  "send_request start deadline ctx bytes wr w =
     (let w1 = w\<lparr>io_log := io_log w @ [bytes]\<rparr> in
      case wr of
        WR_Done \<Rightarrow> (Inr (), w1)
      | WR_TimedOut \<Rightarrow> timed_out start ctx (until deadline w1)
      | WR_Failed e \<Rightarrow> (Inl (SE_Transport e), w1))"

definition do_request :: "snapd_json \<Rightarrow> ustr \<Rightarrow> ustr \<Rightarrow> ustr \<Rightarrow> ustr option \<Rightarrow> timeout_context \<Rightarrow> snapd_timeouts \<Rightarrow> nat \<Rightarrow> nat
    \<Rightarrow> snapd_io \<Rightarrow> (snapd_error + ustr) \<times> snapd_io" where
  "do_request J socket_path meth path body ctx timeouts start deadline w =
     (if io_cancelled w then (Inl SE_Cancel, w)
      else
        let w1 = tick w in
        if deadline \<le> io_now w1 then timed_out start ctx w1
        else
          let call_deadline = min (io_now w1 + to_per_request timeouts) deadline in
          case connect w1 of
            (Inl e, w2) \<Rightarrow> (Inl (SE_Transport (lit ''connect '' @ socket_path @ lit '': '' @ e)), w2)
          | (Inr wr, w2) \<Rightarrow>
              (case remaining call_deadline start ctx w2 of
                 (Inl e, w3) \<Rightarrow> (Inl e, w3)
               | (Inr _, w3) \<Rightarrow>
                   (case remaining call_deadline start ctx w3 of
                      (Inl e, w4) \<Rightarrow> (Inl e, w4)
                    | (Inr _, w4) \<Rightarrow>
                        (case send_request start call_deadline ctx (utf8_bytes (http_request meth path body)) wr w4 of
                           (Inl e, w5) \<Rightarrow> (Inl e, w5)
                         | (Inr _, w5) \<Rightarrow> read_response J start call_deadline ctx w5))))"

section \<open>What reading leaves alone\<close>

text \<open>Readers open no connection and send nothing, and the clock never goes back.\<close>

definition keeps :: "snapd_io \<Rightarrow> snapd_io \<Rightarrow> bool" where
  "keeps w w' \<longleftrightarrow> io_links w' = io_links w \<and> io_log w' = io_log w \<and> io_now w \<le> io_now w'"

lemma keeps_refl [simp]: "keeps w w"
  by (simp add: keeps_def)

lemma keeps_trans: "keeps w w1 \<Longrightarrow> keeps w1 w2 \<Longrightarrow> keeps w w2"
  by (simp add: keeps_def)

lemma keeps_tick [simp]: "keeps w (tick w)"
  by (simp add: keeps_def)

lemma keeps_until [simp]: "keeps w (until d w)"
  by (simp add: keeps_def until_def)

lemma keeps_reads [simp]: "keeps w (w1\<lparr>io_reads := rs\<rparr>) = keeps w w1" "keeps (w1\<lparr>io_reads := rs\<rparr>) w = keeps w1 w"
  by (simp_all add: keeps_def)

lemma keeps_timed_out [simp]: "keeps w (snd (timed_out start ctx w))"
  by (simp add: timed_out_def Let_def)

lemma keeps_timed_out_trans: "keeps w w1 \<Longrightarrow> keeps w (snd (timed_out start ctx w1))"
  by (rule keeps_trans [OF _ keeps_timed_out])

lemma keeps_remaining: "remaining deadline start ctx w = (r, w1) \<Longrightarrow> keeps w w1"
  using remaining_fields [of deadline start ctx w r w1] by (simp add: keeps_def)

lemma keeps_read_some: "keeps w (snd (read_some start deadline ctx w))"
proof (induction start deadline ctx w rule: read_some.induct)
  case (1 start deadline ctx w)
  obtain r w1 where r: "remaining deadline start ctx w = (r, w1)" by fastforce
  note k = keeps_remaining [OF r]
  have u: "keeps w (until deadline w1)" and v: "\<And>rs. keeps w (until deadline (w1\<lparr>io_reads := rs\<rparr>))"
    using k keeps_trans [OF k keeps_until] keeps_trans [OF _ keeps_until, of w "w1\<lparr>io_reads := rs\<rparr>" for rs] by auto
  have ih: "keeps w (snd (read_some start deadline ctx (w1\<lparr>io_reads := rs\<rparr>)))"
    if "r = Inr d" and "io_reads w1 = RD_Interrupted # rs" for d rs
    using keeps_trans [OF _ "1.IH" [OF r [symmetric] that refl], of w] k by simp
  show ?case
    by (subst read_some.simps)
      (auto simp: r k ih keeps_timed_out_trans [OF u] keeps_timed_out_trans [OF v] split: sum.split list.split read_result.split)
qed

lemma keeps_read_some': "read_some start deadline ctx w = (r, w') \<Longrightarrow> keeps w w'"
  using keeps_read_some [of w start deadline ctx] by simp

lemma keeps_read_head: "keeps w (snd (read_head start deadline ctx buffer w))"
proof (induction start deadline ctx buffer w rule: read_head.induct)
  case (1 start deadline ctx buffer w)
  obtain r w1 where r: "read_some start deadline ctx (tick w) = (r, w1)" by fastforce
  have k: "keeps w w1" by (rule keeps_trans [OF keeps_tick keeps_read_some' [OF r]])
  show ?case
    by (subst read_head.simps)
      (auto simp: r k keeps_timed_out_trans split: sum.split option.split
         intro: keeps_trans [OF k "1.IH" [OF _ _ _ _ r [symmetric]]])
qed

lemma keeps_read_exact: "keeps w (snd (read_exact start deadline ctx len body w))"
proof (induction start deadline ctx len body w rule: read_exact.induct)
  case (1 start deadline ctx len body w)
  obtain r w1 where r: "read_some start deadline ctx w = (r, w1)" by fastforce
  have k: "keeps w w1" by (rule keeps_read_some' [OF r])
  show ?case
    by (subst read_exact.simps)
      (auto simp: r k split: sum.split intro: keeps_trans [OF k "1.IH" [OF _ _ r [symmetric]]])
qed

lemma keeps_read_to_end: "keeps w (snd (read_to_end start deadline ctx body w))"
proof (induction start deadline ctx body w rule: read_to_end.induct)
  case (1 start deadline ctx body w)
  obtain r w1 where r: "read_some start deadline ctx w = (r, w1)" by fastforce
  have k: "keeps w w1" by (rule keeps_read_some' [OF r])
  show ?case
    by (subst read_to_end.simps)
      (auto simp: r k split: sum.split intro: keeps_trans [OF k "1.IH" [OF _ r [symmetric]]])
qed

lemma keeps_read_chunked: "keeps w (snd (read_chunked dbg start deadline ctx body pending w))"
proof (induction dbg start deadline ctx body pending w rule: read_chunked.induct)
  case (1 dbg start deadline ctx body pending w)
  obtain r w1 where r: "read_some start deadline ctx w = (r, w1)" by fastforce
  have k: "keeps w w1" by (rule keeps_read_some' [OF r])
  show ?case
    by (subst read_chunked.simps)
      (auto simp: r k split: sum.split chunk_step.split prod.split
         intro: keeps_trans [OF k "1.IH"(2) [OF _ _ _ _ _ r [symmetric]]] "1.IH"(1))
qed

lemma keeps_read_response: "keeps w (snd (read_response J start deadline ctx w))"
proof -
  obtain r w1 where r: "read_head start deadline ctx [] w = (r, w1)" by fastforce
  have k: "keeps w w1" using keeps_read_head [of w start deadline ctx "[]"] r by simp
  have b: "keeps w w2" if "read_body J start deadline ctx h rest w1 = (r', w2)" for h rest r' w2
  proof -
    have "keeps w1 (snd (read_body J start deadline ctx h rest w1))"
      by (simp add: read_body_def keeps_read_exact keeps_read_chunked keeps_read_to_end split: option.split)
    with that k show ?thesis by (auto intro: keeps_trans)
  qed
  show ?thesis
    by (auto simp: read_response_def response_bytes_def r k split: sum.split prod.split dest: b)
qed

text \<open>What a request does to the world: at most one send, of exactly its bytes, on one connection taken.\<close>

definition one_request :: "byte list \<Rightarrow> snapd_io \<Rightarrow> snapd_io \<Rightarrow> bool" where
  "one_request bytes w w' \<longleftrightarrow>
     io_now w \<le> io_now w'
     \<and> (io_links w' = io_links w \<and> io_log w' = io_log w
        \<or> io_links w \<noteq> [] \<and> io_links w' = tl (io_links w) \<and> (io_log w' = io_log w \<or> io_log w' = io_log w @ [bytes]))"

lemma one_request_keeps: "keeps w w' \<Longrightarrow> one_request bytes w w'"
  by (simp add: one_request_def keeps_def)

lemma keeps_one_request: "keeps w w1 \<Longrightarrow> one_request bytes w1 w' \<Longrightarrow> one_request bytes w w'"
  by (auto simp: one_request_def keeps_def)

lemma one_request_keeps_trans: "one_request bytes w w1 \<Longrightarrow> keeps w1 w' \<Longrightarrow> one_request bytes w w'"
  by (auto simp: one_request_def keeps_def)

definition connected_to :: "snapd_io \<Rightarrow> snapd_io \<Rightarrow> bool" where
  "connected_to w w' \<longleftrightarrow> io_links w \<noteq> [] \<and> io_links w' = tl (io_links w) \<and> io_log w' = io_log w \<and> io_now w \<le> io_now w'"

lemma connect_cases:
  assumes "connect w = (r, w')"
  shows "case r of Inl _ \<Rightarrow> one_request bytes w w' | Inr _ \<Rightarrow> connected_to w w'"
  using assms
  by (auto simp: connect_def one_request_def connected_to_def split: list.splits option.splits)

lemma connected_keeps: "connected_to w w1 \<Longrightarrow> keeps w1 w' \<Longrightarrow> connected_to w w'"
  by (auto simp: connected_to_def keeps_def)

lemma connected_one_request: "connected_to w w' \<Longrightarrow> one_request bytes w w'"
  by (simp add: connected_to_def one_request_def)

lemma send_request_effect:
  "connected_to w w1 \<Longrightarrow> one_request bytes w (snd (send_request start deadline ctx bytes wr w1))"
  by (cases wr)
    (auto simp: send_request_def Let_def timed_out_def until_def connected_to_def one_request_def
      intro: order_trans [OF _ tick_fields(5)])

lemma do_request_effect:
  "one_request (utf8_bytes (http_request meth path body)) w
     (snd (do_request J socket_path meth path body ctx timeouts start deadline w))" (is "one_request ?b w _")
proof (cases "io_cancelled w \<or> deadline \<le> io_now (tick w)")
  case True
  then show ?thesis
    by (auto simp: do_request_def Let_def one_request_keeps keeps_timed_out_trans)
next
  case False
  let ?due = "min (io_now (tick w) + to_per_request timeouts) deadline"
  obtain r w2 where c: "connect (tick w) = (r, w2)" by fastforce
  note cc = connect_cases [OF c, of ?b]
  show ?thesis
  proof (cases r)
    case (Inl e)
    with c cc False show ?thesis by (auto simp: do_request_def Let_def intro: keeps_one_request [OF keeps_tick])
  next
    case (Inr wr)
    obtain r3 w3 where r3: "remaining ?due start ctx w2 = (r3, w3)" by fastforce
    obtain r4 w4 where r4: "remaining ?due start ctx w3 = (r4, w4)" by fastforce
    obtain r5 w5 where r5: "send_request start ?due ctx ?b wr w4 = (r5, w5)" by fastforce
    from cc Inr have c2: "connected_to (tick w) w2" by simp
    have c3: "connected_to (tick w) w3" by (rule connected_keeps [OF c2 keeps_remaining [OF r3]])
    have c4: "connected_to (tick w) w4" by (rule connected_keeps [OF c3 keeps_remaining [OF r4]])
    have s5: "one_request ?b (tick w) w5" using send_request_effect [OF c4, of ?b start ?due ctx wr] r5 by simp
    have "one_request ?b (tick w) (snd (do_request J socket_path meth path body ctx timeouts start deadline w))"
      using False c Inr r3 r4 r5 connected_one_request [OF c3] connected_one_request [OF c4] s5
        one_request_keeps_trans [OF s5 keeps_read_response]
      by (auto simp: do_request_def Let_def split: sum.split)
    then show ?thesis by (rule keeps_one_request [OF keeps_tick])
  qed
qed

text \<open>A request that answers has taken a connection.\<close>

lemma do_request_answers:
  assumes "do_request J socket_path meth path body ctx timeouts start deadline w = (Inr response, w')"
  shows "length (io_links w') < length (io_links w)"
proof -
  let ?due = "min (io_now (tick w) + to_per_request timeouts) deadline"
  from assms have run: "\<not> io_cancelled w" "\<not> deadline \<le> io_now (tick w)"
    by (auto simp: do_request_def Let_def timed_out_def split: if_splits)
  obtain r w2 where c: "connect (tick w) = (r, w2)" by fastforce
  with assms run obtain wr where r: "r = Inr wr" by (cases r) (auto simp: do_request_def Let_def)
  then have c2: "connected_to (tick w) w2" using connect_cases [OF c] by simp
  obtain r3 w3 where r3: "remaining ?due start ctx w2 = (r3, w3)" by fastforce
  obtain r4 w4 where r4: "remaining ?due start ctx w3 = (r4, w4)" by fastforce
  obtain r5 w5 where r5: "send_request start ?due ctx (utf8_bytes (http_request meth path body)) wr w4 = (r5, w5)" by fastforce
  have "connected_to (tick w) w4"
    by (rule connected_keeps [OF connected_keeps [OF c2 keeps_remaining [OF r3]] keeps_remaining [OF r4]])
  then have "io_links w \<noteq> [] \<and> io_links w5 = tl (io_links w)"
    using r5 by (cases wr) (auto simp: send_request_def connected_to_def Let_def timed_out_def until_def)
  moreover from assms run c r r3 r4 r5 have "snd (read_response J start ?due ctx w5) = w'"
    by (auto simp: do_request_def Let_def split: sum.splits)
  then have "keeps w5 w'" using keeps_read_response [of w5 J start ?due ctx] by simp
  ultimately show ?thesis by (simp add: keeps_def)
qed

end
