(* ===== verification/Snapd_Framing.thy ===== *)
theory Snapd_Framing
  imports Snapd_Http
begin

text \<open>
  What the framing of \<open>adapters/snapd_client.rs\<close> guarantees. A reference that is handed all the
  bytes of a connection at once says what a response means; the incremental readers agree with
  it however the socket cuts the bytes up. And whatever snapd sends, a body is never longer
  than its bound.
\<close>

section \<open>The bytes at once\<close>

definition whole_exact :: "nat \<Rightarrow> byte list \<Rightarrow> snapd_error + byte list" where
  "whole_exact len body =
     (if length body < len
      then Inl (SE_Protocol (lit ''snapd closed the connection before Content-Length was satisfied'') (utf8_lossy body))
      else Inr (take len body))"

function whole_chunked :: "(ustr \<Rightarrow> ustr) \<Rightarrow> byte list \<Rightarrow> byte list \<Rightarrow> snapd_error + byte list" where
  "whole_chunked dbg body pending =
     (case decode_chunked dbg pending of
        Inl e \<Rightarrow> Inl e
      | Inr (CH_Complete, _) \<Rightarrow> Inr body
      | Inr (CH_NeedMore, pending) \<Rightarrow>
          Inl (SE_Protocol (lit ''snapd closed the connection during chunked transfer'') (utf8_lossy pending))
      | Inr (CH_Chunk chunk, pending) \<Rightarrow>
          if MAX_RESPONSE_BYTES < length body + length chunk then Inl SE_ResponseTooLarge
          else whole_chunked dbg (body @ chunk) pending)"
  by pat_completeness auto
termination
  by (relation "measure (\<lambda>(_, _, pending). length pending)") (auto dest: decode_chunked_shorter)

declare whole_chunked.simps [simp del]

definition whole_body :: "snapd_json \<Rightarrow> http_headers \<Rightarrow> byte list \<Rightarrow> snapd_error + byte list" where
  "whole_body J headers body =
     (case hd_content_length headers of
        Some len \<Rightarrow> if MAX_RESPONSE_BYTES < len then Inl SE_ResponseTooLarge else whole_exact len body
      | None \<Rightarrow> if hd_chunked headers then whole_chunked (sj_debug J) [] body else Inr body)"

definition whole_response :: "snapd_json \<Rightarrow> byte list \<Rightarrow> snapd_error + ustr" where
  "whole_response J bytes =
     (case find_double_crlf bytes of
        None \<Rightarrow> Inl (if MAX_HEADER_BYTES \<le> length bytes
            then SE_Protocol (lit ''snapd response headers exceeded '' @ dec_digits MAX_HEADER_BYTES
                                @ lit '' bytes without a CRLF CRLF terminator'') []
            else SE_Protocol (lit ''snapd closed the connection before completing headers'') (utf8_lossy bytes))
      | Some i \<Rightarrow>
          (case from_utf8 (take i bytes) of
             Inl e \<Rightarrow> Inl (SE_Protocol (lit ''invalid header bytes: '' @ show_utf8_error e) [])
           | Inr header_text \<Rightarrow>
               (case parse_headers (sj_debug J) header_text of
                  Inl e \<Rightarrow> Inl e
                | Inr headers \<Rightarrow>
                    (case whole_body J headers (drop (i + 4) bytes) of
                       Inl e \<Rightarrow> Inl e
                     | Inr body \<Rightarrow> response_text J (hd_status_code headers) body))))"

section \<open>A connection that only says bytes\<close>

definition calm :: "nat \<Rightarrow> snapd_io \<Rightarrow> bool" where
  "calm deadline w \<longleftrightarrow> io_ticks w = [] \<and> io_cancel_at w = None \<and> io_now w < deadline"

fun says :: "read_result \<Rightarrow> bool" where
  "says (RD_Bytes bs) = (bs \<noteq> [])"
| "says RD_Interrupted = True"
| "says _ = False"

fun said :: "read_result \<Rightarrow> byte list" where
  "said (RD_Bytes bs) = bs"
| "said _ = []"

definition arrived :: "read_result list \<Rightarrow> byte list" where
  "arrived rs = concat (map said rs)"

lemma arrived_simps [simp]: "arrived [] = []" "arrived (r # rs) = said r @ arrived rs"
  by (simp_all add: arrived_def)

text \<open>The connection still has \<open>rs\<close> to say, and then closes.\<close>

definition to_say :: "nat \<Rightarrow> read_result list \<Rightarrow> snapd_io \<Rightarrow> bool" where
  "to_say deadline rs w \<longleftrightarrow> calm deadline w \<and> list_all says rs \<and> io_reads w = rs @ [RD_Bytes []]"

lemma calm_simps:
  assumes "to_say deadline rs w"
  shows "tick w = w" "io_cancelled w = False" "io_now w < deadline"
  using assms by (auto simp: to_say_def calm_def tick_def io_cancelled_def)

lemma calm_remaining: "to_say deadline rs w \<Longrightarrow> remaining deadline start ctx w = (Inr (deadline - io_now w), w)"
  using calm_simps [of deadline rs w] by (simp add: remaining_def Let_def)

lemma read_some_said:
  "to_say deadline rs w \<Longrightarrow> \<exists>bs w'. read_some start deadline ctx w = (Inr bs, w')
     \<and> (if bs = [] then arrived rs = []
        else \<exists>rs'. to_say deadline rs' w' \<and> arrived rs = bs @ arrived rs')"
proof (induction rs arbitrary: w)
  case Nil
  then show ?case
    by (subst read_some.simps) (simp add: calm_remaining, simp add: to_say_def)
next
  case (Cons r rs)
  note step = read_some.simps [of start deadline ctx w]
  from Cons.prems have reads: "io_reads w = r # rs @ [RD_Bytes []]" by (simp add: to_say_def)
  show ?case
  proof (cases r)
    case (RD_Bytes bs)
    with Cons.prems have bs: "bs \<noteq> []" by (simp add: to_say_def)
    show ?thesis
    proof (cases "SCRATCH < length bs")
      case True
      then have "to_say deadline (RD_Bytes (drop SCRATCH bs) # rs) (w\<lparr>io_reads := RD_Bytes (drop SCRATCH bs) # rs @ [RD_Bytes []]\<rparr>)"
        using Cons.prems by (simp add: to_say_def calm_def)
      moreover have "take SCRATCH bs \<noteq> []" using bs by (simp add: SCRATCH_def)
      ultimately show ?thesis
        using True reads RD_Bytes
        by (simp add: step calm_remaining [OF Cons.prems]) (metis append.assoc append_take_drop_id arrived_simps(2) said.simps(1))
    next
      case False
      then have "to_say deadline rs (w\<lparr>io_reads := rs @ [RD_Bytes []]\<rparr>)"
        using Cons.prems by (simp add: to_say_def calm_def)
      with False reads RD_Bytes bs show ?thesis
        by (auto simp: step calm_remaining [OF Cons.prems])
    qed
  next
    case RD_Interrupted
    have "to_say deadline rs (w\<lparr>io_reads := rs @ [RD_Bytes []]\<rparr>)"
      using Cons.prems by (simp add: to_say_def calm_def)
    note ih = Cons.IH [OF this]
    have "read_some start deadline ctx w = read_some start deadline ctx (w\<lparr>io_reads := rs @ [RD_Bytes []]\<rparr>)"
      using RD_Interrupted reads by (simp add: step calm_remaining [OF Cons.prems])
    moreover have "arrived (r # rs) = arrived rs" using RD_Interrupted by simp
    ultimately show ?thesis using ih by presburger
  qed (use Cons.prems in \<open>auto simp: to_say_def\<close>)
qed

text \<open>The read as a case distinction: the connection closes, or it says the next bytes.\<close>

lemma read_some_cases:
  assumes "to_say deadline rs w"
  obtains (closes) w' where "read_some start deadline ctx w = (Inr [], w')" "arrived rs = []"
  | (says) bs rs' w' where "read_some start deadline ctx w = (Inr bs, w')" "bs \<noteq> []" "to_say deadline rs' w'" "arrived rs = bs @ arrived rs'"
  using read_some_said [OF assms, of start ctx] by (auto split: if_splits)

section \<open>Looking for line ends in a prefix\<close>

lemma take_prefix_eq: "take n xs = p \<Longrightarrow> length p = n \<Longrightarrow> take n (xs @ ys) = p"
  by (auto simp: min_def split: if_splits)

lemma find_sub_bound: "find_sub p xs = Some i \<Longrightarrow> i + length p \<le> length xs"
proof (induction xs arbitrary: i)
  case (Cons x xs)
  show ?case
  proof (cases "take (length p) (x # xs) = p")
    case True
    then have "min (length (x # xs)) (length p) = length p" by (metis length_take)
    with True Cons.prems show ?thesis by (simp add: min_def split: if_splits)
  next
    case False
    with Cons show ?thesis by auto
  qed
qed (simp split: if_splits)

lemma find_sub_append: "p \<noteq> [] \<Longrightarrow> find_sub p xs = Some i \<Longrightarrow> find_sub p (xs @ ys) = Some i"
proof (induction xs arbitrary: i)
  case (Cons x xs)
  have "take (length p) ((x # xs) @ ys) = take (length p) (x # xs)"
    using find_sub_bound [OF Cons.prems(2)] by (subst take_append) simp
  with Cons show ?case by (auto split: if_splits)
qed simp

lemma find_sub_prefix: "find_sub p (xs @ ys) = Some i \<Longrightarrow> p \<noteq> [] \<Longrightarrow> i + length p \<le> length xs \<Longrightarrow> find_sub p xs = Some i"
proof (induction xs arbitrary: i)
  case (Cons x xs)
  show ?case
  proof (cases "i = 0")
    case True
    with Cons.prems have "take (length p) (x # xs @ ys) = p" by (auto split: if_splits)
    moreover from True Cons.prems have "take (length p) ((x # xs) @ ys) = take (length p) (x # xs)"
      by (subst take_append) simp
    ultimately show ?thesis using True by simp
  next
    case False
    with Cons.prems have "take (length p) (x # xs @ ys) \<noteq> p" and rec: "find_sub p (xs @ ys) = Some (i - 1)"
      by (auto split: if_splits)
    moreover have "take (length p) (x # xs) = p \<Longrightarrow> take (length p) ((x # xs) @ ys) = p"
      by (rule take_prefix_eq) simp_all
    moreover have "find_sub p xs = Some (i - 1)" using Cons.IH [OF rec] Cons.prems False by simp
    ultimately show ?thesis using False by auto
  qed
qed auto

lemmas crlf_append = find_sub_append [of CRLF, folded find_crlf_def]
  find_sub_append [of "CRLF @ CRLF", folded find_double_crlf_def]

lemma CRLF_ne [simp]: "CRLF \<noteq> []" "CRLF @ CRLF \<noteq> []" "length CRLF = 2" by (simp_all add: CRLF_def)

section \<open>The readers agree with the reference\<close>

lemma read_exact_whole:
  "to_say deadline rs w \<Longrightarrow> length (body @ arrived rs) \<le> MAX_RESPONSE_BYTES \<Longrightarrow>
   fst (read_exact start deadline ctx len body w) = whole_exact len (body @ arrived rs)"
proof (induction start deadline ctx len body w arbitrary: rs rule: read_exact.induct)
  case (1 start deadline ctx len body w)
  note step = read_exact.simps [of start deadline ctx len body w]
  note quiet = calm_simps [OF "1.prems"(1)]
  show ?case
  proof (cases "length body < len")
    case False
    then show ?thesis by (simp add: step whole_exact_def)
  next
    case True
    from "1.prems"(1) show ?thesis
    proof (cases rule: read_some_cases [where start = start and ctx = ctx])
      case (closes w')
      with True quiet show ?thesis by (simp add: step whole_exact_def)
    next
      case (says bs rs' w')
      have "fst (read_exact start deadline ctx len (body @ bs) w') = whole_exact len ((body @ bs) @ arrived rs')"
        using True quiet says "1.prems"(2) by (intro "1.IH" [OF _ _ says(1) [symmetric]]) simp_all
      with True quiet says "1.prems"(2) show ?thesis by (simp add: step)
    qed
  qed
qed

lemma read_to_end_whole:
  "to_say deadline rs w \<Longrightarrow> length (body @ arrived rs) \<le> MAX_RESPONSE_BYTES \<Longrightarrow>
   fst (read_to_end start deadline ctx body w) = Inr (body @ arrived rs)"
proof (induction start deadline ctx body w arbitrary: rs rule: read_to_end.induct)
  case (1 start deadline ctx body w)
  note step = read_to_end.simps [of start deadline ctx body w]
  note quiet = calm_simps [OF "1.prems"(1)]
  from "1.prems"(1) show ?case
  proof (cases rule: read_some_cases [where start = start and ctx = ctx])
    case (closes w')
    with quiet show ?thesis by (simp add: step)
  next
    case (says bs rs' w')
    have "fst (read_to_end start deadline ctx (body @ bs) w') = Inr ((body @ bs) @ arrived rs')"
      using quiet says "1.prems"(2) by (intro "1.IH" [OF _ says(1) [symmetric]]) simp_all
    with quiet says "1.prems"(2) show ?thesis by (simp add: step)
  qed
qed

text \<open>A chunk that a prefix of the bytes already holds is that chunk of all of them.\<close>

lemma decode_chunked_append:
  assumes "decode_chunked dbg p = r" and "length (p @ q) \<le> MAX_RESPONSE_BYTES" and "\<And>rest. r \<noteq> Inr (CH_NeedMore, rest)"
  shows "decode_chunked dbg (p @ q) = map_sum (\<lambda>e. e) (\<lambda>(step, rest). (step, rest @ q)) r"
proof (cases "find_crlf p")
  case None
  with assms show ?thesis by (auto simp: decode_chunked_def MAX_CHUNK_BYTES_def)
next
  case (Some line_end)
  note app = crlf_append(1) [OF CRLF_ne(1) Some, of q]
  have bound: "line_end + 2 \<le> length p" using find_sub_bound [of CRLF p line_end] Some by (simp add: find_crlf_def)
  then have line: "take line_end (p @ q) = take line_end p" by simp
  show ?thesis
  proof (cases "chunk_size dbg (take line_end p)")
    case (Inl e)
    with assms(1) Some app line show ?thesis by (auto simp: decode_chunked_def)
  next
    case (Inr len)
    show ?thesis
    proof (cases "MAX_CHUNK_BYTES < len \<or> length p < line_end + 2 + len + 2")
      case True
      with assms(1,3) Some Inr app line show ?thesis by (auto simp: decode_chunked_def Let_def split: if_splits)
    next
      case False
      then have "take 2 (drop (line_end + 2 + len) (p @ q)) = take 2 (drop (line_end + 2 + len) p)"
        "drop (line_end + 2 + len + 2) (p @ q) = drop (line_end + 2 + len + 2) p @ q"
        "take len (drop (line_end + 2) (p @ q)) = take len (drop (line_end + 2) p)"
        by simp_all
      with False assms(1) Some Inr app line show ?thesis
        by (auto simp: decode_chunked_def Let_def simp del: drop_append take_append)
    qed
  qed
qed

lemma decode_chunked_more: "decode_chunked dbg p = Inr (CH_NeedMore, rest) \<Longrightarrow> rest = p"
  by (auto simp: decode_chunked_def Let_def split: option.splits sum.splits if_splits)

lemma read_chunked_whole:
  "to_say deadline rs w \<Longrightarrow> length (pending @ arrived rs) < MAX_RESPONSE_BYTES \<Longrightarrow>
   fst (read_chunked dbg start deadline ctx body pending w) = whole_chunked dbg body (pending @ arrived rs)"
proof (induction dbg start deadline ctx body pending w arbitrary: rs rule: read_chunked.induct)
  case (1 dbg start deadline ctx body pending w)
  note step = read_chunked.simps [of dbg start deadline ctx body pending w]
  note quiet = calm_simps [OF "1.prems"(1)]
  have app: "decode_chunked dbg pending = r \<Longrightarrow> (\<And>rest. r \<noteq> Inr (CH_NeedMore, rest)) \<Longrightarrow>
      decode_chunked dbg (pending @ arrived rs) = map_sum (\<lambda>e. e) (\<lambda>(step, rest). (step, rest @ arrived rs)) r" for r
    using "1.prems"(2) by (intro decode_chunked_append) simp_all
  note whole = whole_chunked.simps [of dbg body "pending @ arrived rs"]
  show ?case
  proof (cases "decode_chunked dbg pending")
    case (Inl e)
    with app [OF Inl] show ?thesis by (simp add: step whole)
  next
    case (Inr b)
    then obtain st rest where d: "decode_chunked dbg pending = Inr (st, rest)" by (cases b) simp
    show ?thesis
    proof (cases st)
      case CH_Complete
      with d app [OF d] show ?thesis by (simp add: step whole)
    next
      case (CH_Chunk chunk)
      with d app [OF d] have all: "decode_chunked dbg (pending @ arrived rs) = Inr (CH_Chunk chunk, rest @ arrived rs)" by simp
      have "length rest < length pending" using decode_chunked_shorter d CH_Chunk by blast
      then have "\<not> MAX_RESPONSE_BYTES < length body + length chunk \<Longrightarrow>
          fst (read_chunked dbg start deadline ctx (body @ chunk) rest w) = whole_chunked dbg (body @ chunk) (rest @ arrived rs)"
        using "1.prems" by (intro "1.IH"(1) [OF d refl CH_Chunk]) simp_all
      with d CH_Chunk all show ?thesis by (simp add: step whole)
    next
      case CH_NeedMore
      with d have rest: "rest = pending" using decode_chunked_more by blast
      with "1.prems"(2) have small: "\<not> MAX_CHUNK_BYTES \<le> length rest" by (simp add: MAX_CHUNK_BYTES_def)
      from "1.prems"(1) show ?thesis
      proof (cases rule: read_some_cases [where start = start and ctx = ctx])
        case (closes w')
        with d CH_NeedMore rest small quiet show ?thesis by (simp add: step whole_chunked.simps [of dbg body pending])
      next
        case (says bs rs' w')
        have "fst (read_chunked dbg start deadline ctx body (rest @ bs) w') = whole_chunked dbg body ((rest @ bs) @ arrived rs')"
          using d CH_NeedMore quiet small says rest "1.prems"(2) by (intro "1.IH"(2) [OF d refl CH_NeedMore _ _ says(1) [symmetric]]) simp_all
        with d CH_NeedMore rest small quiet says show ?thesis by (simp add: step)
      qed
    qed
  qed
qed

lemma read_head_whole:
  assumes "to_say deadline rs w"
    and "case find_double_crlf (buffer @ arrived rs) of Some i \<Rightarrow> i + 4 \<le> MAX_HEADER_BYTES | None \<Rightarrow> True"
  shows "case find_double_crlf (buffer @ arrived rs) of
      Some i \<Rightarrow> \<exists>buf rs' w'. read_head start deadline ctx buffer w = (Inr (i, buf), w') \<and> to_say deadline rs' w'
                   \<and> buffer @ arrived rs = buf @ arrived rs' \<and> i + 4 \<le> length buf
    | None \<Rightarrow> fst (read_head start deadline ctx buffer w) =
        Inl (if MAX_HEADER_BYTES \<le> length (buffer @ arrived rs)
             then SE_Protocol (lit ''snapd response headers exceeded '' @ dec_digits MAX_HEADER_BYTES
                                @ lit '' bytes without a CRLF CRLF terminator'') []
             else SE_Protocol (lit ''snapd closed the connection before completing headers'') (utf8_lossy (buffer @ arrived rs)))"
    (is "case ?found of Some i \<Rightarrow> _ i | None \<Rightarrow> _")
  using assms
proof (induction start deadline ctx buffer w arbitrary: rs rule: read_head.induct)
  case (1 start deadline ctx buffer w)
  note step = read_head.simps [of start deadline ctx buffer w]
  note quiet = calm_simps [OF "1.prems"(1)]
  show ?case
  proof (cases "find_double_crlf buffer")
    case (Some i)
    from crlf_append(2) [OF CRLF_ne(2) Some, of "arrived rs"] find_sub_bound [of "CRLF @ CRLF" buffer i] Some "1.prems"(1) quiet
    show ?thesis by (auto simp: step find_double_crlf_def)
  next
    case None
    have room: "length buffer < MAX_HEADER_BYTES" if "find_double_crlf (buffer @ arrived rs) = Some i" for i
      using "1.prems"(2) that None find_sub_prefix [of "CRLF @ CRLF" buffer "arrived rs" i]
      by (fastforce simp: find_double_crlf_def)
    show ?thesis
    proof (cases "MAX_HEADER_BYTES \<le> length buffer")
      case True
      then have "find_double_crlf (buffer @ arrived rs) = None" using room by (cases "find_double_crlf (buffer @ arrived rs)") fastforce+
      with True None quiet show ?thesis by (simp add: step)
    next
      case False
      from "1.prems"(1) show ?thesis
      proof (cases rule: read_some_cases [where start = start and ctx = ctx])
        case (closes w')
        with False None quiet show ?thesis by (simp add: step)
      next
        case (says bs rs' w')
        have all: "buffer @ arrived rs = (buffer @ bs) @ arrived rs'" using says(4) by simp
        have eq: "read_head start deadline ctx buffer w = read_head start deadline ctx (buffer @ bs) w'"
          using False None quiet says(1,2) by (simp add: step)
        show ?thesis unfolding all eq
        proof (rule "1.IH" [OF _ _ None False _ refl says(2,3)])
          show "(Inr bs, w') = read_some start deadline ctx (tick w)" using says(1) quiet by simp
          show "case find_double_crlf ((buffer @ bs) @ arrived rs') of None \<Rightarrow> True | Some i \<Rightarrow> i + 4 \<le> MAX_HEADER_BYTES"
            using "1.prems"(2) unfolding all .
        qed (use quiet in simp_all)
      qed
    qed
  qed
qed

text \<open>C29: The answer does not depend on how the socket cuts it up: on a connection that says some
bytes and closes, in whatever fragments and however often a signal interrupts a read, a response
within the bounds is read as the reference reads all the bytes at once, in each of the three
framings and with the same error where it is malformed or ends early.\<close>

theorem fragmentation_irrelevant:
  assumes "to_say deadline rs w" and "length (arrived rs) \<le> MAX_RESPONSE_BYTES"
    and "case find_double_crlf (arrived rs) of Some i \<Rightarrow> i + 4 \<le> MAX_HEADER_BYTES | None \<Rightarrow> True"
  shows "fst (read_response J start deadline ctx w) = whole_response J (arrived rs)"
proof (cases "find_double_crlf (arrived rs)")
  case None
  with read_head_whole [of deadline rs w "[]" start ctx] assms show ?thesis
    by (cases "read_head start deadline ctx [] w")
      (auto simp: read_response_def response_bytes_def whole_response_def)
next
  case (Some i)
  with read_head_whole [of deadline rs w "[]" start ctx] assms(1,3)
  obtain buf rs' w' where head: "read_head start deadline ctx [] w = (Inr (i, buf), w')" and say: "to_say deadline rs' w'"
    and all: "arrived rs = buf @ arrived rs'" and i: "i + 4 \<le> length buf"
    by auto
  let ?rest = "drop (i + 4) buf"
  from all i have split: "take i (arrived rs) = take i buf" "drop (i + 4) (arrived rs) = ?rest @ arrived rs'" by simp_all
  have short: "length (?rest @ arrived rs') < MAX_RESPONSE_BYTES" using assms(2) all i by simp
  have body: "fst (read_body J start deadline ctx headers ?rest w') = whole_body J headers (?rest @ arrived rs')" for headers
    using read_exact_whole [OF say less_imp_le [OF short], of start ctx]
      read_to_end_whole [OF say less_imp_le [OF short], of start ctx]
      read_chunked_whole [OF say short, of "sj_debug J" start ctx "[]"]
    by (simp add: read_body_def whole_body_def split: option.split)
  show ?thesis
  proof (cases "from_utf8 (take i buf)")
    case (Inl e)
    then show ?thesis
      by (simp add: whole_response_def Some split read_response_def response_bytes_def head)
  next
    case utf8: (Inr header_text)
    show ?thesis
    proof (cases "parse_headers (sj_debug J) header_text")
      case (Inl e)
      with utf8 show ?thesis
        by (simp add: whole_response_def Some split read_response_def response_bytes_def head)
    next
      case (Inr headers)
      obtain r w2 where b: "read_body J start deadline ctx headers ?rest w' = (r, w2)" by fastforce
      with body [of headers] have "whole_body J headers (?rest @ arrived rs') = r" by simp
      with utf8 Inr b show ?thesis
        by (simp add: whole_response_def Some split read_response_def response_bytes_def head split: sum.split)
    qed
  qed
qed

definition curt_json :: snapd_json where
  "curt_json = \<lparr>sj_raw = \<lambda>_. Inl [], sj_err_result = \<lambda>_. None, sj_change_body = \<lambda>_. Inl [],
     sj_change = \<lambda>_. Inl [], sj_changes = \<lambda>_. Inl [], sj_print = \<lambda>_. [], sj_debug = \<lambda>s. s\<rparr>"

definition cut_short :: "read_result list" where
  "cut_short = [RD_Bytes (map of_nat (lit ''HTTP/1.1'')), RD_Interrupted, RD_Bytes (map of_nat (lit '' 200'') @ [13]), RD_Bytes [10, 13]]"

definition cut_world :: snapd_io where
  "cut_world = \<lparr>io_now = 0, io_ticks = [], io_cancel_at = None, io_links = [], io_reads = cut_short @ [RD_Bytes []], io_log = []\<rparr>"

text \<open>A connection that closes one byte before its headers end, in three fragments and an interruption.\<close>

lemma fragmentation_irrelevant_witness:
  "fst (read_response curt_json 0 30000 TC_Request cut_world) = whole_response curt_json (arrived cut_short)
   \<and> whole_response curt_json (arrived cut_short)
       = Inl (SE_Protocol (lit ''snapd closed the connection before completing headers'') (lit ''HTTP/1.1 200'' @ [13, 10, 13]))"
proof -
  have say: "to_say 30000 cut_short cut_world"
    by (simp add: to_say_def calm_def cut_world_def) (simp add: cut_short_def)
  have found: "find_double_crlf (arrived cut_short) = None" and len: "length (arrived cut_short) = 15"
    and lossy: "utf8_lossy (arrived cut_short) = lit ''HTTP/1.1 200'' @ [13, 10, 13]"
    by code_simp+
  have "fst (read_response curt_json 0 30000 TC_Request cut_world) = whole_response curt_json (arrived cut_short)"
    by (rule fragmentation_irrelevant [OF say]) (simp_all add: len found MAX_RESPONSE_BYTES_def)
  moreover have "whole_response curt_json (arrived cut_short)
       = Inl (SE_Protocol (lit ''snapd closed the connection before completing headers'') (lit ''HTTP/1.1 200'' @ [13, 10, 13]))"
    by (simp add: whole_response_def found len lossy MAX_HEADER_BYTES_def)
  ultimately show ?thesis by simp
qed

section \<open>The bound\<close>

lemma read_some_short: "read_some start deadline ctx w = (Inr bs, w') \<Longrightarrow> length bs \<le> SCRATCH"
proof (induction start deadline ctx w rule: read_some.induct)
  case (1 start deadline ctx w)
  obtain r w1 where r: "remaining deadline start ctx w = (r, w1)" by fastforce
  have "length bs \<le> SCRATCH" if "r = Inr d" and "io_reads w1 = RD_Interrupted # rs"
    and "read_some start deadline ctx (w1\<lparr>io_reads := rs\<rparr>) = (Inr bs, w')" for d rs
    using "1.IH" [OF r [symmetric] that(1,2) refl that(3)] .
  with r "1.prems" show ?case
    unfolding read_some.simps [of start deadline ctx w]
    by (auto simp: timed_out_def Let_def split: sum.splits list.splits read_result.splits)
qed

lemma read_head_short:
  "read_head start deadline ctx buffer w = (Inr (i, buf), w') \<Longrightarrow> length buffer < MAX_HEADER_BYTES + SCRATCH
   \<Longrightarrow> length buf < MAX_HEADER_BYTES + SCRATCH"
proof (induction start deadline ctx buffer w rule: read_head.induct)
  case (1 start deadline ctx buffer w)
  obtain r w1 where r: "read_some start deadline ctx (tick w) = (r, w1)" by fastforce
  have "length buf < MAX_HEADER_BYTES + SCRATCH"
    if "\<not> io_cancelled w" "\<not> deadline \<le> io_now (tick w)" "find_double_crlf buffer = None" "\<not> MAX_HEADER_BYTES \<le> length buffer"
      "r = Inr bs" "bs \<noteq> []" "read_head start deadline ctx (buffer @ bs) w1 = (Inr (i, buf), w')" for bs
    using "1.IH" [OF that(1,2,3,4) r [symmetric] that(5,6,7)] read_some_short [of start deadline ctx "tick w" bs w1] r that(4,5) by simp
  with r "1.prems" show ?case
    unfolding read_head.simps [of start deadline ctx buffer w]
    by (auto simp: timed_out_def Let_def split: sum.splits option.splits if_splits)
qed

lemma read_exact_short: "read_exact start deadline ctx len body w = (Inr out, w') \<Longrightarrow> length out \<le> len"
proof (induction start deadline ctx len body w rule: read_exact.induct)
  case (1 start deadline ctx len body w)
  obtain r w1 where r: "read_some start deadline ctx w = (r, w1)" by fastforce
  from "1.prems" r "1.IH" [OF _ _ r [symmetric]] show ?case
    unfolding read_exact.simps [of start deadline ctx len body w] by (auto split: sum.splits if_splits)
qed

lemma read_to_end_short:
  "read_to_end start deadline ctx body w = (Inr out, w') \<Longrightarrow> length body \<le> MAX_RESPONSE_BYTES \<Longrightarrow> length out \<le> MAX_RESPONSE_BYTES"
proof (induction start deadline ctx body w rule: read_to_end.induct)
  case (1 start deadline ctx body w)
  obtain r w1 where r: "read_some start deadline ctx w = (r, w1)" by fastforce
  from "1.prems" r "1.IH" [OF _ r [symmetric]] show ?case
    unfolding read_to_end.simps [of start deadline ctx body w] by (auto split: sum.splits if_splits)
qed

lemma read_chunked_short:
  "read_chunked dbg start deadline ctx body pending w = (Inr out, w') \<Longrightarrow> length body \<le> MAX_RESPONSE_BYTES
   \<Longrightarrow> length out \<le> MAX_RESPONSE_BYTES"
proof (induction dbg start deadline ctx body pending w rule: read_chunked.induct)
  case (1 dbg start deadline ctx body pending w)
  obtain r w1 where r: "read_some start deadline ctx w = (r, w1)" by fastforce
  from "1.prems" r "1.IH"(1) "1.IH"(2) [OF _ _ _ _ _ r [symmetric]] show ?case
    unfolding read_chunked.simps [of dbg start deadline ctx body pending w] by (auto split: sum.splits chunk_step.splits prod.splits if_splits)
qed

text \<open>C32: No response exhausts memory: whatever the peer sends, in whichever framing, the body that
is accepted has at most a mebibyte.\<close>

theorem response_bounded:
  "case fst (response_bytes J start deadline ctx w) of Inr (_, body) \<Rightarrow> length body \<le> MAX_RESPONSE_BYTES | Inl _ \<Rightarrow> True"
proof -
  obtain r w1 where head: "read_head start deadline ctx [] w = (r, w1)" by fastforce
  have "length body \<le> MAX_RESPONSE_BYTES"
    if "r = Inr (i, buf)" and b: "read_body J start deadline ctx headers (drop (i + 4) buf) w1 = (Inr body, w2)" for i buf headers body w2
  proof -
    have "length buf < MAX_HEADER_BYTES + SCRATCH"
      using read_head_short head that(1) by (fastforce simp: MAX_HEADER_BYTES_def)
    then have rest: "length (drop (i + 4) buf) \<le> MAX_RESPONSE_BYTES"
      by (simp add: MAX_HEADER_BYTES_def SCRATCH_def MAX_RESPONSE_BYTES_def)
    show ?thesis
    proof (cases "hd_content_length headers")
      case None
      with b rest show ?thesis
        by (auto simp: read_body_def split: if_splits dest: read_chunked_short read_to_end_short)
    next
      case (Some len)
      with b show ?thesis by (auto simp: read_body_def split: if_splits dest: read_exact_short)
    qed
  qed
  then show ?thesis
    by (auto simp: response_bytes_def head split: sum.splits prod.splits)
qed

end
