(* ===== verification/Snapd_Client.thy ===== *)
theory Snapd_Client
  imports Snapd_Http
begin

text \<open>
  The operations of snapd's client, the second half of
  \<open>client/myna-config/src/adapters/snapd_client.rs\<close>: the reads, the writes the user authorises,
  and the polling of the change a write started. The results: whatever is asked of it, the
  client sends only the requests of a fixed list, each with a path that cannot break out of its
  line; and polling ends, after a number of requests the budget and the interval bound.
\<close>

section \<open>Requests\<close>

definition INTERFACES :: ustr where "INTERFACES = lit ''/v2/interfaces''"
definition CHANGES_IN_PROGRESS :: ustr where "CHANGES_IN_PROGRESS = lit ''/v2/changes?select=in-progress''"
definition SYSTEM_INFO :: ustr where "SYSTEM_INFO = lit ''/v2/system-info''"
definition SNAPS :: ustr where "SNAPS = lit ''/v2/snaps''"
definition CONTENT_CONNECTIONS :: ustr where "CONTENT_CONNECTIONS = lit ''/v2/connections?select=all&interface=content''"
definition INSTALL_ON_EDGE :: ustr where
  "INSTALL_ON_EDGE = lit ''{'' @ [34] @ lit ''action'' @ [34] @ lit '':'' @ [34] @ lit ''install'' @ [34] @ lit '',''
     @ [34] @ lit ''channel'' @ [34] @ lit '':'' @ [34] @ lit ''latest/edge'' @ [34] @ lit ''}''"
definition MYNA_PLUG_SNAP :: ustr where "MYNA_PLUG_SNAP = lit ''myna''"
definition MYNA_PLUG_NAME :: ustr where "MYNA_PLUG_NAME = lit ''backend''"

fun backend_snap :: "interface_action \<Rightarrow> ustr" where
  "backend_snap (Connect snap _) = snap"
| "backend_snap (Disconnect snap _) = snap"

fun backend_slot :: "interface_action \<Rightarrow> ustr" where
  "backend_slot (Connect _ sl) = sl"
| "backend_slot (Disconnect _ sl) = sl"

fun action_str :: "interface_action \<Rightarrow> ustr" where
  "action_str (Connect _ _) = lit ''connect''"
| "action_str (Disconnect _ _) = lit ''disconnect''"

definition interface_request_json :: "interface_action \<Rightarrow> json" where
  "interface_request_json a =
     JObject [(lit ''action'', JString (action_str a)),
              (lit ''plugs'', JArray [JObject [(lit ''snap'', JString MYNA_PLUG_SNAP), (lit ''plug'', JString MYNA_PLUG_NAME)]]),
              (lit ''slots'', JArray [JObject [(lit ''snap'', JString (backend_snap a)), (lit ''slot'', JString (backend_slot a))]])]"

definition to_request_body :: "snapd_json \<Rightarrow> interface_action \<Rightarrow> snapd_error + ustr" where
  "to_request_body J a =
     (if \<not> is_valid_snap_name (backend_snap a) then Inl (SE_Transport (lit ''invalid backend snap name: '' @ backend_snap a))
      else if \<not> is_valid_slot_name (backend_slot a) then Inl (SE_Transport (lit ''invalid backend slot name: '' @ backend_slot a))
      else Inr (sj_print J (interface_request_json a)))"

definition is_change_char :: "uchar \<Rightarrow> bool" where
  "is_change_char c \<longleftrightarrow> is_ascii_lowercase c \<or> is_ascii_uppercase c \<or> is_ascii_digit c \<or> c = 45 \<or> c = 95"

definition is_valid_change_id :: "ustr \<Rightarrow> bool" where
  "is_valid_change_id s \<longleftrightarrow> \<not> (s = [] \<or> 128 < length (utf8_bytes s)) \<and> list_all is_change_char s"

definition change_path :: "ustr \<Rightarrow> ustr" where "change_path change_id = lit ''/v2/changes/'' @ change_id"
definition snap_path :: "ustr \<Rightarrow> ustr" where "snap_path snap = lit ''/v2/snaps/'' @ snap"

section \<open>Reads\<close>

record sync_result =
  sr_json :: json
  sr_body :: ustr

text \<open>The client: where it connects, what it allows and how it decodes.\<close>

record snapd_client =
  sc_json :: snapd_json
  sc_socket_path :: ustr
  sc_timeouts :: snapd_timeouts

definition blocking_get :: "snapd_client \<Rightarrow> ustr \<Rightarrow> ustr \<Rightarrow> snapd_io \<Rightarrow> (snapd_error + sync_result) \<times> snapd_io" where
  "blocking_get C path what w =
     (let w0 = tick w; start = io_now w0 in
      case do_request (sc_json C) (sc_socket_path C) (lit ''GET'') path None TC_Request (sc_timeouts C) start
             (start + to_per_request (sc_timeouts C)) w0 of
        (Inl e, w1) \<Rightarrow> (Inl e, w1)
      | (Inr response, w1) \<Rightarrow>
          (case parse_envelope (sc_json C) response of
             Inl e \<Rightarrow> (Inl e, w1)
           | Inr (EN_Sync result) \<Rightarrow> (Inr \<lparr>sr_json = result, sr_body = truncate_str response 512\<rparr>, w1)
           | Inr (EN_Async _) \<Rightarrow> (Inl (SE_Protocol (lit ''unexpected async envelope for '' @ what) (truncate_str response 512)), w1)
           | Inr (EN_Error status_code kind message) \<Rightarrow> (Inl (classify_error status_code kind message), w1)))"

definition blocking_read :: "snapd_client \<Rightarrow> (json \<Rightarrow> ustr + 'a) \<Rightarrow> ustr \<Rightarrow> ustr \<Rightarrow> snapd_io \<Rightarrow> (snapd_error + 'a) \<times> snapd_io" where
  "blocking_read C from_value path what w =
     (case blocking_get C path what w of
        (Inl e, w1) \<Rightarrow> (Inl e, w1)
      | (Inr result, w1) \<Rightarrow>
          (map_sum (\<lambda>e. SE_Protocol (lit ''could not parse '' @ what @ lit '': '' @ e) (sr_body result)) (\<lambda>x. x) (from_value (sr_json result)), w1))"

definition installed_snaps :: "snapd_client \<Rightarrow> (json \<Rightarrow> ustr + 'a) \<Rightarrow> snapd_io \<Rightarrow> (snapd_error + 'a) \<times> snapd_io" where
  "installed_snaps C from_value w = blocking_read C from_value SNAPS (lit ''the snaps'') w"

definition content_connections :: "snapd_client \<Rightarrow> (json \<Rightarrow> ustr + 'a) \<Rightarrow> snapd_io \<Rightarrow> (snapd_error + 'a) \<times> snapd_io" where
  "content_connections C from_value w = blocking_read C from_value CONTENT_CONNECTIONS (lit ''the content connections'') w"

definition blocking_change :: "snapd_client \<Rightarrow> ustr \<Rightarrow> snapd_io \<Rightarrow> (snapd_error + change_in_progress) \<times> snapd_io" where
  "blocking_change C path w =
     (case blocking_get C path (lit ''a change'') w of
        (Inl e, w1) \<Rightarrow> (Inl e, w1)
      | (Inr result, w1) \<Rightarrow>
          (map_sum (\<lambda>m. SE_Protocol (lit ''could not parse the change: '' @ m) (sr_body result)) (\<lambda>c. c)
             (sj_change (sc_json C) (sr_json result)), w1))"

definition change :: "snapd_client \<Rightarrow> ustr \<Rightarrow> snapd_io \<Rightarrow> (snapd_error + change_in_progress) \<times> snapd_io" where
  "change C change_id w =
     (if \<not> is_valid_change_id change_id
      then (Inl (SE_Protocol (lit ''refusing to read invalid change id: '' @ sj_debug (sc_json C) change_id) []), w)
      else blocking_change C (change_path change_id) w)"

definition user_daemons_feature :: "json \<Rightarrow> bool" where
  "user_daemons_feature system_info =
     the_default False (as_bool (json_index (json_index (json_index system_info (lit ''features'')) (lit ''user-daemons'')) (lit ''enabled'')))"

definition blocking_user_daemons_enabled :: "snapd_client \<Rightarrow> snapd_io \<Rightarrow> (snapd_error + bool) \<times> snapd_io" where
  "blocking_user_daemons_enabled C w =
     (case blocking_get C SYSTEM_INFO (lit ''the system information'') w of
        (Inl e, w1) \<Rightarrow> (Inl e, w1)
      | (Inr result, w1) \<Rightarrow> (Inr (user_daemons_feature (sr_json result)), w1))"

definition blocking_changes_in_progress :: "snapd_client \<Rightarrow> snapd_io \<Rightarrow> (snapd_error + change_in_progress list) \<times> snapd_io" where
  "blocking_changes_in_progress C w =
     (case blocking_get C CHANGES_IN_PROGRESS (lit ''the changes list'') w of
        (Inl e, w1) \<Rightarrow> (Inl e, w1)
      | (Inr result, w1) \<Rightarrow>
          (map_sum (\<lambda>m. SE_Protocol (lit ''could not parse the changes list: '' @ m) (sr_body result)) parse_changes
             (sj_changes (sc_json C) (sr_json result)), w1))"

section \<open>Writes\<close>

datatype started = SD_Sync | SD_Change ustr

record change_report =
  cr_change_id :: ustr
  cr_status :: ustr

datatype snapd_outcome = SO_Sync | SO_Async change_report

definition blocking_start :: "snapd_client \<Rightarrow> ustr \<Rightarrow> ustr \<Rightarrow> ustr \<Rightarrow> snapd_io \<Rightarrow> (snapd_error + started) \<times> snapd_io" where
  "blocking_start C meth path body w =
     (let w0 = tick w; start = io_now w0; timeouts = sc_timeouts C;
          answering = timeouts\<lparr>to_per_request := to_authorization timeouts\<rparr> in
      case do_request (sc_json C) (sc_socket_path C) meth path (Some body) TC_Request answering start (start + to_authorization timeouts) w0 of
        (Inl e, w1) \<Rightarrow> (Inl e, w1)
      | (Inr response, w1) \<Rightarrow>
          (case parse_envelope (sc_json C) response of
             Inl e \<Rightarrow> (Inl e, w1)
           | Inr (EN_Sync _) \<Rightarrow> (Inr SD_Sync, w1)
           | Inr (EN_Async change_id) \<Rightarrow>
               if is_valid_change_id change_id then (Inr (SD_Change change_id), w1)
               else (Inl (SE_Protocol (lit ''snapd returned an invalid change id: '' @ sj_debug (sc_json C) change_id) (truncate_str response 512)), w1)
           | Inr (EN_Error status_code kind message) \<Rightarrow> (Inl (classify_error status_code kind message), w1)))"

text \<open>
  The wait between two polls: short sleeps, each followed by a look at the cancellation. An
  interval of zero has its end at once, and the guard on it only says so.
\<close>

definition nap :: "nat \<Rightarrow> snapd_io \<Rightarrow> snapd_io" where
  "nap interval w = w\<lparr>io_now := io_now w + min 25 interval\<rparr>"

lemma nap_later: "0 < interval \<Longrightarrow> io_now w < io_now (nap interval (tick w))"
  by (rule le_less_trans [OF tick_fields(5)]) (simp add: nap_def)

lemma nap_nearer: "io_now (tick w) < poll_end \<Longrightarrow> 0 < interval \<Longrightarrow> poll_end - io_now (nap interval (tick w)) < poll_end - io_now w"
  using nap_later [of interval w] tick_fields(5) [of w] by linarith

function wait_poll :: "nat \<Rightarrow> nat \<Rightarrow> snapd_io \<Rightarrow> bool \<times> snapd_io" where
  "wait_poll interval poll_end w =
     (if io_now (tick w) < poll_end \<and> 0 < interval then
        (if io_cancelled (tick w) then (False, tick w) else wait_poll interval poll_end (nap interval (tick w)))
      else (True, tick w))"
  by pat_completeness auto
termination
  by (relation "measure (\<lambda>(_, poll_end, w). poll_end - io_now w)") (simp_all add: nap_nearer)

declare wait_poll.simps [simp del]

lemma wait_poll_keeps: "keeps w (snd (wait_poll interval poll_end w))"
proof (induction interval poll_end w rule: wait_poll.induct)
  case (1 interval poll_end w)
  have "keeps w (nap interval (tick w))"
    by (simp add: keeps_def nap_def trans_le_add1)
  then show ?case
    by (subst wait_poll.simps) (auto intro: keeps_trans 1)
qed

lemma wait_poll_waits: "0 < interval \<Longrightarrow> wait_poll interval poll_end w = (True, w') \<Longrightarrow> poll_end \<le> io_now w'"
proof (induction interval poll_end w rule: wait_poll.induct)
  case (1 interval poll_end w)
  from "1.prems" show ?case
    by (subst (asm) wait_poll.simps) (auto split: if_splits intro: "1.IH")
qed

text \<open>One poll: its answer, or whether to go on.\<close>

definition poll_once :: "snapd_client \<Rightarrow> ustr \<Rightarrow> nat \<Rightarrow> nat \<Rightarrow> snapd_io \<Rightarrow> (snapd_error + change_report option) \<times> snapd_io" where
  "poll_once C change_id start deadline w =
     (if io_cancelled w then (Inl SE_Cancel, w)
      else if deadline \<le> io_now (tick w) then timed_out start TC_ChangePolling (tick w)
      else case do_request (sc_json C) (sc_socket_path C) (lit ''GET'') (change_path change_id) None TC_ChangePolling
                  (sc_timeouts C) start deadline (tick w) of
        (Inl e, w1) \<Rightarrow> (Inl e, w1)
      | (Inr response, w1) \<Rightarrow>
          (case parse_envelope (sc_json C) response of
             Inl e \<Rightarrow> (Inl e, w1)
           | Inr (EN_Async _) \<Rightarrow> (Inl (SE_Protocol (lit ''unexpected async envelope while polling change'') response), w1)
           | Inr (EN_Error status_code kind message) \<Rightarrow> (Inl (classify_error status_code kind message), w1)
           | Inr (EN_Sync result) \<Rightarrow>
               (case sj_change_body (sc_json C) result of
                  Inl e \<Rightarrow> (Inl (SE_Protocol (lit ''could not parse change body: '' @ e) (sj_print (sc_json C) result)), w1)
                | Inr body \<Rightarrow>
                    if cb_ready body then
                      (case cb_err body of
                         Some err \<Rightarrow> (Inl (SE_Snapd 200 (Some (lit ''change-failed'')) err), w1)
                       | None \<Rightarrow> (Inr (Some \<lparr>cr_change_id = change_id, cr_status = cb_status body\<rparr>), w1))
                    else (Inr None, w1))))"

lemma poll_once_effect:
  "one_request (utf8_bytes (http_request (lit ''GET'') (change_path change_id) None)) w (snd (poll_once C change_id start deadline w))"
    (is "one_request ?b w _")
proof -
  obtain r w1 where r: "do_request (sc_json C) (sc_socket_path C) (lit ''GET'') (change_path change_id) None TC_ChangePolling
      (sc_timeouts C) start deadline (tick w) = (r, w1)" by fastforce
  have "one_request ?b (tick w) w1"
    using do_request_effect [of "lit ''GET''" "change_path change_id" None "tick w" "sc_json C" "sc_socket_path C" TC_ChangePolling
        "sc_timeouts C" start deadline] r by simp
  then have k: "one_request ?b w w1" by (rule keeps_one_request [OF keeps_tick])
  show ?thesis
    by (auto simp: poll_once_def r k one_request_keeps keeps_timed_out_trans split: sum.split envelope.split option.split)
qed

lemma poll_once_goes_on:
  assumes "poll_once C change_id start deadline w = (Inr None, w')"
  shows "length (io_links w') < length (io_links w)" and "io_now w < deadline"
proof -
  obtain r w1 where r: "do_request (sc_json C) (sc_socket_path C) (lit ''GET'') (change_path change_id) None TC_ChangePolling
      (sc_timeouts C) start deadline (tick w) = (r, w1)" by fastforce
  from assms have on: "\<not> io_cancelled w" "\<not> deadline \<le> io_now (tick w)"
    by (auto simp: poll_once_def timed_out_def Let_def split: if_splits)
  from on(2) show "io_now w < deadline" using tick_fields(5) [of w] by linarith
  from assms on r obtain response where "r = Inr response" and "w1 = w'"
    by (cases r) (auto simp: poll_once_def split: sum.splits envelope.splits option.splits if_splits)
  with r do_request_answers [of "sc_json C" "sc_socket_path C" "lit ''GET''" "change_path change_id" None TC_ChangePolling
      "sc_timeouts C" start deadline "tick w"]
  show "length (io_links w') < length (io_links w)" by simp
qed

lemma wait_poll_links: "wait_poll interval poll_end w = (go, w') \<Longrightarrow> io_links w' = io_links w \<and> io_log w' = io_log w \<and> io_now w \<le> io_now w'"
  using wait_poll_keeps [of w interval poll_end] by (simp add: keeps_def)

function poll_loop :: "snapd_client \<Rightarrow> ustr \<Rightarrow> nat \<Rightarrow> nat \<Rightarrow> snapd_io \<Rightarrow> (snapd_error + change_report) \<times> snapd_io" where
  "poll_loop C change_id start deadline w =
     (case poll_once C change_id start deadline w of
        (Inl e, w1) \<Rightarrow> (Inl e, w1)
      | (Inr (Some report), w1) \<Rightarrow> (Inr report, w1)
      | (Inr None, w1) \<Rightarrow>
          (case wait_poll (to_poll_interval (sc_timeouts C)) (io_now (tick w1) + to_poll_interval (sc_timeouts C)) (tick w1) of
             (False, w2) \<Rightarrow> (Inl SE_Cancel, w2)
           | (True, w2) \<Rightarrow> poll_loop C change_id start deadline w2))"
  by pat_completeness auto
termination
  by (relation "measure (\<lambda>(_, _, _, _, w). length (io_links w))")
    (auto dest!: wait_poll_links [OF sym] poll_once_goes_on(1) [OF sym])

declare poll_loop.simps [simp del]

definition poll_change :: "snapd_client \<Rightarrow> ustr \<Rightarrow> nat \<Rightarrow> nat \<Rightarrow> snapd_io \<Rightarrow> (snapd_error + change_report) \<times> snapd_io" where
  "poll_change C change_id start deadline w =
     (if \<not> is_valid_change_id change_id
      then (Inl (SE_Protocol (lit ''refusing to poll invalid change id: '' @ sj_debug (sc_json C) change_id) []), w)
      else poll_loop C change_id start deadline w)"

definition blocking_write :: "snapd_client \<Rightarrow> ustr \<Rightarrow> ustr \<Rightarrow> ustr \<Rightarrow> snapd_io \<Rightarrow> (snapd_error + snapd_outcome) \<times> snapd_io" where
  "blocking_write C meth path body w =
     (let w0 = tick w; start = io_now w0 in
      case blocking_start C meth path body w0 of
        (Inl e, w1) \<Rightarrow> (Inl e, w1)
      | (Inr SD_Sync, w1) \<Rightarrow> (Inr SO_Sync, w1)
      | (Inr (SD_Change change_id), w1) \<Rightarrow>
          (case poll_change C change_id start (io_now (tick w1) + to_total (sc_timeouts C)) (tick w1) of
             (r, w2) \<Rightarrow> (map_sum (\<lambda>e. e) SO_Async r, w2)))"

definition apply_interface_action :: "snapd_client \<Rightarrow> interface_action \<Rightarrow> snapd_io \<Rightarrow> (snapd_error + snapd_outcome) \<times> snapd_io" where
  "apply_interface_action C a w =
     (if io_cancelled w then (Inl SE_Cancel, w)
      else case to_request_body (sc_json C) a of
        Inl e \<Rightarrow> (Inl e, w)
      | Inr body \<Rightarrow> blocking_write C (lit ''POST'') INTERFACES body w)"

definition install_snap :: "snapd_client \<Rightarrow> ustr \<Rightarrow> snapd_io \<Rightarrow> (snapd_error + ustr option) \<times> snapd_io" where
  "install_snap C snap w =
     (if \<not> is_valid_snap_name snap then (Inl (SE_Transport (lit ''invalid snap name: '' @ snap)), w)
      else case blocking_start C (lit ''POST'') (snap_path snap) INSTALL_ON_EDGE w of
        (Inr (SD_Change change_id), w1) \<Rightarrow> (Inr (Some change_id), w1)
      | (Inr SD_Sync, w1) \<Rightarrow> (Inl (SE_Protocol (lit ''snapd answered an install synchronously'') []), w1)
      | (Inl (SE_Snapd code (Some kind) message), w1) \<Rightarrow>
          if kind = lit ''snap-already-installed'' then (Inr None, w1) else (Inl (SE_Snapd code (Some kind) message), w1)
      | (Inl e, w1) \<Rightarrow> (Inl e, w1))"

section \<open>What the client ever sends\<close>

type_synonym sent = "ustr \<times> ustr \<times> ustr option"

definition wire :: "sent \<Rightarrow> byte list" where
  "wire r = (case r of (meth, path, body) \<Rightarrow> utf8_bytes (http_request meth path body))"

inductive allowed_request :: "snapd_json \<Rightarrow> sent \<Rightarrow> bool" for J where
  listing: "path \<in> {CHANGES_IN_PROGRESS, SYSTEM_INFO, SNAPS, CONTENT_CONNECTIONS} \<Longrightarrow> allowed_request J (lit ''GET'', path, None)"
| change: "is_valid_change_id change_id \<Longrightarrow> allowed_request J (lit ''GET'', change_path change_id, None)"
| install: "is_valid_snap_name snap \<Longrightarrow> allowed_request J (lit ''POST'', snap_path snap, Some INSTALL_ON_EDGE)"
| interface: "is_valid_snap_name (backend_snap a) \<Longrightarrow> is_valid_slot_name (backend_slot a) \<Longrightarrow>
    allowed_request J (lit ''POST'', INTERFACES, Some (sj_print J (interface_request_json a)))"

inductive_simps allowed_request_simps: "allowed_request J (meth, path, body)"

text \<open>A path that stays on its line and ends where the client ended it: no space, no control character.\<close>

definition clean_path :: "ustr \<Rightarrow> bool" where
  "clean_path path \<longleftrightarrow> path \<noteq> [] \<and> list_all (\<lambda>c. 32 < c \<and> c < 127) path"

lemma name_chars_clean: "is_name_char c \<Longrightarrow> 32 < c \<and> c < 127" "is_change_char c \<Longrightarrow> 32 < c \<and> c < 127"
  by (auto simp: is_name_char_def is_change_char_def ascii_defs)

lemma clean_paths: "clean_path CHANGES_IN_PROGRESS" "clean_path SYSTEM_INFO" "clean_path SNAPS" "clean_path CONTENT_CONNECTIONS"
    "clean_path INTERFACES"
  by code_simp+

lemma allowed_clean: "allowed_request J (meth, path, body) \<Longrightarrow> clean_path path"
proof (induction "(meth, path, body)" arbitrary: meth path body rule: allowed_request.induct)
  case (change change_id)
  then show ?case
    by (auto simp: is_valid_change_id_def clean_path_def change_path_def lit_def list_all_iff name_chars_clean)
next
  case (install snap)
  then show ?case
    by (auto simp: is_valid_snap_name_iff clean_path_def snap_path_def lit_def list_all_iff name_chars_clean)
qed (auto simp: clean_paths)

definition spoke :: "snapd_json \<Rightarrow> snapd_io \<Rightarrow> snapd_io \<Rightarrow> bool" where
  "spoke J w w' \<longleftrightarrow>
     (\<exists>sent. io_log w' = io_log w @ map wire sent \<and> list_all (\<lambda>r. allowed_request J r \<and> clean_path (fst (snd r))) sent)"

lemma spoke_keeps: "keeps w w' \<Longrightarrow> spoke J w w'"
  by (auto simp: spoke_def keeps_def intro: exI [of _ "[]"])

lemma spoke_refl [simp]: "spoke J w w"
  by (simp add: spoke_keeps)

lemma spoke_trans:
  assumes "spoke J w w1" and "spoke J w1 w2"
  shows "spoke J w w2"
proof -
  from assms obtain a b where "io_log w1 = io_log w @ map wire a" "io_log w2 = io_log w1 @ map wire b"
      "list_all (\<lambda>r. allowed_request J r \<and> clean_path (fst (snd r))) (a @ b)"
    by (auto simp: spoke_def)
  then show ?thesis unfolding spoke_def by (intro exI [of _ "a @ b"]) simp
qed

lemma spoke_one:
  assumes "one_request (wire (meth, path, body)) w w'" and "allowed_request J (meth, path, body)"
  shows "spoke J w w'"
proof -
  from assms(1) consider "io_log w' = io_log w" | "io_log w' = io_log w @ map wire [(meth, path, body)]"
    by (auto simp: one_request_def)
  then show ?thesis
    using assms(2) allowed_clean [OF assms(2)]
    by cases (auto simp: spoke_def intro: exI [of _ "[]"] exI [of _ "[(meth, path, body)]"])
qed

lemma spoke_do_request:
  assumes "allowed_request J (meth, path, body)"
  shows "spoke J w (snd (do_request J' socket_path meth path body ctx timeouts start deadline (tick w)))"
  by (rule spoke_trans [OF spoke_keeps [OF keeps_tick] spoke_one [OF _ assms]]) (simp add: wire_def do_request_effect)

lemma blocking_get_world:
  "snd (blocking_get C path what w) =
     snd (do_request (sc_json C) (sc_socket_path C) (lit ''GET'') path None TC_Request (sc_timeouts C) (io_now (tick w))
            (io_now (tick w) + to_per_request (sc_timeouts C)) (tick w))"
  by (simp add: blocking_get_def Let_def split: prod.split sum.split envelope.split)

lemma blocking_start_world:
  "snd (blocking_start C meth path body w) =
     snd (do_request (sc_json C) (sc_socket_path C) meth path (Some body) TC_Request
            ((sc_timeouts C)\<lparr>to_per_request := to_authorization (sc_timeouts C)\<rparr>) (io_now (tick w))
            (io_now (tick w) + to_authorization (sc_timeouts C)) (tick w))"
  by (simp add: blocking_start_def Let_def split: prod.split sum.split envelope.split)

lemma blocking_read_world: "snd (blocking_read C from_value path what w) = snd (blocking_get C path what w)"
    "snd (blocking_change C path w) = snd (blocking_get C path (lit ''a change'') w)"
    "snd (blocking_user_daemons_enabled C w) = snd (blocking_get C SYSTEM_INFO (lit ''the system information'') w)"
    "snd (blocking_changes_in_progress C w) = snd (blocking_get C CHANGES_IN_PROGRESS (lit ''the changes list'') w)"
  by (simp_all add: blocking_read_def blocking_change_def blocking_user_daemons_enabled_def blocking_changes_in_progress_def
      split: prod.split sum.split)

lemma spoke_get: "allowed_request J (lit ''GET'', path, None) \<Longrightarrow> spoke J w (snd (blocking_get C path what w))"
  by (simp add: blocking_get_world spoke_do_request)

lemma spoke_start: "allowed_request J (meth, path, Some body) \<Longrightarrow> spoke J w (snd (blocking_start C meth path body w))"
  by (simp add: blocking_start_world spoke_do_request)

lemma spoke_poll_loop: "is_valid_change_id change_id \<Longrightarrow> spoke J w (snd (poll_loop C change_id start deadline w))"
proof (induction C change_id start deadline w rule: poll_loop.induct)
  case (1 C change_id start deadline w)
  obtain r w1 where r: "poll_once C change_id start deadline w = (r, w1)" by fastforce
  have s1: "spoke J w w1"
    using poll_once_effect [of change_id w C start deadline] r
    by (auto intro!: spoke_one [OF _ allowed_request.change [OF "1.prems"]] simp: wire_def)
  show ?case
  proof (cases "r = Inr None")
    case False
    with r s1 show ?thesis by (subst poll_loop.simps) (auto split: sum.split option.split)
  next
    case True
    obtain go w2 where w2: "wait_poll (to_poll_interval (sc_timeouts C))
        (io_now (tick w1) + to_poll_interval (sc_timeouts C)) (tick w1) = (go, w2)" by fastforce
    have "keeps (tick w1) w2" using wait_poll_keeps [of "tick w1"] w2 by (metis snd_conv)
    then have s2: "spoke J w w2" using s1 by (meson keeps_tick spoke_keeps spoke_trans)
    have "go \<Longrightarrow> spoke J w2 (snd (poll_loop C change_id start deadline w2))"
      by (rule "1.IH" [OF r [symmetric] True refl w2 [symmetric] _ "1.prems"]) simp
    with r True w2 s2 show ?thesis by (subst poll_loop.simps) (cases go; auto intro: spoke_trans)
  qed
qed

lemma spoke_write:
  assumes "allowed_request J (meth, path, Some body)"
  shows "spoke J w (snd (blocking_write C meth path body w))"
proof -
  obtain r w1 where r: "blocking_start C meth path body (tick w) = (r, w1)" by fastforce
  have s: "spoke J w w1"
    using spoke_start [OF assms, of "tick w" C] r by (auto intro: spoke_trans [OF spoke_keeps [OF keeps_tick]])
  then have t: "spoke J w (tick w1)" by (rule spoke_trans) (simp add: spoke_keeps)
  have "spoke J w (snd (poll_change C change_id start deadline (tick w1)))" for change_id start deadline
    using t by (auto simp: poll_change_def intro: spoke_trans spoke_poll_loop)
  then have "spoke J w w2" if "poll_change C change_id start deadline (tick w1) = (r2, w2)" for change_id start deadline r2 w2
    using that by (metis snd_conv)
  with r s show ?thesis by (auto simp: blocking_write_def Let_def split: sum.split started.split prod.split)
qed

lemma spoke_apply: "spoke (sc_json C) w (snd (apply_interface_action C a w))"
  by (auto simp: apply_interface_action_def to_request_body_def split: sum.split
      intro!: spoke_write allowed_request.interface)

lemma spoke_install: "spoke J w (snd (install_snap C snap w))"
proof (cases "is_valid_snap_name snap")
  case True
  have "snd (install_snap C snap w) = snd (blocking_start C (lit ''POST'') (snap_path snap) INSTALL_ON_EDGE w)"
    using True by (auto simp: install_snap_def split: prod.split sum.split started.split snapd_error.split option.split)
  with True show ?thesis by (simp add: spoke_start allowed_request.install)
qed (simp add: install_snap_def)

text \<open>C30: snapd only ever hears the requests of a fixed list: whatever the client is asked and
whatever snapd answers, each operation sends nothing but reads of four fixed listings, reads of a
change whose id passed the filter, the install of a snap whose name passed, and the one interface
request on Myna's own plug; and no path of them has a space or a control character in it.\<close>

theorem requests_allowed:
  "spoke (sc_json C) w (snd (installed_snaps C from_snaps w))
   \<and> spoke (sc_json C) w (snd (content_connections C from_connections w))
   \<and> spoke (sc_json C) w (snd (blocking_changes_in_progress C w))
   \<and> spoke (sc_json C) w (snd (blocking_user_daemons_enabled C w))
   \<and> spoke (sc_json C) w (snd (change C change_id w))
   \<and> spoke (sc_json C) w (snd (install_snap C snap w))
   \<and> spoke (sc_json C) w (snd (apply_interface_action C a w))"
proof -
  have "spoke (sc_json C) w (snd (change C change_id w))"
    by (auto simp: change_def blocking_read_world intro!: spoke_get allowed_request.change)
  then show ?thesis
    by (auto simp: installed_snaps_def content_connections_def blocking_read_world spoke_install spoke_apply
        intro!: spoke_get allowed_request.listing)
qed

section \<open>How long polling goes on\<close>

lemma poll_once_late: "deadline \<le> io_now w \<Longrightarrow> io_log (snd (poll_once C change_id start deadline w)) = io_log w"
  using order_trans [OF _ tick_fields(5), of deadline w]
  by (auto simp: poll_once_def timed_out_def Let_def)

lemma ceiling_step:
  fixes i :: nat
  assumes "0 < i" and "0 < d" and "d' \<le> d - i"
  shows "Suc ((d' + i - 1) div i) \<le> (d + i - 1) div i"
proof -
  have "Suc ((d' + i - 1) div i) = (d' + i - 1 + i) div i"
    using assms(1) div_add_self2 [of i "d' + i - 1"] by linarith
  also have "\<dots> \<le> (d + i - 1) div i"
  proof (cases "i \<le> d")
    case True
    with assms show ?thesis by (intro div_le_mono) simp
  next
    case False
    with assms have "(d' + i - 1 + i) div i = 1" by (intro div_nat_eqI) simp_all
    moreover have "i div i \<le> (d + i - 1) div i" using assms by (intro div_le_mono) simp
    ultimately show ?thesis using assms by simp
  qed
  finally show ?thesis .
qed

definition polls_left :: "nat \<Rightarrow> nat \<Rightarrow> snapd_io \<Rightarrow> nat" where
  "polls_left interval deadline w = (deadline - io_now w + interval - 1) div interval"

lemma polls_left_step:
  assumes "0 < interval" and "io_now w < deadline" and "io_now w + interval \<le> io_now w'"
  shows "Suc (polls_left interval deadline w') \<le> polls_left interval deadline w"
  unfolding polls_left_def using assms by (intro ceiling_step) simp_all

lemma poll_once_log:
  "0 < interval \<Longrightarrow> length (io_log (snd (poll_once C change_id start deadline w))) \<le> length (io_log w) + polls_left interval deadline w"
proof (cases "deadline \<le> io_now w")
  case False
  assume i: "0 < interval"
  have "Suc ((0 + interval - 1) div interval) \<le> polls_left interval deadline w"
    unfolding polls_left_def using i False by (intro ceiling_step) simp_all
  then show ?thesis
    using poll_once_effect [of change_id w C start deadline] by (auto simp: one_request_def)
qed (simp add: poll_once_late)

lemma poll_loop_log:
  "0 < to_poll_interval (sc_timeouts C) \<Longrightarrow>
   length (io_log (snd (poll_loop C change_id start deadline w)))
     \<le> length (io_log w) + polls_left (to_poll_interval (sc_timeouts C)) deadline w"
proof (induction C change_id start deadline w rule: poll_loop.induct)
  case (1 C change_id start deadline w)
  let ?i = "to_poll_interval (sc_timeouts C)"
  obtain r w1 where r: "poll_once C change_id start deadline w = (r, w1)" by fastforce
  have l1: "length (io_log w1) \<le> length (io_log w) + polls_left ?i deadline w"
    using poll_once_log [OF "1.prems", of C change_id start deadline w] r by simp
  show ?case
  proof (cases "r = Inr None")
    case False
    with r l1 show ?thesis by (subst poll_loop.simps) (auto split: sum.split option.split)
  next
    case True
    obtain go w2 where w2: "wait_poll ?i (io_now (tick w1) + ?i) (tick w1) = (go, w2)" by fastforce
    from wait_poll_links [OF w2] have log: "io_log w2 = io_log w1" by simp
    have one: "length (io_log w1) \<le> Suc (length (io_log w))" and later: "io_now w \<le> io_now w1"
      using poll_once_effect [of change_id w C start deadline] r by (auto simp: one_request_def)
    show ?thesis
    proof (cases go)
      case False
      with r True w2 log l1 show ?thesis by (subst poll_loop.simps) simp
    next
      case True
      have "io_now (tick w1) + ?i \<le> io_now w2"
        using wait_poll_waits [OF "1.prems", of "io_now (tick w1) + ?i" "tick w1" w2] w2 True by simp
      with later tick_fields(5) [of w1] have "io_now w + ?i \<le> io_now w2" by linarith
      with poll_once_goes_on(2) [of C change_id start deadline w w1] r \<open>r = Inr None\<close>
      have "Suc (polls_left ?i deadline w2) \<le> polls_left ?i deadline w" by (intro polls_left_step "1.prems") simp_all
      moreover have "length (io_log (snd (poll_loop C change_id start deadline w2))) \<le> length (io_log w2) + polls_left ?i deadline w2"
        by (rule "1.IH" [OF r [symmetric] \<open>r = Inr None\<close> refl w2 [symmetric] _ "1.prems"]) (simp add: True)
      ultimately show ?thesis using r \<open>r = Inr None\<close> w2 True log one by (subst poll_loop.simps) simp
    qed
  qed
qed

text \<open>C31: Polling ends: whatever snapd answers, following a change asks it at most once per poll
interval of the time left to the deadline, rounded up; with no time left it asks nothing. With the
default timeouts that is 240 requests.\<close>

theorem polling_bounded:
  assumes "0 < to_poll_interval (sc_timeouts C)"
  shows "length (io_log (snd (poll_change C change_id start deadline w)))
           \<le> length (io_log w)
              + (deadline - io_now w + to_poll_interval (sc_timeouts C) - 1) div to_poll_interval (sc_timeouts C)"
  using poll_loop_log [OF assms, of change_id start deadline w] by (simp add: poll_change_def polls_left_def)

definition plain_json :: snapd_json where
  "plain_json = \<lparr>sj_raw = \<lambda>s. Inr \<lparr>rw_kind = lit ''sync'', rw_status_code = Some 200, rw_change = None, rw_result = JString s\<rparr>,
     sj_err_result = \<lambda>_. None,
     sj_change_body = \<lambda>v. Inr \<lparr>cb_ready = True, cb_status = lit ''Done'', cb_err = None\<rparr>,
     sj_change = \<lambda>_. Inl [], sj_changes = \<lambda>_. Inl [], sj_print = \<lambda>_. [], sj_debug = \<lambda>s. s\<rparr>"

definition plain_client :: snapd_client where
  "plain_client = \<lparr>sc_json = plain_json, sc_socket_path = lit ''/run/snapd.socket'', sc_timeouts = default_timeouts\<rparr>"

definition reset_world :: snapd_io where
  "reset_world = \<lparr>io_now = 0, io_ticks = [], io_cancel_at = None,
     io_links = [\<lparr>ln_connect = None, ln_write = WR_Done, ln_reads = [RD_Interrupted, RD_Failed (lit ''reset'')]\<rparr>], io_reads = [], io_log = []\<rparr>"

text \<open>A connection reset while the answer was awaited: one request, the bound of the default timeouts being 240.\<close>

lemma polling_bounded_witness:
  "fst (poll_change plain_client (lit ''42'') 0 120000 reset_world) = Inl (SE_Transport (lit ''reset''))
   \<and> length (io_log (snd (poll_change plain_client (lit ''42'') 0 120000 reset_world))) = 1
   \<and> length (io_log (snd (poll_change plain_client (lit ''42'') 0 120000 reset_world))) \<le> 240"
proof -
  have "0 < to_poll_interval (sc_timeouts plain_client)" by (simp add: plain_client_def default_timeouts_def)
  from polling_bounded [OF this, of "lit ''42''" 0 120000 reset_world]
  have "length (io_log (snd (poll_change plain_client (lit ''42'') 0 120000 reset_world))) \<le> 240"
    by (simp add: reset_world_def plain_client_def default_timeouts_def)
  moreover have "is_valid_change_id (lit ''42'')" by code_simp
  then have "fst (poll_change plain_client (lit ''42'') 0 120000 reset_world) = Inl (SE_Transport (lit ''reset''))
      \<and> length (io_log (snd (poll_change plain_client (lit ''42'') 0 120000 reset_world))) = 1"
    by (simp add: poll_change_def poll_loop.simps poll_once_def do_request_def io_cancelled_def tick_def connect_def
        remaining_def send_request_def read_response_def response_bytes_def read_head.simps read_some.simps
        find_double_crlf_def CRLF_def reset_world_def plain_client_def default_timeouts_def Let_def MAX_HEADER_BYTES_def)
  ultimately show ?thesis by simp
qed

end
