(* ===== verification/Command.thy ===== *)
theory Command
  imports Pkexec Utf8
begin

text \<open>
  The runner of commands, \<open>client/myna-config/src/command.rs\<close>: a request, the child it starts, and
  the wait for its end with a cancellation and a timeout. Every poll is one step, given what it
  finds ready: whether somebody has cancelled since, whether the child's output is complete,
  whether the timeout is over, and what a SIGKILL would achieve. \<open>glib\<close> spawns, reads and kills;
  its errors come with the kind \<open>glib_error_kind\<close> gives them. A duration is in nanoseconds, and
  \<open>fd\<close> prints one in seconds with one decimal.
\<close>

section \<open>Requests\<close>

record command_call = command_request +
  cr_environment :: "(ustr \<times> ustr) list"
  cr_removed :: "ustr list"
  cr_timeout :: "nat option"

definition command_new :: "ustr \<Rightarrow> ustr list \<Rightarrow> command_call" where
  "command_new executable arguments =
     \<lparr>cr_executable = executable, cr_arguments = arguments, cr_environment = [], cr_removed = [], cr_timeout = Some (30 * 10 ^ 9)\<rparr>"

definition with_environment :: "(ustr \<times> ustr) list \<Rightarrow> command_call \<Rightarrow> command_call" where
  "with_environment env r = r\<lparr>cr_environment := env\<rparr>"

definition without_inherited :: "ustr \<Rightarrow> command_call \<Rightarrow> command_call" where
  "without_inherited name r = r\<lparr>cr_removed := name # cr_removed r\<rparr>"

definition with_timeout :: "nat \<Rightarrow> command_call \<Rightarrow> command_call" where
  "with_timeout t r = r\<lparr>cr_timeout := Some t\<rparr>"

definition without_timeout :: "command_call \<Rightarrow> command_call" where
  "without_timeout r = r\<lparr>cr_timeout := None\<rparr>"

text \<open>What the child is started with: its arguments, and its environment.\<close>

definition argv :: "command_call \<Rightarrow> ustr list" where
  "argv r = cr_executable r # cr_arguments r"

definition child_environment :: "command_call \<Rightarrow> (ustr \<rightharpoonup> ustr) \<Rightarrow> ustr \<rightharpoonup> ustr" where
  "child_environment r inherited = foldl (\<lambda>env (k, v). env(k \<mapsto> v)) (inherited |` (- set (cr_removed r))) (cr_environment r)"

section \<open>What a failure says\<close>

definition QUOTED_OUTPUT_CHARS :: nat where "QUOTED_OUTPUT_CHARS = 300"

definition last_line :: "ustr \<Rightarrow> ustr option" where
  "last_line output = find (\<lambda>line. line \<noteq> []) (rev (map trim (rust_lines output)))"

definition quoted :: "ustr \<Rightarrow> ustr" where
  "quoted line = (if QUOTED_OUTPUT_CHARS < length line then take QUOTED_OUTPUT_CHARS line @ [8230] else line)"

definition show_int :: "int \<Rightarrow> ustr" where
  "show_int i = (if i < 0 then [45] else []) @ dec_digits (nat \<bar>i\<bar>)"

definition non_zero_text :: "int option \<Rightarrow> ustr \<Rightarrow> ustr \<Rightarrow> ustr" where
  "non_zero_text exit_status stdout stderr =
     (case exit_status of Some code \<Rightarrow> lit ''command exited with status '' @ show_int code | None \<Rightarrow> lit ''command was killed by a signal'')
     @ (case (case last_line stderr of None \<Rightarrow> last_line stdout | Some l \<Rightarrow> Some l) of
          Some line \<Rightarrow> lit '': '' @ quoted line | None \<Rightarrow> [])"

definition duration_text :: "(nat \<Rightarrow> ustr) \<Rightarrow> nat \<Rightarrow> ustr" where
  "duration_text fd d =
     (if d mod 10 ^ 9 = 0 then dec_digits (d div 10 ^ 9) @ lit '' s''
      else if d < 10 ^ 9 then dec_digits (d div 10 ^ 6) @ lit '' ms''
      else fd d @ lit '' s'')"

fun show_output_stream :: "output_stream \<Rightarrow> ustr" where
  "show_output_stream OS_Stdout = lit ''stdout''"
| "show_output_stream OS_Stderr = lit ''stderr''"

text \<open>The timeout of an error is carried as its text.\<close>

fun show_command_error :: "command_error \<Rightarrow> ustr" where
  "show_command_error (CE_NotFound executable) = lit ''command not found: '' @ executable"
| "show_command_error (CE_Spawn executable message) = lit ''could not spawn '' @ executable @ lit '': '' @ message"
| "show_command_error (CE_Timeout t) = lit ''command timed out after '' @ t"
| "show_command_error CE_Cancelled = lit ''command was cancelled''"
| "show_command_error (CE_NonZero st out err) = non_zero_text st out err"
| "show_command_error (CE_InvalidUtf8 str message) = show_output_stream str @ lit '' was not valid UTF-8: '' @ message"
| "show_command_error CE_FakeScriptExhausted = lit ''fake command runner has no scripted outcome''"

section \<open>The wait for the child\<close>

datatype stop = Stop_Stopped | Stop_Refused

text \<open>\<open>kill_process\<close>: the process's identifier, none once it has exited and been reaped, and what kill(2) answers.\<close>

datatype kill_answer = KL_Sent | KL_Permission | KL_Other

definition kill_process :: "int option \<Rightarrow> kill_answer \<Rightarrow> stop" where
  "kill_process pid answer =
     (case pid of
        None \<Rightarrow> Stop_Stopped
      | Some _ \<Rightarrow> if answer = KL_Sent then Stop_Stopped else if answer = KL_Permission then Stop_Refused else Stop_Stopped)"

record glib_error =
  ge_not_found :: bool
  ge_message :: ustr

datatype process_exit = PX_Exited int | PX_Signalled

record process_end =
  pe_stdout :: "byte list option"
  pe_stderr :: "byte list option"
  pe_exit :: process_exit

datatype process_result =
    PR_Completed "glib_error + process_end"
  | PR_TimedOut
  | PR_Cancelled

definition spawn_error :: "ustr \<Rightarrow> glib_error \<Rightarrow> command_error" where
  "spawn_error executable e = (if ge_not_found e then CE_NotFound executable else CE_Spawn executable (ge_message e))"

definition exit_status :: "process_exit \<Rightarrow> int option" where
  "exit_status x = (case x of PX_Exited code \<Rightarrow> Some code | PX_Signalled \<Rightarrow> None)"

definition pipe_bytes :: "byte list option \<Rightarrow> byte list" where
  "pipe_bytes b = the_default [] b"

definition completed_output :: "command_call \<Rightarrow> glib_error + process_end \<Rightarrow> command_error + command_output" where
  "completed_output call r =
     (case r of
        Inl e \<Rightarrow> Inl (spawn_error (cr_executable call) e)
      | Inr e \<Rightarrow>
          (case from_utf8 (pipe_bytes (pe_stdout e)) of
             Inl bad \<Rightarrow> Inl (CE_InvalidUtf8 OS_Stdout (show_utf8_error bad))
           | Inr out \<Rightarrow>
               (case from_utf8 (pipe_bytes (pe_stderr e)) of
                  Inl bad \<Rightarrow> Inl (CE_InvalidUtf8 OS_Stderr (show_utf8_error bad))
                | Inr err \<Rightarrow>
                    if pe_exit e \<noteq> PX_Exited 0 then Inl (CE_NonZero (exit_status (pe_exit e)) out err)
                    else Inr \<lparr>co_exit_status = exit_status (pe_exit e), co_stdout = out, co_stderr = err\<rparr>)))"

text \<open>The running wait: the shared flag of the token, whether the child may still be stopped, and the answer.\<close>

record process_run =
  pr_flag :: bool
  pr_stoppable :: bool
  pr_result :: "(command_error + command_output) option"

record process_offers =
  po_cancel :: bool
  po_completed :: "(glib_error + process_end) option"
  po_timed_out :: bool
  po_stop :: stop

datatype process_action =
    KA_Spawned
  | KA_Kill stop
  | KA_Withdraw
  | KA_Reaped "glib_error + process_end"

definition poll_process :: "command_call \<Rightarrow> process_offers \<Rightarrow> process_run \<Rightarrow> process_result option" where
  "poll_process call off p =
     (if pr_stoppable p \<and> pr_flag p then Some PR_Cancelled
      else case po_completed off of
        Some r \<Rightarrow> Some (PR_Completed r)
      | None \<Rightarrow> if cr_timeout call \<noteq> None \<and> po_timed_out off then Some PR_TimedOut else None)"

fun take_process :: "(nat \<Rightarrow> ustr) \<Rightarrow> command_call \<Rightarrow> stop \<Rightarrow> process_result \<Rightarrow> process_run \<Rightarrow> process_run \<times> process_action list" where
  "take_process fd call Stop_Stopped PR_Cancelled p = (p\<lparr>pr_result := Some (Inl CE_Cancelled)\<rparr>, [KA_Kill Stop_Stopped])"
| "take_process fd call Stop_Refused PR_Cancelled p = (p\<lparr>pr_flag := False, pr_stoppable := False\<rparr>, [KA_Kill Stop_Refused, KA_Withdraw])"
| "take_process fd call st PR_TimedOut p =
     (p\<lparr>pr_result := Some (Inl (CE_Timeout (duration_text fd (the_default 0 (cr_timeout call)))))\<rparr>, [KA_Kill st])"
| "take_process fd call st (PR_Completed r) p = (p\<lparr>pr_result := Some (completed_output call r)\<rparr>, [KA_Reaped r])"

definition process_step :: "(nat \<Rightarrow> ustr) \<Rightarrow> command_call \<Rightarrow> process_run \<Rightarrow> process_offers \<Rightarrow> process_run \<times> process_action list" where
  "process_step fd call p off =
     (if pr_result p \<noteq> None then (p, [])
      else let p = p\<lparr>pr_flag := pr_flag p \<or> po_cancel off\<rparr> in
        case poll_process call off p of
          None \<Rightarrow> (p, [])
        | Some r \<Rightarrow> take_process fd call (po_stop off) r p)"

definition process_start :: "command_call \<Rightarrow> bool \<Rightarrow> glib_error option \<Rightarrow> process_run \<times> process_action list" where
  "process_start call flag spawned =
     (if flag then (\<lparr>pr_flag = flag, pr_stoppable = True, pr_result = Some (Inl CE_Cancelled)\<rparr>, [])
      else case spawned of
        Some e \<Rightarrow> (\<lparr>pr_flag = flag, pr_stoppable = True, pr_result = Some (Inl (spawn_error (cr_executable call) e))\<rparr>, [])
      | None \<Rightarrow> (\<lparr>pr_flag = flag, pr_stoppable = True, pr_result = None\<rparr>, [KA_Spawned]))"

definition run_process :: "(nat \<Rightarrow> ustr) \<Rightarrow> command_call \<Rightarrow> bool \<Rightarrow> glib_error option \<Rightarrow> process_offers list \<Rightarrow> process_run \<times> process_action list" where
  "run_process fd call flag spawned offers =
     (let (p, acts) = process_start call flag spawned; (p', acts') = run_machine (process_step fd call) p offers
      in (p', acts @ acts'))"

section \<open>No child is left behind\<close>

text \<open>How a wait that has an answer came by it.\<close>

definition ended_well :: "command_call \<Rightarrow> process_action list \<Rightarrow> command_error + command_output \<Rightarrow> bool" where
  "ended_well call acts r \<longleftrightarrow>
     (if KA_Withdraw \<in> set acts then \<exists>e. KA_Reaped e \<in> set acts \<and> r = completed_output call e
      else r = Inl CE_Cancelled \<and> KA_Kill Stop_Stopped \<in> set acts
        \<or> (\<exists>e. KA_Reaped e \<in> set acts \<and> r = completed_output call e))"

definition process_story :: "command_call \<Rightarrow> process_run \<Rightarrow> process_action list \<Rightarrow> bool" where
  "process_story call p acts \<longleftrightarrow>
     (KA_Withdraw \<in> set acts \<longleftrightarrow> \<not> pr_stoppable p)
     \<and> (case pr_result p of None \<Rightarrow> True | Some r \<Rightarrow> ended_well call acts r)"

lemma process_step_story:
  assumes "cr_timeout call = None" and "process_story call p acts"
  shows "process_story call (fst (process_step fd call p off)) (acts @ snd (process_step fd call p off))"
proof (cases "pr_result p")
  case (Some r)
  with assms(2) show ?thesis by (simp add: process_step_def)
next
  case None
  let ?p = "p\<lparr>pr_flag := pr_flag p \<or> po_cancel off\<rparr>"
  show ?thesis
  proof (cases "poll_process call off ?p")
    case None
    with assms(2) \<open>pr_result p = None\<close> show ?thesis by (simp add: process_step_def process_story_def)
  next
    case (Some res)
    have step: "process_step fd call p off = take_process fd call (po_stop off) res ?p"
      using None Some by (simp add: process_step_def)
    show ?thesis
    proof (cases res)
      case (PR_Completed r)
      with assms(2) step show ?thesis by (auto simp: process_story_def ended_well_def)
    next
      case PR_TimedOut
      with Some assms(1) show ?thesis by (simp add: poll_process_def split: if_splits option.splits)
    next
      case PR_Cancelled
      with Some have "pr_stoppable p" by (simp add: poll_process_def split: if_splits option.splits)
      with PR_Cancelled assms(2) step None show ?thesis
        by (cases "po_stop off") (auto simp: process_story_def ended_well_def)
    qed
  qed
qed

lemma process_run_story:
  "cr_timeout call = None \<Longrightarrow> process_story call p acts \<Longrightarrow>
   process_story call (fst (run_machine (process_step fd call) p offers)) (acts @ snd (run_machine (process_step fd call) p offers))"
proof (induction offers arbitrary: p acts)
  case (Cons off offers)
  from Cons.IH [OF Cons.prems(1) process_step_story [OF Cons.prems]] show ?case by simp
qed simp

text \<open>C23: a child that was started is never left behind by a request without a timeout, such as one
that runs as root: its wait ends with the child's real outcome, or as cancelled after a kill that
worked; once a kill was refused the cancellation is withdrawn and only the real outcome ends it.\<close>

theorem no_child_left_behind:
  assumes "cr_timeout call = None"
  shows "case run_process fd call flag spawned offers of (p, acts) \<Rightarrow>
    (case pr_result p of
       None \<Rightarrow> True
     | Some r \<Rightarrow> if KA_Spawned \<in> set acts then ended_well call acts r
                 else acts = [] \<and> (r = Inl CE_Cancelled \<or> (\<exists>e. spawned = Some e \<and> r = Inl (spawn_error (cr_executable call) e))))"
proof -
  obtain p0 acts0 where start: "process_start call flag spawned = (p0, acts0)" by fastforce
  have stay: "pr_result p = Some r \<Longrightarrow> run_machine (process_step fd call) p offers = (p, [])" for p r
    by (induction offers) (simp_all add: process_step_def prod_eq_iff)
  show ?thesis
  proof (cases "pr_result p0")
    case None
    with start have "acts0 = [KA_Spawned]" and "process_story call p0 acts0"
      by (auto simp: process_start_def process_story_def split: if_splits option.splits)
    moreover obtain p1 acts1 where run: "run_machine (process_step fd call) p0 offers = (p1, acts1)" by fastforce
    ultimately have "process_story call p1 (KA_Spawned # acts1)"
      using process_run_story [OF assms, of p0 acts0 fd offers] by simp
    with start run \<open>acts0 = [KA_Spawned]\<close> show ?thesis
      by (simp add: run_process_def process_story_def split: option.splits)
  next
    case (Some r)
    with start stay [OF Some] show ?thesis
      by (auto simp: run_process_def process_start_def split: if_splits option.splits)
  qed
qed

definition quiet_offers :: process_offers where
  "quiet_offers = \<lparr>po_cancel = False, po_completed = None, po_timed_out = True, po_stop = Stop_Refused\<rparr>"

definition done_child :: process_end where
  "done_child = \<lparr>pe_stdout = None, pe_stderr = None, pe_exit = PX_Exited 0\<rparr>"

text \<open>A child that runs as root: the cancellation is refused, and its success is what is reported.\<close>

lemma no_child_left_behind_witness:
  "(let (p, acts) = run_process (\<lambda>_. []) (without_timeout (command_new (lit ''pkexec'') [])) False None
       [quiet_offers\<lparr>po_cancel := True\<rparr>, quiet_offers, quiet_offers\<lparr>po_completed := Some (Inr done_child)\<rparr>] in
    pr_result p = Some (Inr \<lparr>co_exit_status = Some 0, co_stdout = [], co_stderr = []\<rparr>)
    \<and> acts = [KA_Spawned, KA_Kill Stop_Refused, KA_Withdraw, KA_Reaped (Inr done_child)]
    \<and> ended_well (without_timeout (command_new (lit ''pkexec'') [])) acts (Inr \<lparr>co_exit_status = Some 0, co_stdout = [], co_stderr = []\<rparr>))"
proof -
  let ?call = "without_timeout (command_new (lit ''pkexec'') [])"
  have "cr_timeout ?call = None" by (simp add: without_timeout_def)
  note applied = no_child_left_behind [OF this, where fd = "\<lambda>_. []" and flag = False and spawned = None
      and offers = "[quiet_offers\<lparr>po_cancel := True\<rparr>, quiet_offers, quiet_offers\<lparr>po_completed := Some (Inr done_child)\<rparr>]"]
  have "run_process (\<lambda>_. []) ?call False None
       [quiet_offers\<lparr>po_cancel := True\<rparr>, quiet_offers, quiet_offers\<lparr>po_completed := Some (Inr done_child)\<rparr>]
     = (\<lparr>pr_flag = False, pr_stoppable = False, pr_result = Some (Inr \<lparr>co_exit_status = Some 0, co_stdout = [], co_stderr = []\<rparr>)\<rparr>,
        [KA_Spawned, KA_Kill Stop_Refused, KA_Withdraw, KA_Reaped (Inr done_child)])"
    by (simp add: run_process_def process_start_def process_step_def poll_process_def quiet_offers_def without_timeout_def
        completed_output_def done_child_def pipe_bytes_def exit_status_def run_machine.simps from_utf8_def utf8_decode_from.simps)
  with applied show ?thesis by simp
qed

section \<open>The runner under the adapter\<close>

text \<open>
  What the wait can answer: an error of its own, or what the child's reaped end was.
\<close>

definition own_error :: "command_error + command_output \<Rightarrow> bool" where
  "own_error r \<longleftrightarrow> (case r of Inl (CE_NonZero st out err) \<Rightarrow> False | Inl _ \<Rightarrow> True | Inr _ \<Rightarrow> False)"

definition answered :: "command_call \<Rightarrow> process_offers list \<Rightarrow> process_run \<Rightarrow> bool" where
  "answered call offers p \<longleftrightarrow>
     (case pr_result p of None \<Rightarrow> True
      | Some r \<Rightarrow> own_error r \<or> list_ex (\<lambda>off. \<exists>e. po_completed off = Some (Inr e) \<and> r = completed_output call (Inr e)) offers)"

lemma take_process_answered:
  assumes "poll_process call off p = Some res" and "pr_result p = None"
  shows "answered call [off] (fst (take_process fd call st res p))"
proof (cases res)
  case (PR_Completed r)
  with assms(1) have off: "po_completed off = Some r" by (auto simp: poll_process_def split: if_splits option.splits)
  show ?thesis
  proof (cases r)
    case (Inl e)
    with PR_Completed show ?thesis by (simp add: answered_def completed_output_def own_error_def spawn_error_def)
  qed (use PR_Completed off in \<open>simp add: answered_def\<close>)
qed (cases st; use assms(2) in \<open>simp add: answered_def own_error_def\<close>)+

lemma process_step_answered:
  assumes "answered call offers p"
  shows "answered call (off # offers) (fst (process_step fd call p off))"
proof (cases "pr_result p")
  case None
  let ?p = "p\<lparr>pr_flag := pr_flag p \<or> po_cancel off\<rparr>"
  show ?thesis
  proof (cases "poll_process call off ?p")
    case None
    with \<open>pr_result p = None\<close> show ?thesis by (simp add: process_step_def answered_def)
  next
    case (Some res)
    from take_process_answered [OF this, of fd "po_stop off"] \<open>pr_result p = None\<close> Some show ?thesis
      by (auto simp: process_step_def answered_def split: option.splits)
  qed
next
  case (Some r)
  with assms show ?thesis by (auto simp: process_step_def answered_def)
qed

lemma run_machine_answered:
  "answered call seen p \<Longrightarrow> answered call (rev offers @ seen) (fst (run_machine (process_step fd call) p offers))"
proof (induction offers arbitrary: p seen)
  case (Cons off offers)
  from Cons.IH [OF process_step_answered [OF Cons.prems]] show ?case by (simp add: case_prod_beta)
qed simp

lemma run_process_answered: "answered call offers (fst (run_process fd call flag spawned offers))"
proof -
  obtain p acts where s: "process_start call flag spawned = (p, acts)" by fastforce
  then have "answered call [] p"
    by (auto simp: process_start_def answered_def own_error_def spawn_error_def split: if_splits option.splits)
  from run_machine_answered [OF this, of offers fd] s show ?thesis
    by (auto simp: run_process_def answered_def case_prod_beta list_ex_iff split: option.splits)
qed

text \<open>
  This runner, as the adapter calls it for \<open>pkexec\<close>: no timeout, and \<open>SHELL\<close> not inherited. What
  happens to a call is its \<open>life\<close>: whether it can be spawned, what the polls find, and what has run
  as root when the wait ends. A wait that does not end has no answer, and the value is of no use.
\<close>

record child_life =
  cl_spawned :: "glib_error option"
  cl_offers :: "process_offers list"
  cl_begun :: "plan_operation list"

definition pkexec_call :: "command_request \<Rightarrow> command_call" where
  "pkexec_call q = without_timeout (without_inherited (lit ''SHELL'') (command_new (cr_executable q) (cr_arguments q)))"

definition process_runner :: "(nat \<Rightarrow> ustr) \<Rightarrow> (command_request \<Rightarrow> nat \<Rightarrow> child_life) \<Rightarrow> (plan_operation list \<times> nat) runner" where
  "process_runner fd life cancelled q w =
     (let l = life q (snd w)
      in (the_default (Inl CE_Cancelled) (pr_result (fst (run_process fd (pkexec_call q) (cancelled w) (cl_spawned l) (cl_offers l)))),
          (fst w @ cl_begun l, Suc (snd w))))"

text \<open>
  What \<open>pkexec\<close> and the executor do: whatever has run is a prefix of the executor's run; a child
  that exited is the executor having ended with its answer, or \<open>pkexec\<close> not having started it; and
  one killed by a signal had printed nothing that reads as results.
\<close>

definition executor_end :: "command_error + command_output \<Rightarrow> process_end \<Rightarrow> bool" where
  "executor_end answer e \<longleftrightarrow>
     (case answer of
        Inr out \<Rightarrow> pe_exit e = PX_Exited 0 \<and> co_exit_status out = Some 0
          \<and> from_utf8 (pipe_bytes (pe_stdout e)) = Inr (co_stdout out) \<and> from_utf8 (pipe_bytes (pe_stderr e)) = Inr (co_stderr out)
      | Inl (CE_NonZero (Some c) out err) \<Rightarrow> pe_exit e = PX_Exited c \<and> c \<noteq> 0
          \<and> from_utf8 (pipe_bytes (pe_stdout e)) = Inr out \<and> from_utf8 (pipe_bytes (pe_stderr e)) = Inr err
      | _ \<Rightarrow> False)"

definition end_fits :: "plan_codec \<Rightarrow> plan_exit \<times> plan_result list \<times> plan_operation list \<times> ustr list \<Rightarrow> plan_operation list \<Rightarrow> process_end \<Rightarrow> bool" where
  "end_fits js run begun e \<longleftrightarrow>
     (case pe_exit e of
        PX_Exited c \<Rightarrow> executor_end (executor_answer js run) e \<and> begun = fst (snd (snd run)) \<or> c \<in> {126, 127} \<and> begun = []
      | PX_Signalled \<Rightarrow> (case from_utf8 (pipe_bytes (pe_stdout e)) of Inl _ \<Rightarrow> True | Inr out \<Rightarrow> isl (pc_decode_results js out)))"

definition honest_life :: "plan_codec \<Rightarrow> world \<Rightarrow> ustr \<Rightarrow> (command_request \<Rightarrow> nat \<Rightarrow> child_life) \<Rightarrow> bool" where
  "honest_life js ws executor life \<longleftrightarrow>
     (\<forall>k s n. let run = run_plan ws k (pc_decode_plan js s); l = life (pkexec_request executor k s) n in
        (\<exists>m. cl_begun l = take m (fst (snd (snd run))))
        \<and> (\<forall>off \<in> set (cl_offers l). case po_completed off of Some (Inr e) \<Rightarrow> end_fits js run (cl_begun l) e | _ \<Rightarrow> True))"

lemma own_error_cut_short: "own_error r \<Longrightarrow> cut_short js r"
  by (auto simp: own_error_def split: sum.splits command_error.splits)

lemma end_fits_answer:
  assumes "end_fits js run begun e"
  shows "let answer = completed_output call (Inr e) in
      answer = executor_answer js run \<and> begun = fst (snd (snd run)) \<or> not_started answer \<and> begun = [] \<or> cut_short js answer"
proof (cases "cut_short js (completed_output call (Inr e))")
  case False
  then obtain out err where o: "from_utf8 (pipe_bytes (pe_stdout e)) = Inr out" "from_utf8 (pipe_bytes (pe_stderr e)) = Inr err"
    by (auto simp: completed_output_def split: sum.splits)
  show ?thesis
  proof (cases "pe_exit e")
    case (PX_Exited c)
    with assms consider "executor_end (executor_answer js run) e" "begun = fst (snd (snd run))" | "c \<in> {126, 127}" "begun = []"
      by (auto simp: end_fits_def)
    then show ?thesis
    proof cases
      case 1
      with PX_Exited o show ?thesis
        by (cases "executor_answer js run")
          (auto simp: executor_end_def completed_output_def exit_status_def split: command_error.splits option.splits)
    next
      case 2
      with PX_Exited o show ?thesis by (auto simp: completed_output_def exit_status_def)
    qed
  next
    case PX_Signalled
    with assms o False show ?thesis by (simp add: end_fits_def completed_output_def exit_status_def)
  qed
qed simp

text \<open>The repository's runner is one the adapter's theorems are about.\<close>

lemma process_runner_honest:
  assumes "honest_life js ws executor life"
  shows "pkexec_honest js ws executor fst (process_runner fd life)"
proof -
  have "(answer = executor_answer js run \<or> killed_at_end js (fst (snd run)) answer) \<and> fst w' = fst w @ fst (snd (snd run))
      \<or> not_started answer \<and> fst w' = fst w
      \<or> cut_short js answer \<and> (\<exists>n. fst w' = fst w @ take n (fst (snd (snd run))))"
    if r: "process_runner fd life cancelled (pkexec_request executor k s) w = (answer, w')"
      and run: "run = run_plan ws k (pc_decode_plan js s)" for k s cancelled w answer w' run
  proof -
    let ?q = "pkexec_request executor k s" and ?l = "life (pkexec_request executor k s) (snd w)"
    let ?p = "fst (run_process fd (pkexec_call ?q) (cancelled w) (cl_spawned ?l) (cl_offers ?l))"
    note h = assms [unfolded honest_life_def Let_def, rule_format, where k = k and s = s and n = "snd w", folded run]
    have w': "fst w' = fst w @ cl_begun ?l" and a: "answer = the_default (Inl CE_Cancelled) (pr_result ?p)"
      using r by (auto simp: process_runner_def Let_def)
    from run_process_answered [of "pkexec_call ?q" "cl_offers ?l" fd "cancelled w" "cl_spawned ?l"]
    consider "own_error answer" | off e where "off \<in> set (cl_offers ?l)" "po_completed off = Some (Inr e)" "answer = completed_output (pkexec_call ?q) (Inr e)"
      by (cases "pr_result ?p") (auto simp: answered_def a own_error_def list_ex_iff)
    then show ?thesis
    proof cases
      case 1
      with own_error_cut_short h w' show ?thesis by metis
    next
      case 2
      with h have "end_fits js run (cl_begun ?l) e" by fastforce
      from end_fits_answer [OF this, of "pkexec_call ?q"] 2 h w' show ?thesis by (auto simp: Let_def)
    qed
  qed
  then show ?thesis unfolding pkexec_honest_def Let_def by (auto simp: case_prod_beta)
qed

text \<open>
  A cancellation that finds the child already exited and reaped is taken for a kill that worked:
  the wait answers that the command was cancelled, although it ended.
\<close>

lemma cancelled_after_exit:
  assumes "stop = kill_process None answer"
  shows "pr_result (fst (run_process fd call False None
     [\<lparr>po_cancel = True, po_completed = Some (Inr ended), po_timed_out = False, po_stop = stop\<rparr>])) = Some (Inl CE_Cancelled)"
  by (simp add: assms kill_process_def run_process_def process_start_def process_step_def poll_process_def run_machine.simps)

end
