(* ===== verification/Snap_Backend.thy ===== *)
theory Snap_Backend
  imports Backend_Domain Command Snapd_Client
begin

text \<open>
  Reading a model's backend, \<open>client/myna-config/src/adapters/snap_backend.rs\<close>, with the parsers of
  \<open>domain.rs\<close>: which of a snap's commands is its modelctl, remembered between reads, and what
  modelctl answers. A command is run by \<open>run\<close>, over the cache and a state of the world: whatever
  else the application does while it is awaited may change both. \<open>serde\<close>'s decoding of
  modelctl's JSON, and the parsing of an \<open>f64\<close>, are parameters.
\<close>

section \<open>What modelctl prints\<close>

definition parse_error_text :: "ustr \<Rightarrow> ustr \<Rightarrow> ustr" where
  "parse_error_text source message = source @ lit '': '' @ message"

definition parse_i64 :: "ustr \<Rightarrow> int option" where
  "parse_i64 s =
     (let neg = (s \<noteq> [] \<and> hd s = 45); ds = (if s \<noteq> [] \<and> (hd s = 43 \<or> hd s = 45) then tl s else s);
          n = (if neg then - int (dec_value ds) else int (dec_value ds))
      in if ds \<noteq> [] \<and> list_all is_ascii_digit ds \<and> - (2 ^ 63) \<le> n \<and> n < 2 ^ 63 then Some n else None)"

definition parse_scalar :: "(ustr \<Rightarrow> f64 option) \<Rightarrow> ustr \<Rightarrow> config_value" where
  "parse_scalar pf raw =
     (if raw = lit ''true'' then CV_Boolean True
      else if raw = lit ''false'' then CV_Boolean False
      else case parse_i64 raw of
        Some i \<Rightarrow> CV_Integer i
      | None \<Rightarrow> (case pf raw of Some f \<Rightarrow> CV_Number f | None \<Rightarrow> CV_Text raw))"

fun config_lines :: "(ustr \<Rightarrow> f64 option) \<Rightarrow> nat \<Rightarrow> ustr list \<Rightarrow> backend_configuration \<Rightarrow> ustr + backend_configuration" where
  "config_lines pf index [] out = Inr out"
| "config_lines pf index (line # lines) out =
     (if trim line = [] \<or> starts_with [35] line then config_lines pf (Suc index) lines out
      else if starts_with_p is_whitespace line
      then Inl (parse_error_text (lit ''modelctl get'') (lit ''nested content on line '' @ dec_digits (Suc index)))
      else case split_once 58 line of
        None \<Rightarrow> Inl (parse_error_text (lit ''modelctl get'') (lit ''missing ':' on line '' @ dec_digits (Suc index)))
      | Some (key, raw) \<Rightarrow>
          if trim key = [] then Inl (parse_error_text (lit ''modelctl get'') (lit ''empty key on line '' @ dec_digits (Suc index)))
          else config_lines pf (Suc index) lines (btree_insert (trim key) (parse_scalar pf (trim raw)) out))"

definition parse_modelctl_config :: "(ustr \<Rightarrow> f64 option) \<Rightarrow> ustr \<Rightarrow> ustr + backend_configuration" where
  "parse_modelctl_config pf input = config_lines pf 0 (rust_lines input) []"

record raw_status =
  rs_engine :: "ustr option"
  rs_services :: "(ustr \<times> ustr) list"
  rs_entrypoints :: "(ustr \<times> (ustr \<times> ustr) list) list"

record modelctl_json =
  mj_status :: "ustr \<Rightarrow> ustr + raw_status"
  mj_models :: "ustr \<Rightarrow> ustr + ustr option \<times> ustr list"
  mj_engines :: "ustr \<Rightarrow> ustr + ustr option \<times> (ustr \<times> bool) list"
  mj_f64 :: "ustr \<Rightarrow> f64 option"

definition service_state_of :: "ustr \<Rightarrow> service_state" where
  "service_state_of s =
     (if s = lit ''active'' then Service_Active
      else if s = lit ''inactive'' then Service_Inactive
      else if s = lit ''failed'' then Service_Failed
      else Service_Unknown s)"

definition parse_status :: "modelctl_json \<Rightarrow> ustr \<Rightarrow> ustr + backend_status" where
  "parse_status J input =
     (case mj_status J input of
        Inl e \<Rightarrow> Inl (parse_error_text (lit ''modelctl status'') e)
      | Inr raw \<Rightarrow>
          if \<not> ((case rs_engine raw of Some e \<Rightarrow> trim e \<noteq> [] | None \<Rightarrow> False) \<or> rs_services raw \<noteq> [] \<or> rs_entrypoints raw \<noteq> [])
          then Inl (parse_error_text (lit ''modelctl status'') (lit ''missing engine, service, or entrypoint status evidence''))
          else Inr (map (\<lambda>(name, st). \<lparr>sh_name = name, sh_state = service_state_of st\<rparr>) (rs_services raw)))"

definition parse_model_options :: "modelctl_json \<Rightarrow> ustr \<Rightarrow> ustr + model_options" where
  "parse_model_options J input =
     map_sum (parse_error_text (lit ''modelctl list-models'')) (\<lambda>(active, models). \<lparr>mo_active = active, mo_options = models\<rparr>) (mj_models J input)"

definition parse_engine_options :: "modelctl_json \<Rightarrow> ustr \<Rightarrow> ustr + engine_options" where
  "parse_engine_options J input =
     map_sum (parse_error_text (lit ''modelctl list-engines''))
       (\<lambda>(active, engines). \<lparr>en_active = active, en_options = map (\<lambda>(name, ok). \<lparr>eo_name = name, eo_compatible = ok\<rparr>) engines\<rparr>) (mj_engines J input)"

section \<open>Which command is a snap's modelctl\<close>

fun snap_commands :: "ustr \<Rightarrow> bool \<Rightarrow> ustr list \<Rightarrow> ustr list \<Rightarrow> ustr list" where
  "snap_commands snap in_commands [] commands = commands"
| "snap_commands snap in_commands (line # lines) commands =
     (if line = lit ''commands:'' then snap_commands snap True lines commands
      else if in_commands \<and> \<not> starts_with_p is_whitespace line then commands
      else if \<not> in_commands then snap_commands snap in_commands lines commands
      else case strip_prefix (lit ''- '') (trim line) of
        None \<Rightarrow> snap_commands snap in_commands lines commands
      | Some command \<Rightarrow>
          snap_commands snap in_commands lines
            (if (command = snap \<or> starts_with (snap @ lit ''.'') command) \<and> command \<notin> set commands then commands @ [command] else commands))"

definition parse_snap_commands :: "ustr \<Rightarrow> ustr \<Rightarrow> ustr list" where
  "parse_snap_commands output snap = snap_commands snap False (rust_lines output) []"

definition is_likely :: "ustr \<Rightarrow> ustr \<Rightarrow> bool" where
  "is_likely snap candidate \<longleftrightarrow>
     candidate = snap
     \<or> (let expected = the_default snap (strip_prefix (lit ''myna-'') snap);
            app = the_default candidate (Option.bind (strip_prefix snap candidate) (strip_prefix (lit ''.'')))
        in app = expected
           \<or> list_ex (\<lambda>marker. split_once_str marker app \<noteq> None) [lit ''modelctl'', lit ''control'', lit ''config'', lit ''settings''])"

definition prioritized_modelctl_candidates :: "ustr list \<Rightarrow> ustr \<Rightarrow> ustr list" where
  "prioritized_modelctl_candidates candidates snap =
     filter (is_likely snap) candidates @ filter (\<lambda>c. \<not> is_likely snap c) candidates"

definition modelctl_arguments :: "ustr \<Rightarrow> ustr list \<Rightarrow> ustr list" where
  "modelctl_arguments app arguments = lit ''run'' # app # arguments"

section \<open>The repository\<close>

definition MAX_MODELCTL_CANDIDATES :: nat where "MAX_MODELCTL_CANDIDATES = 4"

record modelctl_cache =
  mc_generation :: u64
  mc_apps :: "ustr \<rightharpoonup> ustr"

definition cache_new :: modelctl_cache where
  "cache_new = \<lparr>mc_generation = 0, mc_apps = Map.empty\<rparr>"

type_synonym 'w repo = "modelctl_cache \<times> 'w"
type_synonym 'w repo_runner = "command_request \<Rightarrow> 'w repo \<Rightarrow> (command_error + command_output) \<times> 'w repo"

datatype modelctl_resolution =
    MR_Verified ustr u64
  | MR_CachedProbeFailed ustr backend_surface_error

fun error_stderr :: "command_error \<Rightarrow> ustr" where
  "error_stderr (CE_NonZero _ _ err) = err"
| "error_stderr _ = []"

definition surface_error :: "backend_surface \<Rightarrow> command_error \<Rightarrow> backend_surface_error" where
  "surface_error surface e = \<lparr>be_surface = surface, be_message = show_command_error e, be_stderr = error_stderr e\<rparr>"

definition command :: "'w repo_runner \<Rightarrow> backend_surface \<Rightarrow> ustr list \<Rightarrow> 'w repo \<Rightarrow> (backend_surface_error + command_output) \<times> 'w repo" where
  "command run surface arguments s =
     (case run \<lparr>cr_executable = lit ''snap'', cr_arguments = arguments\<rparr> s of
        (r, s') \<Rightarrow> (map_sum (surface_error surface) (\<lambda>out. out) r, s'))"

text \<open>\<open>version\<close> is the only subcommand that answers on every backend.\<close>

definition verified_modelctl :: "'w repo_runner \<Rightarrow> ustr \<Rightarrow> 'w repo \<Rightarrow> (backend_surface_error + unit) \<times> 'w repo" where
  "verified_modelctl run app s =
     (case command run BS_ModelctlApp (modelctl_arguments app [lit ''version'', lit ''--format=json'']) s of
        (r, s') \<Rightarrow> (map_sum (\<lambda>e. e) (\<lambda>_. ()) r, s'))"

definition invalidate_cached_app :: "ustr \<Rightarrow> ustr \<Rightarrow> u64 \<Rightarrow> 'w repo \<Rightarrow> 'w repo" where
  "invalidate_cached_app snap app generation s =
     (let c = fst s in
      if mc_generation c = generation \<and> mc_apps c snap = Some app then (c\<lparr>mc_apps := (mc_apps c)(snap := None)\<rparr>, snd s) else s)"

definition remember_app :: "ustr \<Rightarrow> ustr \<Rightarrow> u64 \<Rightarrow> 'w repo \<Rightarrow> 'w repo" where
  "remember_app snap app generation s =
     (let c = fst s in
      if mc_generation c = generation then (c\<lparr>mc_apps := (mc_apps c)(snap \<mapsto> app)\<rparr>, snd s) else s)"

fun probe_candidates :: "'w repo_runner \<Rightarrow> ustr \<Rightarrow> u64 \<Rightarrow> ustr list \<Rightarrow> backend_surface_error list \<Rightarrow> 'w repo
    \<Rightarrow> (backend_surface_error list + modelctl_resolution) \<times> 'w repo" where
  "probe_candidates run snap generation [] failures s =
     (Inl (failures @ [\<lparr>be_surface = BS_ModelctlApp,
        be_message = lit ''none of the installed snap commands answered `modelctl version`'', be_stderr = []\<rparr>]), s)"
| "probe_candidates run snap generation (candidate # rest) failures s =
     (case verified_modelctl run candidate s of
        (Inr _, s') \<Rightarrow> (Inr (MR_Verified candidate generation), remember_app snap candidate generation s')
      | (Inl e, s') \<Rightarrow> probe_candidates run snap generation rest (failures @ [e]) s')"

definition discover_modelctl :: "'w repo_runner \<Rightarrow> ustr \<Rightarrow> u64 \<Rightarrow> 'w repo \<Rightarrow> (backend_surface_error list + modelctl_resolution) \<times> 'w repo" where
  "discover_modelctl run snap generation s =
     (case command run BS_ModelctlApp [lit ''info'', snap] s of
        (Inl e, s') \<Rightarrow> (Inl [e], s')
      | (Inr info, s') \<Rightarrow>
          (let candidates = prioritized_modelctl_candidates (parse_snap_commands (co_stdout info) snap) snap in
           if candidates = []
           then (Inl [\<lparr>be_surface = BS_ModelctlApp, be_message = lit ''installed snap advertises no runnable commands'', be_stderr = []\<rparr>], s')
           else probe_candidates run snap generation (take MAX_MODELCTL_CANDIDATES candidates) [] s'))"

definition resolve_modelctl :: "'w repo_runner \<Rightarrow> ustr \<Rightarrow> 'w repo \<Rightarrow> (backend_surface_error list + modelctl_resolution) \<times> 'w repo" where
  "resolve_modelctl run snap s =
     (let generation = mc_generation (fst s) in
      case mc_apps (fst s) snap of
        Some app \<Rightarrow>
          (case verified_modelctl run app s of
             (Inr _, s') \<Rightarrow> (Inr (MR_Verified app generation), s')
           | (Inl e, s') \<Rightarrow> (Inr (MR_CachedProbeFailed app e), invalidate_cached_app snap app generation s'))
      | None \<Rightarrow> discover_modelctl run snap generation s)"

text \<open>A backend with no engine selected yet is a state, not a failure.\<close>

definition is_unconfigured :: "backend_surface_error \<Rightarrow> bool" where
  "is_unconfigured e \<longleftrightarrow> split_once_str (lit ''no active engine'') (be_stderr e) \<noteq> None
     \<or> split_once_str (lit ''engine manifest not found'') (be_stderr e) \<noteq> None"

definition parse_error :: "backend_surface \<Rightarrow> ustr \<Rightarrow> backend_surface_error" where
  "parse_error surface message = \<lparr>be_surface = surface, be_message = message, be_stderr = []\<rparr>"

text \<open>One surface: the value put into the snapshot, or the error.\<close>

definition read_surface :: "'w repo_runner \<Rightarrow> backend_surface \<Rightarrow> ustr list \<Rightarrow> bool \<Rightarrow> (ustr \<Rightarrow> ustr + 'a) \<Rightarrow> ('a \<Rightarrow> backend_snapshot \<Rightarrow> backend_snapshot)
    \<Rightarrow> backend_snapshot \<Rightarrow> 'w repo \<Rightarrow> backend_snapshot \<times> 'w repo" where
  "read_surface run surface arguments tolerant parse put snapshot s =
     (case command run surface arguments s of
        (Inr out, s') \<Rightarrow>
          (case parse (co_stdout out) of
             Inr v \<Rightarrow> (put v snapshot, s')
           | Inl e \<Rightarrow> (add_error (parse_error surface e) snapshot, s'))
      | (Inl e, s') \<Rightarrow> (if tolerant \<and> is_unconfigured e then snapshot else add_error e snapshot, s'))"

definition modelctl_status :: "modelctl_json \<Rightarrow> 'w repo_runner \<Rightarrow> ustr \<Rightarrow> backend_snapshot \<Rightarrow> 'w repo \<Rightarrow> backend_snapshot \<times> 'w repo" where
  "modelctl_status J run app snapshot s =
     read_surface run BS_Status (modelctl_arguments app [lit ''status'', lit ''--format=json'']) True
       (parse_status J) (\<lambda>v n. n\<lparr>sn_status := Some v\<rparr>) snapshot s"

definition modelctl_data :: "modelctl_json \<Rightarrow> 'w repo_runner \<Rightarrow> ustr \<Rightarrow> backend_snapshot \<Rightarrow> 'w repo \<Rightarrow> bool \<times> backend_snapshot \<times> 'w repo" where
  "modelctl_data J run app snapshot s =
     (let (n1, s1) = read_surface run BS_ModelctlConfig (modelctl_arguments app [lit ''get'']) False
            (parse_modelctl_config (mj_f64 J)) (\<lambda>v n. n\<lparr>sn_configuration := v\<rparr>) snapshot s;
          f1 = (sn_errors n1 BS_ModelctlConfig \<noteq> None);
          (n2, s2) = read_surface run BS_Models (modelctl_arguments app [lit ''list-models'', lit ''--format=json'']) True
            (parse_model_options J) (\<lambda>v n. n\<lparr>sn_models := Some v\<rparr>) n1 s1;
          f2 = (sn_errors n2 BS_Models \<noteq> None);
          (n3, s3) = read_surface run BS_Engines (modelctl_arguments app [lit ''list-engines'', lit ''--format=json'']) False
            (parse_engine_options J) (\<lambda>v n. n\<lparr>sn_engines := Some v\<rparr>) n2 s2
      in (f1 \<or> f2 \<or> sn_errors n3 BS_Engines \<noteq> None, n3, s3))"

definition with_modelctl_app :: "ustr \<Rightarrow> backend_identity \<Rightarrow> backend_identity" where
  "with_modelctl_app app b = b\<lparr>bi_modelctl_app := Some app\<rparr>"

definition read_snapshot :: "modelctl_json \<Rightarrow> 'w repo_runner \<Rightarrow> backend_identity \<Rightarrow> 'w repo \<Rightarrow> backend_snapshot \<times> 'w repo" where
  "read_snapshot J run backend s =
     (case resolve_modelctl run (bi_snap_name backend) s of
        (Inr (MR_Verified app generation), s1) \<Rightarrow>
          (let n0 = (snapshot_empty backend)\<lparr>sn_identity := with_modelctl_app app backend\<rparr>;
               (n1, s2) = modelctl_status J run app n0 s1;
               (failed, n2, s3) = modelctl_data J run app n1 s2
           in (n2, if failed then invalidate_cached_app (bi_snap_name backend) app generation s3 else s3))
      | (Inr (MR_CachedProbeFailed app e), s1) \<Rightarrow>
          (let n0 = add_error e ((snapshot_empty backend)\<lparr>sn_identity := with_modelctl_app app backend\<rparr>);
               (n1, s2) = modelctl_status J run app n0 s1;
               (_, n2, s3) = modelctl_data J run app n1 s2
           in (n2, s3))
      | (Inl errors, s1) \<Rightarrow> (fold add_error errors (snapshot_empty backend), s1))"

text \<open>snapd's own answers, and the refresh that forgets which commands are modelctls.\<close>

fun timeout_description :: "timeout_context \<Rightarrow> ustr" where
  "timeout_description TC_Request = lit ''snapd request''"
| "timeout_description TC_ChangePolling = lit ''snapd change polling''"

fun show_snapd_error :: "(nat \<Rightarrow> ustr) \<Rightarrow> snapd_error \<Rightarrow> ustr" where
  "show_snapd_error fd SE_Cancel = lit ''snapd request cancelled''"
| "show_snapd_error fd (SE_Timeout ms ctx) = timeout_description ctx @ lit '' timed out after '' @ duration_text fd (ms * 10 ^ 6)"
| "show_snapd_error fd (SE_Transport message) = lit ''snapd transport error: '' @ message"
| "show_snapd_error fd (SE_Protocol message _) = lit ''snapd protocol error: '' @ message"
| "show_snapd_error fd SE_ResponseTooLarge = lit ''snapd response exceeded size limit''"
| "show_snapd_error fd (SE_Snapd code _ message) = lit ''snapd rejected request (HTTP '' @ dec_digits (unat code) @ lit ''): '' @ message"
| "show_snapd_error fd (SE_AuthorizationDenied code _ message) =
     lit ''snapd authorization denied (HTTP '' @ dec_digits (unat code) @ lit ''): '' @ message"

definition discover :: "(nat \<Rightarrow> ustr) \<Rightarrow> ('w repo \<Rightarrow> (snapd_error + content_slot list) \<times> 'w repo) \<Rightarrow> 'w repo
    \<Rightarrow> (backend_surface_error + connection_snapshot) \<times> 'w repo" where
  "discover fd slots s =
     (case slots s of
        (r, s') \<Rightarrow> (map_sum (\<lambda>e. parse_error BS_Connections (show_snapd_error fd e)) connection_snapshot_of r, s'))"

definition forget_apps :: "'w repo \<Rightarrow> 'w repo" where
  "forget_apps s = (\<lparr>mc_generation = mc_generation (fst s) + 1, mc_apps = Map.empty\<rparr>, snd s)"

definition refresh :: "(nat \<Rightarrow> ustr) \<Rightarrow> ('w repo \<Rightarrow> (snapd_error + content_slot list) \<times> 'w repo) \<Rightarrow> 'w repo
    \<Rightarrow> (backend_surface_error + connection_snapshot) \<times> 'w repo" where
  "refresh fd slots s = discover fd slots (forget_apps s)"

section \<open>What a read runs\<close>

definition own_app :: "ustr \<Rightarrow> ustr \<Rightarrow> bool" where
  "own_app snap app \<longleftrightarrow> app = snap \<or> starts_with (snap @ lit ''.'') app"

definition READS :: "ustr list list" where
  "READS = [[lit ''version'', lit ''--format=json''], [lit ''status'', lit ''--format=json''], [lit ''get''],
            [lit ''list-models'', lit ''--format=json''], [lit ''list-engines'', lit ''--format=json'']]"

definition read_command :: "ustr \<Rightarrow> command_request \<Rightarrow> bool" where
  "read_command snap req \<longleftrightarrow>
     cr_executable req = lit ''snap''
     \<and> (case cr_arguments req of
          [a, b] \<Rightarrow> a = lit ''info'' \<and> b = snap
        | a # app # rest \<Rightarrow> a = lit ''run'' \<and> own_app snap app \<and> rest \<in> set READS
        | _ \<Rightarrow> False)"

text \<open>Every remembered command is one of its snap's own; awaiting a command keeps it so.\<close>

definition cache_own :: "modelctl_cache \<Rightarrow> bool" where
  "cache_own c \<longleftrightarrow> (\<forall>snap app. mc_apps c snap = Some app \<longrightarrow> own_app snap app)"

definition keeps_own :: "'w repo_runner \<Rightarrow> bool" where
  "keeps_own run \<longleftrightarrow> (\<forall>req c v. cache_own c \<longrightarrow> cache_own (fst (snd (run req (c, v)))))"

text \<open>The runner with a log of what it was asked.\<close>

definition logging :: "'v repo_runner \<Rightarrow> ('v \<times> command_request list) repo_runner" where
  "logging run req s =
     (case run req (fst s, fst (snd s)) of (r, (c, v)) \<Rightarrow> (r, (c, (v, snd (snd s) @ [req]))))"

definition asked :: "ustr \<Rightarrow> nat \<Rightarrow> ('v \<times> command_request list) repo \<Rightarrow> ('v \<times> command_request list) repo \<Rightarrow> bool" where
  "asked snap n s s' \<longleftrightarrow>
     cache_own (fst s')
     \<and> (\<exists>new. snd (snd s') = snd (snd s) @ new \<and> length new \<le> n \<and> list_all (read_command snap) new)"

lemma asked_own: "asked snap n s s' \<Longrightarrow> cache_own (fst s')"
  by (simp add: asked_def)

lemma asked_refl: "cache_own (fst s) \<Longrightarrow> asked snap n s s"
  by (auto simp: asked_def)

lemma asked_trans:
  assumes "asked snap m s s1" and "asked snap n s1 s2" and "m + n \<le> k"
  shows "asked snap k s s2"
proof -
  from assms obtain a b where "snd (snd s1) = snd (snd s) @ a" "snd (snd s2) = snd (snd s1) @ b"
    "length a \<le> m" "length b \<le> n" "list_all (read_command snap) (a @ b)"
    by (auto simp: asked_def)
  with assms show ?thesis unfolding asked_def by (intro conjI exI [of _ "a @ b"]) auto
qed

lemma asked_more: "asked snap m s s' \<Longrightarrow> m \<le> n \<Longrightarrow> asked snap n s s'"
  by (auto simp: asked_def)

lemma command_asked:
  assumes "keeps_own run" and "cache_own (fst s)"
    and "read_command snap \<lparr>cr_executable = lit ''snap'', cr_arguments = arguments\<rparr>"
  shows "asked snap 1 s (snd (command (logging run) surface arguments s))"
proof -
  obtain r c v where run: "run \<lparr>cr_executable = lit ''snap'', cr_arguments = arguments\<rparr> (fst s, fst (snd s)) = (r, (c, v))"
    by (metis surj_pair)
  with assms(1,2) have "cache_own c" by (metis keeps_own_def fst_conv snd_conv)
  with run assms(3) show ?thesis by (simp add: command_def logging_def asked_def)
qed

lemma read_commands:
  "read_command snap \<lparr>cr_executable = lit ''snap'', cr_arguments = [lit ''info'', snap]\<rparr>"
  "own_app snap app \<Longrightarrow> rest \<in> set READS \<Longrightarrow>
     read_command snap \<lparr>cr_executable = lit ''snap'', cr_arguments = modelctl_arguments app rest\<rparr>"
  by (auto simp: read_command_def modelctl_arguments_def READS_def)

lemma reads_in [simp]:
  "[lit ''version'', lit ''--format=json''] \<in> set READS" "[lit ''status'', lit ''--format=json''] \<in> set READS"
  "[lit ''get''] \<in> set READS" "[lit ''list-models'', lit ''--format=json''] \<in> set READS"
  "[lit ''list-engines'', lit ''--format=json''] \<in> set READS"
  by (simp_all add: READS_def)

lemma verified_asked:
  "keeps_own run \<Longrightarrow> cache_own (fst s) \<Longrightarrow> own_app snap app \<Longrightarrow> asked snap 1 s (snd (verified_modelctl (logging run) app s))"
  using command_asked [OF _ _ read_commands(2), of run s snap app] by (simp add: verified_modelctl_def case_prod_beta)

lemma cache_changes_own:
  "cache_own (fst s) \<Longrightarrow> asked snap 0 s (invalidate_cached_app snap' app g s)"
  "cache_own (fst s) \<Longrightarrow> own_app snap' app \<Longrightarrow> asked snap 0 s (remember_app snap' app g s)"
  by (auto simp: asked_def invalidate_cached_app_def remember_app_def cache_own_def Let_def)

lemma snap_commands_own: "list_all (own_app snap) commands \<Longrightarrow> list_all (own_app snap) (snap_commands snap on lines commands)"
  by (induction snap on lines commands rule: snap_commands.induct) (auto simp: own_app_def split: option.split)

lemma candidates_own: "list_all (own_app snap) (prioritized_modelctl_candidates (parse_snap_commands output snap) snap)"
  using snap_commands_own [of snap "[]" False "rust_lines output"]
  by (auto simp: prioritized_modelctl_candidates_def parse_snap_commands_def list_all_iff)

lemma probe_asked:
  "keeps_own run \<Longrightarrow> cache_own (fst s) \<Longrightarrow> list_all (own_app snap) cs \<Longrightarrow>
   asked snap (length cs) s (snd (probe_candidates (logging run) snap g cs failures s))"
proof (induction cs arbitrary: failures s)
  case (Cons c cs)
  obtain r s1 where r: "verified_modelctl (logging run) c s = (r, s1)" by (rule prod.exhaust)
  from verified_asked [of run s snap c] Cons.prems r have one: "asked snap 1 s s1" by simp
  then have own: "cache_own (fst s1)" by (rule asked_own)
  show ?case
  proof (cases r)
    case (Inl e)
    from Cons.IH [OF Cons.prems(1) own] Cons.prems(3)
    have "asked snap (length cs) s1 (snd (probe_candidates (logging run) snap g cs (failures @ [e]) s1))" by simp
    with r Inl show ?thesis by (auto intro: asked_trans [OF one])
  next
    case (Inr u)
    from cache_changes_own(2) [OF own] Cons.prems(3) have "asked snap 0 s1 (remember_app snap c g s1)" by simp
    with r Inr show ?thesis by (auto intro: asked_trans [OF one])
  qed
qed (simp add: asked_refl)

lemma probe_answer: "list_all (own_app snap) cs \<Longrightarrow> fst (probe_candidates run snap g cs failures s) = Inr (MR_Verified app g') \<Longrightarrow> own_app snap app"
  "fst (probe_candidates run snap g cs failures s) \<noteq> Inr (MR_CachedProbeFailed app e)"
  by (induction cs arbitrary: failures s) (auto split: prod.splits sum.splits)

lemma resolve_asked:
  assumes "keeps_own run" and "cache_own (fst s)" and "resolve_modelctl (logging run) snap s = (r, s')"
  shows "asked snap 5 s s'" and "r = Inr (MR_Verified app g) \<Longrightarrow> own_app snap app"
    and "r = Inr (MR_CachedProbeFailed app e) \<Longrightarrow> own_app snap app"
proof -
  have "asked snap 5 s s' \<and> (r = Inr (MR_Verified app g) \<longrightarrow> own_app snap app)
      \<and> (r = Inr (MR_CachedProbeFailed app e) \<longrightarrow> own_app snap app)"
  proof (cases "mc_apps (fst s) snap")
    case (Some cached)
    with assms(2) have own: "own_app snap cached" by (simp add: cache_own_def)
    obtain q s1 where q: "verified_modelctl (logging run) cached s = (q, s1)" by (rule prod.exhaust)
    from verified_asked [OF assms(1,2) own] q have one: "asked snap 1 s s1" by simp
    have "asked snap 5 s (invalidate_cached_app snap cached g' s1)" for g'
      by (rule asked_trans [OF one cache_changes_own(1) [OF asked_own [OF one]]]) simp
    moreover have "asked snap 5 s s1" by (rule asked_more [OF one]) simp
    ultimately show ?thesis
      using assms(3) Some q own by (cases q) (auto simp: resolve_modelctl_def Let_def)
  next
    case None
    obtain q s1 where q: "command (logging run) BS_ModelctlApp [lit ''info'', snap] s = (q, s1)" by (rule prod.exhaust)
    from command_asked [OF assms(1,2) read_commands(1)] q have one: "asked snap 1 s s1" by (metis snd_conv)
    note own = asked_own [OF one]
    show ?thesis
    proof (cases q)
      case (Inl err)
      with assms(3) None q one show ?thesis
        by (auto simp: resolve_modelctl_def discover_modelctl_def intro: asked_more)
    next
      case (Inr info)
      let ?cs = "take MAX_MODELCTL_CANDIDATES (prioritized_modelctl_candidates (parse_snap_commands (co_stdout info) snap) snap)"
      have cs: "list_all (own_app snap) ?cs"
        using candidates_own [of snap "co_stdout info"] by (auto simp: list_all_iff dest: in_set_takeD)
      have four: "length ?cs \<le> 4" by (simp add: MAX_MODELCTL_CANDIDATES_def)
      have "asked snap 5 s (snd (probe_candidates (logging run) snap g' ?cs [] s1))" for g'
        by (rule asked_trans [OF one probe_asked [OF assms(1) own cs]]) (use four in simp)
      then have "asked snap 5 s s2" if "probe_candidates (logging run) snap g' ?cs [] s1 = (r2, s2)" for g' r2 s2
        using that by (metis snd_conv)
      then show ?thesis
        using assms(3) None q Inr one probe_answer(1) [OF cs, of "logging run" "mc_generation (fst s)" "[]" s1 app g]
          probe_answer(2) [of "logging run" snap "mc_generation (fst s)" ?cs "[]" s1 app e]
        by (auto simp: resolve_modelctl_def discover_modelctl_def Let_def intro: asked_more split: if_splits)
    qed
  qed
  then show "asked snap 5 s s'" and "r = Inr (MR_Verified app g) \<Longrightarrow> own_app snap app"
    and "r = Inr (MR_CachedProbeFailed app e) \<Longrightarrow> own_app snap app" by blast+
qed

lemma read_surface_world: "snd (read_surface run surface args tolerant parse put n s) = snd (command run surface args s)"
  by (simp add: read_surface_def case_prod_beta split: sum.split)

lemma surface_asked:
  assumes "keeps_own run" and "cache_own (fst s)" and "own_app snap app" and "rest \<in> set READS"
  shows "asked snap 1 s (snd (read_surface (logging run) surface (modelctl_arguments app rest) tolerant parse put n s))"
  unfolding read_surface_world by (rule command_asked [OF assms(1,2) read_commands(2) [OF assms(3,4)]])

lemma data_asked:
  assumes "keeps_own run" and "cache_own (fst s)" and "own_app snap app"
  shows "asked snap 3 s (snd (snd (modelctl_data J (logging run) app n s)))"
proof -
  let ?get = "\<lambda>n s. read_surface (logging run) BS_ModelctlConfig (modelctl_arguments app [lit ''get'']) False
            (parse_modelctl_config (mj_f64 J)) (\<lambda>v n. n\<lparr>sn_configuration := v\<rparr>) n s"
  let ?models = "\<lambda>n s. read_surface (logging run) BS_Models (modelctl_arguments app [lit ''list-models'', lit ''--format=json'']) True
            (parse_model_options J) (\<lambda>v n. n\<lparr>sn_models := Some v\<rparr>) n s"
  let ?engines = "\<lambda>n s. read_surface (logging run) BS_Engines (modelctl_arguments app [lit ''list-engines'', lit ''--format=json'']) False
            (parse_engine_options J) (\<lambda>v n. n\<lparr>sn_engines := Some v\<rparr>) n s"
  obtain n1 s1 where r1: "?get n s = (n1, s1)" by (rule prod.exhaust)
  obtain n2 s2 where r2: "?models n1 s1 = (n2, s2)" by (rule prod.exhaust)
  obtain n3 s3 where r3: "?engines n2 s2 = (n3, s3)" by (rule prod.exhaust)
  have a1: "asked snap 1 s s1" using surface_asked [OF assms reads_in(3)] r1 by (metis snd_conv)
  have a2: "asked snap 1 s1 s2" using surface_asked [OF assms(1) asked_own [OF a1] assms(3) reads_in(4)] r2 by (metis snd_conv)
  have a3: "asked snap 1 s2 s3" using surface_asked [OF assms(1) asked_own [OF a2] assms(3) reads_in(5)] r3 by (metis snd_conv)
  have "asked snap 2 s s2" by (rule asked_trans [OF a1 a2]) simp
  then have "asked snap 3 s s3" by (rule asked_trans [OF _ a3]) simp
  with r1 r2 r3 show ?thesis by (simp add: modelctl_data_def)
qed

text \<open>C33: reading a model is read-only and within its budget: whatever snapd and modelctl answer and
whatever else happens meanwhile, it runs at most nine commands, each of them \<open>snap info\<close> of the
model's snap or one of five reading subcommands of a command that is the snap's own.\<close>

theorem read_snapshot_budget:
  assumes "keeps_own run" and "cache_own (fst s)"
  shows "asked (bi_snap_name backend) 9 s (snd (read_snapshot J (logging run) backend s))"
proof -
  let ?snap = "bi_snap_name backend"
  obtain r s1 where r: "resolve_modelctl (logging run) ?snap s = (r, s1)" by (rule prod.exhaust)
  note a1 = resolve_asked(1) [OF assms r]
  have rest: "asked ?snap 9 s s3"
    if app: "own_app ?snap app" and st: "modelctl_status J (logging run) app n0 s1 = (n1, s2)"
      and dt: "modelctl_data J (logging run) app n1 s2 = (failed, n2, s3)" for app n0 n1 s2 failed n2 s3
  proof -
    have a2: "asked ?snap 1 s1 s2"
      using surface_asked [OF assms(1) asked_own [OF a1] app reads_in(2)] st by (metis modelctl_status_def snd_conv)
    have "asked ?snap 3 s2 s3" using data_asked [OF assms(1) asked_own [OF a2] app] dt by (metis snd_conv)
    then have "asked ?snap 4 s1 s3" by (rule asked_trans [OF a2]) simp
    then show ?thesis by (rule asked_trans [OF a1]) simp
  qed
  show ?thesis
  proof (cases r)
    case (Inl errors)
    with r a1 show ?thesis by (auto simp: read_snapshot_def intro: asked_more)
  next
    case (Inr res)
    show ?thesis
    proof (cases res)
      case (MR_Verified app g)
      have app: "own_app ?snap app" using resolve_asked(2) [OF assms r] Inr MR_Verified by blast
      have done': "asked ?snap 9 s (invalidate_cached_app ?snap app g s3)" if "asked ?snap 9 s s3" for s3
        by (rule asked_trans [OF that cache_changes_own(1) [OF asked_own [OF that]]]) simp
      from r Inr MR_Verified show ?thesis
        by (auto simp: read_snapshot_def Let_def split: prod.split intro: rest [OF app] done')
    next
      case (MR_CachedProbeFailed app e)
      have app: "own_app ?snap app" using resolve_asked(3) [OF assms r] Inr MR_CachedProbeFailed by blast
      from r Inr MR_CachedProbeFailed show ?thesis
        by (auto simp: read_snapshot_def Let_def split: prod.split intro: rest [OF app])
    qed
  qed
qed

definition mute_runner :: "unit repo_runner" where
  "mute_runner req s = (Inl CE_Cancelled, s)"

definition no_json :: modelctl_json where
  "no_json = \<lparr>mj_status = \<lambda>_. Inl [], mj_models = \<lambda>_. Inl [], mj_engines = \<lambda>_. Inl [], mj_f64 = \<lambda>_. None\<rparr>"

definition remembered :: "(unit \<times> command_request list) repo" where
  "remembered = (\<lparr>mc_generation = 0, mc_apps = [lit ''myna-whisper'' \<mapsto> lit ''myna-whisper.modelctl'']\<rparr>, ((), []))"

definition whisper :: backend_identity where
  "whisper = backend_identity_new (lit ''myna-whisper'') (lit ''socket'')"

text \<open>The remembered command does not answer: it is asked for everything once, and forgotten.\<close>

lemma read_snapshot_budget_witness:
  "asked (bi_snap_name whisper) 9 remembered (snd (read_snapshot no_json (logging mute_runner) whisper remembered))
   \<and> length (snd (snd (snd (read_snapshot no_json (logging mute_runner) whisper remembered)))) = 5
   \<and> mc_apps (fst (snd (read_snapshot no_json (logging mute_runner) whisper remembered))) (bi_snap_name whisper) = None"
proof -
  have "keeps_own mute_runner" by (simp add: keeps_own_def mute_runner_def)
  moreover have "cache_own (fst remembered)"
    by (simp add: cache_own_def remembered_def own_app_def starts_with_def lit_def)
  ultimately have "asked (bi_snap_name whisper) 9 remembered (snd (read_snapshot no_json (logging mute_runner) whisper remembered))"
    by (rule read_snapshot_budget)
  then show ?thesis
    by (simp add: read_snapshot_def resolve_modelctl_def verified_modelctl_def command_def logging_def mute_runner_def remembered_def
        whisper_def backend_identity_new_def invalidate_cached_app_def modelctl_status_def modelctl_data_def read_surface_def
        is_unconfigured_def surface_error_def Let_def)
qed

end
