(* ===== verification/Performance.thy ===== *)
theory Performance
  imports Rust_Text "HOL-Library.List_Lexorder"
begin

text \<open>
  Whether the machine can deliver the CPU that inference needs, \<open>client/myna-config/src/performance.rs\<close>:
  the frequency classes read from \<open>/sys\<close>, the verdict on their probed clocks, and the pressure
  the kernel reports. A directory is the list of its entries with what reading each file under
  them gives; the probe that loads a core is a parameter. Clocks are 64-bit words and wrap.
\<close>

section \<open>Facts\<close>

record clock_class =
  cc_cpu :: u32
  cc_cores :: nat
  cc_hardware_max :: u64
  cc_policy_max :: u64
  cc_min :: u64
  cc_achieved :: "u64 option"

record power_facts =
  pw_platform_profile :: "ustr option"
  pw_on_mains :: "bool option"
  pw_battery_status :: "ustr option"

record clock_facts =
  cf_classes :: "clock_class list"
  cf_power :: power_facts

record pressure =
  ps_cpu_some :: u32
  ps_memory_some :: u32
  ps_io_full :: u32

record performance_facts =
  pf_clock :: clock_facts
  pf_pressure :: "pressure option"

section \<open>The verdict\<close>

datatype clock_verdict =
    VD_Unknown
  | VD_Healthy
  | VD_SoftwareCap u32 u64 u64
  | VD_LowPowerProfile u32 u64 u64
  | VD_FirmwareClamp u32 u64 u64

definition CLAMP_FRACTION_PERCENT :: u64 where "CLAMP_FRACTION_PERCENT = 50"
definition MEMORY_PRESSURE_WARN :: u32 where "MEMORY_PRESSURE_WARN = 1000"
definition IO_PRESSURE_WARN :: u32 where "IO_PRESSURE_WARN = 1000"
definition CPU_PRESSURE_WARN :: u32 where "CPU_PRESSURE_WARN = 8000"

definition clamp_threshold :: "clock_class \<Rightarrow> u64" where
  "clamp_threshold c = cc_hardware_max c * CLAMP_FRACTION_PERCENT div 100"

definition achieved :: "clock_class \<Rightarrow> u64" where
  "achieved c = the_default 0 (cc_achieved c)"

definition achieved_share :: "clock_class \<Rightarrow> u64" where
  "achieved_share c = achieved c * 100 div max 1 (cc_hardware_max c)"

text \<open>\<open>min_by_key\<close> keeps the first of the least.\<close>

fun min_by_key :: "('a \<Rightarrow> 'b::linorder) \<Rightarrow> 'a list \<Rightarrow> 'a option" where
  "min_by_key k [] = None"
| "min_by_key k (x # xs) = (case min_by_key k xs of None \<Rightarrow> Some x | Some y \<Rightarrow> if k y < k x then Some y else Some x)"

definition assess_clock :: "clock_facts \<Rightarrow> clock_verdict" where
  "assess_clock facts =
     (let probed = filter (\<lambda>c. cc_achieved c \<noteq> None) (cf_classes facts) in
      if probed = [] then VD_Unknown
      else case min_by_key achieved_share (filter (\<lambda>c. achieved c < clamp_threshold c) probed) of
        None \<Rightarrow> VD_Healthy
      | Some c \<Rightarrow>
          if cc_policy_max c < clamp_threshold c then VD_SoftwareCap (cc_cpu c) (cc_policy_max c) (cc_hardware_max c)
          else if pw_platform_profile (cf_power facts) = Some (lit ''low-power'')
          then VD_LowPowerProfile (cc_cpu c) (achieved c) (cc_hardware_max c)
          else VD_FirmwareClamp (cc_cpu c) (achieved c) (cc_hardware_max c))"

datatype pressure_warning = PW_Memory u32 | PW_Io u32 | PW_Cpu u32

definition assess_pressure :: "pressure \<Rightarrow> pressure_warning list" where
  "assess_pressure p =
     (if MEMORY_PRESSURE_WARN \<le> ps_memory_some p then [PW_Memory (ps_memory_some p)] else [])
     @ (if IO_PRESSURE_WARN \<le> ps_io_full p then [PW_Io (ps_io_full p)] else [])
     @ (if CPU_PRESSURE_WARN \<le> ps_cpu_some p then [PW_Cpu (ps_cpu_some p)] else [])"

section \<open>Reading\<close>

text \<open>A directory entry: its name, and what reading the files below it gives.\<close>

type_synonym dir_entry = "ustr \<times> (ustr \<Rightarrow> ustr option)"

definition read_khz :: "(ustr \<Rightarrow> ustr option) \<Rightarrow> ustr \<Rightarrow> u64 option" where
  "read_khz files name =
     map_option of_nat (Option.bind (files (lit ''cpufreq/'' @ name)) (\<lambda>text. parse_unsigned (2 ^ 64) (trim text)))"

definition read_core :: "dir_entry \<Rightarrow> (u32 \<times> u64 \<times> u64 \<times> u64) option" where
  "read_core e =
     (case Option.bind (strip_prefix (lit ''cpu'') (fst e)) (parse_unsigned (2 ^ 32)) of
        None \<Rightarrow> None
      | Some cpu \<Rightarrow>
          (case (read_khz (snd e) (lit ''cpuinfo_max_freq''), read_khz (snd e) (lit ''scaling_max_freq''), read_khz (snd e) (lit ''scaling_min_freq'')) of
             (Some hw, Some policy, Some mn) \<Rightarrow> Some (of_nat cpu, hw, policy, mn)
           | _ \<Rightarrow> None))"

definition core_key :: "u32 \<times> u64 \<times> u64 \<times> u64 \<Rightarrow> nat list" where
  "core_key c = (case c of (cpu, hw, policy, mn) \<Rightarrow> [unat cpu, unat hw, unat policy, unat mn])"

fun add_core :: "u32 \<times> u64 \<times> u64 \<times> u64 \<Rightarrow> clock_class list \<Rightarrow> clock_class list" where
  "add_core (cpu, hw, policy, mn) [] =
     [\<lparr>cc_cpu = cpu, cc_cores = 1, cc_hardware_max = hw, cc_policy_max = policy, cc_min = mn, cc_achieved = None\<rparr>]"
| "add_core (cpu, hw, policy, mn) (c # cs) =
     (if cc_hardware_max c = hw then c\<lparr>cc_cores := cc_cores c + 1\<rparr> # cs else c # add_core (cpu, hw, policy, mn) cs)"

definition clock_classes :: "dir_entry list \<Rightarrow> clock_class list" where
  "clock_classes entries =
     sort_key (\<lambda>c. - int (unat (cc_hardware_max c)))
       (fold add_core (sort_key core_key (filter_map read_core entries)) [])"

definition trimmed :: "(ustr \<Rightarrow> ustr option) \<Rightarrow> ustr \<Rightarrow> ustr option" where
  "trimmed files name = (case files name of Some text \<Rightarrow> if trim text \<noteq> [] then Some (trim text) else None | None \<Rightarrow> None)"

fun read_supplies :: "dir_entry list \<Rightarrow> bool option \<Rightarrow> ustr option \<Rightarrow> bool option \<times> ustr option" where
  "read_supplies [] on_mains battery = (on_mains, battery)"
| "read_supplies (supply # rest) on_mains battery =
     (let kind = trimmed (snd supply) (lit ''type'') in
      if kind = Some (lit ''Mains'')
      then read_supplies rest (Some (the_default False on_mains \<or> trimmed (snd supply) (lit ''online'') = Some (lit ''1''))) battery
      else if kind = Some (lit ''Battery'') \<and> battery = None
      then read_supplies rest on_mains (trimmed (snd supply) (lit ''status''))
      else read_supplies rest on_mains battery)"

definition read_power :: "(ustr \<Rightarrow> ustr option) \<Rightarrow> dir_entry list \<Rightarrow> power_facts" where
  "read_power sys supplies =
     (let (on_mains, battery) = read_supplies (sort_key fst supplies) None None
      in \<lparr>pw_platform_profile = trimmed sys (lit ''firmware/acpi/platform_profile''), pw_on_mains = on_mains, pw_battery_status = battery\<rparr>)"

definition read_clock_facts :: "dir_entry list \<Rightarrow> (ustr \<Rightarrow> ustr option) \<Rightarrow> dir_entry list \<Rightarrow> (u32 \<Rightarrow> u64 option) \<Rightarrow> clock_facts" where
  "read_clock_facts cpus sys supplies probe =
     \<lparr>cf_classes = map (\<lambda>c. c\<lparr>cc_achieved := probe (cc_cpu c)\<rparr>) (clock_classes cpus), cf_power = read_power sys supplies\<rparr>"

definition words_of :: "ustr \<Rightarrow> ustr list" where
  "words_of s = filter (\<lambda>w. w \<noteq> []) (split_p is_whitespace s)"

fun find_map :: "('a \<Rightarrow> 'b option) \<Rightarrow> 'a list \<Rightarrow> 'b option" where
  "find_map f [] = None"
| "find_map f (x # xs) = (case f x of None \<Rightarrow> find_map f xs | Some y \<Rightarrow> Some y)"

definition avg10 :: "ustr \<Rightarrow> ustr \<Rightarrow> u32 option" where
  "avg10 content line =
     (case find (starts_with line) (rust_lines content) of
        None \<Rightarrow> None
      | Some l \<Rightarrow>
          (case find_map (strip_prefix (lit ''avg10='')) (words_of l) of
             None \<Rightarrow> None
           | Some v \<Rightarrow>
               (let (whole, fraction) = the_default (v, lit ''0'') (split_once 46 v);
                    padded = fraction @ replicate (2 - length fraction) 48
                in case (parse_unsigned (2 ^ 32) whole, parse_unsigned (2 ^ 32) (take 2 padded)) of
                     (Some w, Some f) \<Rightarrow> Some (of_nat w * 100 + of_nat f)
                   | _ \<Rightarrow> None)))"

definition read_pressure :: "(ustr \<Rightarrow> ustr option) \<Rightarrow> pressure option" where
  "read_pressure dir =
     (case (Option.bind (dir (lit ''cpu'')) (\<lambda>t. avg10 t (lit ''some'')),
            Option.bind (dir (lit ''memory'')) (\<lambda>t. avg10 t (lit ''some'')),
            Option.bind (dir (lit ''io'')) (\<lambda>t. avg10 t (lit ''full''))) of
        (Some c, Some m, Some i) \<Rightarrow> Some \<lparr>ps_cpu_some = c, ps_memory_some = m, ps_io_full = i\<rparr>
      | _ \<Rightarrow> None)"

section \<open>The verdict is the worst class's\<close>

lemma min_by_key_None [simp]: "min_by_key k xs = None \<longleftrightarrow> xs = []"
  by (cases xs) (auto split: option.splits)

lemma min_by_key_least: "min_by_key k xs = Some x \<Longrightarrow> x \<in> set xs \<and> (\<forall>y \<in> set xs. k x \<le> k y)"
proof (induction xs arbitrary: x)
  case (Cons z zs)
  show ?case
  proof (cases "min_by_key k zs")
    case None
    with Cons.prems show ?thesis by simp
  next
    case (Some y)
    from Cons.IH [OF Some] Cons.prems Some show ?thesis by (auto split: if_splits)
  qed
qed simp

definition short_of_clock :: "clock_class \<Rightarrow> bool" where
  "short_of_clock c \<longleftrightarrow> cc_achieved c \<noteq> None \<and> achieved c < clamp_threshold c"

definition blames :: "clock_facts \<Rightarrow> clock_class \<Rightarrow> clock_verdict" where
  "blames facts c =
     (if cc_policy_max c < clamp_threshold c then VD_SoftwareCap (cc_cpu c) (cc_policy_max c) (cc_hardware_max c)
      else if pw_platform_profile (cf_power facts) = Some (lit ''low-power'')
      then VD_LowPowerProfile (cc_cpu c) (achieved c) (cc_hardware_max c)
      else VD_FirmwareClamp (cc_cpu c) (achieved c) (cc_hardware_max c))"

lemma filter_both: "filter (\<lambda>c. achieved c < clamp_threshold c) (filter (\<lambda>c. cc_achieved c \<noteq> None) cs) = filter short_of_clock cs"
  by (induction cs) (simp_all add: short_of_clock_def)

lemma assess_clock_verdict:
  "if filter (\<lambda>c. cc_achieved c \<noteq> None) (cf_classes facts) = [] then assess_clock facts = VD_Unknown
   else if filter short_of_clock (cf_classes facts) = [] then assess_clock facts = VD_Healthy
   else \<exists>c \<in> set (filter short_of_clock (cf_classes facts)).
          assess_clock facts = blames facts c
          \<and> (\<forall>d \<in> set (filter short_of_clock (cf_classes facts)). achieved_share c \<le> achieved_share d)"
proof -
  have eq: "filter (\<lambda>c. achieved c < clamp_threshold c) (filter (\<lambda>c. cc_achieved c \<noteq> None) (cf_classes facts))
      = filter short_of_clock (cf_classes facts)" (is "?a = ?short")
    by (rule filter_both)
  show ?thesis
  proof (cases "min_by_key achieved_share ?short")
    case None
    then have "?short = []" by simp
    with None show ?thesis unfolding assess_clock_def Let_def eq by simp
  next
    case (Some c)
    then have ne: "?short \<noteq> []" by auto
    then have "filter (\<lambda>c. cc_achieved c \<noteq> None) (cf_classes facts) \<noteq> []"
      by (auto simp: filter_empty_conv short_of_clock_def)
    moreover from this Some have "assess_clock facts = blames facts c"
      unfolding assess_clock_def Let_def eq blames_def by simp
    ultimately show ?thesis using ne min_by_key_least [OF Some] by metis
  qed
qed

end
