(* ===== verification/Diagnostics.thy ===== *)
theory Diagnostics
  imports Onboarding Command Performance "HOL-Library.Sublist"
begin

text \<open>
  The diagnostics report, \<open>client/myna-config/src/diagnostics.rs\<close>, with the facts of \<open>machine.rs\<close> it
  prints and the problems \<open>backend_ui.rs\<close> words for it. The report is pasted into public bug
  reports: what comes from outside passes the redaction, whose effect is characterised here.
  \<open>gettext\<close>, Unicode's classes, the user's home, the build's version and the printing of
  floating-point sizes are one record of parameters.
\<close>

section \<open>Parameters\<close>

record report_env =
  re_tr :: "ustr \<Rightarrow> ustr"
  re_alphanumeric :: "uchar \<Rightarrow> bool"
  re_lowercase :: "ustr \<Rightarrow> ustr"
  re_ghz :: "u64 \<Rightarrow> ustr"
  re_bytes :: "u64 \<Rightarrow> ustr"
  re_home :: ustr
  re_version :: ustr

section \<open>Redaction\<close>

definition PLACEHOLDER_REDACTED :: ustr where "PLACEHOLDER_REDACTED = lit ''[redacted]''"

definition SENSITIVE_KEY_SUBSTRINGS :: "ustr list" where
  "SENSITIVE_KEY_SUBSTRINGS = [lit ''token'', lit ''secret'', lit ''password'', lit ''passwd'', lit ''auth'', lit ''credential'',
     lit ''cookie'', lit ''api-key'', lit ''apikey'']"

definition secret_key :: "ustr \<Rightarrow> bool" where
  "secret_key key \<longleftrightarrow>
     list_ex (\<lambda>needle. split_once_str needle (to_ascii_lowercase (dropWhile (\<lambda>c. c = 45) key)) \<noteq> None) SENSITIVE_KEY_SUBSTRINGS"

text \<open>\<open>split_inclusive\<close>: every piece keeps the separator that ends it.\<close>

fun split_inclusive :: "('a \<Rightarrow> bool) \<Rightarrow> 'a list \<Rightarrow> 'a list list" where
  "split_inclusive P [] = []"
| "split_inclusive P (c # cs) =
     (if P c then [c] # split_inclusive P cs
      else case split_inclusive P cs of [] \<Rightarrow> [[c]] | w # ws \<Rightarrow> (c # w) # ws)"

definition split_trailing_whitespace :: "ustr \<Rightarrow> ustr \<times> ustr" where
  "split_trailing_whitespace token = (trim_end token, drop (length (trim_end token)) token)"

definition scrub_token :: "ustr \<Rightarrow> ustr" where
  "scrub_token token =
     (let (word, trailing) = split_trailing_whitespace token in
      case split_once 61 word of
        Some (key, _) \<Rightarrow> if secret_key key then key @ [61] @ PLACEHOLDER_REDACTED @ trailing else token
      | None \<Rightarrow> token)"

definition scrub_secret_assignments :: "ustr \<Rightarrow> ustr" where
  "scrub_secret_assignments value = concat (map scrub_token (split_inclusive is_whitespace value))"

definition is_path_char :: "(uchar \<Rightarrow> bool) \<Rightarrow> uchar \<Rightarrow> bool" where
  "is_path_char alnum c \<longleftrightarrow> alnum c \<or> c = 95 \<or> c = 45 \<or> c = 46"

text \<open>The loop over the occurrences of the home; \<open>before\<close> is the character that precedes the rest.\<close>

function scrub_loop :: "(uchar \<Rightarrow> bool) \<Rightarrow> ustr \<Rightarrow> uchar option \<Rightarrow> ustr \<Rightarrow> ustr" where
  "scrub_loop alnum home before s =
     (if home = [] then s
      else case split_once_str home s of
        None \<Rightarrow> s
      | Some (a, b) \<Rightarrow>
          (let prev = (if a = [] then before else Some (last a));
               inside = (case prev of Some c \<Rightarrow> is_path_char alnum c \<or> c = 47 | None \<Rightarrow> False);
               longer = (case b of c # _ \<Rightarrow> is_path_char alnum c | [] \<Rightarrow> False)
           in a @ (if inside \<or> longer then home else [126]) @ scrub_loop alnum home (Some (last home)) b))"
  by pat_completeness auto
termination
  by (relation "measure (\<lambda>(_, _, _, s). length s)") (auto dest!: split_once_str_Some)

declare scrub_loop.simps [simp del]

definition scrub_home :: "(uchar \<Rightarrow> bool) \<Rightarrow> ustr \<Rightarrow> ustr \<Rightarrow> ustr" where
  "scrub_home alnum value home =
     (let home = rev (dropWhile (\<lambda>c. c = 47) (rev home)) in
      if home = [] then value else scrub_loop alnum home None value)"

definition redact_text :: "report_env \<Rightarrow> ustr \<Rightarrow> ustr" where
  "redact_text E value = scrub_home (re_alphanumeric E) (scrub_secret_assignments value) (re_home E)"

section \<open>The issue\<close>

definition is_unreserved :: "byte \<Rightarrow> bool" where
  "is_unreserved b \<longleftrightarrow> 65 \<le> b \<and> b \<le> 90 \<or> 97 \<le> b \<and> b \<le> 122 \<or> 48 \<le> b \<and> b \<le> 57 \<or> b = 45 \<or> b = 46 \<or> b = 95 \<or> b = 126"

definition hex_upper :: "nat \<Rightarrow> uchar" where
  "hex_upper n = (if n < 10 then 48 + n else 55 + n)"

definition form_byte :: "byte \<Rightarrow> ustr" where
  "form_byte b =
     (if is_unreserved b then [unat b]
      else if b = 32 then [43]
      else [37, hex_upper (unat b div 16), hex_upper (unat b mod 16)])"

definition form_encode :: "ustr \<Rightarrow> ustr" where
  "form_encode value = concat (map form_byte (utf8_bytes value))"

definition ISSUE_FORM :: ustr where "ISSUE_FORM = lit ''https://github.com/canonical/myna/issues/new?template=report.yml''"
definition ISSUE_URL_BUDGET :: nat where "ISSUE_URL_BUDGET = 7500"

definition prefilled_issue :: "ustr \<Rightarrow> ustr" where
  "prefilled_issue t = ISSUE_FORM @ lit ''&diagnostics='' @ form_encode t"

definition issue_url :: "ustr \<Rightarrow> ustr option" where
  "issue_url report = (let url = prefilled_issue report in if length (utf8_bytes url) \<le> ISSUE_URL_BUDGET then Some url else None)"

definition issue_paste_url :: "report_env \<Rightarrow> ustr" where
  "issue_paste_url E = prefilled_issue (re_tr E (lit ''Paste the diagnostics report from your clipboard here.''))"

section \<open>Facts\<close>

record installed_snap =
  is_name :: ustr
  is_version :: ustr

record machine_facts =
  mf_cpu :: ustr
  mf_memory :: ustr
  mf_gpus :: "ustr list"

record system_facts =
  sf_os :: ustr
  sf_kernel :: ustr
  sf_desktop :: ustr
  sf_shell :: "ustr option"
  sf_languages :: "ustr list"

record process_memory =
  pm_pid :: nat
  pm_resident :: u64
  pm_peak :: u64

record input_levels =
  il_offset_db :: int
  il_floor_db :: int
  il_speech_db :: "int option"
  il_snr_db :: "int option"

datatype input_report = IR_NotYet | IR_Levels input_levels

record last_error =
  le_headline :: ustr
  le_detail :: ustr
  le_at :: ustr

record daemon_report =
  dr_drops :: "u64 option"
  dr_input :: "input_report option"
  dr_last_error :: "last_error option"

datatype extension_copy = XC_MynaConfigPackage | XC_UbuntuPackage | XC_DevelopmentOverride | XC_UserCopy | XC_OtherSystemCopy

datatype extension_report =
    XR_NoShell
  | XR_NotInstalled
  | XR_SinceLogin bool
  | XR_Known ustr extension_copy "ustr option"

datatype purpose = PU_StatusSurface | PU_TextInput

datatype diagnostic_connection = DC_Connected | DC_MultipleConnections | DC_NotConnected

record backend_diagnostic =
  bd_snap_name :: ustr
  bd_version :: ustr
  bd_connection :: diagnostic_connection
  bd_engine :: "ustr option"
  bd_model :: "ustr option"
  bd_services :: "ustr list"
  bd_memory :: "process_memory option"
  bd_problems :: "ustr list"

record diagnostic_input =
  di_inventory_complete :: bool
  di_installed_snaps :: "installed_snap list"
  di_system :: "system_facts option"
  di_machine :: "machine_facts option"
  di_daemon :: "process_memory option"
  di_daemon_report :: "daemon_report option"
  di_extension :: "extension_report option"
  di_desktop :: "(purpose \<times> component_status) list"
  di_performance :: "performance_facts option"
  di_backends :: "backend_diagnostic list"
  di_problems :: "ustr list"

datatype onboarding_state = ON_NoMyna | ON_NoBackend | ON_NoModelConnected | ON_NoInputMethod | ON_Ready | ON_Unavailable

record report_warning =
  wn_cause :: ustr
  wn_remedy :: ustr

section \<open>The state and its warnings\<close>

definition input_method_held :: "diagnostic_input \<Rightarrow> component_status option" where
  "input_method_held i = map_option snd (find (\<lambda>(p, st). p = PU_TextInput \<and> input_method_holds st) (di_desktop i))"

definition classify_onboarding :: "diagnostic_input \<Rightarrow> onboarding_state" where
  "classify_onboarding i =
     (if \<not> di_inventory_complete i \<or> di_problems i \<noteq> [] then ON_Unavailable
      else if \<not> list_ex (\<lambda>s. is_name s = lit ''myna'') (di_installed_snaps i) then ON_NoMyna
      else if di_backends i = [] then ON_NoBackend
      else if list_all (\<lambda>b. bd_connection b = DC_NotConnected) (di_backends i) then ON_NoModelConnected
      else if input_method_held i \<noteq> None then ON_NoInputMethod
      else ON_Ready)"

definition OFFSET_WARNING_DB :: int where "OFFSET_WARNING_DB = -40"
definition SNR_WARNING_DB :: int where "SNR_WARNING_DB = 10"

definition input_warnings :: "(ustr \<Rightarrow> ustr) \<Rightarrow> input_levels \<Rightarrow> report_warning list" where
  "input_warnings tr levels =
     (if OFFSET_WARNING_DB \<le> il_offset_db levels
      then [\<lparr>wn_cause = tr (lit ''The microphone has a large DC offset'') @ lit '' ('' @ show_int (il_offset_db levels) @ lit '' dBFS)'',
             wn_remedy = tr (lit ''It costs headroom and points to an audio driver fault. Try another input in the system sound settings.'')\<rparr>]
      else [])
     @ (case il_snr_db levels of
          Some snr \<Rightarrow> if snr < SNR_WARNING_DB
            then [\<lparr>wn_cause = tr (lit ''Background noise was high in the last dictation'') @ lit '' (SNR '' @ show_int snr @ lit '' dB)'',
                   wn_remedy = tr (lit ''Noise this close to the voice costs words. Move away from it or use a headset microphone.'')\<rparr>]
            else []
        | None \<Rightarrow> [])"

definition sp :: "ustr list \<Rightarrow> ustr" where
  "sp = join [32]"

definition reached :: "report_env \<Rightarrow> u32 \<Rightarrow> u64 \<Rightarrow> u64 \<Rightarrow> ustr" where
  "reached E cpu got hw =
     sp [lit ''cpu'' @ dec_digits (unat cpu), re_tr E (lit ''reached''), re_ghz E got, re_tr E (lit ''of''), re_ghz E hw]"

definition percent :: "u32 \<Rightarrow> ustr" where
  "percent h = (let n = unat h in dec_digits (n div 100) @ [46] @ dec_digits (n mod 100 div 10) @ dec_digits (n mod 10) @ [37])"

definition stalled :: "report_env \<Rightarrow> u32 \<Rightarrow> ustr" where
  "stalled E h = percent h @ [32] @ re_tr E (lit ''of the last 10 s stalled'')"

fun clock_warnings :: "report_env \<Rightarrow> clock_verdict \<Rightarrow> report_warning list" where
  "clock_warnings E VD_Unknown = []"
| "clock_warnings E VD_Healthy = []"
| "clock_warnings E (VD_SoftwareCap cpu policy hw) =
     [\<lparr>wn_cause = re_tr E (lit ''The CPU clock is capped by system policy'') @ lit '' (''
         @ sp [lit ''cpu'' @ dec_digits (unat cpu), re_tr E (lit ''limited to''), re_ghz E policy, re_tr E (lit ''of''), re_ghz E hw] @ lit '')'',
       wn_remedy = re_tr E (lit ''Dictation will be slow. A power tool has capped the CPU clock.'')\<rparr>]"
| "clock_warnings E (VD_LowPowerProfile cpu got hw) =
     [\<lparr>wn_cause = re_tr E (lit ''The power profile is set to low-power'') @ lit '' ('' @ reached E cpu got hw @ lit '')'',
       wn_remedy = re_tr E (lit ''Dictation will be slow. Switch to Balanced or Performance in the system power settings.'')\<rparr>]"
| "clock_warnings E (VD_FirmwareClamp cpu got hw) =
     [\<lparr>wn_cause = re_tr E (lit ''Firmware is holding the CPU at its lowest clock'') @ lit '' ('' @ reached E cpu got hw @ lit '')'',
       wn_remedy = re_tr E (lit ''Dictation will be slow. Unplug the charger, wait a few seconds, and plug it back in. If that does not help, power off fully and start again.'')\<rparr>]"

fun pressure_warning_text :: "report_env \<Rightarrow> pressure_warning \<Rightarrow> report_warning" where
  "pressure_warning_text E (PW_Memory stall) =
     \<lparr>wn_cause = re_tr E (lit ''The system is short of memory'') @ lit '' ('' @ stalled E stall @ lit '')'',
      wn_remedy = re_tr E (lit ''Dictation will stutter. Close applications until the machine stops swapping.'')\<rparr>"
| "pressure_warning_text E (PW_Io stall) =
     \<lparr>wn_cause = re_tr E (lit ''Disk activity is stalling the system'') @ lit '' ('' @ stalled E stall @ lit '')'',
      wn_remedy = re_tr E (lit ''Dictation will stutter. Wait for the transfer or indexing to finish.'')\<rparr>"
| "pressure_warning_text E (PW_Cpu stall) =
     \<lparr>wn_cause = re_tr E (lit ''Other programs are saturating the CPU'') @ lit '' ('' @ stalled E stall @ lit '')'',
      wn_remedy = re_tr E (lit ''Dictation will be slow. Pause the build or workload before dictating.'')\<rparr>"

definition performance_warnings :: "report_env \<Rightarrow> performance_facts \<Rightarrow> report_warning list" where
  "performance_warnings E facts =
     clock_warnings E (assess_clock (pf_clock facts))
     @ map (pressure_warning_text E) (case pf_pressure facts of Some p \<Rightarrow> assess_pressure p | None \<Rightarrow> [])"

definition report_warnings :: "report_env \<Rightarrow> diagnostic_input \<Rightarrow> report_warning list" where
  "report_warnings E i =
     (case di_performance i of Some facts \<Rightarrow> performance_warnings E facts | None \<Rightarrow> [])
     @ (case Option.bind (di_daemon_report i) dr_input of Some (IR_Levels levels) \<Rightarrow> input_warnings (re_tr E) levels | _ \<Rightarrow> [])"

section \<open>The report's lines\<close>

text \<open>A label and its value are separated by a control character until they are aligned.\<close>

definition FIELD_SEPARATOR :: uchar where "FIELD_SEPARATOR = 31"

definition field :: "ustr \<Rightarrow> ustr \<Rightarrow> ustr" where
  "field label value = lit ''    '' @ label @ [FIELD_SEPARATOR] @ value @ [10]"

definition header :: "ustr \<Rightarrow> ustr" where
  "header title = [10] @ title @ lit '':'' @ [10]"

definition indented :: "ustr \<Rightarrow> ustr" where
  "indented line = lit ''  '' @ line @ [10]"

fun onboarding_state_label :: "(ustr \<Rightarrow> ustr) \<Rightarrow> onboarding_state \<Rightarrow> ustr" where
  "onboarding_state_label tr ON_NoMyna = tr (lit ''Dictation is not installed'')"
| "onboarding_state_label tr ON_NoBackend = tr (lit ''No model installed'')"
| "onboarding_state_label tr ON_NoModelConnected = tr (lit ''No model connected'')"
| "onboarding_state_label tr ON_NoInputMethod = tr (lit ''No input method set up'')"
| "onboarding_state_label tr ON_Ready = tr (lit ''Ready'')"
| "onboarding_state_label tr ON_Unavailable = tr (lit ''Installation status unavailable'')"

fun diagnostic_connection_label :: "(ustr \<Rightarrow> ustr) \<Rightarrow> diagnostic_connection \<Rightarrow> ustr" where
  "diagnostic_connection_label tr DC_Connected = tr (lit ''Connected'')"
| "diagnostic_connection_label tr DC_MultipleConnections = tr (lit ''Multiple connections'')"
| "diagnostic_connection_label tr DC_NotConnected = tr (lit ''Not connected'')"

definition memory_summary :: "report_env \<Rightarrow> process_memory \<Rightarrow> ustr" where
  "memory_summary E m =
     re_bytes E (pm_resident m) @ lit '' now, '' @ re_bytes E (pm_peak m) @ lit '' peak (pid '' @ dec_digits (pm_pid m) @ lit '')''"

definition clock_summary :: "report_env \<Rightarrow> clock_class \<Rightarrow> ustr" where
  "clock_summary E c =
     sp [lit ''cpu'' @ dec_digits (unat (cc_cpu c)), re_tr E (lit ''reached''),
         (case cc_achieved c of Some khz \<Rightarrow> re_ghz E khz | None \<Rightarrow> re_tr E (lit ''not probed'')), re_tr E (lit ''of''), re_ghz E (cc_hardware_max c)]
     @ (if cc_policy_max c < cc_hardware_max c
        then lit '' ('' @ re_tr E (lit ''policy allows'') @ [32] @ re_ghz E (cc_policy_max c) @ lit '', scaling_max_freq)'' else [])
     @ lit '', '' @ dec_digits (cc_cores c) @ [32] @ re_tr E (lit ''cores in this class'')"

definition power_summary :: "report_env \<Rightarrow> power_facts \<Rightarrow> ustr option" where
  "power_summary E p =
     map_option (\<lambda>on_mains.
         let mains = re_tr E (if on_mains then lit ''mains'' else lit ''battery'') in
         case pw_battery_status p of
           Some st \<Rightarrow> mains @ lit '', '' @ re_tr E (lit ''battery'') @ [32] @ re_lowercase E st
         | None \<Rightarrow> mains) (pw_on_mains p)"

definition drops_summary :: "(ustr \<Rightarrow> ustr) \<Rightarrow> u64 \<Rightarrow> ustr" where
  "drops_summary tr not_active = dec_digits (unat not_active) @ [32] @ tr (lit ''chunks dropped this session'')"

definition input_summary :: "(ustr \<Rightarrow> ustr) \<Rightarrow> input_report \<Rightarrow> ustr" where
  "input_summary tr r =
     (case r of
        IR_NotYet \<Rightarrow> tr (lit ''no dictation yet'')
      | IR_Levels l \<Rightarrow>
          tr (lit ''offset'') @ [32] @ show_int (il_offset_db l) @ lit '' dBFS, '' @ tr (lit ''floor'') @ [32] @ show_int (il_floor_db l)
          @ lit '' dBFS, ''
          @ (case il_speech_db l of Some db \<Rightarrow> tr (lit ''speech'') @ [32] @ show_int db @ lit '' dBFS'' | None \<Rightarrow> tr (lit ''no speech heard''))
          @ (case il_snr_db l of Some db \<Rightarrow> lit '', SNR '' @ show_int db @ lit '' dB'' | None \<Rightarrow> []))"

definition last_error_summary :: "report_env \<Rightarrow> last_error option \<Rightarrow> ustr" where
  "last_error_summary E le =
     (case le of
        None \<Rightarrow> re_tr E (lit ''none'')
      | Some e \<Rightarrow> le_headline e
          @ (if le_detail e \<noteq> [] then lit '' ('' @ redact_text E (le_detail e) @ lit '')'' else [])
          @ (if le_at e \<noteq> [] then lit '', '' @ le_at e else []))"

fun extension_copy_label :: "(ustr \<Rightarrow> ustr) \<Rightarrow> extension_copy \<Rightarrow> ustr" where
  "extension_copy_label tr XC_MynaConfigPackage = tr (lit ''myna-config package'')"
| "extension_copy_label tr XC_UbuntuPackage = tr (lit ''Ubuntu package'')"
| "extension_copy_label tr XC_DevelopmentOverride = tr (lit ''development override'')"
| "extension_copy_label tr XC_UserCopy = tr (lit ''user copy'')"
| "extension_copy_label tr XC_OtherSystemCopy = tr (lit ''other system copy'')"

fun extension_summary :: "report_env \<Rightarrow> extension_report \<Rightarrow> ustr" where
  "extension_summary E XR_NoShell = re_tr E (lit ''gnome-shell did not answer'')"
| "extension_summary E XR_NotInstalled = re_tr E (lit ''not installed'')"
| "extension_summary E (XR_SinceLogin at_next_login) =
     (if at_next_login then re_tr E (lit ''installed since login, starts at the next one'')
      else re_tr E (lit ''installed since login, not enabled''))"
| "extension_summary E (XR_Known st cp err) =
     st @ lit '', '' @ extension_copy_label (re_tr E) cp
     @ (case err of Some e \<Rightarrow> lit '' ('' @ redact_text E e @ lit '')'' | None \<Rightarrow> [])"

fun component_label :: "(ustr \<Rightarrow> ustr) \<Rightarrow> purpose \<Rightarrow> ustr" where
  "component_label tr PU_TextInput = tr (lit ''Input method'')"
| "component_label tr PU_StatusSurface = tr (lit ''Indicator host'')"

fun component_summary :: "(ustr \<Rightarrow> ustr) \<Rightarrow> purpose \<Rightarrow> component_status \<Rightarrow> ustr" where
  "component_summary tr p CS_Active = tr (lit ''active'')"
| "component_summary tr p CS_ActiveAfterRelogin = tr (lit ''set up, starts at the next login'')"
| "component_summary tr p CS_Inactive = tr (lit ''not running'')"
| "component_summary tr p CS_NeedsRelogin = tr (lit ''not set up'')"
| "component_summary tr p (CS_Blocked BL_TurnedOff) = tr (lit ''turned off'')"
| "component_summary tr p (CS_Blocked BL_Locked) = tr (lit ''locked by the administrator'')"
| "component_summary tr p (CS_Blocked BL_Shadowed) = tr (lit ''hidden by another copy'')"
| "component_summary tr p (CS_Blocked BL_Incompatible) =
     (if p = PU_TextInput then tr (lit ''another input method is in use'') else tr (lit ''not supported on this desktop''))"
| "component_summary tr p CS_Failed = tr (lit ''failed'')"
| "component_summary tr p CS_Unavailable = tr (lit ''not installed'')"

subsection \<open>The sections\<close>

definition render_system :: "report_env \<Rightarrow> system_facts option \<Rightarrow> ustr" where
  "render_system E sys =
     (case sys of
        None \<Rightarrow> []
      | Some f \<Rightarrow>
          header (re_tr E (lit ''System''))
          @ field (re_tr E (lit ''OS'')) (sf_os f @ lit '', '' @ re_tr E (lit ''kernel'') @ [32] @ sf_kernel f)
          @ field (re_tr E (lit ''Desktop'')) (case sf_shell f of Some v \<Rightarrow> sf_desktop f @ lit '', GNOME Shell '' @ v | None \<Rightarrow> sf_desktop f)
          @ (if sf_languages f \<noteq> [] then field (re_tr E (lit ''Languages'')) (join (lit '', '') (sf_languages f)) else []))"

definition render_machine :: "report_env \<Rightarrow> machine_facts option \<Rightarrow> ustr" where
  "render_machine E m =
     header (re_tr E (lit ''Machine''))
     @ (case m of
          Some f \<Rightarrow>
            field (re_tr E (lit ''CPU'')) (mf_cpu f) @ field (re_tr E (lit ''Memory'')) (mf_memory f)
            @ (if mf_gpus f = [] then field (re_tr E (lit ''GPU'')) (re_tr E (lit ''none'')) else [])
            @ concat (map (field (re_tr E (lit ''GPU''))) (mf_gpus f))
        | None \<Rightarrow> field (re_tr E (lit ''CPU'')) (re_tr E (lit ''(no model answered show-machine)'')))"

definition pressure_text :: "report_env \<Rightarrow> pressure \<Rightarrow> ustr" where
  "pressure_text E p =
     (let put = (\<lambda>key value t. join value (split_str key t)) in
      put (lit ''{io}'') (percent (ps_io_full p))
        (put (lit ''{memory}'') (percent (ps_memory_some p))
          (put (lit ''{cpu}'') (percent (ps_cpu_some p))
            (re_tr E (lit ''cpu {cpu}, memory {memory}, io {io} of the last 10 s stalled'')))))"

definition render_performance :: "report_env \<Rightarrow> performance_facts option \<Rightarrow> ustr" where
  "render_performance E pf =
     header (re_tr E (lit ''Performance''))
     @ (case pf of
          Some f \<Rightarrow>
            (if cf_classes (pf_clock f) = [] then field (re_tr E (lit ''Clock'')) (re_tr E (lit ''(no cpufreq information)'')) else [])
            @ concat (map (\<lambda>c. field (re_tr E (lit ''Clock'')) (clock_summary E c)) (cf_classes (pf_clock f)))
            @ (case pw_platform_profile (cf_power (pf_clock f)) of Some p \<Rightarrow> field (re_tr E (lit ''Profile'')) p | None \<Rightarrow> [])
            @ (case power_summary E (cf_power (pf_clock f)) of Some p \<Rightarrow> field (re_tr E (lit ''Power'')) p | None \<Rightarrow> [])
            @ (case pf_pressure f of Some p \<Rightarrow> field (re_tr E (lit ''Pressure'')) (pressure_text E p) | None \<Rightarrow> [])
        | None \<Rightarrow> field (re_tr E (lit ''Clock'')) (re_tr E (lit ''(not measured yet)'')))"

definition empty_report :: daemon_report where
  "empty_report = \<lparr>dr_drops = None, dr_input = None, dr_last_error = None\<rparr>"

definition render_daemon :: "report_env \<Rightarrow> diagnostic_input \<Rightarrow> ustr" where
  "render_daemon E i =
     header (re_tr E (lit ''Daemon''))
     @ (case (find (\<lambda>s. is_name s = lit ''myna'') (di_installed_snaps i), di_daemon i) of
          (Some snap, Some memory) \<Rightarrow>
            (let r = the_default empty_report (di_daemon_report i) in
             field (re_tr E (lit ''Version'')) (is_version snap)
             @ field (re_tr E (lit ''Memory'')) (memory_summary E memory)
             @ (case dr_drops r of Some d \<Rightarrow> field (re_tr E (lit ''Audio'')) (drops_summary (re_tr E) d) | None \<Rightarrow> [])
             @ (case dr_input r of Some n \<Rightarrow> field (re_tr E (lit ''Input'')) (input_summary (re_tr E) n) | None \<Rightarrow> [])
             @ field (re_tr E (lit ''Last error'')) (last_error_summary E (dr_last_error r)))
        | (Some snap, None) \<Rightarrow>
            field (re_tr E (lit ''Version'')) (is_version snap) @ field (re_tr E (lit ''Process'')) (re_tr E (lit ''not running''))
        | (None, _) \<Rightarrow> field (re_tr E (lit ''Version'')) (re_tr E (lit ''not installed'')))
     @ (case di_extension i of Some x \<Rightarrow> field (re_tr E (lit ''Shell extension'')) (extension_summary E x) | None \<Rightarrow> [])
     @ concat (map (\<lambda>(p, st). field (component_label (re_tr E) p) (component_summary (re_tr E) p st)) (di_desktop i))"

definition render_backend :: "report_env \<Rightarrow> backend_diagnostic \<Rightarrow> ustr" where
  "render_backend E b =
     lit ''  '' @ bd_snap_name b @ (if bd_version b \<noteq> [] then [32] @ bd_version b else []) @ lit '' - ''
     @ diagnostic_connection_label (re_tr E) (bd_connection b) @ [10]
     @ field (re_tr E (lit ''Engine'')) (the_default (re_tr E (lit ''none selected'')) (bd_engine b))
     @ (case bd_model b of Some m \<Rightarrow> field (re_tr E (lit ''Model'')) m | None \<Rightarrow> [])
     @ (if bd_services b \<noteq> [] then field (re_tr E (lit ''Services'')) (join (lit '', '') (bd_services b)) else [])
     @ (case bd_memory b of Some m \<Rightarrow> field (re_tr E (lit ''Memory'')) (memory_summary E m) | None \<Rightarrow> [])"

definition render_models :: "report_env \<Rightarrow> backend_diagnostic list \<Rightarrow> ustr" where
  "render_models E bs =
     header (re_tr E (lit ''Models''))
     @ (if bs = [] then indented (re_tr E (lit ''(none discovered)'')) else [])
     @ concat (map (render_backend E) bs)"

definition input_method_problem :: "report_env \<Rightarrow> component_status \<Rightarrow> ustr" where
  "input_method_problem E st =
     (case st of
        CS_Unavailable \<Rightarrow> re_tr E (lit ''IBus is not installed, so Myna cannot type. Install the '' @ [8220] @ lit ''ibus'' @ [8221]
          @ lit '' package, then log out and back in.'')
      | CS_Blocked _ \<Rightarrow> re_tr E (lit ''Another input method is in use, and Dictation types through IBus. Choose IBus in the system settings.'')
      | _ \<Rightarrow> re_tr E (lit ''IBus is not set up, so Myna cannot type. Set up Dictation to turn it on.''))"

definition report_problems :: "report_env \<Rightarrow> diagnostic_input \<Rightarrow> onboarding_state \<Rightarrow> ustr list" where
  "report_problems E i onboarding =
     di_problems i
     @ (if onboarding = ON_NoModelConnected then [re_tr E (lit ''No model is connected. Choose one to use for dictation.'')] else [])
     @ (case input_method_held i of Some st \<Rightarrow> [input_method_problem E st] | None \<Rightarrow> [])
     @ concat (map bd_problems (di_backends i))"

definition render_problems :: "report_env \<Rightarrow> ustr list \<Rightarrow> ustr" where
  "render_problems E problems =
     header (re_tr E (lit ''Problems''))
     @ (if problems = [] then indented (re_tr E (lit ''(none)'')) else []) @ concat (map indented problems)"

definition render_warnings :: "report_env \<Rightarrow> report_warning list \<Rightarrow> ustr" where
  "render_warnings E ws =
     header (re_tr E (lit ''Warnings''))
     @ (if ws = [] then indented (re_tr E (lit ''(none)'')) else [])
     @ concat (map (\<lambda>w. indented (wn_cause w @ lit ''. '' @ wn_remedy w)) ws)"

definition render_body :: "report_env \<Rightarrow> diagnostic_input \<Rightarrow> onboarding_state \<Rightarrow> report_warning list \<Rightarrow> ustr" where
  "render_body E i onboarding warnings =
     re_tr E (lit ''Myna Settings'') @ [32] @ re_version E @ [10]
     @ re_tr E (lit ''Onboarding'') @ lit '': '' @ onboarding_state_label (re_tr E) onboarding @ [10]
     @ render_system E (di_system i) @ render_machine E (di_machine i) @ render_performance E (di_performance i)
     @ render_daemon E i @ render_models E (di_backends i) @ render_problems E (report_problems E i onboarding)
     @ render_warnings E warnings"

text \<open>Every label padded to the widest, and per line the column its continuation aligns to.\<close>

definition field_width :: "ustr \<Rightarrow> nat" where
  "field_width body =
     Max (insert 0 (set (map length (map fst (filter_map (split_once FIELD_SEPARATOR) (rust_lines body))))))"

definition align_line :: "nat \<Rightarrow> ustr \<Rightarrow> ustr \<times> nat" where
  "align_line width line =
     (case split_once FIELD_SEPARATOR line of
        Some (label, value) \<Rightarrow> (label @ replicate (width - length label) 32 @ [32] @ value, width + 1)
      | None \<Rightarrow> (line, length (takeWhile (\<lambda>c. c = 32) line)))"

definition align_fields :: "ustr \<Rightarrow> ustr \<times> nat list" where
  "align_fields body =
     (let aligned = map (align_line (field_width body)) (rust_lines body)
      in (concat (map (\<lambda>(line, _). line @ [10]) aligned), map snd aligned))"

record diagnostic_report =
  rp_onboarding :: onboarding_state
  rp_warnings :: "report_warning list"
  rp_body :: ustr
  rp_hanging :: "nat list"

definition present_diagnostics :: "report_env \<Rightarrow> diagnostic_input \<Rightarrow> diagnostic_report" where
  "present_diagnostics E i =
     (let onboarding = classify_onboarding i; warnings = report_warnings E i;
          (body, hanging) = align_fields (render_body E i onboarding warnings)
      in \<lparr>rp_onboarding = onboarding, rp_warnings = warnings, rp_body = body, rp_hanging = hanging\<rparr>)"

section \<open>The problems\<close>

fun diagnostic_surface_label :: "(ustr \<Rightarrow> ustr) \<Rightarrow> backend_surface \<Rightarrow> ustr" where
  "diagnostic_surface_label tr BS_SnapInventory = tr (lit ''Installed snaps'')"
| "diagnostic_surface_label tr BS_Connections = tr (lit ''Model connections'')"
| "diagnostic_surface_label tr BS_ModelctlApp = tr (lit ''Model control command'')"
| "diagnostic_surface_label tr BS_ModelctlConfig = tr (lit ''Model settings'')"
| "diagnostic_surface_label tr BS_Status = tr (lit ''Model status'')"
| "diagnostic_surface_label tr BS_Models = tr (lit ''Available models'')"
| "diagnostic_surface_label tr BS_Engines = tr (lit ''Available engines'')"

definition problem_from_surface_error :: "report_env \<Rightarrow> backend_surface_error \<Rightarrow> ustr" where
  "problem_from_surface_error E e = diagnostic_surface_label (re_tr E) (be_surface e) @ lit '': '' @ redact_text E (be_message e)"

section \<open>What the redaction does\<close>

text \<open>
  The reference: which keys name a secret, what becomes of one word, and what the first assignment
  of a word must not carry. Nothing is said of a second assignment in the same word.
\<close>

definition names_secret :: "ustr \<Rightarrow> bool" where
  "names_secret key \<longleftrightarrow> list_ex (\<lambda>needle. sublist (lit needle) (to_ascii_lowercase key))
     [''token'', ''secret'', ''password'', ''passwd'', ''auth'', ''credential'', ''cookie'', ''api-key'', ''apikey'']"

definition redact_word :: "ustr \<Rightarrow> ustr" where
  "redact_word w = (let key = takeWhile (\<lambda>c. c \<noteq> 61) w in
     if key \<noteq> w \<and> names_secret key then key @ lit ''=[redacted]'' else w)"

definition leaks :: "ustr \<Rightarrow> bool" where
  "leaks w \<longleftrightarrow> (let key = takeWhile (\<lambda>c. c \<noteq> 61) w in
     key \<noteq> w \<and> names_secret key \<and> drop (length key) w \<noteq> lit ''=[redacted]'')"

text \<open>The dashes the code strips of a key make no difference: no needle begins with one.\<close>

lemma sublist_dashes:
  assumes "n \<noteq> [] \<and> hd n \<noteq> 45"
  shows "sublist n (to_ascii_lowercase (dropWhile (\<lambda>c. c = 45) key)) \<longleftrightarrow> sublist n (to_ascii_lowercase key)"
proof (induction key)
  case (Cons c key)
  show ?case
  proof (cases "c = 45")
    case True
    then have "to_ascii_lowercase (c # key) = 45 # to_ascii_lowercase key"
      by (simp add: to_ascii_lowercase_def is_ascii_uppercase_def)
    with True Cons.IH assms show ?thesis by (cases n) (auto simp: sublist_Cons_right)
  qed simp
qed simp

lemma secret_key_names: "secret_key key \<longleftrightarrow> names_secret key"
proof -
  have needles: "list_all (\<lambda>n. n \<noteq> [] \<and> hd n \<noteq> 45) SENSITIVE_KEY_SUBSTRINGS" by code_simp
  have contains: "split_once_str n s \<noteq> None \<longleftrightarrow> sublist n s" for n s
    unfolding split_once_str_None sublist_def by simp
  have each: "split_once_str n (to_ascii_lowercase (dropWhile (\<lambda>c. c = 45) key)) \<noteq> None \<longleftrightarrow> sublist n (to_ascii_lowercase key)"
    if "n \<in> set SENSITIVE_KEY_SUBSTRINGS" for n
    unfolding contains using needles that by (intro sublist_dashes) (simp add: list_all_iff)
  have "secret_key key \<longleftrightarrow> list_ex (\<lambda>n. sublist n (to_ascii_lowercase key)) SENSITIVE_KEY_SUBSTRINGS"
    unfolding secret_key_def list_ex_iff by (intro bex_cong refl each)
  then show ?thesis by (simp add: names_secret_def SENSITIVE_KEY_SUBSTRINGS_def)
qed

lemma redact_word_split:
  "redact_word w = (case split_once 61 w of Some (key, _) \<Rightarrow> if secret_key key then key @ 61 # PLACEHOLDER_REDACTED else w | None \<Rightarrow> w)"
proof (cases "split_once 61 w")
  case None
  then have "takeWhile (\<lambda>c. c \<noteq> 61) w = w" by (auto simp: split_once_None takeWhile_eq_all_conv)
  with None show ?thesis by (simp add: redact_word_def)
next
  case (Some x)
  obtain k v where kv: "split_once 61 w = Some (k, v)" using Some by (cases x) simp
  then have "w = k @ 61 # v" "61 \<notin> set k" by (simp_all add: split_once_Some)
  then have "takeWhile (\<lambda>c. c \<noteq> 61) w = k" by (auto simp: takeWhile_append)
  with kv \<open>w = k @ 61 # v\<close> show ?thesis
    by (simp add: redact_word_def secret_key_names PLACEHOLDER_REDACTED_def lit_def)
qed

lemma split_inclusive_word:
  "list_all (\<lambda>c. \<not> P c) w \<Longrightarrow> P c \<Longrightarrow> split_inclusive P (w @ c # r) = (w @ [c]) # split_inclusive P r"
  "list_all (\<lambda>c. \<not> P c) w \<Longrightarrow> split_inclusive P w = (if w = [] then [] else [w])"
  by (induction w) auto

lemma trim_end_word:
  assumes "list_all (\<lambda>c. \<not> is_whitespace c) w" and "is_whitespace c"
  shows "trim_end (w @ [c]) = w" "trim_end w = w"
  using assms by (cases w rule: rev_cases; simp add: trim_end_def)+

lemma scrub_token_word:
  assumes "list_all (\<lambda>c. \<not> is_whitespace c) w" and "is_whitespace c"
  shows "scrub_token (w @ [c]) = redact_word w @ [c]" "scrub_token w = redact_word w"
  using trim_end_word [OF assms]
  by (auto simp: scrub_token_def split_trailing_whitespace_def redact_word_split split: option.splits)

lemma scrub_word:
  assumes "list_all (\<lambda>c. \<not> is_whitespace c) w"
  shows "is_whitespace c \<Longrightarrow> scrub_secret_assignments (w @ c # r) = redact_word w @ c # scrub_secret_assignments r"
    and "scrub_secret_assignments w = redact_word w"
proof -
  show "is_whitespace c \<Longrightarrow> scrub_secret_assignments (w @ c # r) = redact_word w @ c # scrub_secret_assignments r"
    using assms by (simp add: scrub_secret_assignments_def split_inclusive_word scrub_token_word)
  have "is_whitespace 32" by (simp add: is_whitespace_def)
  with assms show "scrub_secret_assignments w = redact_word w"
    by (simp add: scrub_secret_assignments_def split_inclusive_word scrub_token_word) (simp add: redact_word_split)
qed

lemma redact_word_plain:
  assumes "list_all (\<lambda>c. \<not> is_whitespace c) w"
  shows "list_all (\<lambda>c. \<not> is_whitespace c) (redact_word w)"
proof (cases "split_once 61 w")
  case None
  with assms show ?thesis by (simp add: redact_word_split)
next
  case (Some x)
  then obtain k v where "split_once 61 w = Some (k, v)" by (cases x) simp
  moreover from this have "w = k @ 61 # v" by (simp add: split_once_Some)
  moreover have "list_all (\<lambda>c. \<not> is_whitespace c) PLACEHOLDER_REDACTED"
    by (simp add: PLACEHOLDER_REDACTED_def lit_def is_whitespace_def)
  ultimately show ?thesis using assms by (simp add: redact_word_split)
qed

lemma redact_word_twice: "redact_word (redact_word w) = redact_word w \<and> \<not> leaks (redact_word w)"
proof (cases "takeWhile (\<lambda>c. c \<noteq> 61) w \<noteq> w \<and> names_secret (takeWhile (\<lambda>c. c \<noteq> 61) w)")
  case True
  define key where "key = takeWhile (\<lambda>c. c \<noteq> 61) w"
  have "takeWhile (\<lambda>c. c \<noteq> 61) (key @ lit ''=[redacted]'') = key"
    by (auto simp: key_def lit_def takeWhile_append dest: set_takeWhileD)
  moreover have "redact_word w = key @ lit ''=[redacted]''" using True by (simp add: redact_word_def key_def)
  ultimately show ?thesis by (simp add: redact_word_def leaks_def Let_def)
next
  case False
  then show ?thesis by (auto simp: redact_word_def leaks_def Let_def)
qed

text \<open>A text is a word, or a word, a whitespace character and a text.\<close>

lemma words_induct [case_names word more]:
  assumes word: "\<And>w. list_all (\<lambda>c. \<not> is_whitespace c) w \<Longrightarrow> Q w"
    and more: "\<And>w c r. list_all (\<lambda>c. \<not> is_whitespace c) w \<Longrightarrow> is_whitespace c \<Longrightarrow> Q r \<Longrightarrow> Q (w @ c # r)"
  shows "Q s"
proof (induction s rule: length_induct)
  case (1 s)
  let ?w = "takeWhile (\<lambda>c. \<not> is_whitespace c) s" and ?d = "dropWhile (\<lambda>c. \<not> is_whitespace c) s"
  have w: "list_all (\<lambda>c. \<not> is_whitespace c) ?w" by (auto simp: list_all_iff dest: set_takeWhileD)
  show ?case
  proof (cases ?d)
    case Nil
    then have "?w = s" by (metis append_Nil2 takeWhile_dropWhile_id)
    with word [OF w] show ?thesis by simp
  next
    case (Cons c r)
    then have s: "s = ?w @ c # r" by (metis takeWhile_dropWhile_id)
    moreover have "is_whitespace c" using Cons by (metis dropWhile_hd)
    moreover have "length r < length s" using arg_cong [OF s, of length] by simp
    ultimately show ?thesis using more [OF w] 1 by metis
  qed
qed

lemma scrub_words:
  "split_p is_whitespace (scrub_secret_assignments s) = map redact_word (split_p is_whitespace s)"
proof (induction s rule: words_induct)
  case (word w)
  then show ?case using redact_word_plain [OF word] by (simp add: scrub_word split_p_single list_all_iff)
next
  case (more w c r)
  then show ?case
    using redact_word_plain [OF more(1)] by (simp add: scrub_word split_p_sep split_p_single list_all_iff)
qed

lemma scrub_blanks: "filter is_whitespace (scrub_secret_assignments s) = filter is_whitespace s"
proof (induction s rule: words_induct)
  case (word w)
  then have "filter is_whitespace w = []" "filter is_whitespace (redact_word w) = []"
    using redact_word_plain [OF word] by (simp_all add: filter_empty_conv list_all_iff)
  with word show ?case by (simp add: scrub_word)
next
  case (more w c r)
  then have "filter is_whitespace w = []" "filter is_whitespace (redact_word w) = []"
    using redact_word_plain [OF more(1)] by (simp_all add: filter_empty_conv list_all_iff)
  with more show ?case by (simp add: scrub_word)
qed

lemma scrub_twice: "scrub_secret_assignments (scrub_secret_assignments s) = scrub_secret_assignments s"
proof (induction s rule: words_induct)
  case (word w)
  then show ?case using redact_word_plain [OF word] by (simp add: scrub_word redact_word_twice)
next
  case (more w c r)
  then show ?case using redact_word_plain [OF more(1)] by (simp add: scrub_word redact_word_twice)
qed


text \<open>What the word-wise redaction does not see: only the first assignment of a word is read, so
  a secret behind another assignment, as in the query of a URL, passes.\<close>

lemma second_assignment_passes:
  "scrub_secret_assignments (lit ''http://host/?state=1&access_token=abc'') = lit ''http://host/?state=1&access_token=abc''"
proof -
  have plain: "list_all (\<lambda>c. \<not> is_whitespace c) (lit ''http://host/?state=1&access_token=abc'')"
    by (simp add: lit_def is_whitespace_def)
  show ?thesis
    unfolding scrub_word(2) [OF plain] by (simp add: redact_word_split lit_def secret_key_def SENSITIVE_KEY_SUBSTRINGS_def
      to_ascii_lowercase_def is_ascii_uppercase_def strip_prefix.simps)
qed

section \<open>What the issue carries\<close>

text \<open>The reference: a decoder of form encoding.\<close>

definition unhex :: "uchar \<Rightarrow> nat" where
  "unhex c = (if c < 58 then c - 48 else c - 55)"

fun form_decode :: "ustr \<Rightarrow> byte list" where
  "form_decode [] = []"
| "form_decode (c # cs) =
     (if c = 43 then 32 # form_decode cs
      else if c = 37 then (case cs of h # l # r \<Rightarrow> of_nat (unhex h * 16 + unhex l) # form_decode r | _ \<Rightarrow> [])
      else of_nat c # form_decode cs)"

definition url_safe :: "uchar \<Rightarrow> bool" where
  "url_safe c \<longleftrightarrow> is_ascii_alphanumeric c \<or> c \<in> {45, 46, 95, 126, 43, 37}"

lemma unhex_hex: "n < 16 \<Longrightarrow> unhex (hex_upper n) = n"
  by (simp add: unhex_def hex_upper_def)

lemma hex_upper_safe: "n < 16 \<Longrightarrow> url_safe (hex_upper n)"
  by (auto simp: url_safe_def hex_upper_def ascii_defs)

lemma unreserved_nat:
  "is_unreserved b \<Longrightarrow> is_ascii_alphanumeric (unat b) \<or> unat b \<in> {45, 46, 95, 126}"
  by (auto simp: is_unreserved_def ascii_defs word_le_nat_alt)

lemma form_decode_byte: "form_decode (form_byte b @ r) = b # form_decode r"
proof (cases "is_unreserved b")
  case True
  then have "unat b \<noteq> 43" "unat b \<noteq> 37" by (auto dest!: unreserved_nat simp: ascii_defs)
  with True show ?thesis by (simp add: form_byte_def)
next
  case False
  have "unat b < 256" using unsigned_less [of b] by simp
  then have "unhex (hex_upper (unat b div 16)) * 16 + unhex (hex_upper (unat b mod 16)) = unat b"
    by (simp add: unhex_hex)
  with False show ?thesis by (simp add: form_byte_def del: of_nat_add of_nat_mult)
qed

lemma form_byte_safe: "list_all url_safe (form_byte b)"
proof -
  have "unat b < 256" using unsigned_less [of b] by simp
  then have "url_safe (hex_upper (unat b div 16))" "url_safe (hex_upper (unat b mod 16))" by (simp_all add: hex_upper_safe)
  then show ?thesis
    by (auto simp: form_byte_def dest!: unreserved_nat) (auto simp: url_safe_def)
qed

lemma form_decode_encode: "form_decode (form_encode s) = utf8_bytes s"
proof -
  have "form_decode (concat (map form_byte bs)) = bs" for bs by (induction bs) (simp_all add: form_decode_byte)
  then show ?thesis by (simp add: form_encode_def)
qed

text \<open>C35: What the prefilled issue carries is the report: every character of the encoded text is
  safe in a URL's query (a letter, a digit, one of \<open>-._~\<close>, a plus or a percent sign, so no
  separator of the query), and decoding it and reading it as UTF-8 gives the text back.\<close>

theorem form_encode_roundtrip:
  assumes "list_all is_scalar s"
  shows "from_utf8 (form_decode (form_encode s)) = Inr s \<and> list_all url_safe (form_encode s)"
proof
  show "from_utf8 (form_decode (form_encode s)) = Inr s" using assms by (simp add: form_decode_encode from_utf8_bytes)
  show "list_all url_safe (form_encode s)"
    unfolding form_encode_def using form_byte_safe by (auto simp: list_all_iff)
qed

theorem form_encode_roundtrip_witness:
  "from_utf8 (form_decode (form_encode [97, 32, 38, 8364])) = Inr [97, 32, 38, 8364] \<and> list_all url_safe (form_encode [97, 32, 38, 8364])"
  by (rule form_encode_roundtrip) (simp add: is_scalar_def)

section \<open>What the alignment does\<close>

lemma strip_cr_set: "set (strip_cr s) \<subseteq> set s"
proof (cases "strip_suffix [13] s")
  case None
  then show ?thesis by (simp add: strip_cr_def)
next
  case (Some r)
  then have "rev s = [13] @ rev r" by (auto simp: strip_suffix_def strip_prefix_Some)
  then have "s = r @ [13]" by (metis rev_append rev_rev_ident rev_singleton_conv)
  then have "set r \<subseteq> set s" by auto
  with Some show ?thesis by (simp add: strip_cr_def)
qed

lemma rust_lines_no_feed: "l \<in> set (rust_lines s) \<Longrightarrow> 10 \<notin> set l"
proof
  assume l: "l \<in> set (rust_lines s)" and feed: "10 \<in> set l"
  let ?ps = "split_p (\<lambda>c. c = 10) s"
  have "set (rust_lines s) \<subseteq> strip_cr ` set (butlast ?ps) \<union> {last ?ps}"
    unfolding rust_lines_def Let_def set_append set_map by (split if_split) (simp only: list.set, blast)
  with l consider w where "w \<in> set (butlast ?ps)" "l = strip_cr w" | "l = last ?ps" by blast
  then show False
  proof cases
    case 1
    then have "w \<in> set ?ps" "10 \<in> set w" using feed strip_cr_set [of w] by (auto dest: in_set_butlastD)
    then show False using split_p_no_sep [of w "\<lambda>c. c = 10" s 10] by simp
  next
    case 2
    then have "l \<in> set ?ps" by (metis last_in_set split_p_not_Nil)
    then show False using feed split_p_no_sep [of l "\<lambda>c. c = 10" s 10] by simp
  qed
qed

lemma split_lines: "list_all (\<lambda>l. 10 \<notin> set l) ls \<Longrightarrow> split_p (\<lambda>c. c = 10) (concat (map (\<lambda>l. l @ [10]) ls)) = ls @ [[]]"
proof (induction ls)
  case Nil
  then show ?case by simp
next
  case (Cons l ls)
  then have "split_p (\<lambda>c. c = 10) l = [l]" by (intro split_p_single) auto
  with Cons show ?case by (simp add: split_p_sep)
qed

lemma field_width_bound: "l \<in> set (rust_lines body) \<Longrightarrow> split_once FIELD_SEPARATOR l = Some (label, v) \<Longrightarrow> length label \<le> field_width body"
proof -
  assume l: "l \<in> set (rust_lines body)" and some: "split_once FIELD_SEPARATOR l = Some (label, v)"
  have "(label, v) \<in> set (filter_map (split_once FIELD_SEPARATOR) (rust_lines body))"
    unfolding set_filter_map using l some by blast
  then have "length label \<in> length ` fst ` set (filter_map (split_once FIELD_SEPARATOR) (rust_lines body))" by force
  then show ?thesis unfolding field_width_def by (intro Max_ge) (auto simp: image_image)
qed

text \<open>The reference: a line of the report is its field, padded to the column of the values.\<close>

fun aligned_to :: "nat \<Rightarrow> ustr \<Rightarrow> ustr \<times> nat \<Rightarrow> bool" where
  "aligned_to column line (out, hanging) =
     (case split_once FIELD_SEPARATOR line of
        Some (label, v) \<Rightarrow>
          drop column out = v \<and> take column out = label @ replicate (column - length label) 32 \<and> length label < column \<and> hanging = column
      | None \<Rightarrow> out = line \<and> hanging = length (takeWhile (\<lambda>c. c = 32) line))"

lemma align_line_aligned:
  assumes "l \<in> set (rust_lines body)"
  shows "aligned_to (field_width body + 1) l (align_line (field_width body) l)"
proof (cases "split_once FIELD_SEPARATOR l")
  case None
  then show ?thesis by (simp add: align_line_def)
next
  case (Some x)
  then obtain label v where eq: "split_once FIELD_SEPARATOR l = Some (label, v)" by (cases x) simp
  from field_width_bound [OF assms eq] have le: "length label \<le> field_width body" .
  then have "label @ replicate (field_width body - length label) 32 @ [32] = label @ replicate (field_width body + 1 - length label) 32"
    by (simp add: Suc_diff_le replicate_append_same)
  moreover have "length (label @ replicate (field_width body - length label) 32 @ [32]) = field_width body + 1" using le by simp
  ultimately show ?thesis using eq le by (simp add: align_line_def)
qed

lemma align_line_no_feed: "10 \<notin> set l \<Longrightarrow> 10 \<notin> set (fst (align_line width l))"
  by (auto simp: align_line_def split_once_Some split: option.splits)

text \<open>The alignment of the report: it prints one line for every line of the body, in order and
  with nothing lost, the values of all fields begin in one column, right of every label, and each
  line's continuation is set to that column (to the line's own indentation when it has no field).\<close>

theorem fields_aligned:
  "\<exists>outs. split_p (\<lambda>c. c = 10) (fst (align_fields body)) = outs @ [[]]
     \<and> length (snd (align_fields body)) = length outs
     \<and> list_all2 (aligned_to (field_width body + 1)) (rust_lines body) (zip outs (snd (align_fields body)))"
proof -
  let ?ls = "rust_lines body" and ?al = "align_line (field_width body)"
  let ?outs = "map (fst \<circ> ?al) ?ls"
  have fst: "fst (align_fields body) = concat (map (\<lambda>l. l @ [10]) ?outs)" and snd: "snd (align_fields body) = map (snd \<circ> ?al) ?ls"
    by (simp_all add: align_fields_def Let_def comp_def case_prod_beta)
  have "list_all (\<lambda>l. 10 \<notin> set l) ?outs" using rust_lines_no_feed align_line_no_feed by (fastforce simp: list_all_iff)
  then have "split_p (\<lambda>c. c = 10) (fst (align_fields body)) = ?outs @ [[]]" unfolding fst by (rule split_lines)
  moreover have "zip ?outs (snd (align_fields body)) = map ?al ?ls"
    unfolding snd by (simp add: zip_map_map zip_same_conv_map)
  moreover have "list_all2 (aligned_to (field_width body + 1)) ?ls (map ?al ?ls)"
    using align_line_aligned by (auto simp: list_all2_conv_all_nth)
  ultimately show ?thesis by (intro exI [of _ ?outs]) (simp add: snd)
qed

end
