(* ===== verification/Client_Settings.thy ===== *)
theory Client_Settings
  imports Core_Types Rust_Text "HOL-Library.List_Lexorder"
begin

text \<open>
  The user's settings: what the daemon reads of the store (\<open>client/myna-core/src/settings.rs\<close> and
  \<open>mode.rs\<close>), and the adapter through which the settings page reads and writes it
  (\<open>client/myna-config/src/adapters/client_settings.rs\<close>, its types in \<open>domain.rs\<close> and \<open>ports.rs\<close>).
  GSettings is a record of functions over a store.
\<close>

section \<open>What the daemon reads\<close>

definition SCHEMA_ID :: ustr where "SCHEMA_ID = lit ''com.canonical.Myna.Dictation''"
definition KEY_STREAMING_MODE :: ustr where "KEY_STREAMING_MODE = lit ''streaming-mode''"
definition KEY_LANGUAGE :: ustr where "KEY_LANGUAGE = lit ''language''"
definition KEY_HUD_STYLE :: ustr where "KEY_HUD_STYLE = lit ''hud-style''"
definition KEY_SILENCE_TIMEOUT :: ustr where "KEY_SILENCE_TIMEOUT = lit ''silence-timeout''"
definition KEY_SOUNDS :: ustr where "KEY_SOUNDS = lit ''sounds''"
definition KEY_SOUND_SET :: ustr where "KEY_SOUND_SET = lit ''sound-set''"
definition KEY_VOCABULARY :: ustr where "KEY_VOCABULARY = lit ''vocabulary''"
definition DEFAULT_SILENCE_TIMEOUT_SECS :: u32 where "DEFAULT_SILENCE_TIMEOUT_SECS = 30"
definition DEFAULT_SOUNDS :: bool where "DEFAULT_SOUNDS = True"

datatype sound_set = SD_Myna | SD_Tine | SD_Hum | SD_Marimba | SD_Drop | SD_Radio | SD_Koto

definition ALL_SOUND_SETS :: "sound_set list" where
  "ALL_SOUND_SETS = [SD_Myna, SD_Tine, SD_Hum, SD_Marimba, SD_Drop, SD_Radio, SD_Koto]"

fun sound_set_nick :: "sound_set \<Rightarrow> ustr" where
  "sound_set_nick SD_Myna = lit ''myna''"
| "sound_set_nick SD_Tine = lit ''tine''"
| "sound_set_nick SD_Hum = lit ''hum''"
| "sound_set_nick SD_Marimba = lit ''marimba''"
| "sound_set_nick SD_Drop = lit ''drop''"
| "sound_set_nick SD_Radio = lit ''radio''"
| "sound_set_nick SD_Koto = lit ''koto''"

definition sound_set_from_nick :: "ustr \<Rightarrow> sound_set option" where
  "sound_set_from_nick nick = find (\<lambda>s. sound_set_nick s = nick) ALL_SOUND_SETS"

definition mode_from_nick :: "ustr \<Rightarrow> streaming_mode option" where
  "mode_from_nick nick =
     (if nick = lit ''streaming'' then Some Streaming else if nick = lit ''batch'' then Some Batch else None)"

record settings =
  se_streaming_mode :: "streaming_mode option"
  se_language :: "ustr option"
  se_hud_style :: "ustr option"
  se_silence_timeout :: u32
  se_sounds :: bool
  se_sound_set :: sound_set
  se_vocabulary :: "ustr list"

definition default_settings :: settings where
  "default_settings =
     \<lparr>se_streaming_mode = None, se_language = None, se_hud_style = None, se_silence_timeout = DEFAULT_SILENCE_TIMEOUT_SECS,
      se_sounds = DEFAULT_SOUNDS, se_sound_set = SD_Tine, se_vocabulary = []\<rparr>"

text \<open>The store's typed reads. A read of a key the schema lacks aborts the process, so each is guarded.\<close>

record store =
  st_has :: "ustr \<Rightarrow> bool"
  st_user_string :: "ustr \<Rightarrow> ustr option"
  st_string :: "ustr \<Rightarrow> ustr"
  st_uint :: "ustr \<Rightarrow> u32"
  st_boolean :: "ustr \<Rightarrow> bool"
  st_strv :: "ustr \<Rightarrow> ustr list"

definition store_streaming_mode :: "store \<Rightarrow> streaming_mode option" where
  "store_streaming_mode s =
     (if st_has s KEY_STREAMING_MODE then Option.bind (st_user_string s KEY_STREAMING_MODE) mode_from_nick else None)"

definition store_text :: "store \<Rightarrow> ustr \<Rightarrow> ustr option" where
  "store_text s key = (if st_has s key then (if st_string s key = [] then None else Some (st_string s key)) else None)"

definition store_seconds :: "store \<Rightarrow> ustr \<Rightarrow> u32 option" where
  "store_seconds s key = (if st_has s key then Some (st_uint s key) else None)"

definition store_flag :: "store \<Rightarrow> ustr \<Rightarrow> bool option" where
  "store_flag s key = (if st_has s key then Some (st_boolean s key) else None)"

definition store_strings :: "store \<Rightarrow> ustr \<Rightarrow> ustr list option" where
  "store_strings s key = (if st_has s key then Some (st_strv s key) else None)"

definition from_store :: "store \<Rightarrow> settings" where
  "from_store s =
     \<lparr>se_streaming_mode = store_streaming_mode s, se_language = store_text s KEY_LANGUAGE, se_hud_style = store_text s KEY_HUD_STYLE,
      se_silence_timeout = the_default (se_silence_timeout default_settings) (store_seconds s KEY_SILENCE_TIMEOUT),
      se_sounds = the_default (se_sounds default_settings) (store_flag s KEY_SOUNDS),
      se_sound_set = the_default (se_sound_set default_settings) (Option.bind (store_text s KEY_SOUND_SET) sound_set_from_nick),
      se_vocabulary = the_default (se_vocabulary default_settings) (store_strings s KEY_VOCABULARY)\<rparr>"

definition load_settings :: "store option \<Rightarrow> settings" where
  "load_settings opened = (case opened of Some s \<Rightarrow> from_store s | None \<Rightarrow> default_settings)"

text \<open>The settings file, from the environment.\<close>

definition path_push :: "ustr \<Rightarrow> ustr \<Rightarrow> ustr" where
  "path_push p q = (if p = [] then q else if last p = 47 then p @ q else p @ [47] @ q)"

definition store_path :: "(ustr \<Rightarrow> ustr option) \<Rightarrow> ustr option" where
  "store_path env =
     map_option (\<lambda>dir. path_push dir (lit ''glib-2.0/settings/keyfile''))
       (if env (lit ''GSETTINGS_BACKEND'') = Some (lit ''keyfile'')
        then (case env (lit ''XDG_CONFIG_HOME'') of
                Some p \<Rightarrow> if starts_with [47] p then Some p
                          else map_option (\<lambda>home. path_push home (lit ''.config'')) (env (lit ''HOME''))
              | None \<Rightarrow> map_option (\<lambda>home. path_push home (lit ''.config'')) (env (lit ''HOME'')))
        else map_option (\<lambda>dir. path_push dir (lit ''.config''))
          (case env (lit ''SNAP_USER_COMMON'') of
             Some p \<Rightarrow> Some p
           | None \<Rightarrow> map_option (\<lambda>home. path_push home (lit ''snap/myna/common'')) (env (lit ''HOME''))))"

text \<open>The mode in force.\<close>

datatype mode_source = MS_User | MS_Backend | MS_Unknown

record mode_in_force =
  mi_mode :: streaming_mode
  mi_source :: mode_source

fun effective_mode :: "streaming_mode option \<Rightarrow> bool option \<Rightarrow> mode_in_force" where
  "effective_mode (Some mode) _ = \<lparr>mi_mode = mode, mi_source = MS_User\<rparr>"
| "effective_mode None (Some streams) = \<lparr>mi_mode = (if streams then Streaming else Batch), mi_source = MS_Backend\<rparr>"
| "effective_mode None None = \<lparr>mi_mode = Streaming, mi_source = MS_Unknown\<rparr>"

section \<open>What the page reads and writes\<close>

datatype setting_value =
    SG_Choice ustr
  | SG_Text ustr
  | SG_Integer int
  | SG_Boolean bool
  | SG_List "ustr list"

fun value_str :: "setting_value \<Rightarrow> ustr option" where
  "value_str (SG_Choice v) = Some v"
| "value_str (SG_Text v) = Some v"
| "value_str _ = None"

fun value_integer :: "setting_value \<Rightarrow> int option" where
  "value_integer (SG_Integer v) = Some v"
| "value_integer _ = None"

fun value_bool :: "setting_value \<Rightarrow> bool option" where
  "value_bool (SG_Boolean v) = Some v"
| "value_bool _ = None"

fun value_list :: "setting_value \<Rightarrow> ustr list option" where
  "value_list (SG_List v) = Some v"
| "value_list _ = None"

datatype setting_range = SR_Unrestricted | SR_Choices "ustr list" | SR_Range setting_value setting_value

record setting_metadata =
  sm_key :: ustr
  sm_summary :: "ustr option"
  sm_description :: "ustr option"
  sm_default :: setting_value
  sm_range :: setting_range
  sm_current :: setting_value
  sm_writable :: bool

datatype settings_error =
    XG_SchemaUnavailable ustr ustr
  | XG_UnknownKey ustr
  | XG_NotWritable ustr
  | XG_InvalidValue ustr ustr
  | XG_StoreUnavailable ustr

fun show_settings_error :: "settings_error \<Rightarrow> ustr" where
  "show_settings_error (XG_SchemaUnavailable schema guidance) =
     lit ''GSettings schema '' @ schema @ lit '' is unavailable. '' @ guidance"
| "show_settings_error (XG_UnknownKey key) = lit ''settings key is not declared by the schema: '' @ key"
| "show_settings_error (XG_NotWritable key) = lit ''settings key is not writable: '' @ key"
| "show_settings_error (XG_InvalidValue key message) = lit ''invalid value for '' @ key @ lit '': '' @ message"
| "show_settings_error (XG_StoreUnavailable message) = lit ''cannot open the Myna settings store: '' @ message"

text \<open>
  The values of GVariant the settings use; any other is known by its type string. A tuple is
  what a range's bounds come in.
\<close>

datatype gvariant =
    GV_Int32 "32 word"
  | GV_Uint32 u32
  | GV_Boolean bool
  | GV_String ustr
  | GV_Strv "ustr list"
  | GV_Tuple "gvariant list"
  | GV_Other ustr

datatype variant_type = GT_Int32 | GT_Uint32 | GT_Boolean | GT_String | GT_Strv | GT_Tuple "variant_type list" | GT_Other ustr

fun type_of_variant :: "gvariant \<Rightarrow> variant_type" where
  "type_of_variant (GV_Int32 _) = GT_Int32"
| "type_of_variant (GV_Uint32 _) = GT_Uint32"
| "type_of_variant (GV_Boolean _) = GT_Boolean"
| "type_of_variant (GV_String _) = GT_String"
| "type_of_variant (GV_Strv _) = GT_Strv"
| "type_of_variant (GV_Tuple vs) = GT_Tuple (map type_of_variant vs)"
| "type_of_variant (GV_Other t) = GT_Other t"

fun show_variant_type :: "variant_type \<Rightarrow> ustr" where
  "show_variant_type GT_Int32 = lit ''i''"
| "show_variant_type GT_Uint32 = lit ''u''"
| "show_variant_type GT_Boolean = lit ''b''"
| "show_variant_type GT_String = lit ''s''"
| "show_variant_type GT_Strv = lit ''as''"
| "show_variant_type (GT_Tuple ts) = lit ''('' @ concat (map show_variant_type ts) @ lit '')''"
| "show_variant_type (GT_Other t) = t"

fun integer_from_variant :: "gvariant \<Rightarrow> int option" where
  "integer_from_variant (GV_Int32 n) = Some (sint n)"
| "integer_from_variant (GV_Uint32 n) = Some (uint n)"
| "integer_from_variant _ = None"

definition integer_variant :: "int \<Rightarrow> variant_type \<Rightarrow> gvariant option" where
  "integer_variant v kind =
     (if kind = GT_Int32 then (if - (2 ^ 31) \<le> v \<and> v < 2 ^ 31 then Some (GV_Int32 (word_of_int v)) else None)
      else if kind = GT_Uint32 then (if 0 \<le> v \<and> v < 2 ^ 32 then Some (GV_Uint32 (word_of_int v)) else None)
      else None)"

definition value_from_variant :: "gvariant \<Rightarrow> setting_range \<Rightarrow> ustr \<Rightarrow> settings_error + setting_value" where
  "value_from_variant v rng key =
     (case integer_from_variant v of
        Some n \<Rightarrow> Inr (SG_Integer n)
      | None \<Rightarrow>
          (case v of
             GV_Boolean b \<Rightarrow> Inr (SG_Boolean b)
           | GV_Strv vs \<Rightarrow> Inr (SG_List vs)
           | GV_String t \<Rightarrow> Inr (case rng of SR_Choices _ \<Rightarrow> SG_Choice t | _ \<Rightarrow> SG_Text t)
           | _ \<Rightarrow> Inl (XG_InvalidValue key (lit ''unsupported GVariant type '' @ show_variant_type (type_of_variant v)))))"

text \<open>A key of the schema; its range is a kind and a detail.\<close>

record schema_key =
  sk_type :: variant_type
  sk_summary :: "ustr option"
  sk_description :: "ustr option"
  sk_default :: gvariant
  sk_range_kind :: "ustr option"
  sk_range_detail :: "gvariant option"
  sk_range_check :: "gvariant \<Rightarrow> bool"

fun variant_children :: "gvariant \<Rightarrow> gvariant list" where
  "variant_children (GV_Tuple vs) = vs"
| "variant_children (GV_Strv ts) = map GV_String ts"
| "variant_children _ = []"

definition setting_range_of :: "ustr \<Rightarrow> schema_key \<Rightarrow> setting_range" where
  "setting_range_of key k =
     (case sk_range_detail k of
        None \<Rightarrow> SR_Unrestricted
      | Some detail \<Rightarrow>
          if sk_range_kind k = Some (lit ''enum'') then (case detail of GV_Strv cs \<Rightarrow> SR_Choices cs | _ \<Rightarrow> SR_Unrestricted)
          else if sk_range_kind k = Some (lit ''range'') \<and> length (variant_children detail) = 2
          then (case (value_from_variant (variant_children detail ! 0) SR_Unrestricted key,
                      value_from_variant (variant_children detail ! 1) SR_Unrestricted key) of
                  (Inr lo, Inr hi) \<Rightarrow> SR_Range lo hi
                | _ \<Rightarrow> SR_Unrestricted)
          else SR_Unrestricted)"

definition holds_type :: "variant_type \<Rightarrow> bool" where
  "holds_type kind \<longleftrightarrow> kind \<in> {GT_Int32, GT_Uint32, GT_Boolean, GT_String, GT_Strv}"

record 'w gio =
  gi_keys :: "ustr list"
  gi_schema :: "ustr \<Rightarrow> schema_key option"
  gi_value :: "ustr \<Rightarrow> 'w \<Rightarrow> gvariant"
  gi_user :: "ustr \<Rightarrow> 'w \<Rightarrow> gvariant option"
  gi_writable :: "ustr \<Rightarrow> bool"
  gi_set :: "ustr \<Rightarrow> gvariant \<Rightarrow> 'w \<Rightarrow> (ustr + unit) \<times> 'w"

definition find_schema_key :: "'w gio \<Rightarrow> ustr \<Rightarrow> settings_error + schema_key" where
  "find_schema_key G key = (case gi_schema G key of Some k \<Rightarrow> Inr k | None \<Rightarrow> Inl (XG_UnknownKey key))"

definition key_metadata :: "'w gio \<Rightarrow> ustr \<Rightarrow> 'w \<Rightarrow> settings_error + setting_metadata" where
  "key_metadata G key w =
     (case find_schema_key G key of
        Inl e \<Rightarrow> Inl e
      | Inr k \<Rightarrow>
          (let rng = setting_range_of key k in
           case value_from_variant (sk_default k) rng key of
             Inl e \<Rightarrow> Inl e
           | Inr d \<Rightarrow>
               (case value_from_variant (gi_value G key w) rng key of
                  Inl e \<Rightarrow> Inl e
                | Inr v \<Rightarrow> Inr \<lparr>sm_key = key, sm_summary = sk_summary k, sm_description = sk_description k, sm_default = d,
                                 sm_range = rng, sm_current = v, sm_writable = gi_writable G key\<rparr>)))"

fun collect_metadata :: "'w gio \<Rightarrow> 'w \<Rightarrow> ustr list \<Rightarrow> settings_error + setting_metadata list" where
  "collect_metadata G w [] = Inr []"
| "collect_metadata G w (key # keys) =
     (case key_metadata G key w of
        Inl e \<Rightarrow> Inl e
      | Inr m \<Rightarrow> (case collect_metadata G w keys of Inl e \<Rightarrow> Inl e | Inr ms \<Rightarrow> Inr (m # ms)))"

definition list_settings :: "'w gio \<Rightarrow> 'w \<Rightarrow> settings_error + setting_metadata list" where
  "list_settings G w =
     collect_metadata G w (sort (filter (\<lambda>key. case gi_schema G key of Some k \<Rightarrow> holds_type (sk_type k) | None \<Rightarrow> False) (gi_keys G)))"

definition get_setting :: "'w gio \<Rightarrow> ustr \<Rightarrow> 'w \<Rightarrow> settings_error + setting_value" where
  "get_setting G key w =
     (case find_schema_key G key of
        Inl e \<Rightarrow> Inl e
      | Inr k \<Rightarrow> value_from_variant (gi_value G key w) (setting_range_of key k) key)"

definition variant_for :: "ustr \<Rightarrow> schema_key \<Rightarrow> setting_value \<Rightarrow> settings_error + gvariant" where
  "variant_for key k value =
     (case (setting_range_of key k, value) of
        (SR_Choices _, SG_Choice t) \<Rightarrow> Inr (GV_String t)
      | (SR_Unrestricted, SG_Text t) \<Rightarrow> Inr (GV_String t)
      | (_, SG_Boolean b) \<Rightarrow> Inr (GV_Boolean b)
      | (SR_Unrestricted, SG_List ts) \<Rightarrow> Inr (GV_Strv ts)
      | (SR_Range _ _, SG_Integer n) \<Rightarrow>
          (case integer_variant n (sk_type k) of Some v \<Rightarrow> Inr v | None \<Rightarrow> Inl (XG_InvalidValue key (lit ''value is outside the schema range'')))
      | (SR_Unrestricted, SG_Integer n) \<Rightarrow>
          (case integer_variant n (sk_type k) of Some v \<Rightarrow> Inr v | None \<Rightarrow> Inl (XG_InvalidValue key (lit ''value is outside the schema range'')))
      | _ \<Rightarrow> Inl (XG_InvalidValue key (lit ''value has the wrong schema type'')))"

definition set_setting :: "'w gio \<Rightarrow> ustr \<Rightarrow> setting_value \<Rightarrow> 'w \<Rightarrow> (settings_error + unit) \<times> 'w" where
  "set_setting G key value w =
     (case find_schema_key G key of
        Inl e \<Rightarrow> (Inl e, w)
      | Inr k \<Rightarrow>
          if \<not> gi_writable G key then (Inl (XG_NotWritable key), w)
          else case variant_for key k value of
            Inl e \<Rightarrow> (Inl e, w)
          | Inr v \<Rightarrow>
              if type_of_variant v \<noteq> sk_type k \<or> \<not> sk_range_check k v
              then (Inl (XG_InvalidValue key (lit ''value is outside the schema range'')), w)
              else case gi_set G key v w of
                (Inl e, w') \<Rightarrow> (Inl (XG_InvalidValue key e), w')
              | (Inr _, w') \<Rightarrow> (Inr (), w'))"

definition has_user_value :: "'w gio \<Rightarrow> ustr \<Rightarrow> 'w \<Rightarrow> settings_error + bool" where
  "has_user_value G key w = (case find_schema_key G key of Inl e \<Rightarrow> Inl e | Inr _ \<Rightarrow> Inr (gi_user G key w \<noteq> None))"

text \<open>What a change of the store tells the page.\<close>

definition changed_setting :: "'w gio \<Rightarrow> ustr \<Rightarrow> 'w \<Rightarrow> (ustr \<times> setting_value) option" where
  "changed_setting G key w = (case get_setting G key w of Inr v \<Rightarrow> Some (key, v) | Inl _ \<Rightarrow> None)"

section \<open>What is written is what is read\<close>

text \<open>GSettings: a write that succeeds is the user's value, and the value.\<close>

definition gio_faithful :: "'w gio \<Rightarrow> bool" where
  "gio_faithful G \<longleftrightarrow>
     (\<forall>key v w w'. gi_set G key v w = (Inr (), w') \<longrightarrow> gi_value G key w' = v \<and> gi_user G key w' = Some v)"

lemma integer_variant_read: "integer_variant n kind = Some v \<Longrightarrow> integer_from_variant v = Some n"
  by (auto simp: integer_variant_def int_word_sint uint_word_of_int split: if_splits)

lemma variant_for_read:
  "variant_for key k value = Inr v \<Longrightarrow> value_from_variant v (setting_range_of key k) key = Inr value"
  by (auto simp: variant_for_def value_from_variant_def integer_variant_read split: setting_range.splits setting_value.splits option.splits)

text \<open>A setting that was written reads back as written: only a key the schema declares and that
  is writable is written, with a value of the schema's type that its range accepts, and then the
  adapter reads exactly that value, as the user's own.\<close>

theorem set_get_roundtrip:
  assumes "gio_faithful G" and "set_setting G key value w = (Inr (), w')"
  shows "get_setting G key w' = Inr value \<and> has_user_value G key w' = Inr True \<and> gi_writable G key
    \<and> (case gi_schema G key of None \<Rightarrow> False
       | Some k \<Rightarrow> (case variant_for key k value of Inl _ \<Rightarrow> False | Inr v \<Rightarrow> type_of_variant v = sk_type k \<and> sk_range_check k v))"
proof -
  from assms(2) obtain k v where k: "gi_schema G key = Some k" and wr: "gi_writable G key" and v: "variant_for key k value = Inr v"
    and ok: "type_of_variant v = sk_type k" "sk_range_check k v" and stored: "gi_set G key v w = (Inr (), w')"
    by (auto simp: set_setting_def find_schema_key_def split: option.splits if_splits sum.splits prod.splits)
  from assms(1) stored have "gi_value G key w' = v" "gi_user G key w' = Some v" unfolding gio_faithful_def by blast+
  with k wr v ok show ?thesis by (simp add: get_setting_def has_user_value_def find_schema_key_def variant_for_read)
qed

definition mem_gio :: "(ustr \<rightharpoonup> gvariant) gio" where
  "mem_gio =
     \<lparr>gi_keys = [KEY_SILENCE_TIMEOUT],
      gi_schema = (\<lambda>key. if key = KEY_SILENCE_TIMEOUT
        then Some \<lparr>sk_type = GT_Uint32, sk_summary = None, sk_description = None, sk_default = GV_Uint32 30, sk_range_kind = Some (lit ''range''),
                   sk_range_detail = Some (GV_Tuple [GV_Uint32 0, GV_Uint32 600]), sk_range_check = (\<lambda>v. case v of GV_Uint32 n \<Rightarrow> n \<le> 600 | _ \<Rightarrow> False)\<rparr>
        else None),
      gi_value = (\<lambda>key w. case w key of Some v \<Rightarrow> v | None \<Rightarrow> GV_Uint32 30), gi_user = (\<lambda>key w. w key), gi_writable = (\<lambda>_. True),
      gi_set = (\<lambda>key v w. (Inr (), w(key \<mapsto> v)))\<rparr>"

lemma set_get_roundtrip_witness:
  "get_setting mem_gio KEY_SILENCE_TIMEOUT [KEY_SILENCE_TIMEOUT \<mapsto> GV_Uint32 45] = Inr (SG_Integer 45)"
proof -
  have "gio_faithful mem_gio" by (simp add: gio_faithful_def mem_gio_def)
  moreover have "set_setting mem_gio KEY_SILENCE_TIMEOUT (SG_Integer 45) Map.empty = (Inr (), [KEY_SILENCE_TIMEOUT \<mapsto> GV_Uint32 45])"
    by (simp add: set_setting_def find_schema_key_def mem_gio_def variant_for_def setting_range_of_def value_from_variant_def integer_variant_def lit_def)
  ultimately show ?thesis by (rule set_get_roundtrip [THEN conjunct1])
qed

text \<open>The daemon's read: a nick names its set, and a schema without a key gives the default.\<close>

lemma sound_set_nick_roundtrip: "sound_set_from_nick (sound_set_nick s) = Some s"
  by (cases s) (simp_all add: sound_set_from_nick_def ALL_SOUND_SETS_def lit_def)

lemma missing_keys_read_default: "(\<And>key. \<not> st_has s key) \<Longrightarrow> from_store s = default_settings"
  by (simp add: from_store_def store_streaming_mode_def store_text_def store_seconds_def store_flag_def store_strings_def default_settings_def)

end
