(* ===== verification/Settings_Page.thy ===== *)
theory Settings_Page
  imports Client_Settings
begin

text \<open>
  The settings page behind its widgets, \<open>client/myna-config/src/myna_settings.rs\<close>: what row a setting
  gets, the list editor, the debounced text field, and the controller that shows a change at
  once, has a thread write it, and follows what the store says of itself. The page's calls, the
  writer's three moments (the check of the revision, the write, the note of what was written)
  and the deliveries interleave as a list of inputs.
\<close>

section \<open>Rows and their widgets\<close>

datatype widget_kind = WK_Choice | WK_Text | WK_Number | WK_Switch | WK_List

datatype placement = AT_Dictation | AT_ActiveModel

record list_limits =
  ll_entries :: nat
  ll_entry_chars :: nat

record widget_plan =
  wp_key :: ustr
  wp_title :: ustr
  wp_description :: ustr
  wp_kind :: widget_kind
  wp_choices :: "ustr list"
  wp_bounds :: "(int \<times> int) option"
  wp_limits :: "list_limits option"
  wp_writable :: bool
  wp_placement :: placement

definition limits_of :: "ustr \<Rightarrow> list_limits option" where
  "limits_of key =
     (if key = KEY_VOCABULARY then Some \<lparr>ll_entries = KEYWORDS_MAX_ENTRIES, ll_entry_chars = KEYWORDS_MAX_ENTRY_CHARS\<rparr> else None)"

datatype list_entry_error = LE_Empty | LE_Duplicate | LE_TooLong nat | LE_Full nat

definition add_list_entry :: "ustr list \<Rightarrow> ustr \<Rightarrow> list_limits option \<Rightarrow> list_entry_error + ustr list" where
  "add_list_entry current candidate limits =
     (let entry = trim candidate in
      if entry = [] then Inl LE_Empty
      else if entry \<in> set current then Inl LE_Duplicate
      else case limits of
        Some l \<Rightarrow>
          if ll_entry_chars l < length entry then Inl (LE_TooLong (ll_entry_chars l))
          else if ll_entries l \<le> length current then Inl (LE_Full (ll_entries l))
          else Inr (current @ [entry])
      | None \<Rightarrow> Inr (current @ [entry]))"

definition remove_list_entry :: "ustr list \<Rightarrow> ustr \<Rightarrow> ustr list" where
  "remove_list_entry current entry = remove1 entry current"

text \<open>A stable sort that puts the default first.\<close>

definition default_first :: "ustr list \<Rightarrow> setting_value \<Rightarrow> ustr list" where
  "default_first choices d =
     filter (\<lambda>c. Some c = value_str d) choices @ filter (\<lambda>c. Some c \<noteq> value_str d) choices"

definition bounds_of :: "setting_range \<Rightarrow> (int \<times> int) option" where
  "bounds_of r =
     (case r of
        SR_Range lo hi \<Rightarrow> (case (value_integer lo, value_integer hi) of (Some a, Some b) \<Rightarrow> Some (a, b) | _ \<Rightarrow> None)
      | _ \<Rightarrow> None)"

definition kind_of :: "setting_metadata \<Rightarrow> widget_kind" where
  "kind_of m =
     (if value_bool (sm_default m) \<noteq> None then WK_Switch
      else case sm_range m of
        SR_Choices _ \<Rightarrow> WK_Choice
      | r \<Rightarrow> if bounds_of r \<noteq> None then WK_Number else if value_list (sm_default m) \<noteq> None then WK_List else WK_Text)"

definition plan_widget :: "setting_metadata \<Rightarrow> widget_plan" where
  "plan_widget m =
     \<lparr>wp_key = sm_key m, wp_title = the_default (sm_key m) (sm_summary m), wp_description = trim (the_default [] (sm_description m)),
      wp_kind = kind_of m, wp_choices = (case sm_range m of SR_Choices cs \<Rightarrow> default_first cs (sm_default m) | _ \<Rightarrow> []),
      wp_bounds = bounds_of (sm_range m), wp_limits = (if kind_of m = WK_List then limits_of (sm_key m) else None),
      wp_writable = sm_writable m,
      wp_placement = (if sm_key m = KEY_LANGUAGE \<or> sm_key m = KEY_VOCABULARY then AT_ActiveModel else AT_Dictation)\<rparr>"

definition DICTATION_ORDER :: "ustr list" where
  "DICTATION_ORDER = [KEY_STREAMING_MODE, KEY_HUD_STYLE, KEY_SOUNDS, KEY_SOUND_SET, KEY_SILENCE_TIMEOUT]"

definition display_rank :: "ustr \<Rightarrow> nat" where
  "display_rank key = length (takeWhile (\<lambda>k. k \<noteq> key) DICTATION_ORDER)"

section \<open>The debounced text field\<close>

record text_commit =
  tc_committed :: ustr
  tc_pending :: "(u64 \<times> ustr) option"
  tc_revision :: u64

definition text_commit_new :: "ustr \<Rightarrow> text_commit" where
  "text_commit_new v = \<lparr>tc_committed = v, tc_pending = None, tc_revision = 0\<rparr>"

definition text_changed :: "ustr \<Rightarrow> text_commit \<Rightarrow> u64 option \<times> text_commit" where
  "text_changed v t =
     (let t = t\<lparr>tc_revision := tc_revision t + 1\<rparr> in
      if v = tc_committed t then (None, t\<lparr>tc_pending := None\<rparr>)
      else (Some (tc_revision t), t\<lparr>tc_pending := Some (tc_revision t, v)\<rparr>))"

definition text_take :: "u64 \<Rightarrow> text_commit \<Rightarrow> ustr option \<times> text_commit" where
  "text_take revision t =
     (case tc_pending t of
        Some (r, v) \<Rightarrow> if r = revision then (Some v, t\<lparr>tc_pending := None\<rparr>) else (None, t)
      | None \<Rightarrow> (None, t))"

definition text_apply :: "ustr \<Rightarrow> text_commit \<Rightarrow> ustr option \<times> text_commit" where
  "text_apply v t =
     (let t = t\<lparr>tc_revision := tc_revision t + 1, tc_pending := None\<rparr> in (if v \<noteq> tc_committed t then Some v else None, t))"

definition text_flush :: "text_commit \<Rightarrow> ustr option \<times> text_commit" where
  "text_flush t = (map_option snd (tc_pending t), t\<lparr>tc_revision := tc_revision t + 1, tc_pending := None\<rparr>)"

definition text_committed :: "ustr \<Rightarrow> text_commit \<Rightarrow> text_commit" where
  "text_committed v t = t\<lparr>tc_committed := v, tc_pending := None\<rparr>"

section \<open>The controller\<close>

record setting_row =
  lr_metadata :: setting_metadata
  lr_value :: setting_value
  lr_pending :: bool
  lr_user_set :: bool

datatype page_state = LP_Loading | LP_Empty | LP_Ready "setting_row list" | LP_Error ustr

datatype settings_event = EP_RowChanged ustr setting_value bool | EP_SaveFailed ustr ustr

record persistence_gate =
  gt_revision :: u64
  gt_persisted :: setting_value

record persistence_request =
  pq_key :: ustr
  pq_revision :: u64
  pq_original :: setting_value
  pq_requested :: setting_value

datatype completion = PC_Written setting_value | PC_Superseded

text \<open>The gates are shared with the writer: a request's gate is the one of its key.\<close>

record settings_page =
  sp_state :: page_state
  sp_gates :: "ustr \<rightharpoonup> persistence_gate"
  sp_observed :: "ustr \<rightharpoonup> u64"
  sp_expected :: "ustr \<rightharpoonup> setting_value list"
  sp_streams :: "bool option"

fun update_first :: "('a \<Rightarrow> bool) \<Rightarrow> ('a \<Rightarrow> 'a) \<Rightarrow> 'a list \<Rightarrow> 'a list" where
  "update_first P f [] = []"
| "update_first P f (x # xs) = (if P x then f x # xs else x # update_first P f xs)"

definition row_key :: "setting_row \<Rightarrow> ustr" where
  "row_key r = sm_key (lr_metadata r)"

definition page_row :: "settings_page \<Rightarrow> ustr \<Rightarrow> setting_row option" where
  "page_row c key = (case sp_state c of LP_Ready rows \<Rightarrow> find (\<lambda>r. row_key r = key) rows | _ \<Rightarrow> None)"

definition map_row :: "ustr \<Rightarrow> (setting_row \<Rightarrow> setting_row) \<Rightarrow> settings_page \<Rightarrow> settings_page" where
  "map_row key f c =
     (case sp_state c of LP_Ready rows \<Rightarrow> c\<lparr>sp_state := LP_Ready (update_first (\<lambda>r. row_key r = key) f rows)\<rparr> | _ \<Rightarrow> c)"

definition shown_value :: "settings_page \<Rightarrow> ustr \<Rightarrow> setting_value option" where
  "shown_value c key =
     (case page_row c key of
        None \<Rightarrow> None
      | Some r \<Rightarrow>
          if key \<noteq> KEY_STREAMING_MODE \<or> lr_user_set r then Some (lr_value r)
          else Some (SG_Choice (case mi_mode (effective_mode None (sp_streams c)) of Streaming \<Rightarrow> lit ''streaming'' | Batch \<Rightarrow> lit ''batch'')))"

definition emit_shown :: "ustr \<Rightarrow> bool \<Rightarrow> settings_page \<Rightarrow> settings_event list" where
  "emit_shown key pending c = (case shown_value c key of Some v \<Rightarrow> [EP_RowChanged key v pending] | None \<Rightarrow> [])"

definition set_user_set :: "ustr \<Rightarrow> bool \<Rightarrow> settings_page \<Rightarrow> settings_page" where
  "set_user_set key b = map_row key (\<lambda>r. r\<lparr>lr_user_set := b\<rparr>)"

definition update_row :: "ustr \<Rightarrow> setting_value \<Rightarrow> bool \<Rightarrow> settings_page \<Rightarrow> settings_page \<times> settings_event list" where
  "update_row key v pending c =
     (let c = map_row key (\<lambda>r. r\<lparr>lr_value := v, lr_pending := pending\<rparr>) c in (c, emit_shown key pending c))"

definition user_set_in_store :: "settings_error + bool \<Rightarrow> bool" where
  "user_set_in_store answer = (case answer of Inr b \<Rightarrow> b | Inl _ \<Rightarrow> True)"

definition load_page :: "settings_error + setting_metadata list \<Rightarrow> (ustr \<Rightarrow> settings_error + bool) \<Rightarrow> settings_error option \<Rightarrow> settings_page" where
  "load_page listed stored subscribed =
     \<lparr>sp_state =
        (case listed of
           Inl e \<Rightarrow> LP_Error (show_settings_error e)
         | Inr rows \<Rightarrow>
             if rows = [] then LP_Empty
             else case subscribed of
               Some e \<Rightarrow> LP_Error (show_settings_error e)
             | None \<Rightarrow> LP_Ready (map (\<lambda>m. \<lparr>lr_metadata = m, lr_value = sm_current m, lr_pending = False,
                                            lr_user_set = user_set_in_store (stored (sm_key m))\<rparr>)
                          (sort_key (\<lambda>m. display_rank (sm_key m)) rows))),
      sp_gates = Map.empty, sp_observed = Map.empty, sp_expected = Map.empty, sp_streams = None\<rparr>"

definition set_backend_streams :: "bool option \<Rightarrow> settings_page \<Rightarrow> settings_page \<times> settings_event list" where
  "set_backend_streams streams c =
     (if sp_streams c = streams then (c, [])
      else let c = c\<lparr>sp_streams := streams\<rparr> in
        (c, case page_row c KEY_STREAMING_MODE of Some r \<Rightarrow> emit_shown KEY_STREAMING_MODE (lr_pending r) c | None \<Rightarrow> []))"

definition next_revision :: "ustr \<Rightarrow> settings_page \<Rightarrow> u64 \<times> settings_page" where
  "next_revision key c =
     (let initial = (case page_row c key of Some r \<Rightarrow> lr_value r | None \<Rightarrow> SG_Text []);
          gate = the_default \<lparr>gt_revision = 0, gt_persisted = initial\<rparr> (sp_gates c key);
          gate = gate\<lparr>gt_revision := gt_revision gate + 1\<rparr>
      in (gt_revision gate, c\<lparr>sp_gates := (sp_gates c)(key \<mapsto> gate)\<rparr>))"

definition revision_of :: "settings_page \<Rightarrow> ustr \<Rightarrow> u64" where
  "revision_of c key = (case sp_gates c key of Some g \<Rightarrow> gt_revision g | None \<Rightarrow> 0)"

definition set_persisted :: "ustr \<Rightarrow> setting_value \<Rightarrow> settings_page \<Rightarrow> settings_page" where
  "set_persisted key v c =
     (case sp_gates c key of Some g \<Rightarrow> c\<lparr>sp_gates := (sp_gates c)(key \<mapsto> g\<lparr>gt_persisted := v\<rparr>)\<rparr> | None \<Rightarrow> c)"

definition page_set :: "ustr \<Rightarrow> setting_value \<Rightarrow> settings_page \<Rightarrow> (settings_error + persistence_request) \<times> settings_page \<times> settings_event list" where
  "page_set key v c =
     (case page_row c key of
        None \<Rightarrow> (Inl (XG_UnknownKey key), c, [])
      | Some r \<Rightarrow>
          if \<not> sm_writable (lr_metadata r) then (Inl (XG_NotWritable key), c, [])
          else
            let (revision, c) = next_revision key c;
                (c, events) = update_row key v True (set_user_set key True c)
            in (Inr \<lparr>pq_key = key, pq_revision = revision, pq_original = lr_value r, pq_requested = v\<rparr>, c, events))"

definition expect_echo :: "persistence_request \<Rightarrow> setting_value \<Rightarrow> settings_page \<Rightarrow> settings_page" where
  "expect_echo q v c =
     (let key = pq_key q;
          newer = revision_of c key \<noteq> pq_revision q \<and> (case page_row c key of Some r \<Rightarrow> lr_pending r | None \<Rightarrow> False)
      in if revision_of c key = pq_revision q \<or> newer
         then (let seen = sp_observed c key; c = c\<lparr>sp_observed := (sp_observed c)(key := None)\<rparr> in
               if seen \<noteq> Some (pq_revision q)
               then c\<lparr>sp_expected := (sp_expected c)(key \<mapsto> the_default [] (sp_expected c key) @ [v])\<rparr> else c)
         else c)"

definition rollback_value :: "persistence_request \<Rightarrow> settings_page \<Rightarrow> setting_value" where
  "rollback_value q c = (case sp_gates c (pq_key q) of Some g \<Rightarrow> gt_persisted g | None \<Rightarrow> pq_original q)"

definition page_complete :: "persistence_request \<Rightarrow> settings_error + completion \<Rightarrow> settings_error + bool \<Rightarrow> settings_page \<Rightarrow> settings_page \<times> settings_event list" where
  "page_complete q result answer c =
     (let key = pq_key q; c = (case result of Inr (PC_Written v) \<Rightarrow> expect_echo q v c | _ \<Rightarrow> c) in
      if revision_of c key \<noteq> pq_revision q then (c, [])
      else case result of
        Inr (PC_Written v) \<Rightarrow> update_row key v False c
      | Inr PC_Superseded \<Rightarrow> (c, [])
      | Inl e \<Rightarrow>
          (let (c, events) = update_row key (rollback_value q c) False (set_user_set key (user_set_in_store answer) c)
           in (c, events @ [EP_SaveFailed key (show_settings_error e)])))"

definition consume_expected_echo :: "ustr \<Rightarrow> setting_value \<Rightarrow> settings_page \<Rightarrow> bool \<times> settings_page" where
  "consume_expected_echo key v c =
     (case sp_expected c key of
        None \<Rightarrow> (False, c)
      | Some vs \<Rightarrow>
          if v \<notin> set vs then (False, c)
          else (True, c\<lparr>sp_expected := (sp_expected c)(key := (if remove1 v vs = [] then None else Some (remove1 v vs)))\<rparr>))"

definition apply_external :: "ustr \<Rightarrow> setting_value \<Rightarrow> settings_error + bool \<Rightarrow> settings_page \<Rightarrow> settings_page \<times> settings_event list" where
  "apply_external key v answer c =
     (let (echo, c) = consume_expected_echo key v c in
      if echo then (c, [])
      else case page_row c key of
        None \<Rightarrow> (c, [])
      | Some r \<Rightarrow>
          if lr_pending r \<and> lr_value r = v then (c\<lparr>sp_observed := (sp_observed c)(key \<mapsto> revision_of c key)\<rparr>, [])
          else update_row key v False (set_user_set key (user_set_in_store answer) (set_persisted key v (snd (next_revision key c)))))"

section \<open>The page, its writer and the store\<close>

text \<open>\<open>WT_Writing\<close>: the revision was right and the write goes on; \<open>WT_Written\<close>: it succeeded and is not noted yet.\<close>

datatype writer_stage = WT_Waiting | WT_Writing persistence_request | WT_Written persistence_request

record page_world =
  nw_page :: settings_page
  nw_queue :: "persistence_request list"
  nw_stage :: writer_stage
  nw_done :: "(persistence_request \<times> (settings_error + completion)) list"
  nw_store :: "ustr \<Rightarrow> setting_value"

text \<open>
  The inputs: a change on the page, whose request the writer's queue accepts or not; the writer
  taking the next request, the store's answer to its write, its note; the delivery of a
  finished request; a change the store announces; another process writing the store; and what
  the backend streams. \<open>opened\<close> is the error of a writer whose store did not open.
\<close>

datatype page_input =
    PI_Set ustr setting_value bool
  | PI_Take
  | PI_Write "settings_error option"
  | PI_Note
  | PI_Complete nat "settings_error + bool"
  | PI_Changed ustr setting_value "settings_error + bool"
  | PI_Other ustr setting_value
  | PI_Streams "bool option"

definition QUEUE_UNAVAILABLE :: settings_error where
  "QUEUE_UNAVAILABLE = XG_StoreUnavailable (lit ''the settings persistence queue is unavailable'')"

definition finish_request :: "persistence_request \<Rightarrow> settings_error + completion \<Rightarrow> page_world \<Rightarrow> page_world" where
  "finish_request q result w = w\<lparr>nw_done := nw_done w @ [(q, result)]\<rparr>"

fun page_step :: "settings_error option \<Rightarrow> page_world \<Rightarrow> page_input \<Rightarrow> page_world \<times> settings_event list" where
  "page_step opened w (PI_Set key v accepted) =
     (case page_set key v (nw_page w) of
        (Inl _, c, events) \<Rightarrow> (w\<lparr>nw_page := c\<rparr>, events)
      | (Inr q, c, events) \<Rightarrow>
          (if accepted then w\<lparr>nw_page := c, nw_queue := nw_queue w @ [q]\<rparr>
           else finish_request q (Inl QUEUE_UNAVAILABLE) (w\<lparr>nw_page := c\<rparr>), events))"
| "page_step opened w PI_Take =
     (case (nw_stage w, nw_queue w) of
        (WT_Waiting, q # rest) \<Rightarrow>
          (let w = w\<lparr>nw_queue := rest\<rparr> in
           (case opened of
              Some e \<Rightarrow> finish_request q (Inl e) w
            | None \<Rightarrow> if revision_of (nw_page w) (pq_key q) \<noteq> pq_revision q then finish_request q (Inr PC_Superseded) w
                      else w\<lparr>nw_stage := WT_Writing q\<rparr>), [])
      | _ \<Rightarrow> (w, []))"
| "page_step opened w (PI_Write answer) =
     (case nw_stage w of
        WT_Writing q \<Rightarrow>
          (case answer of
             Some e \<Rightarrow> finish_request q (Inl e) (w\<lparr>nw_stage := WT_Waiting\<rparr>)
           | None \<Rightarrow> w\<lparr>nw_stage := WT_Written q, nw_store := (nw_store w)(pq_key q := pq_requested q)\<rparr>, [])
      | _ \<Rightarrow> (w, []))"
| "page_step opened w PI_Note =
     (case nw_stage w of
        WT_Written q \<Rightarrow>
          (finish_request q (Inr (PC_Written (pq_requested q)))
             (w\<lparr>nw_stage := WT_Waiting, nw_page := set_persisted (pq_key q) (pq_requested q) (nw_page w)\<rparr>), [])
      | _ \<Rightarrow> (w, []))"
| "page_step opened w (PI_Complete n answer) =
     (if n < length (nw_done w)
      then (let (q, result) = nw_done w ! n; (c, events) = page_complete q result answer (nw_page w)
            in (w\<lparr>nw_page := c, nw_done := take n (nw_done w) @ drop (Suc n) (nw_done w)\<rparr>, events))
      else (w, []))"
| "page_step opened w (PI_Changed key v answer) =
     (let (c, events) = apply_external key v answer (nw_page w) in (w\<lparr>nw_page := c\<rparr>, events))"
| "page_step opened w (PI_Other key v) = (w\<lparr>nw_store := (nw_store w)(key := v)\<rparr>, [])"
| "page_step opened w (PI_Streams streams) =
     (let (c, events) = set_backend_streams streams (nw_page w) in (w\<lparr>nw_page := c\<rparr>, events))"

definition stage_requests :: "writer_stage \<Rightarrow> persistence_request list" where
  "stage_requests st = (case st of WT_Waiting \<Rightarrow> [] | WT_Writing q \<Rightarrow> [q] | WT_Written q \<Rightarrow> [q])"

definition outstanding :: "page_world \<Rightarrow> persistence_request list" where
  "outstanding w = nw_queue w @ stage_requests (nw_stage w) @ map fst (nw_done w)"

text \<open>The page as it opens on a store that holds what was listed.\<close>

definition opened_page :: "settings_error + setting_metadata list \<Rightarrow> (ustr \<Rightarrow> settings_error + bool) \<Rightarrow> settings_error option \<Rightarrow> page_world" where
  "opened_page listed stored subscribed =
     (let page = load_page listed stored subscribed in
      \<lparr>nw_page = page, nw_queue = [], nw_stage = WT_Waiting, nw_done = [],
       nw_store = (\<lambda>key. case page_row page key of Some r \<Rightarrow> lr_value r | None \<Rightarrow> SG_Text [])\<rparr>)"

section \<open>What the operations leave\<close>

lemma find_update_first:
  assumes "\<And>r. row_key (f r) = row_key r"
  shows "find (\<lambda>r. row_key r = k) (update_first (\<lambda>r. row_key r = key) f rows)
    = (if k = key then map_option f (find (\<lambda>r. row_key r = key) rows) else find (\<lambda>r. row_key r = k) rows)"
  by (induction rows) (auto simp: assms)

lemma page_row_map_row:
  assumes "\<And>r. row_key (f r) = row_key r"
  shows "page_row (map_row key f c) k = (if k = key then map_option f (page_row c key) else page_row c k)"
  using find_update_first [OF assms] by (simp add: page_row_def map_row_def split: page_state.splits)

lemma page_row_state [simp]:
  "page_row (c\<lparr>sp_gates := g\<rparr>) k = page_row c k" "page_row (c\<lparr>sp_observed := ob\<rparr>) k = page_row c k"
  "page_row (c\<lparr>sp_expected := ex\<rparr>) k = page_row c k" "page_row (c\<lparr>sp_streams := st\<rparr>) k = page_row c k"
  by (simp_all add: page_row_def)

lemma map_row_gates [simp]: "sp_gates (map_row key f c) = sp_gates c"
  by (simp add: map_row_def split: page_state.splits)

lemma page_row_updates:
  "page_row (fst (update_row key v p c)) k
     = (if k = key then map_option (\<lambda>r. r\<lparr>lr_value := v, lr_pending := p\<rparr>) (page_row c key) else page_row c k)"
  "page_row (set_user_set key b c) k = (if k = key then map_option (\<lambda>r. r\<lparr>lr_user_set := b\<rparr>) (page_row c key) else page_row c k)"
  "page_row (set_persisted key v c) k = page_row c k"
  "page_row (snd (next_revision key c)) k = page_row c k"
  "page_row (expect_echo q v c) k = page_row c k"
  "page_row (snd (consume_expected_echo key v c)) k = page_row c k"
  by (simp_all add: update_row_def set_user_set_def set_persisted_def next_revision_def expect_echo_def consume_expected_echo_def
      Let_def page_row_map_row row_key_def split: option.splits)

lemma gates_kept [simp]:
  "sp_gates (fst (update_row key v p c)) = sp_gates c" "sp_gates (set_user_set key b c) = sp_gates c"
  "sp_gates (expect_echo q v c) = sp_gates c" "sp_gates (snd (consume_expected_echo key v c)) = sp_gates c"
  by (simp_all add: update_row_def set_user_set_def expect_echo_def consume_expected_echo_def Let_def split: option.splits)

lemma revision_kept [simp]:
  "revision_of (fst (update_row key v p c)) k = revision_of c k" "revision_of (set_user_set key b c) k = revision_of c k"
  "revision_of (expect_echo q v c) k = revision_of c k" "revision_of (set_persisted key v c) k = revision_of c k"
  "revision_of (snd (consume_expected_echo key v c)) k = revision_of c k"
  by (simp_all add: revision_of_def set_persisted_def split: option.splits)

lemma revision_next:
  "revision_of (snd (next_revision key c)) k = (if k = key then revision_of c key + 1 else revision_of c k)"
  "fst (next_revision key c) = revision_of c key + 1"
  by (auto simp: next_revision_def revision_of_def Let_def split: option.splits)

lemma gates_next:
  "sp_gates (snd (next_revision key c)) k =
     (if k = key then Some (case sp_gates c key of
          Some g \<Rightarrow> g\<lparr>gt_revision := gt_revision g + 1\<rparr>
        | None \<Rightarrow> \<lparr>gt_revision = 1, gt_persisted = (case page_row c key of Some r \<Rightarrow> lr_value r | None \<Rightarrow> SG_Text [])\<rparr>)
      else sp_gates c k)"
  by (simp add: next_revision_def Let_def split: option.splits)

lemma gates_persisted:
  "sp_gates (set_persisted key v c) k = (if k = key then map_option (\<lambda>g. g\<lparr>gt_persisted := v\<rparr>) (sp_gates c key) else sp_gates c k)"
  by (simp add: set_persisted_def split: option.splits)

text \<open>A change on the page: refused without effect, or a request of the next revision and a row that shows it.\<close>

lemma page_set_cases:
  assumes "page_set key v c = (res, c', events)"
  obtains (refused) e where "res = Inl e" "c' = c"
  | (asked) r q where "page_row c key = Some r" "res = Inr q" "pq_key q = key" "pq_revision q = revision_of c key + 1" "pq_requested q = v"
      "\<And>k. page_row c' k = (if k = key then Some (r\<lparr>lr_value := v, lr_pending := True, lr_user_set := True\<rparr>) else page_row c k)"
      "\<And>k. revision_of c' k = (if k = key then revision_of c key + 1 else revision_of c k)"
      "sp_gates c' = sp_gates (snd (next_revision key c))"
proof (cases "page_row c key")
  case None
  with assms refused show thesis by (auto simp: page_set_def)
next
  case (Some r)
  show thesis
  proof (cases "sm_writable (lr_metadata r)")
    case False
    with Some assms refused show thesis by (auto simp: page_set_def)
  next
    case True
    let ?c = "fst (update_row key v True (set_user_set key True (snd (next_revision key c))))"
    from True Some assms have c': "c' = ?c"
      and q: "res = Inr \<lparr>pq_key = key, pq_revision = revision_of c key + 1, pq_original = lr_value r, pq_requested = v\<rparr>"
      by (auto simp: page_set_def Let_def case_prod_beta revision_next)
    show thesis
      by (rule asked [OF Some q]) (simp_all add: c' page_row_updates revision_next Some)
  qed
qed

text \<open>The end of a request: it settles its row when no newer revision exists, and touches no other.\<close>

lemma page_complete_gates: "sp_gates (fst (page_complete q result answer c)) = sp_gates c"
  by (simp add: page_complete_def Let_def case_prod_beta split: sum.splits completion.splits)

lemma page_complete_revision: "revision_of (fst (page_complete q result answer c)) k = revision_of c k"
  by (simp add: revision_of_def page_complete_gates)

lemma page_complete_row:
  "page_row (fst (page_complete q result answer c)) k =
     (if k = pq_key q \<and> revision_of c k = pq_revision q \<and> result \<noteq> Inr PC_Superseded
      then map_option (\<lambda>r. r\<lparr>lr_value := (case result of Inr (PC_Written v) \<Rightarrow> v | _ \<Rightarrow> rollback_value q c), lr_pending := False,
             lr_user_set := (case result of Inl _ \<Rightarrow> user_set_in_store answer | _ \<Rightarrow> lr_user_set r)\<rparr>) (page_row c k)
      else page_row c k)"
proof -
  have roll: "rollback_value q (set_user_set key b c) = rollback_value q c" for key b by (simp add: rollback_value_def)
  show ?thesis
    by (simp add: page_complete_def Let_def case_prod_beta page_row_updates option.map_comp comp_def roll split: sum.splits completion.splits)
      (cases "page_row c (pq_key q)"; simp)+
qed

text \<open>An announced change: an echo, the row's own pending value, or a new value under a new revision.\<close>

lemma apply_external_cases:
  obtains (same) "\<And>k. page_row (fst (apply_external key v answer c)) k = page_row c k" "sp_gates (fst (apply_external key v answer c)) = sp_gates c"
  | (shown) r b where "page_row c key = Some r"
      "\<And>k. page_row (fst (apply_external key v answer c)) k
          = (if k = key then Some (r\<lparr>lr_value := v, lr_pending := False, lr_user_set := b\<rparr>) else page_row c k)"
      "\<And>k. revision_of (fst (apply_external key v answer c)) k = (if k = key then revision_of c key + 1 else revision_of c k)"
proof -
  obtain echo c1 where ce: "consume_expected_echo key v c = (echo, c1)" by (rule prod.exhaust)
  then have c1: "\<And>k. page_row c1 k = page_row c k" "sp_gates c1 = sp_gates c" "\<And>k. revision_of c1 k = revision_of c k"
    using page_row_updates(6) [of key v c] gates_kept(4) [of key v c] revision_kept(5) [of key v c] by simp_all
  show thesis
  proof (cases "echo \<or> (case page_row c key of None \<Rightarrow> True | Some r \<Rightarrow> lr_pending r \<and> lr_value r = v)")
    case True
    then show thesis
      by (intro same) (auto simp: apply_external_def ce c1 split: option.splits)
  next
    case False
    then obtain r where r: "page_row c key = Some r" by (auto split: option.splits)
    with False have eq: "fst (apply_external key v answer c)
        = fst (update_row key v False (set_user_set key (user_set_in_store answer) (set_persisted key v (snd (next_revision key c1)))))"
      by (auto simp: apply_external_def ce c1)
    show thesis
      by (rule shown [OF r, of "user_set_in_store answer"]) (simp_all add: eq page_row_updates revision_next c1 r)
  qed
qed

lemma streams_kept: "page_row (fst (set_backend_streams st c)) k = page_row c k" "sp_gates (fst (set_backend_streams st c)) = sp_gates c"
  by (simp_all add: set_backend_streams_def Let_def)

section \<open>No row is left saving\<close>

definition bounded :: "nat \<Rightarrow> settings_page \<Rightarrow> persistence_request list \<Rightarrow> bool" where
  "bounded n c out \<longleftrightarrow> (\<forall>key. unat (revision_of c key) \<le> n) \<and> (\<forall>q \<in> set out. unat (pq_revision q) \<le> unat (revision_of c (pq_key q)))"

definition overtaken :: "settings_page \<Rightarrow> (persistence_request \<times> (settings_error + completion)) list \<Rightarrow> bool" where
  "overtaken c fin \<longleftrightarrow> (\<forall>(q, result) \<in> set fin. result = Inr PC_Superseded \<longrightarrow> pq_revision q \<noteq> revision_of c (pq_key q))"

definition justified :: "settings_page \<Rightarrow> persistence_request list \<Rightarrow> bool" where
  "justified c out \<longleftrightarrow>
     (\<forall>key r. page_row c key = Some r \<and> lr_pending r
        \<longrightarrow> (\<exists>q \<in> set out. pq_key q = key \<and> pq_revision q = revision_of c key \<and> pq_requested q = lr_value r))"

definition saving_inv :: "nat \<Rightarrow> page_world \<Rightarrow> bool" where
  "saving_inv n w \<longleftrightarrow> bounded n (nw_page w) (outstanding w) \<and> overtaken (nw_page w) (nw_done w) \<and> justified (nw_page w) (outstanding w)"

lemma outstanding_done: "(q, result) \<in> set (nw_done w) \<Longrightarrow> q \<in> set (outstanding w)"
  by (force simp: outstanding_def)

lemma unat_next: "unat (x :: u64) \<le> n \<Longrightarrow> Suc n < 2 ^ 64 \<Longrightarrow> unat (x + 1) = Suc (unat x)"
  by (simp add: unat_word_ariths)

lemma revision_bumped:
  assumes "bounded n c out" and "overtaken c fin" and "Suc n < 2 ^ 64" and "set (map fst fin) \<subseteq> set out"
    and "\<And>k. revision_of c' k = (if k = key then revision_of c key + 1 else revision_of c k)"
  shows "bounded (Suc n) c' out" "overtaken c' fin" "\<forall>q \<in> set out. pq_key q = key \<longrightarrow> pq_revision q \<noteq> revision_of c' key"
proof -
  have le: "unat (revision_of c k) \<le> n" for k using assms(1) by (simp add: bounded_def)
  have grown: "unat (revision_of c' k) = (if k = key then Suc (unat (revision_of c key)) else unat (revision_of c k))" for k
    using assms(5) unat_next [OF le assms(3)] by simp
  then have up: "unat (revision_of c k) \<le> unat (revision_of c' k)" for k by simp
  have out: "unat (pq_revision q) \<le> unat (revision_of c (pq_key q))" if "q \<in> set out" for q
    using assms(1) that by (simp add: bounded_def)
  show "bounded (Suc n) c' out"
    unfolding bounded_def using le grown up out by (auto simp: le_SucI intro: order_trans)
  show ne: "\<forall>q \<in> set out. pq_key q = key \<longrightarrow> pq_revision q \<noteq> revision_of c' key"
    using out grown by fastforce
  show "overtaken c' fin"
    unfolding overtaken_def
  proof (clarify)
    fix q
    assume fin: "(q, Inr PC_Superseded) \<in> set fin" and eq: "pq_revision q = revision_of c' (pq_key q)"
    from fin assms(4) have "q \<in> set out" by force
    with ne eq have "pq_key q \<noteq> key" by auto
    with eq assms(5) have "pq_revision q = revision_of c (pq_key q)" by simp
    with fin assms(2) show False by (fastforce simp: overtaken_def)
  qed
qed

lemma bounded_more: "bounded n c out \<Longrightarrow> bounded (Suc n) c out"
  by (auto simp: bounded_def le_SucI)

text \<open>Only the rows, the revisions and what is under way matter.\<close>

lemma saving_inv_same:
  assumes "saving_inv n w" and "\<And>k. page_row (nw_page w') k = page_row (nw_page w) k"
    and "\<And>k. revision_of (nw_page w') k = revision_of (nw_page w) k"
    and "set (outstanding w') = set (outstanding w)"
    and "\<And>q. (q, Inr PC_Superseded) \<in> set (nw_done w') \<Longrightarrow> (q, Inr PC_Superseded) \<in> set (nw_done w) \<or> pq_revision q \<noteq> revision_of (nw_page w) (pq_key q)"
  shows "saving_inv (Suc n) w'"
proof -
  have "overtaken (nw_page w') (nw_done w')"
    using assms(1,5) unfolding saving_inv_def overtaken_def assms(3) by fastforce
  moreover have "bounded (Suc n) (nw_page w') (outstanding w')"
    using assms(1) bounded_more unfolding saving_inv_def bounded_def assms(3,4) by (auto simp: le_SucI)
  ultimately show ?thesis using assms(1) unfolding saving_inv_def justified_def assms(2,3,4) by blast
qed

lemma saving_step:
  assumes inv: "saving_inv n w" and n: "Suc n < 2 ^ 64"
  shows "saving_inv (Suc n) (fst (page_step opened w i))"
proof -
  let ?c = "nw_page w"
  have stay: "saving_inv (Suc n) w" by (rule saving_inv_same [OF inv]) simp_all
  have b: "bounded n ?c (outstanding w)" and o: "overtaken ?c (nw_done w)" and j: "justified ?c (outstanding w)"
    using inv by (simp_all add: saving_inv_def)
  have sub: "set (map fst (nw_done w)) \<subseteq> set (outstanding w)" by (auto simp: outstanding_def)
  show ?thesis
  proof (cases i)
    case (PI_Set key v accepted)
    obtain res c' events where set_eq: "page_set key v ?c = (res, c', events)" by (metis prod.exhaust)
    then show ?thesis
    proof (cases rule: page_set_cases)
      case (refused e)
      with set_eq PI_Set stay show ?thesis by simp
    next
      case (asked r q)
      let ?w = "fst (page_step opened w i)"
      have out: "set (outstanding ?w) = insert q (set (outstanding w))" and page: "nw_page ?w = c'"
        and fin: "\<And>q. (q, Inr PC_Superseded) \<in> set (nw_done ?w) \<Longrightarrow> (q, Inr PC_Superseded) \<in> set (nw_done w)"
        using set_eq asked(2) PI_Set by (auto simp: finish_request_def outstanding_def split: if_splits)
      note up = revision_bumped [OF b o n sub asked(7)]
      have "bounded (Suc n) c' (outstanding ?w)"
        using up(1) asked(3,4,7) unfolding bounded_def out by simp
      moreover have "overtaken c' (nw_done ?w)"
        using up(2) fin unfolding overtaken_def by fastforce
      moreover have "justified c' (outstanding ?w)"
        using j asked(3,4,5,6,7) unfolding justified_def out by (auto split: if_splits)
      ultimately show ?thesis by (simp add: saving_inv_def page)
    qed
  next
    case PI_Take
    show ?thesis
    proof (cases "nw_stage w = WT_Waiting \<and> nw_queue w \<noteq> []")
      case True
      then obtain q rest where "nw_queue w = q # rest" by (cases "nw_queue w") auto
      with True PI_Take show ?thesis
        by (intro saving_inv_same [OF inv]) (auto simp: Let_def finish_request_def outstanding_def stage_requests_def split: option.splits if_splits)
    next
      case False
      with PI_Take stay show ?thesis by (cases "nw_stage w"; cases "nw_queue w"; simp)
    qed
  next
    case (PI_Write answer)
    then show ?thesis
      using stay
      by (cases "nw_stage w"; cases answer; simp)
        (rule saving_inv_same [OF inv], auto simp: finish_request_def outstanding_def stage_requests_def)+
  next
    case PI_Note
    then show ?thesis
      using stay
      by (cases "nw_stage w"; simp)
        (rule saving_inv_same [OF inv], auto simp: finish_request_def outstanding_def stage_requests_def page_row_updates)+
  next
    case (PI_Complete m answer)
    show ?thesis
    proof (cases "m < length (nw_done w)")
      case False
      with PI_Complete stay show ?thesis by simp
    next
      case True
      obtain q result where at: "nw_done w ! m = (q, result)" by (metis prod.exhaust)
      then have mem: "(q, result) \<in> set (nw_done w)" using True by (metis nth_mem)
      let ?w = "fst (page_step opened w i)" and ?c' = "fst (page_complete q result answer ?c)"
      have page: "nw_page ?w = ?c'" and fin: "nw_done ?w = take m (nw_done w) @ drop (Suc m) (nw_done w)"
        and rest: "nw_queue ?w = nw_queue w" "nw_stage ?w = nw_stage w"
        using PI_Complete True at by (simp_all add: case_prod_beta)
      have split: "nw_done w = take m (nw_done w) @ (q, result) # drop (Suc m) (nw_done w)" using True at by (metis id_take_nth_drop)
      have out: "set (outstanding w) = insert q (set (outstanding ?w))"
        unfolding outstanding_def rest fin by (subst split) auto
      have done': "set (nw_done ?w) \<subseteq> set (nw_done w)" unfolding fin by (auto dest: in_set_takeD in_set_dropD)
      have "bounded (Suc n) ?c' (outstanding ?w)"
        using bounded_more [OF b] unfolding bounded_def page_complete_revision out by simp
      moreover have "overtaken ?c' (nw_done ?w)"
        using o done' unfolding overtaken_def page_complete_revision by blast
      moreover have "justified ?c' (outstanding ?w)"
        unfolding justified_def
      proof (intro allI impI)
        fix key r
        assume asm: "page_row ?c' key = Some r \<and> lr_pending r"
        have sup: "result = Inr PC_Superseded \<Longrightarrow> revision_of ?c (pq_key q) \<noteq> pq_revision q"
          using o mem by (auto simp: overtaken_def)
        from asm have ne: "\<not> (key = pq_key q \<and> revision_of ?c key = pq_revision q)" and row: "page_row ?c key = Some r"
          using sup by (auto simp: page_complete_row split: if_splits)
        from j row asm obtain q' where q': "q' \<in> set (outstanding w)" "pq_key q' = key" "pq_revision q' = revision_of ?c key" "pq_requested q' = lr_value r"
          unfolding justified_def by blast
        with ne have "q' \<noteq> q" by auto
        with q' out show "\<exists>q \<in> set (outstanding ?w). pq_key q = key \<and> pq_revision q = revision_of ?c' key \<and> pq_requested q = lr_value r"
          by (auto simp: page_complete_revision)
      qed
      ultimately show ?thesis by (simp add: saving_inv_def page)
    qed
  next
    case (PI_Changed key v answer)
    let ?w = "fst (page_step opened w i)" and ?c' = "fst (apply_external key v answer ?c)"
    have w: "?w = w\<lparr>nw_page := ?c'\<rparr>" using PI_Changed by (simp add: case_prod_beta)
    then have out: "outstanding ?w = outstanding w" by (simp add: outstanding_def)
    show ?thesis
    proof (cases rule: apply_external_cases [of key v answer ?c])
      case same
      then show ?thesis by (intro saving_inv_same [OF inv]) (simp_all add: w revision_of_def outstanding_def)
    next
      case (shown r user)
      note up = revision_bumped [OF b o n sub shown(3)]
      have "justified ?c' (outstanding w)"
        using j shown(2,3) unfolding justified_def by (auto split: if_splits)
      with up(1,2) show ?thesis unfolding saving_inv_def out by (simp add: w)
    qed
  next
    case (PI_Other key v)
    then show ?thesis by (intro saving_inv_same [OF inv]) (simp_all add: outstanding_def)
  next
    case (PI_Streams st)
    then show ?thesis
      by (intro saving_inv_same [OF inv]) (simp_all add: case_prod_beta streams_kept revision_of_def outstanding_def)
  qed
qed

lemma saving_run: "saving_inv n w \<Longrightarrow> n + length is < 2 ^ 64 \<Longrightarrow> saving_inv (n + length is) (fst (run_machine (page_step opened) w is))"
proof (induction "is" arbitrary: n w)
  case Nil
  then show ?case by simp
next
  case (Cons i "is")
  then show ?case using saving_step [of n w opened i] Cons.IH [of "Suc n"] by simp
qed

lemma load_page_rows: "page_row (load_page listed stored subscribed) key = Some r \<Longrightarrow> \<not> lr_pending r"
  by (auto simp: load_page_def page_row_def find_Some_iff split: sum.splits if_splits option.splits)

lemma load_page_gates: "sp_gates (load_page listed stored subscribed) = Map.empty"
  by (simp add: load_page_def)

lemma saving_opened: "saving_inv 0 (opened_page listed stored subscribed)"
  using load_page_rows
  by (fastforce simp: saving_inv_def bounded_def overtaken_def justified_def opened_page_def Let_def outstanding_def stage_requests_def
      revision_of_def load_page_gates)

text \<open>C21: No row of the settings page is left saving for ever: whatever is changed on the page and by
  others, however the writer's work, the deliveries and the store's announcements interleave and
  whichever writes fail, a row that shows a change as being saved shows the value of a request of
  its own newest revision that is still under way; so when nothing is under way none does.\<close>

theorem no_row_left_saving:
  assumes "length inputs < 2 ^ 64"
  shows "let w = fst (run_machine (page_step opened) (opened_page listed stored subscribed) inputs) in
    case page_row (nw_page w) key of
      None \<Rightarrow> True
    | Some r \<Rightarrow>
        if lr_pending r
        then \<exists>q. q \<in> set (outstanding w) \<and> pq_key q = key \<and> pq_revision q = revision_of (nw_page w) key \<and> pq_requested q = lr_value r
        else True"
proof -
  have "saving_inv (length inputs) (fst (run_machine (page_step opened) (opened_page listed stored subscribed) inputs))"
    using saving_run [OF saving_opened, of inputs] assms by simp
  then show ?thesis unfolding saving_inv_def justified_def Let_def by (auto split: option.splits)
qed

section \<open>The page settles on what the store holds\<close>

definition request_id :: "persistence_request \<Rightarrow> ustr \<times> u64" where
  "request_id q = (pq_key q, pq_revision q)"

definition current :: "page_world \<Rightarrow> persistence_request \<Rightarrow> bool" where
  "current w q \<longleftrightarrow> pq_revision q = revision_of (nw_page w) (pq_key q)"

text \<open>The requests the writer has not finished, and the key whose write is not noted yet.\<close>

definition unfinished :: "page_world \<Rightarrow> persistence_request list" where
  "unfinished w = nw_queue w @ stage_requests (nw_stage w)"

definition unnoted :: "page_world \<Rightarrow> ustr option" where
  "unnoted w = (case nw_stage w of WT_Written q \<Rightarrow> Some (pq_key q) | _ \<Rightarrow> None)"

definition settle_inv :: "page_world \<Rightarrow> bool" where
  "settle_inv w \<longleftrightarrow>
     distinct (map request_id (unfinished w @ map fst (nw_done w)))
     \<and> (\<forall>q \<in> set (outstanding w). current w q \<longrightarrow> (\<exists>r. page_row (nw_page w) (pq_key q) = Some r \<and> lr_pending r))
     \<and> (\<forall>q \<in> set (outstanding w). sp_gates (nw_page w) (pq_key q) \<noteq> None)
     \<and> (\<forall>q \<in> set (stage_requests (nw_stage w)). \<exists>q' \<in> set (unfinished w). pq_key q' = pq_key q \<and> current w q')
     \<and> (\<forall>key g. sp_gates (nw_page w) key = Some g \<and> unnoted w \<noteq> Some key \<longrightarrow> gt_persisted g = nw_store w key)
     \<and> (\<forall>q. nw_stage w = WT_Written q \<longrightarrow> nw_store w (pq_key q) = pq_requested q)
     \<and> (\<forall>key r. page_row (nw_page w) key = Some r \<and> \<not> lr_pending r \<longrightarrow> lr_value r = nw_store w key)
     \<and> (\<forall>q v. (q, Inr (PC_Written v)) \<in> set (nw_done w) \<and> current w q \<longrightarrow> nw_store w (pq_key q) = v)"

lemma settle_invI:
  assumes "distinct (map request_id (unfinished w @ map fst (nw_done w)))"
    and "\<And>q. q \<in> set (outstanding w) \<Longrightarrow> current w q \<Longrightarrow> \<exists>r. page_row (nw_page w) (pq_key q) = Some r \<and> lr_pending r"
    and "\<And>q. q \<in> set (outstanding w) \<Longrightarrow> sp_gates (nw_page w) (pq_key q) \<noteq> None"
    and "\<And>q. q \<in> set (stage_requests (nw_stage w)) \<Longrightarrow> \<exists>q' \<in> set (unfinished w). pq_key q' = pq_key q \<and> current w q'"
    and "\<And>key g. sp_gates (nw_page w) key = Some g \<Longrightarrow> unnoted w \<noteq> Some key \<Longrightarrow> gt_persisted g = nw_store w key"
    and "\<And>q. nw_stage w = WT_Written q \<Longrightarrow> nw_store w (pq_key q) = pq_requested q"
    and "\<And>key r. page_row (nw_page w) key = Some r \<Longrightarrow> \<not> lr_pending r \<Longrightarrow> lr_value r = nw_store w key"
    and "\<And>q v. (q, Inr (PC_Written v)) \<in> set (nw_done w) \<Longrightarrow> current w q \<Longrightarrow> nw_store w (pq_key q) = v"
  shows "settle_inv w"
  using assms unfolding settle_inv_def by blast

lemma settle_invD:
  assumes "settle_inv w"
  shows "distinct (map request_id (unfinished w @ map fst (nw_done w)))"
    and "q \<in> set (outstanding w) \<Longrightarrow> current w q \<Longrightarrow> \<exists>r. page_row (nw_page w) (pq_key q) = Some r \<and> lr_pending r"
    and "q \<in> set (outstanding w) \<Longrightarrow> sp_gates (nw_page w) (pq_key q) \<noteq> None"
    and "q \<in> set (stage_requests (nw_stage w)) \<Longrightarrow> \<exists>q' \<in> set (unfinished w). pq_key q' = pq_key q \<and> current w q'"
    and "sp_gates (nw_page w) key = Some g \<Longrightarrow> unnoted w \<noteq> Some key \<Longrightarrow> gt_persisted g = nw_store w key"
    and "nw_stage w = WT_Written q \<Longrightarrow> nw_store w (pq_key q) = pq_requested q"
    and "page_row (nw_page w) key = Some r \<Longrightarrow> \<not> lr_pending r \<Longrightarrow> lr_value r = nw_store w key"
    and "(q, Inr (PC_Written v)) \<in> set (nw_done w) \<Longrightarrow> current w q \<Longrightarrow> nw_store w (pq_key q) = v"
  using assms unfolding settle_inv_def by blast+

lemma outstanding_parts: "set (outstanding w) = set (unfinished w) \<union> fst ` set (nw_done w)"
  by (auto simp: outstanding_def unfinished_def)

text \<open>Of one key, one request at most is of the newest revision.\<close>

lemma current_id: "current w q \<Longrightarrow> current w q' \<Longrightarrow> pq_key q = pq_key q' \<Longrightarrow> request_id q = request_id q'"
  by (simp add: current_def request_id_def)

lemma current_once:
  assumes "settle_inv w" and "q \<in> set (unfinished w)" and "(q', result) \<in> set (nw_done w)" and "pq_key q = pq_key q'" and "current w q"
  shows "\<not> current w q'"
proof
  assume "current w q'"
  then have "request_id q = request_id q'" by (rule current_id [OF assms(5) _ assms(4)])
  moreover have "request_id q \<in> set (map request_id (unfinished w))" using assms(2) by simp
  moreover have "request_id q' \<in> set (map request_id (map fst (nw_done w)))" using assms(3) by force
  moreover have "set (map request_id (unfinished w)) \<inter> set (map request_id (map fst (nw_done w))) = {}"
    using settle_invD(1) [OF assms(1)] by (simp only: map_append distinct_append)
  ultimately show False by (metis IntI empty_iff)
qed

text \<open>
  The inputs of a page that is the store's only writer, with a writer that lives: what the store
  announces are the page's own writes, and the page knows them for its own, because their echo is
  expected or the row is just saving that value.
\<close>

definition known_echo :: "settings_page \<Rightarrow> ustr \<Rightarrow> setting_value \<Rightarrow> bool" where
  "known_echo c key v \<longleftrightarrow>
     v \<in> set (the_default [] (sp_expected c key)) \<or> (case page_row c key of Some r \<Rightarrow> lr_pending r \<and> lr_value r = v | None \<Rightarrow> False)"

fun own_input :: "page_world \<Rightarrow> page_input \<Rightarrow> bool" where
  "own_input w (PI_Set _ _ accepted) = accepted"
| "own_input w (PI_Changed key v _) = known_echo (nw_page w) key v"
| "own_input w (PI_Other _ _) = False"
| "own_input w _ = True"

fun own_run :: "settings_error option \<Rightarrow> page_world \<Rightarrow> page_input list \<Rightarrow> bool" where
  "own_run opened w [] = True"
| "own_run opened w (i # is) = (own_input w i \<and> own_run opened (fst (page_step opened w i)) is)"

lemma known_echo_same:
  assumes "known_echo c key v"
  shows "page_row (fst (apply_external key v answer c)) k = page_row c k" and "sp_gates (fst (apply_external key v answer c)) = sp_gates c"
proof -
  obtain echo c1 where ce: "consume_expected_echo key v c = (echo, c1)" by (rule prod.exhaust)
  then have c1: "\<And>k. page_row c1 k = page_row c k" "sp_gates c1 = sp_gates c"
    using page_row_updates(6) [of key v c] gates_kept(4) [of key v c] by simp_all
  have "echo \<or> (case page_row c key of Some r \<Rightarrow> lr_pending r \<and> lr_value r = v | None \<Rightarrow> False)"
    using assms ce by (auto simp: known_echo_def consume_expected_echo_def split: option.splits if_splits)
  then show "page_row (fst (apply_external key v answer c)) k = page_row c k" "sp_gates (fst (apply_external key v answer c)) = sp_gates c"
    using c1 by (auto simp: apply_external_def ce page_row_def split: option.splits)
qed

lemma settle_set:
  assumes settle: "settle_inv w" and saving: "saving_inv n w" and n: "Suc n < 2 ^ 64"
  shows "settle_inv (fst (page_step opened w (PI_Set key v True)))"
proof -
  obtain res c' events where set_eq: "page_set key v (nw_page w) = (res, c', events)" by (metis prod.exhaust)
  then show ?thesis
  proof (cases rule: page_set_cases)
    case (refused e)
    with set_eq settle show ?thesis by simp
  next
    case (asked r q)
    let ?c = "nw_page w" and ?w = "w\<lparr>nw_page := c', nw_queue := nw_queue w @ [q]\<rparr>"
    have step: "fst (page_step opened w (PI_Set key v True)) = ?w" using set_eq asked(2) by simp
    have w: "nw_page ?w = c'" by simp
    have sub: "set (map fst (nw_done w)) \<subseteq> set (outstanding w)" by (auto simp: outstanding_def)
    from saving have b: "bounded n ?c (outstanding w)" and o: "overtaken ?c (nw_done w)" and j: "justified ?c (outstanding w)"
      by (simp_all add: saving_inv_def)
    note new = revision_bumped(3) [OF b o n sub asked(7)]
    have cur: "current ?w q' \<longleftrightarrow> (if q' = q then True else pq_key q' \<noteq> key \<and> current w q')" if "q' \<in> insert q (set (outstanding w))" for q'
      using that new asked(3,4,7) by (auto simp: current_def w)
    have out: "set (outstanding ?w) = insert q (set (outstanding w))" "unfinished ?w = nw_queue w @ q # stage_requests (nw_stage w)"
      by (auto simp: outstanding_def unfinished_def w)
    have gates: "k \<noteq> key \<Longrightarrow> sp_gates c' k = sp_gates ?c k" "sp_gates c' key \<noteq> None" for k
      by (simp_all add: asked(8) gates_next)
    note D = settle_invD [OF settle]
    show ?thesis
      unfolding step
    proof (rule settle_invI)
      have "request_id q \<notin> request_id ` set (outstanding w)"
        using new asked(3,4,7) by (fastforce simp: request_id_def)
      then show "distinct (map request_id (unfinished ?w @ map fst (nw_done ?w)))"
        using D(1) unfolding out outstanding_parts by (auto simp: w unfinished_def)
    next
      fix q' assume "q' \<in> set (outstanding ?w)" "current ?w q'"
      then show "\<exists>r. page_row (nw_page ?w) (pq_key q') = Some r \<and> lr_pending r"
        using D(2) [of q'] cur [of q'] asked(3,6) by (auto simp: w out split: if_splits)
    next
      fix q' assume "q' \<in> set (outstanding ?w)"
      then show "sp_gates (nw_page ?w) (pq_key q') \<noteq> None" using D(3) [of q'] gates asked(3) by (cases "pq_key q' = key") (auto simp: out)
    next
      fix q0 assume "q0 \<in> set (stage_requests (nw_stage ?w))"
      then have q0: "q0 \<in> set (stage_requests (nw_stage w))" by (simp add: w)
      then obtain q' where q': "q' \<in> set (unfinished w)" "pq_key q' = pq_key q0" "current w q'" using D(4) by blast
      show "\<exists>q' \<in> set (unfinished ?w). pq_key q' = pq_key q0 \<and> current ?w q'"
      proof (cases "pq_key q0 = key")
        case True
        then show ?thesis using cur [of q] asked(3) by (intro bexI [of _ q]) (simp_all add: out)
      next
        case False
        then have "current ?w q'" using q' cur [of q'] by (auto simp: outstanding_parts)
        then show ?thesis using q' by (intro bexI [of _ q']) (auto simp: out unfinished_def)
      qed
    next
      fix k g assume g: "sp_gates (nw_page ?w) k = Some g" and un: "unnoted ?w \<noteq> Some k"
      have same: "unnoted ?w = unnoted w" by (simp add: unnoted_def w)
      show "gt_persisted g = nw_store ?w k"
      proof (cases "k = key \<and> sp_gates ?c key = None")
        case True
        have "\<not> lr_pending r"
        proof
          assume "lr_pending r"
          with asked(1) j obtain q' where "q' \<in> set (outstanding w)" "pq_key q' = key" unfolding justified_def by blast
          with D(3) True show False by blast
        qed
        then have "lr_value r = nw_store w key" using D(7) asked(1) by blast
        with True g asked(1) show ?thesis by (auto simp: w asked(8) gates_next)
      next
        case False
        then show ?thesis using g un same D(5) [of k] by (auto simp: w asked(8) gates_next split: if_splits)
      qed
    next
      fix q0 assume "nw_stage ?w = WT_Written q0"
      then show "nw_store ?w (pq_key q0) = pq_requested q0" using D(6) by (simp add: w)
    next
      fix k r' assume "page_row (nw_page ?w) k = Some r'" "\<not> lr_pending r'"
      then show "lr_value r' = nw_store ?w k" using D(7) asked(6) by (auto simp: w split: if_splits)
    next
      fix q' v' assume fin: "(q', Inr (PC_Written v')) \<in> set (nw_done ?w)" and "current ?w q'"
      moreover have "q' \<in> set (outstanding w)" using fin by (auto simp: w intro: outstanding_done)
      moreover from this have "q' \<noteq> q" using new asked(3,4,7) by auto
      ultimately show "nw_store ?w (pq_key q') = v'" using D(8) [of q' v'] cur [of q'] by (auto simp: w)
    qed
  qed
qed

lemma settle_writer:
  assumes settle: "settle_inv w"
  shows "settle_inv (fst (page_step opened w PI_Take))" "settle_inv (fst (page_step opened w (PI_Write answer)))"
    "settle_inv (fst (page_step opened w PI_Note))"
proof -
  note D = settle_invD [OF settle]
  show "settle_inv (fst (page_step opened w PI_Take))"
  proof (cases "nw_stage w = WT_Waiting \<and> nw_queue w \<noteq> []")
    case True
    then obtain q rest where q: "nw_stage w = WT_Waiting" "nw_queue w = q # rest" by (cases "nw_queue w") auto
    have moved: "settle_inv (finish_request q result (w\<lparr>nw_queue := rest\<rparr>))" if "\<And>v. result \<noteq> Inr (PC_Written v)" for result
    proof (rule settle_invI)
      let ?w = "finish_request q result (w\<lparr>nw_queue := rest\<rparr>)"
      have same: "nw_page ?w = nw_page w" "nw_store ?w = nw_store w" "nw_stage ?w = WT_Waiting" "nw_done ?w = nw_done w @ [(q, result)]"
        "set (outstanding ?w) = set (outstanding w)" "current ?w = current w" "unnoted ?w = unnoted w"
        by (auto simp: finish_request_def q outstanding_def stage_requests_def current_def unnoted_def)
      show "distinct (map request_id (unfinished ?w @ map fst (nw_done ?w)))"
        using D(1) by (auto simp: same unfinished_def finish_request_def q stage_requests_def)
      show "nw_stage ?w = WT_Written q' \<Longrightarrow> nw_store ?w (pq_key q') = pq_requested q'" for q' by (simp add: same)
      show "q' \<in> set (stage_requests (nw_stage ?w)) \<Longrightarrow> \<exists>q'' \<in> set (unfinished ?w). pq_key q'' = pq_key q' \<and> current ?w q''" for q'
        by (simp add: same stage_requests_def)
      show "(q', Inr (PC_Written v)) \<in> set (nw_done ?w) \<Longrightarrow> current ?w q' \<Longrightarrow> nw_store ?w (pq_key q') = v" for q' v
        using D(8) [of q' v] that [of v] by (auto simp: same)
    qed (use D(2,3,5,7) in \<open>simp_all add: finish_request_def q outstanding_def stage_requests_def current_def unnoted_def\<close>)
    have taken: "settle_inv (w\<lparr>nw_queue := rest, nw_stage := WT_Writing q\<rparr>)" if "current w q"
    proof (rule settle_invI)
      let ?w = "w\<lparr>nw_queue := rest, nw_stage := WT_Writing q\<rparr>"
      show "distinct (map request_id (unfinished ?w @ map fst (nw_done ?w)))"
        using D(1) by (auto simp: unfinished_def q stage_requests_def)
      show "q' \<in> set (stage_requests (nw_stage ?w)) \<Longrightarrow> \<exists>q'' \<in> set (unfinished ?w). pq_key q'' = pq_key q' \<and> current ?w q''" for q'
        using that by (simp add: stage_requests_def unfinished_def current_def)
    qed (use D(2,3,5,7,8) q in \<open>auto simp: outstanding_def stage_requests_def current_def unnoted_def\<close>)
    show ?thesis
      using moved taken q by (auto simp: Let_def current_def split: option.splits)
  next
    case False
    with settle show ?thesis by (cases "nw_stage w"; cases "nw_queue w"; simp)
  qed
  show "settle_inv (fst (page_step opened w (PI_Write answer)))"
  proof (cases "nw_stage w")
    case (WT_Writing q)
    show ?thesis
    proof (cases answer)
      case (Some e)
      let ?w = "finish_request q (Inl e) (w\<lparr>nw_stage := WT_Waiting\<rparr>)"
      have "settle_inv ?w"
      proof (rule settle_invI)
        show "distinct (map request_id (unfinished ?w @ map fst (nw_done ?w)))"
          using D(1) by (auto simp: unfinished_def finish_request_def WT_Writing stage_requests_def)
      qed (use D(2,3,5,7,8) in \<open>auto simp: finish_request_def WT_Writing outstanding_def stage_requests_def current_def unnoted_def\<close>)
      with WT_Writing Some show ?thesis by simp
    next
      case None
      let ?w = "w\<lparr>nw_stage := WT_Written q, nw_store := (nw_store w)(pq_key q := pq_requested q)\<rparr>"
      obtain q' where q': "q' \<in> set (unfinished w)" "pq_key q' = pq_key q" "current w q'"
        using D(4) [of q] WT_Writing by (auto simp: stage_requests_def)
      have pending: "\<exists>r. page_row (nw_page w) (pq_key q) = Some r \<and> lr_pending r" using D(2) [of q'] q' by (simp add: outstanding_parts)
      have "settle_inv ?w"
      proof (rule settle_invI)
        show "distinct (map request_id (unfinished ?w @ map fst (nw_done ?w)))"
          using D(1) by (simp add: unfinished_def WT_Writing stage_requests_def)
        show "page_row (nw_page ?w) key = Some r \<Longrightarrow> \<not> lr_pending r \<Longrightarrow> lr_value r = nw_store ?w key" for key r
          using D(7) [of key r] pending by auto
        show "(q'', Inr (PC_Written v)) \<in> set (nw_done ?w) \<Longrightarrow> current ?w q'' \<Longrightarrow> nw_store ?w (pq_key q'') = v" for q'' v
          using D(8) [of q'' v] current_once [OF settle q'(1), of q'' "Inr (PC_Written v)"] q'(2,3) by (auto simp: current_def)
        show "q'' \<in> set (stage_requests (nw_stage ?w)) \<Longrightarrow> \<exists>q' \<in> set (unfinished ?w). pq_key q' = pq_key q'' \<and> current ?w q'" for q''
          using q' WT_Writing by (auto simp: stage_requests_def unfinished_def current_def)
      qed (use D(2,3,5) in \<open>auto simp: WT_Writing outstanding_def stage_requests_def current_def unnoted_def\<close>)
      with WT_Writing None show ?thesis by simp
    qed
  qed (use settle in simp_all)
  show "settle_inv (fst (page_step opened w PI_Note))"
  proof (cases "nw_stage w")
    case (WT_Written q)
    let ?w = "finish_request q (Inr (PC_Written (pq_requested q)))
      (w\<lparr>nw_stage := WT_Waiting, nw_page := set_persisted (pq_key q) (pq_requested q) (nw_page w)\<rparr>)"
    have "settle_inv ?w"
    proof (rule settle_invI)
      show "distinct (map request_id (unfinished ?w @ map fst (nw_done ?w)))"
        using D(1) by (auto simp: unfinished_def finish_request_def WT_Written stage_requests_def)
      show "sp_gates (nw_page ?w) key = Some g \<Longrightarrow> unnoted ?w \<noteq> Some key \<Longrightarrow> gt_persisted g = nw_store ?w key" for key g
        using D(5) [of key] D(6) [OF WT_Written] WT_Written
        by (auto simp: finish_request_def gates_persisted unnoted_def split: if_splits)
      show "(q', Inr (PC_Written v)) \<in> set (nw_done ?w) \<Longrightarrow> current ?w q' \<Longrightarrow> nw_store ?w (pq_key q') = v" for q' v
        using D(8) [of q' v] D(6) [OF WT_Written] by (auto simp: finish_request_def current_def)
    qed (use D(2,3,7) in \<open>auto simp: finish_request_def WT_Written outstanding_def stage_requests_def current_def page_row_updates gates_persisted\<close>)
    with WT_Written show ?thesis by simp
  qed (use settle in simp_all)
qed

lemma settle_complete:
  assumes settle: "settle_inv w" and saving: "saving_inv n w"
  shows "settle_inv (fst (page_step opened w (PI_Complete m answer)))"
proof (cases "m < length (nw_done w)")
  case False
  with settle show ?thesis by simp
next
  case True
  note D = settle_invD [OF settle]
  obtain q result where at: "nw_done w ! m = (q, result)" by (metis prod.exhaust)
  then have mem: "(q, result) \<in> set (nw_done w)" using True by (metis nth_mem)
  let ?c' = "fst (page_complete q result answer (nw_page w))"
  let ?w = "w\<lparr>nw_page := ?c', nw_done := take m (nw_done w) @ drop (Suc m) (nw_done w)\<rparr>"
  have step: "fst (page_step opened w (PI_Complete m answer)) = ?w" using True at by (simp add: case_prod_beta)
  have split: "nw_done w = take m (nw_done w) @ (q, result) # drop (Suc m) (nw_done w)" using True at by (metis id_take_nth_drop)
  have sub: "set (nw_done ?w) \<subseteq> set (nw_done w)" by (auto dest: in_set_takeD in_set_dropD)
  have unf: "unfinished ?w = unfinished w" by (simp add: unfinished_def)
  have cur: "current ?w q' = current w q'" for q' by (simp add: current_def page_complete_revision)
  have out: "set (outstanding ?w) \<subseteq> set (outstanding w)" using sub unfolding outstanding_parts unf by auto
  have other: "request_id q' \<noteq> request_id q" if "q' \<in> set (outstanding ?w)" for q'
  proof -
    have "distinct (map request_id (unfinished w @ map fst (take m (nw_done w) @ (q, result) # drop (Suc m) (nw_done w))))"
      using D(1) split by simp
    then show ?thesis using that unfolding outstanding_parts unf by (auto simp: rev_image_eqI)
  qed
  show ?thesis
    unfolding step
  proof (rule settle_invI)
    have "distinct (map request_id (unfinished w @ map fst (take m (nw_done w) @ (q, result) # drop (Suc m) (nw_done w))))"
      using D(1) split by simp
    then show "distinct (map request_id (unfinished ?w @ map fst (nw_done ?w)))" by (simp add: unf)
  next
    fix q' assume q': "q' \<in> set (outstanding ?w)" "current ?w q'"
    then obtain r where r: "page_row (nw_page w) (pq_key q') = Some r" "lr_pending r" using D(2) [of q'] out cur by blast
    have "\<not> (pq_key q' = pq_key q \<and> revision_of (nw_page w) (pq_key q') = pq_revision q)"
      using other [OF q'(1)] q'(2) cur [of q'] by (auto simp: current_def request_id_def)
    with r show "\<exists>r. page_row (nw_page ?w) (pq_key q') = Some r \<and> lr_pending r" by (auto simp: page_complete_row)
  next
    fix q' assume "q' \<in> set (outstanding ?w)"
    then show "sp_gates (nw_page ?w) (pq_key q') \<noteq> None" using D(3) [of q'] out by (auto simp: page_complete_gates)
  next
    fix q' assume "q' \<in> set (stage_requests (nw_stage ?w))"
    then show "\<exists>q'' \<in> set (unfinished ?w). pq_key q'' = pq_key q' \<and> current ?w q''" using D(4) [of q'] by (simp add: unf cur)
  next
    fix key g assume "sp_gates (nw_page ?w) key = Some g" "unnoted ?w \<noteq> Some key"
    then show "gt_persisted g = nw_store ?w key" using D(5) [of key g] by (simp add: page_complete_gates unnoted_def)
  next
    fix q' assume "nw_stage ?w = WT_Written q'"
    then show "nw_store ?w (pq_key q') = pq_requested q'" using D(6) [of q'] by simp
  next
    fix key r' assume row: "page_row (nw_page ?w) key = Some r'" and idle: "\<not> lr_pending r'"
    show "lr_value r' = nw_store ?w key"
    proof (cases "key = pq_key q \<and> current w q \<and> result \<noteq> Inr PC_Superseded")
      case True
      then have settled: "lr_value r' = (case result of Inr (PC_Written v) \<Rightarrow> v | _ \<Rightarrow> rollback_value q (nw_page w))"
        using row by (auto simp: page_complete_row current_def)
      have "unnoted w \<noteq> Some (pq_key q)"
      proof
        assume "unnoted w = Some (pq_key q)"
        then obtain q0 where "q0 \<in> set (stage_requests (nw_stage w))" "pq_key q0 = pq_key q"
          by (auto simp: unnoted_def stage_requests_def split: writer_stage.splits)
        with D(4) obtain q' where "q' \<in> set (unfinished w)" "pq_key q' = pq_key q" "current w q'" by metis
        with current_once [OF settle _ mem] True show False by blast
      qed
      then have "rollback_value q (nw_page w) = nw_store w (pq_key q)"
        using D(3) [OF outstanding_done [OF mem]] D(5) [of "pq_key q"] by (auto simp: rollback_value_def)
      then show ?thesis
        using settled True D(8) [of q] mem by (cases result) (auto split: completion.splits)
    next
      case False
      with row have "page_row (nw_page w) key = Some r'" by (auto simp: page_complete_row current_def split: if_splits)
      with D(7) idle show ?thesis by simp
    qed
  next
    fix q' v assume "(q', Inr (PC_Written v)) \<in> set (nw_done ?w)" "current ?w q'"
    then show "nw_store ?w (pq_key q') = v" using D(8) [of q' v] sub cur by auto
  qed
qed

lemma settle_step:
  assumes settle: "settle_inv w" and saving: "saving_inv n w" and n: "Suc n < 2 ^ 64" and input: "own_input w i"
  shows "settle_inv (fst (page_step opened w i))"
proof (cases i)
  case (PI_Set key v accepted)
  with input have i: "i = PI_Set key v True" by simp
  show ?thesis unfolding i by (rule settle_set [OF settle saving n])
next
  case (PI_Complete m answer)
  then show ?thesis using settle_complete [OF settle saving] by simp
next
  case (PI_Changed key v answer)
  with input have "known_echo (nw_page w) key v" by simp
  from known_echo_same [OF this] PI_Changed show ?thesis
    using settle
    by (simp add: case_prod_beta settle_inv_def revision_of_def outstanding_def unfinished_def current_def unnoted_def)
next
  case (PI_Streams st)
  then show ?thesis
    using settle
    by (simp add: case_prod_beta settle_inv_def streams_kept revision_of_def outstanding_def unfinished_def current_def unnoted_def)
qed (use input settle_writer [OF settle] in simp_all)

lemma settle_run:
  "settle_inv w \<Longrightarrow> saving_inv n w \<Longrightarrow> n + length is < 2 ^ 64 \<Longrightarrow> own_run opened w is \<Longrightarrow>
   settle_inv (fst (run_machine (page_step opened) w is))"
proof (induction "is" arbitrary: n w)
  case Nil
  then show ?case by simp
next
  case (Cons i "is")
  then have "Suc n < 2 ^ 64" by simp
  with Cons show ?case using settle_step [of w n i opened] saving_step [of n w opened i] Cons.IH [of _ "Suc n"] by simp
qed

lemma settle_opened: "settle_inv (opened_page listed stored subscribed)"
  by (simp add: settle_inv_def opened_page_def Let_def outstanding_def unfinished_def stage_requests_def load_page_gates)


section \<open>What an announcement may undo\<close>

text \<open>A page with one row, on which a change is made, written and completed.\<close>

definition language_setting :: setting_metadata where
  "language_setting = \<lparr>sm_key = KEY_LANGUAGE, sm_summary = None, sm_description = None, sm_default = SG_Text [], sm_range = SR_Unrestricted,
     sm_current = SG_Text [], sm_writable = True\<rparr>"

definition language_page :: page_world where
  "language_page = opened_page (Inr [language_setting]) (\<lambda>_. Inr True) None"

definition text_of :: "string \<Rightarrow> setting_value" where
  "text_of s = SG_Text (lit s)"

definition saved :: "setting_value \<Rightarrow> page_input list" where
  "saved v = [PI_Set KEY_LANGUAGE v True, PI_Take, PI_Write None, PI_Note]"

lemmas page_run_simps =
  language_page_def language_setting_def text_of_def saved_def opened_page_def load_page_def page_set_def page_row_def map_row_def row_key_def
  update_row_def set_user_set_def next_revision_def revision_of_def set_persisted_def emit_shown_def shown_value_def finish_request_def
  page_complete_def expect_echo_def apply_external_def consume_expected_echo_def outstanding_def stage_requests_def
  user_set_in_store_def run_machine.simps Let_def

lemma keys_differ: "KEY_LANGUAGE \<noteq> KEY_STREAMING_MODE"
  by (simp add: KEY_LANGUAGE_def KEY_STREAMING_MODE_def lit_def)


text \<open>While the change is under way the row is saving; the request is the reason.\<close>

lemma no_row_left_saving_witness:
  "let w = fst (run_machine (page_step None) language_page [PI_Set KEY_LANGUAGE (text_of ''fr'') True]) in
   \<exists>q. q \<in> set (outstanding w) \<and> pq_key q = KEY_LANGUAGE \<and> pq_revision q = revision_of (nw_page w) KEY_LANGUAGE \<and> pq_requested q = text_of ''fr''"
proof -
  have "length [PI_Set KEY_LANGUAGE (text_of ''fr'') True] < 2 ^ 64" by simp
  note applied = no_row_left_saving [OF this, of None "Inr [language_setting]" "\<lambda>_. Inr True" None KEY_LANGUAGE, folded language_page_def]
  have "page_row (nw_page (fst (run_machine (page_step None) language_page [PI_Set KEY_LANGUAGE (text_of ''fr'') True]))) KEY_LANGUAGE
      = Some \<lparr>lr_metadata = language_setting, lr_value = text_of ''fr'', lr_pending = True, lr_user_set = True\<rparr>"
    using keys_differ by (simp add: page_run_simps)
  with applied show ?thesis by (simp add: Let_def)
qed

text \<open>
  With an announcement it does not know it may not. The echo of a write that arrives before the write's completion
  and after a newer change is taken for somebody else's change: the newer one is dropped from
  the page and never written, and nothing reports it.
\<close>

lemma newer_change_lost:
  "let (w, events) = run_machine (page_step None) language_page
      (saved (text_of ''fr'') @ [PI_Set KEY_LANGUAGE (text_of ''de'') True, PI_Changed KEY_LANGUAGE (text_of ''fr'') (Inr True),
        PI_Complete 0 (Inr True), PI_Take, PI_Complete 0 (Inr True)]) in
   outstanding w = [] \<and> nw_store w KEY_LANGUAGE = text_of ''fr''
   \<and> map_option lr_value (page_row (nw_page w) KEY_LANGUAGE) = Some (text_of ''fr'')
   \<and> events = [EP_RowChanged KEY_LANGUAGE (text_of ''fr'') True, EP_RowChanged KEY_LANGUAGE (text_of ''de'') True,
               EP_RowChanged KEY_LANGUAGE (text_of ''fr'') False]"
  using keys_differ by (simp add: page_run_simps lit_def)

text \<open>
  Two changes are written before the store's monitor looks: it announces only the second. The
  first's echo stays armed, and swallows a later change of another process back to that value:
  the page goes on showing what the store no longer holds.
\<close>

lemma stale_echo_hides_the_store:
  "let w = fst (run_machine (page_step None) language_page
      (saved (text_of ''fr'') @ [PI_Complete 0 (Inr True)] @ saved (text_of ''de'') @ [PI_Complete 0 (Inr True),
        PI_Changed KEY_LANGUAGE (text_of ''de'') (Inr True), PI_Other KEY_LANGUAGE (text_of ''fr''),
        PI_Changed KEY_LANGUAGE (text_of ''fr'') (Inr True)])) in
   outstanding w = [] \<and> nw_store w KEY_LANGUAGE = text_of ''fr''
   \<and> map_option lr_value (page_row (nw_page w) KEY_LANGUAGE) = Some (text_of ''de'')"
  using keys_differ by (simp add: page_run_simps lit_def)

section \<open>The list editor and the sessions\<close>

text \<open>A list the editor made: from nothing, by additions it accepted and by removals.\<close>

inductive edited :: "list_limits option \<Rightarrow> ustr list \<Rightarrow> bool" for limits where
  edited_empty: "edited limits []"
| edited_add: "edited limits ws \<Longrightarrow> add_list_entry ws candidate limits = Inr ws' \<Longrightarrow> edited limits ws'"
| edited_remove: "edited limits ws \<Longrightarrow> edited limits (remove_list_entry ws entry)"

definition entry_fits :: "ustr \<Rightarrow> bool" where
  "entry_fits e \<longleftrightarrow> trim e = e \<and> e \<noteq> [] \<and> length e \<le> KEYWORDS_MAX_ENTRY_CHARS"

lemma trim_twice: "trim (trim s) = trim s"
  by (metis ends_with_p_trim_end starts_with_p_trim trim_def trim_end_id trim_start_id)

lemma add_list_entry_fits:
  assumes "add_list_entry ws candidate (limits_of KEY_VOCABULARY) = Inr ws'"
  shows "ws' = ws @ [trim candidate] \<and> entry_fits (trim candidate) \<and> trim candidate \<notin> set ws \<and> length ws' \<le> KEYWORDS_MAX_ENTRIES"
  using assms by (auto simp: add_list_entry_def limits_of_def Let_def entry_fits_def trim_twice split: if_splits)

lemma edited_fits: "edited (limits_of KEY_VOCABULARY) ws \<Longrightarrow> list_all entry_fits ws \<and> distinct ws \<and> length ws \<le> KEYWORDS_MAX_ENTRIES"
proof (induction rule: edited.induct)
  case edited_empty
  then show ?case by simp
next
  case (edited_add ws candidate ws')
  then show ?case using add_list_entry_fits [OF edited_add(2)] by auto
next
  case (edited_remove ws entry)
  then show ?case using set_remove1_subset [of entry ws] by (auto simp: remove_list_entry_def list_all_iff length_remove1)
qed

lemma normalize_loop_fits:
  assumes "list_all entry_fits ws" and "distinct (out @ ws)" and "set seen = set out" and "length out + length ws \<le> KEYWORDS_MAX_ENTRIES"
  shows "normalize_loop seen out ws = out @ ws"
  using assms
proof (induction ws arbitrary: seen out)
  case Nil
  then show ?case by simp
next
  case (Cons e ws)
  then have e: "trim e = e" "e \<noteq> []" "take KEYWORDS_MAX_ENTRY_CHARS e = e" by (simp_all add: entry_fits_def)
  show ?case
  proof (cases "length (out @ [e]) = KEYWORDS_MAX_ENTRIES")
    case True
    with Cons.prems(4) have "ws = []" by (cases ws) auto
    with e True Cons.prems show ?thesis by (simp add: Let_def)
  next
    case False
    with e Cons show ?thesis by (simp add: Let_def)
  qed
qed

text \<open>C36: Nothing the user typed into the vocabulary is dropped unseen: a list made with the page's
  editor, by whatever additions and removals it accepted, is one every session takes as it is.\<close>

theorem edited_vocabulary_kept:
  assumes "edited (limits_of KEY_VOCABULARY) ws"
  shows "normalize_keywords ws = ws"
  using normalize_loop_fits [of ws "[]" "[]"] edited_fits [OF assms] by (simp add: normalize_keywords_def)

lemma edited_vocabulary_kept_witness: "normalize_keywords [lit ''myna''] = [lit ''myna'']"
proof (rule edited_vocabulary_kept, rule edited_add, rule edited_empty)
  show "add_list_entry [] (lit '' myna '') (limits_of KEY_VOCABULARY) = Inr [lit ''myna'']"
    by (simp add: add_list_entry_def limits_of_def trim_def trim_start_def trim_end_def is_whitespace_def lit_def
        KEYWORDS_MAX_ENTRIES_def KEYWORDS_MAX_ENTRY_CHARS_def)
qed

end
