(* ===== verification/Model_Names.thy ===== *)
theory Model_Names
  imports Language Connections Utf8
begin

text \<open>
  What Settings calls the model families and their languages, and how the recommendation orders
  them: \<open>client/myna-config/src/model_family.rs\<close>. The table of languages' own names, \<open>gettext\<close> and
  Unicode's case, classes and decomposition are parameters. A text that names languages carries
  the byte range of each name, which decides the font the name is shaped with.
\<close>

record name_env =
  ne_tr :: "ustr \<Rightarrow> ustr"
  ne_plural :: "ustr \<Rightarrow> ustr \<Rightarrow> nat \<Rightarrow> ustr"
  ne_endonym :: "ustr \<Rightarrow> ustr option"
  ne_alphabetic :: "uchar \<Rightarrow> bool"
  ne_lower :: "uchar \<Rightarrow> ustr"
  ne_upper :: "uchar \<Rightarrow> ustr"
  ne_decompose :: "uchar \<Rightarrow> ustr"

section \<open>Families\<close>

record family_name =
  fn_name :: ustr
  fn_description :: "ustr option"

fun title_loop :: "(uchar \<Rightarrow> ustr) \<Rightarrow> bool \<Rightarrow> ustr \<Rightarrow> ustr" where
  "title_loop up capitalize [] = []"
| "title_loop up capitalize (c # cs) =
     (if c = 45 \<or> c = 95 then 32 # title_loop up True cs
      else if capitalize then up c @ title_loop up False cs
      else c # title_loop up False cs)"

definition title_from_snap :: "(uchar \<Rightarrow> ustr) \<Rightarrow> ustr \<Rightarrow> ustr" where
  "title_from_snap up snap = title_loop up True (the_default snap (strip_prefix (lit ''myna-'') snap))"

definition name_family :: "name_env \<Rightarrow> ustr \<Rightarrow> family_name" where
  "name_family E snap =
     (case from_snap_name snap of
        Some Parakeet \<Rightarrow> \<lparr>fn_name = lit ''Parakeet'', fn_description = Some (ne_tr E (lit ''Fastest and most accurate in its 25 languages''))\<rparr>
      | Some Whisper \<Rightarrow> \<lparr>fn_name = lit ''Whisper'', fn_description = Some (ne_tr E (lit ''Most languages, with uneven accuracy''))\<rparr>
      | Some FunAsr \<Rightarrow> \<lparr>fn_name = lit ''FunASR'', fn_description = Some (ne_tr E (lit ''Best for Chinese, Japanese and Korean''))\<rparr>
      | None \<Rightarrow> \<lparr>fn_name = title_from_snap (ne_upper E) snap, fn_description = None\<rparr>)"

definition installable_families :: "backend_identity list \<Rightarrow> model_family option \<Rightarrow> model_family list" where
  "installable_families backends recommended =
     (let missing = filter (\<lambda>f. \<not> list_ex (\<lambda>b. bi_snap_name b = family_snap_name f) backends) families
      in filter (\<lambda>f. Some f = recommended) missing @ filter (\<lambda>f. Some f \<noteq> recommended) missing)"

record recommendation =
  rc_installed :: "model_family option"
  rc_better :: "model_family option"

definition recommendation_of :: "ustr list \<Rightarrow> backend_identity list \<Rightarrow> recommendation" where
  "recommendation_of preferred backends =
     (let installed = filter_map (\<lambda>b. from_snap_name (bi_snap_name b)) backends; best = recommend preferred
      in \<lparr>rc_installed = recommend_among preferred installed, rc_better = (if best \<in> set installed then None else Some best)\<rparr>)"

definition is_recommended :: "backend_identity \<Rightarrow> model_family option \<Rightarrow> bool" where
  "is_recommended b recommended \<longleftrightarrow> (case recommended of Some f \<Rightarrow> from_snap_name (bi_snap_name b) = Some f | None \<Rightarrow> False)"

definition recommended_first :: "backend_identity list \<Rightarrow> model_family option \<Rightarrow> backend_identity list" where
  "recommended_first backends recommended =
     filter (\<lambda>b. is_recommended b recommended) backends @ filter (\<lambda>b. \<not> is_recommended b recommended) backends"

section \<open>Languages\<close>

record endonym =
  ed_code :: ustr
  ed_name :: ustr

definition endonym_of :: "name_env \<Rightarrow> ustr \<Rightarrow> endonym option" where
  "endonym_of E code = map_option (\<lambda>name. \<lparr>ed_code = code, ed_name = name\<rparr>) (ne_endonym E code)"

definition is_latin :: "uchar \<Rightarrow> bool" where
  "is_latin c \<longleftrightarrow> is_ascii_alphabetic c \<or> (192 \<le> c \<and> c \<le> 591) \<or> (7680 \<le> c \<and> c \<le> 7935)"

text \<open>The letters that count as apostrophes: \<open>U+02BB\<close> and \<open>U+02BC\<close>.\<close>

definition is_okina :: "uchar \<Rightarrow> bool" where
  "is_okina c \<longleftrightarrow> c = 699 \<or> c = 700"

definition pango_language :: "name_env \<Rightarrow> endonym \<Rightarrow> ustr option" where
  "pango_language E e =
     (if list_all (\<lambda>c. \<not> ne_alphabetic E c \<or> is_latin c \<or> is_okina c) (ed_name e) then None
      else Some (if ed_code e = lit ''yue'' then lit ''zh-hk'' else ed_code e))"

definition name_order :: "name_env \<Rightarrow> ustr \<Rightarrow> ustr" where
  "name_order E name =
     map (\<lambda>c. if c = 601 then 101 else if c = 322 then 108 else if c = 248 then 111
              else if is_latin c then (case ne_decompose E c of d # _ \<Rightarrow> d | [] \<Rightarrow> c) else c)
       (filter (\<lambda>c. ne_alphabetic E c \<and> \<not> is_okina c) (concat (map (ne_lower E) name)))"

section \<open>Texts that name languages\<close>

record named =
  nm_text :: ustr
  nm_names :: "((nat \<times> nat) \<times> endonym) list"

definition named_plain :: "ustr \<Rightarrow> named" where
  "named_plain t = \<lparr>nm_text = t, nm_names = []\<rparr>"

definition byte_len :: "ustr \<Rightarrow> nat" where
  "byte_len s = length (utf8_bytes s)"

definition push_name :: "ustr \<Rightarrow> endonym \<Rightarrow> named \<Rightarrow> named" where
  "push_name separator e n =
     (let before = (if nm_names n = [] then nm_text n else nm_text n @ separator); whole = before @ ed_name e
      in \<lparr>nm_text = whole, nm_names = nm_names n @ [((byte_len before, byte_len whole), e)]\<rparr>)"

definition named_list :: "endonym list \<Rightarrow> ustr \<Rightarrow> named" where
  "named_list es separator = foldl (\<lambda>n e. push_name separator e n) (named_plain []) es"

definition named_within :: "named \<Rightarrow> ustr \<Rightarrow> ustr \<Rightarrow> named" where
  "named_within n frame placeholder =
     (case split_once_str placeholder frame of
        None \<Rightarrow> named_plain frame
      | Some (a, b) \<Rightarrow>
          \<lparr>nm_text = a @ nm_text n @ b, nm_names = map (\<lambda>((i, j), e). ((i + byte_len a, j + byte_len a), e)) (nm_names n)\<rparr>)"

section \<open>Coverage\<close>

record coverage =
  cg_languages :: "endonym list"
  cg_user_first :: bool
  cg_summary :: "endonym list"

definition SUMMARY_LENGTH :: nat where "SUMMARY_LENGTH = 2"

definition coverage_of :: "name_env \<Rightarrow> model_family \<Rightarrow> ustr option \<Rightarrow> coverage" where
  "coverage_of E family language =
     (let covered = family_languages family;
          user = Option.bind language (\<lambda>l. find (\<lambda>code. code = l) covered);
          others = filter (\<lambda>l. Some l \<noteq> user) covered;
          users = (case user of Some l \<Rightarrow> [l] | None \<Rightarrow> []);
          rest = sort_key (\<lambda>e. (name_order E (ed_name e), ed_name e)) (filter_map (endonym_of E) others)
      in \<lparr>cg_languages = filter_map (endonym_of E) users @ rest, cg_user_first = (user \<noteq> None),
          cg_summary = filter_map (endonym_of E) (take SUMMARY_LENGTH (users @ others))\<rparr>)"

definition replace_str :: "ustr \<Rightarrow> ustr \<Rightarrow> ustr \<Rightarrow> ustr" where
  "replace_str from_str to_str s = join to_str (split_str from_str s)"

definition coverage_summary :: "name_env \<Rightarrow> coverage \<Rightarrow> named" where
  "coverage_summary E c =
     (let names = named_list (cg_summary c) (ne_tr E (lit '', '')); more = length (cg_languages c) - length (cg_summary c)
      in if more = 0 then names
         else named_within names (replace_str (lit ''{count}'') (dec_digits more) (ne_tr E (lit ''{languages} +{count}''))) (lit ''{languages}''))"

definition coverage_count :: "name_env \<Rightarrow> coverage \<Rightarrow> ustr" where
  "coverage_count E c =
     (let count = length (cg_languages c)
      in replace_str (lit ''{count}'') (dec_digits count) (ne_plural E (lit ''{count} language'') (lit ''{count} languages'') count))"

definition coverage_columns :: "nat \<Rightarrow> nat" where
  "coverage_columns count = (if count \<le> 8 then 1 else if count \<le> 30 then 2 else 3)"

definition coverage_cell :: "nat \<Rightarrow> nat \<Rightarrow> nat \<Rightarrow> nat \<times> nat" where
  "coverage_cell index count columns =
     (let columns = max columns 1; rows = max ((count + columns - 1) div columns) 1 in (index div rows, index mod rows))"

definition covered_by :: "name_env \<Rightarrow> model_family \<Rightarrow> ustr option \<Rightarrow> endonym option" where
  "covered_by E family language = Option.bind (Option.bind language (\<lambda>l. find (\<lambda>code. code = l) (family_languages family))) (endonym_of E)"

definition recommendation_label :: "name_env \<Rightarrow> model_family \<Rightarrow> ustr option \<Rightarrow> named" where
  "recommendation_label E family language =
     (case covered_by E family language of
        Some e \<Rightarrow> named_within (named_list [e] []) (ne_tr E (lit ''Best for {language}'')) (lit ''{language}'')
      | None \<Rightarrow> named_plain (ne_tr E (lit ''Recommended'')))"

definition better_model_hint :: "name_env \<Rightarrow> model_family \<Rightarrow> ustr option \<Rightarrow> named" where
  "better_model_hint E family language =
     (case covered_by E family language of
        Some e \<Rightarrow> named_within (named_list [e] []) (ne_tr E (lit ''A better model for {language} is available'')) (lit ''{language}'')
      | None \<Rightarrow> named_plain (ne_tr E (lit ''A recommended model is available'')))"

definition installing_hint :: "name_env \<Rightarrow> model_family \<Rightarrow> u8 option \<Rightarrow> named" where
  "installing_hint E family percent =
     (let t = (case percent of
                 Some p \<Rightarrow> replace_str (lit ''{percent}'') (dec_digits (unat p)) (ne_tr E (lit ''Installing {model} {percent}%''))
               | None \<Rightarrow> ne_tr E (lit ''Installing {model}'' @ [8230]))
      in named_plain (replace_str (lit ''{model}'') (fn_name (name_family E (family_snap_name family))) t))"

section \<open>The ranges name what they are for\<close>

definition points :: "ustr \<Rightarrow> (nat \<times> nat) \<times> endonym \<Rightarrow> bool" where
  "points t = (\<lambda>((i, j), e). i \<le> j \<and> j \<le> byte_len t \<and> take (j - i) (drop i (utf8_bytes t)) = utf8_bytes (ed_name e))"

definition well_named :: "named \<Rightarrow> bool" where
  "well_named n \<longleftrightarrow> list_all (points (nm_text n)) (nm_names n)"

lemma utf8_bytes_append: "utf8_bytes (s @ t) = utf8_bytes s @ utf8_bytes t"
  by (induction s) simp_all

lemma points_within: "points t ((i, j), e) \<Longrightarrow> points (a @ t @ b) ((i + byte_len a, j + byte_len a), e)"
  by (simp add: points_def byte_len_def utf8_bytes_append)

lemma points_append: "points t p \<Longrightarrow> points (t @ b) p"
  using points_within [of t "fst (fst p)" "snd (fst p)" "snd p" "[]" b] by (simp add: byte_len_def)

lemma push_name_ok: "well_named n \<Longrightarrow> well_named (push_name sep e n)"
proof -
  assume n: "well_named n"
  have new: "points (t @ ed_name e) ((byte_len t, byte_len (t @ ed_name e)), e)" for t
    by (simp add: points_def byte_len_def utf8_bytes_append)
  have old: "list_all (points (nm_text n @ u)) (nm_names n)" for u
    using n points_append by (auto simp: well_named_def list_all_iff)
  show ?thesis
    using new [of "nm_text n"] new [of "nm_text n @ sep"] old [of "ed_name e"] old [of "sep @ ed_name e"]
    by (simp add: well_named_def push_name_def Let_def)
qed

lemma named_plain_ok: "well_named (named_plain t)"
  by (simp add: named_plain_def well_named_def)

lemma named_list_ok: "well_named (named_list es sep)"
proof -
  have "well_named n \<Longrightarrow> well_named (foldl (\<lambda>n e. push_name sep e n) n es)" for n
    by (induction es arbitrary: n) (simp_all add: push_name_ok)
  from this [OF named_plain_ok] show ?thesis by (simp add: named_list_def)
qed

lemma named_within_ok: "well_named n \<Longrightarrow> well_named (named_within n frame placeholder)"
  by (auto simp: named_within_def well_named_def list_all_iff named_plain_def intro!: points_within split: option.splits)

text \<open>Every text that names languages marks exactly the names: whatever the translations say, in
  the pill, the hint and the summary of a model's languages the bytes of each marked range are
  the language's own name, so the font chosen for a range shapes that name and nothing else.\<close>

theorem names_marked:
  "well_named (coverage_summary E c) \<and> well_named (recommendation_label E family language) \<and> well_named (better_model_hint E family language)
   \<and> well_named (installing_hint E family percent)"
  by (simp add: coverage_summary_def recommendation_label_def better_model_hint_def installing_hint_def Let_def
      named_list_ok named_within_ok named_plain_ok split: option.split)

section \<open>The recommendation and the grid\<close>

text \<open>The list of a model's languages is a grid without a clash: every language has a cell of its
  own, in one of the columns, which are filled one after the other.\<close>

lemma coverage_cells:
  assumes "0 < columns"
  shows "inj_on (\<lambda>i. coverage_cell i count columns) {..<count}
    \<and> (\<forall>i < count. fst (coverage_cell i count columns) < columns)"
proof -
  let ?rows = "max ((count + columns - 1) div columns) 1"
  have cell: "coverage_cell i count columns = (i div ?rows, i mod ?rows)" for i
  proof -
    have "max columns 1 = columns" using assms by simp
    then show ?thesis unfolding coverage_cell_def Let_def by (rule ssubst) (rule refl)
  qed
  have "inj_on (\<lambda>i. coverage_cell i count columns) {..<count}"
    unfolding cell by (rule inj_onI) (metis div_mod_decomp prod.inject)
  moreover have "i div ?rows < columns" if "i < count" for i
  proof -
    have "count + columns - 1 < columns * ((count + columns - 1) div columns) + columns"
      using assms by (metis add.commute mod_less_divisor mult_div_mod_eq nat_add_left_cancel_less)
    then have "count \<le> columns * ((count + columns - 1) div columns)" using assms by linarith
    then have "count \<le> columns * ?rows" by (metis max.cobounded1 mult_le_mono2 order_trans)
    with that have "i < columns * ?rows" by linarith
    then show ?thesis by (simp add: less_mult_imp_div_less)
  qed
  ultimately show ?thesis by (simp add: cell)
qed

lemma recommended_first_all: "set (recommended_first backends recommended) = set backends"
  by (auto simp: recommended_first_def)

lemma installable_families_rest:
  "set (installable_families backends recommended) = {f. list_all (\<lambda>b. bi_snap_name b \<noteq> family_snap_name f) backends}"
proof -
  have "f \<in> set families" for f by (cases f) (simp_all add: families_def)
  then show ?thesis by (auto simp: installable_families_def Let_def list_ex_iff list_all_iff)
qed

end
