(* ===== verification/Spec2Isabelle.thy ===== *)
theory Spec2Isabelle
  imports Runner Trigger Hud_Host Backend_Ui Wizard Ibus_Target Transport Snapd_Framing Snapd_Client
    Snap_Backend Diagnostics Settings_Page Model_Names
begin

text \<open>
  \<^bold>\<open>Myna's client, verified.\<close>

  Myna is a dictation service for the desktop. Its client (\<open>src/client\<close>) captures audio, runs a
  speech session against a model's backend and types what is said into the focused field; a
  settings application installs, connects and configures the models, and hosts the HUD that
  shows a dictation. This development models the parts of the client that decide, and leaves
  the parts that draw, open sockets or call a third-party library as parameters.

  \<^bold>\<open>The dictation path\<close>, from the key to the field:

  \<^item> \<open>Trigger\<close> (\<open>myna-desktop/src/shortcut/control.rs\<close>): pokes of the toggle become alternating
    press and release edges; repeats within the hold window give none.
  \<^item> \<open>Ring\<close> (\<open>myna-audio/src/ring.rs\<close>, \<open>backend.rs\<close>, \<open>source.rs\<close>): the bounded ring between the
    capture thread and the session, and the producer that cuts samples into chunks. The lemmas
    bound what the ring holds and show that audio is delivered whole or its loss is reported.
  \<^item> \<open>Core_Types\<close> (\<open>myna-core/src/audio.rs\<close>, \<open>capture.rs\<close>, \<open>events.rs\<close>, \<open>session.rs\<close>): the types the
    parts exchange.
  \<^item> \<open>Fsm\<close> (\<open>myna-orchestrator/src/fsm.rs\<close>, \<open>failure.rs\<close>): the session as a pure machine from
    inputs to actions; its salvage of late transcripts and its outcomes.
  \<^item> \<open>Share\<close> (\<open>backend/share.rs\<close>, \<open>backend/mod.rs\<close>): which mounted share is the model's, and the
    socket in it.
  \<^item> \<open>Driver\<close> (\<open>driver.rs\<close>): the select loop that feeds the machine. One poll of the loop is one
    step, given what every branch has ready; the loop refines the machine, keeps audio in
    order, never overfills its outbound slot and ends a session that makes no progress.
  \<^item> \<open>Wire\<close> (\<open>myna-core/src/events.rs\<close>, \<open>control.rs\<close>, \<open>backend/ws_unix.rs\<close>, \<open>ws_unix_ie115.rs\<close>): the
    frames of the two dialects a model may speak, and the opening of a session. \<open>Transport\<close>
    (\<open>backend/transport.rs\<close>): the pump between the socket and the session, one poll a step. It
    delivers exactly what the server said up to the first terminal; a failed write ends it after
    its grace; and an empty transcript ends an utterance only when it answers our commit.
  \<^item> \<open>Runner\<close> (\<open>runner.rs\<close>): the pump from the capture to the session.
  \<^item> \<open>Controller\<close> (\<open>myna-desktop/src/controller.rs\<close>, \<open>indicator/mod.rs\<close>, \<open>myna-audio/src/stats.rs\<close>,
    \<open>myna-platform/src/text_input.rs\<close>): the dictation loop that acquires the field, routes the
    session's events, buffers commits, ends an utterance and shows its state. Its theorems say
    that only finals are written, all of them in an undisturbed utterance, none after the focus
    has left, and that every acquired field is released.
  \<^item> \<open>Ibus\<close> (\<open>myna-desktop/src/inject/ibus.rs\<close>): the lease on the focused field. The daemon's focus
    calls, activations and the tasks that wait out a short absence of focus are the events of
    the engine's state; a lease stays with one field, and every absence is decided.
    \<open>Ibus_Target\<close> (\<open>inject/ibus.rs\<close>, \<open>inject/lazy.rs\<close>): what a target does on the bus, its commits,
    preedit and release, and acquiring one. What happens during an await is a batch of the
    engine's events and a call's answer is offered; a wait whose batches run out is \<open>None\<close>.

  \<^bold>\<open>The settings application\<close> (\<open>myna-config/src\<close>):

  \<^item> \<open>Hud_Host\<close> (\<open>hud_host/machine.rs\<close>, \<open>run.rs\<close>): the supervision of the HUD process, with the
    supervisor that performs the machine's actions.
  \<^item> \<open>Operation_Gate\<close> (\<open>operation_gate.rs\<close>, the cancellation flags of \<open>command.rs\<close>): one backend
    operation at a time, known by a 64-bit token that wraps past zero.
  \<^item> \<open>Snap_Changes\<close>, \<open>Snap_Install\<close> (\<open>snap_changes.rs\<close>, \<open>snap_install.rs\<close>, errors of \<open>ports.rs\<close>): what a
    snapd change concerns, how far it is, and following one to its end.
  \<^item> \<open>Snapd_Http\<close>, \<open>Snapd_Client\<close>, \<open>Snapd_Framing\<close> (\<open>adapters/snapd_client.rs\<close>): the HTTP client on
    snapd's socket, over a world of a clock, a cancellation and connections that answer in
    fragments. Its operations send only the requests of a fixed list; a response means the same
    however it is cut up, and has a bound; following a change ends.
  \<^item> \<open>Command\<close> (\<open>command.rs\<close>): the runner of commands, one poll of the wait a step. A child that runs
    without a timeout is never left behind: a cancellation whose kill is refused is withdrawn.
  \<^item> \<open>Apply_Plan\<close> (\<open>apply_plan.rs\<close>): the plans that run as root, their validators and their
    executor. \<open>Pkexec\<close> (\<open>adapters/system_configurator.rs\<close>): the unprivileged end, which encodes a
    plan, runs it under \<open>pkexec\<close> and reads back what ran.
  \<^item> \<open>Connections\<close> (\<open>domain.rs\<close>, \<open>active_backend.rs\<close>, \<open>adapters/system_configurator.rs\<close>): the models
    found on the machine, the plan that switches from one to another, and its run against
    snapd. \<open>Active_Backend\<close> (\<open>active_backend.rs\<close>): the switch with its preflight, refusals and the
    restoring of a lost model; setting up; the controller of the pending switch.
  \<^item> \<open>Backend_Domain\<close> (\<open>domain.rs\<close>, \<open>presentation.rs\<close>): what is read of a model, and its rows.
    \<open>Snap_Backend\<close> (\<open>adapters/snap_backend.rs\<close>, the parsers of \<open>domain.rs\<close>): which command of a snap is
    its modelctl, and the reads through it, nine commands at most and all of them reads.
    \<open>Backend_Controller\<close> (\<open>backend_controller.rs\<close>): the pages and the requests in flight.
    \<open>Backend_Apply\<close> (\<open>backend_apply.rs\<close>): the preview of a change and its apply.
    \<open>Backend_Ui\<close> (\<open>backend_ui.rs\<close>): the operations the window starts, which compose the above.
  \<^item> \<open>Language\<close> (\<open>myna-core/src/locale.rs\<close>, \<open>language.rs\<close>): the user's languages and the model
    recommended for them. \<open>Onboarding\<close> (\<open>onboarding.rs\<close>, \<open>myna-platform/src/components.rs\<close>): what of
    dictation the machine has, what is installed in which order and when the steps may be left.
    \<open>Wizard\<close> (\<open>onboarding_ui.rs\<close>): the wizard as one event machine, from the button's run and the
    reads of the machine to the final set-up; it never runs two of them at once, asks the
    executor only for plans it accepts, and a run ends.

  \<^item> \<open>Client_Settings\<close> (\<open>myna-core/src/settings.rs\<close>, \<open>mode.rs\<close>, \<open>adapters/client_settings.rs\<close>): the user's
    settings as the daemon reads them and as the page reads and writes them. \<open>Settings_Page\<close>
    (\<open>myna_settings.rs\<close>): the page's controller, its writer and the store as one machine. A row shows
    a change at once and is never left saving; while nobody else writes, the page settles on what
    the store holds. Two runs show where the store's announcements break that.
  \<^item> \<open>Model_Names\<close> (\<open>model_family.rs\<close>): what models and languages are called; the marked ranges of a
    text are the names they are for.
  \<^item> \<open>Performance\<close> (\<open>performance.rs\<close>): the verdict on the CPU's clock and the pressure, from the files
    of \<open>/sys\<close> and \<open>/proc\<close>. \<open>Diagnostics\<close> (\<open>diagnostics.rs\<close>, the facts of \<open>machine.rs\<close>): the report that
    is pasted into public issues. Its lemmas say what the redaction does to each word, and what
    it misses, that the issue's encoding decodes to the report, and where the fields align.

  \<^bold>\<open>How the parts are modelled.\<close> A struct is a record, an enum a datatype, a method a function
  from the state to the new state with what it answers. What arrives from outside (a poll's
  ready branches, a clock, a command's result, a D-Bus signal) is an argument, so a run is a
  list of such arguments and \<open>run_machine\<close> of \<open>Myna_Prelude\<close> folds a step over it. Ports (snapd,
  the repository, \<open>pkexec\<close>, the timer) are records of functions over a state of the world that
  each call may change; what the code relies on of them is a named predicate
  (\<open>snapd_faithful\<close>, \<open>truthful_ports\<close>, \<open>codec_faithful\<close>, \<open>pkexec_honest\<close>), met by the concrete ports of
  the witnesses. Generations and tokens are 64-bit words; a string is its list of code points;
  an \<open>f64\<close> is its bits, compared as IEEE 754 says. A mutex-guarded or single-threaded object is
  stepped one call at a time; shared cancellation flags are a store indexed by token. The
  locales \<open>machine\<close>, \<open>halting_machine\<close> and \<open>latched_output\<close> of the prelude state what an event
  machine promises, and the components interpret them on their own steps.

  \<^bold>\<open>Across components.\<close> \<open>Driver\<close> refines \<open>Fsm\<close>. The set-up and apply plans the window builds are
  those the root validator of \<open>Apply_Plan\<close> accepts (\<open>Backend_Apply\<close>); what \<open>Pkexec\<close> reports is what
  \<open>Apply_Plan\<close>'s executor ran; so an apply that succeeds ran exactly what was previewed, and the
  model answers with it. \<open>Backend_Ui\<close> shares one \<open>Operation_Gate\<close> between switching and applying.
  It also shows a defect: the controller of the pages hands on a snapshot without strays, so a
  switch planned on it is refused as stale whenever there is one. The set-ups of \<open>Wizard\<close> are
  plans of \<open>Apply_Plan\<close> too, for the model \<open>Language\<close> recommends.

  \<^bold>\<open>Bounds.\<close> The HUD supervisor's feeding of an action's own events needs depth one. Waiting for
  snapd takes a bound on its reads, and returns below it when the bound is above the timeout
  over the interval (\<open>wait_for_snapd_returns\<close>). The readiness loop ends by its own count of
  thirty. Following a change and the select loops run for as long as turns are offered. The
  theorems on tokens and generations hold for fewer operations than the 64-bit count has values.
  The settings page's revisions are 64-bit words too; its UI calls are atomic beside the writer's
  three moments. The ids of leases and blips and the instants of \<open>Ibus\<close> are natural numbers. A commit's splitting
  ends for any limit of at least two units, which the limit of 255 is.

  \<^bold>\<open>Not modelled.\<close> Widgets and drawing (\<open>app.rs\<close>, the widgets of \<open>backend_ui.rs\<close> and
  \<open>onboarding_ui.rs\<close>, \<open>myna-hud\<close>): GTK and GL calls. The D-Bus values and connection of the IBus
  engine, the websocket library and the PipeWire capture: I/O against libraries, offered here as
  answers. serde's JSON, base64 and gettext's lookup: third-party code, parameters here; \<open>Json\<close>
  holds the value they exchange, and \<open>Rust_Text\<close> and \<open>Utf8\<close> the text functions of Rust's library. The
  gathering of the machine's facts and the spin probe of its clock: system calls and files. The
  HUD's own state: logic that later work may add.
\<close>

end
